(* ===== verification/Prelude.thy ===== *)
theory Prelude
  imports Complex_Main "HOL-Library.Monad_Syntax"
begin

text \<open>
  Shared vocabulary of the development.

  \<^item> A Rust computation that may panic is a value of type \<open>'a or_panic\<close>: \<^const>\<open>None\<close> is the
    panic, \<open>Some x\<close> the normal return of \<open>x\<close>. A fallible operation (\<open>Result<T, E>\<close>) is a value of
    the sum type \<open>'e + 'a\<close> with \<^const>\<open>Inl\<close> for \<open>Err\<close>.
  \<^item> \<open>vec_index\<close> and \<open>vec_swap\<close> are the bounds-checked operations of a Rust vector.
  \<^item> A \<open>HashMap\<close> is a map \<open>'k \<rightharpoonup> 'v\<close> whose iteration order is not modelled (where the code iterates
    over one, the order is an argument of the model); a \<open>HashSet\<close> is a set.
  \<^item> Named collections: \<open>rust_simps\<close> unfolds the operations of this theory, \<open>state_defs\<close> collects
    the definitions of the components' operations.
\<close>

named_theorems rust_simps \<open>operations of the Rust standard library\<close>

type_synonym 'a or_panic = "'a option"

type_synonym ('e, 'a) result = "'e + 'a"

subsection \<open>Vectors\<close>

definition vec_index :: "'a list \<Rightarrow> nat \<Rightarrow> 'a or_panic" where
  "vec_index xs i = (if i < length xs then Some (xs ! i) else None)"

definition vec_swap :: "'a list \<Rightarrow> nat \<Rightarrow> nat \<Rightarrow> 'a list or_panic" where
  "vec_swap xs i j =
     (if i < length xs \<and> j < length xs then Some (xs[i := xs ! j, j := xs ! i]) else None)"

lemma vec_index_Some [rust_simps, simp]: "i < length xs \<Longrightarrow> vec_index xs i = Some (xs ! i)"
  by (simp add: vec_index_def)

lemma vec_swap_Some [rust_simps, simp]:
  "i < length xs \<Longrightarrow> j < length xs \<Longrightarrow> vec_swap xs i j = Some (xs[i := xs ! j, j := xs ! i])"
  by (simp add: vec_swap_def)

lemma nth_swap:
  "i < length xs \<Longrightarrow> j < length xs \<Longrightarrow> k < length xs \<Longrightarrow>
   xs[i := xs ! j, j := xs ! i] ! k = (if k = i then xs ! j else if k = j then xs ! i else xs ! k)"
  by (auto simp: nth_list_update)

lemma set_swap_nth:
  "i < length xs \<Longrightarrow> j < length xs \<Longrightarrow> set (xs[i := xs ! j, j := xs ! i]) = set xs"
  by (metis set_swap)

lemma distinct_swap_nth:
  "i < length xs \<Longrightarrow> j < length xs \<Longrightarrow> distinct (xs[i := xs ! j, j := xs ! i]) = distinct xs"
  by (metis distinct_swap)

lemma vec_swap_self: "i < length xs \<Longrightarrow> xs[i := xs ! i, i := xs ! i] = xs"
  by simp

subsection \<open>Options and maps\<close>

lemma bind_eq_Some_conv:
  "Option.bind m f = Some y \<longleftrightarrow> (\<exists>x. m = Some x \<and> f x = Some y)"
  by (cases m) auto

lemma map_upd_comp_None: "(m(k := None)) x = (if x = k then None else m x)"
  by simp

lemma dom_restrict_upd [simp]: "dom (m(k := None)) = dom m - {k}"
  by auto

subsection \<open>Labelled runs\<close>

text \<open>An interleaving of a component's critical sections is a run of its step relation; a label says
  which operation ran and what it answered.\<close>

inductive runs :: "('s \<Rightarrow> 'l \<Rightarrow> 's \<Rightarrow> bool) \<Rightarrow> 's \<Rightarrow> 'l list \<Rightarrow> 's \<Rightarrow> bool" for step where
  runs_nil: "runs step s [] s"
| runs_snoc: "runs step s ls s' \<Longrightarrow> step s' l s'' \<Longrightarrow> runs step s (ls @ [l]) s''"

inductive_simps runs_Nil_simp [simp]: "runs step s [] s'"

lemma runs_append_iff:
  "runs step s (xs @ ys) u \<longleftrightarrow> (\<exists>t. runs step s xs t \<and> runs step t ys u)"
proof
  assume "runs step s (xs @ ys) u"
  then show "\<exists>t. runs step s xs t \<and> runs step t ys u"
  proof (induction "xs @ ys" u arbitrary: ys rule: runs.induct)
    case (runs_snoc ls s' l s'')
    then show ?case
      by (cases ys rule: rev_cases) (auto intro: runs.intros)
  qed (auto intro: runs.intros)
next
  have "runs step s xs t \<Longrightarrow> runs step t ys u \<Longrightarrow> runs step s (xs @ ys) u" for t
    by (rotate_tac, induction rule: runs.induct) (auto intro: runs.intros simp flip: append_assoc)
  then show "\<exists>t. runs step s xs t \<and> runs step t ys u \<Longrightarrow> runs step s (xs @ ys) u"
    by blast
qed

lemma runs_single [simp]: "runs step s [l] s' \<longleftrightarrow> step s l s'"
  by (metis append_Nil runs.cases runs.intros snoc_eq_iff_butlast butlast_snoc last_snoc)

text \<open>A component whose steps keep an invariant has it in every reachable state.\<close>

locale inv_system =
  fixes step :: "'s \<Rightarrow> 'l \<Rightarrow> 's \<Rightarrow> bool" and inv :: "'s \<Rightarrow> bool"
  assumes step_inv: "step s l s' \<Longrightarrow> inv s \<Longrightarrow> inv s'"
begin

lemma runs_inv: "runs step s ls s' \<Longrightarrow> inv s \<Longrightarrow> inv s'"
  by (induction rule: runs.induct) (auto intro: step_inv)

end

text \<open>A component that owes something to its client (a key to hand out) keeps owing it until the step
  that delivers it.\<close>

locale owing_system = inv_system step inv
  for step :: "'s \<Rightarrow> 'l \<Rightarrow> 's \<Rightarrow> bool" and inv :: "'s \<Rightarrow> bool" +
  fixes owes :: "'s \<Rightarrow> bool" and delivers :: "'l \<Rightarrow> bool"
  assumes step_owes: "step s l s' \<Longrightarrow> inv s \<Longrightarrow> owes s \<Longrightarrow> delivers l \<or> owes s'"
begin

lemma runs_owes:
  assumes "runs step s ls s'" and "inv s" and "owes s"
  shows "(\<exists>l\<in>set ls. delivers l) \<or> owes s'"
  using assms by (induction rule: runs.induct) (auto dest: step_owes runs_inv)

end

lemma runs_Cons_iff [simp]: "runs step s (l # ls) u \<longleftrightarrow> (\<exists>t. step s l t \<and> runs step t ls u)"
  using runs_append_iff [of step s "[l]" ls u] by auto

end
