(* ===== verification/KeyedHeap.thy ===== *)
theory KeyedHeap
  imports Prelude
begin

text \<open>
  The keyed heap of the scheduling queue (\<^verbatim>\<open>crates/scheduler/src/queue/heap.rs\<close>): a binary heap of
  keys (\<open>queue\<close>) with a hash map from keys to items, each of which stores its own position in the
  heap, so that an item can be updated or removed by key. Every bounds check and every \<open>expect\<close> of
  the source is a possible panic (\<^const>\<open>None\<close>) of the model.

  Shown here: the positions and the keys stay consistent, so no operation panics; with a strict weak
  order as comparison every operation keeps the heap order, \<open>pop\<close> returns an item that nothing in
  the heap precedes, and the heap implements a map from keys to items.
\<close>

section \<open>Definitions\<close>

record 't heap_item =
  hi_obj :: 't
  hi_index :: nat

record 't heap =
  hp_items :: "string \<rightharpoonup> 't heap_item"
  hp_queue :: "string list"
  hp_key_fn :: "'t \<Rightarrow> string"
  hp_less_fn :: "'t \<Rightarrow> 't \<Rightarrow> bool"

definition heap_new :: "('t \<Rightarrow> string) \<Rightarrow> ('t \<Rightarrow> 't \<Rightarrow> bool) \<Rightarrow> 't heap" where
  "heap_new kf lf =
     \<lparr>hp_items = Map.empty, hp_queue = [], hp_key_fn = kf, hp_less_fn = lf\<rparr>"

definition heap_less :: "'t heap \<Rightarrow> nat \<Rightarrow> nat \<Rightarrow> bool or_panic" where
  "heap_less h i j =
     do { ki \<leftarrow> vec_index (hp_queue h) i;
          kj \<leftarrow> vec_index (hp_queue h) j;
          Some (case (hp_items h ki, hp_items h kj) of
                  (Some a, Some b) \<Rightarrow> hp_less_fn h (hi_obj a) (hi_obj b)
                | _ \<Rightarrow> False) }"

text \<open>\<open>if let Some(it) = self.items.get_mut(&k) { it.index = i; }\<close>\<close>

definition set_item_index ::
  "(string \<rightharpoonup> 't heap_item) \<Rightarrow> string \<Rightarrow> nat \<Rightarrow> (string \<rightharpoonup> 't heap_item)" where
  "set_item_index m k i =
     (case m k of None \<Rightarrow> m | Some it \<Rightarrow> m(k \<mapsto> it\<lparr>hi_index := i\<rparr>))"

definition heap_swap :: "'t heap \<Rightarrow> nat \<Rightarrow> nat \<Rightarrow> 't heap or_panic" where
  "heap_swap h i j =
     do { q \<leftarrow> vec_swap (hp_queue h) i j;
          ki \<leftarrow> vec_index q i;
          kj \<leftarrow> vec_index q j;
          Some (h\<lparr>hp_queue := q,
                  hp_items := set_item_index (set_item_index (hp_items h) ki i) kj j\<rparr>) }"

fun heap_up :: "'t heap \<Rightarrow> nat \<Rightarrow> 't heap or_panic" where
  "heap_up h j =
     (if j > 0 then
        (let i = (j - 1) div 2 in
         if i = j then Some h
         else do { lt \<leftarrow> heap_less h j i;
                   if \<not> lt then Some h
                   else do { h' \<leftarrow> heap_swap h i j; heap_up h' i } })
      else Some h)"

declare heap_up.simps [simp del]

text \<open>The loop of \<open>down\<close>: the heap and the final position of the element.\<close>

function heap_down_loop :: "'t heap \<Rightarrow> nat \<Rightarrow> nat \<Rightarrow> ('t heap \<times> nat) or_panic" where
  "heap_down_loop h i n =
     (let j1 = 2 * i + 1 in
      if j1 \<ge> n then Some (h, i)
      else
        (let j2 = j1 + 1 in
         do { right \<leftarrow> (if j2 < n then heap_less h j2 j1 else Some False);
              (let j = (if right then j2 else j1) in
               do { lt \<leftarrow> heap_less h j i;
                    if \<not> lt then Some (h, i)
                    else do { h' \<leftarrow> heap_swap h i j; heap_down_loop h' j n } }) }))"
  by pat_completeness auto
termination
  by (relation "measure (\<lambda>(h, i, n). n - i)") (auto split: if_splits)

declare heap_down_loop.simps [simp del]

definition heap_down :: "'t heap \<Rightarrow> nat \<Rightarrow> nat \<Rightarrow> ('t heap \<times> bool) or_panic" where
  "heap_down h i0 n = do { (h', i) \<leftarrow> heap_down_loop h i0 n; Some (h', i > i0) }"

definition heap_fix :: "'t heap \<Rightarrow> nat \<Rightarrow> 't heap or_panic" where
  "heap_fix h i =
     do { (h', moved) \<leftarrow> heap_down h i (length (hp_queue h));
          if \<not> moved then heap_up h' i else Some h' }"

definition heap_remove_at :: "'t heap \<Rightarrow> nat \<Rightarrow> ('t \<times> 't heap) or_panic" where
  "heap_remove_at h i =
     (if hp_queue h = [] then None
      else
        (let n = length (hp_queue h) - 1 in
         do { h1 \<leftarrow> (if n \<noteq> i
                     then do { h1 \<leftarrow> heap_swap h i n;
                               (h2, moved) \<leftarrow> heap_down h1 i n;
                               if \<not> moved then heap_up h2 i else Some h2 }
                     else Some h);
              (let key = last (hp_queue h1) in
               case hp_items h1 key of
                 None \<Rightarrow> None
               | Some it \<Rightarrow>
                   Some (hi_obj it, h1\<lparr>hp_queue := butlast (hp_queue h1),
                                       hp_items := (hp_items h1)(key := None)\<rparr>)) }))"

definition heap_add_or_update :: "'t heap \<Rightarrow> 't \<Rightarrow> 't heap or_panic" where
  "heap_add_or_update h obj =
     (let key = hp_key_fn h obj in
      case hp_items h key of
        Some item \<Rightarrow>
          heap_fix (h\<lparr>hp_items := (hp_items h)(key \<mapsto> item\<lparr>hi_obj := obj\<rparr>)\<rparr>) (hi_index item)
      | None \<Rightarrow>
          (let n = length (hp_queue h) in
           heap_up (h\<lparr>hp_items := (hp_items h)(key \<mapsto> \<lparr>hi_obj = obj, hi_index = n\<rparr>),
                      hp_queue := hp_queue h @ [key]\<rparr>) n))"

definition heap_delete_by_key :: "'t heap \<Rightarrow> string \<Rightarrow> ((string, 't) result \<times> 't heap) or_panic" where
  "heap_delete_by_key h key =
     (case hp_items h key of
        Some item \<Rightarrow> do { (x, h') \<leftarrow> heap_remove_at h (hi_index item); Some (Inr x, h') }
      | None \<Rightarrow> Some (Inl ''object not found'', h))"

definition heap_delete :: "'t heap \<Rightarrow> 't \<Rightarrow> ((string, 't) result \<times> 't heap) or_panic" where
  "heap_delete h obj = heap_delete_by_key h (hp_key_fn h obj)"

definition heap_get_by_key :: "'t heap \<Rightarrow> string \<Rightarrow> 't option" where
  "heap_get_by_key h key = map_option hi_obj (hp_items h key)"

definition heap_peek :: "'t heap \<Rightarrow> 't option" where
  "heap_peek h = (case hp_queue h of [] \<Rightarrow> None | k # _ \<Rightarrow> map_option hi_obj (hp_items h k))"

definition heap_pop :: "'t heap \<Rightarrow> ((string, 't) result \<times> 't heap) or_panic" where
  "heap_pop h =
     (if hp_queue h = [] then Some (Inl ''heap is empty'', h)
      else do { (x, h') \<leftarrow> heap_remove_at h 0; Some (Inr x, h') })"

definition heap_get :: "'t heap \<Rightarrow> 't \<Rightarrow> 't option" where
  "heap_get h obj = heap_get_by_key h (hp_key_fn h obj)"

text \<open>\<open>get_mut_by_key\<close> hands out a mutable reference; the model takes the caller's write as the
  function \<open>f\<close> it applies to the object.\<close>

definition heap_get_mut_by_key :: "'t heap \<Rightarrow> string \<Rightarrow> ('t \<Rightarrow> 't) \<Rightarrow> 't heap" where
  "heap_get_mut_by_key h key f =
     (case hp_items h key of
        None \<Rightarrow> h
      | Some it \<Rightarrow> h\<lparr>hp_items := (hp_items h)(key \<mapsto> it\<lparr>hi_obj := f (hi_obj it)\<rparr>)\<rparr>)"

definition heap_has_key :: "'t heap \<Rightarrow> string \<Rightarrow> bool" where
  "heap_has_key h key = (hp_items h key \<noteq> None)"

definition heap_has :: "'t heap \<Rightarrow> 't \<Rightarrow> bool" where
  "heap_has h obj = heap_has_key h (hp_key_fn h obj)"

text \<open>\<open>list\<close> iterates over the hash map, in no particular order: the model keeps the set.\<close>

definition heap_list :: "'t heap \<Rightarrow> 't set" where
  "heap_list h = hi_obj ` ran (hp_items h)"

definition heap_len :: "'t heap \<Rightarrow> nat" where
  "heap_len h = length (hp_queue h)"

definition heap_is_empty :: "'t heap \<Rightarrow> bool" where
  "heap_is_empty h = (hp_queue h = [])"

section \<open>Consistency of keys and positions\<close>

definition heap_wf :: "'t heap \<Rightarrow> bool" where
  "heap_wf h \<longleftrightarrow>
     distinct (hp_queue h) \<and>
     dom (hp_items h) = set (hp_queue h) \<and>
     (\<forall>i < length (hp_queue h). \<exists>it. hp_items h (hp_queue h ! i) = Some it \<and> hi_index it = i) \<and>
     (\<forall>k it. hp_items h k = Some it \<longrightarrow> hp_key_fn h (hi_obj it) = k)"

text \<open>The object at a position, and the two abstractions: the map and the comparison.\<close>

definition heap_at :: "'t heap \<Rightarrow> nat \<Rightarrow> 't" where
  "heap_at h i = hi_obj (the (hp_items h (hp_queue h ! i)))"

lemma heap_at_get: "heap_at h i = the (heap_get_by_key h (hp_queue h ! i))"
  if "hp_items h (hp_queue h ! i) \<noteq> None"
  using that by (auto simp: heap_at_def heap_get_by_key_def)

text \<open>Two heaps with the same contents and the same functions.\<close>

definition same_content :: "'t heap \<Rightarrow> 't heap \<Rightarrow> bool" where
  "same_content h h' \<longleftrightarrow>
     heap_get_by_key h' = heap_get_by_key h \<and> length (hp_queue h') = length (hp_queue h) \<and>
     hp_key_fn h' = hp_key_fn h \<and> hp_less_fn h' = hp_less_fn h"

lemma same_content_refl [simp]: "same_content h h"
  by (simp add: same_content_def)

lemma same_content_trans: "same_content h h1 \<Longrightarrow> same_content h1 h2 \<Longrightarrow> same_content h h2"
  by (simp add: same_content_def)

lemma heap_wfD_item:
  assumes "heap_wf h" "i < length (hp_queue h)"
  obtains it where "hp_items h (hp_queue h ! i) = Some it" "hi_index it = i"
  using assms unfolding heap_wf_def by blast

lemma heap_wf_position:
  assumes wf: "heap_wf h" and it: "hp_items h k = Some it"
  shows "hi_index it < length (hp_queue h) \<and> hp_queue h ! hi_index it = k"
proof -
  have "k \<in> set (hp_queue h)" using wf it by (auto simp: heap_wf_def)
  then obtain i where i: "i < length (hp_queue h)" "hp_queue h ! i = k"
    by (auto simp: in_set_conv_nth)
  then show ?thesis using heap_wfD_item [OF wf i(1)] it by auto
qed

lemma heap_less_Some:
  assumes wf: "heap_wf h" and i: "i < length (hp_queue h)" and j: "j < length (hp_queue h)"
  shows "heap_less h i j = Some (hp_less_fn h (heap_at h i) (heap_at h j))"
proof -
  obtain a where "hp_items h (hp_queue h ! i) = Some a" using heap_wfD_item [OF wf i] .
  moreover obtain b where "hp_items h (hp_queue h ! j) = Some b" using heap_wfD_item [OF wf j] .
  ultimately show ?thesis using i j by (simp add: heap_less_def heap_at_def)
qed

text \<open>The positions after a swap.\<close>

definition swapped :: "nat \<Rightarrow> nat \<Rightarrow> (nat \<Rightarrow> 'a) \<Rightarrow> nat \<Rightarrow> 'a" where
  "swapped i j v k = (if k = i then v j else if k = j then v i else v k)"

definition swap_post :: "'t heap \<Rightarrow> nat \<Rightarrow> nat \<Rightarrow> 't heap \<Rightarrow> bool" where
  "swap_post h i j h' \<longleftrightarrow> heap_wf h' \<and> same_content h h' \<and>
     (\<forall>k < length (hp_queue h). heap_at h' k = swapped i j (heap_at h) k) \<and>
     hp_queue h' = (hp_queue h)[i := hp_queue h ! j, j := hp_queue h ! i]"

lemma set_item_index_same: "m k = Some it \<Longrightarrow> hi_index it = i \<Longrightarrow> set_item_index m k i = m"
  by (auto simp: set_item_index_def)

lemma heap_swap_self:
  assumes wf: "heap_wf h" and i: "i < length (hp_queue h)"
  shows "heap_swap h i i = Some h \<and> swap_post h i i h"
proof -
  from heap_wfD_item [OF wf i] obtain a where "hp_items h (hp_queue h ! i) = Some a" "hi_index a = i" .
  then show ?thesis
    using i wf by (simp add: heap_swap_def set_item_index_same swap_post_def swapped_def)
qed

lemma heap_swap_distinct:
  assumes wf: "heap_wf h" and i: "i < length (hp_queue h)" and j: "j < length (hp_queue h)"
    and ij: "i \<noteq> j"
  shows "\<exists>h'. heap_swap h i j = Some h' \<and> swap_post h i j h'"
proof -
  let ?q = "hp_queue h"
  let ?q' = "?q[i := ?q ! j, j := ?q ! i]"
  from heap_wfD_item [OF wf i] obtain a where a: "hp_items h (?q ! i) = Some a" "hi_index a = i" .
  from heap_wfD_item [OF wf j] obtain b where b: "hp_items h (?q ! j) = Some b" "hi_index b = j" .
  have inj: "?q ! k = ?q ! l \<longleftrightarrow> k = l" if "k < length ?q" "l < length ?q" for k l
    using wf that by (simp add: heap_wf_def nth_eq_iff_index_eq)
  define m where "m = (hp_items h)(?q ! j \<mapsto> b\<lparr>hi_index := i\<rparr>, ?q ! i \<mapsto> a\<lparr>hi_index := j\<rparr>)"
  define h' where "h' = h\<lparr>hp_queue := ?q', hp_items := m\<rparr>"
  have q': "?q' ! k = (if k = i then ?q ! j else if k = j then ?q ! i else ?q ! k)"
    if "k < length ?q" for k using nth_swap [OF i j that] .
  have eq: "heap_swap h i j = Some h'"
    using i j ij a b inj [OF i j]
    by (simp add: heap_swap_def q' m_def h'_def set_item_index_def)
  have content: "same_content h h'"
    using a b by (simp add: same_content_def h'_def m_def heap_get_by_key_def fun_eq_iff)
  have mk: "m (?q' ! k) = Some (if k = i then b\<lparr>hi_index := i\<rparr> else if k = j then a\<lparr>hi_index := j\<rparr>
                               else the (hp_items h (?q ! k)))" if k: "k < length ?q" for k
  proof -
    from heap_wfD_item [OF wf k] obtain c where "hp_items h (?q ! k) = Some c" .
    then show ?thesis using inj [OF k i] inj [OF k j] inj [OF j i] ij by (simp add: q' [OF k] m_def)
  qed
  have idx: "\<exists>it. m (?q' ! k) = Some it \<and> hi_index it = k" if k: "k < length ?q" for k
  proof -
    from heap_wfD_item [OF wf k] obtain c where "hp_items h (?q ! k) = Some c" "hi_index c = k" .
    then show ?thesis using mk [OF k] by simp
  qed
  have "dom m = dom (hp_items h)" using a b by (auto simp: m_def)
  then have dom: "dom m = set ?q'" using wf set_swap_nth [OF i j] by (simp add: heap_wf_def)
  have keys: "hp_key_fn h (hi_obj it) = k" if "m k = Some it" for k it
    using wf that a b unfolding heap_wf_def m_def by (auto split: if_splits)
  have "heap_wf h'"
    unfolding heap_wf_def h'_def using wf distinct_swap_nth [OF i j] dom idx keys
    by (simp add: heap_wf_def del: distinct_swap set_swap)
  moreover have "heap_at h' k = swapped i j (heap_at h) k" if k: "k < length ?q" for k
    using mk [OF k] a b by (simp add: heap_at_def h'_def swapped_def)
  ultimately show ?thesis using eq content unfolding swap_post_def by (simp add: h'_def)
qed

lemma heap_swap_Some:
  assumes "heap_wf h" "i < length (hp_queue h)" "j < length (hp_queue h)"
  obtains h' where "heap_swap h i j = Some h'" "swap_post h i j h'"
  using heap_swap_self [OF assms(1,2)] heap_swap_distinct [OF assms] by (cases "i = j") auto

section \<open>Heap order\<close>

text \<open>The parent of position \<open>j > 0\<close>, and the order on the first \<open>n\<close> positions: no element
  precedes its parent. \<open>defect\<close> allows one bad position: with \<open>up\<close> its own edge to the parent,
  with \<open>down\<close> the edges to its children; the children of the bad position never precede its
  parent.\<close>

definition par :: "nat \<Rightarrow> nat" where
  "par j = (j - 1) div 2"

definition order_upto :: "('t \<Rightarrow> 't \<Rightarrow> bool) \<Rightarrow> nat \<Rightarrow> (nat \<Rightarrow> 't) \<Rightarrow> bool" where
  "order_upto prec n v \<longleftrightarrow> (\<forall>j. 0 < j \<and> j < n \<longrightarrow> \<not> prec (v j) (v (par j)))"

definition defect ::
  "bool \<Rightarrow> bool \<Rightarrow> ('t \<Rightarrow> 't \<Rightarrow> bool) \<Rightarrow> nat \<Rightarrow> (nat \<Rightarrow> 't) \<Rightarrow> nat \<Rightarrow> bool" where
  "defect up down prec n v i \<longleftrightarrow>
     (\<forall>j. 0 < j \<and> j < n \<and> (up \<longrightarrow> j \<noteq> i) \<and> (down \<longrightarrow> par j \<noteq> i) \<longrightarrow> \<not> prec (v j) (v (par j))) \<and>
     (\<forall>j. 0 < j \<and> j < n \<and> par j = i \<and> 0 < i \<longrightarrow> \<not> prec (v j) (v (par i)))"

lemma par_less: "0 < j \<Longrightarrow> par j < j"
  by (simp add: par_def)

lemma par_children: "0 < j \<Longrightarrow> par j = i \<longleftrightarrow> j = 2 * i + 1 \<or> j = 2 * i + 2"
  unfolding par_def by presburger

lemma defect_cong:
  assumes "\<And>k. k < n \<Longrightarrow> v k = w k" "i < n"
  shows "defect up down prec n v i = defect up down prec n w i"
proof -
  have "par j < n" if "j < n" for j using that by (simp add: par_def)
  then show ?thesis using assms unfolding defect_def by simp
qed

lemma order_upto_cong:
  assumes "\<And>k. k < n \<Longrightarrow> v k = w k"
  shows "order_upto prec n v = order_upto prec n w"
proof -
  have "par j < n" if "j < n" for j using that by (simp add: par_def)
  then show ?thesis using assms unfolding order_upto_def by simp
qed

text \<open>A comparison that is asymmetric and whose negation is transitive: what a \<open>less_fn\<close> has to be
  for the heap to be ordered.\<close>

locale strict_weak_order =
  fixes prec :: "'t \<Rightarrow> 't \<Rightarrow> bool"
  assumes asym: "prec a b \<Longrightarrow> \<not> prec b a"
    and negtrans: "\<not> prec a b \<Longrightarrow> \<not> prec b c \<Longrightarrow> \<not> prec a c"
begin

lemma irrefl: "\<not> prec a a"
  using asym by blast

lemma less_trans: "prec a b \<Longrightarrow> prec b c \<Longrightarrow> prec a c"
  using asym negtrans by blast

lemma order_defect: "order_upto prec n v \<Longrightarrow> defect up down prec n v i"
  unfolding order_upto_def defect_def
  by (metis negtrans par_less order.strict_trans)

lemma defect_weaken: "defect up down prec n v i \<Longrightarrow> (up \<longrightarrow> up') \<Longrightarrow> (down \<longrightarrow> down') \<Longrightarrow>
    defect up' down' prec n v i"
  unfolding defect_def by blast

lemma defect_up_stop:
  "defect True False prec n v i \<Longrightarrow> i = 0 \<or> \<not> prec (v i) (v (par i)) \<Longrightarrow> order_upto prec n v"
  unfolding defect_def order_upto_def by blast

lemma defect_up_step:
  assumes d: "defect True False prec n v i" and i: "0 < i" "i < n" and lt: "prec (v i) (v (par i))"
  shows "defect True False prec n (swapped (par i) i v) (par i)"
proof -
  let ?p = "par i" and ?w = "swapped (par i) i v"
  have p: "?p < i" using i par_less by blast
  have old: "\<not> prec (v j) (v (par j))" if "0 < j" "j < n" "j \<noteq> i" for j
    using d that unfolding defect_def by blast
  have "\<not> prec (?w j) (?w (par j))" if j: "0 < j" "j < n" "j \<noteq> ?p" for j
  proof (cases "j = i")
    case True then show ?thesis using lt asym p by (simp add: swapped_def)
  next
    case False
    note j' = False
    show ?thesis
    proof (cases "par j = i")
      case True
      then have "\<not> prec (v j) (v ?p)" using d j i unfolding defect_def by blast
      then show ?thesis using True j j' p by (simp add: swapped_def)
    next
      case False
      have "\<not> prec (v j) (v i)" if "par j = ?p"
        using negtrans [OF old [OF j(1,2) j'] asym [OF lt, folded that]] by (simp add: that)
      then show ?thesis using False old [OF j(1,2) j'] j(3) j' by (simp add: swapped_def)
    qed
  qed
  moreover have "\<not> prec (?w j) (?w (par ?p))" if j: "0 < j" "j < n" "par j = ?p" "0 < ?p" for j
  proof -
    have pp: "par ?p < ?p" using j(4) par_less by blast
    have up: "\<not> prec (v ?p) (v (par ?p))" using old [of ?p] j p i by simp
    have "par ?p \<noteq> i" "par ?p \<noteq> ?p" using pp p by auto
    then have w: "?w (par ?p) = v (par ?p)" by (simp add: swapped_def)
    show ?thesis
    proof (cases "j = i")
      case True then show ?thesis using up p w by (simp add: swapped_def)
    next
      case False
      moreover have "j \<noteq> ?p" using par_less [OF j(1)] j(3) by simp
      ultimately show ?thesis
        using negtrans [OF old [OF j(1,2) False, unfolded j(3)] up] w by (simp add: swapped_def)
    qed
  qed
  ultimately show ?thesis unfolding defect_def by blast
qed

text \<open>The child that \<open>down\<close> compares with: no child of \<open>i\<close> precedes it.\<close>

definition best_child :: "nat \<Rightarrow> (nat \<Rightarrow> 't) \<Rightarrow> nat \<Rightarrow> nat" where
  "best_child n v i =
     (if 2 * i + 2 < n \<and> prec (v (2 * i + 2)) (v (2 * i + 1)) then 2 * i + 2 else 2 * i + 1)"

lemma best_child_min:
  "j < n \<Longrightarrow> 0 < j \<Longrightarrow> par j = i \<Longrightarrow> \<not> prec (v j) (v (best_child n v i))"
  using asym irrefl by (auto simp: par_children best_child_def)

lemma par_best_child [simp]: "par (best_child n v i) = i"
  by (simp add: best_child_def par_def)

lemma best_child_bounds: "2 * i + 1 < n \<Longrightarrow> best_child n v i < n" "i < best_child n v i"
  by (auto simp: best_child_def)

lemma defect_down_stop:
  assumes d: "defect up True prec n v i"
    and stop: "2 * i + 1 \<ge> n \<or> \<not> prec (v (best_child n v i)) (v i)"
  shows "defect up False prec n v i"
proof -
  have "\<not> prec (v j) (v (par j))" if "0 < j" "j < n" "par j = i" for j
  proof -
    have "\<not> 2 * i + 1 \<ge> n" using that by (auto simp: par_children)
    then show ?thesis using best_child_min [OF that(2,1,3)] stop negtrans that(3) by blast
  qed
  then show ?thesis using d unfolding defect_def by blast
qed

lemma defect_none: "defect False False prec n v i \<Longrightarrow> order_upto prec n v"
  unfolding defect_def order_upto_def by blast

lemma defect_down_step:
  assumes d: "defect up True prec n v i" and i: "2 * i + 1 < n"
    and lt: "prec (v (best_child n v i)) (v i)"
  shows "defect False True prec n (swapped i (best_child n v i) v) (best_child n v i)"
proof -
  let ?c = "best_child n v i"
  let ?w = "swapped i ?c v"
  have c: "?c < n" "i < ?c" using best_child_bounds i by auto
  have "\<not> prec (?w j) (?w (par j))" if j: "0 < j" "j < n" "par j \<noteq> ?c" for j
  proof -
    consider "j = ?c" | "j = i" | "par j = i" "j \<noteq> ?c" | "j \<noteq> i" "j \<noteq> ?c" "par j \<noteq> i" by blast
    then show ?thesis
    proof cases
      case 1 then show ?thesis using lt asym c by (simp add: swapped_def)
    next
      case 2
      then have "\<not> prec (v ?c) (v (par i))" using d c j unfolding defect_def by auto
      moreover have "par i \<noteq> i" "par i \<noteq> ?c" using 2 j par_less [of i] c by auto
      ultimately show ?thesis using 2 by (simp add: swapped_def)
    next
      case 3
      then have "j \<noteq> i" using j par_less [of j] by auto
      then show ?thesis using 3 best_child_min [OF j(2,1) 3(1)] by (simp add: swapped_def)
    next
      case 4
      then show ?thesis using d j unfolding defect_def by (simp add: swapped_def)
    qed
  qed
  moreover have "\<not> prec (?w j) (?w (par ?c))" if j: "0 < j" "j < n" "par j = ?c" for j
  proof -
    have "j \<noteq> ?c" "j \<noteq> i" using j par_less [of j] c by auto
    moreover have "par j \<noteq> i" using j c by simp
    ultimately have "\<not> prec (v j) (v ?c)" using d j unfolding defect_def by metis
    then show ?thesis using \<open>j \<noteq> ?c\<close> \<open>j \<noteq> i\<close> by (simp add: swapped_def)
  qed
  ultimately show ?thesis unfolding defect_def by blast
qed

lemma order_root_min: "order_upto prec n v \<Longrightarrow> k < n \<Longrightarrow> \<not> prec (v k) (v 0)"
proof (induction k rule: less_induct)
  case (less k)
  show ?case
  proof (cases "k = 0")
    case False
    then have "par k < k" "par k < n" using par_less less.prems(2) by (auto simp: par_def)
    then have "\<not> prec (v (par k)) (v 0)" using less by blast
    moreover have "\<not> prec (v k) (v (par k))"
      using less.prems False unfolding order_upto_def by simp
    ultimately show ?thesis using negtrans by blast
  qed (simp add: irrefl)
qed

end

section \<open>The loops\<close>

text \<open>What a loop over the first \<open>n\<close> positions leaves: a consistent heap with the same contents,
  untouched beyond \<open>n\<close>.\<close>

definition loop_post :: "nat \<Rightarrow> 't heap \<Rightarrow> 't heap \<Rightarrow> bool" where
  "loop_post n h h' \<longleftrightarrow> heap_wf h' \<and> same_content h h' \<and>
     (\<forall>k. n \<le> k \<and> k < length (hp_queue h) \<longrightarrow> hp_queue h' ! k = hp_queue h ! k)"

lemma loop_post_refl [simp]: "heap_wf h \<Longrightarrow> loop_post n h h"
  by (simp add: loop_post_def)

lemma loop_post_trans: "loop_post n h h1 \<Longrightarrow> loop_post n h1 h2 \<Longrightarrow> loop_post n h h2"
  by (auto simp: loop_post_def same_content_def)

lemma loop_post_swap: "swap_post h i j h' \<Longrightarrow> i < n \<Longrightarrow> j < n \<Longrightarrow> loop_post n h h'"
  by (auto simp: loop_post_def swap_post_def)

lemma loop_postD:
  assumes "loop_post n h h'"
  shows "heap_wf h'" "length (hp_queue h') = length (hp_queue h)" "hp_less_fn h' = hp_less_fn h"
    "hp_key_fn h' = hp_key_fn h" "heap_get_by_key h' = heap_get_by_key h"
  using assms by (simp_all add: loop_post_def same_content_def)

lemma swap_post_at:
  assumes "swap_post h i j h'" "n \<le> length (hp_queue h)" "m < n"
  shows "defect up down prec n (heap_at h') m = defect up down prec n (swapped i j (heap_at h)) m"
  using assms by (intro defect_cong) (auto simp: swap_post_def)

abbreviation heap_defect :: "bool \<Rightarrow> bool \<Rightarrow> nat \<Rightarrow> 't heap \<Rightarrow> nat \<Rightarrow> bool" where
  "heap_defect up down n h i \<equiv> defect up down (hp_less_fn h) n (heap_at h) i"

definition heap_ordered_upto :: "nat \<Rightarrow> 't heap \<Rightarrow> bool" where
  "heap_ordered_upto n h \<longleftrightarrow> order_upto (hp_less_fn h) n (heap_at h)"

lemma heap_up_post:
  assumes "heap_wf h" "j < n" "n \<le> length (hp_queue h)"
  shows "\<exists>h'. heap_up h j = Some h' \<and> loop_post n h h' \<and>
           (strict_weak_order (hp_less_fn h) \<longrightarrow> heap_defect True False n h j \<longrightarrow>
              heap_ordered_upto n h')"
  using assms
proof (induction j arbitrary: h rule: less_induct)
  case (less j)
  note wf = less.prems(1) and jn = less.prems(2) and n = less.prems(3)
  show ?case
  proof (cases "j = 0")
    case True
    then have "heap_up h j = Some h" by (simp add: heap_up.simps)
    then show ?thesis
      using wf True by (auto simp: heap_ordered_upto_def intro: strict_weak_order.defect_up_stop)
  next
    case False
    then have p: "par j < j" by (simp add: par_less)
    then have pn: "par j < length (hp_queue h)" "j < length (hp_queue h)" using jn n by auto
    have lt: "heap_less h j (par j) = Some (hp_less_fn h (heap_at h j) (heap_at h (par j)))"
      using heap_less_Some [OF wf pn(2,1)] .
    have unf: "heap_up h j = (if \<not> hp_less_fn h (heap_at h j) (heap_at h (par j)) then Some h
        else do { h' \<leftarrow> heap_swap h (par j) j; heap_up h' (par j) })"
      using False p lt by (subst heap_up.simps) (simp add: Let_def par_def)
    show ?thesis
    proof (cases "hp_less_fn h (heap_at h j) (heap_at h (par j))")
      case False
      then show ?thesis
        using wf unf by (auto simp: heap_ordered_upto_def intro: strict_weak_order.defect_up_stop)
    next
      case True
      obtain h1 where h1: "heap_swap h (par j) j = Some h1" "swap_post h (par j) j h1"
        using heap_swap_Some [OF wf pn] .
      have lp: "loop_post n h h1" using loop_post_swap [OF h1(2)] p jn by simp
      note d = loop_postD [OF lp]
      obtain h2 where h2: "heap_up h1 (par j) = Some h2" "loop_post n h1 h2"
        and ord: "strict_weak_order (hp_less_fn h1) \<longrightarrow> heap_defect True False n h1 (par j) \<longrightarrow>
              heap_ordered_upto n h2"
        using less.IH [OF p d(1)] d(2) p jn n by auto
      have "heap_ordered_upto n h2"
        if swo: "strict_weak_order (hp_less_fn h)" and def: "heap_defect True False n h j"
      proof -
        have "defect True False (hp_less_fn h) n (swapped (par j) j (heap_at h)) (par j)"
          using strict_weak_order.defect_up_step [OF swo def _ jn True] \<open>j \<noteq> 0\<close> by simp
        then show ?thesis using ord swo swap_post_at [OF h1(2) n] d(3) p jn by simp
      qed
      then show ?thesis using unf True h1 h2 loop_post_trans [OF lp h2(2)] by simp
    qed
  qed
qed

text \<open>\<open>down\<close> from a position with both defects: if the element moves, the order is restored; if it
  stays, only the edge to its parent may still be bad.\<close>

lemma heap_down_loop_unfold:
  assumes wf: "heap_wf h" and n: "n \<le> length (hp_queue h)" and i: "2 * i + 1 < n"
    and swo: "c = (if 2 * i + 2 < n \<and> hp_less_fn h (heap_at h (2 * i + 2)) (heap_at h (2 * i + 1))
                   then 2 * i + 2 else 2 * i + 1)"
  shows "heap_down_loop h i n =
    (if \<not> hp_less_fn h (heap_at h c) (heap_at h i) then Some (h, i)
     else do { h' \<leftarrow> heap_swap h i c; heap_down_loop h' c n })"
proof -
  have c: "c < length (hp_queue h)" "i < length (hp_queue h)" "2 * i + 1 < length (hp_queue h)"
    using i n by (auto simp: swo)
  have right: "(if 2 * i + 1 + 1 < n then heap_less h (2 * i + 1 + 1) (2 * i + 1) else Some False) =
      Some (c = 2 * i + 2)"
    using heap_less_Some [OF wf _ c(3), of "2 * i + 2"] n by (simp add: swo)
  show ?thesis
    using i heap_less_Some [OF wf c(1,2)] right
    by (subst heap_down_loop.simps) (auto simp: swo Let_def split: if_splits)
qed

lemma heap_down_loop_post:
  assumes "heap_wf h" "i < n" "n \<le> length (hp_queue h)"
  shows "\<exists>h' m. heap_down_loop h i n = Some (h', m) \<and> loop_post n h h' \<and> i \<le> m \<and>
           (m = i \<longrightarrow> h' = h) \<and>
           (strict_weak_order (hp_less_fn h) \<longrightarrow> heap_defect up True n h i \<longrightarrow>
              (if m = i then heap_defect up False n h' i else heap_ordered_upto n h'))"
  using assms
proof (induction "n - i" arbitrary: h i up rule: less_induct)
  case less
  note wf = less.prems(1) and i = less.prems(2) and n = less.prems(3)
  define c where "c = (if 2 * i + 2 < n \<and> hp_less_fn h (heap_at h (2 * i + 2)) (heap_at h (2 * i + 1))
                   then 2 * i + 2 else 2 * i + 1)"
  have bc: "strict_weak_order.best_child (hp_less_fn h) n (heap_at h) i = c"
    if "strict_weak_order (hp_less_fn h)"
    using that by (simp add: strict_weak_order.best_child_def c_def)
  show ?case
  proof (cases "2 * i + 1 < n \<and> hp_less_fn h (heap_at h c) (heap_at h i)")
    case False
    have "heap_down_loop h i n = Some (h, i)"
    proof (cases "2 * i + 1 < n")
      case True
      then show ?thesis using False heap_down_loop_unfold [OF wf n True c_def] by simp
    qed (simp add: heap_down_loop.simps [of h i n])
    then show ?thesis
      using wf False strict_weak_order.defect_down_stop bc by fastforce
  next
    case True
    have c: "i < c" "c < n" "c < length (hp_queue h)" "i < length (hp_queue h)"
      using True i n by (auto simp: c_def)
    obtain h1 where h1: "heap_swap h i c = Some h1" "swap_post h i c h1"
      using heap_swap_Some [OF wf c(4,3)] .
    have lp: "loop_post n h h1" using loop_post_swap [OF h1(2) i c(2)] .
    note d = loop_postD [OF lp]
    obtain h2 m where h2: "heap_down_loop h1 c n = Some (h2, m)" "loop_post n h1 h2" "c \<le> m"
      and ord: "strict_weak_order (hp_less_fn h1) \<longrightarrow> heap_defect False True n h1 c \<longrightarrow>
              (if m = c then heap_defect False False n h2 c else heap_ordered_upto n h2)"
    proof -
      have "n - c < n - i" using c by arith
      from less.hyps [OF this d(1) c(2), where up = False] d(2) n that show thesis by auto
    qed
    have "heap_ordered_upto n h2"
      if swo: "strict_weak_order (hp_less_fn h)" and def: "heap_defect up True n h i"
    proof -
      have "defect False True (hp_less_fn h) n (swapped i c (heap_at h)) c"
        using strict_weak_order.defect_down_step [OF swo def] True bc [OF swo] by simp
      then have "heap_defect False True n h1 c"
        using swap_post_at [OF h1(2) n c(2)] d(3) by simp
      then show ?thesis
        using ord swo d(3) strict_weak_order.defect_none loop_postD(3) [OF h2(2)]
        by (fastforce simp: heap_ordered_upto_def split: if_splits)
    qed
    then show ?thesis
      using h1 h2 c True heap_down_loop_unfold [OF wf n _ c_def] loop_post_trans [OF lp h2(2)] by simp
  qed
qed

text \<open>\<open>down\<close> followed by \<open>up\<close> when nothing moved, the body of \<open>fix\<close> and of \<open>remove_at\<close>.\<close>

lemma heap_down_up_post:
  assumes wf: "heap_wf h" and i: "i < n" and n: "n \<le> length (hp_queue h)"
  shows "\<exists>h'. (do { (h2, moved) \<leftarrow> heap_down h i n; if \<not> moved then heap_up h2 i else Some h2 }) =
              Some h' \<and> loop_post n h h' \<and>
           (strict_weak_order (hp_less_fn h) \<longrightarrow> heap_defect True True n h i \<longrightarrow>
              heap_ordered_upto n h')"
proof -
  obtain h1 m where h1: "heap_down_loop h i n = Some (h1, m)" "loop_post n h h1" "i \<le> m"
      "m = i \<longrightarrow> h1 = h"
    and ord: "strict_weak_order (hp_less_fn h) \<longrightarrow> heap_defect True True n h i \<longrightarrow>
              (if m = i then heap_defect True False n h1 i else heap_ordered_upto n h1)"
    using heap_down_loop_post [OF assms, of True] by blast
  show ?thesis
  proof (cases "m = i")
    case True
    then show ?thesis using h1 ord heap_up_post [OF assms] by (auto simp: heap_down_def)
  next
    case False
    then show ?thesis using h1 ord by (auto simp: heap_down_def)
  qed
qed

section \<open>The operations\<close>

text \<open>Effect of an operation: no panic, consistent keys and positions, new contents \<open>m\<close>, heap order
  kept whenever the comparison is a strict weak order.\<close>

definition heap_inv :: "'t heap \<Rightarrow> bool" where
  "heap_inv h \<longleftrightarrow> heap_wf h \<and> heap_ordered_upto (length (hp_queue h)) h"

definition op_post :: "'t heap \<Rightarrow> (string \<rightharpoonup> 't) \<Rightarrow> 't heap \<Rightarrow> bool" where
  "op_post h m h' \<longleftrightarrow> heap_wf h' \<and> heap_get_by_key h' = m \<and>
     hp_key_fn h' = hp_key_fn h \<and> hp_less_fn h' = hp_less_fn h \<and>
     (strict_weak_order (hp_less_fn h) \<longrightarrow> heap_inv h \<longrightarrow> heap_inv h')"

context strict_weak_order
begin

lemma order_upto_upd: "order_upto prec n v \<Longrightarrow> defect True True prec n (v(i := x)) i"
proof -
  assume o: "order_upto prec n v"
  have "\<not> prec (v j) (v (par i))" if j: "0 < j" "j < n" "par j = i" "0 < i" for j
  proof -
    have "i < n" using par_less [OF j(1)] j by simp
    then have "\<not> prec (v i) (v (par i))" using o j unfolding order_upto_def by simp
    moreover have "\<not> prec (v j) (v i)" using o j unfolding order_upto_def by fastforce
    ultimately show ?thesis using negtrans by blast
  qed
  moreover have "j \<noteq> i" if "0 < j" "par j = i" for j using par_less [OF that(1)] that by simp
  moreover have "par i \<noteq> i" if "0 < i" using par_less [OF that] by simp
  ultimately show ?thesis
    using o unfolding order_upto_def defect_def by (simp del: One_nat_def)
qed

lemma order_upto_snoc: "order_upto prec n v \<Longrightarrow> defect True False prec (Suc n) (v(n := x)) n"
proof -
  assume o: "order_upto prec n v"
  have np: "par j \<noteq> n" if "0 < j" "j < Suc n" for j using par_less [OF that(1)] that by simp
  have "\<not> prec (v j) (v (par j))" if "0 < j" "j < Suc n" "j \<noteq> n" for j
    using o that unfolding order_upto_def by simp
  then show ?thesis using np unfolding defect_def by (auto simp del: One_nat_def)
qed

end

lemma order_upto_mono: "order_upto prec n v \<Longrightarrow> m \<le> n \<Longrightarrow> order_upto prec m v"
  by (simp add: order_upto_def)

lemma heap_wf_new: "heap_wf (heap_new kf lf)"
  by (simp add: heap_wf_def heap_new_def)

lemma heap_inv_new: "heap_inv (heap_new kf lf)"
  unfolding heap_inv_def using heap_wf_new [of kf lf]
  by (simp add: heap_ordered_upto_def order_upto_def) (simp add: heap_new_def)

lemma heap_inv_wf: "heap_inv h \<Longrightarrow> heap_wf h"
  by (simp add: heap_inv_def)

text \<open>Replacing an object under its key.\<close>

lemma heap_wf_replace:
  assumes wf: "heap_wf h" and it: "hp_items h k = Some it" and key: "hp_key_fn h x = k"
  defines "h0 \<equiv> h\<lparr>hp_items := (hp_items h)(k \<mapsto> it\<lparr>hi_obj := x\<rparr>)\<rparr>"
  shows "heap_wf h0" "heap_get_by_key h0 = (heap_get_by_key h)(k \<mapsto> x)"
    "\<And>j. j < length (hp_queue h) \<Longrightarrow> heap_at h0 j = ((heap_at h)(hi_index it := x)) j"
proof -
  note pos = heap_wf_position [OF wf it]
  have inj: "hp_queue h ! j = k \<longleftrightarrow> j = hi_index it" if "j < length (hp_queue h)" for j
    using wf pos that by (auto simp: heap_wf_def nth_eq_iff_index_eq)
  show "heap_wf h0"
    unfolding heap_wf_def
  proof (intro conjI allI impI)
    show "distinct (hp_queue h0)" using wf by (simp add: heap_wf_def h0_def)
    show "dom (hp_items h0) = set (hp_queue h0)"
      using wf it by (auto simp: heap_wf_def h0_def)
    fix i assume i: "i < length (hp_queue h0)"
    then have i': "i < length (hp_queue h)" by (simp add: h0_def)
    from heap_wfD_item [OF wf i'] obtain a where "hp_items h (hp_queue h ! i) = Some a" "hi_index a = i" .
    then show "\<exists>a. hp_items h0 (hp_queue h0 ! i) = Some a \<and> hi_index a = i"
      using it by (cases "hp_queue h ! i = k") (auto simp: h0_def)
  next
    fix k' a assume "hp_items h0 k' = Some a"
    then show "hp_key_fn h0 (hi_obj a) = k'"
      using wf key by (auto simp: heap_wf_def h0_def split: if_splits)
  qed
  show "heap_get_by_key h0 = (heap_get_by_key h)(k \<mapsto> x)"
    by (simp add: heap_get_by_key_def h0_def fun_eq_iff)
  show "heap_at h0 j = ((heap_at h)(hi_index it := x)) j" if "j < length (hp_queue h)" for j
    using inj [OF that] by (simp add: heap_at_def h0_def)
qed

lemma heap_add_or_update_update:
  assumes wf: "heap_wf h" and it: "hp_items h (hp_key_fn h x) = Some it"
  shows "\<exists>h'. heap_add_or_update h x = Some h' \<and>
            op_post h ((heap_get_by_key h)(hp_key_fn h x \<mapsto> x)) h' \<and>
            length (hp_queue h') = length (hp_queue h)"
proof -
  let ?n = "length (hp_queue h)"
  define h0 where "h0 = h\<lparr>hp_items := (hp_items h)(hp_key_fn h x \<mapsto> it\<lparr>hi_obj := x\<rparr>)\<rparr>"
  note rep = heap_wf_replace [OF wf it refl, folded h0_def]
  have q: "hp_queue h0 = hp_queue h" "hp_less_fn h0 = hp_less_fn h" "hp_key_fn h0 = hp_key_fn h"
    by (simp_all add: h0_def)
  have i: "hi_index it < ?n" using heap_wf_position [OF wf it] by blast
  obtain h' where h': "heap_fix h0 (hi_index it) = Some h'" "loop_post ?n h0 h'"
    and ord: "strict_weak_order (hp_less_fn h0) \<longrightarrow> heap_defect True True ?n h0 (hi_index it) \<longrightarrow>
              heap_ordered_upto ?n h'"
    using heap_down_up_post [OF rep(1) i] q(1) unfolding heap_fix_def by auto
  have "heap_defect True True ?n h0 (hi_index it)"
    if swo: "strict_weak_order (hp_less_fn h)" and inv: "heap_inv h"
  proof -
    have "defect True True (hp_less_fn h) ?n ((heap_at h)(hi_index it := x)) (hi_index it)"
      using strict_weak_order.order_upto_upd [OF swo] inv
      by (simp add: heap_inv_def heap_ordered_upto_def)
    then show ?thesis
      using defect_cong [of ?n "heap_at h0" "(heap_at h)(hi_index it := x)", OF rep(3) i] q(2) by simp
  qed
  then have "op_post h ((heap_get_by_key h)(hp_key_fn h x \<mapsto> x)) h'"
    using loop_postD [OF h'(2)] ord q rep(2) by (simp add: op_post_def heap_inv_def)
  moreover have "heap_add_or_update h x = Some h'"
    using it h'(1) by (simp add: heap_add_or_update_def h0_def)
  ultimately show ?thesis using loop_postD(2) [OF h'(2)] q(1) by auto
qed

text \<open>Appending a fresh key.\<close>

lemma heap_wf_append:
  assumes wf: "heap_wf h" and new: "hp_items h k = None" and key: "hp_key_fn h x = k"
  defines "h0 \<equiv> h\<lparr>hp_items := (hp_items h)(k \<mapsto> \<lparr>hi_obj = x, hi_index = length (hp_queue h)\<rparr>),
                   hp_queue := hp_queue h @ [k]\<rparr>"
  shows "heap_wf h0" "heap_get_by_key h0 = (heap_get_by_key h)(k \<mapsto> x)"
    "\<And>j. j < Suc (length (hp_queue h)) \<Longrightarrow> heap_at h0 j = ((heap_at h)(length (hp_queue h) := x)) j"
proof -
  have fresh: "k \<notin> set (hp_queue h)" using wf new by (auto simp: heap_wf_def)
  have other: "hp_queue h ! j \<noteq> k" if "j < length (hp_queue h)" for j
    using fresh nth_mem [OF that] by auto
  show "heap_wf h0"
    unfolding heap_wf_def
  proof (intro conjI allI impI)
    show "distinct (hp_queue h0)" using wf fresh by (simp add: heap_wf_def h0_def)
    show "dom (hp_items h0) = set (hp_queue h0)" using wf by (auto simp: heap_wf_def h0_def)
    fix i assume i: "i < length (hp_queue h0)"
    show "\<exists>a. hp_items h0 (hp_queue h0 ! i) = Some a \<and> hi_index a = i"
    proof (cases "i < length (hp_queue h)")
      case True
      from heap_wfD_item [OF wf True] obtain a
        where "hp_items h (hp_queue h ! i) = Some a" "hi_index a = i" .
      then show ?thesis using True other [OF True] by (simp add: h0_def nth_append)
    next
      case False
      then show ?thesis using i by (simp add: h0_def nth_append)
    qed
  next
    fix k' a assume "hp_items h0 k' = Some a"
    then show "hp_key_fn h0 (hi_obj a) = k'"
      using wf key by (auto simp: heap_wf_def h0_def split: if_splits)
  qed
  show "heap_get_by_key h0 = (heap_get_by_key h)(k \<mapsto> x)"
    by (simp add: heap_get_by_key_def h0_def fun_eq_iff)
  show "heap_at h0 j = ((heap_at h)(length (hp_queue h) := x)) j"
    if "j < Suc (length (hp_queue h))" for j
    using that other [of j] by (cases "j = length (hp_queue h)") (simp_all add: heap_at_def h0_def nth_append)
qed

lemma heap_add_or_update_insert:
  assumes wf: "heap_wf h" and new: "hp_items h (hp_key_fn h x) = None"
  shows "\<exists>h'. heap_add_or_update h x = Some h' \<and>
            op_post h ((heap_get_by_key h)(hp_key_fn h x \<mapsto> x)) h' \<and>
            length (hp_queue h') = Suc (length (hp_queue h))"
proof -
  let ?n = "length (hp_queue h)"
  define h0 where "h0 = h\<lparr>hp_items := (hp_items h)(hp_key_fn h x \<mapsto> \<lparr>hi_obj = x, hi_index = ?n\<rparr>),
                         hp_queue := hp_queue h @ [hp_key_fn h x]\<rparr>"
  note app = heap_wf_append [OF wf new refl, folded h0_def]
  have q: "length (hp_queue h0) = Suc ?n" "hp_less_fn h0 = hp_less_fn h" "hp_key_fn h0 = hp_key_fn h"
    by (simp_all add: h0_def)
  obtain h' where h': "heap_up h0 ?n = Some h'" "loop_post (Suc ?n) h0 h'"
    and ord: "strict_weak_order (hp_less_fn h0) \<longrightarrow> heap_defect True False (Suc ?n) h0 ?n \<longrightarrow>
              heap_ordered_upto (Suc ?n) h'"
    using heap_up_post [OF app(1), of ?n "Suc ?n"] q(1) by auto
  have "heap_defect True False (Suc ?n) h0 ?n"
    if swo: "strict_weak_order (hp_less_fn h)" and inv: "heap_inv h"
  proof -
    have "defect True False (hp_less_fn h) (Suc ?n) ((heap_at h)(?n := x)) ?n"
      using strict_weak_order.order_upto_snoc [OF swo] inv
      by (simp add: heap_inv_def heap_ordered_upto_def)
    then show ?thesis
      using defect_cong [of "Suc ?n" "heap_at h0" "(heap_at h)(?n := x)" ?n, OF app(3)] q(2) by simp
  qed
  then have "op_post h ((heap_get_by_key h)(hp_key_fn h x \<mapsto> x)) h'"
    using loop_postD [OF h'(2)] ord q app(2) by (simp add: op_post_def heap_inv_def)
  moreover have "heap_add_or_update h x = Some h'"
    using new h'(1) by (simp add: heap_add_or_update_def h0_def Let_def)
  ultimately show ?thesis using loop_postD(2) [OF h'(2)] q(1) by auto
qed

lemma heap_add_or_update_post:
  assumes "heap_wf h"
  shows "\<exists>h'. heap_add_or_update h x = Some h' \<and>
            op_post h ((heap_get_by_key h)(hp_key_fn h x \<mapsto> x)) h' \<and>
            heap_len h' = (if heap_has h x then heap_len h else Suc (heap_len h))"
  using heap_add_or_update_update [OF assms, of x] heap_add_or_update_insert [OF assms, of x]
  by (cases "hp_items h (hp_key_fn h x)") (auto simp: heap_len_def heap_has_def heap_has_key_def)

text \<open>Dropping the last position.\<close>

lemma heap_drop_last:
  assumes wf: "heap_wf h" and ne: "hp_queue h \<noteq> []"
  defines "k \<equiv> last (hp_queue h)" and "n \<equiv> length (hp_queue h) - 1"
  defines "h0 \<equiv> h\<lparr>hp_queue := butlast (hp_queue h), hp_items := (hp_items h)(k := None)\<rparr>"
  shows "heap_wf h0" "heap_get_by_key h0 = (heap_get_by_key h)(k := None)"
    "\<And>j. j < n \<Longrightarrow> heap_at h0 j = heap_at h j" "length (hp_queue h0) = n" "k = hp_queue h ! n"
    "\<exists>it. hp_items h k = Some it \<and> hi_obj it = heap_at h n"
proof -
  have k: "k = hp_queue h ! n" using ne by (simp add: k_def n_def last_conv_nth)
  have n: "n < length (hp_queue h)" using ne by (cases "hp_queue h") (simp_all add: n_def)
  have other: "hp_queue h ! j \<noteq> k" if "j < n" for j
    using wf that n by (simp add: k heap_wf_def nth_eq_iff_index_eq)
  have q: "hp_queue h = butlast (hp_queue h) @ [k]" using ne by (simp add: k_def)
  have dist: "distinct (butlast (hp_queue h) @ [k])" using wf q by (metis heap_wf_def)
  have len: "length (butlast (hp_queue h)) = n" by (simp add: n_def)
  have bl: "butlast (hp_queue h) ! j = hp_queue h ! j" if "j < n" for j
    using that len by (simp add: nth_butlast)
  show "heap_wf h0"
    unfolding heap_wf_def
  proof (intro conjI allI impI)
    show "distinct (hp_queue h0)" using dist by (simp add: h0_def)
    have "dom (hp_items h) = set (butlast (hp_queue h) @ [k])" using wf q by (metis heap_wf_def)
    then show "dom (hp_items h0) = set (hp_queue h0)" using dist by (auto simp: h0_def)
    fix i assume "i < length (hp_queue h0)"
    then have i: "i < n" using len by (simp add: h0_def)
    have "i < length (hp_queue h)" using i n by simp
    from heap_wfD_item [OF wf this] obtain a
      where "hp_items h (hp_queue h ! i) = Some a" "hi_index a = i" .
    then show "\<exists>a. hp_items h0 (hp_queue h0 ! i) = Some a \<and> hi_index a = i"
      using other [OF i] bl [OF i] by (simp add: h0_def)
  next
    fix k' a assume "hp_items h0 k' = Some a"
    then show "hp_key_fn h0 (hi_obj a) = k'"
      using wf by (auto simp: heap_wf_def h0_def split: if_splits)
  qed
  show "heap_get_by_key h0 = (heap_get_by_key h)(k := None)"
    by (simp add: heap_get_by_key_def h0_def fun_eq_iff)
  show "heap_at h0 j = heap_at h j" if "j < n" for j
    using other [OF that] bl [OF that] by (simp add: heap_at_def h0_def)
  show "length (hp_queue h0) = n" using len by (simp add: h0_def)
  show "k = hp_queue h ! n" by (fact k)
  show "\<exists>it. hp_items h k = Some it \<and> hi_obj it = heap_at h n"
    using heap_wfD_item [OF wf n] by (metis heap_at_def k option.sel)
qed

text \<open>Moving the element to remove to the last position.\<close>

lemma heap_sink_last:
  assumes wf: "heap_wf h" and i: "i < length (hp_queue h)"
  defines "n \<equiv> length (hp_queue h) - 1"
  shows "\<exists>h1. (if n \<noteq> i
                then do { h1 \<leftarrow> heap_swap h i n;
                          (h2, moved) \<leftarrow> heap_down h1 i n;
                          if \<not> moved then heap_up h2 i else Some h2 }
                else Some h) = Some h1 \<and>
            heap_wf h1 \<and> same_content h h1 \<and> hp_queue h1 ! n = hp_queue h ! i \<and>
            (strict_weak_order (hp_less_fn h) \<longrightarrow> heap_inv h \<longrightarrow> heap_ordered_upto n h1)"
proof (cases "n = i")
  case True
  have "n \<le> length (hp_queue h)" by (simp add: n_def)
  then show ?thesis
    using True wf by (auto simp: heap_inv_def heap_ordered_upto_def intro: order_upto_mono)
next
  case False
  have n: "n < length (hp_queue h)" "i < n" using i False by (auto simp: n_def)
  obtain h1 where h1: "heap_swap h i n = Some h1" "swap_post h i n h1"
    using heap_swap_Some [OF wf i n(1)] .
  have c1: "heap_wf h1" "same_content h h1" "hp_queue h1 ! n = hp_queue h ! i"
    using h1(2) n i by (simp_all add: swap_post_def nth_swap)
  have le: "n \<le> length (hp_queue h1)" using c1(2) n by (simp add: same_content_def)
  obtain h2 where h2: "(do { (h2, moved) \<leftarrow> heap_down h1 i n;
                             if \<not> moved then heap_up h2 i else Some h2 }) = Some h2"
      "loop_post n h1 h2"
    and ord: "strict_weak_order (hp_less_fn h1) \<longrightarrow> heap_defect True True n h1 i \<longrightarrow>
              heap_ordered_upto n h2"
    using heap_down_up_post [OF c1(1) n(2) le] by blast
  have fn: "hp_less_fn h1 = hp_less_fn h" using c1(2) by (simp add: same_content_def)
  have "heap_defect True True n h1 i"
    if swo: "strict_weak_order (hp_less_fn h)" and inv: "heap_inv h"
  proof -
    have "order_upto (hp_less_fn h) n (heap_at h)"
      using inv n order_upto_mono unfolding heap_inv_def heap_ordered_upto_def
      by (metis less_imp_le)
    then have "defect True True (hp_less_fn h) n ((heap_at h)(i := heap_at h n)) i"
      using strict_weak_order.order_upto_upd [OF swo] by blast
    moreover have "heap_at h1 k = ((heap_at h)(i := heap_at h n)) k" if "k < n" for k
      using h1(2) that n by (simp add: swap_post_def swapped_def)
    ultimately show ?thesis
      using defect_cong [of n "heap_at h1" "(heap_at h)(i := heap_at h n)" i] n fn by simp
  qed
  moreover have "hp_queue h2 ! n = hp_queue h ! i"
    using h2(2) c1(2,3) n by (simp add: loop_post_def same_content_def)
  moreover have "same_content h h2"
    using h2(2) c1(2) same_content_trans by (auto simp: loop_post_def)
  ultimately show ?thesis
    using False h1(1) h2 ord fn loop_postD(1) [OF h2(2)] by simp
qed

lemma heap_remove_at_post:
  assumes wf: "heap_wf h" and i: "i < length (hp_queue h)"
  shows "\<exists>h'. heap_remove_at h i = Some (heap_at h i, h') \<and>
            op_post h ((heap_get_by_key h)(hp_queue h ! i := None)) h' \<and>
            length (hp_queue h') = length (hp_queue h) - 1"
proof -
  let ?n = "length (hp_queue h) - 1"
  let ?step = "if ?n \<noteq> i
                then do { h1 \<leftarrow> heap_swap h i ?n;
                          (h2, moved) \<leftarrow> heap_down h1 i ?n;
                          if \<not> moved then heap_up h2 i else Some h2 }
                else Some h"
  obtain h1 where h1: "?step = Some h1"
    "heap_wf h1" "same_content h h1" "hp_queue h1 ! ?n = hp_queue h ! i"
    and ord: "strict_weak_order (hp_less_fn h) \<longrightarrow> heap_inv h \<longrightarrow> heap_ordered_upto ?n h1"
    using heap_sink_last [OF assms] by blast
  have len: "length (hp_queue h1) = length (hp_queue h)" and fn: "hp_less_fn h1 = hp_less_fn h"
    "hp_key_fn h1 = hp_key_fn h" and get: "heap_get_by_key h1 = heap_get_by_key h"
    using h1(3) by (simp_all add: same_content_def)
  have ne: "hp_queue h1 \<noteq> []" "hp_queue h \<noteq> []" using len i by auto
  define h0 where "h0 = h1\<lparr>hp_queue := butlast (hp_queue h1),
                          hp_items := (hp_items h1)(last (hp_queue h1) := None)\<rparr>"
  note dl = heap_drop_last [OF h1(2) ne(1), folded h0_def, unfolded len]
  have k: "last (hp_queue h1) = hp_queue h ! i" using dl(5) h1(4) by simp
  obtain it where it: "hp_items h1 (last (hp_queue h1)) = Some it" using dl(6) by blast
  have "hi_obj it = heap_at h i"
  proof -
    obtain a where a: "hp_items h (hp_queue h ! i) = Some a" using heap_wfD_item [OF wf i] .
    have "heap_get_by_key h1 (hp_queue h ! i) = heap_get_by_key h (hp_queue h ! i)" by (simp add: get)
    then show ?thesis using it a by (simp add: heap_get_by_key_def heap_at_def k)
  qed
  then have "heap_remove_at h i = Some (heap_at h i, h0)"
    using ne(2) h1(1) it unfolding heap_remove_at_def Let_def by (simp add: h0_def)
  moreover have "order_upto (hp_less_fn h) ?n (heap_at h0) = order_upto (hp_less_fn h) ?n (heap_at h1)"
    using dl(3) by (rule order_upto_cong)
  ultimately show ?thesis
    using dl(1,2,4) ord get fn k
    by (auto simp: op_post_def heap_inv_def heap_ordered_upto_def h0_def)
qed

lemma heap_at_0_peek:
  assumes "heap_wf h" "hp_queue h \<noteq> []"
  shows "heap_peek h = Some (heap_at h 0)"
proof -
  have "0 < length (hp_queue h)" using assms by simp
  from heap_wfD_item [OF assms(1) this] obtain a where "hp_items h (hp_queue h ! 0) = Some a" .
  then show ?thesis using assms(2) by (cases "hp_queue h") (simp_all add: heap_peek_def heap_at_def)
qed

lemma heap_wf_key_at:
  assumes wf: "heap_wf h" and i: "i < length (hp_queue h)"
  shows "hp_key_fn h (heap_at h i) = hp_queue h ! i" "heap_get_by_key h (hp_queue h ! i) = Some (heap_at h i)"
proof -
  obtain a where "hp_items h (hp_queue h ! i) = Some a" using heap_wfD_item [OF wf i] .
  then show "hp_key_fn h (heap_at h i) = hp_queue h ! i"
    "heap_get_by_key h (hp_queue h ! i) = Some (heap_at h i)"
    using wf by (auto simp: heap_wf_def heap_at_def heap_get_by_key_def)
qed

lemma heap_list_at:
  assumes wf: "heap_wf h" and x: "x \<in> heap_list h"
  shows "\<exists>i < length (hp_queue h). x = heap_at h i"
proof -
  from x obtain k it where it: "hp_items h k = Some it" "x = hi_obj it"
    by (auto simp: heap_list_def ran_def)
  then show ?thesis using heap_wf_position [OF wf it(1)] by (auto simp: heap_at_def)
qed

lemma heap_list_get: "heap_list h = ran (heap_get_by_key h)"
  by (auto simp: heap_list_def heap_get_by_key_def ran_def)

lemma heap_delete_by_key_post:
  assumes wf: "heap_wf h"
  shows "case heap_get_by_key h k of
           None \<Rightarrow> heap_delete_by_key h k = Some (Inl ''object not found'', h)
         | Some x \<Rightarrow> \<exists>h'. heap_delete_by_key h k = Some (Inr x, h') \<and>
              op_post h ((heap_get_by_key h)(k := None)) h' \<and> heap_len h' = heap_len h - 1"
proof (cases "hp_items h k")
  case None
  then show ?thesis by (simp add: heap_get_by_key_def heap_delete_by_key_def)
next
  case (Some it)
  note pos = heap_wf_position [OF wf Some]
  have "heap_at h (hi_index it) = hi_obj it" using pos Some by (simp add: heap_at_def)
  then show ?thesis
    using heap_remove_at_post [OF wf, of "hi_index it"] pos Some
    by (auto simp: heap_get_by_key_def heap_delete_by_key_def heap_len_def)
qed

lemma heap_pop_post:
  assumes wf: "heap_wf h" and ne: "\<not> heap_is_empty h"
  shows "\<exists>x h'. heap_pop h = Some (Inr x, h') \<and> heap_peek h = Some x \<and>
            heap_get_by_key h (hp_key_fn h x) = Some x \<and>
            op_post h ((heap_get_by_key h)(hp_key_fn h x := None)) h' \<and>
            heap_len h' = heap_len h - 1"
proof -
  have 0: "0 < length (hp_queue h)" using ne by (simp add: heap_is_empty_def)
  show ?thesis
    using heap_remove_at_post [OF wf 0] heap_wf_key_at [OF wf 0] heap_at_0_peek [OF wf] 0
    by (auto simp: heap_pop_def heap_len_def)
qed

lemma heap_root_first:
  assumes inv: "heap_inv h" and swo: "strict_weak_order (hp_less_fn h)"
    and top: "heap_peek h = Some x" and y: "y \<in> heap_list h"
  shows "\<not> hp_less_fn h y x"
proof -
  have wf: "heap_wf h" using inv by (simp add: heap_inv_def)
  obtain i where i: "i < length (hp_queue h)" "y = heap_at h i" using heap_list_at [OF wf y] by blast
  then have "hp_queue h \<noteq> []" by auto
  then have "x = heap_at h 0" using heap_at_0_peek [OF wf] top by simp
  then show ?thesis
    using i inv strict_weak_order.order_root_min [OF swo] by (auto simp: heap_inv_def heap_ordered_upto_def)
qed

section \<open>The interface: a queue keyed by name\<close>

text \<open>What a client of the heap relies on: the contents as a map from keys to items, and \<open>pop\<close> in
  the order of \<open>prec\<close>.\<close>

locale keyed_queue =
  fixes inv :: "'q \<Rightarrow> bool"
    and contents :: "'q \<Rightarrow> (string \<rightharpoonup> 't)"
    and key :: "'t \<Rightarrow> string"
    and prec :: "'t \<Rightarrow> 't \<Rightarrow> bool"
    and push :: "'q \<Rightarrow> 't \<Rightarrow> 'q or_panic"
    and pop :: "'q \<Rightarrow> ((string, 't) result \<times> 'q) or_panic"
    and del :: "'q \<Rightarrow> string \<Rightarrow> ((string, 't) result \<times> 'q) or_panic"
  assumes finite_contents: "inv q \<Longrightarrow> finite (dom (contents q))"
    and push_law: "inv q \<Longrightarrow> \<exists>q'. push q x = Some q' \<and> inv q' \<and> contents q' = (contents q)(key x \<mapsto> x)"
    and pop_empty_law: "inv q \<Longrightarrow> contents q = Map.empty \<Longrightarrow> \<exists>e. pop q = Some (Inl e, q)"
    and pop_law: "inv q \<Longrightarrow> contents q \<noteq> Map.empty \<Longrightarrow>
      \<exists>x q'. pop q = Some (Inr x, q') \<and> inv q' \<and> contents q (key x) = Some x \<and>
             contents q' = (contents q)(key x := None) \<and> (\<forall>y \<in> ran (contents q). \<not> prec y x)"
    and del_law: "inv q \<Longrightarrow> contents q k = Some x \<Longrightarrow>
      \<exists>q'. del q k = Some (Inr x, q') \<and> inv q' \<and> contents q' = (contents q)(k := None)"
    and del_missing_law: "inv q \<Longrightarrow> contents q k = None \<Longrightarrow> \<exists>e. del q k = Some (Inl e, q)"

text \<open>Popping until the queue answers with an error, at most \<open>n\<close> times.\<close>

fun drain :: "('q \<Rightarrow> ((string, 't) result \<times> 'q) or_panic) \<Rightarrow> nat \<Rightarrow> 'q \<Rightarrow> ('t list \<times> 'q) or_panic" where
  "drain pop 0 q = Some ([], q)"
| "drain pop (Suc n) q =
     (case pop q of
        None \<Rightarrow> None
      | Some (Inl e, q') \<Rightarrow> Some ([], q')
      | Some (Inr x, q') \<Rightarrow> map_option (\<lambda>(xs, r). (x # xs, r)) (drain pop n q'))"

fun push_all :: "('q \<Rightarrow> 't \<Rightarrow> 'q or_panic) \<Rightarrow> 'q \<Rightarrow> 't list \<Rightarrow> 'q or_panic" where
  "push_all push q [] = Some q"
| "push_all push q (x # xs) = Option.bind (push q x) (\<lambda>q'. push_all push q' xs)"

context keyed_queue
begin

lemma push_all_law:
  "inv q \<Longrightarrow> \<exists>q'. push_all push q xs = Some q' \<and> inv q' \<and>
     contents q' = (contents q)(map key xs [\<mapsto>] xs)"
proof (induction xs arbitrary: q)
  case (Cons x xs)
  then obtain q1 where "push q x = Some q1" "inv q1" "contents q1 = (contents q)(key x \<mapsto> x)"
    using push_law by blast
  then show ?case using Cons.IH [of q1] by (simp del: fun_upd_apply)
qed simp

lemma drain_law:
  assumes "inv q" "card (dom (contents q)) \<le> n"
  shows "\<exists>xs q'. drain pop n q = Some (xs, q') \<and> inv q' \<and> contents q' = Map.empty \<and>
           set xs = ran (contents q) \<and> distinct (map key xs) \<and> key ` set xs = dom (contents q) \<and>
           sorted_wrt (\<lambda>x y. \<not> prec y x) xs"
  using assms
proof (induction n arbitrary: q)
  case 0
  then have "contents q = Map.empty" using finite_contents by fastforce
  then show ?case using 0 by simp
next
  case (Suc n)
  show ?case
  proof (cases "contents q = Map.empty")
    case True
    then obtain e where "pop q = Some (Inl e, q)" using pop_empty_law Suc.prems by blast
    then show ?thesis using True Suc.prems by simp
  next
    case False
    then obtain x q1 where x: "pop q = Some (Inr x, q1)" "inv q1" "contents q (key x) = Some x"
        "contents q1 = (contents q)(key x := None)" "\<forall>y \<in> ran (contents q). \<not> prec y x"
      using pop_law Suc.prems by blast
    have dom: "dom (contents q1) = dom (contents q) - {key x}" "key x \<in> dom (contents q)"
      using x(3,4) by auto
    have "card (dom (contents q1)) \<le> n"
      using Suc.prems(2) dom finite_contents [OF Suc.prems(1)] by (simp add: card_Diff_singleton)
    then obtain xs q2 where xs: "drain pop n q1 = Some (xs, q2)" "inv q2" "contents q2 = Map.empty"
        "set xs = ran (contents q1)" "distinct (map key xs)" "key ` set xs = dom (contents q1)"
        "sorted_wrt (\<lambda>x y. \<not> prec y x) xs"
      using Suc.IH [OF x(2)] by blast
    have ran: "ran (contents q) = insert x (ran (contents q1))"
    proof -
      have "contents q = (contents q1)(key x \<mapsto> x)" using x(3,4) by (simp add: fun_upd_idem)
      moreover have "contents q1 (key x) = None" using x(4) by simp
      ultimately show ?thesis by (metis ran_map_upd)
    qed
    have "key x \<notin> key ` set xs" using xs(6) dom by simp
    then show ?thesis using x xs ran dom by auto
  qed
qed

end

text \<open>With a strict weak order as comparison, the keyed heap is such a queue.\<close>

locale ordered_heap = strict_weak_order prec
  for prec :: "'t \<Rightarrow> 't \<Rightarrow> bool" +
  fixes key :: "'t \<Rightarrow> string"
begin

definition heap_ok :: "'t heap \<Rightarrow> bool" where
  "heap_ok h \<longleftrightarrow> heap_inv h \<and> hp_less_fn h = prec \<and> hp_key_fn h = key"

lemma heap_ok_post: "heap_ok h \<Longrightarrow> op_post h m h' \<Longrightarrow> heap_ok h' \<and> heap_get_by_key h' = m"
  using strict_weak_order_axioms by (auto simp: heap_ok_def op_post_def)

lemma heap_ok_new: "heap_ok (heap_new key prec)"
  by (simp add: heap_ok_def heap_inv_new) (simp add: heap_new_def)

lemma heap_ok_empty: "heap_ok h \<Longrightarrow> heap_get_by_key h = Map.empty \<longleftrightarrow> heap_is_empty h"
  by (auto simp: heap_ok_def heap_inv_def heap_wf_def heap_get_by_key_def heap_is_empty_def fun_eq_iff
      dom_def)

end

sublocale ordered_heap \<subseteq> hq: keyed_queue heap_ok heap_get_by_key key prec heap_add_or_update heap_pop
  heap_delete_by_key
proof
  fix q :: "'t heap" and x :: 't and k
  assume ok: "heap_ok q"
  then have wf: "heap_wf q" and fns: "hp_less_fn q = prec" "hp_key_fn q = key" and inv: "heap_inv q"
    by (simp_all add: heap_ok_def heap_inv_def)
  have "dom (heap_get_by_key q) = dom (hp_items q)" by (auto simp: heap_get_by_key_def)
  then have "dom (heap_get_by_key q) = set (hp_queue q)" using wf by (simp add: heap_wf_def)
  then show "finite (dom (heap_get_by_key q))" by simp
  show "\<exists>q'. heap_add_or_update q x = Some q' \<and> heap_ok q' \<and>
          heap_get_by_key q' = (heap_get_by_key q)(key x \<mapsto> x)"
    using heap_add_or_update_post [OF wf, of x] heap_ok_post [OF ok] fns by fastforce
  show "\<exists>e. heap_pop q = Some (Inl e, q)" if "heap_get_by_key q = Map.empty"
    using that heap_ok_empty [OF ok] by (simp add: heap_pop_def heap_is_empty_def)
  show "\<exists>y q'. heap_pop q = Some (Inr y, q') \<and> heap_ok q' \<and> heap_get_by_key q (key y) = Some y \<and>
          heap_get_by_key q' = (heap_get_by_key q)(key y := None) \<and>
          (\<forall>z \<in> ran (heap_get_by_key q). \<not> prec z y)" if "heap_get_by_key q \<noteq> Map.empty"
  proof -
    have "\<not> heap_is_empty q" using that heap_ok_empty [OF ok] by simp
    then obtain y q' where y: "heap_pop q = Some (Inr y, q')" "heap_peek q = Some y"
        "heap_get_by_key q (key y) = Some y"
        "op_post q ((heap_get_by_key q)(key y := None)) q'"
      using heap_pop_post [OF wf] fns by auto
    have "\<not> prec z y" if "z \<in> ran (heap_get_by_key q)" for z
      using heap_root_first [OF inv _ y(2)] strict_weak_order_axioms fns that
      by (simp add: heap_list_get)
    then show ?thesis using y heap_ok_post [OF ok y(4)] by blast
  qed
  show "\<exists>q'. heap_delete_by_key q k = Some (Inr x, q') \<and> heap_ok q' \<and>
          heap_get_by_key q' = (heap_get_by_key q)(k := None)" if "heap_get_by_key q k = Some x"
    using heap_delete_by_key_post [OF wf, of k] that heap_ok_post [OF ok] by fastforce
  show "\<exists>e. heap_delete_by_key q k = Some (Inl e, q)" if "heap_get_by_key q k = None"
    using heap_delete_by_key_post [OF wf, of k] that by simp
qed

end
