(* ===== verification/SchedulingEvents.thy ===== *)
theory SchedulingEvents
  imports Prelude
begin

text \<open>
  Pods as the scheduler's queue, cache and nominator read them, and the cluster events of
  \<^verbatim>\<open>crates/scheduler/src/queue/events.rs\<close>: action types as bit sets (\<open>i64\<close> values below \<open>2 ^ 13\<close>, so plain
  integers), resources, labels, the matching of a registered event against an incoming one, and the
  events that an update of a pod stands for.

  The resource requests of a pod (\<open>quota::pod_requests_opts\<close>, in milli-units) are an argument of the
  functions that compare them. A map of labels is \<open>None\<close> when absent.
\<close>

unbundle bit_operations_syntax

section \<open>Pods\<close>

record object_meta =
  om_name :: string
  om_namespace :: "string option"
  om_uid :: string
  om_labels :: "(string \<rightharpoonup> string) option"

record toleration =
  tol_key :: "string option"
  tol_operator :: "string option"
  tol_value :: "string option"
  tol_effect :: "string option"
  tol_toleration_seconds :: "int option"

record pod_spec =
  ps_node_name :: "string option"
  ps_priority :: "int option"
  ps_scheduler_name :: "string option"
  ps_tolerations :: "toleration list option"
  ps_scheduling_gates :: "string list option"

record pod_resource_claim_status =
  rcs_name :: string
  rcs_resource_claim_name :: "string option"

record extended_request =
  xr_container_name :: string
  xr_request_name :: string
  xr_resource_name :: string

record extended_claim_status =
  xcs_request_mappings :: "extended_request list"
  xcs_resource_claim_name :: string

record pod_status =
  pst_nominated_node_name :: "string option"
  pst_resource_claim_statuses :: "pod_resource_claim_status list option"
  pst_extended_resource_claim_status :: "extended_claim_status option"

record pod =
  po_metadata :: object_meta
  po_spec :: "pod_spec option"
  po_status :: "pod_status option"

abbreviation pod_uid :: "pod \<Rightarrow> string" where
  "pod_uid p \<equiv> om_uid (po_metadata p)"

abbreviation pod_name :: "pod \<Rightarrow> string" where
  "pod_name p \<equiv> om_name (po_metadata p)"

text \<open>\<open>metadata.namespace.as_deref().unwrap_or("")\<close>\<close>

definition pod_namespace_or_empty :: "pod \<Rightarrow> string" where
  "pod_namespace_or_empty p = (case om_namespace (po_metadata p) of None \<Rightarrow> '''' | Some ns \<Rightarrow> ns)"

definition queue_pod_key :: "pod \<Rightarrow> string" where
  "queue_pod_key p = pod_namespace_or_empty p @ ''/'' @ pod_name p"

definition pod_scheduler_name :: "pod \<Rightarrow> string" where
  "pod_scheduler_name p =
     (case Option.bind (po_spec p) ps_scheduler_name of None \<Rightarrow> ''default-scheduler'' | Some s \<Rightarrow> s)"

definition pod_node_name :: "pod \<Rightarrow> string" where
  "pod_node_name p = (case Option.bind (po_spec p) ps_node_name of None \<Rightarrow> '''' | Some s \<Rightarrow> s)"

section \<open>Cluster events\<close>

type_synonym action_type = int

definition ACT_ADD :: action_type where "ACT_ADD = push_bit 0 1"
definition ACT_DELETE :: action_type where "ACT_DELETE = push_bit 1 1"
definition ACT_UPDATE_NODE_ALLOCATABLE :: action_type where "ACT_UPDATE_NODE_ALLOCATABLE = push_bit 2 1"
definition ACT_UPDATE_NODE_LABEL :: action_type where "ACT_UPDATE_NODE_LABEL = push_bit 3 1"
definition ACT_UPDATE_NODE_TAINT :: action_type where "ACT_UPDATE_NODE_TAINT = push_bit 4 1"
definition ACT_UPDATE_NODE_CONDITION :: action_type where "ACT_UPDATE_NODE_CONDITION = push_bit 5 1"
definition ACT_UPDATE_NODE_ANNOTATION :: action_type where "ACT_UPDATE_NODE_ANNOTATION = push_bit 6 1"
definition ACT_UPDATE_NODE_DECLARED_FEATURE :: action_type where "ACT_UPDATE_NODE_DECLARED_FEATURE = push_bit 7 1"
definition ACT_UPDATE_POD_LABEL :: action_type where "ACT_UPDATE_POD_LABEL = push_bit 8 1"
definition ACT_UPDATE_POD_SCALE_DOWN :: action_type where "ACT_UPDATE_POD_SCALE_DOWN = push_bit 9 1"
definition ACT_UPDATE_POD_TOLERATION :: action_type where "ACT_UPDATE_POD_TOLERATION = push_bit 10 1"
definition ACT_UPDATE_POD_SCHEDULING_GATES_ELIMINATED :: action_type where
  "ACT_UPDATE_POD_SCHEDULING_GATES_ELIMINATED = push_bit 11 1"
definition ACT_UPDATE_POD_GENERATED_RESOURCE_CLAIM :: action_type where
  "ACT_UPDATE_POD_GENERATED_RESOURCE_CLAIM = push_bit 12 1"
definition ACT_ALL :: action_type where "ACT_ALL = push_bit 13 1 - 1"
definition ACT_NONE :: action_type where "ACT_NONE = 0"

definition ACT_UPDATE :: action_type where
  "ACT_UPDATE =
     ACT_UPDATE_NODE_ALLOCATABLE OR ACT_UPDATE_NODE_LABEL OR ACT_UPDATE_NODE_TAINT OR ACT_UPDATE_NODE_CONDITION
     OR ACT_UPDATE_NODE_ANNOTATION OR ACT_UPDATE_NODE_DECLARED_FEATURE OR ACT_UPDATE_POD_LABEL
     OR ACT_UPDATE_POD_SCALE_DOWN OR ACT_UPDATE_POD_TOLERATION OR ACT_UPDATE_POD_SCHEDULING_GATES_ELIMINATED
     OR ACT_UPDATE_POD_GENERATED_RESOURCE_CLAIM"

lemmas action_defs = ACT_ADD_def ACT_DELETE_def ACT_UPDATE_NODE_ALLOCATABLE_def ACT_UPDATE_NODE_LABEL_def
  ACT_UPDATE_NODE_TAINT_def ACT_UPDATE_NODE_CONDITION_def ACT_UPDATE_NODE_ANNOTATION_def
  ACT_UPDATE_NODE_DECLARED_FEATURE_def ACT_UPDATE_POD_LABEL_def ACT_UPDATE_POD_SCALE_DOWN_def
  ACT_UPDATE_POD_TOLERATION_def ACT_UPDATE_POD_SCHEDULING_GATES_ELIMINATED_def
  ACT_UPDATE_POD_GENERATED_RESOURCE_CLAIM_def ACT_ALL_def ACT_NONE_def ACT_UPDATE_def

definition show_action :: "action_type \<Rightarrow> string" where
  "show_action a =
     (if a = ACT_ADD then ''Add''
      else if a = ACT_DELETE then ''Delete''
      else if a = ACT_UPDATE_NODE_ALLOCATABLE then ''UpdateNodeAllocatable''
      else if a = ACT_UPDATE_NODE_LABEL then ''UpdateNodeLabel''
      else if a = ACT_UPDATE_NODE_TAINT then ''UpdateNodeTaint''
      else if a = ACT_UPDATE_NODE_CONDITION then ''UpdateNodeCondition''
      else if a = ACT_UPDATE_NODE_ANNOTATION then ''UpdateNodeAnnotation''
      else if a = ACT_UPDATE_NODE_DECLARED_FEATURE then ''UpdateNodeDeclaredFeature''
      else if a = ACT_UPDATE_POD_LABEL then ''UpdatePodLabel''
      else if a = ACT_UPDATE_POD_SCALE_DOWN then ''UpdatePodScaleDown''
      else if a = ACT_UPDATE_POD_TOLERATION then ''UpdatePodToleration''
      else if a = ACT_UPDATE_POD_SCHEDULING_GATES_ELIMINATED then ''UpdatePodSchedulingGatesEliminated''
      else if a = ACT_UPDATE_POD_GENERATED_RESOURCE_CLAIM then ''UpdatePodGeneratedResourceClaim''
      else if a = ACT_ALL then ''All''
      else if a = ACT_UPDATE then ''Update''
      else '''')"

datatype event_resource =
    RPod | RAssignedPod | RUnschedulablePod | RNode | RPersistentVolume | RPersistentVolumeClaim | RCsiNode
  | RCsiDriver | RVolumeAttachment | RCsiStorageCapacity | RStorageClass | RResourceClaim | RResourceSlice
  | RDeviceClass | RWorkload | RWildCard

fun show_resource :: "event_resource \<Rightarrow> string" where
  "show_resource RPod = ''Pod''"
| "show_resource RAssignedPod = ''AssignedPod''"
| "show_resource RUnschedulablePod = ''UnschedulablePod''"
| "show_resource RNode = ''Node''"
| "show_resource RPersistentVolume = ''PersistentVolume''"
| "show_resource RPersistentVolumeClaim = ''PersistentVolumeClaim''"
| "show_resource RCsiNode = ''storage.k8s.io/CSINode''"
| "show_resource RCsiDriver = ''storage.k8s.io/CSIDriver''"
| "show_resource RVolumeAttachment = ''storage.k8s.io/VolumeAttachment''"
| "show_resource RCsiStorageCapacity = ''storage.k8s.io/CSIStorageCapacity''"
| "show_resource RStorageClass = ''storage.k8s.io/StorageClass''"
| "show_resource RResourceClaim = ''resource.k8s.io/ResourceClaim''"
| "show_resource RResourceSlice = ''resource.k8s.io/ResourceSlice''"
| "show_resource RDeviceClass = ''resource.k8s.io/DeviceClass''"
| "show_resource RWorkload = ''scheduling.k8s.io/Workload''"
| "show_resource RWildCard = ''*''"

record cluster_event =
  ce_resource :: event_resource
  ce_action_type :: action_type
  ce_custom_label :: string

definition cluster_event_new :: "event_resource \<Rightarrow> action_type \<Rightarrow> cluster_event" where
  "cluster_event_new r a = \<lparr>ce_resource = r, ce_action_type = a, ce_custom_label = ''''\<rparr>"

definition event_label :: "cluster_event \<Rightarrow> string" where
  "event_label e =
     (if ce_custom_label e \<noteq> '''' then ce_custom_label e
      else show_resource (ce_resource e) @ show_action (ce_action_type e))"

definition cluster_event_is_wild_card :: "cluster_event \<Rightarrow> bool" where
  "cluster_event_is_wild_card e \<longleftrightarrow> ce_resource e = RWildCard \<and> ce_action_type e = ACT_ALL"

definition match_event_resources :: "event_resource \<Rightarrow> event_resource \<Rightarrow> bool" where
  "match_event_resources r resource \<longleftrightarrow>
     r = RWildCard \<or> r = resource \<or> (r = RPod \<and> (resource = RAssignedPod \<or> resource = RUnschedulablePod))"

definition match_cluster_events :: "cluster_event \<Rightarrow> cluster_event \<Rightarrow> bool" where
  "match_cluster_events ce incoming \<longleftrightarrow>
     cluster_event_is_wild_card ce
     \<or> (match_event_resources (ce_resource ce) (ce_resource incoming)
        \<and> (ce_action_type ce AND ce_action_type incoming) \<noteq> ACT_NONE
        \<and> ce_action_type incoming \<le> ce_action_type ce)"

definition match_any_cluster_event :: "cluster_event \<Rightarrow> cluster_event list \<Rightarrow> bool" where
  "match_any_cluster_event ce incoming = list_ex (\<lambda>e. match_cluster_events e ce) incoming"

definition FORCE_ACTIVATE :: string where "FORCE_ACTIVATE = ''ForceActivate''"
definition BACKOFF_COMPLETE :: string where "BACKOFF_COMPLETE = ''BackoffComplete''"
definition SCHEDULE_ATTEMPT_FAILURE :: string where "SCHEDULE_ATTEMPT_FAILURE = ''ScheduleAttemptFailure''"
definition UNSCHEDULABLE_TIMEOUT :: string where "UNSCHEDULABLE_TIMEOUT = ''UnschedulableTimeout''"

definition EVENT_UNSCHEDULED_POD_ADD :: cluster_event where
  "EVENT_UNSCHEDULED_POD_ADD = cluster_event_new RUnschedulablePod ACT_ADD"

definition EVENT_UNSCHEDULED_POD_UPDATE :: cluster_event where
  "EVENT_UNSCHEDULED_POD_UPDATE = cluster_event_new RUnschedulablePod ACT_UPDATE"

definition EVENT_UNSCHEDULABLE_TIMEOUT :: cluster_event where
  "EVENT_UNSCHEDULABLE_TIMEOUT =
     \<lparr>ce_resource = RWildCard, ce_action_type = ACT_ALL, ce_custom_label = UNSCHEDULABLE_TIMEOUT\<rparr>"

definition EVENT_FORCE_ACTIVATE :: cluster_event where
  "EVENT_FORCE_ACTIVATE =
     \<lparr>ce_resource = RWildCard, ce_action_type = ACT_ALL, ce_custom_label = FORCE_ACTIVATE\<rparr>"

section \<open>The events of a pod update\<close>

type_synonym pod_requests = "pod \<Rightarrow> (string \<times> int) list"

definition is_label_changed :: "(string \<rightharpoonup> string) option \<Rightarrow> (string \<rightharpoonup> string) option \<Rightarrow> bool" where
  "is_label_changed new_labels old_labels \<longleftrightarrow>
     (case new_labels of None \<Rightarrow> Map.empty | Some m \<Rightarrow> m) \<noteq> (case old_labels of None \<Rightarrow> Map.empty | Some m \<Rightarrow> m)"

definition extract_pod_labels_change :: "pod \<Rightarrow> pod \<Rightarrow> action_type" where
  "extract_pod_labels_change new_pod old_pod =
     (if is_label_changed (om_labels (po_metadata new_pod)) (om_labels (po_metadata old_pod))
      then ACT_UPDATE_POD_LABEL else ACT_NONE)"

definition extract_pod_scale_down :: "pod_requests \<Rightarrow> pod \<Rightarrow> pod \<Rightarrow> action_type" where
  "extract_pod_scale_down requests new_pod old_pod =
     (if list_ex (\<lambda>(name, old_req). case map_of (requests new_pod) name of
                    None \<Rightarrow> True | Some new_req \<Rightarrow> old_req > new_req) (requests old_pod)
      then ACT_UPDATE_POD_SCALE_DOWN else ACT_NONE)"

definition extract_pod_toleration_change :: "pod \<Rightarrow> pod \<Rightarrow> action_type" where
  "extract_pod_toleration_change new_pod old_pod =
     (let len = (\<lambda>p. case Option.bind (po_spec p) ps_tolerations of None \<Rightarrow> 0 | Some t \<Rightarrow> length t) in
      if len new_pod \<noteq> len old_pod then ACT_UPDATE_POD_TOLERATION else ACT_NONE)"

definition extract_pod_scheduling_gate_eliminated_change :: "pod \<Rightarrow> pod \<Rightarrow> action_type" where
  "extract_pod_scheduling_gate_eliminated_change new_pod old_pod =
     (let len = (\<lambda>p. case Option.bind (po_spec p) ps_scheduling_gates of None \<Rightarrow> 0 | Some g \<Rightarrow> length g) in
      if len new_pod = 0 \<and> len old_pod \<noteq> 0 then ACT_UPDATE_POD_SCHEDULING_GATES_ELIMINATED else ACT_NONE)"

definition extract_pod_generated_resource_claim_change :: "pod \<Rightarrow> pod \<Rightarrow> action_type" where
  "extract_pod_generated_resource_claim_change new_pod old_pod =
     (let statuses = (\<lambda>p. case Option.bind (po_status p) pst_resource_claim_statuses of None \<Rightarrow> [] | Some l \<Rightarrow> l);
          extended = (\<lambda>p. Option.bind (po_status p) pst_extended_resource_claim_status);
          a = statuses new_pod; b = statuses old_pod;
          statuses_equal = (length a = length b \<and>
            list_all (\<lambda>(x, y). rcs_name x = rcs_name y \<and> rcs_resource_claim_name x = rcs_resource_claim_name y) (zip a b));
          extended_equal =
            (case (extended new_pod, extended old_pod) of
               (None, None) \<Rightarrow> True
             | (Some x, Some y) \<Rightarrow>
                 xcs_resource_claim_name x = xcs_resource_claim_name y
                 \<and> length (xcs_request_mappings x) = length (xcs_request_mappings y)
                 \<and> list_all (\<lambda>(m, n). xr_container_name m = xr_container_name n
                      \<and> xr_request_name m = xr_request_name n \<and> xr_resource_name m = xr_resource_name n)
                    (zip (xcs_request_mappings x) (xcs_request_mappings y))
             | _ \<Rightarrow> False)
      in if \<not> statuses_equal \<or> \<not> extended_equal then ACT_UPDATE_POD_GENERATED_RESOURCE_CLAIM else ACT_NONE)"

definition pod_scheduling_properties_change :: "pod_requests \<Rightarrow> pod \<Rightarrow> pod \<Rightarrow> cluster_event list" where
  "pod_scheduling_properties_change requests new_pod old_pod =
     (let r = (if pod_node_name new_pod = '''' then RUnschedulablePod else RAssignedPod);
          actions = [extract_pod_labels_change new_pod old_pod, extract_pod_scale_down requests new_pod old_pod,
                     extract_pod_scheduling_gate_eliminated_change new_pod old_pod,
                     extract_pod_toleration_change new_pod old_pod,
                     extract_pod_generated_resource_claim_change new_pod old_pod];
          events = map (cluster_event_new r) (filter (\<lambda>a. a \<noteq> ACT_NONE) actions)
      in if events = [] then [cluster_event_new r ACT_UPDATE] else events)"

end
