(* ===== verification/SchedulerCache.thy ===== *)
theory SchedulerCache
  imports SchedulingOrder
begin

text \<open>
  The scheduler cache's pod state machine (\<^verbatim>\<open>crates/scheduler/src/cache.rs\<close>): pods the scheduler has
  placed are \<^emph>\<open>assumed\<close> until the informer confirms them, the binding fails or they expire. The
  state is the set of assumed keys and the map of pod states; every operation takes the lock for its
  whole body, so it is one function of that state. Log output is not modelled; error messages are.

  Shown here: the assumed set and the pod map stay consistent along every sequence of operations;
  every operation moves a pod along the documented life cycle (an abstract machine with the phases
  absent, assumed and added) and leaves every other pod alone; expiry removes exactly the assumed
  pods whose binding finished and whose deadline passed, in whatever order the hash set is visited,
  and none at all with a TTL of zero.
\<close>

section \<open>Definitions\<close>

text \<open>An \<open>Instant\<close> is a natural number of nanoseconds on the monotonic clock.\<close>

type_synonym instant = nat

record pod_state =
  st_pod :: pod
  st_deadline :: "instant option"
  st_binding_finished :: bool

record cache_inner =
  ci_assumed_pods :: "string set"
  ci_pod_states :: "string \<rightharpoonup> pod_state"

record scheduler_cache =
  sc_ttl :: duration
  sc_inner :: cache_inner

definition cache_pod_key :: "pod \<Rightarrow> (string, string) result" where
  "cache_pod_key p =
     (if pod_uid p = '''' then Inl (''cannot get cache key for pod with empty UID: '' @ pod_name p)
      else Inr (pod_uid p))"

definition node_of :: "pod \<Rightarrow> string" where
  "node_of p =
     (case po_spec p of
        None \<Rightarrow> ''''
      | Some s \<Rightarrow> (case ps_node_name s of None \<Rightarrow> '''' | Some n \<Rightarrow> n))"

definition kobj :: "pod \<Rightarrow> string" where
  "kobj p = pod_namespace_or_empty p @ ''/'' @ pod_name p"

definition inner_add_pod :: "cache_inner \<Rightarrow> pod \<Rightarrow> bool \<Rightarrow> (string, unit) result \<times> cache_inner" where
  "inner_add_pod g p assume_pod =
     (case cache_pod_key p of
        Inl e \<Rightarrow> (Inl e, g)
      | Inr key \<Rightarrow>
          (let g1 = g\<lparr>ci_pod_states := (ci_pod_states g)(key \<mapsto>
                        \<lparr>st_pod = p, st_deadline = None, st_binding_finished = False\<rparr>)\<rparr>
           in (Inr (), if assume_pod then g1\<lparr>ci_assumed_pods := insert key (ci_assumed_pods g1)\<rparr> else g1)))"

definition inner_remove_pod :: "cache_inner \<Rightarrow> pod \<Rightarrow> (string, unit) result \<times> cache_inner" where
  "inner_remove_pod g p =
     (case cache_pod_key p of
        Inl e \<Rightarrow> (Inl e, g)
      | Inr key \<Rightarrow>
          (Inr (), g\<lparr>ci_pod_states := (ci_pod_states g)(key := None),
                     ci_assumed_pods := ci_assumed_pods g - {key}\<rparr>))"

definition inner_update_pod :: "cache_inner \<Rightarrow> pod \<Rightarrow> pod \<Rightarrow> (string, unit) result \<times> cache_inner" where
  "inner_update_pod g old new =
     (case inner_remove_pod g old of
        (Inl e, g1) \<Rightarrow> (Inl e, g1)
      | (Inr _, g1) \<Rightarrow> inner_add_pod g1 new False)"

definition cache_new :: "duration \<Rightarrow> scheduler_cache" where
  "cache_new ttl = \<lparr>sc_ttl = ttl, sc_inner = \<lparr>ci_assumed_pods = {}, ci_pod_states = Map.empty\<rparr>\<rparr>"

definition assume_pod :: "scheduler_cache \<Rightarrow> pod \<Rightarrow> (string, unit) result \<times> scheduler_cache" where
  "assume_pod c p =
     (case cache_pod_key p of
        Inl e \<Rightarrow> (Inl e, c)
      | Inr key \<Rightarrow>
          if ci_pod_states (sc_inner c) key \<noteq> None
          then (Inl (''pod '' @ key @ ''('' @ kobj p @ '') is in the cache, so can't be assumed''), c)
          else (let (r, g) = inner_add_pod (sc_inner c) p True in (r, c\<lparr>sc_inner := g\<rparr>)))"

definition finish_binding_at ::
  "scheduler_cache \<Rightarrow> pod \<Rightarrow> instant \<Rightarrow> (string, unit) result \<times> scheduler_cache" where
  "finish_binding_at c p now =
     (case cache_pod_key p of
        Inl e \<Rightarrow> (Inl e, c)
      | Inr key \<Rightarrow>
          (let g = sc_inner c; assumed = key \<in> ci_assumed_pods g in
           (Inr (),
            case ci_pod_states g key of
              None \<Rightarrow> c
            | Some st \<Rightarrow>
                if assumed
                then c\<lparr>sc_inner := g\<lparr>ci_pod_states := (ci_pod_states g)(key \<mapsto>
                         st\<lparr>st_deadline := (if sc_ttl c = 0 then None else Some (now + sc_ttl c)),
                            st_binding_finished := True\<rparr>)\<rparr>\<rparr>
                else c)))"

definition forget_pod :: "scheduler_cache \<Rightarrow> pod \<Rightarrow> (string, unit) result \<times> scheduler_cache" where
  "forget_pod c p =
     (case cache_pod_key p of
        Inl e \<Rightarrow> (Inl e, c)
      | Inr key \<Rightarrow>
          (let g = sc_inner c in
           case ci_pod_states g key of
             None \<Rightarrow> (Inr (), c)
           | Some cur \<Rightarrow>
               if node_of (st_pod cur) \<noteq> node_of p
               then (Inl (''pod '' @ key @ ''('' @ kobj p @ '') was assumed on '' @ node_of p @
                          '' but assigned to '' @ node_of (st_pod cur)), c)
               else if key \<in> ci_assumed_pods g
               then (let (r, g') = inner_remove_pod g p in (r, c\<lparr>sc_inner := g'\<rparr>))
               else (Inl (''pod '' @ key @ ''('' @ kobj p @ '') wasn't assumed so cannot be forgotten''), c)))"

definition add_pod :: "scheduler_cache \<Rightarrow> pod \<Rightarrow> (string, unit) result \<times> scheduler_cache" where
  "add_pod c p =
     (case cache_pod_key p of
        Inl e \<Rightarrow> (Inl e, c)
      | Inr key \<Rightarrow>
          (let g = sc_inner c;
               cur = map_option st_pod (ci_pod_states g key);
               assumed = key \<in> ci_assumed_pods g
           in case cur of
                Some cp \<Rightarrow>
                  if assumed then (Inr (), c\<lparr>sc_inner := snd (inner_update_pod g cp p)\<rparr>)
                  else (Inl (''pod '' @ key @ ''('' @ kobj p @ '') was already in added state''), c)
              | None \<Rightarrow> (Inr (), c\<lparr>sc_inner := snd (inner_add_pod g p False)\<rparr>)))"

definition update_pod :: "scheduler_cache \<Rightarrow> pod \<Rightarrow> pod \<Rightarrow> (string, unit) result \<times> scheduler_cache" where
  "update_pod c old new =
     (case cache_pod_key old of
        Inl e \<Rightarrow> (Inl e, c)
      | Inr key \<Rightarrow>
          (let g = sc_inner c in
           case ci_pod_states g key of
             None \<Rightarrow> (Inl (''pod '' @ key @ ''('' @ kobj old @
                           '') is not added to scheduler cache, so cannot be updated''), c)
           | Some cur \<Rightarrow>
               if key \<in> ci_assumed_pods g
               then (Inl (''assumed pod '' @ key @ ''('' @ kobj old @ '') should not be updated''), c)
               else if node_of (st_pod cur) \<noteq> node_of new
               then (Inl (''pod '' @ key @ ''('' @ kobj old @
                          '') updated on a different node than previously added to; scheduler cache is corrupted''), c)
               else (let (r, g') = inner_update_pod g old new in (r, c\<lparr>sc_inner := g'\<rparr>))))"

definition remove_pod :: "scheduler_cache \<Rightarrow> pod \<Rightarrow> (string, unit) result \<times> scheduler_cache" where
  "remove_pod c p =
     (case cache_pod_key p of
        Inl e \<Rightarrow> (Inl e, c)
      | Inr key \<Rightarrow>
          (let g = sc_inner c in
           case ci_pod_states g key of
             None \<Rightarrow> (Inl (''pod '' @ key @ ''('' @ kobj p @
                           '') is not found in scheduler cache, so cannot be removed from it''), c)
           | Some cur \<Rightarrow>
               if node_of (st_pod cur) \<noteq> node_of p \<and> node_of p \<noteq> ''''
               then (Inl (''pod '' @ key @ ''('' @ kobj p @
                          '') was added to a different node than it was assumed; scheduler cache is corrupted''), c)
               else (let (r, g') = inner_remove_pod g (st_pod cur) in (r, c\<lparr>sc_inner := g'\<rparr>))))"

definition is_assumed_pod :: "scheduler_cache \<Rightarrow> pod \<Rightarrow> (string, bool) result" where
  "is_assumed_pod c p =
     (case cache_pod_key p of Inl e \<Rightarrow> Inl e | Inr key \<Rightarrow> Inr (key \<in> ci_assumed_pods (sc_inner c)))"

definition get_pod :: "scheduler_cache \<Rightarrow> pod \<Rightarrow> (string, pod) result" where
  "get_pod c p =
     (case cache_pod_key p of
        Inl e \<Rightarrow> Inl e
      | Inr key \<Rightarrow>
          (case ci_pod_states (sc_inner c) key of
             Some st \<Rightarrow> Inr (st_pod st)
           | None \<Rightarrow> Inl (''pod '' @ key @ ''('' @ kobj p @ '') does not exist in scheduler cache'')))"

text \<open>One iteration of the loop of \<open>cleanup_assumed_pods\<close>; the loop visits the assumed keys in the
  order of the hash set, which is the argument \<open>keys\<close>.\<close>

definition cleanup_one :: "duration \<Rightarrow> instant \<Rightarrow> string \<Rightarrow> cache_inner \<Rightarrow> cache_inner" where
  "cleanup_one ttl now key g =
     (case ci_pod_states g key of
        None \<Rightarrow> g\<lparr>ci_assumed_pods := ci_assumed_pods g - {key}\<rparr>
      | Some ps \<Rightarrow>
          if \<not> st_binding_finished ps then g
          else if ttl \<noteq> 0 \<and> (case st_deadline ps of None \<Rightarrow> False | Some d \<Rightarrow> now > d)
          then snd (inner_remove_pod g (st_pod ps))
          else g)"

definition cleanup_assumed_pods :: "scheduler_cache \<Rightarrow> string list \<Rightarrow> instant \<Rightarrow> scheduler_cache" where
  "cleanup_assumed_pods c keys now =
     c\<lparr>sc_inner := fold (cleanup_one (sc_ttl c) now) keys (sc_inner c)\<rparr>"

text \<open>\<open>pods_on_node\<close> and \<open>assumed_pods\<close> collect from the hash containers; the model keeps the sets.\<close>

definition pods_on_node :: "scheduler_cache \<Rightarrow> string \<Rightarrow> pod set" where
  "pods_on_node c node = {st_pod s | s. s \<in> ran (ci_pod_states (sc_inner c)) \<and> node_of (st_pod s) = node}"

definition assumed_pods :: "scheduler_cache \<Rightarrow> pod set" where
  "assumed_pods c =
     {st_pod s | k s. k \<in> ci_assumed_pods (sc_inner c) \<and> ci_pod_states (sc_inner c) k = Some s}"

definition pod_count :: "scheduler_cache \<Rightarrow> nat" where
  "pod_count c = card (dom (ci_pod_states (sc_inner c)))"

definition assumed_count :: "scheduler_cache \<Rightarrow> nat" where
  "assumed_count c = card (ci_assumed_pods (sc_inner c))"

section \<open>The life cycle of a pod\<close>

datatype cache_op =
    OpAssume pod
  | OpFinishBinding pod instant
  | OpForget pod
  | OpAdd pod
  | OpUpdate pod pod
  | OpRemove pod
  | OpCleanup "string list" instant

fun cache_step :: "scheduler_cache \<Rightarrow> cache_op \<Rightarrow> (string, unit) result \<times> scheduler_cache" where
  "cache_step c (OpAssume p) = assume_pod c p"
| "cache_step c (OpFinishBinding p now) = finish_binding_at c p now"
| "cache_step c (OpForget p) = forget_pod c p"
| "cache_step c (OpAdd p) = add_pod c p"
| "cache_step c (OpUpdate old new) = update_pod c old new"
| "cache_step c (OpRemove p) = remove_pod c p"
| "cache_step c (OpCleanup keys now) = (Inr (), cleanup_assumed_pods c keys now)"

text \<open>A cleanup visits every assumed key once.\<close>

fun op_allowed :: "scheduler_cache \<Rightarrow> cache_op \<Rightarrow> bool" where
  "op_allowed c (OpCleanup keys now) = (distinct keys \<and> set keys = ci_assumed_pods (sc_inner c))"
| "op_allowed c _ = True"

inductive cache_reachable :: "duration \<Rightarrow> scheduler_cache \<Rightarrow> bool" for ttl where
  start: "cache_reachable ttl (cache_new ttl)"
| step: "cache_reachable ttl c \<Longrightarrow> op_allowed c op \<Longrightarrow> cache_reachable ttl (snd (cache_step c op))"

definition cache_inv :: "scheduler_cache \<Rightarrow> bool" where
  "cache_inv c \<longleftrightarrow>
     (let g = sc_inner c in
      finite (dom (ci_pod_states g)) \<and>
      ci_assumed_pods g \<subseteq> dom (ci_pod_states g) \<and>
      (\<forall>k st. ci_pod_states g k = Some st \<longrightarrow> k \<noteq> '''' \<and> pod_uid (st_pod st) = k \<and>
         (k \<notin> ci_assumed_pods g \<longrightarrow> \<not> st_binding_finished st \<and> st_deadline st = None) \<and>
         (sc_ttl c = 0 \<longrightarrow> st_deadline st = None)))"

text \<open>The abstract machine: what the cache promises, pod by pod.\<close>

datatype phase = Absent | Assumed pod bool "instant option" | Added pod

definition phase_of :: "scheduler_cache \<Rightarrow> string \<Rightarrow> phase" where
  "phase_of c k =
     (case ci_pod_states (sc_inner c) k of
        None \<Rightarrow> Absent
      | Some st \<Rightarrow> if k \<in> ci_assumed_pods (sc_inner c)
                  then Assumed (st_pod st) (st_binding_finished st) (st_deadline st)
                  else Added (st_pod st))"

fun expire :: "duration \<Rightarrow> instant \<Rightarrow> phase \<Rightarrow> phase" where
  "expire ttl now (Assumed p True (Some d)) =
     (if ttl \<noteq> 0 \<and> now > d then Absent else Assumed p True (Some d))"
| "expire ttl now ph = ph"

text \<open>\<open>spec_step\<close>: the answer (\<open>True\<close> for \<open>Ok\<close>) and the new phases.\<close>

fun spec_step :: "duration \<Rightarrow> cache_op \<Rightarrow> (string \<Rightarrow> phase) \<Rightarrow> bool \<times> (string \<Rightarrow> phase)" where
  "spec_step ttl (OpAssume p) f =
     (if pod_uid p = '''' then (False, f)
      else case f (pod_uid p) of
             Absent \<Rightarrow> (True, f(pod_uid p := Assumed p False None))
           | _ \<Rightarrow> (False, f))"
| "spec_step ttl (OpFinishBinding p now) f =
     (if pod_uid p = '''' then (False, f)
      else case f (pod_uid p) of
             Assumed q _ _ \<Rightarrow>
               (True, f(pod_uid p := Assumed q True (if ttl = 0 then None else Some (now + ttl))))
           | _ \<Rightarrow> (True, f))"
| "spec_step ttl (OpForget p) f =
     (if pod_uid p = '''' then (False, f)
      else case f (pod_uid p) of
             Absent \<Rightarrow> (True, f)
           | Assumed q _ _ \<Rightarrow>
               if node_of q = node_of p then (True, f(pod_uid p := Absent)) else (False, f)
           | Added q \<Rightarrow> (False, f))"
| "spec_step ttl (OpAdd p) f =
     (if pod_uid p = '''' then (False, f)
      else case f (pod_uid p) of
             Added q \<Rightarrow> (False, f)
           | _ \<Rightarrow> (True, f(pod_uid p := Added p)))"
| "spec_step ttl (OpUpdate old new) f =
     (if pod_uid old = '''' then (False, f)
      else case f (pod_uid old) of
             Added q \<Rightarrow>
               if node_of q \<noteq> node_of new then (False, f)
               else if pod_uid new = '''' then (False, f(pod_uid old := Absent))
               else (True, f(pod_uid old := Absent,
                             pod_uid new := (case f (pod_uid new) of
                                               Assumed _ _ _ \<Rightarrow> Assumed new False None
                                             | _ \<Rightarrow> Added new)))
           | _ \<Rightarrow> (False, f))"
| "spec_step ttl (OpRemove p) f =
     (if pod_uid p = '''' then (False, f)
      else case f (pod_uid p) of
             Absent \<Rightarrow> (False, f)
           | Assumed q _ _ \<Rightarrow>
               if node_of q \<noteq> node_of p \<and> node_of p \<noteq> '''' then (False, f)
               else (True, f(pod_uid p := Absent))
           | Added q \<Rightarrow>
               if node_of q \<noteq> node_of p \<and> node_of p \<noteq> '''' then (False, f)
               else (True, f(pod_uid p := Absent)))"
| "spec_step ttl (OpCleanup keys now) f = (True, \<lambda>k. expire ttl now (f k))"

lemmas inner_defs = inner_add_pod_def inner_remove_pod_def inner_update_pod_def cache_pod_key_def
lemmas cache_op_defs = assume_pod_def finish_binding_at_def forget_pod_def add_pod_def update_pod_def
  remove_pod_def inner_defs

lemma cache_invD:
  assumes "cache_inv c" "ci_pod_states (sc_inner c) k = Some st"
  shows "k \<noteq> ''''" "pod_uid (st_pod st) = k" "sc_ttl c = 0 \<Longrightarrow> st_deadline st = None"
    "k \<notin> ci_assumed_pods (sc_inner c) \<Longrightarrow> \<not> st_binding_finished st \<and> st_deadline st = None"
  using assms by (auto simp: cache_inv_def Let_def)

lemma cache_inv_assumed:
  assumes "cache_inv c" "k \<in> ci_assumed_pods (sc_inner c)"
  obtains st where "ci_pod_states (sc_inner c) k = Some st"
  using assms by (auto simp: cache_inv_def Let_def)

text \<open>Expiry: the loop over the assumed keys, key by key.\<close>

definition expired_key :: "duration \<Rightarrow> instant \<Rightarrow> cache_inner \<Rightarrow> string \<Rightarrow> bool" where
  "expired_key ttl now g k \<longleftrightarrow>
     (case ci_pod_states g k of
        None \<Rightarrow> False
      | Some ps \<Rightarrow> st_binding_finished ps \<and> ttl \<noteq> 0 \<and>
                  (case st_deadline ps of None \<Rightarrow> False | Some d \<Rightarrow> now > d))"

definition keyed :: "cache_inner \<Rightarrow> string \<Rightarrow> bool" where
  "keyed g k \<longleftrightarrow> (\<exists>ps. ci_pod_states g k = Some ps \<and> pod_uid (st_pod ps) = k \<and> k \<noteq> '''')"

lemma cleanup_one_eq:
  assumes "keyed g k"
  shows "cleanup_one ttl now k g =
     (if expired_key ttl now g k
      then g\<lparr>ci_pod_states := (ci_pod_states g)(k := None),
             ci_assumed_pods := ci_assumed_pods g - {k}\<rparr> else g)"
  using assms
  by (auto simp: cleanup_one_def expired_key_def keyed_def inner_defs split: option.splits)

lemma cleanup_fold:
  assumes "\<And>k. k \<in> set keys \<Longrightarrow> keyed g k" "distinct keys"
  shows "ci_pod_states (fold (cleanup_one ttl now) keys g) k =
           (if k \<in> set keys \<and> expired_key ttl now g k then None else ci_pod_states g k) \<and>
         (k \<in> ci_assumed_pods (fold (cleanup_one ttl now) keys g) \<longleftrightarrow>
           k \<in> ci_assumed_pods g \<and> \<not> (k \<in> set keys \<and> expired_key ttl now g k))"
  using assms
proof (induction keys arbitrary: g)
  case (Cons a ks)
  define g1 where "g1 = cleanup_one ttl now a g"
  have g1: "g1 = (if expired_key ttl now g a
      then g\<lparr>ci_pod_states := (ci_pod_states g)(a := None),
             ci_assumed_pods := ci_assumed_pods g - {a}\<rparr> else g)"
    using cleanup_one_eq Cons.prems by (simp add: g1_def)
  have same: "ci_pod_states g1 k' = ci_pod_states g k'" if "k' \<noteq> a" for k'
    using that by (simp add: g1)
  have "keyed g1 k'" if "k' \<in> set ks" for k'
  proof -
    have "k' \<noteq> a" "keyed g k'" using Cons.prems that by auto
    then show ?thesis using same by (simp add: keyed_def)
  qed
  then have IH: "ci_pod_states (fold (cleanup_one ttl now) ks g1) k =
           (if k \<in> set ks \<and> expired_key ttl now g1 k then None else ci_pod_states g1 k)"
    "k \<in> ci_assumed_pods (fold (cleanup_one ttl now) ks g1) \<longleftrightarrow>
           k \<in> ci_assumed_pods g1 \<and> \<not> (k \<in> set ks \<and> expired_key ttl now g1 k)"
    using Cons.IH [of g1] Cons.prems(2) by simp_all
  have fold: "fold (cleanup_one ttl now) (a # ks) g = fold (cleanup_one ttl now) ks g1"
    by (simp add: g1_def)
  show ?case
  proof (cases "k = a")
    case True
    then show ?thesis using IH Cons.prems(2) unfolding fold by (simp add: g1)
  next
    case False
    then have "expired_key ttl now g1 k = expired_key ttl now g k"
      using same by (simp add: expired_key_def)
    then show ?thesis using IH False unfolding fold by (simp add: g1)
  qed
qed simp

lemma cleanup_keyed:
  assumes inv: "cache_inv c" and "k \<in> ci_assumed_pods (sc_inner c)"
  shows "keyed (sc_inner c) k"
proof -
  obtain st where "ci_pod_states (sc_inner c) k = Some st" using cache_inv_assumed [OF assms] .
  then show ?thesis using cache_invD [OF inv] by (auto simp: keyed_def)
qed

lemma cleanup_states:
  fixes now :: instant
  assumes inv: "cache_inv c" and keys: "distinct keys" "set keys = ci_assumed_pods (sc_inner c)"
  defines "g \<equiv> sc_inner c" and "g' \<equiv> sc_inner (cleanup_assumed_pods c keys now)"
  shows "ci_pod_states g' k = (if k \<in> ci_assumed_pods g \<and> expired_key (sc_ttl c) now g k
                               then None else ci_pod_states g k)"
    "k \<in> ci_assumed_pods g' \<longleftrightarrow> k \<in> ci_assumed_pods g \<and> \<not> expired_key (sc_ttl c) now g k"
  using cleanup_fold [of keys "sc_inner c"] cleanup_keyed [OF inv] keys
  by (auto simp: cleanup_assumed_pods_def g_def g'_def)

section \<open>The invariant and the refinement\<close>

lemma cache_inv_new: "cache_inv (cache_new ttl)"
  by (simp add: cache_inv_def cache_new_def)

lemma cache_inv_cleanup:
  assumes inv: "cache_inv c" and keys: "distinct keys" "set keys = ci_assumed_pods (sc_inner c)"
  shows "cache_inv (cleanup_assumed_pods c keys now)"
proof -
  let ?g' = "sc_inner (cleanup_assumed_pods c keys now)"
  note st = cleanup_states [OF inv keys, where now = now]
  have ttl: "sc_ttl (cleanup_assumed_pods c keys now) = sc_ttl c"
    by (simp add: cleanup_assumed_pods_def)
  have sub: "dom (ci_pod_states ?g') \<subseteq> dom (ci_pod_states (sc_inner c))"
    using st(1) by (auto split: if_splits)
  have "k \<in> dom (ci_pod_states ?g')" if "k \<in> ci_assumed_pods ?g'" for k
  proof -
    have k: "k \<in> ci_assumed_pods (sc_inner c)" "\<not> expired_key (sc_ttl c) now (sc_inner c) k"
      using that st(2) by simp_all
    obtain s where "ci_pod_states (sc_inner c) k = Some s" using cache_inv_assumed [OF inv k(1)] .
    then show ?thesis using st(1) [of k] k by auto
  qed
  moreover have "finite (dom (ci_pod_states ?g'))"
    using inv finite_subset [OF sub] by (simp add: cache_inv_def Let_def)
  moreover have "ci_pod_states (sc_inner c) k = Some s" "k \<notin> ci_assumed_pods ?g' \<Longrightarrow> k \<notin> ci_assumed_pods (sc_inner c)"
    if "ci_pod_states ?g' k = Some s" for k s
    using that st [of k] by (auto split: if_splits)
  ultimately show ?thesis
    using cache_invD [OF inv] unfolding cache_inv_def Let_def ttl by blast
qed

lemma cache_inv_step:
  assumes inv: "cache_inv c" and "op_allowed c op"
  shows "cache_inv (snd (cache_step c op))"
proof (cases op)
  case (OpCleanup keys now)
  then show ?thesis using assms cache_inv_cleanup by simp
next
  case (OpUpdate old new)
  then show ?thesis
    using inv by (auto simp: cache_inv_def cache_op_defs Let_def split: option.splits if_splits)
qed (use inv in \<open>auto simp: cache_inv_def cache_op_defs Let_def split: option.splits if_splits\<close>)

lemma cache_step_ttl: "sc_ttl (snd (cache_step c op)) = sc_ttl c"
  by (cases op) (auto simp: cache_op_defs cleanup_assumed_pods_def Let_def split: option.splits)

lemma cache_reachable_inv: "cache_reachable ttl c \<Longrightarrow> cache_inv c \<and> sc_ttl c = ttl"
proof (induction rule: cache_reachable.induct)
  case start
  show ?case using cache_inv_new by (simp add: cache_new_def)
next
  case (step c op)
  then show ?case using cache_inv_step cache_step_ttl by simp
qed

lemma phase_expire:
  assumes inv: "cache_inv c"
  shows "expire (sc_ttl c) now (phase_of c k) =
    (if k \<in> ci_assumed_pods (sc_inner c) \<and> expired_key (sc_ttl c) now (sc_inner c) k then Absent
     else phase_of c k)"
proof (cases "ci_pod_states (sc_inner c) k")
  case (Some st)
  then show ?thesis
    by (cases "st_binding_finished st"; cases "st_deadline st")
      (simp_all add: phase_of_def expired_key_def)
qed (simp add: phase_of_def expired_key_def)

lemma phase_cleanup:
  assumes "cache_inv c" "distinct keys" "set keys = ci_assumed_pods (sc_inner c)"
  shows "phase_of (cleanup_assumed_pods c keys now) k = expire (sc_ttl c) now (phase_of c k)"
  unfolding phase_expire [OF assms(1)] using cleanup_states [OF assms, where now = now, of k]
  by (simp add: phase_of_def split: option.splits)

text \<open>The state after an operation that removes, or writes, one pod.\<close>

lemma phase_of_upd:
  "phase_of (c\<lparr>sc_inner := g\<rparr>) = (\<lambda>k. case ci_pod_states g k of
        None \<Rightarrow> Absent
      | Some st \<Rightarrow> if k \<in> ci_assumed_pods g
                  then Assumed (st_pod st) (st_binding_finished st) (st_deadline st)
                  else Added (st_pod st))"
  by (rule ext) (simp add: phase_of_def split: option.split)

lemma phase_of_cases:
  assumes inv: "cache_inv c"
  shows "phase_of c k = Absent \<longleftrightarrow> ci_pod_states (sc_inner c) k = None \<and> k \<notin> ci_assumed_pods (sc_inner c)"
    "phase_of c k = Added p \<longleftrightarrow> (\<exists>st. ci_pod_states (sc_inner c) k = Some st \<and> st_pod st = p \<and>
        k \<notin> ci_assumed_pods (sc_inner c))"
    "phase_of c k = Assumed p b d \<longleftrightarrow> (\<exists>st. ci_pod_states (sc_inner c) k = Some st \<and> st_pod st = p \<and>
        st_binding_finished st = b \<and> st_deadline st = d \<and> k \<in> ci_assumed_pods (sc_inner c))"
  using inv by (auto simp: phase_of_def cache_inv_def Let_def split: option.splits)

lemma refine_assume: "cache_inv c \<Longrightarrow>
  (\<not> isl (fst (cache_step c (OpAssume p))), phase_of (snd (cache_step c (OpAssume p)))) =
     spec_step (sc_ttl c) (OpAssume p) (phase_of c)"
  by (auto simp: cache_op_defs Let_def phase_of_upd fun_eq_iff split: option.splits phase.splits)
     (auto simp: phase_of_def split: option.splits if_splits)

lemma refine_finish: "cache_inv c \<Longrightarrow>
  (\<not> isl (fst (cache_step c (OpFinishBinding p now))), phase_of (snd (cache_step c (OpFinishBinding p now)))) =
     spec_step (sc_ttl c) (OpFinishBinding p now) (phase_of c)"
  by (auto simp: cache_op_defs Let_def phase_of_upd fun_eq_iff split: option.splits phase.splits)
     (auto simp: phase_of_def split: option.splits if_splits)

lemma refine_forget: "cache_inv c \<Longrightarrow>
  (\<not> isl (fst (cache_step c (OpForget p))), phase_of (snd (cache_step c (OpForget p)))) =
     spec_step (sc_ttl c) (OpForget p) (phase_of c)"
  by (auto simp: cache_op_defs Let_def phase_of_upd fun_eq_iff split: option.splits phase.splits)
     (auto simp: phase_of_def split: option.splits if_splits)

lemma refine_add: "cache_inv c \<Longrightarrow>
  (\<not> isl (fst (cache_step c (OpAdd p))), phase_of (snd (cache_step c (OpAdd p)))) =
     spec_step (sc_ttl c) (OpAdd p) (phase_of c)"
  using cache_invD(2) [of c "pod_uid p"]
  by (auto simp: cache_op_defs Let_def phase_of_upd fun_eq_iff split: option.splits phase.splits)
     (auto simp: phase_of_def cache_inv_def Let_def split: option.splits if_splits)

lemma refine_remove: "cache_inv c \<Longrightarrow>
  (\<not> isl (fst (cache_step c (OpRemove p))), phase_of (snd (cache_step c (OpRemove p)))) =
     spec_step (sc_ttl c) (OpRemove p) (phase_of c)"
  using cache_invD(2) [of c "pod_uid p"]
  by (auto simp: cache_op_defs Let_def phase_of_upd fun_eq_iff split: option.splits phase.splits)
     (auto simp: phase_of_def split: option.splits if_splits)

lemma refine_update: "cache_inv c \<Longrightarrow>
  (\<not> isl (fst (cache_step c (OpUpdate old new))), phase_of (snd (cache_step c (OpUpdate old new)))) =
     spec_step (sc_ttl c) (OpUpdate old new) (phase_of c)"
  by (auto simp: cache_op_defs Let_def phase_of_upd fun_eq_iff split: option.splits phase.splits)
     (auto simp: phase_of_def cache_inv_def Let_def split: option.splits if_splits)

lemma refine_cleanup: "cache_inv c \<Longrightarrow> op_allowed c (OpCleanup keys now) \<Longrightarrow>
  (\<not> isl (fst (cache_step c (OpCleanup keys now))), phase_of (snd (cache_step c (OpCleanup keys now)))) =
     spec_step (sc_ttl c) (OpCleanup keys now) (phase_of c)"
  using phase_cleanup by (simp add: fun_eq_iff)

lemmas refine_ops = refine_assume refine_finish refine_forget refine_add refine_remove refine_update
  refine_cleanup

section \<open>Properties\<close>

text \<open>C27. In every state the cache can reach, every operation answers and moves the pods exactly as the
  documented life cycle says: \<open>AssumePod\<close> only for an absent pod, \<open>FinishBinding\<close> only marks an
  assumed one, \<open>ForgetPod\<close> only drops an assumed pod on the same node, \<open>AddPod\<close> confirms or adds,
  \<open>UpdatePod\<close> and \<open>RemovePod\<close> act on an added (or removable) pod, and the periodic cleanup expires
  exactly the finished assumed pods past their deadline, whatever order it visits them in.\<close>

theorem cache_refines_life_cycle:
  assumes "cache_reachable ttl c" and "op_allowed c op"
  shows "(\<not> isl (fst (cache_step c op)), phase_of (snd (cache_step c op))) =
     spec_step ttl op (phase_of c)"
  using cache_reachable_inv [OF assms(1)] assms(2) by (cases op) (use refine_ops in blast)+

abbreviation sample_pod :: "string \<Rightarrow> string \<Rightarrow> pod" where
  "sample_pod uid node \<equiv>
     \<lparr>po_metadata = \<lparr>om_name = ''web'', om_namespace = Some ''default'', om_uid = uid, om_labels = None\<rparr>,
      po_spec = Some \<lparr>ps_node_name = Some node, ps_priority = None, ps_scheduler_name = None,
        ps_tolerations = None, ps_scheduling_gates = None\<rparr>,
      po_status = None\<rparr>"

theorem cache_refines_life_cycle_witness:
  "phase_of (snd (cache_step (cache_new 5) (OpAssume (sample_pod ''u1'' ''n1'')))) ''u1'' =
     Assumed (sample_pod ''u1'' ''n1'') False None"
proof -
  have "phase_of (snd (cache_step (cache_new 5) (OpAssume (sample_pod ''u1'' ''n1'')))) =
      snd (spec_step 5 (OpAssume (sample_pod ''u1'' ''n1'')) (phase_of (cache_new 5)))"
    using cache_refines_life_cycle [OF cache_reachable.start, of 5 "OpAssume (sample_pod ''u1'' ''n1'')"]
    by (metis op_allowed.simps(2) snd_conv)
  then show ?thesis by (simp add: phase_of_def cache_new_def)
qed

text \<open>With the scheduler's setting of a zero TTL an assumed pod never expires: in every reachable
  state the cleanup changes nothing, at any time.\<close>

lemma zero_ttl_never_expires:
  assumes "cache_reachable 0 c" and "op_allowed c (OpCleanup keys now)"
  shows "cleanup_assumed_pods c keys now = c"
proof -
  have inv: "cache_inv c" and ttl: "sc_ttl c = 0" using cache_reachable_inv [OF assms(1)] by auto
  have keys: "distinct keys" "set keys = ci_assumed_pods (sc_inner c)" using assms(2) by simp_all
  have "\<not> expired_key 0 now (sc_inner c) k" for k by (simp add: expired_key_def split: option.splits)
  then have "sc_inner (cleanup_assumed_pods c keys now) = sc_inner c"
    using cleanup_states [OF inv keys, where now = now] ttl by (auto intro!: cache_inner.equality)
  then show ?thesis by (simp add: cleanup_assumed_pods_def)
qed

text \<open>An operation of the cache that returns an error leaves the cache as it was, with one
  exception: \<open>UpdatePod\<close> whose new pod has an empty UID, which has already removed the old pod when it
  finds out.\<close>

lemma cache_error_leaves_state:
  assumes "cache_step c op = (Inl e, c')" and "\<nexists>old new. op = OpUpdate old new \<and> pod_uid new = ''''"
  shows "c' = c"
  using assms by (cases op) (auto simp: cache_op_defs Let_def split: option.splits if_splits)

text \<open>\<open>UpdatePod\<close> of a cached pod to one with an empty UID reports an error and has dropped the
  pod from the cache.\<close>

lemma update_without_uid_drops_pod:
  "let c = snd (add_pod (cache_new 0) (sample_pod ''u1'' ''n1''));
       (r, c') = update_pod c (sample_pod ''u1'' ''n1'') (sample_pod '''' ''n1'')
   in isl r \<and> phase_of c ''u1'' = Added (sample_pod ''u1'' ''n1'') \<and> phase_of c' ''u1'' = Absent"
  by (simp add: cache_op_defs cache_new_def phase_of_def node_of_def Let_def)

end
