(* ===== verification/Decimal.thy ===== *)
theory Decimal
  imports Prelude
begin

text \<open>
  Machine integers and their decimal text. An \<open>i128\<close>, \<open>i64\<close> or \<open>i32\<close> is an integer; checked operations
  answer \<^const>\<open>None\<close> outside the range and unchecked ones wrap (\<open>wrap128\<close>, \<open>wrap64\<close>, \<open>wrap32\<close>), as in a
  release build. \<open>show_int\<close> is the formatter of the standard library, \<open>parse_int\<close> its inverse
  \<open>str::parse\<close>; both are shown to round trip.
\<close>

section \<open>Definitions\<close>

subsection \<open>Machine integers\<close>

definition i128_max :: int where "i128_max = 2 ^ 127 - 1"
definition i128_min :: int where "i128_min = - (2 ^ 127)"
definition i32_max :: int where "i32_max = 2 ^ 31 - 1"
definition i32_min :: int where "i32_min = - (2 ^ 31)"
definition i64_max :: int where "i64_max = 2 ^ 63 - 1"
definition i64_min :: int where "i64_min = - (2 ^ 63)"

definition fits128 :: "int \<Rightarrow> bool" where "fits128 x \<longleftrightarrow> i128_min \<le> x \<and> x \<le> i128_max"
definition fits64 :: "int \<Rightarrow> bool" where "fits64 x \<longleftrightarrow> i64_min \<le> x \<and> x \<le> i64_max"
definition fits32 :: "int \<Rightarrow> bool" where "fits32 x \<longleftrightarrow> i32_min \<le> x \<and> x \<le> i32_max"

lemmas int_limits = i128_max_def i128_min_def i32_max_def i32_min_def i64_max_def i64_min_def
  fits128_def fits64_def fits32_def

definition wrap128 :: "int \<Rightarrow> int" where "wrap128 x = (x + 2 ^ 127) mod 2 ^ 128 - 2 ^ 127"
definition wrap64 :: "int \<Rightarrow> int" where "wrap64 x = (x + 2 ^ 63) mod 2 ^ 64 - 2 ^ 63"
definition wrap32 :: "int \<Rightarrow> int" where "wrap32 x = (x + 2 ^ 31) mod 2 ^ 32 - 2 ^ 31"

definition checked128 :: "int \<Rightarrow> int option" where
  "checked128 x = (if fits128 x then Some x else None)"
definition checked32 :: "int \<Rightarrow> int option" where
  "checked32 x = (if fits32 x then Some x else None)"

definition saturate32 :: "int \<Rightarrow> int" where
  "saturate32 x = max i32_min (min i32_max x)"

text \<open>\<open>10i128.checked_pow(n)\<close> and the wrapping \<open>10i128.pow(n)\<close>.\<close>

definition checked_pow10 :: "nat \<Rightarrow> int option" where
  "checked_pow10 n = checked128 (10 ^ n)"
definition wrapping_pow10 :: "nat \<Rightarrow> int" where
  "wrapping_pow10 n = wrap128 (10 ^ n)"

text \<open>Division and remainder of Rust truncate towards zero.\<close>

definition tdiv :: "int \<Rightarrow> int \<Rightarrow> int" where
  "tdiv a b = sgn a * sgn b * (\<bar>a\<bar> div \<bar>b\<bar>)"
definition trem :: "int \<Rightarrow> int \<Rightarrow> int" where
  "trem a b = sgn a * (\<bar>a\<bar> mod \<bar>b\<bar>)"

subsection \<open>Decimal digits\<close>

definition is_digit :: "char \<Rightarrow> bool" where
  "is_digit c \<longleftrightarrow> 48 \<le> (of_char c :: nat) \<and> (of_char c :: nat) \<le> 57"

definition digit_val :: "char \<Rightarrow> nat" where
  "digit_val c = of_char c - 48"

definition digits_val :: "string \<Rightarrow> nat" where
  "digits_val = foldl (\<lambda>a c. 10 * a + digit_val c) 0"

text \<open>An optional sign, as the scanner of \<open>parse\<close> and \<open>parse::<i32>()\<close> read it.\<close>

definition take_sign :: "string \<Rightarrow> int \<times> string" where
  "take_sign input =
     (case input of
        [] \<Rightarrow> (1, input)
      | c # cs \<Rightarrow> if c = CHR ''+'' then (1, cs) else if c = CHR ''-'' then (- 1, cs) else (1, input))"

text \<open>\<open>parse::<i32>()\<close> and \<open>parse::<i64>()\<close>: an optional sign, at least one digit, in range.\<close>

definition parse_int :: "(int \<Rightarrow> bool) \<Rightarrow> string \<Rightarrow> int option" where
  "parse_int fits s =
     (let (sign, ds) = take_sign s in
      if ds \<noteq> [] \<and> list_all is_digit ds \<and> fits (sign * int (digits_val ds))
      then Some (sign * int (digits_val ds)) else None)"

abbreviation parse_i32 :: "string \<Rightarrow> int option" where
  "parse_i32 \<equiv> parse_int fits32"

abbreviation parse_i64 :: "string \<Rightarrow> int option" where
  "parse_i64 \<equiv> parse_int fits64"

fun show_nat :: "nat \<Rightarrow> string" where
  "show_nat n = (if n < 10 then [char_of (48 + n)] else show_nat (n div 10) @ [char_of (48 + n mod 10)])"

declare show_nat.simps [simp del]

definition show_int :: "int \<Rightarrow> string" where
  "show_int i = (if i < 0 then CHR ''-'' # show_nat (nat (- i)) else show_nat (nat i))"

section \<open>Ranges\<close>

lemma checked128_Some [simp]: "checked128 x = Some y \<longleftrightarrow> fits128 x \<and> y = x"
  by (auto simp: checked128_def)

lemma checked128_None [simp]: "checked128 x = None \<longleftrightarrow> \<not> fits128 x"
  by (auto simp: checked128_def)

lemma checked32_Some [simp]: "checked32 x = Some y \<longleftrightarrow> fits32 x \<and> y = x"
  by (auto simp: checked32_def)

lemma checked32_None [simp]: "checked32 x = None \<longleftrightarrow> \<not> fits32 x"
  by (auto simp: checked32_def)

lemma wrap128_fits: "fits128 x \<Longrightarrow> wrap128 x = x"
  by (simp add: wrap128_def int_limits)

lemma wrap64_fits: "fits64 x \<Longrightarrow> wrap64 x = x"
  by (simp add: wrap64_def int_limits)

lemma wrap32_fits: "fits32 x \<Longrightarrow> wrap32 x = x"
  by (simp add: wrap32_def int_limits)

section \<open>Digits\<close>

definition sign_of :: "string \<Rightarrow> int option" where
  "sign_of sg = (if sg = '''' \<or> sg = ''+'' then Some 1 else if sg = ''-'' then Some (- 1) else None)"

lemma not_digit [simp]:
  "\<not> is_digit CHR ''.''" "\<not> is_digit CHR ''+''" "\<not> is_digit CHR ''-''" "\<not> is_digit CHR ''e''" "\<not> is_digit CHR ''E''"
  by (simp_all add: is_digit_def)

lemma is_digit_sign: "is_digit c \<Longrightarrow> c \<noteq> CHR ''+'' \<and> c \<noteq> CHR ''-'' \<and> c \<noteq> CHR ''.''"
  by auto

lemma take_sign_literal:
  assumes "sign_of sg = Some i" and "rest = [] \<or> hd rest \<noteq> CHR ''+'' \<and> hd rest \<noteq> CHR ''-''"
  shows "take_sign (sg @ rest) = (i, rest)"
  using assms by (cases rest) (auto simp: sign_of_def take_sign_def split: if_splits)

lemma take_sign_split: "take_sign s = (i, rest) \<Longrightarrow> \<exists>sg. s = sg @ rest \<and> sign_of sg = Some i"
  by (cases s) (auto simp: take_sign_def sign_of_def split: if_splits intro: exI [of _ "''+''"] exI [of _ "''-''"])

lemma parse_int_iff:
  "parse_int fits s = Some e \<longleftrightarrow>
     (\<exists>sg i ds. s = sg @ ds \<and> sign_of sg = Some i \<and> ds \<noteq> [] \<and> list_all is_digit ds
        \<and> e = i * int (digits_val ds) \<and> fits e)"
proof
  assume "parse_int fits s = Some e"
  then show "\<exists>sg i ds. s = sg @ ds \<and> sign_of sg = Some i \<and> ds \<noteq> [] \<and> list_all is_digit ds
        \<and> e = i * int (digits_val ds) \<and> fits e"
    using take_sign_split [of s] by (fastforce simp: parse_int_def split: prod.splits if_splits)
next
  assume "\<exists>sg i ds. s = sg @ ds \<and> sign_of sg = Some i \<and> ds \<noteq> [] \<and> list_all is_digit ds
        \<and> e = i * int (digits_val ds) \<and> fits e"
  then obtain sg i ds where s: "s = sg @ ds" "sign_of sg = Some i" "ds \<noteq> []" "list_all is_digit ds"
    "e = i * int (digits_val ds)" "fits e" by blast
  then have "take_sign s = (i, ds)"
    using take_sign_literal [of sg i ds] by (cases ds) (auto dest: is_digit_sign)
  then show "parse_int fits s = Some e" using s by (simp add: parse_int_def)
qed

lemma parse_int_letter: "\<not> is_digit c \<Longrightarrow> c \<noteq> CHR ''+'' \<Longrightarrow> c \<noteq> CHR ''-'' \<Longrightarrow> parse_int fits (c # cs) = None"
  by (simp add: parse_int_def take_sign_def)

lemma parse_int_Nil: "parse_int fits [] = None"
  by (simp add: parse_int_def take_sign_def)

lemma digits_of_length: "list_all is_digit ds \<Longrightarrow> digits_val ds < 10 ^ length ds"
proof (induction ds rule: rev_induct)
  case (snoc d ds)
  then have "digit_val d \<le> 9" by (auto simp: is_digit_def digit_val_def)
  then show ?case using snoc by (simp add: digits_val_def)
qed (simp add: digits_val_def)

section \<open>Printed integers\<close>

lemma digit_char: "n < 10 \<Longrightarrow> is_digit (char_of (48 + n)) \<and> digit_val (char_of (48 + n)) = n"
  by (simp add: is_digit_def digit_val_def)

lemma show_nat_digits: "show_nat n \<noteq> [] \<and> list_all is_digit (show_nat n) \<and> digits_val (show_nat n) = n"
proof (induction n rule: show_nat.induct)
  case (1 n)
  show ?case
  proof (cases "n < 10")
    case True
    then show ?thesis using digit_char [of n] by (simp add: show_nat.simps [of n] digits_val_def)
  next
    case False
    then show ?thesis
      using 1 digit_char [of "n mod 10"] by (simp add: show_nat.simps [of n] digits_val_def)
  qed
qed

lemma show_int_literal:
  "\<exists>sg j. show_int i = sg @ show_nat (nat \<bar>i\<bar>) \<and> sign_of sg = Some j \<and> j * \<bar>i\<bar> = i"
proof (cases "i < 0")
  case True
  then show ?thesis
    by (intro exI [of _ "''-''"] exI [of _ "- 1"]) (simp add: show_int_def sign_of_def)
next
  case False
  then show ?thesis by (intro exI [of _ "''''"] exI [of _ 1]) (simp add: show_int_def sign_of_def)
qed

lemma parse_int_shown: "fits i \<Longrightarrow> parse_int fits (show_int i) = Some i"
proof -
  assume fits: "fits i"
  obtain sg j where sg: "show_int i = sg @ show_nat (nat \<bar>i\<bar>)" "sign_of sg = Some j" "j * \<bar>i\<bar> = i"
    using show_int_literal by blast
  have "int (digits_val (show_nat (nat \<bar>i\<bar>))) = \<bar>i\<bar>" using show_nat_digits by simp
  then show ?thesis
    unfolding parse_int_iff using sg fits show_nat_digits [of "nat \<bar>i\<bar>"] by metis
qed

end
