(* ===== verification/StorageTypes.thy ===== *)
theory StorageTypes
  imports Decimal "HOL-Library.List_Lexorder" "HOL-Library.Char_ord"
begin

text \<open>
  What the storage layer shares: JSON values as \<open>serde_json\<close> has them, its errors and watch events, the
  resource version helpers (\<^verbatim>\<open>crates/storage/src/concurrency.rs\<close>) and the preconditions of a delete
  (\<^verbatim>\<open>crates/storage/src/preconditions.rs\<close>).

  An object is the association list of its \<open>BTreeMap\<close>, sorted by key; \<open>obj_insert\<close> and \<open>obj_remove\<close> are
  the map operations, with the lookup laws shown. A number is an integer or the text of another
  number. Errors carry the key or token a caller reads from them and not their messages, except for
  the errors whose message the code inspects.
\<close>

section \<open>JSON values\<close>

datatype json =
    JNull
  | JBool bool
  | JInt int
  | JNumber string
  | JString string
  | JArray "json list"
  | JObject "(string \<times> json) list"

fun obj_insert :: "string \<Rightarrow> 'v \<Rightarrow> (string \<times> 'v) list \<Rightarrow> (string \<times> 'v) list" where
  "obj_insert k v [] = [(k, v)]"
| "obj_insert k v ((k', v') # m) =
     (if k = k' then (k, v) # m
      else if k < k' then (k, v) # (k', v') # m
      else (k', v') # obj_insert k v m)"

definition obj_remove :: "string \<Rightarrow> (string \<times> 'v) list \<Rightarrow> (string \<times> 'v) list" where
  "obj_remove k m = filter (\<lambda>(k', _). k' \<noteq> k) m"

lemma map_of_obj_insert [simp]: "map_of (obj_insert k v m) = (map_of m)(k \<mapsto> v)"
  by (induction k v m rule: obj_insert.induct) auto

lemma map_of_obj_remove [simp]: "map_of (obj_remove k m) = (map_of m)(k := None)"
  by (induction m) (auto simp: obj_remove_def)

text \<open>\<open>Value::get\<close>, \<open>as_str\<close> and the in-place write of a field of \<open>metadata\<close>.\<close>

definition jget :: "json \<Rightarrow> string \<Rightarrow> json option" where
  "jget v k = (case v of JObject m \<Rightarrow> map_of m k | _ \<Rightarrow> None)"

definition as_str :: "json \<Rightarrow> string option" where
  "as_str v = (case v of JString s \<Rightarrow> Some s | _ \<Rightarrow> None)"

definition metadata_obj :: "json \<Rightarrow> (string \<times> json) list option" where
  "metadata_obj v = (case jget v ''metadata'' of Some (JObject mm) \<Rightarrow> Some mm | _ \<Rightarrow> None)"

definition with_metadata :: "json \<Rightarrow> (string \<times> json) list \<Rightarrow> json" where
  "with_metadata v mm = (case v of JObject m \<Rightarrow> JObject (obj_insert ''metadata'' (JObject mm) m) | _ \<Rightarrow> v)"

definition set_metadata :: "string \<Rightarrow> json \<Rightarrow> json \<Rightarrow> json" where
  "set_metadata k x v =
     (case metadata_obj v of None \<Rightarrow> v | Some mm \<Rightarrow> with_metadata v (obj_insert k x mm))"

text \<open>\<open>strip_prefix\<close> of a \<open>str\<close>.\<close>

definition strip_prefix :: "string \<Rightarrow> string \<Rightarrow> string option" where
  "strip_prefix pre s = (if take (length pre) s = pre then Some (drop (length pre) s) else None)"

section \<open>Errors and events\<close>

datatype storage_error =
    NotFound string
  | AlreadyExists string
  | Conflict
  | Gone string
  | GoneWithContinue string string
  | StorageFailure string
  | Serialization
  | InvalidResource
  | UnsupportedMediaType
  | Internal

datatype 'x watch_event =
    EvAdded (ev_key: string) (ev_value: 'x)
  | EvModified (ev_key: string) (ev_value: 'x)
  | EvDeleted (ev_key: string) (ev_value: 'x)

section \<open>Resource versions\<close>

definition extract_resource_version :: "json \<Rightarrow> string option" where
  "extract_resource_version metadata =
     (case jget metadata ''resourceVersion'' of
        None \<Rightarrow> None
      | Some v \<Rightarrow> (case as_str v of None \<Rightarrow> None | Some s \<Rightarrow> if s = '''' then None else Some s))"

definition validate_resource_version ::
  "string option \<Rightarrow> string option \<Rightarrow> (storage_error, unit) result" where
  "validate_resource_version expected actual =
     (case expected of
        Some e \<Rightarrow> (case actual of Some a \<Rightarrow> if e \<noteq> a then Inl Conflict else Inr () | None \<Rightarrow> Inl Conflict)
      | None \<Rightarrow> Inr ())"

definition mod_revision_to_resource_version :: "int \<Rightarrow> string" where
  "mod_revision_to_resource_version r = show_int r"

definition resource_version_to_mod_revision :: "string \<Rightarrow> (storage_error, int) result" where
  "resource_version_to_mod_revision rv =
     (case parse_i64 rv of None \<Rightarrow> Inl InvalidResource | Some r \<Rightarrow> Inr r)"

text \<open>\<open>v.get("metadata").unwrap_or(&Null)\<close> and its resource version.\<close>

definition resource_version_of :: "json \<Rightarrow> string option" where
  "resource_version_of v =
     extract_resource_version (case jget v ''metadata'' of None \<Rightarrow> JNull | Some m \<Rightarrow> m)"

section \<open>Preconditions\<close>

record preconditions =
  pre_uid :: "string option"
  pre_resource_version :: "string option"

definition new_uid :: "string \<Rightarrow> preconditions" where
  "new_uid u = \<lparr>pre_uid = Some u, pre_resource_version = None\<rparr>"

definition new_resource_version :: "string \<Rightarrow> preconditions" where
  "new_resource_version rv = \<lparr>pre_uid = None, pre_resource_version = Some rv\<rparr>"

definition metadata_str :: "json \<Rightarrow> string \<Rightarrow> string" where
  "metadata_str obj f =
     (case jget obj ''metadata'' of
        None \<Rightarrow> ''''
      | Some m \<Rightarrow>
          (case jget m f of None \<Rightarrow> '''' | Some v \<Rightarrow> (case as_str v of None \<Rightarrow> '''' | Some s \<Rightarrow> s)))"

definition precondition_check :: "preconditions \<Rightarrow> json \<Rightarrow> (storage_error, unit) result" where
  "precondition_check p obj =
     (case pre_uid p of
        Some uid \<Rightarrow>
          if uid \<noteq> metadata_str obj ''uid'' then Inl Conflict
          else
            (case pre_resource_version p of
               Some rv \<Rightarrow> if rv \<noteq> metadata_str obj ''resourceVersion'' then Inl Conflict else Inr ()
             | None \<Rightarrow> Inr ())
      | None \<Rightarrow>
          (case pre_resource_version p of
             Some rv \<Rightarrow> if rv \<noteq> metadata_str obj ''resourceVersion'' then Inl Conflict else Inr ()
           | None \<Rightarrow> Inr ()))"

definition to_delete_options :: "preconditions \<Rightarrow> json" where
  "to_delete_options p =
     (let p0 = [];
          p1 = (case pre_uid p of None \<Rightarrow> p0 | Some u \<Rightarrow> obj_insert ''uid'' (JString u) p0);
          p2 = (case pre_resource_version p of
                  None \<Rightarrow> p1 | Some rv \<Rightarrow> obj_insert ''resourceVersion'' (JString rv) p1)
      in JObject [(''apiVersion'', JString ''v1''), (''kind'', JString ''DeleteOptions''),
                  (''preconditions'', JObject p2)])"

section \<open>Lemmas\<close>

lemma jget_with_metadata:
  "metadata_obj v \<noteq> None \<Longrightarrow> jget (with_metadata v mm) ''metadata'' = Some (JObject mm)"
  by (auto simp: metadata_obj_def jget_def with_metadata_def split: json.splits)

lemma metadata_obj_with [simp]:
  "metadata_obj v \<noteq> None \<Longrightarrow> metadata_obj (with_metadata v mm) = Some mm"
  by (simp add: metadata_obj_def [of "with_metadata v mm"] jget_with_metadata)

lemma metadata_obj_set:
  "metadata_obj (set_metadata k x v) = map_option (obj_insert k x) (metadata_obj v)"
  by (auto simp: set_metadata_def split: option.splits)

lemma show_int_nonempty: "show_int i \<noteq> []"
  by (simp add: show_int_def show_nat_digits)

lemma show_int_inj: "show_int i = show_int j \<Longrightarrow> i = j"
proof -
  assume eq: "show_int i = show_int j"
  have "parse_int (\<lambda>_. True) (show_int i) = Some i" "parse_int (\<lambda>_. True) (show_int j) = Some j"
    by (rule parse_int_shown; simp)+
  then show "i = j" unfolding eq by simp
qed

text \<open>A stamped object carries the version it was stamped with.\<close>

lemma resource_version_of_stamped:
  assumes "metadata_obj v \<noteq> None"
  shows "resource_version_of (set_metadata ''resourceVersion'' (JString (show_int r)) v) = Some (show_int r)"
proof -
  obtain mm where mm: "metadata_obj v = Some mm" using assms by blast
  then have "jget (set_metadata ''resourceVersion'' (JString (show_int r)) v) ''metadata''
      = Some (JObject (obj_insert ''resourceVersion'' (JString (show_int r)) mm))"
    by (simp add: set_metadata_def jget_with_metadata)
  then show ?thesis
    by (simp add: resource_version_of_def extract_resource_version_def jget_def as_str_def show_int_nonempty)
qed

lemma version_round_trip: "fits64 r \<Longrightarrow> resource_version_to_mod_revision (mod_revision_to_resource_version r) = Inr r"
  by (simp add: resource_version_to_mod_revision_def mod_revision_to_resource_version_def parse_int_shown)

end
