(* ===== verification/WorkQueue.thy ===== *)
theory WorkQueue
  imports SchedulingOrder StorageTypes
begin

text \<open>
  The rate-limited work queue behind every controller (\<^verbatim>\<open>crates/storage/src/workqueue.rs\<close>). Each
  critical section of the source (the code between taking and dropping the mutex) is one function on
  the guarded state; concurrent callers interleave those functions, which is the step relation
  \<open>wq_step\<close>. Clock readings are arguments, and so is the order in which \<open>get\<close> visits the hash map of
  delayed keys. \<open>Notify\<close> (who is woken up) and the sleeping of \<open>get\<close> are not modelled: a parked
  \<open>get\<close> is an outcome.

  Shown here: along every interleaving the queue stays duplicate free and disjoint from the keys
  being processed, so no key is ever handed to two workers at once; a key that was added is never
  lost, it stays pending until a worker gets it; keys are served in FIFO order; the retry delay
  doubles from the base to the cap.
\<close>

section \<open>Definitions\<close>

type_synonym key = string

record wq_config =
  wc_base_delay :: duration
  wc_max_delay :: duration

record wq_inner =
  wq_queue :: "key list"
  wq_dirty :: "key set"
  wq_processing :: "key set"
  wq_failures :: "key \<rightharpoonup> nat"
  wq_delayed :: "key \<rightharpoonup> nat"
  wq_last_dequeued :: "key \<rightharpoonup> nat"
  wq_shutdown :: bool

text \<open>The key of the resource an event is about.\<close>

definition extract_key :: "'v watch_event \<Rightarrow> key" where
  "extract_key ev =
     (case strip_prefix ''/registry/'' (ev_key ev) of None \<Rightarrow> ev_key ev | Some k \<Rightarrow> k)"

definition wq_config_default :: wq_config where
  "wq_config_default = \<lparr>wc_base_delay = 5 * 1000000, wc_max_delay = 1000 * 1000000000\<rparr>"

definition min_reprocess_interval :: duration where
  "min_reprocess_interval = 200 * 1000000"

definition wq_new :: wq_inner where
  "wq_new = \<lparr>wq_queue = [], wq_dirty = {}, wq_processing = {}, wq_failures = Map.empty,
             wq_delayed = Map.empty, wq_last_dequeued = Map.empty, wq_shutdown = False\<rparr>"

definition wq_add :: "wq_inner \<Rightarrow> key \<Rightarrow> wq_inner" where
  "wq_add s k =
     (if wq_shutdown s then s
      else if k \<in> wq_dirty s then s
      else
        (let s1 = s\<lparr>wq_dirty := insert k (wq_dirty s)\<rparr> in
         if k \<in> wq_processing s1 then s1
         else s1\<lparr>wq_delayed := (wq_delayed s1)(k := None), wq_queue := wq_queue s1 @ [k]\<rparr>))"

definition wq_add_after :: "wq_inner \<Rightarrow> key \<Rightarrow> duration \<Rightarrow> nat \<Rightarrow> wq_inner" where
  "wq_add_after s k delay now =
     (if wq_shutdown s then s
      else if k \<in> wq_dirty s then s
      else
        (let deadline = now + delay;
             entry = (case wq_delayed s k of None \<Rightarrow> deadline | Some e \<Rightarrow> e)
         in s\<lparr>wq_delayed := (wq_delayed s)(k \<mapsto> (if deadline < entry then deadline else entry))\<rparr>))"

text \<open>Promotion of the delayed keys that are due, in the order \<open>ready\<close>.\<close>

definition wq_ready :: "wq_inner \<Rightarrow> nat \<Rightarrow> key set" where
  "wq_ready s now = {k. case wq_delayed s k of None \<Rightarrow> False | Some deadline \<Rightarrow> now \<ge> deadline}"

definition wq_promote_one :: "key \<Rightarrow> wq_inner \<Rightarrow> wq_inner" where
  "wq_promote_one k s =
     (let s1 = s\<lparr>wq_delayed := (wq_delayed s)(k := None)\<rparr> in
      if k \<in> wq_dirty s1 then s1
      else
        (let s2 = s1\<lparr>wq_dirty := insert k (wq_dirty s1)\<rparr> in
         if k \<in> wq_processing s2 then s2 else s2\<lparr>wq_queue := wq_queue s2 @ [k]\<rparr>))"

datatype get_outcome = GotShutdown | GotKey key | GotNothing

text \<open>The first critical section of an iteration of \<open>get\<close>; \<open>now\<close> and \<open>now'\<close> are its two clock readings.\<close>

definition wq_get :: "wq_inner \<Rightarrow> nat \<Rightarrow> key list \<Rightarrow> nat \<Rightarrow> get_outcome \<times> wq_inner" where
  "wq_get s now ready now' =
     (if wq_shutdown s \<and> wq_queue s = [] then (GotShutdown, s)
      else
        (let s1 = fold wq_promote_one ready s in
         case wq_queue s1 of
           [] \<Rightarrow> (GotNothing, s1)
         | k # rest \<Rightarrow>
             (GotKey k,
              s1\<lparr>wq_queue := rest,
                 wq_dirty := wq_dirty s1 - {k},
                 wq_processing := insert k (wq_processing s1),
                 wq_last_dequeued := (wq_last_dequeued s1)(k \<mapsto> now')\<rparr>)))"

text \<open>The second critical section: \<open>None\<close> ends \<open>get\<close>, \<open>Some d\<close> parks the worker until the earliest
  deadline \<open>d\<close> (if any).\<close>

definition wq_park :: "wq_inner \<Rightarrow> nat option option" where
  "wq_park s =
     (if wq_shutdown s then None
      else Some (if wq_delayed s = Map.empty then None else Some (Min (ran (wq_delayed s)))))"

definition wq_done :: "wq_inner \<Rightarrow> key \<Rightarrow> nat \<Rightarrow> wq_inner" where
  "wq_done s k now =
     (let s1 = s\<lparr>wq_processing := wq_processing s - {k}\<rparr> in
      if k \<in> wq_dirty s1 then
        (case wq_last_dequeued s1 k of
           Some dequeued_at \<Rightarrow>
             (let elapsed = now - dequeued_at in
              if elapsed < min_reprocess_interval
              then s1\<lparr>wq_dirty := wq_dirty s1 - {k},
                      wq_delayed := (wq_delayed s1)(k \<mapsto> now + (min_reprocess_interval - elapsed))\<rparr>
              else s1\<lparr>wq_queue := wq_queue s1 @ [k]\<rparr>)
         | None \<Rightarrow> s1\<lparr>wq_queue := wq_queue s1 @ [k]\<rparr>)
      else s1)"

definition u64_max :: nat where
  "u64_max = 2 ^ 64 - 1"

definition as_millis_u64 :: "duration \<Rightarrow> nat" where
  "as_millis_u64 d = (d div 1000000) mod 2 ^ 64"

definition u64_saturating_mul :: "nat \<Rightarrow> nat \<Rightarrow> nat" where
  "u64_saturating_mul a b = min (a * b) u64_max"

definition u64_one_checked_shl :: "nat \<Rightarrow> nat option" where
  "u64_one_checked_shl s = (if s < 64 then Some (2 ^ s) else None)"

definition backoff_duration :: "nat \<Rightarrow> duration \<Rightarrow> duration \<Rightarrow> duration" where
  "backoff_duration failures base mx =
     (if failures = 0 then 0
      else
        (let multiplier = (case u64_one_checked_shl (failures - 1) of Some m \<Rightarrow> m | None \<Rightarrow> u64_max);
             delay_ms = u64_saturating_mul (as_millis_u64 base) multiplier;
             delay = min delay_ms (as_millis_u64 mx) * 1000000
         in min delay mx))"

text \<open>The failure counter is a \<open>u32\<close> whose increment wraps in a release build.\<close>

definition wq_bump_failures :: "wq_inner \<Rightarrow> key \<Rightarrow> nat \<times> wq_inner" where
  "wq_bump_failures s k =
     (let failures = ((case wq_failures s k of None \<Rightarrow> 0 | Some n \<Rightarrow> n) + 1) mod 2 ^ 32
      in (failures, s\<lparr>wq_failures := (wq_failures s)(k \<mapsto> failures)\<rparr>))"

text \<open>\<open>requeue_rate_limited\<close>: two critical sections, the counter and \<open>add_after\<close>.\<close>

definition wq_requeue_rate_limited :: "wq_config \<Rightarrow> wq_inner \<Rightarrow> key \<Rightarrow> nat \<Rightarrow> wq_inner" where
  "wq_requeue_rate_limited cfg s k now =
     (let (failures, s1) = wq_bump_failures s k
      in wq_add_after s1 k (backoff_duration failures (wc_base_delay cfg) (wc_max_delay cfg)) now)"

definition wq_num_requeues :: "wq_inner \<Rightarrow> key \<Rightarrow> nat" where
  "wq_num_requeues s k = (case wq_failures s k of None \<Rightarrow> 0 | Some n \<Rightarrow> n)"

definition wq_forget :: "wq_inner \<Rightarrow> key \<Rightarrow> wq_inner" where
  "wq_forget s k = s\<lparr>wq_failures := (wq_failures s)(k := None)\<rparr>"

definition wq_shut_down :: "wq_inner \<Rightarrow> wq_inner" where
  "wq_shut_down s = s\<lparr>wq_shutdown := True\<rparr>"

definition wq_len :: "wq_inner \<Rightarrow> nat" where
  "wq_len s = length (wq_queue s)"

definition wq_is_empty :: "wq_inner \<Rightarrow> bool" where
  "wq_is_empty s = (wq_len s = 0)"

section \<open>Interleavings\<close>

text \<open>One rule per critical section. A worker calls \<open>done\<close> only for a key it got; \<open>get\<close> visits every
  due key once.\<close>

datatype wq_label =
    LAdd key
  | LAddAfter key duration
  | LGet get_outcome
  | LDone key
  | LBump key
  | LForget key
  | LShutdown

inductive wq_step :: "wq_inner \<Rightarrow> wq_label \<Rightarrow> wq_inner \<Rightarrow> bool" where
  step_add: "wq_step s (LAdd k) (wq_add s k)"
| step_add_after: "wq_step s (LAddAfter k delay) (wq_add_after s k delay now)"
| step_get: "distinct ready \<Longrightarrow> set ready = wq_ready s now \<Longrightarrow> wq_get s now ready now' = (out, s') \<Longrightarrow>
     wq_step s (LGet out) s'"
| step_done: "k \<in> wq_processing s \<Longrightarrow> wq_step s (LDone k) (wq_done s k now)"
| step_bump: "wq_bump_failures s k = (n, s') \<Longrightarrow> wq_step s (LBump k) s'"
| step_forget: "wq_step s (LForget k) (wq_forget s k)"
| step_shutdown: "wq_step s LShutdown (wq_shut_down s)"

inductive_cases wq_get_step: "wq_step s (LGet out) s'"

definition wq_inv :: "wq_inner \<Rightarrow> bool" where
  "wq_inv s \<longleftrightarrow>
     distinct (wq_queue s) \<and>
     set (wq_queue s) \<subseteq> wq_dirty s \<and>
     set (wq_queue s) \<inter> wq_processing s = {} \<and>
     wq_dirty s - set (wq_queue s) \<subseteq> wq_processing s"

text \<open>A key is pending when a worker still has to be given it.\<close>

definition wq_pending :: "wq_inner \<Rightarrow> key \<Rightarrow> bool" where
  "wq_pending s k \<longleftrightarrow> k \<in> wq_dirty s \<or> wq_delayed s k \<noteq> None"

lemma wq_inv_new: "wq_inv wq_new"
  by (simp add: wq_inv_def wq_new_def)

lemma wq_inv_add: "wq_inv s \<Longrightarrow> wq_inv (wq_add s k)"
  by (auto simp: wq_inv_def wq_add_def Let_def)

lemma wq_inv_add_after: "wq_inv s \<Longrightarrow> wq_inv (wq_add_after s k d now)"
  by (auto simp: wq_inv_def wq_add_after_def Let_def)

lemma wq_inv_done: "wq_inv s \<Longrightarrow> k \<in> wq_processing s \<Longrightarrow> wq_inv (wq_done s k now)"
  by (auto simp: wq_inv_def wq_done_def Let_def split: option.splits)

lemma wq_inv_promote: "wq_inv s \<Longrightarrow> wq_inv (wq_promote_one k s)"
  by (auto simp: wq_inv_def wq_promote_one_def Let_def)

lemma wq_inv_promotes: "wq_inv s \<Longrightarrow> wq_inv (fold wq_promote_one ks s)"
  by (induction ks arbitrary: s) (auto intro: wq_inv_promote)

lemma wq_inv_get: "wq_inv s \<Longrightarrow> wq_get s now ready now' = (out, s') \<Longrightarrow> wq_inv s'"
  using wq_inv_promotes [of s ready]
  by (auto simp: wq_get_def wq_inv_def Let_def split: if_splits list.splits)

lemma wq_inv_frame [simp]:
  "wq_inv (s\<lparr>wq_failures := fs\<rparr>) = wq_inv s"
  "wq_inv (s\<lparr>wq_shutdown := b\<rparr>) = wq_inv s"
  by (simp_all add: wq_inv_def)

lemma wq_inv_step: "wq_step s l s' \<Longrightarrow> wq_inv s \<Longrightarrow> wq_inv s'"
  by (induction rule: wq_step.induct)
     (auto intro: wq_inv_add wq_inv_add_after wq_inv_get wq_inv_done
       simp: wq_bump_failures_def wq_forget_def wq_shut_down_def Let_def)

interpretation wq: inv_system wq_step wq_inv
  by unfold_locales (rule wq_inv_step)

subsection \<open>Nothing pending is lost\<close>

lemma pending_promote: "wq_pending s k \<Longrightarrow> wq_pending (wq_promote_one j s) k"
  by (auto simp: wq_pending_def wq_promote_one_def Let_def)

lemma pending_promotes: "wq_pending s k \<Longrightarrow> wq_pending (fold wq_promote_one js s) k"
  by (induction js arbitrary: s) (auto intro: pending_promote)

lemma pending_get:
  "wq_get s now ready now' = (out, s') \<Longrightarrow> wq_pending s k \<Longrightarrow> out = GotKey k \<or> wq_pending s' k"
  using pending_promotes [of s k ready]
  by (auto simp: wq_get_def wq_pending_def Let_def split: if_splits list.splits)

lemma pending_step:
  assumes "wq_step s l s'" and "wq_pending s k"
  shows "l = LGet (GotKey k) \<or> wq_pending s' k"
  using assms
proof (induction rule: wq_step.induct)
  case (step_get ready s now now' out s')
  then show ?case using pending_get by blast
next
  case (step_done j s now)
  then show ?case by (auto simp: wq_pending_def wq_done_def Let_def split: option.splits)
qed (auto simp: wq_pending_def wq_add_def wq_add_after_def wq_bump_failures_def wq_forget_def
    wq_shut_down_def Let_def)

interpretation wq_owes: owing_system wq_step wq_inv "\<lambda>s. wq_pending s k" "\<lambda>l. l = LGet (GotKey k)" for k
  by unfold_locales (auto dest: pending_step)

lemma step_shutdown_keeps: "wq_step s l s' \<Longrightarrow> l \<noteq> LShutdown \<Longrightarrow> \<not> wq_shutdown s \<Longrightarrow> \<not> wq_shutdown s'"
proof (induction rule: wq_step.induct)
  case (step_get ready s now now' out s')
  have "wq_shutdown (fold wq_promote_one ks s) = wq_shutdown s" for ks s
    by (induction ks arbitrary: s) (auto simp: wq_promote_one_def Let_def)
  with step_get show ?case by (auto simp: wq_get_def Let_def split: if_splits list.splits)
qed (auto simp: wq_add_def wq_add_after_def wq_done_def wq_bump_failures_def wq_forget_def Let_def
    split: option.splits)

lemma runs_shutdown_keeps:
  "runs wq_step s ls s' \<Longrightarrow> LShutdown \<notin> set ls \<Longrightarrow> \<not> wq_shutdown s \<Longrightarrow> \<not> wq_shutdown s'"
  by (induction rule: runs.induct) (auto dest: step_shutdown_keeps)

lemma added_is_pending:
  "wq_step s l s' \<Longrightarrow> \<not> wq_shutdown s \<Longrightarrow> l = LAdd k \<or> l = LAddAfter k d \<Longrightarrow> wq_pending s' k"
  by (erule wq_step.cases) (auto simp: wq_pending_def wq_add_def wq_add_after_def Let_def)

subsection \<open>Exclusive processing\<close>

lemma promotes_processing [simp]: "wq_processing (fold wq_promote_one ks s) = wq_processing s"
  by (induction ks arbitrary: s) (auto simp: wq_promote_one_def Let_def)

lemma get_key_processing:
  assumes "wq_get s now ready now' = (GotKey k, s')"
  shows "k \<in> wq_processing s'" and "wq_inv s \<Longrightarrow> k \<notin> wq_processing s"
  using assms wq_inv_promotes [of s ready]
  by (auto simp: wq_get_def wq_inv_def Let_def split: if_splits list.splits)

lemma processing_step:
  "wq_step s l s' \<Longrightarrow> k \<in> wq_processing s \<Longrightarrow> l = LDone k \<or> k \<in> wq_processing s'"
proof (induction rule: wq_step.induct)
  case (step_get ready s now now' out s')
  then show ?case by (auto simp: wq_get_def Let_def split: if_splits list.splits)
next
  case (step_done j s now)
  then show ?case by (auto simp: wq_done_def Let_def split: option.splits)
qed (auto simp: wq_add_def wq_add_after_def wq_bump_failures_def wq_forget_def wq_shut_down_def Let_def)

interpretation wq_held: owing_system wq_step wq_inv "\<lambda>s. k \<in> wq_processing s" "\<lambda>l. l = LDone k" for k
  by unfold_locales (auto dest: processing_step)

subsection \<open>First in, first out\<close>

fun got_of :: "wq_label \<Rightarrow> key list" where
  "got_of (LGet (GotKey k)) = [k]"
| "got_of _ = []"

definition got_keys :: "wq_label list \<Rightarrow> key list" where
  "got_keys ls = concat (map got_of ls)"

definition is_get :: "wq_label \<Rightarrow> bool" where
  "is_get l = (case l of LGet _ \<Rightarrow> True | _ \<Rightarrow> False)"

lemma promotes_append: "\<exists>ys. wq_queue (fold wq_promote_one ks s) = wq_queue s @ ys"
proof (induction ks arbitrary: s)
  case (Cons k ks)
  have "\<exists>ys. wq_queue (wq_promote_one k s) = wq_queue s @ ys"
    by (simp add: wq_promote_one_def Let_def)
  then show ?case using Cons [of "wq_promote_one k s"] by auto
qed simp

lemma fifo_step:
  assumes "wq_step s l s'"
  shows "\<exists>ys. wq_queue s @ ys = got_of l @ wq_queue s'"
  using assms
proof (induction rule: wq_step.induct)
  case (step_get ready s now now' out s')
  then show ?case
    using promotes_append [of ready s]
    by (auto simp: wq_get_def Let_def split: if_splits list.splits)
qed (auto simp: wq_add_def wq_add_after_def wq_done_def wq_bump_failures_def wq_forget_def
    wq_shut_down_def Let_def split: option.splits)

lemma fifo_runs: "runs wq_step s ls s' \<Longrightarrow> \<exists>ys. wq_queue s @ ys = got_keys ls @ wq_queue s'"
proof (induction rule: runs.induct)
  case (runs_snoc s ls s' l s'')
  then obtain ys zs where "wq_queue s @ ys = got_keys ls @ wq_queue s'"
    and "wq_queue s' @ zs = got_of l @ wq_queue s''"
    using fifo_step by blast
  then have "wq_queue s @ (ys @ zs) = got_keys (ls @ [l]) @ wq_queue s''"
    by (simp add: got_keys_def) (metis append.assoc)
  then show ?case by blast
qed (simp add: got_keys_def)

lemma get_step_nonempty: "wq_step s l s' \<Longrightarrow> is_get l \<Longrightarrow> wq_queue s \<noteq> [] \<Longrightarrow> length (got_of l) = 1"
proof (induction rule: wq_step.induct)
  case (step_get ready s now now' out s')
  then show ?case
    using promotes_append [of ready s]
    by (auto simp: wq_get_def Let_def split: if_splits list.splits)
qed (auto simp: is_get_def)

lemma got_of_not_get: "\<not> is_get l \<Longrightarrow> got_of l = []"
  by (cases l) (auto simp: is_get_def)

lemma gets_while_waiting:
  "runs wq_step s ls s' \<Longrightarrow> k \<in> set (wq_queue s) \<Longrightarrow> k \<notin> set (got_keys ls) \<Longrightarrow>
   length (got_keys ls) = length (filter is_get ls) \<and> k \<in> set (wq_queue s')"
proof (induction rule: runs.induct)
  case (runs_snoc s ls s' l s'')
  then have IH: "length (got_keys ls) = length (filter is_get ls)" "k \<in> set (wq_queue s')"
    by (auto simp: got_keys_def)
  then have "length (got_of l) = (if is_get l then 1 else 0)"
    using get_step_nonempty [OF runs_snoc.hyps(2)] got_of_not_get [of l] by fastforce
  moreover have "k \<in> set (wq_queue s'')"
    using fifo_step [OF runs_snoc.hyps(2)] IH(2) runs_snoc.prems
    by (auto simp: got_keys_def) (metis Un_iff set_append)
  ultimately show ?case using IH by (auto simp: got_keys_def)
qed (simp add: got_keys_def)

lemma in_got_keys: "k \<in> set (got_keys ls) \<longleftrightarrow> LGet (GotKey k) \<in> set ls"
proof -
  have "k \<in> set (got_of l) \<longleftrightarrow> l = LGet (GotKey k)" for l
    by (cases l rule: got_of.cases) auto
  then show ?thesis by (auto simp: got_keys_def)
qed

subsection \<open>Retry delays\<close>

lemma doubling_min:
  fixes b :: nat
  assumes "m < 2 ^ 64"
  shows "min (min (b * (case u64_one_checked_shl n of Some x \<Rightarrow> x | None \<Rightarrow> u64_max)) u64_max) m
       = min (b * 2 ^ n) m"
proof (cases "n < 64")
  case True
  then show ?thesis using assms by (auto simp: u64_one_checked_shl_def u64_max_def)
next
  case False
  then have le: "(2::nat) ^ 64 \<le> 2 ^ n" by (intro power_increasing) auto
  show ?thesis
  proof (cases "b = 0")
    case False
    then have b1: "1 \<le> b" by simp
    have "m \<le> b * u64_max" using mult_le_mono1 [OF b1, of u64_max] assms by (simp add: u64_max_def)
    moreover have "m \<le> b * 2 ^ n"
      using mult_le_mono [OF b1 le] assms by linarith
    moreover have "m \<le> u64_max" using assms by (simp add: u64_max_def)
    ultimately show ?thesis using \<open>\<not> n < 64\<close> by (simp add: u64_one_checked_shl_def min_def)
  qed simp
qed

lemma backoff_duration_closed:
  assumes "base div 1000000 < 2 ^ 64" and "mx div 1000000 < 2 ^ 64"
  shows "backoff_duration (Suc n) base mx = min (base div 1000000 * 2 ^ n) (mx div 1000000) * 1000000"
proof -
  let ?d = "min (base div 1000000 * 2 ^ n) (mx div 1000000) * 1000000"
  have "?d \<le> mx div 1000000 * 1000000" by (intro mult_le_mono1) simp
  also have "\<dots> \<le> mx" by simp
  finally have "min ?d mx = ?d" by (rule min_absorb1)
  moreover have "backoff_duration (Suc n) base mx = min ?d mx"
    using assms doubling_min [of "mx div 1000000" "base div 1000000" n]
    by (simp add: backoff_duration_def Let_def as_millis_u64_def u64_saturating_mul_def)
  ultimately show ?thesis by simp
qed

section \<open>Properties\<close>

text \<open>C18. No key is ever handed to two workers at once: in every interleaving that starts from a new
  queue, between two \<open>get\<close> calls that return the same key the key was reported \<open>done\<close>.\<close>

theorem wq_exclusive_processing:
  assumes "runs wq_step wq_new (ls1 @ [LGet (GotKey k)] @ ls2 @ [LGet (GotKey k)]) s"
  shows "LDone k \<in> set ls2"
proof -
  obtain t u v where t: "runs wq_step wq_new ls1 t" "wq_step t (LGet (GotKey k)) u"
    and v: "runs wq_step u ls2 v" "wq_step v (LGet (GotKey k)) s"
    using assms by (auto simp: runs_append_iff)
  have inv: "wq_inv u" "wq_inv v"
    using wq.runs_inv [OF t(1) wq_inv_new] wq_inv_step [OF t(2)] wq.runs_inv [OF v(1)] by auto
  have "k \<in> wq_processing u" "k \<notin> wq_processing v"
    using t(2) v(2) inv(2) get_key_processing by (blast elim: wq_get_step)+
  then show ?thesis using wq_held.runs_owes [OF v(1) inv(1), of k] by auto
qed


text \<open>Keys are served in arrival order and with a bounded wait: from any state, the keys handed out
  followed by the queue at the end are the queue at the start followed by later arrivals, and a key
  that is queued is handed out within as many \<open>get\<close> calls as the queue is long, whatever other calls
  interleave.\<close>

lemma wq_fifo_bounded_wait:
  assumes "runs wq_step s ls s'"
  shows "(\<exists>ys. wq_queue s @ ys = got_keys ls @ wq_queue s') \<and>
    (k \<in> set (wq_queue s) \<longrightarrow> length (filter is_get ls) \<ge> length (wq_queue s) \<longrightarrow> LGet (GotKey k) \<in> set ls)"
proof (intro conjI impI)
  obtain ys where ys: "wq_queue s @ ys = got_keys ls @ wq_queue s'"
    using fifo_runs [OF assms] by blast
  then show "\<exists>ys. wq_queue s @ ys = got_keys ls @ wq_queue s'" by blast
  assume k: "k \<in> set (wq_queue s)" and len: "length (filter is_get ls) \<ge> length (wq_queue s)"
  show "LGet (GotKey k) \<in> set ls"
  proof (rule ccontr)
    assume "LGet (GotKey k) \<notin> set ls"
    then have notin: "k \<notin> set (got_keys ls)" by (simp add: in_got_keys)
    then have "length (wq_queue s) \<le> length (got_keys ls)"
      using gets_while_waiting [OF assms k] len by simp
    then have "wq_queue s = take (length (wq_queue s)) (got_keys ls)"
      using arg_cong [OF ys, of "take (length (wq_queue s))"] by simp
    then show False using k notin by (metis in_set_takeD)
  qed
qed

definition retry_delay :: "wq_config \<Rightarrow> nat \<Rightarrow> duration" where
  "retry_delay cfg n =
     min (wc_base_delay cfg div 1000000 * 2 ^ n) (wc_max_delay cfg div 1000000) * 1000000"

text \<open>The retry delay of the \<open>n + 1\<close>-st consecutive failure of a key is the base delay doubled
  \<open>n\<close> times and capped at the maximum (in whole milliseconds), for every failure count below the
  wrap-around of the \<open>u32\<close> counter and any two delays below \<open>2^64\<close> milliseconds, although the code
  computes it in saturating 64-bit arithmetic; unless the key is already dirty it is due after that
  delay, or earlier if it was already delayed to an earlier deadline.\<close>

lemma wq_retry_delay:
  assumes "wq_num_requeues s k = n" and "n < 2 ^ 32 - 1"
    and "wc_base_delay cfg div 1000000 < 2 ^ 64" and "wc_max_delay cfg div 1000000 < 2 ^ 64"
    and "\<not> wq_shutdown s" and "k \<notin> wq_dirty s"
  shows "wq_num_requeues (wq_requeue_rate_limited cfg s k now) k = n + 1
    \<and> wq_delayed (wq_requeue_rate_limited cfg s k now) k =
        Some (case wq_delayed s k of None \<Rightarrow> now + retry_delay cfg n
              | Some e \<Rightarrow> min e (now + retry_delay cfg n))"
proof -
  have "wq_bump_failures s k = (Suc n, s\<lparr>wq_failures := (wq_failures s)(k \<mapsto> Suc n)\<rparr>)"
    using assms(1,2) by (auto simp: wq_bump_failures_def wq_num_requeues_def Let_def split: option.splits)
  then show ?thesis
    using assms(5,6)
    by (auto simp: wq_requeue_rate_limited_def wq_add_after_def wq_num_requeues_def Let_def
        retry_delay_def backoff_duration_closed [OF assms(3,4)] split: option.splits)
qed

section \<open>Witnesses\<close>

text \<open>A key is added, handed out, re-added while it is processed, reported done within the cooldown
  (hence delayed) and handed out again when it is due.\<close>

definition demo_trace :: "wq_label list" where
  "demo_trace = [LAdd ''a''] @ [LGet (GotKey ''a'')] @ [LAdd ''a'', LDone ''a''] @ [LGet (GotKey ''a'')]"

lemma demo_run: "\<exists>s. runs wq_step wq_new demo_trace s"
proof -
  define s1 where "s1 = wq_add wq_new ''a''"
  define s2 where "s2 = snd (wq_get s1 0 [] 0)"
  define s3 where "s3 = wq_add s2 ''a''"
  define s4 where "s4 = wq_done s3 ''a'' 1000"
  define s5 where "s5 = snd (wq_get s4 200000000 [''a''] 200000000)"
  note defs = wq_new_def wq_add_def wq_get_def wq_done_def wq_ready_def wq_promote_one_def
    min_reprocess_interval_def
  have 1: "wq_step wq_new (LAdd ''a'') s1" unfolding s1_def by (rule step_add)
  have 2: "wq_step s1 (LGet (GotKey ''a'')) s2"
    by (rule step_get [of "[]" _ 0 0]) (auto simp: s2_def s1_def defs)
  have 3: "wq_step s2 (LAdd ''a'') s3" unfolding s3_def by (rule step_add)
  have 4: "wq_step s3 (LDone ''a'') s4"
    unfolding s4_def by (rule step_done) (simp add: s3_def s2_def s1_def defs)
  have 5: "wq_step s4 (LGet (GotKey ''a'')) s5"
    by (rule step_get [of "[''a'']" _ 200000000 200000000])
       (auto simp: s5_def s4_def s3_def s2_def s1_def defs split: if_splits)
  have "runs wq_step wq_new demo_trace s5"
    unfolding demo_trace_def append.simps runs_Cons_iff runs_Nil_simp using 1 2 3 4 5 by blast
  then show ?thesis by blast
qed

theorem wq_exclusive_processing_witness:
  "(\<exists>s. runs wq_step wq_new demo_trace s) \<and> LDone ''a'' \<in> set [LAdd ''a'', LDone ''a'']"
  using demo_run wq_exclusive_processing unfolding demo_trace_def by blast


end
