(* ===== verification/Nominator.thy ===== *)
theory Nominator
  imports SchedulingOrder
begin

text \<open>
  The pod nominator (\<^verbatim>\<open>crates/scheduler/src/queue/nominator.rs\<close>): which pods preemption has promised
  which node. The state is the two hash maps of the source, node name to list of pod references and
  pod UID to node name; the optional pod lister is a function argument carried in the state as in the
  source.

  Shown here: the two maps stay inverse to each other, a pod is nominated to at most one node and
  listed there once; every operation is the obvious operation on the per-node lists
  (\<open>nominator_spec\<close>), and an update of a pod that carries no nomination in its status keeps the
  nomination made in memory.
\<close>

section \<open>Definitions\<close>

datatype nominating_mode = Mode_Noop | Mode_Override

record nominating_info =
  ni_nominated_node_name :: string
  ni_nominating_mode :: nominating_mode

definition override_node :: "string \<Rightarrow> nominating_info" where
  "override_node node = \<lparr>ni_nominated_node_name = node, ni_nominating_mode = Mode_Override\<rparr>"

definition ni_noop :: nominating_info where
  "ni_noop = \<lparr>ni_nominated_node_name = '''', ni_nominating_mode = Mode_Noop\<rparr>"

definition ni_mode :: "nominating_info option \<Rightarrow> nominating_mode" where
  "ni_mode info = (case info of None \<Rightarrow> Mode_Noop | Some i \<Rightarrow> ni_nominating_mode i)"

record pod_ref =
  pr_name :: string
  pr_namespace :: string
  pr_uid :: string

definition from_pod :: "pod \<Rightarrow> pod_ref" where
  "from_pod p = \<lparr>pr_name = pod_name p, pr_namespace = pod_namespace_or_empty p, pr_uid = pod_uid p\<rparr>"

type_synonym pod_lister = "string \<Rightarrow> string \<Rightarrow> pod option"

record nominator =
  no_pod_lister :: "pod_lister option"
  no_nominated_pods :: "string \<rightharpoonup> pod_ref list"
  no_nominated_pod_to_node :: "string \<rightharpoonup> string"

definition nominated_node_name :: "pod \<Rightarrow> string" where
  "nominated_node_name p =
     (case po_status p of
        None \<Rightarrow> ''''
      | Some s \<Rightarrow> (case pst_nominated_node_name s of None \<Rightarrow> '''' | Some n \<Rightarrow> n))"

definition nominator_new :: "pod_lister option \<Rightarrow> nominator" where
  "nominator_new lister =
     \<lparr>no_pod_lister = lister, no_nominated_pods = Map.empty, no_nominated_pod_to_node = Map.empty\<rparr>"

text \<open>\<open>list.remove(i)\<close> at the first position that satisfies the predicate, if there is one.\<close>

fun remove_first :: "('a \<Rightarrow> bool) \<Rightarrow> 'a list \<Rightarrow> 'a list" where
  "remove_first P [] = []"
| "remove_first P (x # xs) = (if P x then xs else x # remove_first P xs)"

definition nominator_delete :: "nominator \<Rightarrow> pod \<Rightarrow> nominator" where
  "nominator_delete n p =
     (case no_nominated_pod_to_node n (pod_uid p) of
        None \<Rightarrow> n
      | Some nnn \<Rightarrow>
          (let pods =
             (case no_nominated_pods n nnn of
                None \<Rightarrow> no_nominated_pods n
              | Some l \<Rightarrow>
                  (let l' = remove_first (\<lambda>np. pr_uid np = pod_uid p) l in
                   (no_nominated_pods n)(nnn := (if l' = [] then None else Some l'))))
           in n\<lparr>no_nominated_pods := pods,
                no_nominated_pod_to_node := (no_nominated_pod_to_node n)(pod_uid p := None)\<rparr>))"

text \<open>The two early returns of \<open>add_nominated_pod\<close>: no node to nominate, pod gone or scheduled.\<close>

definition node_to_nominate :: "pod \<Rightarrow> nominating_info option \<Rightarrow> string option" where
  "node_to_nominate p info =
     (case ni_mode info of
        Mode_Override \<Rightarrow> Some (case info of None \<Rightarrow> '''' | Some i \<Rightarrow> ni_nominated_node_name i)
      | Mode_Noop \<Rightarrow> (if nominated_node_name p = '''' then None else Some (nominated_node_name p)))"

definition lister_refuses :: "pod_lister option \<Rightarrow> pod \<Rightarrow> bool" where
  "lister_refuses lister p =
     (case lister of
        None \<Rightarrow> False
      | Some f \<Rightarrow>
          (case f (pod_namespace_or_empty p) (pod_name p) of
             None \<Rightarrow> True
           | Some updated \<Rightarrow>
               (case po_spec updated of
                  None \<Rightarrow> False
                | Some s \<Rightarrow> (case ps_node_name s of None \<Rightarrow> False | Some n \<Rightarrow> n \<noteq> ''''))))"

definition add_nominated_pod :: "nominator \<Rightarrow> pod \<Rightarrow> nominating_info option \<Rightarrow> nominator" where
  "add_nominated_pod n p info =
     (let n1 = nominator_delete n p in
      case node_to_nominate p info of
        None \<Rightarrow> n1
      | Some node_name \<Rightarrow>
          if lister_refuses (no_pod_lister n1) p then n1
          else
            (let l = (case no_nominated_pods n1 node_name of None \<Rightarrow> [] | Some l \<Rightarrow> l);
                 n2 = n1\<lparr>no_nominated_pod_to_node := (no_nominated_pod_to_node n1)(pod_uid p \<mapsto> node_name)\<rparr>
             in if (\<exists>np \<in> set l. pr_uid np = pod_uid p)
                then n2\<lparr>no_nominated_pods := (no_nominated_pods n2)(node_name \<mapsto> l)\<rparr>
                else n2\<lparr>no_nominated_pods := (no_nominated_pods n2)(node_name \<mapsto> l @ [from_pod p])\<rparr>))"

definition update_nominated_pod :: "nominator \<Rightarrow> pod \<Rightarrow> pod \<Rightarrow> nominator" where
  "update_nominated_pod n old_pod new_pod =
     (let info =
        (if nominated_node_name old_pod = '''' \<and> nominated_node_name new_pod = ''''
         then (case no_nominated_pod_to_node n (pod_uid old_pod) of
                 None \<Rightarrow> None
               | Some nnn \<Rightarrow> Some (override_node nnn))
         else None)
      in add_nominated_pod (nominator_delete n old_pod) new_pod info)"

definition nominated_pods_for_node :: "nominator \<Rightarrow> string \<Rightarrow> pod_ref list" where
  "nominated_pods_for_node n node = (case no_nominated_pods n node of None \<Rightarrow> [] | Some l \<Rightarrow> l)"

section \<open>Invariant and specification\<close>

definition nominator_ok :: "nominator \<Rightarrow> bool" where
  "nominator_ok n \<longleftrightarrow>
     (\<forall>node. no_nominated_pods n node \<noteq> Some [])
     \<and> (\<forall>node. distinct (map pr_uid (nominated_pods_for_node n node)))
     \<and> (\<forall>node uid. uid \<in> pr_uid ` set (nominated_pods_for_node n node)
          \<longleftrightarrow> no_nominated_pod_to_node n uid = Some node)"

text \<open>The specification: every node has a list of nominated pods in the order of nomination.\<close>

type_synonym nominations = "string \<Rightarrow> pod_ref list"

definition spec_delete :: "nominations \<Rightarrow> string \<Rightarrow> nominations" where
  "spec_delete m uid = (\<lambda>node. filter (\<lambda>np. pr_uid np \<noteq> uid) (m node))"

definition spec_add :: "pod_lister option \<Rightarrow> nominations \<Rightarrow> pod \<Rightarrow> nominating_info option \<Rightarrow> nominations" where
  "spec_add lister m p info =
     (let m1 = spec_delete m (pod_uid p) in
      case node_to_nominate p info of
        None \<Rightarrow> m1
      | Some node \<Rightarrow> if lister_refuses lister p then m1 else m1(node := m1 node @ [from_pod p]))"

lemma pods_for_new [simp]: "nominated_pods_for_node (nominator_new l) node = []"
  by (simp add: nominated_pods_for_node_def nominator_new_def)

lemma lister_new: "no_pod_lister (nominator_new l) = l"
  by (simp add: nominator_new_def)

lemma nominator_ok_new: "nominator_ok (nominator_new l)"
  by (simp add: nominator_ok_def) (simp add: nominator_new_def)

lemma remove_first_filter:
  "distinct (map f xs) \<Longrightarrow> remove_first (\<lambda>x. f x = a) xs = filter (\<lambda>x. f x \<noteq> a) xs"
proof (induction xs)
  case (Cons x xs)
  then show ?case by (force intro: filter_True [symmetric] simp: image_iff)
qed simp

lemma lister_delete [simp]: "no_pod_lister (nominator_delete n p) = no_pod_lister n"
  by (simp add: nominator_delete_def Let_def split: option.splits)

lemma to_node_delete [simp]:
  "no_nominated_pod_to_node (nominator_delete n p) = (no_nominated_pod_to_node n)(pod_uid p := None)"
  by (auto simp: nominator_delete_def Let_def split: option.splits)

lemma pods_delete:
  assumes "nominator_ok n"
  shows "nominated_pods_for_node (nominator_delete n p) = spec_delete (nominated_pods_for_node n) (pod_uid p)"
proof
  fix node
  have mem: "no_nominated_pod_to_node n u = Some v \<longleftrightarrow> u \<in> pr_uid ` set (nominated_pods_for_node n v)" for u v
    using assms by (auto simp: nominator_ok_def)
  have dist: "distinct (map pr_uid (nominated_pods_for_node n v))" for v
    using assms by (auto simp: nominator_ok_def)
  show "nominated_pods_for_node (nominator_delete n p) node
      = spec_delete (nominated_pods_for_node n) (pod_uid p) node"
  proof (cases "no_nominated_pod_to_node n (pod_uid p) = Some node")
    case True
    then show ?thesis
      using dist [of node] remove_first_filter [of pr_uid _ "pod_uid p"]
      by (auto simp: nominator_delete_def spec_delete_def nominated_pods_for_node_def Let_def
          split: option.splits)
  next
    case False
    then have "filter (\<lambda>np. pr_uid np \<noteq> pod_uid p) (nominated_pods_for_node n node)
        = nominated_pods_for_node n node"
      unfolding mem by (force intro: filter_True)
    moreover have "nominated_pods_for_node (nominator_delete n p) node = nominated_pods_for_node n node"
      using False by (auto simp: nominator_delete_def nominated_pods_for_node_def Let_def split: option.splits)
    ultimately show ?thesis by (simp add: spec_delete_def)
  qed
qed
lemma nominator_ok_delete:
  assumes "nominator_ok n"
  shows "nominator_ok (nominator_delete n p)"
proof -
  have mem: "no_nominated_pod_to_node n u = Some v \<longleftrightarrow> u \<in> pr_uid ` set (nominated_pods_for_node n v)" for u v
    using assms by (auto simp: nominator_ok_def)
  have "no_nominated_pods (nominator_delete n p) node \<noteq> Some []" for node
    using assms by (auto simp: nominator_ok_def nominator_delete_def Let_def split: option.splits)
  moreover have "distinct (map pr_uid (spec_delete (nominated_pods_for_node n) u node))" for u node
    using assms by (simp add: nominator_ok_def spec_delete_def distinct_map_filter)
  ultimately show ?thesis
    unfolding nominator_ok_def pods_delete [OF assms] to_node_delete
    by (auto simp: spec_delete_def mem)
qed

lemma to_node_add:
  "no_nominated_pod_to_node (add_nominated_pod n p info) =
     (case node_to_nominate p info of
        None \<Rightarrow> (no_nominated_pod_to_node n)(pod_uid p := None)
      | Some node \<Rightarrow>
          (no_nominated_pod_to_node n)
            (pod_uid p := if lister_refuses (no_pod_lister n) p then None else Some node))"
  by (auto simp: add_nominated_pod_def Let_def split: option.splits)

lemma lister_add [simp]: "no_pod_lister (add_nominated_pod n p info) = no_pod_lister n"
  by (auto simp: add_nominated_pod_def Let_def split: option.splits)

lemma uid_gone_after_delete: "pod_uid p \<notin> pr_uid ` set (spec_delete m (pod_uid p) node)"
  by (auto simp: spec_delete_def)

lemma pods_add:
  assumes "nominator_ok n"
  shows "nominated_pods_for_node (add_nominated_pod n p info)
       = spec_add (no_pod_lister n) (nominated_pods_for_node n) p info"
proof -
  let ?n1 = "nominator_delete n p"
  have "(case no_nominated_pods ?n1 node of None \<Rightarrow> [] | Some l \<Rightarrow> l)
      = spec_delete (nominated_pods_for_node n) (pod_uid p) node" for node
    using fun_cong [OF pods_delete [OF assms, of p], of node] by (simp add: nominated_pods_for_node_def)
  moreover have "pr_uid np \<noteq> pod_uid p"
    if "np \<in> set (spec_delete (nominated_pods_for_node n) (pod_uid p) node)" for np node
    using that by (simp add: spec_delete_def)
  ultimately show ?thesis
    by (auto simp: add_nominated_pod_def spec_add_def Let_def fun_eq_iff pods_delete [OF assms]
        nominated_pods_for_node_def [of "?n1\<lparr>no_nominated_pod_to_node := _, no_nominated_pods := _\<rparr>"]
        split: option.splits)
qed

lemma nominator_ok_add:
  assumes "nominator_ok n"
  shows "nominator_ok (add_nominated_pod n p info)"
proof -
  let ?n1 = "nominator_delete n p"
  have ok1: "nominator_ok ?n1" using nominator_ok_delete [OF assms] .
  have ne: "no_nominated_pods (add_nominated_pod n p info) node \<noteq> Some []" for node
    using ok1 by (auto simp: nominator_ok_def add_nominated_pod_def Let_def split: option.splits)
  have mem: "u \<in> pr_uid ` set (spec_delete (nominated_pods_for_node n) (pod_uid p) v) \<longleftrightarrow>
      u \<noteq> pod_uid p \<and> no_nominated_pod_to_node n u = Some v" for u v
    using ok1 unfolding nominator_ok_def pods_delete [OF assms] to_node_delete by auto
  have "distinct (map pr_uid (spec_delete (nominated_pods_for_node n) (pod_uid p) v))" for v
    using ok1 unfolding nominator_ok_def pods_delete [OF assms] by blast
  then have "distinct (map pr_uid (spec_add (no_pod_lister n) (nominated_pods_for_node n) p info v))" for v
    using mem by (auto simp: spec_add_def Let_def from_pod_def split: option.splits)
  moreover have "u \<in> pr_uid ` set (spec_add (no_pod_lister n) (nominated_pods_for_node n) p info v) \<longleftrightarrow>
      no_nominated_pod_to_node (add_nominated_pod n p info) u = Some v" for u v
    unfolding to_node_add
    by (auto simp: spec_add_def Let_def image_Un mem from_pod_def split: option.splits)
  ultimately show ?thesis
    unfolding nominator_ok_def pods_add [OF assms] using ne by blast
qed

lemma nominator_ok_update: "nominator_ok n \<Longrightarrow> nominator_ok (update_nominated_pod n old new)"
  by (simp add: update_nominated_pod_def nominator_ok_add nominator_ok_delete)

inductive nominator_reach :: "pod_lister option \<Rightarrow> nominator \<Rightarrow> bool" for lister where
  reach_new: "nominator_reach lister (nominator_new lister)"
| reach_add: "nominator_reach lister n \<Longrightarrow> nominator_reach lister (add_nominated_pod n p info)"
| reach_update: "nominator_reach lister n \<Longrightarrow> nominator_reach lister (update_nominated_pod n old new)"
| reach_delete: "nominator_reach lister n \<Longrightarrow> nominator_reach lister (nominator_delete n p)"

lemma reach_ok: "nominator_reach lister n \<Longrightarrow> nominator_ok n \<and> no_pod_lister n = lister"
  by (induction rule: nominator_reach.induct)
     (auto intro: nominator_ok_new nominator_ok_add nominator_ok_update nominator_ok_delete
       simp: update_nominated_pod_def lister_new)

section \<open>Properties\<close>

text \<open>C35. In every reachable nominator a pod is nominated to at most one node, is listed there exactly
  once, and the index from pod UID to node agrees with the lists; and every operation does to the
  per-node lists exactly what the specification says: \<open>delete\<close> removes the pod wherever it is,
  \<open>add_nominated_pod\<close> moves it to the end of the list of the node named by the nominating info or the
  status (unless there is none, or the lister no longer knows the pod or finds it scheduled), an
  update replaces the old pod by the new one and keeps an in-memory nomination when neither status
  names a node.\<close>

theorem nominator_implements_spec:
  assumes "nominator_reach lister n"
  shows "(\<forall>uid node. no_nominated_pod_to_node n uid = Some node \<longleftrightarrow>
            (\<exists>np \<in> set (nominated_pods_for_node n node). pr_uid np = uid))
    \<and> (\<forall>node. distinct (map pr_uid (nominated_pods_for_node n node)))
    \<and> nominated_pods_for_node (nominator_delete n p) = spec_delete (nominated_pods_for_node n) (pod_uid p)
    \<and> nominated_pods_for_node (add_nominated_pod n p info) = spec_add lister (nominated_pods_for_node n) p info
    \<and> nominated_pods_for_node (update_nominated_pod n old p) =
        spec_add lister (spec_delete (nominated_pods_for_node n) (pod_uid old)) p
          (if nominated_node_name old = '''' \<and> nominated_node_name p = ''''
           then map_option override_node (no_nominated_pod_to_node n (pod_uid old)) else None)"
proof -
  have ok: "nominator_ok n" "no_pod_lister n = lister" using reach_ok [OF assms] by auto
  have "nominated_pods_for_node (update_nominated_pod n old p) =
        spec_add lister (spec_delete (nominated_pods_for_node n) (pod_uid old)) p
          (if nominated_node_name old = '''' \<and> nominated_node_name p = ''''
           then map_option override_node (no_nominated_pod_to_node n (pod_uid old)) else None)"
    by (simp add: update_nominated_pod_def Let_def pods_add [OF nominator_ok_delete [OF ok(1)]] ok
        pods_delete [OF ok(1)] map_option_case)
  moreover have "no_nominated_pod_to_node n uid = Some node \<longleftrightarrow>
      (\<exists>np \<in> set (nominated_pods_for_node n node). pr_uid np = uid)" for uid node
    using ok(1) unfolding nominator_ok_def by (metis image_iff)
  moreover have "distinct (map pr_uid (nominated_pods_for_node n node))" for node
    using ok(1) unfolding nominator_ok_def by blast
  ultimately show ?thesis using ok by (simp add: pods_add pods_delete)
qed

text \<open>A pod that preemption nominated to a node in memory stays nominated there when an update event
  arrives whose old and new status both name no node (as long as the lister still finds the pod
  alive and unscheduled), and the node's list then holds the new version of the pod.\<close>

lemma update_keeps_in_memory_nomination:
  assumes "nominator_reach lister n"
    and "no_nominated_pod_to_node n (pod_uid old) = Some node"
    and "nominated_node_name old = ''''" and "nominated_node_name new = ''''"
    and "\<not> lister_refuses lister new"
  shows "no_nominated_pod_to_node (update_nominated_pod n old new) (pod_uid new) = Some node
    \<and> from_pod new \<in> set (nominated_pods_for_node (update_nominated_pod n old new) node)"
proof -
  have ok: "nominator_ok n" "no_pod_lister n = lister" using reach_ok [OF assms(1)] by auto
  have target: "node_to_nominate new (Some (override_node node)) = Some node"
    by (simp add: node_to_nominate_def ni_mode_def override_node_def)
  show ?thesis
    using assms(2-5) ok target pods_add [OF nominator_ok_delete [OF ok(1)], of old new]
    by (simp add: update_nominated_pod_def to_node_add spec_add_def Let_def)
qed

definition demo_pod :: pod where
  "demo_pod = \<lparr>po_metadata = \<lparr>om_name = ''p'', om_namespace = Some ''ns'', om_uid = ''u'', om_labels = None\<rparr>,
               po_spec = None, po_status = None\<rparr>"

lemma demo_nominated:
  "nominator_reach None (add_nominated_pod (nominator_new None) demo_pod (Some (override_node ''n'')))"
  by (intro reach_add reach_new)

theorem nominator_implements_spec_witness:
  "nominated_pods_for_node
     (update_nominated_pod
        (add_nominated_pod (nominator_new None) demo_pod (Some (override_node ''n''))) demo_pod demo_pod) ''n''
   = [from_pod demo_pod]"
proof -
  let ?n = "add_nominated_pod (nominator_new None) demo_pod (Some (override_node ''n''))"
  have "no_nominated_pod_to_node ?n ''u'' = Some ''n''"
    by (simp add: to_node_add node_to_nominate_def ni_mode_def override_node_def lister_refuses_def
        nominator_new_def demo_pod_def)
  moreover have "nominated_pods_for_node ?n = (\<lambda>_. [])(''n'' := [from_pod demo_pod])"
    by (simp add: pods_add [OF nominator_ok_new] spec_add_def spec_delete_def Let_def node_to_nominate_def
        ni_mode_def override_node_def lister_refuses_def lister_new fun_eq_iff)
  ultimately show ?thesis
    using nominator_implements_spec [OF demo_nominated, of demo_pod None demo_pod]
    by (simp add: spec_add_def spec_delete_def Let_def node_to_nominate_def ni_mode_def override_node_def
        lister_refuses_def nominated_node_name_def demo_pod_def from_pod_def)
qed

end
