(* ===== verification/SchedulingQueue.thy ===== *)
theory SchedulingQueue
  imports Nominator
begin

text \<open>
  The scheduling queue (\<^verbatim>\<open>crates/scheduler/src/queue/scheduling_queue.rs\<close>): activeQ, the two backoff heaps,
  the pool of unschedulable pods, the pods in flight with the events recorded for them, and the
  nominator, behind one mutex. \<open>inner\<close> is the state the mutex guards, \<open>priority_queue\<close> the fields that
  never change; every public operation is one critical section and so one function on \<open>inner\<close>.

  Hint functions and PreEnqueue plugins are the functions registered in the maps, as in the source. The
  maps of hint functions are association lists in the order the hash map iterates; the order in which
  the pool of unschedulable pods and the in-flight map are iterated is an argument of the operations that
  iterate them. An operation reads the clock once, as \<open>now\<close>. Waking the waiting consumers has no effect
  on the state; \<open>pop\<close> is one iteration of its loop. The counters \<open>next_seq\<close> and \<open>sched_cycle\<close> are not
  bounded: they are incremented once per operation and 64 bits wide. Panics (\<^const>\<open>None\<close>) can only come
  from the indexing of the heaps.
\<close>

section \<open>Plugins and hints\<close>

record pre_enqueue_plugin =
  pl_name :: string
  pl_pre_enqueue :: "pod \<Rightarrow> (string, unit) result"

datatype queueing_hint = Hint_QueueSkip | Hint_Queue

text \<open>The object of an event is of any type; the queue itself only looks for pods.\<close>

datatype 'o event_object = ObjPod pod | ObjOther 'o

type_synonym 'o queueing_hint_fn =
  "pod \<Rightarrow> 'o event_object option \<Rightarrow> 'o event_object option \<Rightarrow> (string, queueing_hint) result"

record 'o queueing_hint_function =
  qh_plugin_name :: string
  qh_queueing_hint_fn :: "'o queueing_hint_fn"

type_synonym 'o queueing_hint_map = "(cluster_event \<times> 'o queueing_hint_function list) list"

datatype queueing_strategy = QueueSkip | QueueAfterBackoff | QueueImmediately

record 'o in_flight_event =
  if_event :: cluster_event
  if_old_obj :: "'o event_object option"
  if_new_obj :: "'o event_object option"

datatype 'o in_flight_entry = EntryPod (entry_seq: nat) pod | EntryEvent (entry_seq: nat) "'o in_flight_event"

record 'o priority_queue =
  pq_pod_initial_backoff :: duration
  pq_pod_max_backoff :: duration
  pq_pod_max_in_unschedulable_pods_duration :: duration
  pq_pre_enqueue_plugin_map :: "string \<rightharpoonup> pre_enqueue_plugin list"
  pq_queueing_hint_map :: "(string \<times> 'o queueing_hint_map) list"
  pq_pod_requests :: pod_requests

text \<open>\<open>build_event_map\<close>: the events registered by a plugin, in any profile.\<close>

definition plugin_to_events_map :: "'o priority_queue \<Rightarrow> string \<Rightarrow> cluster_event list" where
  "plugin_to_events_map pq name =
     concat (map (\<lambda>(_, hint_map).
       concat (map (\<lambda>(event, hints).
         map (\<lambda>_. event) (filter (\<lambda>h. qh_plugin_name h = name) hints)) hint_map)) (pq_queueing_hint_map pq))"

section \<open>The state\<close>

record backoff_queue =
  bq_pod_backoff_q :: "queued_pod_info heap"
  bq_pod_error_backoff_q :: "queued_pod_info heap"

record 'o inner =
  in_active_q :: "queued_pod_info heap"
  in_backoff_q :: backoff_queue
  in_unschedulable_pods :: "string \<rightharpoonup> queued_pod_info"
  in_in_flight_pods :: "string \<rightharpoonup> nat"
  in_in_flight_events :: "'o in_flight_entry list"
  in_next_seq :: nat
  in_sched_cycle :: int
  in_closed :: bool
  in_nominator :: nominator

definition inner_new :: "'o priority_queue \<Rightarrow> pod_lister option \<Rightarrow> 'o inner" where
  "inner_new pq lister =
     \<lparr>in_active_q = heap_new qp_key priority_sort_less,
      in_backoff_q =
        \<lparr>bq_pod_backoff_q = heap_new qp_key (less_backoff_with_priority (pq_pod_initial_backoff pq) (pq_pod_max_backoff pq)),
         bq_pod_error_backoff_q = heap_new qp_key (less_backoff_completed (pq_pod_initial_backoff pq) (pq_pod_max_backoff pq))\<rparr>,
      in_unschedulable_pods = Map.empty, in_in_flight_pods = Map.empty, in_in_flight_events = [],
      in_next_seq = 0, in_sched_cycle = 0, in_closed = False, in_nominator = nominator_new lister\<rparr>"

definition qp_for_lookup :: "pod \<Rightarrow> string set \<Rightarrow> queued_pod_info" where
  "qp_for_lookup p plugins =
     \<lparr>qp_pod = p, qp_timestamp = 0, qp_attempts = 0, qp_backoff_expiration = None, qp_unschedulable_count = 0,
      qp_consecutive_errors_count = 0, qp_initial_attempt_timestamp = None, qp_unschedulable_plugins = plugins,
      qp_pending_plugins = {}, qp_gating_plugin = '''', qp_gating_plugin_events = []\<rparr>"

definition new_queued_pod_info :: "system_time \<Rightarrow> pod \<Rightarrow> queued_pod_info" where
  "new_queued_pod_info now p =
     \<lparr>qp_pod = p, qp_timestamp = now, qp_attempts = 0, qp_backoff_expiration = None, qp_unschedulable_count = 0,
      qp_consecutive_errors_count = 0, qp_initial_attempt_timestamp = None, qp_unschedulable_plugins = {},
      qp_pending_plugins = {}, qp_gating_plugin = '''', qp_gating_plugin_events = []\<rparr>"

definition qp_update :: "queued_pod_info \<Rightarrow> pod \<Rightarrow> queued_pod_info" where
  "qp_update p new_pod = p\<lparr>qp_pod := new_pod\<rparr>"

section \<open>The pool of unschedulable pods\<close>

type_synonym unschedulable_pods = "string \<rightharpoonup> queued_pod_info"

definition up_add_or_update :: "unschedulable_pods \<Rightarrow> queued_pod_info \<Rightarrow> unschedulable_pods" where
  "up_add_or_update m p = m(queue_pod_key (qp_pod p) \<mapsto> p)"

definition up_delete :: "unschedulable_pods \<Rightarrow> pod \<Rightarrow> queued_pod_info option \<times> unschedulable_pods" where
  "up_delete m p = (m (queue_pod_key p), m(queue_pod_key p := None))"

definition up_get :: "unschedulable_pods \<Rightarrow> pod \<Rightarrow> queued_pod_info option" where
  "up_get m p = m (queue_pod_key p)"

text \<open>The values of the pool, in the order \<open>ks\<close> in which the hash map enumerates its keys.\<close>

definition up_values :: "string list \<Rightarrow> unschedulable_pods \<Rightarrow> queued_pod_info list" where
  "up_values ks m = List.map_filter m ks"

section \<open>The backoff queue\<close>

definition is_error_pod :: "queued_pod_info \<Rightarrow> bool" where
  "is_error_pod p \<longleftrightarrow> qp_unschedulable_plugins p = {} \<and> qp_pending_plugins p = {}"

definition backoff_add :: "backoff_queue \<Rightarrow> queued_pod_info \<Rightarrow> backoff_queue or_panic" where
  "backoff_add q p =
     (let key = queue_pod_key (qp_pod p) in
      if is_error_pod p
      then do { e \<leftarrow> heap_add_or_update (bq_pod_error_backoff_q q) p;
                (_, b) \<leftarrow> heap_delete_by_key (bq_pod_backoff_q q) key;
                Some \<lparr>bq_pod_backoff_q = b, bq_pod_error_backoff_q = e\<rparr> }
      else do { b \<leftarrow> heap_add_or_update (bq_pod_backoff_q q) p;
                (_, e) \<leftarrow> heap_delete_by_key (bq_pod_error_backoff_q q) key;
                Some \<lparr>bq_pod_backoff_q = b, bq_pod_error_backoff_q = e\<rparr> })"

text \<open>The write through \<open>get_mut_by_key\<close> followed by \<open>add_or_update\<close>, if the heap has the key.\<close>

definition heap_update_pod :: "queued_pod_info heap \<Rightarrow> pod \<Rightarrow> queued_pod_info heap or_panic option" where
  "heap_update_pod h new_pod =
     (let key = queue_pod_key new_pod in
      case heap_get_by_key h key of
        None \<Rightarrow> None
      | Some p \<Rightarrow>
          (let h1 = heap_get_mut_by_key h key (\<lambda>p. qp_update p new_pod) in
           Some (heap_add_or_update h1 (qp_update p new_pod))))"

definition backoff_update :: "backoff_queue \<Rightarrow> pod \<Rightarrow> (bool \<times> backoff_queue) or_panic" where
  "backoff_update q new_pod =
     (case heap_update_pod (bq_pod_backoff_q q) new_pod of
        Some r \<Rightarrow> do { b \<leftarrow> r; Some (True, q\<lparr>bq_pod_backoff_q := b\<rparr>) }
      | None \<Rightarrow>
          (case heap_update_pod (bq_pod_error_backoff_q q) new_pod of
             Some r \<Rightarrow> do { e \<leftarrow> r; Some (True, q\<lparr>bq_pod_error_backoff_q := e\<rparr>) }
           | None \<Rightarrow> Some (False, q)))"

definition backoff_take :: "backoff_queue \<Rightarrow> queued_pod_info \<Rightarrow> (queued_pod_info option \<times> backoff_queue) or_panic" where
  "backoff_take q lookup =
     do { (r, b) \<leftarrow> heap_delete (bq_pod_backoff_q q) lookup;
          (case r of
             Inr p \<Rightarrow> Some (Some p, q\<lparr>bq_pod_backoff_q := b\<rparr>)
           | Inl _ \<Rightarrow>
               do { (r, e) \<leftarrow> heap_delete (bq_pod_error_backoff_q q) lookup;
                    (case r of
                       Inr p \<Rightarrow> Some (Some p, q\<lparr>bq_pod_backoff_q := b, bq_pod_error_backoff_q := e\<rparr>)
                     | Inl _ \<Rightarrow> Some (None, q\<lparr>bq_pod_backoff_q := b, bq_pod_error_backoff_q := e\<rparr>)) }) }"

definition backoff_delete :: "backoff_queue \<Rightarrow> queued_pod_info \<Rightarrow> (bool \<times> backoff_queue) or_panic" where
  "backoff_delete q p =
     do { (r, b) \<leftarrow> heap_delete (bq_pod_backoff_q q) p;
          (case r of
             Inr _ \<Rightarrow> Some (True, q\<lparr>bq_pod_backoff_q := b\<rparr>)
           | Inl _ \<Rightarrow>
               do { (r, e) \<leftarrow> heap_delete (bq_pod_error_backoff_q q) p;
                    Some (case r of Inr _ \<Rightarrow> True | Inl _ \<Rightarrow> False, q\<lparr>bq_pod_backoff_q := b, bq_pod_error_backoff_q := e\<rparr>) }) }"

definition backoff_has :: "backoff_queue \<Rightarrow> queued_pod_info \<Rightarrow> bool" where
  "backoff_has q p \<longleftrightarrow> heap_has (bq_pod_backoff_q q) p \<or> heap_has (bq_pod_error_backoff_q q) p"

definition backoff_get_by_key :: "backoff_queue \<Rightarrow> string \<Rightarrow> queued_pod_info option" where
  "backoff_get_by_key q key =
     (case heap_get_by_key (bq_pod_backoff_q q) key of
        Some p \<Rightarrow> Some p
      | None \<Rightarrow> heap_get_by_key (bq_pod_error_backoff_q q) key)"

definition backoff_len :: "backoff_queue \<Rightarrow> nat" where
  "backoff_len q = heap_len (bq_pod_backoff_q q) + heap_len (bq_pod_error_backoff_q q)"

definition len_backoff :: "backoff_queue \<Rightarrow> nat" where
  "len_backoff q = heap_len (bq_pod_backoff_q q)"

text \<open>The loop of \<open>pop_all_backoff_completed\<close> on one of the heaps.\<close>

partial_function (option) pop_completed ::
  "duration \<Rightarrow> duration \<Rightarrow> system_time \<Rightarrow> queued_pod_info heap \<Rightarrow> (queued_pod_info list \<times> queued_pod_info heap) or_panic"
  where
  "pop_completed initial mx window h =
     (case heap_peek h of
        None \<Rightarrow> Some ([], h)
      | Some p \<Rightarrow>
          if backoff_time initial mx p \<ge> window then Some ([], h)
          else do { (r, h1) \<leftarrow> heap_pop h;
                    (case r of
                       Inl _ \<Rightarrow> Some ([], h1)
                     | Inr p \<Rightarrow> do { (ps, h2) \<leftarrow> pop_completed initial mx window h1; Some (p # ps, h2) }) })"

definition pop_all_backoff_completed ::
  "duration \<Rightarrow> duration \<Rightarrow> system_time \<Rightarrow> backoff_queue \<Rightarrow> (queued_pod_info list \<times> backoff_queue) or_panic" where
  "pop_all_backoff_completed initial mx now q =
     (let window = align_to_window now in
      do { (ps, b) \<leftarrow> pop_completed initial mx window (bq_pod_backoff_q q);
           (es, e) \<leftarrow> pop_completed initial mx window (bq_pod_error_backoff_q q);
           Some (ps @ es, \<lparr>bq_pod_backoff_q = b, bq_pod_error_backoff_q = e\<rparr>) })"

section \<open>Pods in flight\<close>

definition cluster_events_for_pod ::
  "'o inner \<Rightarrow> queued_pod_info \<Rightarrow> (string, 'o in_flight_event list) result" where
  "cluster_events_for_pod s p =
     (case in_in_flight_pods s (pod_uid (qp_pod p)) of
        None \<Rightarrow> Inl ''in flight Pod isn't found in the scheduling queue''
      | Some seq \<Rightarrow>
          Inr (List.map_filter (\<lambda>e. case e of EntryEvent _ ev \<Rightarrow> Some ev | EntryPod _ _ \<Rightarrow> None)
                 (filter (\<lambda>e. entry_seq e > seq) (in_in_flight_events s))))"

definition push_event :: "'o inner \<Rightarrow> 'o in_flight_event \<Rightarrow> 'o inner" where
  "push_event s ev =
     s\<lparr>in_next_seq := in_next_seq s + 1,
       in_in_flight_events := in_in_flight_events s @ [EntryEvent (in_next_seq s) ev]\<rparr>"

definition add_events_if_pod_in_flight ::
  "'o inner \<Rightarrow> pod option \<Rightarrow> pod \<Rightarrow> cluster_event list \<Rightarrow> bool \<times> 'o inner" where
  "add_events_if_pod_in_flight s old_pod new_pod events =
     (if in_in_flight_pods s (pod_uid new_pod) = None then (False, s)
      else (True, fold (\<lambda>ev s. push_event s
               \<lparr>if_event = ev, if_old_obj = map_option ObjPod old_pod, if_new_obj = Some (ObjPod new_pod)\<rparr>) events s))"

definition add_event_if_any_in_flight ::
  "'o inner \<Rightarrow> 'o event_object option \<Rightarrow> 'o event_object option \<Rightarrow> cluster_event \<Rightarrow> bool \<times> 'o inner" where
  "add_event_if_any_in_flight s old_obj new_obj event =
     (if in_in_flight_pods s = Map.empty then (False, s)
      else (True, push_event s \<lparr>if_event = event, if_old_obj = old_obj, if_new_obj = new_obj\<rparr>))"

fun is_entry_pod :: "'o in_flight_entry \<Rightarrow> bool" where
  "is_entry_pod (EntryPod _ _) = True"
| "is_entry_pod (EntryEvent _ _) = False"

definition unlocked_done :: "'o inner \<Rightarrow> string \<Rightarrow> 'o inner" where
  "unlocked_done s uid =
     (case in_in_flight_pods s uid of
        None \<Rightarrow> s
      | Some seq \<Rightarrow>
          s\<lparr>in_in_flight_pods := (in_in_flight_pods s)(uid := None),
            in_in_flight_events :=
              dropWhile (\<lambda>e. \<not> is_entry_pod e) (remove_first (\<lambda>e. entry_seq e = seq) (in_in_flight_events s))\<rparr>)"

text \<open>The head of activeQ, or of the (unschedulable) backoff heap when activeQ is empty.\<close>

definition next_entry :: "'o inner \<Rightarrow> (queued_pod_info option \<times> 'o inner) or_panic" where
  "next_entry s =
     do { (r, a) \<leftarrow> heap_pop (in_active_q s);
          let s1 = s\<lparr>in_active_q := a\<rparr>;
          (case r of
             Inr p \<Rightarrow> Some (Some p, s1)
           | Inl _ \<Rightarrow>
               do { (r, b) \<leftarrow> heap_pop (bq_pod_backoff_q (in_backoff_q s1));
                    Some (case r of Inr p \<Rightarrow> Some p | Inl _ \<Rightarrow> None,
                          s1\<lparr>in_backoff_q := (in_backoff_q s1)\<lparr>bq_pod_backoff_q := b\<rparr>\<rparr>) }) }"

text \<open>One more attempt, and no plugin has failed the pod in it yet.\<close>

definition popped_info :: "queued_pod_info \<Rightarrow> queued_pod_info" where
  "popped_info p =
     p\<lparr>qp_attempts := qp_attempts p + 1, qp_unschedulable_plugins := {}, qp_pending_plugins := {},
       qp_gating_plugin := '''', qp_gating_plugin_events := []\<rparr>"

partial_function (option) unlocked_pop :: "'o inner \<Rightarrow> (queued_pod_info option \<times> 'o inner) or_panic" where
  "unlocked_pop s =
     do { (r, s1) \<leftarrow> next_entry s;
          (case r of
             None \<Rightarrow> Some (None, s1)
           | Some p \<Rightarrow>
               (let uid = pod_uid (qp_pod p) in
                if in_in_flight_pods s1 uid \<noteq> None then unlocked_pop s1
                else
                  (let seq = in_next_seq s1 in
                   Some (Some (popped_info p),
                         s1\<lparr>in_next_seq := in_next_seq s1 + 1,
                            in_in_flight_events := in_in_flight_events s1 @ [EntryPod seq (qp_pod p)],
                            in_in_flight_pods := (in_in_flight_pods s1)(uid \<mapsto> seq),
                            in_sched_cycle := in_sched_cycle s1 + 1\<rparr>)))) }"

section \<open>Hints\<close>

definition is_event_of_interest :: "'o priority_queue \<Rightarrow> cluster_event \<Rightarrow> bool" where
  "is_event_of_interest pq event \<longleftrightarrow>
     cluster_event_is_wild_card event
     \<or> list_ex (\<lambda>(_, hint_map). list_ex (\<lambda>(event_to_match, _). match_cluster_events event_to_match event) hint_map)
         (pq_queueing_hint_map pq)"

text \<open>The two nested loops over the hint functions: \<open>Inl\<close> is an early return.\<close>

fun run_hints ::
  "queued_pod_info \<Rightarrow> 'o event_object option \<Rightarrow> 'o event_object option \<Rightarrow> 'o queueing_hint_function list \<Rightarrow>
   queueing_strategy \<Rightarrow> queueing_strategy + queueing_strategy" where
  "run_hints p old_obj new_obj [] strategy = Inr strategy"
| "run_hints p old_obj new_obj (h # hs) strategy =
     (if qh_plugin_name h \<notin> qp_unschedulable_plugins p \<union> qp_pending_plugins p
      then run_hints p old_obj new_obj hs strategy
      else
        (let hint = (case qh_queueing_hint_fn h (qp_pod p) old_obj new_obj of Inr x \<Rightarrow> x | Inl _ \<Rightarrow> Hint_Queue) in
         if hint = Hint_QueueSkip then run_hints p old_obj new_obj hs strategy
         else if qh_plugin_name h \<in> qp_pending_plugins p then Inl QueueImmediately
         else if qp_pending_plugins p = {} then Inl QueueAfterBackoff
         else run_hints p old_obj new_obj hs QueueAfterBackoff))"

fun run_hint_map ::
  "queued_pod_info \<Rightarrow> cluster_event \<Rightarrow> 'o event_object option \<Rightarrow> 'o event_object option \<Rightarrow> 'o queueing_hint_map \<Rightarrow>
   queueing_strategy \<Rightarrow> queueing_strategy" where
  "run_hint_map p event old_obj new_obj [] strategy = strategy"
| "run_hint_map p event old_obj new_obj ((event_to_match, hs) # m) strategy =
     (if \<not> match_cluster_events event_to_match event then run_hint_map p event old_obj new_obj m strategy
      else
        (case run_hints p old_obj new_obj hs strategy of
           Inl result \<Rightarrow> result
         | Inr strategy' \<Rightarrow> run_hint_map p event old_obj new_obj m strategy'))"

definition is_pod_worth_requeuing ::
  "'o priority_queue \<Rightarrow> queued_pod_info \<Rightarrow> cluster_event \<Rightarrow> 'o event_object option \<Rightarrow> 'o event_object option \<Rightarrow>
   queueing_strategy" where
  "is_pod_worth_requeuing pq p event old_obj new_obj =
     (if qp_unschedulable_plugins p \<union> qp_pending_plugins p = {} then QueueAfterBackoff
      else if cluster_event_is_wild_card event
      then (case new_obj of
              None \<Rightarrow> QueueAfterBackoff
            | Some (ObjPod q) \<Rightarrow> if pod_uid q = pod_uid (qp_pod p) then QueueAfterBackoff else QueueSkip
            | Some (ObjOther _) \<Rightarrow> QueueSkip)
      else
        (case map_of (pq_queueing_hint_map pq) (pod_scheduler_name (qp_pod p)) of
           None \<Rightarrow> QueueAfterBackoff
         | Some hint_map \<Rightarrow> run_hint_map p event old_obj new_obj hint_map QueueSkip))"

section \<open>PreEnqueue\<close>

definition run_pre_enqueue_plugin ::
  "'o priority_queue \<Rightarrow> pre_enqueue_plugin \<Rightarrow> queued_pod_info \<Rightarrow> bool \<times> queued_pod_info" where
  "run_pre_enqueue_plugin pq pl p =
     (case pl_pre_enqueue pl (qp_pod p) of
        Inr _ \<Rightarrow> (True, p)
      | Inl _ \<Rightarrow>
          (False, p\<lparr>qp_unschedulable_plugins := insert (pl_name pl) (qp_unschedulable_plugins p),
                    qp_gating_plugin := pl_name pl,
                    qp_gating_plugin_events := plugin_to_events_map pq (pl_name pl)\<rparr>))"

fun run_plugin_list ::
  "'o priority_queue \<Rightarrow> string \<Rightarrow> pre_enqueue_plugin list \<Rightarrow> queued_pod_info \<Rightarrow> queued_pod_info" where
  "run_plugin_list pq gating [] p = p\<lparr>qp_gating_plugin := ''''\<rparr>"
| "run_plugin_list pq gating (pl # pls) p =
     (if gating \<noteq> '''' \<and> pl_name pl = gating then run_plugin_list pq gating pls p
      else
        (let (passed, p') = run_pre_enqueue_plugin pq pl p in
         if passed then run_plugin_list pq gating pls p' else p'))"

definition run_pre_enqueue_plugins :: "'o priority_queue \<Rightarrow> queued_pod_info \<Rightarrow> queued_pod_info" where
  "run_pre_enqueue_plugins pq p =
     (let gating = qp_gating_plugin p in
      case pq_pre_enqueue_plugin_map pq (pod_scheduler_name (qp_pod p)) of
        None \<Rightarrow> p\<lparr>qp_gating_plugin := ''''\<rparr>
      | Some plugins \<Rightarrow>
          (case (if gating = '''' then None else List.find (\<lambda>pl. pl_name pl = gating) plugins) of
             None \<Rightarrow> run_plugin_list pq gating plugins p
           | Some pl \<Rightarrow>
               (let (passed, p') = run_pre_enqueue_plugin pq pl p in
                if passed then run_plugin_list pq gating plugins p' else p')))"

section \<open>Moves between the queues\<close>

definition move_to_active_q ::
  "'o priority_queue \<Rightarrow> system_time \<Rightarrow> 'o inner \<Rightarrow> queued_pod_info \<Rightarrow> string \<Rightarrow> bool \<Rightarrow> (bool \<times> 'o inner) or_panic" where
  "move_to_active_q pq now s p event moves_from_backoff_q =
     (let p1 = (if moves_from_backoff_q then p else run_pre_enqueue_plugins pq p) in
      if qp_gated p1
      then
        (if heap_has (in_active_q s) p1 \<or> backoff_has (in_backoff_q s) p1
            \<or> up_get (in_unschedulable_pods s) (qp_pod p1) \<noteq> None
         then Some (False, s)
         else Some (False, s\<lparr>in_unschedulable_pods := up_add_or_update (in_unschedulable_pods s) p1\<rparr>))
      else
        (let p2 = (if qp_initial_attempt_timestamp p1 = None then p1\<lparr>qp_initial_attempt_timestamp := Some now\<rparr> else p1);
             u = snd (up_delete (in_unschedulable_pods s) (qp_pod p2))
         in do { (_, b) \<leftarrow> backoff_delete (in_backoff_q s) p2;
                 let n = (if event = event_label EVENT_UNSCHEDULED_POD_ADD \<or> event = event_label EVENT_UNSCHEDULED_POD_UPDATE
                          then add_nominated_pod (in_nominator s) (qp_pod p2) None else in_nominator s);
                 a \<leftarrow> heap_add_or_update (in_active_q s) p2;
                 Some (True, s\<lparr>in_active_q := a, in_backoff_q := b, in_unschedulable_pods := u, in_nominator := n\<rparr>) }))"

definition move_to_backoff_q ::
  "'o priority_queue \<Rightarrow> 'o inner \<Rightarrow> queued_pod_info \<Rightarrow> string \<Rightarrow> (bool \<times> 'o inner) or_panic" where
  "move_to_backoff_q pq s p event =
     (let p1 = run_pre_enqueue_plugins pq p in
      if qp_gated p1
      then
        (if up_get (in_unschedulable_pods s) (qp_pod p1) = None
         then Some (False, s\<lparr>in_unschedulable_pods := up_add_or_update (in_unschedulable_pods s) p1\<rparr>)
         else Some (False, s))
      else
        (let u = snd (up_delete (in_unschedulable_pods s) (qp_pod p1)) in
         do { b \<leftarrow> backoff_add (in_backoff_q s) p1;
              Some (True, s\<lparr>in_backoff_q := b, in_unschedulable_pods := u\<rparr>) }))"

datatype queue_name = ActiveQ | BackoffQ | UnschedulableQ

definition requeue_pod_with_queueing_strategy ::
  "'o priority_queue \<Rightarrow> system_time \<Rightarrow> 'o inner \<Rightarrow> queued_pod_info \<Rightarrow> queueing_strategy \<Rightarrow> string \<Rightarrow>
   (queue_name \<times> 'o inner) or_panic" where
  "requeue_pod_with_queueing_strategy pq now s p strategy event =
     (if strategy = QueueSkip
      then Some (UnschedulableQ, s\<lparr>in_unschedulable_pods := up_add_or_update (in_unschedulable_pods s) p\<rparr>)
      else if strategy = QueueAfterBackoff \<and>
              is_pod_backing_off (pq_pod_initial_backoff pq) (pq_pod_max_backoff pq) now p
      then do { (moved, s1) \<leftarrow> move_to_backoff_q pq s p event;
                Some (if moved then BackoffQ else UnschedulableQ, s1) }
      else do { (moved, s1) \<leftarrow> move_to_active_q pq now s p event False;
                Some (if moved then ActiveQ else UnschedulableQ, s1) })"

fun move_pods ::
  "'o priority_queue \<Rightarrow> system_time \<Rightarrow> cluster_event \<Rightarrow> 'o event_object option \<Rightarrow> 'o event_object option \<Rightarrow>
   queued_pod_info list \<Rightarrow> bool \<Rightarrow> 'o inner \<Rightarrow> (bool \<times> 'o inner) or_panic" where
  "move_pods pq now event old_obj new_obj [] activated s = Some (activated, s)"
| "move_pods pq now event old_obj new_obj (p # ps) activated s =
     (if qp_gated p \<and> \<not> cluster_event_is_wild_card event \<and> \<not> match_any_cluster_event event (qp_gating_plugin_events p)
      then move_pods pq now event old_obj new_obj ps activated s
      else
        (let hint = is_pod_worth_requeuing pq p event old_obj new_obj in
         if hint = QueueSkip then move_pods pq now event old_obj new_obj ps activated s
         else
           (let s1 = s\<lparr>in_unschedulable_pods := snd (up_delete (in_unschedulable_pods s) (qp_pod p))\<rparr> in
            do { (queue, s2) \<leftarrow> requeue_pod_with_queueing_strategy pq now s1 p hint (event_label event);
                 move_pods pq now event old_obj new_obj ps (activated \<or> queue \<in> {ActiveQ, BackoffQ}) s2 })))"

definition move_pods_to_active_or_backoff_queue ::
  "'o priority_queue \<Rightarrow> system_time \<Rightarrow> 'o inner \<Rightarrow> queued_pod_info list \<Rightarrow> cluster_event \<Rightarrow>
   'o event_object option \<Rightarrow> 'o event_object option \<Rightarrow> (bool \<times> 'o inner) or_panic" where
  "move_pods_to_active_or_backoff_queue pq now s pod_info_list event old_obj new_obj =
     (if \<not> is_event_of_interest pq event then Some (False, s)
      else do { (activated, s1) \<leftarrow> move_pods pq now event old_obj new_obj pod_info_list False s;
                Some (activated, snd (add_event_if_any_in_flight s1 old_obj new_obj event)) })"

section \<open>The operations\<close>

definition sq_add :: "'o priority_queue \<Rightarrow> system_time \<Rightarrow> pod \<Rightarrow> 'o inner \<Rightarrow> (bool \<times> 'o inner) or_panic" where
  "sq_add pq now p s =
     move_to_active_q pq now s (new_queued_pod_info now p) (event_label EVENT_UNSCHEDULED_POD_ADD) False"

definition activate_one :: "'o priority_queue \<Rightarrow> system_time \<Rightarrow> 'o inner \<Rightarrow> pod \<Rightarrow> (bool \<times> 'o inner) or_panic" where
  "activate_one pq now s p =
     (case up_delete (in_unschedulable_pods s) p of
        (Some info, u) \<Rightarrow>
          move_to_active_q pq now (s\<lparr>in_unschedulable_pods := up_add_or_update u info\<rparr>) info FORCE_ACTIVATE False
      | (None, u) \<Rightarrow>
          do { (r, b) \<leftarrow> backoff_take (in_backoff_q s) (qp_for_lookup p {});
               let s1 = s\<lparr>in_unschedulable_pods := u, in_backoff_q := b\<rparr>;
               (case r of
                  None \<Rightarrow> Some (False, s1)
                | Some info \<Rightarrow> move_to_active_q pq now s1 info FORCE_ACTIVATE True) })"

fun sq_activate :: "'o priority_queue \<Rightarrow> system_time \<Rightarrow> pod list \<Rightarrow> 'o inner \<Rightarrow> 'o inner or_panic" where
  "sq_activate pq now [] s = Some s"
| "sq_activate pq now (p # ps) s =
     do { (moved, s1) \<leftarrow> activate_one pq now s p;
          sq_activate pq now ps
            (if moved then s1 else snd (add_events_if_pod_in_flight s1 None p [EVENT_FORCE_ACTIVATE])) }"

text \<open>The loop of \<open>determine_scheduling_hint_for_in_flight_pod\<close> over the events.\<close>

fun hint_of_events ::
  "'o priority_queue \<Rightarrow> queued_pod_info \<Rightarrow> 'o in_flight_event list \<Rightarrow> queueing_strategy \<Rightarrow> queueing_strategy" where
  "hint_of_events pq p [] strategy = strategy"
| "hint_of_events pq p (e # es) strategy =
     (case is_pod_worth_requeuing pq p (if_event e) (if_old_obj e) (if_new_obj e) of
        QueueSkip \<Rightarrow> hint_of_events pq p es strategy
      | QueueImmediately \<Rightarrow> QueueImmediately
      | QueueAfterBackoff \<Rightarrow>
          if qp_pending_plugins p = {} then QueueAfterBackoff else hint_of_events pq p es QueueAfterBackoff)"

definition determine_scheduling_hint_for_in_flight_pod ::
  "'o priority_queue \<Rightarrow> 'o inner \<Rightarrow> queued_pod_info \<Rightarrow> queueing_strategy" where
  "determine_scheduling_hint_for_in_flight_pod pq s p =
     (if qp_unschedulable_plugins p = {} \<and> qp_pending_plugins p = {} then QueueAfterBackoff
      else
        (case cluster_events_for_pod s p of
           Inl _ \<Rightarrow> QueueAfterBackoff
         | Inr events \<Rightarrow> hint_of_events pq p events QueueSkip))"

datatype present_error = InUnschedulable | InActive | InBackoff

definition readd_info :: "system_time \<Rightarrow> queued_pod_info \<Rightarrow> queued_pod_info" where
  "readd_info now p =
     (if qp_unschedulable_plugins p = {} \<and> qp_pending_plugins p = {}
      then p\<lparr>qp_consecutive_errors_count := qp_consecutive_errors_count p + 1, qp_timestamp := now,
             qp_backoff_expiration := None\<rparr>
      else p\<lparr>qp_unschedulable_count := qp_unschedulable_count p + 1, qp_consecutive_errors_count := 0,
             qp_timestamp := now, qp_backoff_expiration := None\<rparr>)"

definition add_unschedulable_if_not_present ::
  "'o priority_queue \<Rightarrow> system_time \<Rightarrow> queued_pod_info \<Rightarrow> 'o inner \<Rightarrow> ((present_error, queue_name) result \<times> 'o inner) or_panic" where
  "add_unschedulable_if_not_present pq now p s =
     (let uid = pod_uid (qp_pod p) in
      do { (result, s1) \<leftarrow>
             (if up_get (in_unschedulable_pods s) (qp_pod p) \<noteq> None then Some (Inl InUnschedulable, s)
              else if heap_has (in_active_q s) p then Some (Inl InActive, s)
              else if backoff_has (in_backoff_q s) p then Some (Inl InBackoff, s)
              else
                (let p1 = readd_info now p; hint = determine_scheduling_hint_for_in_flight_pod pq s p1 in
                 do { (queue, s1) \<leftarrow> requeue_pod_with_queueing_strategy pq now s p1 hint SCHEDULE_ATTEMPT_FAILURE;
                      Some (Inr queue, s1) }));
           Some (result, unlocked_done s1 uid) })"

fun flush_moves :: "'o priority_queue \<Rightarrow> system_time \<Rightarrow> queued_pod_info list \<Rightarrow> 'o inner \<Rightarrow> 'o inner or_panic" where
  "flush_moves pq now [] s = Some s"
| "flush_moves pq now (p # ps) s =
     do { (_, s1) \<leftarrow> move_to_active_q pq now s p BACKOFF_COMPLETE True; flush_moves pq now ps s1 }"

definition flush_backoff_q_completed :: "'o priority_queue \<Rightarrow> system_time \<Rightarrow> 'o inner \<Rightarrow> 'o inner or_panic" where
  "flush_backoff_q_completed pq now s =
     do { (completed, b) \<leftarrow>
            pop_all_backoff_completed (pq_pod_initial_backoff pq) (pq_pod_max_backoff pq) now (in_backoff_q s);
          flush_moves pq now completed (s\<lparr>in_backoff_q := b\<rparr>) }"

definition flush_unschedulable_pods_leftover ::
  "'o priority_queue \<Rightarrow> system_time \<Rightarrow> string list \<Rightarrow> 'o inner \<Rightarrow> 'o inner or_panic" where
  "flush_unschedulable_pods_leftover pq now order s =
     (let pods_to_move =
        filter (\<lambda>p. qp_timestamp p \<le> now
                    \<and> nat (now - qp_timestamp p) > pq_pod_max_in_unschedulable_pods_duration pq)
          (up_values order (in_unschedulable_pods s))
      in if pods_to_move \<noteq> []
         then map_option snd
           (move_pods_to_active_or_backoff_queue pq now s pods_to_move EVENT_UNSCHEDULABLE_TIMEOUT None None)
         else Some s)"

datatype pop_answer = Popped queued_pod_info | PopAgain | PopClosed | PopWaits

definition sq_pop :: "'o inner \<Rightarrow> (pop_answer \<times> 'o inner) or_panic" where
  "sq_pop s =
     (if \<not> heap_is_empty (in_active_q s) \<or> len_backoff (in_backoff_q s) \<noteq> 0
      then do { (r, s1) \<leftarrow> unlocked_pop s;
                Some (case r of Some p \<Rightarrow> Popped p | None \<Rightarrow> PopAgain, s1) }
      else if in_closed s then Some (PopClosed, s)
      else Some (PopWaits, s))"

definition sq_done :: "'o inner \<Rightarrow> string \<Rightarrow> 'o inner" where
  "sq_done s uid = unlocked_done s uid"

definition sq_close :: "string list \<Rightarrow> 'o inner \<Rightarrow> 'o inner" where
  "sq_close uids s = (fold (\<lambda>uid s. unlocked_done s uid) uids s)\<lparr>in_closed := True\<rparr>"

text \<open>The loop of \<open>update\<close> over the events of a pod in the pool of unschedulable pods.\<close>

fun update_unschedulable ::
  "'o priority_queue \<Rightarrow> system_time \<Rightarrow> pod option \<Rightarrow> pod \<Rightarrow> cluster_event list \<Rightarrow> 'o inner \<Rightarrow> 'o inner or_panic" where
  "update_unschedulable pq now old_pod new_pod [] s = Some s"
| "update_unschedulable pq now old_pod new_pod (evt # evts) s =
     (case up_get (in_unschedulable_pods s) new_pod of
        None \<Rightarrow> Some s
      | Some p \<Rightarrow>
          (let hint = is_pod_worth_requeuing pq p evt (map_option ObjPod old_pod) (Some (ObjPod new_pod));
               s1 = (if hint \<noteq> QueueSkip
                     then s\<lparr>in_unschedulable_pods := snd (up_delete (in_unschedulable_pods s) new_pod)\<rparr> else s)
           in do { (queue, s2) \<leftarrow> requeue_pod_with_queueing_strategy pq now s1 p hint (event_label evt);
                   if queue \<in> {ActiveQ, BackoffQ} then Some s2
                   else update_unschedulable pq now old_pod new_pod evts s2 }))"

definition sq_update ::
  "'o priority_queue \<Rightarrow> system_time \<Rightarrow> pod option \<Rightarrow> pod \<Rightarrow> 'o inner \<Rightarrow> 'o inner or_panic" where
  "sq_update pq now old_pod new_pod s =
     (let events = (case old_pod of
                      Some old \<Rightarrow> pod_scheduling_properties_change (pq_pod_requests pq) new_pod old | None \<Rightarrow> []);
          (in_flight, s1) = add_events_if_pod_in_flight s old_pod new_pod events
      in if in_flight then Some s1
         else
           (case (case old_pod of None \<Rightarrow> None | Some _ \<Rightarrow> heap_update_pod (in_active_q s1) new_pod) of
              Some r \<Rightarrow>
                do { a \<leftarrow> r;
                     Some (s1\<lparr>in_active_q := a,
                              in_nominator := update_nominated_pod (in_nominator s1) (the old_pod) new_pod\<rparr>) }
            | None \<Rightarrow>
                do { (updated, b) \<leftarrow>
                       (case old_pod of None \<Rightarrow> Some (False, in_backoff_q s1) | Some _ \<Rightarrow> backoff_update (in_backoff_q s1) new_pod);
                     if updated
                     then Some (s1\<lparr>in_backoff_q := b,
                                   in_nominator := update_nominated_pod (in_nominator s1) (the old_pod) new_pod\<rparr>)
                     else
                       (case up_delete (in_unschedulable_pods s1) new_pod of
                          (Some p, u) \<Rightarrow>
                            update_unschedulable pq now old_pod new_pod events
                              (s1\<lparr>in_nominator := update_nominated_pod (in_nominator s1)
                                    (case old_pod of Some old \<Rightarrow> old | None \<Rightarrow> new_pod) new_pod,
                                  in_unschedulable_pods := up_add_or_update u (qp_update p new_pod)\<rparr>)
                        | (None, u) \<Rightarrow>
                            map_option snd
                              (move_to_active_q pq now s1 (new_queued_pod_info now new_pod)
                                 (event_label EVENT_UNSCHEDULED_POD_UPDATE) False)) }))"

definition sq_add_nominated_pod :: "pod \<Rightarrow> nominating_info option \<Rightarrow> 'o inner \<Rightarrow> 'o inner" where
  "sq_add_nominated_pod p info s = s\<lparr>in_nominator := add_nominated_pod (in_nominator s) p info\<rparr>"

definition delete_nominated_pod_if_exists :: "pod \<Rightarrow> 'o inner \<Rightarrow> 'o inner" where
  "delete_nominated_pod_if_exists p s = s\<lparr>in_nominator := nominator_delete (in_nominator s) p\<rparr>"

definition sq_delete :: "pod \<Rightarrow> 'o inner \<Rightarrow> 'o inner or_panic" where
  "sq_delete p s =
     (let s1 = s\<lparr>in_nominator := nominator_delete (in_nominator s) p\<rparr>; lookup = qp_for_lookup p {} in
      do { (r, a) \<leftarrow> heap_delete (in_active_q s1) lookup;
           let s2 = s1\<lparr>in_active_q := a\<rparr>;
           (case r of
              Inr _ \<Rightarrow> Some s2
            | Inl _ \<Rightarrow>
                do { (deleted, b) \<leftarrow> backoff_delete (in_backoff_q s2) lookup;
                     let s3 = s2\<lparr>in_backoff_q := b\<rparr>;
                     if deleted then Some s3
                     else Some (s3\<lparr>in_unschedulable_pods := snd (up_delete (in_unschedulable_pods s3) p)\<rparr>) }) })"

definition move_all_to_active_or_backoff_queue ::
  "'o priority_queue \<Rightarrow> system_time \<Rightarrow> string list \<Rightarrow> cluster_event \<Rightarrow> 'o event_object option \<Rightarrow> 'o event_object option \<Rightarrow>
   (pod \<Rightarrow> bool) option \<Rightarrow> 'o inner \<Rightarrow> 'o inner or_panic" where
  "move_all_to_active_or_backoff_queue pq now order event old_obj new_obj pre_check s =
     (if \<not> is_event_of_interest pq event then Some s
      else
        (let pods = filter (\<lambda>p. case pre_check of None \<Rightarrow> True | Some check \<Rightarrow> check (qp_pod p))
                      (up_values order (in_unschedulable_pods s))
         in map_option snd (move_pods_to_active_or_backoff_queue pq now s pods event old_obj new_obj)))"

text \<open>Reading the queue.\<close>

definition nominated_pod_to_info :: "'o inner \<Rightarrow> pod_ref \<Rightarrow> pod" where
  "nominated_pod_to_info s np =
     (let key = pr_namespace np @ ''/'' @ pr_name np in
      case heap_get_by_key (in_active_q s) key of
        Some p \<Rightarrow> qp_pod p
      | None \<Rightarrow>
          (case in_unschedulable_pods s key of
             Some p \<Rightarrow> qp_pod p
           | None \<Rightarrow>
               (case backoff_get_by_key (in_backoff_q s) key of
                  Some p \<Rightarrow> qp_pod p
                | None \<Rightarrow>
                    \<lparr>po_metadata = \<lparr>om_name = pr_name np, om_namespace = Some (pr_namespace np), om_uid = pr_uid np, om_labels = None\<rparr>,
                     po_spec = None, po_status = None\<rparr>)))"

definition sq_nominated_pods_for_node :: "'o inner \<Rightarrow> string \<Rightarrow> pod list" where
  "sq_nominated_pods_for_node s node = map (nominated_pod_to_info s) (nominated_pods_for_node (in_nominator s) node)"

definition sq_get_pod :: "'o inner \<Rightarrow> string \<Rightarrow> string \<Rightarrow> queued_pod_info option" where
  "sq_get_pod s name namespace =
     (let key = namespace @ ''/'' @ name in
      case heap_get_by_key (in_active_q s) key of
        Some p \<Rightarrow> Some p
      | None \<Rightarrow>
          (case backoff_get_by_key (in_backoff_q s) key of
             Some p \<Rightarrow> Some p
           | None \<Rightarrow> in_unschedulable_pods s key))"

definition sq_in_flight_pods :: "'o inner \<Rightarrow> pod list" where
  "sq_in_flight_pods s =
     List.map_filter (\<lambda>e. case e of EntryPod _ p \<Rightarrow> Some p | EntryEvent _ _ \<Rightarrow> None) (in_in_flight_events s)"

end
