(* ===== verification/QueueInvariants.thy ===== *)
theory QueueInvariants
  imports SchedulingQueue
begin

text \<open>
  The scheduling queue seen as four maps from pod keys to entries (activeQ, the two backoff heaps, the pool
  of unschedulable pods) and the list of entries in flight. What every operation of \<open>SchedulingQueue\<close> does to
  them is shown here, once per operation: no heap access panics, a pod is in at most one of the four maps,
  the entries of the heaps are not gated, and the list in flight has one entry per pod in flight, with the
  events recorded since it was popped behind it.

  The heaps are used through the locale of keyed queues only: \<open>pod_heap\<close> adds what the queue needs of an
  ordered heap of entries, \<open>backoff_heap\<close> what it needs of one ordered by backoff time.
\<close>

section \<open>The heaps of queue entries\<close>

locale pod_heap = ordered_heap prec qp_key
  for prec :: "queued_pod_info \<Rightarrow> queued_pod_info \<Rightarrow> bool"
begin

lemma ok_key: "heap_ok h \<Longrightarrow> heap_get_by_key h k = Some p \<Longrightarrow> qp_key p = k"
  by (auto simp: heap_ok_def heap_inv_def heap_wf_def heap_get_by_key_def)

lemma has_ok: "heap_ok h \<Longrightarrow> heap_has h p \<longleftrightarrow> heap_get_by_key h (qp_key p) \<noteq> None"
  by (simp add: heap_ok_def heap_has_def heap_has_key_def heap_get_by_key_def)

lemma len_ok: "heap_ok h \<Longrightarrow> heap_len h = 0 \<longleftrightarrow> heap_get_by_key h = Map.empty"
  using heap_ok_empty [of h] by (simp add: heap_is_empty_def heap_len_def)

lemma delete_key_ok:
  assumes "heap_ok h"
  shows "\<exists>r h'. heap_delete_by_key h k = Some (r, h') \<and> heap_ok h' \<and> heap_get_by_key h' = (heap_get_by_key h)(k := None)
    \<and> (case heap_get_by_key h k of Some x \<Rightarrow> r = Inr x | None \<Rightarrow> \<exists>e. r = Inl e)"
proof (cases "heap_get_by_key h k")
  case None
  then show ?thesis using hq.del_missing_law [OF assms None] assms by (auto simp: fun_upd_idem)
next
  case (Some x)
  then show ?thesis using hq.del_law [OF assms Some] by auto
qed

lemma delete_ok:
  assumes "heap_ok h"
  shows "\<exists>r h'. heap_delete h p = Some (r, h') \<and> heap_ok h' \<and> heap_get_by_key h' = (heap_get_by_key h)(qp_key p := None)
    \<and> (case heap_get_by_key h (qp_key p) of Some x \<Rightarrow> r = Inr x | None \<Rightarrow> \<exists>e. r = Inl e)"
  using delete_key_ok [OF assms, of "qp_key p"] assms by (simp add: heap_delete_def heap_ok_def)

text \<open>Writing through the mutable reference before \<open>add_or_update\<close> leaves nothing else behind.\<close>

lemma update_pod_ok:
  assumes ok: "heap_ok h" and p: "heap_get_by_key h (queue_pod_key q) = Some p"
  shows "\<exists>h'. heap_update_pod h q = Some (Some h') \<and> heap_ok h' \<and>
    heap_get_by_key h' = (heap_get_by_key h)(queue_pod_key q \<mapsto> qp_update p q)"
proof -
  have key: "qp_key (qp_update p q) = queue_pod_key q" by (simp add: qp_key_def qp_update_def)
  have "heap_add_or_update (heap_get_mut_by_key h (queue_pod_key q) (\<lambda>p. qp_update p q)) (qp_update p q)
      = heap_add_or_update h (qp_update p q)"
    using ok p key
    by (auto simp: heap_add_or_update_def heap_get_mut_by_key_def heap_get_by_key_def heap_ok_def Let_def)
  then show ?thesis using hq.push_law [OF ok, of "qp_update p q"] p key by (simp add: heap_update_pod_def Let_def)
qed

lemma update_pod_missing: "heap_get_by_key h (queue_pod_key q) = None \<Longrightarrow> heap_update_pod h q = None"
  by (simp add: heap_update_pod_def Let_def)

end

text \<open>A heap whose order starts with the backoff time: popping the completed entries ends, and leaves none.\<close>

locale backoff_heap = pod_heap prec
  for prec :: "queued_pod_info \<Rightarrow> queued_pod_info \<Rightarrow> bool" +
  fixes initial :: duration and mx :: duration
  assumes earliest_first: "\<not> prec y x \<Longrightarrow> backoff_time initial mx x \<le> backoff_time initial mx y"
begin

lemma peek_pop:
  assumes "heap_ok h" and "heap_get_by_key h \<noteq> Map.empty"
  shows "\<exists>x h'. heap_peek h = Some x \<and> heap_pop h = Some (Inr x, h') \<and> heap_ok h' \<and>
    heap_get_by_key h (qp_key x) = Some x \<and> heap_get_by_key h' = (heap_get_by_key h)(qp_key x := None) \<and>
    (\<forall>y\<in>ran (heap_get_by_key h). backoff_time initial mx x \<le> backoff_time initial mx y)"
proof -
  have inv: "heap_inv h" "heap_wf h" "hp_less_fn h = prec" "hp_key_fn h = qp_key"
    using assms(1) by (simp_all add: heap_ok_def heap_inv_def)
  have "\<not> heap_is_empty h" using assms heap_ok_empty by simp
  then obtain x h' where "heap_peek h = Some x" "heap_pop h = Some (Inr x, h')"
    using heap_pop_post [OF inv(2)] inv by auto
  then show ?thesis using hq.pop_law [OF assms] earliest_first by auto
qed

lemma pop_completed_ok:
  assumes "heap_ok h"
  shows "\<exists>ps h'. pop_completed initial mx w h = Some (ps, h') \<and> heap_ok h' \<and>
    heap_get_by_key h' = heap_get_by_key h |` (- qp_key ` set ps) \<and>
    set ps = {p \<in> ran (heap_get_by_key h). backoff_time initial mx p < w}"
  using assms
proof (induction "card (dom (heap_get_by_key h))" arbitrary: h rule: less_induct)
  case less
  show ?case
  proof (cases "heap_get_by_key h = Map.empty")
    case True
    then have "heap_peek h = None"
      using heap_ok_empty [OF less.prems] by (simp add: heap_peek_def heap_is_empty_def)
    then show ?thesis using less.prems True by (subst pop_completed.simps) simp
  next
    case False
    obtain x h1 where x: "heap_peek h = Some x" "heap_pop h = Some (Inr x, h1)" "heap_ok h1"
        "heap_get_by_key h (qp_key x) = Some x" "heap_get_by_key h1 = (heap_get_by_key h)(qp_key x := None)"
        "\<forall>y\<in>ran (heap_get_by_key h). backoff_time initial mx x \<le> backoff_time initial mx y"
      using peek_pop [OF less.prems False] by blast
    show ?thesis
    proof (cases "backoff_time initial mx x \<ge> w")
      case True
      then have "{p \<in> ran (heap_get_by_key h). backoff_time initial mx p < w} = {}" using x(6) by force
      moreover have "heap_get_by_key h |` (- qp_key ` set []) = heap_get_by_key h" by (simp add: restrict_map_def)
      ultimately show ?thesis using True x(1) less.prems by (subst pop_completed.simps) auto
    next
      case lt: False
      have "finite (dom (heap_get_by_key h))" by (rule hq.finite_contents [OF less.prems])
      moreover have "dom (heap_get_by_key h1) = dom (heap_get_by_key h) - {qp_key x}" using x(5) by auto
      ultimately have "card (dom (heap_get_by_key h1)) < card (dom (heap_get_by_key h))"
        using x(4) by (metis card_Diff1_less domI)
      then obtain ps h2 where ps: "pop_completed initial mx w h1 = Some (ps, h2)" "heap_ok h2"
          "heap_get_by_key h2 = heap_get_by_key h1 |` (- qp_key ` set ps)"
          "set ps = {p \<in> ran (heap_get_by_key h1). backoff_time initial mx p < w}"
        using less.hyps x(3) by blast
      have "pop_completed initial mx w h = Some (x # ps, h2)"
        using x(1,2) lt ps(1) by (subst pop_completed.simps) simp
      moreover have "heap_get_by_key h2 = heap_get_by_key h |` (- qp_key ` set (x # ps))"
        using ps(3) x(5) by (auto simp: restrict_map_def fun_eq_iff)
      moreover have "ran (heap_get_by_key h) = insert x (ran (heap_get_by_key h1))"
      proof -
        have "heap_get_by_key h = (heap_get_by_key h1)(qp_key x \<mapsto> x)" using x(4,5) by (simp add: fun_upd_idem)
        moreover have "heap_get_by_key h1 (qp_key x) = None" using x(5) by simp
        ultimately show ?thesis by (metis ran_map_upd)
      qed
      then have "set (x # ps) = {p \<in> ran (heap_get_by_key h). backoff_time initial mx p < w}"
        using ps(4) lt by auto
      ultimately show ?thesis using ps(2) by blast
    qed
  qed
qed

end

interpretation active_heap: pod_heap priority_sort_less
  by unfold_locales

interpretation normal_heap: backoff_heap "less_backoff_with_priority init mx" init mx
  for init mx
  by unfold_locales (auto simp: less_backoff_with_priority_def Let_def split: if_splits)

interpretation error_heap: backoff_heap "less_backoff_completed init mx" init mx
  for init mx
  by unfold_locales (auto simp: less_backoff_completed_def)


section \<open>The backoff queue as two maps\<close>

abbreviation bq_map :: "backoff_queue \<Rightarrow> string \<rightharpoonup> queued_pod_info" where
  "bq_map q \<equiv> heap_get_by_key (bq_pod_backoff_q q)"

abbreviation eq_map :: "backoff_queue \<Rightarrow> string \<rightharpoonup> queued_pod_info" where
  "eq_map q \<equiv> heap_get_by_key (bq_pod_error_backoff_q q)"

definition backoff_ok :: "'o priority_queue \<Rightarrow> backoff_queue \<Rightarrow> bool" where
  "backoff_ok pq q \<longleftrightarrow>
     ordered_heap.heap_ok (less_backoff_with_priority (pq_pod_initial_backoff pq) (pq_pod_max_backoff pq)) qp_key (bq_pod_backoff_q q)
     \<and> ordered_heap.heap_ok (less_backoff_completed (pq_pod_initial_backoff pq) (pq_pod_max_backoff pq)) qp_key (bq_pod_error_backoff_q q)
     \<and> dom (bq_map q) \<inter> dom (eq_map q) = {}"

lemma backoff_okD:
  assumes "backoff_ok pq q"
  shows "ordered_heap.heap_ok (less_backoff_with_priority (pq_pod_initial_backoff pq) (pq_pod_max_backoff pq)) qp_key (bq_pod_backoff_q q)"
    "ordered_heap.heap_ok (less_backoff_completed (pq_pod_initial_backoff pq) (pq_pod_max_backoff pq)) qp_key (bq_pod_error_backoff_q q)"
    "bq_map q k = Some x \<Longrightarrow> eq_map q k = None" "eq_map q k = Some x \<Longrightarrow> bq_map q k = None"
  using assms by (auto simp: backoff_ok_def)

lemma backoff_has_ok:
  assumes "backoff_ok pq q"
  shows "backoff_has q p \<longleftrightarrow> bq_map q (qp_key p) \<noteq> None \<or> eq_map q (qp_key p) \<noteq> None"
  using normal_heap.has_ok [OF backoff_okD(1) [OF assms]] error_heap.has_ok [OF backoff_okD(2) [OF assms]]
  by (simp add: backoff_has_def)

lemma backoff_key:
  assumes "backoff_ok pq q"
  shows "bq_map q k = Some p \<Longrightarrow> qp_key p = k" "eq_map q k = Some p \<Longrightarrow> qp_key p = k"
  using normal_heap.ok_key [OF backoff_okD(1) [OF assms]] error_heap.ok_key [OF backoff_okD(2) [OF assms]] by auto

lemma backoff_take_ok:
  assumes ok: "backoff_ok pq q"
  shows "\<exists>q'. backoff_take q p =
      Some (case bq_map q (qp_key p) of Some x \<Rightarrow> Some x | None \<Rightarrow> eq_map q (qp_key p), q')
    \<and> backoff_ok pq q' \<and> bq_map q' = (bq_map q)(qp_key p := None) \<and> eq_map q' = (eq_map q)(qp_key p := None)"
proof -
  let ?k = "qp_key p"
  obtain r b where b: "heap_delete (bq_pod_backoff_q q) p = Some (r, b)"
      "ordered_heap.heap_ok (less_backoff_with_priority (pq_pod_initial_backoff pq) (pq_pod_max_backoff pq)) qp_key b"
      "heap_get_by_key b = (bq_map q)(?k := None)" "case bq_map q ?k of Some x \<Rightarrow> r = Inr x | None \<Rightarrow> \<exists>e. r = Inl e"
    using normal_heap.delete_ok [OF backoff_okD(1) [OF ok]] by blast
  obtain r' e where e: "heap_delete (bq_pod_error_backoff_q q) p = Some (r', e)"
      "ordered_heap.heap_ok (less_backoff_completed (pq_pod_initial_backoff pq) (pq_pod_max_backoff pq)) qp_key e"
      "heap_get_by_key e = (eq_map q)(?k := None)" "case eq_map q ?k of Some x \<Rightarrow> r' = Inr x | None \<Rightarrow> \<exists>e. r' = Inl e"
    using error_heap.delete_ok [OF backoff_okD(2) [OF ok]] by blast
  have disj: "dom (heap_get_by_key b) \<inter> dom (heap_get_by_key e) = {}" "dom (heap_get_by_key b) \<inter> dom (eq_map q) = {}"
    using ok b(3) e(3) by (auto simp: backoff_ok_def)
  show ?thesis
  proof (cases "bq_map q ?k")
    case None
    then show ?thesis using b e disj by (cases "eq_map q ?k") (auto simp: backoff_take_def backoff_ok_def)
  next
    case (Some x)
    then have "(eq_map q)(?k := None) = eq_map q" using backoff_okD(3) [OF ok] by (simp add: fun_upd_idem)
    then show ?thesis using Some b disj backoff_okD(2) [OF ok] by (auto simp: backoff_take_def backoff_ok_def)
  qed
qed

lemma backoff_delete_take:
  "backoff_delete q p = map_option (\<lambda>(r, q'). (r \<noteq> None, q')) (backoff_take q p)"
  by (auto simp: backoff_delete_def backoff_take_def split: option.splits sum.splits bind_splits)

lemma backoff_delete_ok:
  assumes ok: "backoff_ok pq q"
  shows "\<exists>q'. backoff_delete q p = Some (bq_map q (qp_key p) \<noteq> None \<or> eq_map q (qp_key p) \<noteq> None, q')
    \<and> backoff_ok pq q' \<and> bq_map q' = (bq_map q)(qp_key p := None) \<and> eq_map q' = (eq_map q)(qp_key p := None)"
  using backoff_take_ok [OF ok, of p] by (auto simp: backoff_delete_take split: option.splits)

lemma backoff_add_ok:
  assumes ok: "backoff_ok pq q"
  shows "\<exists>q'. backoff_add q p = Some q' \<and> backoff_ok pq q'
    \<and> bq_map q' = (if is_error_pod p then (bq_map q)(qp_key p := None) else (bq_map q)(qp_key p \<mapsto> p))
    \<and> eq_map q' = (if is_error_pod p then (eq_map q)(qp_key p \<mapsto> p) else (eq_map q)(qp_key p := None))"
proof -
  let ?k = "qp_key p"
  have k: "queue_pod_key (qp_pod p) = ?k" by (simp add: qp_key_def)
  have disj: "dom (bq_map q) \<inter> dom (eq_map q) = {}" using ok by (simp add: backoff_ok_def)
  show ?thesis
  proof (cases "is_error_pod p")
    case True
    then show ?thesis
      using error_backoff_order.hq.push_law [OF backoff_okD(2) [OF ok], of p] normal_heap.delete_key_ok [OF backoff_okD(1) [OF ok], of ?k] disj
      by (fastforce simp: backoff_add_def backoff_ok_def k Let_def)
  next
    case False
    then show ?thesis
      using backoff_order.hq.push_law [OF backoff_okD(1) [OF ok], of p] error_heap.delete_key_ok [OF backoff_okD(2) [OF ok], of ?k] disj
      by (fastforce simp: backoff_add_def backoff_ok_def k Let_def)
  qed
qed

lemma backoff_update_ok:
  fixes new_pod
  assumes ok: "backoff_ok pq q"
  defines "k \<equiv> queue_pod_key new_pod"
  shows "\<exists>q'. backoff_update q new_pod = Some (bq_map q k \<noteq> None \<or> eq_map q k \<noteq> None, q') \<and> backoff_ok pq q'
    \<and> bq_map q' = (case bq_map q k of None \<Rightarrow> bq_map q | Some p \<Rightarrow> (bq_map q)(k \<mapsto> qp_update p new_pod))
    \<and> eq_map q' = (case eq_map q k of None \<Rightarrow> eq_map q | Some p \<Rightarrow> (eq_map q)(k \<mapsto> qp_update p new_pod))"
proof -
  note oks = backoff_okD(1) [OF ok] backoff_okD(2) [OF ok]
  have disj: "dom (bq_map q) \<inter> dom (eq_map q) = {}" using ok by (simp add: backoff_ok_def)
  consider p where "bq_map q k = Some p" "eq_map q k = None" | p where "eq_map q k = Some p" "bq_map q k = None"
    | "bq_map q k = None" "eq_map q k = None" using backoff_okD(3) [OF ok] by (cases "bq_map q k"; cases "eq_map q k") auto
  then show ?thesis
  proof cases
    case (1 p)
    then show ?thesis
      using normal_heap.update_pod_ok [OF oks(1), of new_pod p] disj oks(2)
      unfolding k_def by (fastforce simp: backoff_update_def backoff_ok_def)
  next
    case (2 p)
    then show ?thesis
      using error_heap.update_pod_ok [OF oks(2), of new_pod p] normal_heap.update_pod_missing disj oks(1)
      unfolding k_def by (fastforce simp: backoff_update_def backoff_ok_def)
  next
    case 3
    then show ?thesis
      using normal_heap.update_pod_missing [of "bq_pod_backoff_q q" new_pod]
        error_heap.update_pod_missing [of "bq_pod_error_backoff_q q" new_pod] ok
      unfolding k_def by (simp add: backoff_update_def)
  qed
qed

lemma pop_all_backoff_completed_ok:
  fixes now
  assumes ok: "backoff_ok pq q"
  defines "done \<equiv> \<lambda>p. backoff_time (pq_pod_initial_backoff pq) (pq_pod_max_backoff pq) p < align_to_window now"
  shows "\<exists>ps q'. pop_all_backoff_completed (pq_pod_initial_backoff pq) (pq_pod_max_backoff pq) now q = Some (ps, q')
    \<and> backoff_ok pq q' \<and> set ps = {p \<in> ran (bq_map q) \<union> ran (eq_map q). done p}
    \<and> bq_map q' = bq_map q |` (- qp_key ` set ps) \<and> eq_map q' = eq_map q |` (- qp_key ` set ps)"
proof -
  obtain ps b where b: "pop_completed (pq_pod_initial_backoff pq) (pq_pod_max_backoff pq) (align_to_window now) (bq_pod_backoff_q q) = Some (ps, b)"
      "ordered_heap.heap_ok (less_backoff_with_priority (pq_pod_initial_backoff pq) (pq_pod_max_backoff pq)) qp_key b"
      "heap_get_by_key b = bq_map q |` (- qp_key ` set ps)" "set ps = {p \<in> ran (bq_map q). done p}"
    using normal_heap.pop_completed_ok [OF backoff_okD(1) [OF ok], of "align_to_window now"] unfolding done_def by blast
  obtain es e where e: "pop_completed (pq_pod_initial_backoff pq) (pq_pod_max_backoff pq) (align_to_window now) (bq_pod_error_backoff_q q) = Some (es, e)"
      "ordered_heap.heap_ok (less_backoff_completed (pq_pod_initial_backoff pq) (pq_pod_max_backoff pq)) qp_key e"
      "heap_get_by_key e = eq_map q |` (- qp_key ` set es)" "set es = {p \<in> ran (eq_map q). done p}"
    using error_heap.pop_completed_ok [OF backoff_okD(2) [OF ok], of "align_to_window now"] unfolding done_def by blast
  have disj: "dom (bq_map q) \<inter> dom (eq_map q) = {}" using ok by (simp add: backoff_ok_def)
  have kp: "qp_key ` set ps \<subseteq> dom (bq_map q)" using b(4) backoff_key(1) [OF ok] by (auto simp: ran_def)
  have ke: "qp_key ` set es \<subseteq> dom (eq_map q)" using e(4) backoff_key(2) [OF ok] by (auto simp: ran_def)
  have "heap_get_by_key b = bq_map q |` (- qp_key ` set (ps @ es))"
    using b(3) ke disj by (auto simp: restrict_map_def fun_eq_iff domIff)
  moreover have "heap_get_by_key e = eq_map q |` (- qp_key ` set (ps @ es))"
    using e(3) kp disj by (auto simp: restrict_map_def fun_eq_iff domIff)
  moreover have "dom (heap_get_by_key b) \<inter> dom (heap_get_by_key e) = {}" using b(3) e(3) disj by auto
  ultimately show ?thesis
    using b e by (auto simp: pop_all_backoff_completed_def backoff_ok_def Let_def)
qed


section \<open>The queues as four maps\<close>

abbreviation act :: "'o inner \<Rightarrow> string \<rightharpoonup> queued_pod_info" where
  "act s \<equiv> heap_get_by_key (in_active_q s)"

abbreviation bko :: "'o inner \<Rightarrow> string \<rightharpoonup> queued_pod_info" where
  "bko s \<equiv> bq_map (in_backoff_q s)"

abbreviation err :: "'o inner \<Rightarrow> string \<rightharpoonup> queued_pod_info" where
  "err s \<equiv> eq_map (in_backoff_q s)"

abbreviation uns :: "'o inner \<Rightarrow> string \<rightharpoonup> queued_pod_info" where
  "uns s \<equiv> in_unschedulable_pods s"

definition queues_ok :: "'o priority_queue \<Rightarrow> 'o inner \<Rightarrow> bool" where
  "queues_ok pq s \<longleftrightarrow>
     ordered_heap.heap_ok priority_sort_less qp_key (in_active_q s) \<and> backoff_ok pq (in_backoff_q s)
     \<and> (\<forall>k. act s k \<noteq> None \<longrightarrow> bko s k = None \<and> err s k = None \<and> uns s k = None)
     \<and> (\<forall>k. uns s k \<noteq> None \<longrightarrow> bko s k = None \<and> err s k = None)
     \<and> (\<forall>k p. uns s k = Some p \<longrightarrow> qp_key p = k)
     \<and> (\<forall>k p. act s k = Some p \<or> bko s k = Some p \<or> err s k = Some p \<longrightarrow> \<not> qp_gated p)
     \<and> nominator_ok (in_nominator s)"

text \<open>The keys the queue holds, and the state that concerns the pods in flight.\<close>

definition placed :: "'o inner \<Rightarrow> string set" where
  "placed s = dom (act s) \<union> dom (bko s) \<union> dom (err s) \<union> dom (uns s)"

definition flight :: "'o inner \<Rightarrow> (string \<rightharpoonup> nat) \<times> 'o in_flight_entry list \<times> nat \<times> bool" where
  "flight s = (in_in_flight_pods s, in_in_flight_events s, in_next_seq s, in_closed s)"

text \<open>What a move of the pod under \<open>k\<close> does: the other pods stay where they are, \<open>k\<close> is held.\<close>

definition moved :: "'o priority_queue \<Rightarrow> string \<Rightarrow> 'o inner \<Rightarrow> 'o inner \<Rightarrow> bool" where
  "moved pq k s s' \<longleftrightarrow>
     queues_ok pq s' \<and> flight s' = flight s \<and> k \<in> placed s'
     \<and> (\<forall>k'. k' \<noteq> k \<longrightarrow> act s' k' = act s k' \<and> bko s' k' = bko s k' \<and> err s' k' = err s k' \<and> uns s' k' = uns s k')"

lemma moved_placed: "moved pq k s s' \<Longrightarrow> placed s' = insert k (placed s)"
  unfolding moved_def placed_def by (intro set_eqI) (auto simp: domIff)

lemma queues_okD:
  assumes "queues_ok pq s"
  shows "ordered_heap.heap_ok priority_sort_less qp_key (in_active_q s)" "backoff_ok pq (in_backoff_q s)"
    "act s k = Some p \<Longrightarrow> bko s k = None" "act s k = Some p \<Longrightarrow> err s k = None" "act s k = Some p \<Longrightarrow> uns s k = None"
    "uns s k = Some p \<Longrightarrow> bko s k = None" "uns s k = Some p \<Longrightarrow> err s k = None" "uns s k = Some p \<Longrightarrow> act s k = None"
    "uns s k = Some p \<Longrightarrow> qp_key p = k" "act s k = Some p \<Longrightarrow> qp_key p = k"
    "bko s k = Some p \<Longrightarrow> qp_key p = k" "err s k = Some p \<Longrightarrow> qp_key p = k"
    "act s k = Some p \<Longrightarrow> \<not> qp_gated p" "bko s k = Some p \<Longrightarrow> \<not> qp_gated p" "err s k = Some p \<Longrightarrow> \<not> qp_gated p"
    "bko s k = Some p \<Longrightarrow> uns s k = None" "err s k = Some p \<Longrightarrow> uns s k = None"
    "bko s k = Some p \<Longrightarrow> act s k = None" "err s k = Some p \<Longrightarrow> act s k = None"
proof -
  note h = assms [unfolded queues_ok_def]
  show "ordered_heap.heap_ok priority_sort_less qp_key (in_active_q s)" and b: "backoff_ok pq (in_backoff_q s)"
    using h by blast+
  then show "act s k = Some p \<Longrightarrow> qp_key p = k" using active_heap.ok_key by blast
  show "bko s k = Some p \<Longrightarrow> qp_key p = k" "err s k = Some p \<Longrightarrow> qp_key p = k" using backoff_key [OF b] by blast+
qed (use assms [unfolded queues_ok_def] in \<open>(force simp: )+\<close>)

lemma queue_key: "queue_pod_key (qp_pod p) = qp_key p"
  by (simp add: qp_key_def)

lemma pre_enqueue_plugin_pod [simp]: "qp_pod (snd (run_pre_enqueue_plugin pq pl p)) = qp_pod p"
  by (auto simp: run_pre_enqueue_plugin_def split: sum.splits)

lemma plugin_list_pod [simp]: "qp_pod (run_plugin_list pq g pls p) = qp_pod p"
  by (induction pls arbitrary: p) (auto simp: run_pre_enqueue_plugin_def split: sum.splits)

lemma pre_enqueue_pod [simp]: "qp_pod (run_pre_enqueue_plugins pq p) = qp_pod p"
  by (auto simp: run_pre_enqueue_plugins_def run_pre_enqueue_plugin_def Let_def split: option.splits sum.splits)

lemma pre_enqueue_key [simp]: "qp_key (run_pre_enqueue_plugins pq p) = qp_key p"
  by (simp add: qp_key_def)

definition enqueue_info :: "'o priority_queue \<Rightarrow> bool \<Rightarrow> queued_pod_info \<Rightarrow> queued_pod_info" where
  "enqueue_info pq from p = (if from then p else run_pre_enqueue_plugins pq p)"

lemma enqueue_info_key [simp]: "qp_key (enqueue_info pq from p) = qp_key p" "qp_pod (enqueue_info pq from p) = qp_pod p"
  by (simp_all add: enqueue_info_def)

lemma move_to_active_q_ok:
  assumes ok: "queues_ok pq s"
  shows "\<exists>s'. move_to_active_q pq now s p event from = Some (\<not> qp_gated (enqueue_info pq from p), s')
    \<and> moved pq (qp_key p) s s'
    \<and> (if qp_gated (enqueue_info pq from p)
       then act s' = act s \<and> bko s' = bko s \<and> err s' = err s \<and> (qp_key p \<in> placed s \<longrightarrow> s' = s)
       else (\<exists>p'. act s' (qp_key p) = Some p' \<and> qp_pod p' = qp_pod p) \<and> uns s' = (uns s)(qp_key p := None))"
proof -
  let ?p1 = "enqueue_info pq from p" and ?k = "qp_key p"
  have mta: "move_to_active_q pq now s p event from = move_to_active_q pq now s ?p1 event True"
    by (simp add: move_to_active_q_def enqueue_info_def)
  have kp: "queue_pod_key (qp_pod p) = ?k" by (rule queue_key)
  show ?thesis
  proof (cases "qp_gated ?p1")
    case True
    have present: "(heap_has (in_active_q s) ?p1 \<or> backoff_has (in_backoff_q s) ?p1 \<or> uns s ?k \<noteq> None) \<longleftrightarrow> ?k \<in> placed s"
      using active_heap.has_ok [OF queues_okD(1) [OF ok], of ?p1] backoff_has_ok [OF queues_okD(2) [OF ok], of ?p1]
      by (auto simp: placed_def)
    show ?thesis
    proof (cases "?k \<in> placed s")
      case in_queue: True
      then show ?thesis
        using True present ok unfolding mta by (simp add: move_to_active_q_def up_get_def kp moved_def)
    next
      case False
      let ?s = "s\<lparr>in_unschedulable_pods := (uns s)(?k \<mapsto> ?p1)\<rparr>"
      have "queues_ok pq ?s" using ok False by (auto simp: queues_ok_def placed_def domIff)
      then have "moved pq ?k s ?s" by (auto simp: moved_def flight_def placed_def)
      then show ?thesis
        using True False present unfolding mta
        by (simp add: move_to_active_q_def up_get_def up_add_or_update_def kp)
    qed
  next
    case False
    define p2 where
      "p2 = (if qp_initial_attempt_timestamp ?p1 = None then ?p1\<lparr>qp_initial_attempt_timestamp := Some now\<rparr> else ?p1)"
    have p2: "qp_key p2 = ?k" "qp_pod p2 = qp_pod p" "\<not> qp_gated p2"
      using False enqueue_info_key by (auto simp: p2_def qp_key_def qp_gated_def)
    obtain r b where b: "backoff_delete (in_backoff_q s) p2 = Some (r, b)" "backoff_ok pq b"
        "bq_map b = (bko s)(?k := None)" "eq_map b = (err s)(?k := None)"
      using backoff_delete_ok [OF queues_okD(2) [OF ok], of p2] unfolding p2(1) by blast
    obtain a where a: "heap_add_or_update (in_active_q s) p2 = Some a"
        "ordered_heap.heap_ok priority_sort_less qp_key a" "heap_get_by_key a = (act s)(?k \<mapsto> p2)"
      using active_order.hq.push_law [OF queues_okD(1) [OF ok], of p2] unfolding p2(1) by blast
    define n where "n = (if event = event_label EVENT_UNSCHEDULED_POD_ADD \<or> event = event_label EVENT_UNSCHEDULED_POD_UPDATE
      then add_nominated_pod (in_nominator s) (qp_pod p2) None else in_nominator s)"
    let ?s = "s\<lparr>in_active_q := a, in_backoff_q := b, in_unschedulable_pods := (uns s)(?k := None), in_nominator := n\<rparr>"
    have "nominator_ok n" using ok by (simp add: n_def queues_ok_def nominator_ok_add)
    then have "queues_ok pq ?s" using ok a(2,3) b(2-4) p2(3) unfolding queues_ok_def by simp
    then have "moved pq ?k s ?s" using a(3) b(3,4) by (auto simp: moved_def flight_def placed_def)
    moreover have "move_to_active_q pq now s ?p1 event True = Some (True, ?s)"
      using False a(1) b(1) p2(2) unfolding move_to_active_q_def Let_def n_def if_True p2_def [symmetric]
      by (simp add: up_delete_def kp)
    ultimately show ?thesis using False a(3) p2(2) unfolding mta by simp
  qed
qed


lemma unschedulable_ok:
  assumes ok: "queues_ok pq s" and k: "act s (qp_key p) = None" "bko s (qp_key p) = None" "err s (qp_key p) = None"
  shows "moved pq (qp_key p) s (s\<lparr>in_unschedulable_pods := up_add_or_update (uns s) p\<rparr>)"
proof -
  have "queues_ok pq (s\<lparr>in_unschedulable_pods := up_add_or_update (uns s) p\<rparr>)"
    using ok k by (simp add: queues_ok_def up_add_or_update_def queue_key)
  then show ?thesis by (auto simp: moved_def flight_def placed_def up_add_or_update_def queue_key)
qed

lemma move_to_backoff_q_ok:
  assumes ok: "queues_ok pq s" and k: "act s (qp_key p) = None" "bko s (qp_key p) = None" "err s (qp_key p) = None"
  shows "\<exists>s'. move_to_backoff_q pq s p event = Some (\<not> qp_gated (run_pre_enqueue_plugins pq p), s')
    \<and> moved pq (qp_key p) s s' \<and> act s' = act s
    \<and> (if qp_gated (run_pre_enqueue_plugins pq p) then bko s' = bko s \<and> err s' = err s \<and> (uns s (qp_key p) \<noteq> None \<longrightarrow> s' = s)
       else (bko s' (qp_key p) \<noteq> None \<or> err s' (qp_key p) \<noteq> None) \<and> uns s' = (uns s)(qp_key p := None))"
proof -
  let ?p1 = "run_pre_enqueue_plugins pq p" and ?k = "qp_key p"
  have kp: "queue_pod_key (qp_pod p) = ?k" by (rule queue_key)
  show ?thesis
  proof (cases "qp_gated ?p1")
    case True
    show ?thesis
    proof (cases "uns s ?k")
      case None
      then show ?thesis
        using True unschedulable_ok [OF ok, of ?p1] k by (auto simp: move_to_backoff_q_def up_get_def kp)
    next
      case (Some x)
      then have "moved pq ?k s s" using ok by (auto simp: moved_def placed_def)
      then show ?thesis using True Some by (simp add: move_to_backoff_q_def up_get_def kp)
    qed
  next
    case False
    obtain b where b: "backoff_add (in_backoff_q s) ?p1 = Some b" "backoff_ok pq b"
        "bq_map b = (if is_error_pod ?p1 then (bko s)(?k := None) else (bko s)(?k \<mapsto> ?p1))"
        "eq_map b = (if is_error_pod ?p1 then (err s)(?k \<mapsto> ?p1) else (err s)(?k := None))"
      using backoff_add_ok [OF queues_okD(2) [OF ok], of ?p1] by auto
    let ?s = "s\<lparr>in_backoff_q := b, in_unschedulable_pods := (uns s)(?k := None)\<rparr>"
    have "queues_ok pq ?s" using ok b k(1) False unfolding queues_ok_def by (cases "is_error_pod ?p1") auto
    then have "moved pq ?k s ?s" using b by (auto simp: moved_def flight_def placed_def)
    then show ?thesis using False b by (auto simp: move_to_backoff_q_def up_delete_def kp)
  qed
qed

text \<open>A pod that is not in one of the heaps ends where the strategy says, or in the pool when it is gated.\<close>

lemma requeue_ok:
  assumes ok: "queues_ok pq s" and k: "act s (qp_key p) = None" "bko s (qp_key p) = None" "err s (qp_key p) = None"
  shows "\<exists>q s'. requeue_pod_with_queueing_strategy pq now s p strategy event = Some (q, s')
    \<and> moved pq (qp_key p) s s'
    \<and> (case q of ActiveQ \<Rightarrow> act s' (qp_key p) \<noteq> None | BackoffQ \<Rightarrow> bko s' (qp_key p) \<noteq> None \<or> err s' (qp_key p) \<noteq> None
       | UnschedulableQ \<Rightarrow> uns s' (qp_key p) \<noteq> None)
    \<and> (q = UnschedulableQ \<longleftrightarrow> strategy = QueueSkip \<or> qp_gated (run_pre_enqueue_plugins pq p))"
proof (cases "strategy = QueueSkip")
  case True
  then show ?thesis
    using unschedulable_ok [OF ok k] by (auto simp: requeue_pod_with_queueing_strategy_def up_add_or_update_def queue_key)
next
  case False
  have un: "uns s' (qp_key p) \<noteq> None"
    if "moved pq (qp_key p) s s'" "act s' = act s" "bko s' = bko s" "err s' = err s" for s'
    using that k by (auto simp: moved_def placed_def)
  obtain sb where sb: "move_to_backoff_q pq s p event = Some (\<not> qp_gated (run_pre_enqueue_plugins pq p), sb)"
    "moved pq (qp_key p) s sb" "act sb = act s"
    "if qp_gated (run_pre_enqueue_plugins pq p) then bko sb = bko s \<and> err sb = err s \<and> (uns s (qp_key p) \<noteq> None \<longrightarrow> sb = s)
     else (bko sb (qp_key p) \<noteq> None \<or> err sb (qp_key p) \<noteq> None) \<and> uns sb = (uns s)(qp_key p := None)"
    using move_to_backoff_q_ok [OF ok k] by blast
  obtain sa where sa: "move_to_active_q pq now s p event False = Some (\<not> qp_gated (run_pre_enqueue_plugins pq p), sa)"
    "moved pq (qp_key p) s sa"
    "if qp_gated (run_pre_enqueue_plugins pq p)
     then act sa = act s \<and> bko sa = bko s \<and> err sa = err s \<and> (qp_key p \<in> placed s \<longrightarrow> sa = s)
     else (\<exists>p'. act sa (qp_key p) = Some p' \<and> qp_pod p' = qp_pod p) \<and> uns sa = (uns s)(qp_key p := None)"
    using move_to_active_q_ok [OF ok, of now p event False] by (auto simp: enqueue_info_def)
  show ?thesis
    using False sa sb un [of sa] un [of sb]
    by (cases "qp_gated (run_pre_enqueue_plugins pq p)") (auto simp: requeue_pod_with_queueing_strategy_def)
qed

lemma queues_ok_delete: "queues_ok pq s \<Longrightarrow> queues_ok pq (s\<lparr>in_unschedulable_pods := (uns s)(k := None)\<rparr>)"
  by (simp add: queues_ok_def)

text \<open>The pods of a batch are still in the pool when their turn comes.\<close>

definition pooled :: "'o inner \<Rightarrow> queued_pod_info list \<Rightarrow> bool" where
  "pooled s ps \<longleftrightarrow> distinct (map qp_key ps) \<and> (\<forall>p\<in>set ps. uns s (qp_key p) = Some p)"

lemma requeue_pooled_ok:
  assumes ok: "queues_ok pq s" and p: "uns s (qp_key p) = Some p"
  defines "s1 \<equiv> s\<lparr>in_unschedulable_pods := snd (up_delete (uns s) (qp_pod p))\<rparr>"
  shows "\<exists>q s'. requeue_pod_with_queueing_strategy pq now s1 p strategy event = Some (q, s') \<and> moved pq (qp_key p) s s'
    \<and> (q = UnschedulableQ \<longleftrightarrow> strategy = QueueSkip \<or> qp_gated (run_pre_enqueue_plugins pq p))
    \<and> (q \<noteq> UnschedulableQ \<longrightarrow> uns s' (qp_key p) = None)"
proof -
  have s1: "s1 = s\<lparr>in_unschedulable_pods := (uns s)(qp_key p := None)\<rparr>" by (simp add: s1_def up_delete_def queue_key)
  have k: "act s1 (qp_key p) = None" "bko s1 (qp_key p) = None" "err s1 (qp_key p) = None"
    using queues_okD(6-8) [OF ok p] by (simp_all add: s1)
  have "queues_ok pq s1" using queues_ok_delete [OF ok] by (simp add: s1)
  from requeue_ok [OF this k] obtain q s' where r: "requeue_pod_with_queueing_strategy pq now s1 p strategy event = Some (q, s')"
    "moved pq (qp_key p) s1 s'" "q = UnschedulableQ \<longleftrightarrow> strategy = QueueSkip \<or> qp_gated (run_pre_enqueue_plugins pq p)"
    "case q of ActiveQ \<Rightarrow> act s' (qp_key p) \<noteq> None | BackoffQ \<Rightarrow> bko s' (qp_key p) \<noteq> None \<or> err s' (qp_key p) \<noteq> None
       | UnschedulableQ \<Rightarrow> uns s' (qp_key p) \<noteq> None" by blast
  have "moved pq (qp_key p) s s'" using r(2) by (simp add: moved_def s1 flight_def)
  moreover have "uns s' (qp_key p) = None" if "q \<noteq> UnschedulableQ"
  proof -
    have ok': "queues_ok pq s'" using r(2) by (simp add: moved_def)
    show ?thesis using r(4) that queues_okD(5,16,17) [OF ok', of "qp_key p"] by (cases q) auto
  qed
  ultimately show ?thesis using r by blast
qed

lemma move_pods_ok:
  "queues_ok pq s \<Longrightarrow> pooled s ps \<Longrightarrow>
   \<exists>b s'. move_pods pq now event old_obj new_obj ps activated s = Some (b, s') \<and> queues_ok pq s' \<and> flight s' = flight s
     \<and> placed s' = placed s
     \<and> (\<forall>k. k \<notin> qp_key ` set ps \<longrightarrow> act s' k = act s k \<and> bko s' k = bko s k \<and> err s' k = err s k \<and> uns s' k = uns s k)"
proof (induction ps arbitrary: activated s)
  case (Cons p ps)
  let ?hint = "is_pod_worth_requeuing pq p event old_obj new_obj"
  have p: "uns s (qp_key p) = Some p" and tl: "pooled s ps" "qp_key p \<notin> qp_key ` set ps"
    using Cons.prems(2) by (auto simp: pooled_def)
  show ?case
  proof (cases "qp_gated p \<and> \<not> cluster_event_is_wild_card event \<and> \<not> match_any_cluster_event event (qp_gating_plugin_events p)
      \<or> ?hint = QueueSkip")
    case True
    then show ?thesis using Cons.IH [OF Cons.prems(1) tl(1), of activated] by auto
  next
    case False
    obtain q s1 where r: "requeue_pod_with_queueing_strategy pq now
          (s\<lparr>in_unschedulable_pods := snd (up_delete (uns s) (qp_pod p))\<rparr>) p ?hint (event_label event) = Some (q, s1)"
        "moved pq (qp_key p) s s1"
      using requeue_pooled_ok [OF Cons.prems(1) p] by blast
    have "queues_ok pq s1" using r(2) by (simp add: moved_def)
    moreover have "pooled s1 ps" using tl r(2) by (auto simp: pooled_def moved_def image_iff)
    ultimately obtain b s2 where s2: "move_pods pq now event old_obj new_obj ps (activated \<or> q \<in> {ActiveQ, BackoffQ}) s1 = Some (b, s2)"
        "queues_ok pq s2" "flight s2 = flight s1" "placed s2 = placed s1"
        "\<forall>k. k \<notin> qp_key ` set ps \<longrightarrow> act s2 k = act s1 k \<and> bko s2 k = bko s1 k \<and> err s2 k = err s1 k \<and> uns s2 k = uns s1 k"
      using Cons.IH [of s1 "activated \<or> q \<in> {ActiveQ, BackoffQ}"] by blast
    have "placed s1 = placed s" using moved_placed [OF r(2)] p by (auto simp: placed_def)
    moreover have "move_pods pq now event old_obj new_obj (p # ps) activated s = Some (b, s2)"
      using False r(1) s2(1) by (auto simp add: Let_def)
    moreover have "act s2 k = act s k \<and> bko s2 k = bko s k \<and> err s2 k = err s k \<and> uns s2 k = uns s k"
      if "k \<notin> qp_key ` set (p # ps)" for k using that s2(5) r(2) by (simp add: moved_def)
    moreover have "flight s2 = flight s" using s2(3) r(2) by (simp add: moved_def)
    ultimately show ?thesis using s2(2,4) by auto
  qed
qed auto


lemma activate_one_ok:
  assumes ok: "queues_ok pq s"
  shows "\<exists>b s'. activate_one pq now s p = Some (b, s') \<and> queues_ok pq s' \<and> flight s' = flight s \<and> placed s' = placed s"
proof (cases "uns s (queue_pod_key p)")
  case (Some info)
  have k: "qp_key info = queue_pod_key p" using queues_okD(9) [OF ok Some] .
  have same: "s\<lparr>in_unschedulable_pods := up_add_or_update ((uns s)(queue_pod_key p := None)) info\<rparr> = s"
    using Some k by (simp add: up_add_or_update_def queue_key fun_upd_idem)
  obtain b s' where s': "move_to_active_q pq now s info FORCE_ACTIVATE False = Some (b, s')" "moved pq (qp_key info) s s'"
    using move_to_active_q_ok [OF ok] by blast
  have "placed s' = placed s" using moved_placed [OF s'(2)] Some k by (auto simp: placed_def)
  then show ?thesis using Some s' same by (auto simp: activate_one_def up_delete_def moved_def)
next
  case None
  have key: "qp_key (qp_for_lookup p {}) = queue_pod_key p" by (simp add: qp_key_def qp_for_lookup_def)
  obtain b where b: "backoff_take (in_backoff_q s) (qp_for_lookup p {}) =
        Some (case bko s (queue_pod_key p) of Some x \<Rightarrow> Some x | None \<Rightarrow> err s (queue_pod_key p), b)"
      "backoff_ok pq b" "bq_map b = (bko s)(queue_pod_key p := None)" "eq_map b = (err s)(queue_pod_key p := None)"
    using backoff_take_ok [OF queues_okD(2) [OF ok], of "qp_for_lookup p {}"] unfolding key by blast
  let ?s = "s\<lparr>in_unschedulable_pods := (uns s)(queue_pod_key p := None), in_backoff_q := b\<rparr>"
  have ok1: "queues_ok pq ?s" using ok b(2-4) by (simp add: queues_ok_def)
  show ?thesis
  proof (cases "case bko s (queue_pod_key p) of Some x \<Rightarrow> Some x | None \<Rightarrow> err s (queue_pod_key p)")
    case nowhere: None
    then have "placed ?s = placed s" using b(3,4) None by (auto simp: placed_def split: option.splits)
    then show ?thesis using None b(1) ok1 nowhere by (auto simp add: activate_one_def up_delete_def flight_def)
  next
    case (Some info)
    then have k: "qp_key info = queue_pod_key p" "queue_pod_key p \<in> placed s"
      using queues_okD(11,12) [OF ok] by (auto simp: placed_def split: option.splits)
    obtain c s' where s': "move_to_active_q pq now ?s info FORCE_ACTIVATE True = Some (c, s')" "moved pq (qp_key info) ?s s'"
      using move_to_active_q_ok [OF ok1] by blast
    have "placed s' = insert (queue_pod_key p) (placed ?s)" using moved_placed [OF s'(2)] k by simp
    also have "\<dots> = placed s" using b(3,4) k(2) by (auto simp: placed_def)
    finally show ?thesis using None Some b(1) s' by (auto simp: activate_one_def up_delete_def moved_def flight_def)
  qed
qed

lemma flush_moves_ok:
  "queues_ok pq s \<Longrightarrow>
   \<exists>s'. flush_moves pq now ps s = Some s' \<and> queues_ok pq s' \<and> flight s' = flight s \<and> placed s' = qp_key ` set ps \<union> placed s
     \<and> (list_all (\<lambda>p. \<not> qp_gated p) ps \<longrightarrow> qp_key ` set ps \<subseteq> dom (act s') \<and> dom (act s) \<subseteq> dom (act s') \<and>
         (\<forall>k. k \<notin> qp_key ` set ps \<longrightarrow> act s' k = act s k \<and> bko s' k = bko s k \<and> err s' k = err s k \<and> uns s' k = uns s k))"
proof (induction ps arbitrary: s)
  case (Cons p ps)
  obtain s1 where s1: "move_to_active_q pq now s p BACKOFF_COMPLETE True = Some (\<not> qp_gated (enqueue_info pq True p), s1)"
      "moved pq (qp_key p) s s1"
      "if qp_gated (enqueue_info pq True p)
       then act s1 = act s \<and> bko s1 = bko s \<and> err s1 = err s \<and> (qp_key p \<in> placed s \<longrightarrow> s1 = s)
       else (\<exists>p'. act s1 (qp_key p) = Some p' \<and> qp_pod p' = qp_pod p) \<and> uns s1 = (uns s)(qp_key p := None)"
    using move_to_active_q_ok [OF Cons.prems, of now p BACKOFF_COMPLETE True] by blast
  have "queues_ok pq s1" using s1(2) by (simp add: moved_def)
  from Cons.IH [OF this] obtain s2 where s2: "flush_moves pq now ps s1 = Some s2" "queues_ok pq s2" "flight s2 = flight s1"
      "placed s2 = qp_key ` set ps \<union> placed s1"
      "list_all (\<lambda>p. \<not> qp_gated p) ps \<longrightarrow> qp_key ` set ps \<subseteq> dom (act s2) \<and> dom (act s1) \<subseteq> dom (act s2) \<and>
         (\<forall>k. k \<notin> qp_key ` set ps \<longrightarrow> act s2 k = act s1 k \<and> bko s2 k = bko s1 k \<and> err s2 k = err s1 k \<and> uns s2 k = uns s1 k)"
    by blast
  have "flush_moves pq now (p # ps) s = Some s2" using s1(1) s2(1) by simp
  moreover have "flight s2 = flight s" using s2(3) s1(2) by (simp add: moved_def)
  moreover have "placed s2 = qp_key ` set (p # ps) \<union> placed s" using s2(4) moved_placed [OF s1(2)] by auto
  moreover have "qp_key ` set (p # ps) \<subseteq> dom (act s2) \<and> dom (act s) \<subseteq> dom (act s2) \<and>
         (\<forall>k. k \<notin> qp_key ` set (p # ps) \<longrightarrow> act s2 k = act s k \<and> bko s2 k = bko s k \<and> err s2 k = err s k \<and> uns s2 k = uns s k)"
    if l: "list_all (\<lambda>p. \<not> qp_gated p) (p # ps)"
  proof -
    have "act s1 (qp_key p) \<noteq> None" using s1(3) l by (auto simp add: enqueue_info_def)
    moreover have "dom (act s) \<subseteq> dom (act s1)"
    proof
      fix k
      assume "k \<in> dom (act s)"
      then show "k \<in> dom (act s1)" using calculation s1(2) by (cases "k = qp_key p") (auto simp: moved_def)
    qed
    moreover have "act s1 k = act s k \<and> bko s1 k = bko s k \<and> err s1 k = err s k \<and> uns s1 k = uns s k" if "k \<noteq> qp_key p" for k
      using s1(2) that by (simp add: moved_def)
    moreover have "qp_key ` set ps \<subseteq> dom (act s2)" "dom (act s1) \<subseteq> dom (act s2)" using s2(5) l by simp_all
    moreover have "k \<notin> qp_key ` set ps \<Longrightarrow>
        act s2 k = act s1 k \<and> bko s2 k = bko s1 k \<and> err s2 k = err s1 k \<and> uns s2 k = uns s1 k" for k
      using s2(5) l by simp
    ultimately show ?thesis by (simp add: domIff subset_iff)
  qed
  ultimately show ?case using s2(2) by blast
qed simp

lemma flush_backoff_ok:
  fixes now
  assumes ok: "queues_ok pq s"
  defines "due \<equiv> {k. \<exists>p. (bko s k = Some p \<or> err s k = Some p) \<and>
    backoff_time (pq_pod_initial_backoff pq) (pq_pod_max_backoff pq) p < align_to_window now}"
  shows "\<exists>s'. flush_backoff_q_completed pq now s = Some s' \<and> queues_ok pq s' \<and> flight s' = flight s \<and> placed s' = placed s
    \<and> due \<subseteq> dom (act s') \<and> (\<forall>k. k \<notin> due \<longrightarrow> act s' k = act s k \<and> bko s' k = bko s k \<and> err s' k = err s k \<and> uns s' k = uns s k)"
proof -
  obtain ps b where b: "pop_all_backoff_completed (pq_pod_initial_backoff pq) (pq_pod_max_backoff pq) now (in_backoff_q s) = Some (ps, b)"
      "backoff_ok pq b"
      "set ps = {p \<in> ran (bko s) \<union> ran (err s). backoff_time (pq_pod_initial_backoff pq) (pq_pod_max_backoff pq) p < align_to_window now}"
      "bq_map b = bko s |` (- qp_key ` set ps)" "eq_map b = err s |` (- qp_key ` set ps)"
    using pop_all_backoff_completed_ok [OF queues_okD(2) [OF ok], of now] by blast
  let ?s = "s\<lparr>in_backoff_q := b\<rparr>"
  have due: "qp_key ` set ps = due"
    unfolding due_def b(3) using queues_okD(11,12) [OF ok] by (fastforce simp: ran_def image_iff)
  have ng: "list_all (\<lambda>p. \<not> qp_gated p) ps"
    using b(3) queues_okD(14,15) [OF ok] by (auto simp: list_all_iff ran_def)
  have "queues_ok pq ?s" using ok b(2,4,5) by (simp add: queues_ok_def restrict_map_def)
  from flush_moves_ok [OF this] obtain s' where s': "flush_moves pq now ps ?s = Some s'" "queues_ok pq s'" "flight s' = flight ?s"
      "placed s' = qp_key ` set ps \<union> placed ?s" "qp_key ` set ps \<subseteq> dom (act s')"
      "\<forall>k. k \<notin> qp_key ` set ps \<longrightarrow> act s' k = act ?s k \<and> bko s' k = bko ?s k \<and> err s' k = err ?s k \<and> uns s' k = uns ?s k"
    using ng by blast
  have "placed s' = placed s"
    unfolding s'(4) due using b(4,5) unfolding due by (auto simp: placed_def due_def restrict_map_def split: if_splits)
  moreover have "act s' k = act s k \<and> bko s' k = bko s k \<and> err s' k = err s k \<and> uns s' k = uns s k" if "k \<notin> due" for k
    using s'(6) that b(4,5) unfolding due by simp
  ultimately show ?thesis
    using b(1) s' due by (auto simp: flush_backoff_q_completed_def flight_def)
qed


section \<open>Pods in flight and their events\<close>

definition flight_ok :: "'o inner \<Rightarrow> bool" where
  "flight_ok s \<longleftrightarrow>
     sorted_wrt (<) (map entry_seq (in_in_flight_events s))
     \<and> (\<forall>e\<in>set (in_in_flight_events s). entry_seq e < in_next_seq s)
     \<and> (\<forall>uid seq. in_in_flight_pods s uid = Some seq \<longleftrightarrow> (\<exists>p. EntryPod seq p \<in> set (in_in_flight_events s) \<and> pod_uid p = uid))
     \<and> (in_in_flight_events s \<noteq> [] \<longrightarrow> is_entry_pod (hd (in_in_flight_events s)))"

definition events_after :: "nat \<Rightarrow> 'o in_flight_entry list \<Rightarrow> 'o in_flight_event list" where
  "events_after seq es =
     List.map_filter (\<lambda>e. case e of EntryEvent _ ev \<Rightarrow> Some ev | EntryPod _ _ \<Rightarrow> None) (filter (\<lambda>e. entry_seq e > seq) es)"

lemma flight_ok_cong: "flight s' = flight s \<Longrightarrow> flight_ok s' = flight_ok s"
  by (simp add: flight_ok_def flight_def)

lemma events_after_simps [simp]:
  "events_after seq [] = []"
  "events_after seq (EntryEvent n ev # es) = (if seq < n then [ev] else []) @ events_after seq es"
  "events_after seq (EntryPod n p # es) = events_after seq es"
  "events_after seq (es @ es') = events_after seq es @ events_after seq es'"
  by (simp_all add: events_after_def List.map_filter_def)

lemma remove_first_distinct: "distinct (map f xs) \<Longrightarrow> remove_first (\<lambda>x. f x = v) xs = filter (\<lambda>x. f x \<noteq> v) xs"
proof (induction xs)
  case (Cons x xs)
  have "filter (\<lambda>y. f y \<noteq> f x) xs = xs" using Cons.prems by (intro filter_True) (metis distinct.simps(2) image_eqI list.set_map list.simps(9))
  then show ?case using Cons by auto
qed simp

lemma pods_dropWhile: "EntryPod n p \<in> set (dropWhile (\<lambda>e. \<not> is_entry_pod e) es) \<longleftrightarrow> EntryPod n p \<in> set es"
  by (induction es) auto

lemma events_dropWhile:
  "sorted_wrt (<) (map entry_seq es) \<Longrightarrow> EntryPod seq p \<in> set es \<Longrightarrow>
   events_after seq (dropWhile (\<lambda>e. \<not> is_entry_pod e) es) = events_after seq es"
proof (induction es)
  case (Cons e es)
  then show ?case by (cases e) auto
qed simp

lemma events_filter:
  "\<forall>e\<in>set es. entry_seq e = n \<longrightarrow> is_entry_pod e \<Longrightarrow>
   events_after seq (filter (\<lambda>e. entry_seq e \<noteq> n) es) = events_after seq es"
proof (induction es)
  case (Cons e es)
  then show ?case by (cases e) auto
qed simp

lemma sorted_wrt_suffix: "sorted_wrt P (xs @ ys) \<Longrightarrow> sorted_wrt P ys"
  by (simp add: sorted_wrt_append)

lemma flight_okD:
  assumes "flight_ok s"
  shows "sorted_wrt (<) (map entry_seq (in_in_flight_events s))" "distinct (map entry_seq (in_in_flight_events s))"
    "e \<in> set (in_in_flight_events s) \<Longrightarrow> entry_seq e < in_next_seq s"
    "in_in_flight_pods s uid = Some seq \<Longrightarrow> \<exists>p. EntryPod seq p \<in> set (in_in_flight_events s) \<and> pod_uid p = uid"
    "EntryPod seq p \<in> set (in_in_flight_events s) \<Longrightarrow> in_in_flight_pods s (pod_uid p) = Some seq"
  using assms by (auto simp: flight_ok_def strict_sorted_iff)

text \<open>An entry is determined by its sequence number.\<close>

lemma entry_unique:
  assumes "flight_ok s" "e \<in> set (in_in_flight_events s)" "e' \<in> set (in_in_flight_events s)" "entry_seq e = entry_seq e'"
  shows "e = e'"
  using flight_okD(2) [OF assms(1)] assms(2-4) by (auto simp: distinct_map inj_on_def)

lemma unlocked_done_ok:
  assumes ok: "flight_ok s"
  shows "flight_ok (unlocked_done s uid)"
    and "in_in_flight_pods (unlocked_done s uid) = (in_in_flight_pods s)(uid := None)"
    and "u \<noteq> uid \<Longrightarrow> in_in_flight_pods s u = Some n \<Longrightarrow>
      events_after n (in_in_flight_events (unlocked_done s uid)) = events_after n (in_in_flight_events s)"
proof -
  let ?es = "in_in_flight_events s"
  show pods: "in_in_flight_pods (unlocked_done s uid) = (in_in_flight_pods s)(uid := None)"
    by (cases "in_in_flight_pods s uid") (simp_all add: unlocked_done_def fun_upd_idem)
  have main: "flight_ok (unlocked_done s uid) \<and> (\<forall>u n. u \<noteq> uid \<longrightarrow> in_in_flight_pods s u = Some n \<longrightarrow>
      events_after n (in_in_flight_events (unlocked_done s uid)) = events_after n ?es)"
  proof (cases "in_in_flight_pods s uid")
    case None
    then show ?thesis using ok by (simp add: unlocked_done_def)
  next
    case (Some m)
    obtain p where p: "EntryPod m p \<in> set ?es" "pod_uid p = uid" using flight_okD(4) [OF ok Some] by blast
    define fs where "fs = filter (\<lambda>e. entry_seq e \<noteq> m) ?es"
    have es': "in_in_flight_events (unlocked_done s uid) = dropWhile (\<lambda>e. \<not> is_entry_pod e) fs"
      using Some remove_first_distinct [OF flight_okD(2) [OF ok], of m] by (simp add: unlocked_done_def fs_def)
    have fs: "sorted_wrt (<) (map entry_seq fs)"
      using flight_okD(1) [OF ok] by (simp add: fs_def sorted_wrt_map sorted_wrt_filter)
    have "map entry_seq fs = map entry_seq (takeWhile (\<lambda>e. \<not> is_entry_pod e) fs) @ map entry_seq (dropWhile (\<lambda>e. \<not> is_entry_pod e) fs)"
      by (metis map_append takeWhile_dropWhile_id)
    then have sorted: "sorted_wrt (<) (map entry_seq (dropWhile (\<lambda>e. \<not> is_entry_pod e) fs))"
      using fs sorted_wrt_suffix by metis
    have pm: "\<forall>e\<in>set ?es. entry_seq e = m \<longrightarrow> is_entry_pod e" using entry_unique [OF ok p(1)] by (metis in_flight_entry.sel(1) is_entry_pod.simps(1))
    have mem: "EntryPod n q \<in> set fs \<longleftrightarrow> EntryPod n q \<in> set ?es \<and> pod_uid q \<noteq> uid" for n q
    proof -
      have "n = m \<longleftrightarrow> pod_uid q = uid" if q: "EntryPod n q \<in> set ?es"
      proof
        assume "n = m"
        then have "EntryPod m p = EntryPod n q" using entry_unique [OF ok p(1) q] by simp
        then show "pod_uid q = uid" using p(2) by simp
      next
        assume "pod_uid q = uid"
        then show "n = m" using flight_okD(5) [OF ok q] Some by simp
      qed
      then show ?thesis by (auto simp: fs_def)
    qed
    have "(\<exists>q. EntryPod n q \<in> set (dropWhile (\<lambda>e. \<not> is_entry_pod e) fs) \<and> pod_uid q = u) \<longleftrightarrow>
        ((in_in_flight_pods s)(uid := None)) u = Some n" for u n
    proof -
      have "(\<exists>q. EntryPod n q \<in> set ?es \<and> pod_uid q = u) \<longleftrightarrow> in_in_flight_pods s u = Some n"
        using flight_okD(4,5) [OF ok] by blast
      then show ?thesis unfolding pods_dropWhile mem by auto
    qed
    moreover have "\<forall>e\<in>set (dropWhile (\<lambda>e. \<not> is_entry_pod e) fs). entry_seq e < in_next_seq (unlocked_done s uid)"
    proof
      fix e
      assume "e \<in> set (dropWhile (\<lambda>e. \<not> is_entry_pod e) fs)"
      then have "e \<in> set fs" by (rule set_dropWhileD)
      then have "e \<in> set ?es" by (simp add: fs_def)
      then show "entry_seq e < in_next_seq (unlocked_done s uid)"
        using flight_okD(3) [OF ok] Some by (simp add: unlocked_done_def)
    qed
    moreover have "dropWhile (\<lambda>e. \<not> is_entry_pod e) fs \<noteq> [] \<longrightarrow> is_entry_pod (hd (dropWhile (\<lambda>e. \<not> is_entry_pod e) fs))"
      using hd_dropWhile [of "\<lambda>e. \<not> is_entry_pod e" fs] by blast
    ultimately have "flight_ok (unlocked_done s uid)" unfolding flight_ok_def es' pods using sorted by auto
    moreover have "events_after n (dropWhile (\<lambda>e. \<not> is_entry_pod e) fs) = events_after n ?es"
      if u: "u \<noteq> uid" "in_in_flight_pods s u = Some n" for u n
    proof -
      obtain q where q: "EntryPod n q \<in> set fs" using flight_okD(4) [OF ok u(2)] u(1) mem by blast
      show ?thesis using events_dropWhile [OF fs q] events_filter [OF pm, of n] unfolding fs_def by simp
    qed
    ultimately show ?thesis unfolding es' by blast
  qed
  then show "flight_ok (unlocked_done s uid)" by blast
  show "u \<noteq> uid \<Longrightarrow> in_in_flight_pods s u = Some n \<Longrightarrow>
      events_after n (in_in_flight_events (unlocked_done s uid)) = events_after n ?es" using main by blast
qed

lemma push_event_ok:
  assumes ok: "flight_ok s" and "in_in_flight_pods s \<noteq> Map.empty"
  shows "flight_ok (push_event s ev)" "in_in_flight_pods (push_event s ev) = in_in_flight_pods s"
    "in_in_flight_pods s u = Some n \<Longrightarrow>
     events_after n (in_in_flight_events (push_event s ev)) = events_after n (in_in_flight_events s) @ [ev]"
proof -
  obtain uid m where "in_in_flight_pods s uid = Some m" using assms(2) by fastforce
  then have "in_in_flight_events s \<noteq> []" using flight_okD(4) [OF ok] by fastforce
  then show "flight_ok (push_event s ev)"
    using ok by (fastforce simp: flight_ok_def push_event_def sorted_wrt_append)
  show "in_in_flight_pods (push_event s ev) = in_in_flight_pods s" by (simp add: push_event_def)
  show "in_in_flight_pods s u = Some n \<Longrightarrow>
     events_after n (in_in_flight_events (push_event s ev)) = events_after n (in_in_flight_events s) @ [ev]"
    using flight_okD(3,4) [OF ok] by (fastforce simp: push_event_def)
qed


section \<open>Popping\<close>


lemma next_entry_ok:
  assumes ok: "queues_ok pq s"
  shows "(next_entry s = Some (None, s) \<and> act s = Map.empty \<and> bko s = Map.empty) \<or>
    (\<exists>p s1. next_entry s = Some (Some p, s1) \<and> queues_ok pq s1 \<and> flight s1 = flight s \<and> in_sched_cycle s1 = in_sched_cycle s
       \<and> uns s1 = uns s \<and> err s1 = err s \<and>
       (act s (qp_key p) = Some p \<and> act s1 = (act s)(qp_key p := None) \<and> bko s1 = bko s
          \<and> (\<forall>q\<in>ran (act s). \<not> priority_sort_less q p)
        \<or> act s = Map.empty \<and> act s1 = Map.empty \<and> bko s (qp_key p) = Some p \<and> bko s1 = (bko s)(qp_key p := None)
          \<and> (\<forall>q\<in>ran (bko s). \<not> less_backoff_with_priority (pq_pod_initial_backoff pq) (pq_pod_max_backoff pq) q p)))"
proof (cases "act s = Map.empty")
  case False
  obtain p a where p: "heap_pop (in_active_q s) = Some (Inr p, a)" "active_order.heap_ok a" "act s (qp_key p) = Some p"
      "heap_get_by_key a = (act s)(qp_key p := None)" "\<forall>q\<in>ran (act s). \<not> priority_sort_less q p"
    using active_order.hq.pop_law [OF queues_okD(1) [OF ok] False] by blast
  have "queues_ok pq (s\<lparr>in_active_q := a\<rparr>)" using ok p(2,4) by (simp add: queues_ok_def)
  then show ?thesis using p by (simp add: next_entry_def flight_def)
next
  case True
  obtain e where e: "heap_pop (in_active_q s) = Some (Inl e, in_active_q s)"
    using active_order.hq.pop_empty_law [OF queues_okD(1) [OF ok] True] by blast
  note bok = backoff_okD(1) [OF queues_okD(2) [OF ok]]
  show ?thesis
  proof (cases "bko s = Map.empty")
    case empty: True
    then obtain e' where "heap_pop (bq_pod_backoff_q (in_backoff_q s)) = Some (Inl e', bq_pod_backoff_q (in_backoff_q s))"
      using backoff_order.hq.pop_empty_law [OF bok] by blast
    then show ?thesis using e True empty by (simp add: next_entry_def)
  next
    case False
    obtain p b where p: "heap_pop (bq_pod_backoff_q (in_backoff_q s)) = Some (Inr p, b)"
        "backoff_order.heap_ok (pq_pod_initial_backoff pq) (pq_pod_max_backoff pq) b"
        "bko s (qp_key p) = Some p" "heap_get_by_key b = (bko s)(qp_key p := None)"
        "\<forall>q\<in>ran (bko s). \<not> less_backoff_with_priority (pq_pod_initial_backoff pq) (pq_pod_max_backoff pq) q p"
      using backoff_order.hq.pop_law [OF bok False] by blast
    let ?s = "s\<lparr>in_backoff_q := (in_backoff_q s)\<lparr>bq_pod_backoff_q := b\<rparr>\<rparr>"
    have "backoff_ok pq ((in_backoff_q s)\<lparr>bq_pod_backoff_q := b\<rparr>)"
      using queues_okD(2) [OF ok] p(2,4) by (auto simp: backoff_ok_def)
    then have "queues_ok pq ?s" using ok p(4) by (simp add: queues_ok_def)
    then show ?thesis using e True p by (simp add: next_entry_def flight_def)
  qed
qed


lemma popped_info_simps [simp]:
  "qp_pod (popped_info p) = qp_pod p" "qp_key (popped_info p) = qp_key p"
  "backoff_time init mx (popped_info p) = backoff_time init mx p"
  "priority_sort_less q (popped_info p) = priority_sort_less q p"
  by (simp_all add: popped_info_def qp_key_def priority_sort_less_def qp_priority_def backoff_time_def Let_def split: option.split)

lemma popped_info_backoff [simp]:
  "less_backoff_with_priority init mx q (popped_info p) = less_backoff_with_priority init mx q p"
  by (simp add: less_backoff_with_priority_def)

text \<open>What \<open>unlocked_pop\<close> does: entries of pods that are in flight are dropped on the way.\<close>

definition popped :: "'o priority_queue \<Rightarrow> 'o inner \<Rightarrow> queued_pod_info option \<Rightarrow> 'o inner \<Rightarrow> bool" where
  "popped pq s r s' \<longleftrightarrow>
     uns s' = uns s \<and> err s' = err s \<and> act s' \<subseteq>\<^sub>m act s \<and> bko s' \<subseteq>\<^sub>m bko s
     \<and> (\<forall>k q. (act s k = Some q \<or> bko s k = Some q) \<and> k \<notin> placed s' \<longrightarrow>
          in_in_flight_pods s (pod_uid (qp_pod q)) \<noteq> None \<or> r = Some (popped_info q))
     \<and> (case r of
          None \<Rightarrow> act s' = Map.empty \<and> bko s' = Map.empty \<and> flight s' = flight s
        | Some p \<Rightarrow>
            in_in_flight_pods s (pod_uid (qp_pod p)) = None \<and> qp_key p \<notin> placed s'
            \<and> flight s' = ((in_in_flight_pods s)(pod_uid (qp_pod p) \<mapsto> in_next_seq s),
                in_in_flight_events s @ [EntryPod (in_next_seq s) (qp_pod p)], in_next_seq s + 1, in_closed s)
            \<and> (\<exists>q. p = popped_info q \<and>
                 (act s (qp_key q) = Some q \<and> (\<forall>q\<in>ran (act s'). \<not> priority_sort_less q p)
                  \<or> bko s (qp_key q) = Some q \<and> act s' = Map.empty
                    \<and> (\<forall>q\<in>ran (bko s'). \<not> less_backoff_with_priority (pq_pod_initial_backoff pq) (pq_pod_max_backoff pq) q p))))"

lemma popped_trans:
  assumes ok: "queues_ok pq s" and p: "popped pq s1 r s'" and fl: "flight s1 = flight s" and u: "uns s1 = uns s" "err s1 = err s"
    and x: "in_in_flight_pods s (pod_uid (qp_pod x)) \<noteq> None"
    and cases: "act s (qp_key x) = Some x \<and> act s1 = (act s)(qp_key x := None) \<and> bko s1 = bko s
      \<or> act s1 = act s \<and> bko s (qp_key x) = Some x \<and> bko s1 = (bko s)(qp_key x := None)"
  shows "popped pq s r s'"
proof -
  have sub: "act s1 \<subseteq>\<^sub>m act s" "bko s1 \<subseteq>\<^sub>m bko s" using cases by (auto simp: map_le_def split: if_splits)
  have other: "(act s1 k = Some q \<or> bko s1 k = Some q) \<or> q = x" if "act s k = Some q \<or> bko s k = Some q" for k q
    using cases that queues_okD(3) [OF ok] by (cases "k = qp_key x") auto
  have fl': "in_in_flight_pods s1 = in_in_flight_pods s" "in_in_flight_events s1 = in_in_flight_events s"
    "in_next_seq s1 = in_next_seq s" "in_closed s1 = in_closed s" using fl by (simp_all add: flight_def)
  have up: "act s1 k = Some q \<Longrightarrow> act s k = Some q" "bko s1 k = Some q \<Longrightarrow> bko s k = Some q" for k q
    using sub by (auto simp: map_le_def dom_def)
  have "act s' \<subseteq>\<^sub>m act s" "bko s' \<subseteq>\<^sub>m bko s" using p sub map_le_trans unfolding popped_def by blast+
  moreover have "in_in_flight_pods s (pod_uid (qp_pod q)) \<noteq> None \<or> r = Some (popped_info q)"
    if "(act s k = Some q \<or> bko s k = Some q) \<and> k \<notin> placed s'" for k q
    using other [of k q] that p x unfolding popped_def fl' by blast
  ultimately show ?thesis
    using p u fl up unfolding popped_def fl' by (cases r) auto
qed

lemma pop_flight_ok:
  assumes ok: "flight_ok s" and new: "in_in_flight_pods s (pod_uid q) = None"
  shows "flight_ok (s\<lparr>in_next_seq := in_next_seq s + 1, in_in_flight_events := in_in_flight_events s @ [EntryPod (in_next_seq s) q],
    in_in_flight_pods := (in_in_flight_pods s)(pod_uid q \<mapsto> in_next_seq s)\<rparr>)"
proof -
  let ?es = "in_in_flight_events s"
  have "(((in_in_flight_pods s)(pod_uid q \<mapsto> in_next_seq s)) uid = Some n) \<longleftrightarrow>
      (\<exists>p. EntryPod n p \<in> set (?es @ [EntryPod (in_next_seq s) q]) \<and> pod_uid p = uid)" for uid n
  proof (cases "uid = pod_uid q")
    case True
    then show ?thesis using flight_okD(5) [OF ok, of n] new by fastforce
  next
    case False
    then show ?thesis using flight_okD(4,5) [OF ok] by fastforce
  qed
  moreover have "sorted_wrt (<) (map entry_seq (?es @ [EntryPod (in_next_seq s) q]))"
    using flight_okD(1,3) [OF ok] by (auto simp: sorted_wrt_append)
  moreover have "\<forall>e\<in>set (?es @ [EntryPod (in_next_seq s) q]). entry_seq e < in_next_seq s + 1"
    using flight_okD(3) [OF ok] by fastforce
  moreover have "is_entry_pod (hd (?es @ [EntryPod (in_next_seq s) q]))"
    using ok by (cases ?es) (auto simp: flight_ok_def)
  ultimately show ?thesis by (simp add: flight_ok_def)
qed

lemma popped_here:
  assumes ok: "queues_ok pq s" and ok1: "queues_ok pq s1" and fl: "flight s1 = flight s" and u: "uns s1 = uns s" "err s1 = err s"
    and cases: "act s (qp_key p) = Some p \<and> act s1 = (act s)(qp_key p := None) \<and> bko s1 = bko s \<and> (\<forall>q\<in>ran (act s). \<not> priority_sort_less q p)
      \<or> act s = Map.empty \<and> act s1 = Map.empty \<and> bko s (qp_key p) = Some p \<and> bko s1 = (bko s)(qp_key p := None)
        \<and> (\<forall>q\<in>ran (bko s). \<not> less_backoff_with_priority (pq_pod_initial_backoff pq) (pq_pod_max_backoff pq) q p)"
    and new: "in_in_flight_pods s (pod_uid (qp_pod p)) = None"
  shows "popped pq s (Some (popped_info p)) (s1\<lparr>in_next_seq := in_next_seq s + 1,
    in_in_flight_events := in_in_flight_events s @ [EntryPod (in_next_seq s) (qp_pod p)],
    in_in_flight_pods := (in_in_flight_pods s)(pod_uid (qp_pod p) \<mapsto> in_next_seq s), in_sched_cycle := c\<rparr>)" (is "popped _ _ _ ?s")
proof -
  have pl: "placed ?s = placed s1" by (simp add: placed_def)
  have sub: "act s1 \<subseteq>\<^sub>m act s" "bko s1 \<subseteq>\<^sub>m bko s" using cases by (auto simp: map_le_def split: if_splits)
  have gone: "qp_key p \<notin> placed s1"
    using cases u queues_okD(3-5,16) [OF ok, of "qp_key p" p] backoff_okD(3) [OF queues_okD(2) [OF ok], of "qp_key p" p]
    by (auto simp: placed_def)
  have others: "q = p" if "act s k = Some q \<or> bko s k = Some q" "k \<notin> placed s1" for k q
    using cases that queues_okD(3) [OF ok] by (cases "k = qp_key p") (auto simp: placed_def)
  have ran: "ran (act s1) \<subseteq> ran (act s)" "ran (bko s1) \<subseteq> ran (bko s)" using cases by (auto simp: ran_def split: if_splits)
  have "\<exists>q. popped_info p = popped_info q \<and>
      (act s (qp_key q) = Some q \<and> (\<forall>q\<in>ran (act s1). \<not> priority_sort_less q (popped_info p))
       \<or> bko s (qp_key q) = Some q \<and> act s1 = Map.empty
         \<and> (\<forall>q\<in>ran (bko s1). \<not> less_backoff_with_priority (pq_pod_initial_backoff pq) (pq_pod_max_backoff pq) q (popped_info p)))"
    using cases ran by (intro exI [of _ p]) auto
  moreover have "in_closed s1 = in_closed s" using fl by (simp add: flight_def)
  moreover have "\<forall>k q. (act s k = Some q \<or> bko s k = Some q) \<and> k \<notin> placed s1 \<longrightarrow>
      in_in_flight_pods s (pod_uid (qp_pod q)) \<noteq> None \<or> Some (popped_info p) = Some (popped_info q)"
    using others by blast
  ultimately show ?thesis using sub gone u new unfolding popped_def pl by (simp add: flight_def)
qed

lemma unlocked_pop_ok:
  assumes "queues_ok pq s" and "flight_ok s"
  shows "\<exists>r s'. unlocked_pop s = Some (r, s') \<and> queues_ok pq s' \<and> flight_ok s' \<and> popped pq s r s'"
  using assms
proof (induction "card (dom (act s)) + card (dom (bko s))" arbitrary: s rule: less_induct)
  case less
  note ok = less.prems(1)
  consider "next_entry s = Some (None, s)" "act s = Map.empty" "bko s = Map.empty"
    | p s1 where "next_entry s = Some (Some p, s1)" "queues_ok pq s1" "flight s1 = flight s" "uns s1 = uns s" "err s1 = err s"
        "act s (qp_key p) = Some p \<and> act s1 = (act s)(qp_key p := None) \<and> bko s1 = bko s \<and> (\<forall>q\<in>ran (act s). \<not> priority_sort_less q p)
         \<or> act s = Map.empty \<and> act s1 = Map.empty \<and> bko s (qp_key p) = Some p \<and> bko s1 = (bko s)(qp_key p := None)
          \<and> (\<forall>q\<in>ran (bko s). \<not> less_backoff_with_priority (pq_pod_initial_backoff pq) (pq_pod_max_backoff pq) q p)"
    using next_entry_ok [OF ok] by blast
  then show ?case
  proof cases
    case 1
    then have "unlocked_pop s = Some (None, s)" by (subst unlocked_pop.simps) simp
    then show ?thesis using less.prems 1 by (auto simp: popped_def)
  next
    case (2 p s1)
    have fl: "in_in_flight_pods s1 = in_in_flight_pods s" "in_in_flight_events s1 = in_in_flight_events s"
      "in_next_seq s1 = in_next_seq s" "in_closed s1 = in_closed s" using 2(3) by (simp_all add: flight_def)
    have fin: "finite (dom (act s))" "finite (dom (bko s))"
      using active_order.hq.finite_contents [OF queues_okD(1) [OF ok]]
        backoff_order.hq.finite_contents [OF backoff_okD(1) [OF queues_okD(2) [OF ok]]] by blast+
    have "card (dom (act s1)) + card (dom (bko s1)) < card (dom (act s)) + card (dom (bko s))"
    proof (cases "act s (qp_key p) = Some p \<and> act s1 = (act s)(qp_key p := None) \<and> bko s1 = bko s")
      case True
      then show ?thesis using psubset_card_mono [OF fin(1), of "dom (act s1)"] by auto
    next
      case False
      then have "act s1 = act s" "bko s (qp_key p) = Some p" "bko s1 = (bko s)(qp_key p := None)" using 2(6) by auto
      then show ?thesis using psubset_card_mono [OF fin(2), of "dom (bko s1)"] by auto
    qed
    note IH = less.hyps [OF this 2(2)]
    show ?thesis
    proof (cases "in_in_flight_pods s (pod_uid (qp_pod p))")
      case (Some n)
      obtain r s' where r: "unlocked_pop s1 = Some (r, s')" "queues_ok pq s'" "flight_ok s'" "popped pq s1 r s'"
        using IH less.prems(2) flight_ok_cong [OF 2(3)] by blast
      have "unlocked_pop s = Some (r, s')" using 2(1) r(1) Some fl by (subst unlocked_pop.simps) simp
      moreover have "popped pq s r s'"
        by (rule popped_trans [OF ok r(4) 2(3,4,5), of p]) (use Some 2(6) in auto)
      ultimately show ?thesis using r by blast
    next
      case None
      let ?s = "s1\<lparr>in_next_seq := in_next_seq s + 1,
        in_in_flight_events := in_in_flight_events s @ [EntryPod (in_next_seq s) (qp_pod p)],
        in_in_flight_pods := (in_in_flight_pods s)(pod_uid (qp_pod p) \<mapsto> in_next_seq s), in_sched_cycle := in_sched_cycle s1 + 1\<rparr>"
      have pop: "unlocked_pop s = Some (Some (popped_info p), ?s)" using 2(1) None fl by (subst unlocked_pop.simps) (simp add: Let_def)
      have "queues_ok pq ?s" using 2(2) by (simp add: queues_ok_def)
      moreover have "flight_ok ?s" using pop_flight_ok [OF less.prems(2) None] by (simp add: flight_ok_def)
      moreover have "popped pq s (Some (popped_info p)) ?s" using popped_here [OF ok 2(2-6) None] fl by simp
      ultimately show ?thesis using pop by blast
    qed
  qed
qed


section \<open>The operations\<close>

text \<open>Every pod in flight sees the events \<open>new\<close> after those it saw before.\<close>

definition records :: "'o inner \<Rightarrow> 'o in_flight_event list \<Rightarrow> 'o inner \<Rightarrow> bool" where
  "records s new s' \<longleftrightarrow>
     flight_ok s' \<and> in_in_flight_pods s' = in_in_flight_pods s
     \<and> (\<forall>u n. in_in_flight_pods s u = Some n \<longrightarrow>
          events_after n (in_in_flight_events s') = events_after n (in_in_flight_events s) @ new)"

lemma records_same: "flight_ok s \<Longrightarrow> flight s' = flight s \<Longrightarrow> records s [] s'"
  using flight_ok_cong [of s' s] by (simp add: records_def flight_def)

lemma records_trans: "records s a s1 \<Longrightarrow> records s1 b s2 \<Longrightarrow> records s (a @ b) s2"
  by (simp add: records_def)

lemma push_event_records:
  assumes "flight_ok s" and "in_in_flight_pods s \<noteq> Map.empty"
  shows "records s [ev] (push_event s ev)"
  using push_event_ok [OF assms] by (simp add: records_def)

lemma push_event_queues [simp]:
  "queues_ok pq (push_event s ev) = queues_ok pq s" "placed (push_event s ev) = placed s"
  by (simp_all add: push_event_def queues_ok_def placed_def)

lemma push_events_ok:
  assumes "flight_ok s" and "in_in_flight_pods s \<noteq> Map.empty"
  shows "records s (map f evs) (fold (\<lambda>ev s. push_event s (f ev)) evs s)
    \<and> queues_ok pq (fold (\<lambda>ev s. push_event s (f ev)) evs s) = queues_ok pq s
    \<and> placed (fold (\<lambda>ev s. push_event s (f ev)) evs s) = placed s"
  using assms
proof (induction evs arbitrary: s)
  case Nil
  then show ?case by (simp add: records_same)
next
  case (Cons ev evs)
  note r = push_event_records [OF Cons.prems, of "f ev"]
  then have "flight_ok (push_event s (f ev))" "in_in_flight_pods (push_event s (f ev)) \<noteq> Map.empty"
    using Cons.prems(2) by (simp_all add: records_def)
  then show ?case using Cons.IH records_trans [OF r] by fastforce
qed

lemma add_events_ok:
  assumes "flight_ok s" and "add_events_if_pod_in_flight s old_pod new_pod events = (b, s')"
  shows "b = (in_in_flight_pods s (pod_uid new_pod) \<noteq> None) \<and> queues_ok pq s' = queues_ok pq s \<and> placed s' = placed s
    \<and> records s (if b then map (\<lambda>ev. \<lparr>if_event = ev, if_old_obj = map_option ObjPod old_pod, if_new_obj = Some (ObjPod new_pod)\<rparr>) events
                 else []) s'"
proof (cases "in_in_flight_pods s (pod_uid new_pod)")
  case None
  then show ?thesis using assms records_same [OF assms(1), of s] by (auto simp: add_events_if_pod_in_flight_def)
next
  case (Some n)
  then have "in_in_flight_pods s \<noteq> Map.empty" by auto
  from push_events_ok [OF assms(1) this,
      of "\<lambda>ev. \<lparr>if_event = ev, if_old_obj = map_option ObjPod old_pod, if_new_obj = Some (ObjPod new_pod)\<rparr>" events pq]
  show ?thesis using assms(2) Some by (simp add: add_events_if_pod_in_flight_def)
qed

lemma add_event_any_ok:
  assumes "flight_ok s" and "add_event_if_any_in_flight s old_obj new_obj event = (b, s')"
  shows "queues_ok pq s' = queues_ok pq s \<and> placed s' = placed s
    \<and> records s [\<lparr>if_event = event, if_old_obj = old_obj, if_new_obj = new_obj\<rparr>] s'"
proof (cases "in_in_flight_pods s = Map.empty")
  case True
  then show ?thesis using assms by (simp add: add_event_if_any_in_flight_def records_def)
next
  case False
  then show ?thesis
    using assms push_event_records [OF assms(1) False] by (auto simp: add_event_if_any_in_flight_def)
qed

lemma activate_ok:
  "queues_ok pq s \<Longrightarrow> flight_ok s \<Longrightarrow>
   \<exists>s' new. sq_activate pq now ps s = Some s' \<and> queues_ok pq s' \<and> placed s' = placed s \<and> records s new s'"
proof (induction ps arbitrary: s)
  case Nil
  then show ?case using records_same [of s s] by auto
next
  case (Cons p ps)
  obtain b s1 where s1: "activate_one pq now s p = Some (b, s1)" "queues_ok pq s1" "flight s1 = flight s" "placed s1 = placed s"
    using activate_one_ok [OF Cons.prems(1)] by blast
  have f1: "flight_ok s1" "records s [] s1" using Cons.prems(2) flight_ok_cong [OF s1(3)] records_same s1(3) by blast+
  obtain c s2 where s2: "add_events_if_pod_in_flight s1 None p [EVENT_FORCE_ACTIVATE] = (c, s2)" by fastforce
  define s3 where "s3 = (if b then s1 else s2)"
  obtain a where s3: "queues_ok pq s3" "placed s3 = placed s" "records s a s3"
    using add_events_ok [OF f1(1) s2, of pq] s1(2,4) f1(2) records_trans unfolding s3_def by (cases b) fastforce+
  obtain s' new where "sq_activate pq now ps s3 = Some s'" "queues_ok pq s'" "placed s' = placed s3" "records s3 new s'"
    using Cons.IH [OF s3(1)] s3(3) by (auto simp: records_def)
  then show ?case using s1(1) s2 s3 records_trans by (fastforce simp: s3_def)
qed

lemma up_values_pooled:
  assumes ok: "queues_ok pq s" and "distinct ks"
  shows "pooled s (filter P (up_values ks (uns s)))"
  using assms(2)
proof (induction ks)
  case Nil
  then show ?case by (simp add: up_values_def List.map_filter_def pooled_def)
next
  case (Cons k ks)
  show ?case
  proof (cases "uns s k")
    case None
    then show ?thesis using Cons by (simp add: up_values_def List.map_filter_def)
  next
    case (Some p)
    have k: "qp_key p = k" using queues_okD(9) [OF ok Some] .
    let ?vs = "filter P (up_values ks (uns s))"
    have "qp_key q \<in> set ks" if "q \<in> set ?vs" for q
      using that queues_okD(9) [OF ok] by (auto simp: up_values_def List.map_filter_def)
    then have new: "qp_key p \<notin> set (map qp_key ?vs)" using Cons.prems k by auto
    have rest: "pooled s ?vs" using Cons by simp
    have "filter P (up_values (k # ks) (uns s)) = (if P p then p # ?vs else ?vs)"
      using Some by (simp add: up_values_def List.map_filter_def)
    moreover have "pooled s (p # ?vs)" using rest new Some k unfolding pooled_def by simp
    ultimately show ?thesis using rest by simp
  qed
qed

lemma move_batch_ok:
  assumes "queues_ok pq s" and "flight_ok s" and "pooled s ps"
  shows "\<exists>b s'. move_pods_to_active_or_backoff_queue pq now s ps event old_obj new_obj = Some (b, s')
    \<and> queues_ok pq s' \<and> placed s' = placed s
    \<and> records s (if is_event_of_interest pq event then [\<lparr>if_event = event, if_old_obj = old_obj, if_new_obj = new_obj\<rparr>] else []) s'"
proof (cases "is_event_of_interest pq event")
  case False
  then show ?thesis using assms records_same [of s s] by (auto simp add: move_pods_to_active_or_backoff_queue_def)
next
  case True
  obtain b s1 where s1: "move_pods pq now event old_obj new_obj ps False s = Some (b, s1)" "queues_ok pq s1" "flight s1 = flight s"
      "placed s1 = placed s"
    using move_pods_ok [OF assms(1,3)] by blast
  obtain c s2 where s2: "add_event_if_any_in_flight s1 old_obj new_obj event = (c, s2)" by fastforce
  have "flight_ok s1" "records s [] s1" using assms(2) flight_ok_cong [OF s1(3)] records_same s1(3) by blast+
  then show ?thesis
    using add_event_any_ok [OF _ s2, of pq] records_trans [of s "[]" s1] True s1 s2
    by (fastforce simp: move_pods_to_active_or_backoff_queue_def)
qed

lemma sq_delete_ok:
  assumes ok: "queues_ok pq s"
  shows "\<exists>s'. sq_delete p s = Some s' \<and> queues_ok pq s' \<and> flight s' = flight s
    \<and> act s' = (act s)(queue_pod_key p := None) \<and> bko s' = (bko s)(queue_pod_key p := None)
    \<and> err s' = (err s)(queue_pod_key p := None) \<and> uns s' = (uns s)(queue_pod_key p := None)"
proof -
  let ?k = "queue_pod_key p"
  have key: "qp_key (qp_for_lookup p {}) = ?k" by (simp add: qp_key_def qp_for_lookup_def)
  obtain r a where a: "heap_delete (in_active_q s) (qp_for_lookup p {}) = Some (r, a)" "active_order.heap_ok a"
      "heap_get_by_key a = (act s)(?k := None)" "case act s ?k of Some x \<Rightarrow> r = Inr x | None \<Rightarrow> \<exists>e. r = Inl e"
    using active_heap.delete_ok [OF queues_okD(1) [OF ok], of "qp_for_lookup p {}"] unfolding key by blast
  obtain b where b: "backoff_delete (in_backoff_q s) (qp_for_lookup p {}) = Some (bko s ?k \<noteq> None \<or> err s ?k \<noteq> None, b)"
      "backoff_ok pq b" "bq_map b = (bko s)(?k := None)" "eq_map b = (err s)(?k := None)"
    using backoff_delete_ok [OF queues_okD(2) [OF ok], of "qp_for_lookup p {}"] unfolding key by blast
  have nom: "nominator_ok (nominator_delete (in_nominator s) p)"
    using ok by (simp add: queues_ok_def nominator_ok_delete)
  have upd: "m(?k := None) = m" if "m ?k = None" for m :: "string \<rightharpoonup> queued_pod_info" using that by (simp add: fun_upd_idem)
  define n where "n = nominator_delete (in_nominator s) p"
  consider x where "act s ?k = Some x" | "act s ?k = None" "bko s ?k \<noteq> None \<or> err s ?k \<noteq> None"
    | "act s ?k = None" "bko s ?k = None" "err s ?k = None" by (cases "act s ?k") auto
  then show ?thesis
  proof cases
    case (1 x)
    then have "sq_delete p s = Some (s\<lparr>in_nominator := n, in_active_q := a\<rparr>)"
      using a(1,4) by (simp add: sq_delete_def n_def)
    moreover have "queues_ok pq (s\<lparr>in_nominator := n, in_active_q := a\<rparr>)"
      using ok a(2,3) nom by (simp add: queues_ok_def n_def)
    ultimately show ?thesis using 1 a(3) queues_okD(3-5) [OF ok 1] upd by (simp add: flight_def)
  next
    case 2
    then have u: "uns s ?k = None" using queues_okD(16,17) [OF ok] by auto
    have "sq_delete p s = Some (s\<lparr>in_nominator := n, in_active_q := a, in_backoff_q := b\<rparr>)"
      using 2 a(1,4) b(1) by (auto simp: sq_delete_def n_def)
    moreover have "queues_ok pq (s\<lparr>in_nominator := n, in_active_q := a, in_backoff_q := b\<rparr>)"
      using ok a(2,3) b(2-4) nom by (simp add: queues_ok_def n_def)
    ultimately show ?thesis using a(3) b(3,4) upd [of "uns s"] u by (simp add: flight_def)
  next
    case 3
    have "sq_delete p s = Some (s\<lparr>in_nominator := n, in_active_q := a, in_backoff_q := b, in_unschedulable_pods := (uns s)(?k := None)\<rparr>)"
      using 3 a(1,4) b(1) by (auto simp: sq_delete_def n_def up_delete_def)
    moreover have "queues_ok pq (s\<lparr>in_nominator := n, in_active_q := a, in_backoff_q := b, in_unschedulable_pods := (uns s)(?k := None)\<rparr>)"
      using ok a(2,3) b(2-4) nom by (simp add: queues_ok_def n_def)
    ultimately show ?thesis using a(3) b(3,4) by (simp add: flight_def)
  qed
qed


lemma update_unschedulable_ok:
  "queues_ok pq s \<Longrightarrow>
   \<exists>s'. update_unschedulable pq now old_pod new_pod evts s = Some s' \<and> queues_ok pq s' \<and> flight s' = flight s \<and> placed s' = placed s"
proof (induction evts arbitrary: s)
  case (Cons evt evts)
  show ?case
  proof (cases "uns s (queue_pod_key new_pod)")
    case None
    then show ?thesis using Cons.prems by (simp add: up_get_def)
  next
    case (Some p)
    have k: "qp_key p = queue_pod_key new_pod" using queues_okD(9) [OF Cons.prems Some] .
    define hint where "hint = is_pod_worth_requeuing pq p evt (map_option ObjPod old_pod) (Some (ObjPod new_pod))"
    define s1 where "s1 = (if hint \<noteq> QueueSkip then s\<lparr>in_unschedulable_pods := snd (up_delete (uns s) new_pod)\<rparr> else s)"
    have "\<exists>q s2. requeue_pod_with_queueing_strategy pq now s1 p hint (event_label evt) = Some (q, s2) \<and> moved pq (qp_key p) s s2"
    proof (cases "hint = QueueSkip")
      case True
      have "act s (qp_key p) = None" "bko s (qp_key p) = None" "err s (qp_key p) = None"
        using queues_okD(6-8) [OF Cons.prems Some] k by simp_all
      from requeue_ok [OF Cons.prems this, of now hint "event_label evt"] show ?thesis using True by (auto simp: s1_def)
    next
      case False
      have "uns s (qp_key p) = Some p" using Some k by simp
      from requeue_pooled_ok [OF Cons.prems this] show ?thesis
        using False k unfolding s1_def up_delete_def queue_key by fastforce
    qed
    then obtain q s2 where s2: "requeue_pod_with_queueing_strategy pq now s1 p hint (event_label evt) = Some (q, s2)"
        "moved pq (qp_key p) s s2" by blast
    have same: "placed s2 = placed s" "flight s2 = flight s" "queues_ok pq s2"
      using moved_placed [OF s2(2)] Some k s2(2) by (auto simp: placed_def moved_def)
    obtain s3 where "update_unschedulable pq now old_pod new_pod evts s2 = Some s3" "queues_ok pq s3" "flight s3 = flight s2"
        "placed s3 = placed s2" using Cons.IH [OF same(3)] by blast
    then show ?thesis
      using s2(1) same Some by (simp add: up_get_def Let_def hint_def [symmetric] s1_def [symmetric])
  qed
qed simp

text \<open>An update of a pod that is not in flight leaves it in the queue; the update of one in flight only
  records its events.\<close>

lemma sq_update_ok:
  assumes ok: "queues_ok pq s" and fl: "flight_ok s"
  shows "\<exists>s' new. sq_update pq now old_pod new_pod s = Some s' \<and> queues_ok pq s' \<and> records s new s' \<and>
    (if in_in_flight_pods s (pod_uid new_pod) = None then placed s' = insert (queue_pod_key new_pod) (placed s) else placed s' = placed s)"
proof -
  let ?k = "queue_pod_key new_pod"
  define events where "events = (case old_pod of Some old \<Rightarrow> pod_scheduling_properties_change (pq_pod_requests pq) new_pod old | None \<Rightarrow> [])"
  show ?thesis
  proof (cases "in_in_flight_pods s (pod_uid new_pod)")
    case (Some n)
    obtain b s1 where s1: "add_events_if_pod_in_flight s old_pod new_pod events = (b, s1)" by fastforce
    note r = add_events_ok [OF fl s1, of pq]
    then have "sq_update pq now old_pod new_pod s = Some s1" using Some s1 by (simp add: sq_update_def events_def)
    then show ?thesis using r ok Some by auto
  next
    case None
    then have add: "add_events_if_pod_in_flight s old_pod new_pod events = (False, s)"
      by (simp add: add_events_if_pod_in_flight_def)
    have nom: "nominator_ok (update_nominated_pod (in_nominator s) old new_pod)" for old
      using ok by (simp add: queues_ok_def nominator_ok_update)
    have "\<exists>s'. sq_update pq now old_pod new_pod s = Some s' \<and> queues_ok pq s' \<and> flight s' = flight s \<and> placed s' = insert ?k (placed s)"
    proof -
      consider old p where "old_pod = Some old" "act s ?k = Some p"
        | old where "old_pod = Some old" "act s ?k = None" "bko s ?k \<noteq> None \<or> err s ?k \<noteq> None"
        | "old_pod = None \<or> act s ?k = None \<and> bko s ?k = None \<and> err s ?k = None"
        by (cases old_pod; cases "act s ?k"; cases "bko s ?k"; cases "err s ?k") auto
      then show ?thesis
      proof cases
        case (1 old p)
        obtain a where a: "heap_update_pod (in_active_q s) new_pod = Some (Some a)" "active_order.heap_ok a"
            "heap_get_by_key a = (act s)(?k \<mapsto> qp_update p new_pod)"
          using active_heap.update_pod_ok [OF queues_okD(1) [OF ok] 1(2)] by blast
        let ?s = "s\<lparr>in_active_q := a, in_nominator := update_nominated_pod (in_nominator s) old new_pod\<rparr>"
        have "\<not> qp_gated (qp_update p new_pod)" using queues_okD(13) [OF ok 1(2)] by (simp add: qp_gated_def qp_update_def)
        then have "queues_ok pq ?s" using ok a(2,3) nom 1(2) by (auto simp: queues_ok_def)
        moreover have "placed ?s = insert ?k (placed s)" using a(3) by (auto simp: placed_def)
        moreover have "sq_update pq now old_pod new_pod s = Some ?s"
          using add a(1) 1(1) by (simp add: sq_update_def events_def)
        ultimately show ?thesis by (simp add: flight_def)
      next
        case (2 old)
        obtain b where b: "backoff_update (in_backoff_q s) new_pod = Some (bko s ?k \<noteq> None \<or> err s ?k \<noteq> None, b)" "backoff_ok pq b"
            "bq_map b = (case bko s ?k of None \<Rightarrow> bko s | Some p \<Rightarrow> (bko s)(?k \<mapsto> qp_update p new_pod))"
            "eq_map b = (case err s ?k of None \<Rightarrow> err s | Some p \<Rightarrow> (err s)(?k \<mapsto> qp_update p new_pod))"
          using backoff_update_ok [OF queues_okD(2) [OF ok], of new_pod] by blast
        let ?s = "s\<lparr>in_backoff_q := b, in_nominator := update_nominated_pod (in_nominator s) old new_pod\<rparr>"
        have dom: "dom (bq_map b) = dom (bko s)" "dom (eq_map b) = dom (err s)" using b(3,4) by (auto split: option.splits)
        have "\<not> qp_gated p" if "bq_map b k = Some p \<or> eq_map b k = Some p" for k p
          using that b(3,4) queues_okD(14,15) [OF ok]
          by (auto simp: qp_gated_def qp_update_def split: option.splits if_splits)
        then have "queues_ok pq ?s" using ok b(2) dom nom unfolding queues_ok_def by (simp add: domIff set_eq_iff) (metis not_Some_eq)
        moreover have "placed ?s = insert ?k (placed s)" using 2(3) dom by (auto simp: placed_def)
        moreover have "sq_update pq now old_pod new_pod s = Some ?s"
          using add b(1) 2 active_heap.update_pod_missing [OF 2(2)] by (simp add: sq_update_def events_def)
        ultimately show ?thesis by (simp add: flight_def)
      next
        case 3
        have upd: "sq_update pq now old_pod new_pod s =
          (case up_delete (uns s) new_pod of
             (Some p, u) \<Rightarrow> update_unschedulable pq now old_pod new_pod events
                (s\<lparr>in_nominator := update_nominated_pod (in_nominator s) (case old_pod of Some old \<Rightarrow> old | None \<Rightarrow> new_pod) new_pod,
                   in_unschedulable_pods := up_add_or_update u (qp_update p new_pod)\<rparr>)
           | (None, u) \<Rightarrow> map_option snd (move_to_active_q pq now s (new_queued_pod_info now new_pod)
                (event_label EVENT_UNSCHEDULED_POD_UPDATE) False))"
        proof (cases old_pod)
          case None
          then show ?thesis using add by (cases "uns s ?k") (simp_all add: sq_update_def events_def up_delete_def)
        next
          case (Some old)
          then have "act s ?k = None" "bko s ?k = None" "err s ?k = None" using 3 by auto
          then show ?thesis
            using add Some by (cases "uns s ?k")
              (simp_all add: sq_update_def events_def heap_update_pod_def backoff_update_def up_delete_def)
        qed
        show ?thesis
        proof (cases "uns s ?k")
          case (Some p)
          define old where "old = (case old_pod of Some old \<Rightarrow> old | None \<Rightarrow> new_pod)"
          let ?s = "s\<lparr>in_nominator := update_nominated_pod (in_nominator s) old new_pod,
            in_unschedulable_pods := (uns s)(?k \<mapsto> qp_update p new_pod)\<rparr>"
          have "queues_ok pq ?s"
            using ok nom Some queues_okD(6-8) [OF ok Some] by (auto simp: queues_ok_def qp_key_def qp_update_def)
          from update_unschedulable_ok [OF this, of now old_pod new_pod events]
          obtain s' where s': "update_unschedulable pq now old_pod new_pod events ?s = Some s'" "queues_ok pq s'"
            "flight s' = flight ?s" "placed s' = placed ?s" by blast
          have "placed ?s = insert ?k (placed s)" by (auto simp: placed_def)
          moreover have "sq_update pq now old_pod new_pod s = Some s'"
            using s'(1) Some unfolding upd old_def by (simp add: up_delete_def up_add_or_update_def qp_update_def)
          ultimately show ?thesis using s' by (simp add: flight_def)
        next
          case None
          obtain b s' where s': "move_to_active_q pq now s (new_queued_pod_info now new_pod) (event_label EVENT_UNSCHEDULED_POD_UPDATE) False
              = Some (b, s')" "moved pq (qp_key (new_queued_pod_info now new_pod)) s s'"
            using move_to_active_q_ok [OF ok] by blast
          moreover have "qp_key (new_queued_pod_info now new_pod) = ?k" by (simp add: qp_key_def new_queued_pod_info_def)
          ultimately show ?thesis
            using None moved_placed [OF s'(2)] unfolding upd by (simp add: up_delete_def moved_def)
        qed
      qed
    qed
    then show ?thesis using None records_same [OF fl] by auto
  qed
qed

lemma readd_info_simps [simp]:
  "qp_key (readd_info now p) = qp_key p" "qp_pod (readd_info now p) = qp_pod p"
  "qp_unschedulable_plugins (readd_info now p) = qp_unschedulable_plugins p"
  "qp_pending_plugins (readd_info now p) = qp_pending_plugins p" "qp_gating_plugin (readd_info now p) = qp_gating_plugin p"
  by (simp_all add: readd_info_def qp_key_def)

lemma add_unschedulable_ok:
  fixes now p and pq :: "'o priority_queue"
  assumes ok: "queues_ok pq s" and fl: "flight_ok s"
  defines "hint \<equiv> determine_scheduling_hint_for_in_flight_pod pq s (readd_info now p)"
  shows "\<exists>r s'. add_unschedulable_if_not_present pq now p s = Some (r, s') \<and> queues_ok pq s' \<and> flight_ok s'
    \<and> in_in_flight_pods s' = (in_in_flight_pods s)(pod_uid (qp_pod p) := None)
    \<and> (\<forall>u n. u \<noteq> pod_uid (qp_pod p) \<longrightarrow> in_in_flight_pods s u = Some n \<longrightarrow>
         events_after n (in_in_flight_events s') = events_after n (in_in_flight_events s))
    \<and> (case r of
         Inl _ \<Rightarrow> qp_key p \<in> placed s \<and> act s' = act s \<and> bko s' = bko s \<and> err s' = err s \<and> uns s' = uns s
       | Inr q \<Rightarrow> qp_key p \<notin> placed s \<and> placed s' = insert (qp_key p) (placed s)
           \<and> (case q of ActiveQ \<Rightarrow> act s' (qp_key p) \<noteq> None | BackoffQ \<Rightarrow> bko s' (qp_key p) \<noteq> None \<or> err s' (qp_key p) \<noteq> None
              | UnschedulableQ \<Rightarrow> uns s' (qp_key p) \<noteq> None)
           \<and> (q = UnschedulableQ \<longleftrightarrow> hint = QueueSkip \<or> qp_gated (run_pre_enqueue_plugins pq (readd_info now p))))"
proof -
  let ?uid = "pod_uid (qp_pod p)" and ?k = "qp_key p"
  have maps: "act (unlocked_done t u) = act t" "bko (unlocked_done t u) = bko t" "err (unlocked_done t u) = err t"
    "uns (unlocked_done t u) = uns t" "queues_ok pq (unlocked_done t u) = queues_ok pq t" for t u
    by (cases "in_in_flight_pods t u"; simp add: unlocked_done_def queues_ok_def)+
  have pl: "placed (unlocked_done t u) = placed t" for t :: "'o inner" and u by (simp add: placed_def maps)
  have fin: "flight_ok (unlocked_done t ?uid) \<and> in_in_flight_pods (unlocked_done t ?uid) = (in_in_flight_pods s)(?uid := None)
    \<and> (\<forall>u n. u \<noteq> ?uid \<longrightarrow> in_in_flight_pods s u = Some n \<longrightarrow>
         events_after n (in_in_flight_events (unlocked_done t ?uid)) = events_after n (in_in_flight_events s))"
    if "flight t = flight s" for t
  proof -
    have "flight_ok t" "in_in_flight_pods t = in_in_flight_pods s" "in_in_flight_events t = in_in_flight_events s"
      using flight_ok_cong [OF that] fl that by (simp_all add: flight_def)
    then show ?thesis using unlocked_done_ok [of t] by simp
  qed
  have present: "(uns s ?k \<noteq> None \<or> heap_has (in_active_q s) p \<or> backoff_has (in_backoff_q s) p) \<longleftrightarrow> ?k \<in> placed s"
    using active_heap.has_ok [OF queues_okD(1) [OF ok]] backoff_has_ok [OF queues_okD(2) [OF ok]] by (auto simp: placed_def)
  show ?thesis
  proof (cases "?k \<in> placed s")
    case True
    have "\<exists>e. add_unschedulable_if_not_present pq now p s = Some (Inl e, unlocked_done s ?uid)"
      using present True
      by (cases "uns s ?k"; cases "heap_has (in_active_q s) p")
         (simp_all add: add_unschedulable_if_not_present_def up_get_def queue_key)
    then obtain e where "add_unschedulable_if_not_present pq now p s = Some (Inl e, unlocked_done s ?uid)" ..
    then show ?thesis using True fin [of s] ok maps by auto
  next
    case False
    have k: "act s (qp_key (readd_info now p)) = None" "bko s (qp_key (readd_info now p)) = None" "err s (qp_key (readd_info now p)) = None"
      using False by (auto simp: placed_def)
    obtain q t where t: "requeue_pod_with_queueing_strategy pq now s (readd_info now p) hint SCHEDULE_ATTEMPT_FAILURE = Some (q, t)"
      "moved pq ?k s t" "case q of ActiveQ \<Rightarrow> act t ?k \<noteq> None | BackoffQ \<Rightarrow> bko t ?k \<noteq> None \<or> err t ?k \<noteq> None | UnschedulableQ \<Rightarrow> uns t ?k \<noteq> None"
      "q = UnschedulableQ \<longleftrightarrow> hint = QueueSkip \<or> qp_gated (run_pre_enqueue_plugins pq (readd_info now p))"
      using requeue_ok [OF ok k, of now hint SCHEDULE_ATTEMPT_FAILURE] unfolding readd_info_simps by blast
    have "add_unschedulable_if_not_present pq now p s = Some (Inr q, unlocked_done t ?uid)"
      using False present t(1) by (simp add: add_unschedulable_if_not_present_def up_get_def queue_key hint_def)
    moreover have "queues_ok pq t" "flight t = flight s" using t(2) by (simp_all add: moved_def)
    ultimately show ?thesis
      using False fin [of t] moved_placed [OF t(2)] t(3,4) by (cases q) (simp_all add: maps pl)
  qed
qed

end
