(* ===== verification/QueueProperties.thy ===== *)
theory QueueProperties
  imports QueueInvariants
begin

text \<open>
  The scheduling queue as a state machine: any sequence of its operations, by any number of threads, from
  the empty queue. A label is the clock reading, the operation with its arguments and its answer.

  Shown: every operation returns in every reachable state; a pod is in at most one of the queues; a pod
  leaves the queue only by \<open>pop\<close> or \<open>delete\<close>; \<open>pop\<close> takes the first pod in queue order; a cluster event that
  arrives while a pod is being scheduled keeps it out of the unschedulable pool when it comes back, if a
  hint says the event may help; and the verdict of the hints does not depend on the iteration order of the
  hint map.
\<close>

section \<open>Operations as labels\<close>

datatype 'o sq_op =
    OpAdd pod
  | OpActivate "pod list"
  | OpAddUnschedulable queued_pod_info
  | OpFlushBackoff
  | OpFlushUnschedulable "string list"
  | OpPop
  | OpDone string
  | OpUpdate "pod option" pod
  | OpDelete pod
  | OpMoveAll cluster_event "'o event_object option" "'o event_object option" "(pod \<Rightarrow> bool) option" "string list"
  | OpAddNominated pod "nominating_info option"
  | OpDeleteNominated pod
  | OpClose "string list"

datatype sq_answer = NoAnswer | PopAnswer pop_answer | Requeued "(present_error, queue_name) result"

definition quiet :: "'o inner or_panic \<Rightarrow> (sq_answer \<times> 'o inner) or_panic" where
  "quiet r = map_option (Pair NoAnswer) r"

fun sq_exec :: "'o priority_queue \<Rightarrow> system_time \<Rightarrow> 'o sq_op \<Rightarrow> 'o inner \<Rightarrow> (sq_answer \<times> 'o inner) or_panic" where
  "sq_exec pq now (OpAdd p) s = quiet (map_option snd (sq_add pq now p s))"
| "sq_exec pq now (OpActivate ps) s = quiet (sq_activate pq now ps s)"
| "sq_exec pq now (OpAddUnschedulable p) s =
     map_option (\<lambda>(r, s'). (Requeued r, s')) (add_unschedulable_if_not_present pq now p s)"
| "sq_exec pq now OpFlushBackoff s = quiet (flush_backoff_q_completed pq now s)"
| "sq_exec pq now (OpFlushUnschedulable order) s = quiet (flush_unschedulable_pods_leftover pq now order s)"
| "sq_exec pq now OpPop s = map_option (\<lambda>(r, s'). (PopAnswer r, s')) (sq_pop s)"
| "sq_exec pq now (OpDone uid) s = quiet (Some (sq_done s uid))"
| "sq_exec pq now (OpUpdate old_pod new_pod) s = quiet (sq_update pq now old_pod new_pod s)"
| "sq_exec pq now (OpDelete p) s = quiet (sq_delete p s)"
| "sq_exec pq now (OpMoveAll event old_obj new_obj pre_check order) s =
     quiet (move_all_to_active_or_backoff_queue pq now order event old_obj new_obj pre_check s)"
| "sq_exec pq now (OpAddNominated p info) s = quiet (Some (sq_add_nominated_pod p info s))"
| "sq_exec pq now (OpDeleteNominated p) s = quiet (Some (delete_nominated_pod_if_exists p s))"
| "sq_exec pq now (OpClose uids) s = quiet (Some (sq_close uids s))"

text \<open>The iteration orders are enumerations of the maps they iterate.\<close>

fun valid_op :: "'o inner \<Rightarrow> 'o sq_op \<Rightarrow> bool" where
  "valid_op s (OpFlushUnschedulable order) \<longleftrightarrow> distinct order \<and> set order = dom (uns s)"
| "valid_op s (OpMoveAll _ _ _ _ order) \<longleftrightarrow> distinct order \<and> set order = dom (uns s)"
| "valid_op s (OpClose uids) \<longleftrightarrow> distinct uids \<and> set uids = dom (in_in_flight_pods s)"
| "valid_op s _ \<longleftrightarrow> True"

type_synonym 'o sq_label = "system_time \<times> 'o sq_op \<times> sq_answer"

definition sq_step :: "'o priority_queue \<Rightarrow> 'o inner \<Rightarrow> 'o sq_label \<Rightarrow> 'o inner \<Rightarrow> bool" where
  "sq_step pq s l s' \<longleftrightarrow> (case l of (now, op, ans) \<Rightarrow> valid_op s op \<and> sq_exec pq now op s = Some (ans, s'))"

section \<open>One operation\<close>

definition sq_ok :: "'o priority_queue \<Rightarrow> 'o inner \<Rightarrow> bool" where
  "sq_ok pq s \<longleftrightarrow> queues_ok pq s \<and> flight_ok s"

text \<open>The keys an operation may remove from the queue.\<close>

fun may_drop :: "'o inner \<Rightarrow> 'o sq_op \<Rightarrow> sq_answer \<Rightarrow> string set" where
  "may_drop s (OpDelete p) ans = {queue_pod_key p}"
| "may_drop s OpPop ans =
     {k. \<exists>q. (act s k = Some q \<or> bko s k = Some q) \<and>
        (in_in_flight_pods s (pod_uid (qp_pod q)) \<noteq> None \<or> ans = PopAnswer (Popped (popped_info q)))}"
| "may_drop s op ans = {}"

text \<open>The operations that end the flight of a pod, and the events one adds for the pods in flight.\<close>

fun lands :: "string \<Rightarrow> 'o sq_op \<Rightarrow> bool" where
  "lands uid (OpDone u) \<longleftrightarrow> uid = u"
| "lands uid (OpAddUnschedulable p) \<longleftrightarrow> uid = pod_uid (qp_pod p)"
| "lands uid (OpClose uids) \<longleftrightarrow> True"
| "lands uid _ \<longleftrightarrow> False"

fun announces :: "'o priority_queue \<Rightarrow> 'o sq_op \<Rightarrow> 'o in_flight_event list" where
  "announces pq (OpMoveAll event old_obj new_obj _ _) =
     (if is_event_of_interest pq event then [\<lparr>if_event = event, if_old_obj = old_obj, if_new_obj = new_obj\<rparr>] else [])"
| "announces pq _ = []"

definition flies_on :: "'o inner \<Rightarrow> 'o in_flight_event list \<Rightarrow> string \<Rightarrow> 'o inner \<Rightarrow> bool" where
  "flies_on s evs uid s' \<longleftrightarrow>
     (\<forall>n. in_in_flight_pods s uid = Some n \<longrightarrow> in_in_flight_pods s' uid = Some n \<and>
        (\<exists>new. set evs \<subseteq> set new \<and> events_after n (in_in_flight_events s') = events_after n (in_in_flight_events s) @ new))"

definition sq_post :: "'o priority_queue \<Rightarrow> 'o inner \<Rightarrow> 'o sq_op \<Rightarrow> sq_answer \<Rightarrow> 'o inner \<Rightarrow> bool" where
  "sq_post pq s op ans s' \<longleftrightarrow>
     sq_ok pq s' \<and> placed s \<subseteq> placed s' \<union> may_drop s op ans \<and> (\<forall>uid. \<not> lands uid op \<longrightarrow> flies_on s (announces pq op) uid s')"

lemma flies_on_records: "records s new s' \<Longrightarrow> set evs \<subseteq> set new \<Longrightarrow> flies_on s evs uid s'"
  by (auto simp: flies_on_def records_def)

lemma flies_on_kept:
  "(\<And>n. in_in_flight_pods s uid = Some n \<Longrightarrow> in_in_flight_pods s' uid = Some n \<and>
      events_after n (in_in_flight_events s') = events_after n (in_in_flight_events s)) \<Longrightarrow> flies_on s [] uid s'"
  by (auto simp: flies_on_def intro: exI [of _ "[]"])

lemma flies_on_same: "flight s' = flight s \<Longrightarrow> flies_on s [] uid s'"
  by (auto simp: flies_on_def flight_def)

lemma records_flight: "records s new s' \<Longrightarrow> flight_ok s'"
  by (simp add: records_def)

lemma post_same:
  assumes "sq_ok pq s" and "queues_ok pq s'" and "flight s' = flight s" and "placed s \<subseteq> placed s' \<union> may_drop s op ans"
    and "announces pq op = []"
  shows "sq_post pq s op ans s'"
  using assms flight_ok_cong [OF assms(3)] flies_on_same [OF assms(3)] by (simp add: sq_post_def sq_ok_def)

lemma post_records:
  assumes "queues_ok pq s'" and "records s new s'" and "placed s \<subseteq> placed s'" and "set (announces pq op) \<subseteq> set new"
  shows "sq_post pq s op ans s'"
  using assms flies_on_records [OF assms(2,4)] records_flight [OF assms(2)] by (auto simp: sq_post_def sq_ok_def)

lemma exec_add: "sq_ok pq s \<Longrightarrow> \<exists>ans s'. sq_exec pq now (OpAdd p) s = Some (ans, s') \<and> sq_post pq s (OpAdd p) ans s'"
proof -
  assume ok: "sq_ok pq s"
  then obtain b s' where s': "sq_add pq now p s = Some (b, s')" "moved pq (qp_key (new_queued_pod_info now p)) s s'"
    using move_to_active_q_ok [of pq s] unfolding sq_add_def sq_ok_def by blast
  have "sq_post pq s (OpAdd p) NoAnswer s'"
    using s'(2) moved_placed [OF s'(2)] by (intro post_same [OF ok]) (auto simp: moved_def)
  then show ?thesis using s'(1) by (auto simp: quiet_def)
qed

lemma exec_activate:
  "sq_ok pq s \<Longrightarrow> \<exists>ans s'. sq_exec pq now (OpActivate ps) s = Some (ans, s') \<and> sq_post pq s (OpActivate ps) ans s'"
proof -
  assume ok: "sq_ok pq s"
  then obtain s' new where s': "sq_activate pq now ps s = Some s'" "queues_ok pq s'" "placed s' = placed s" "records s new s'"
    using activate_ok [of pq s now ps] unfolding sq_ok_def by blast
  have "sq_post pq s (OpActivate ps) NoAnswer s'" using s' by (intro post_records [of pq s' s new]) auto
  then show ?thesis using s'(1) by (auto simp: quiet_def)
qed

lemma exec_add_unschedulable:
  "sq_ok pq s \<Longrightarrow> \<exists>ans s'. sq_exec pq now (OpAddUnschedulable p) s = Some (ans, s') \<and> sq_post pq s (OpAddUnschedulable p) ans s'"
proof -
  assume ok: "sq_ok pq s"
  then obtain r s' where s': "add_unschedulable_if_not_present pq now p s = Some (r, s')" "queues_ok pq s'" "flight_ok s'"
    "in_in_flight_pods s' = (in_in_flight_pods s)(pod_uid (qp_pod p) := None)"
    "\<forall>u n. u \<noteq> pod_uid (qp_pod p) \<longrightarrow> in_in_flight_pods s u = Some n \<longrightarrow>
         events_after n (in_in_flight_events s') = events_after n (in_in_flight_events s)"
    "case r of Inl _ \<Rightarrow> qp_key p \<in> placed s \<and> act s' = act s \<and> bko s' = bko s \<and> err s' = err s \<and> uns s' = uns s
       | Inr q \<Rightarrow> qp_key p \<notin> placed s \<and> placed s' = insert (qp_key p) (placed s)
           \<and> (case q of ActiveQ \<Rightarrow> act s' (qp_key p) \<noteq> None | BackoffQ \<Rightarrow> bko s' (qp_key p) \<noteq> None \<or> err s' (qp_key p) \<noteq> None
              | UnschedulableQ \<Rightarrow> uns s' (qp_key p) \<noteq> None)
           \<and> (q = UnschedulableQ \<longleftrightarrow> determine_scheduling_hint_for_in_flight_pod pq s (readd_info now p) = QueueSkip
                \<or> qp_gated (run_pre_enqueue_plugins pq (readd_info now p)))"
    using add_unschedulable_ok [of pq s now p] unfolding sq_ok_def by blast
  have "placed s \<subseteq> placed s'" using s'(6) by (cases r) (auto simp: placed_def)
  moreover have "flies_on s [] uid s'" if "\<not> lands uid (OpAddUnschedulable p)" for uid
  proof (rule flies_on_kept)
    fix n
    assume n: "in_in_flight_pods s uid = Some n"
    have "uid \<noteq> pod_uid (qp_pod p)" using that by auto
    then show "in_in_flight_pods s' uid = Some n \<and> events_after n (in_in_flight_events s') = events_after n (in_in_flight_events s)"
      using s'(4,5) n by simp
  qed
  ultimately have "sq_post pq s (OpAddUnschedulable p) (Requeued r) s'" using s'(2,3) by (auto simp: sq_post_def sq_ok_def)
  then show ?thesis using s'(1) by auto
qed

lemma exec_flush:
  assumes ok: "sq_ok pq s"
  shows "\<exists>ans s'. sq_exec pq now OpFlushBackoff s = Some (ans, s') \<and> sq_post pq s OpFlushBackoff ans s'"
    and "valid_op s (OpFlushUnschedulable order) \<Longrightarrow>
      \<exists>ans s'. sq_exec pq now (OpFlushUnschedulable order) s = Some (ans, s') \<and> sq_post pq s (OpFlushUnschedulable order) ans s'"
proof -
  obtain s' where s': "flush_backoff_q_completed pq now s = Some s'" "queues_ok pq s'" "flight s' = flight s" "placed s' = placed s"
    using flush_backoff_ok [of pq s now] ok unfolding sq_ok_def by blast
  have "sq_post pq s OpFlushBackoff NoAnswer s'" using s' by (intro post_same [OF ok]) auto
  then show "\<exists>ans s'. sq_exec pq now OpFlushBackoff s = Some (ans, s') \<and> sq_post pq s OpFlushBackoff ans s'"
    using s'(1) by (auto simp: quiet_def)
  assume "valid_op s (OpFlushUnschedulable order)"
  then have d: "distinct order" by simp
  define ps where "ps = filter (\<lambda>p. qp_timestamp p \<le> now \<and> nat (now - qp_timestamp p) > pq_pod_max_in_unschedulable_pods_duration pq)
    (up_values order (uns s))"
  have "\<exists>s' new. flush_unschedulable_pods_leftover pq now order s = Some s' \<and> queues_ok pq s' \<and> placed s' = placed s \<and> records s new s'"
  proof (cases "ps = []")
    case True
    then show ?thesis
      using ok records_same [of s s] by (auto simp: flush_unschedulable_pods_leftover_def ps_def [symmetric] sq_ok_def)
  next
    case False
    have "pooled s ps" using up_values_pooled [of pq s order] ok d unfolding ps_def sq_ok_def by blast
    then obtain b s' where "move_pods_to_active_or_backoff_queue pq now s ps EVENT_UNSCHEDULABLE_TIMEOUT None None = Some (b, s')"
      "queues_ok pq s'" "placed s' = placed s"
      "records s (if is_event_of_interest pq EVENT_UNSCHEDULABLE_TIMEOUT
         then [\<lparr>if_event = EVENT_UNSCHEDULABLE_TIMEOUT, if_old_obj = None, if_new_obj = None\<rparr>] else []) s'"
      using move_batch_ok [of pq s ps] ok unfolding sq_ok_def by blast
    then show ?thesis
      using False by (auto simp: flush_unschedulable_pods_leftover_def ps_def [symmetric])
  qed
  then obtain s' new where t: "flush_unschedulable_pods_leftover pq now order s = Some s'" "queues_ok pq s'" "placed s' = placed s"
    "records s new s'" by blast
  have "sq_post pq s (OpFlushUnschedulable order) NoAnswer s'" using t by (intro post_records [of pq s' s new]) auto
  then show "\<exists>ans s'. sq_exec pq now (OpFlushUnschedulable order) s = Some (ans, s') \<and> sq_post pq s (OpFlushUnschedulable order) ans s'"
    using t(1) by (auto simp: quiet_def)
qed

lemma exec_move_all:
  assumes ok: "sq_ok pq s" and "valid_op s (OpMoveAll event old_obj new_obj pre_check order)"
  shows "\<exists>ans s'. sq_exec pq now (OpMoveAll event old_obj new_obj pre_check order) s = Some (ans, s')
    \<and> sq_post pq s (OpMoveAll event old_obj new_obj pre_check order) ans s'"
proof (cases "is_event_of_interest pq event")
  case False
  have "sq_post pq s (OpMoveAll event old_obj new_obj pre_check order) NoAnswer s"
    using ok False by (intro post_same [OF ok]) (auto simp: sq_ok_def)
  then show ?thesis using False by (auto simp: quiet_def move_all_to_active_or_backoff_queue_def)
next
  case True
  have "pooled s (filter (\<lambda>p. case pre_check of None \<Rightarrow> True | Some check \<Rightarrow> check (qp_pod p)) (up_values order (uns s)))"
    using up_values_pooled [of pq s order] assms unfolding sq_ok_def by simp
  then obtain b s' where s': "move_pods_to_active_or_backoff_queue pq now s
      (filter (\<lambda>p. case pre_check of None \<Rightarrow> True | Some check \<Rightarrow> check (qp_pod p)) (up_values order (uns s)))
      event old_obj new_obj = Some (b, s')" "queues_ok pq s'" "placed s' = placed s"
      "records s [\<lparr>if_event = event, if_old_obj = old_obj, if_new_obj = new_obj\<rparr>] s'"
    using move_batch_ok [of pq s, where event = event and old_obj = old_obj and new_obj = new_obj and now = now] ok True
    unfolding sq_ok_def by (simp only: if_True) blast
  have "sq_post pq s (OpMoveAll event old_obj new_obj pre_check order) NoAnswer s'"
    using s' True by (intro post_records [OF s'(2,4)]) auto
  then show ?thesis using s'(1) True by (auto simp: quiet_def move_all_to_active_or_backoff_queue_def)
qed

lemma exec_pop: "sq_ok pq s \<Longrightarrow> \<exists>ans s'. sq_exec pq now OpPop s = Some (ans, s') \<and> sq_post pq s OpPop ans s'"
proof -
  assume ok: "sq_ok pq s"
  show ?thesis
  proof (cases "\<not> heap_is_empty (in_active_q s) \<or> len_backoff (in_backoff_q s) \<noteq> 0")
    case False
    have "sq_post pq s OpPop ans s" for ans using ok by (intro post_same [OF ok]) (auto simp: sq_ok_def)
    then show ?thesis using False by (auto simp: sq_pop_def)
  next
    case True
    obtain r s' where s': "unlocked_pop s = Some (r, s')" "queues_ok pq s'" "flight_ok s'" "popped pq s r s'"
      using unlocked_pop_ok [of pq s] ok unfolding sq_ok_def by blast
    let ?ans = "PopAnswer (case r of Some p \<Rightarrow> Popped p | None \<Rightarrow> PopAgain)"
    have "placed s \<subseteq> placed s' \<union> may_drop s OpPop ?ans"
    proof
      fix k
      assume k: "k \<in> placed s"
      show "k \<in> placed s' \<union> may_drop s OpPop ?ans"
      proof (cases "k \<in> placed s'")
        case gone: False
        then have "k \<notin> dom (uns s)" "k \<notin> dom (err s)" using s'(4) by (auto simp: popped_def placed_def)
        then obtain q where q: "act s k = Some q \<or> bko s k = Some q" using k by (auto simp: placed_def)
        have "in_in_flight_pods s (pod_uid (qp_pod q)) \<noteq> None \<or> r = Some (popped_info q)"
          using gone s'(4) q unfolding popped_def by blast
        then show ?thesis using q by (intro UnI2) (auto intro!: exI [of _ q])
      qed simp
    qed
    moreover have "flies_on s [] uid s'" for uid
    proof (rule flies_on_kept)
      fix n
      assume n: "in_in_flight_pods s uid = Some n"
      show "in_in_flight_pods s' uid = Some n \<and> events_after n (in_in_flight_events s') = events_after n (in_in_flight_events s)"
        using s'(4) n by (cases r) (auto simp: popped_def flight_def)
    qed
    ultimately have "sq_post pq s OpPop ?ans s'" using s'(2,3) by (auto simp: sq_post_def sq_ok_def)
    then show ?thesis using s'(1) True by (auto simp: sq_pop_def)
  qed
qed

lemma done_queues [simp]: "queues_ok pq (unlocked_done s u) = queues_ok pq s" "placed (unlocked_done s u) = placed s"
  by (cases "in_in_flight_pods s u"; simp add: unlocked_done_def queues_ok_def placed_def)+

lemma exec_done: "sq_ok pq s \<Longrightarrow> \<exists>ans s'. sq_exec pq now (OpDone uid) s = Some (ans, s') \<and> sq_post pq s (OpDone uid) ans s'"
proof -
  assume ok: "sq_ok pq s"
  then have fl: "flight_ok s" by (simp add: sq_ok_def)
  have "flies_on s [] u (unlocked_done s uid)" if "\<not> lands u (OpDone uid)" for u
    using that unlocked_done_ok(2,3) [OF fl, where uid = uid] by (intro flies_on_kept) auto
  then have "sq_post pq s (OpDone uid) NoAnswer (unlocked_done s uid)"
    using ok unlocked_done_ok(1) [OF fl] by (auto simp: sq_post_def sq_ok_def)
  then show ?thesis by (auto simp: quiet_def sq_done_def)
qed

lemma exec_close:
  "sq_ok pq s \<Longrightarrow> \<exists>ans s'. sq_exec pq now (OpClose uids) s = Some (ans, s') \<and> sq_post pq s (OpClose uids) ans s'"
proof -
  assume ok: "sq_ok pq s"
  have "sq_ok pq (fold (\<lambda>u s. unlocked_done s u) us t) \<and> placed (fold (\<lambda>u s. unlocked_done s u) us t) = placed t"
    if "sq_ok pq t" for us t
    using that by (induction us arbitrary: t) (simp_all add: sq_ok_def unlocked_done_ok(1))
  from this [OF ok, of uids] have "sq_post pq s (OpClose uids) NoAnswer (sq_close uids s)"
    by (auto simp: sq_post_def sq_close_def sq_ok_def queues_ok_def flight_ok_def placed_def)
  then show ?thesis by (auto simp: quiet_def)
qed

lemma exec_update:
  "sq_ok pq s \<Longrightarrow> \<exists>ans s'. sq_exec pq now (OpUpdate old new) s = Some (ans, s') \<and> sq_post pq s (OpUpdate old new) ans s'"
proof -
  assume ok: "sq_ok pq s"
  obtain s' evs where s': "sq_update pq now old new s = Some s'" "queues_ok pq s'" "records s evs s'"
      "if in_in_flight_pods s (pod_uid new) = None then placed s' = insert (queue_pod_key new) (placed s) else placed s' = placed s"
    using sq_update_ok [of pq s now old new] ok unfolding sq_ok_def by blast
  have "sq_post pq s (OpUpdate old new) NoAnswer s'"
    using s'(4) by (intro post_records [OF s'(2,3)]) (auto split: if_splits)
  then show ?thesis using s'(1) by (auto simp: quiet_def)
qed

lemma exec_delete: "sq_ok pq s \<Longrightarrow> \<exists>ans s'. sq_exec pq now (OpDelete p) s = Some (ans, s') \<and> sq_post pq s (OpDelete p) ans s'"
proof -
  assume ok: "sq_ok pq s"
  obtain s' where s': "sq_delete p s = Some s'" "queues_ok pq s'" "flight s' = flight s"
      "act s' = (act s)(queue_pod_key p := None)" "bko s' = (bko s)(queue_pod_key p := None)"
      "err s' = (err s)(queue_pod_key p := None)" "uns s' = (uns s)(queue_pod_key p := None)"
    using sq_delete_ok [of pq s p] ok unfolding sq_ok_def by blast
  have "sq_post pq s (OpDelete p) NoAnswer s'" using s' by (intro post_same [OF ok]) (auto simp: placed_def)
  then show ?thesis using s'(1) by (auto simp: quiet_def)
qed

lemma exec_nominate:
  assumes ok: "sq_ok pq s"
  shows "\<exists>ans s'. sq_exec pq now (OpAddNominated p info) s = Some (ans, s') \<and> sq_post pq s (OpAddNominated p info) ans s'"
    and "\<exists>ans s'. sq_exec pq now (OpDeleteNominated p) s = Some (ans, s') \<and> sq_post pq s (OpDeleteNominated p) ans s'"
proof -
  let ?a = "sq_add_nominated_pod p info s" and ?d = "delete_nominated_pod_if_exists p s"
  have "queues_ok pq ?a" "queues_ok pq ?d" using ok
    by (simp_all add: sq_ok_def queues_ok_def sq_add_nominated_pod_def delete_nominated_pod_if_exists_def
        nominator_ok_add nominator_ok_delete)
  then have "sq_post pq s (OpAddNominated p info) NoAnswer ?a" "sq_post pq s (OpDeleteNominated p) NoAnswer ?d"
    by (intro post_same [OF ok]; simp add: flight_def placed_def sq_add_nominated_pod_def delete_nominated_pod_if_exists_def)+
  then show "\<exists>ans s'. sq_exec pq now (OpAddNominated p info) s = Some (ans, s') \<and> sq_post pq s (OpAddNominated p info) ans s'"
    "\<exists>ans s'. sq_exec pq now (OpDeleteNominated p) s = Some (ans, s') \<and> sq_post pq s (OpDeleteNominated p) ans s'"
    by (auto simp: quiet_def)
qed

lemma exec_ok:
  assumes "sq_ok pq s" and "valid_op s op"
  shows "\<exists>ans s'. sq_exec pq now op s = Some (ans, s') \<and> sq_post pq s op ans s'"
proof (cases op)
  case (OpFlushUnschedulable order)
  then show ?thesis using exec_flush(2) assms by blast
next
  case (OpMoveAll event old_obj new_obj pre_check order)
  then show ?thesis using exec_move_all assms by blast
qed (hypsubst, rule exec_add exec_activate exec_add_unschedulable exec_flush(1) exec_pop exec_done exec_update exec_delete
  exec_nominate exec_close, rule assms(1))+

lemma step_post: "sq_step pq s (now, op, ans) s' \<Longrightarrow> sq_ok pq s \<Longrightarrow> sq_post pq s op ans s'"
  using exec_ok [of pq s op now] by (auto simp: sq_step_def)

lemma sq_ok_new: "sq_ok pq (inner_new pq lister)"
proof -
  have e: "heap_get_by_key (heap_new qp_key f) = Map.empty" for f by (simp add: heap_get_by_key_def heap_new_def fun_eq_iff)
  show ?thesis
    using active_order.heap_ok_new backoff_order.heap_ok_new error_backoff_order.heap_ok_new nominator_ok_new
    by (simp add: sq_ok_def queues_ok_def backoff_ok_def flight_ok_def inner_new_def e)
qed

interpretation queue_system: inv_system "sq_step pq" "sq_ok pq" for pq
proof
  fix s l s'
  assume "sq_step pq s l s'" "sq_ok pq s"
  moreover obtain now op ans where "l = (now, op, ans)" by (cases l)
  ultimately show "sq_ok pq s'" using step_post [of pq s now op ans s'] by (simp add: sq_post_def)
qed

definition sq_reach :: "'o priority_queue \<Rightarrow> 'o inner \<Rightarrow> bool" where
  "sq_reach pq s \<longleftrightarrow> (\<exists>lister ls. runs (sq_step pq) (inner_new pq lister) ls s)"

lemma reach_sq_ok: "sq_reach pq s \<Longrightarrow> sq_ok pq s"
  using queue_system.runs_inv sq_ok_new unfolding sq_reach_def by blast

section \<open>Events and hints\<close>

lemma flight_events:
  assumes "runs (sq_step pq) s ls s'" and "sq_ok pq s" and "in_in_flight_pods s uid = Some n"
    and "\<forall>(now, op, ans)\<in>set ls. \<not> lands uid op"
  shows "in_in_flight_pods s' uid = Some n \<and>
    (\<forall>(now, op, ans)\<in>set ls. set (announces pq op) \<subseteq> set (events_after n (in_in_flight_events s')))"
  using assms
proof (induction rule: runs.induct)
  case (runs_snoc s ls s' l s'')
  obtain now op ans where l: "l = (now, op, ans)" by (cases l)
  have IH: "in_in_flight_pods s' uid = Some n"
    "\<forall>(now, op, ans)\<in>set ls. set (announces pq op) \<subseteq> set (events_after n (in_in_flight_events s'))"
    using runs_snoc by auto
  have "sq_ok pq s'" by (rule queue_system.runs_inv [OF runs_snoc.hyps(1) runs_snoc.prems(1)])
  then have "sq_post pq s' op ans s''" using step_post runs_snoc.hyps(2) unfolding l by blast
  moreover have "\<not> lands uid op" using runs_snoc.prems(3) by (simp add: l)
  ultimately have "flies_on s' (announces pq op) uid s''" by (simp add: sq_post_def)
  then obtain new where new: "in_in_flight_pods s'' uid = Some n" "set (announces pq op) \<subseteq> set new"
      "events_after n (in_in_flight_events s'') = events_after n (in_in_flight_events s') @ new"
    using IH(1) by (auto simp: flies_on_def)
  have "\<forall>(now, op, ans)\<in>set ls. set (announces pq op) \<subseteq> set (events_after n (in_in_flight_events s''))"
    using IH(2) unfolding new(3) set_append by fast
  then show ?case using new by (auto simp add: l)
qed simp

lemma run_hints_readd: "run_hints (readd_info now p) old_obj new_obj hs strategy = run_hints p old_obj new_obj hs strategy"
  by (induction hs arbitrary: strategy) (simp_all add: Let_def)

lemma run_hint_map_readd:
  "run_hint_map (readd_info now p) event old_obj new_obj m strategy = run_hint_map p event old_obj new_obj m strategy"
  by (induction p event old_obj new_obj m strategy rule: run_hint_map.induct) (simp_all add: run_hints_readd split: sum.split)

lemma worth_readd [simp]:
  "is_pod_worth_requeuing pq (readd_info now p) event old_obj new_obj = is_pod_worth_requeuing pq p event old_obj new_obj"
  by (simp add: is_pod_worth_requeuing_def run_hint_map_readd split: option.split event_object.split)

lemma hint_of_events_skip:
  "hint_of_events pq p es strategy = QueueSkip \<longleftrightarrow>
   strategy = QueueSkip \<and> (\<forall>e\<in>set es. is_pod_worth_requeuing pq p (if_event e) (if_old_obj e) (if_new_obj e) = QueueSkip)"
  by (induction es arbitrary: strategy) (auto split: queueing_strategy.split)

lemma events_for_pod:
  "in_in_flight_pods s (pod_uid (qp_pod p)) = Some n \<Longrightarrow> cluster_events_for_pod s p = Inr (events_after n (in_in_flight_events s))"
  by (simp add: cluster_events_for_pod_def events_after_def)

text \<open>The hint functions registered for an event that speak for a plugin that failed the pod, and say \<open>Queue\<close>
  (or fail).\<close>

definition speaking_hints ::
  "queued_pod_info \<Rightarrow> 'o event_object option \<Rightarrow> 'o event_object option \<Rightarrow> 'o queueing_hint_function list \<Rightarrow>
   'o queueing_hint_function set" where
  "speaking_hints p old_obj new_obj hs =
     {h \<in> set hs. qh_plugin_name h \<in> qp_unschedulable_plugins p \<union> qp_pending_plugins p
        \<and> qh_queueing_hint_fn h (qp_pod p) old_obj new_obj \<noteq> Inr Hint_QueueSkip}"

definition queueing_hints ::
  "queued_pod_info \<Rightarrow> cluster_event \<Rightarrow> 'o event_object option \<Rightarrow> 'o event_object option \<Rightarrow> 'o queueing_hint_map \<Rightarrow>
   'o queueing_hint_function set" where
  "queueing_hints p event old_obj new_obj m =
     (\<Union>(ev, hs)\<in>set m. if match_cluster_events ev event then speaking_hints p old_obj new_obj hs else {})"

definition hint_verdict ::
  "queued_pod_info \<Rightarrow> queueing_strategy \<Rightarrow> 'o queueing_hint_function set \<Rightarrow> queueing_strategy" where
  "hint_verdict p strategy hs =
     (if \<exists>h\<in>hs. qh_plugin_name h \<in> qp_pending_plugins p then QueueImmediately
      else if hs \<noteq> {} then QueueAfterBackoff else strategy)"

lemma run_hints_verdict:
  "run_hints p old_obj new_obj hs strategy =
    (if \<exists>h\<in>speaking_hints p old_obj new_obj hs. qh_plugin_name h \<in> qp_pending_plugins p then Inl QueueImmediately
     else if speaking_hints p old_obj new_obj hs \<noteq> {}
     then (if qp_pending_plugins p = {} then Inl QueueAfterBackoff else Inr QueueAfterBackoff)
     else Inr strategy)"
proof (induction hs arbitrary: strategy)
  case (Cons h hs)
  let ?fails = "qh_plugin_name h \<in> qp_unschedulable_plugins p \<union> qp_pending_plugins p"
  let ?Q = "speaking_hints p old_obj new_obj"
  have skip: "(case qh_queueing_hint_fn h (qp_pod p) old_obj new_obj of Inr x \<Rightarrow> x | Inl _ \<Rightarrow> Hint_Queue) = Hint_QueueSkip \<longleftrightarrow>
      qh_queueing_hint_fn h (qp_pod p) old_obj new_obj = Inr Hint_QueueSkip"
    by (cases "qh_queueing_hint_fn h (qp_pod p) old_obj new_obj") auto
  show ?case
  proof (cases "?fails \<and> qh_queueing_hint_fn h (qp_pod p) old_obj new_obj \<noteq> Inr Hint_QueueSkip")
    case False
    then have "?Q (h # hs) = ?Q hs" by (auto simp: speaking_hints_def)
    moreover have "run_hints p old_obj new_obj (h # hs) strategy = run_hints p old_obj new_obj hs strategy"
      using False skip by (auto simp: Let_def)
    ultimately show ?thesis using Cons.IH by simp
  next
    case True
    then have "?Q (h # hs) = insert h (?Q hs)" by (auto simp: speaking_hints_def)
    moreover have "run_hints p old_obj new_obj (h # hs) strategy =
      (if qh_plugin_name h \<in> qp_pending_plugins p then Inl QueueImmediately
       else if qp_pending_plugins p = {} then Inl QueueAfterBackoff
       else run_hints p old_obj new_obj hs QueueAfterBackoff)" using True skip by (simp add: Let_def)
    ultimately show ?thesis using Cons.IH by simp
  qed
qed (simp add: speaking_hints_def)

lemma run_hint_map_verdict:
  "strategy \<noteq> QueueImmediately \<Longrightarrow> run_hint_map p event old_obj new_obj m strategy =
   hint_verdict p strategy (queueing_hints p event old_obj new_obj m)"
proof (induction m arbitrary: strategy)
  case Nil
  then show ?case by (simp add: hint_verdict_def queueing_hints_def)
next
  case (Cons em m)
  obtain ev hs where em: "em = (ev, hs)" by (cases em)
  let ?Q = "speaking_hints p old_obj new_obj hs" and ?R = "queueing_hints p event old_obj new_obj m"
  show ?case
  proof (cases "match_cluster_events ev event")
    case False
    then show ?thesis using Cons by (simp add: em queueing_hints_def)
  next
    case True
    then have q: "queueing_hints p event old_obj new_obj (em # m) = ?Q \<union> ?R" by (simp add: queueing_hints_def em)
    have empty: "\<not> (\<exists>h\<in>?R. qh_plugin_name h \<in> qp_pending_plugins p)" if "qp_pending_plugins p = {}" using that by simp
    consider "\<exists>h\<in>?Q. qh_plugin_name h \<in> qp_pending_plugins p"
      | "\<not> (\<exists>h\<in>?Q. qh_plugin_name h \<in> qp_pending_plugins p)" "?Q \<noteq> {}" "qp_pending_plugins p = {}"
      | "\<not> (\<exists>h\<in>?Q. qh_plugin_name h \<in> qp_pending_plugins p)" "?Q \<noteq> {}" "qp_pending_plugins p \<noteq> {}"
      | "?Q = {}" by blast
    then show ?thesis
    proof cases
      case 3
      then have "run_hint_map p event old_obj new_obj (em # m) strategy = hint_verdict p QueueAfterBackoff ?R"
        using True Cons.IH [of QueueAfterBackoff] by (simp add: em run_hints_verdict)
      then show ?thesis using 3 unfolding q hint_verdict_def by auto
    next
      case 4
      then show ?thesis using True Cons unfolding q by (simp add: em run_hints_verdict)
    qed (use True empty in \<open>auto simp: em run_hints_verdict q [unfolded em] hint_verdict_def\<close>)
  qed
qed

abbreviation pods_of :: "'o in_flight_entry list \<Rightarrow> pod list" where
  "pods_of es \<equiv> List.map_filter (\<lambda>e. case e of EntryPod _ p \<Rightarrow> Some p | EntryEvent _ _ \<Rightarrow> None) es"

lemma pods_of_mem: "p \<in> set (pods_of es) \<longleftrightarrow> (\<exists>n. EntryPod n p \<in> set es)"
  by (induction es) (auto simp: List.map_filter_def split: in_flight_entry.splits)

lemma in_flight_pods_mem: "p \<in> set (sq_in_flight_pods s) \<longleftrightarrow> (\<exists>n. EntryPod n p \<in> set (in_in_flight_events s))"
  by (simp add: sq_in_flight_pods_def pods_of_mem)

lemma in_flight_uids:
  assumes "flight_ok s"
  shows "pod_uid ` set (sq_in_flight_pods s) = dom (in_in_flight_pods s)"
  using flight_okD(4,5) [OF assms] by (fastforce simp: in_flight_pods_mem image_iff)

lemma in_flight_distinct:
  assumes ok: "flight_ok s"
  shows "distinct (map pod_uid (sq_in_flight_pods s))"
proof -
  have "distinct (map pod_uid (pods_of es))"
    if "distinct (map entry_seq es)" "set es \<subseteq> set (in_in_flight_events s)" for es
    using that
  proof (induction es)
    case (Cons e es)
    show ?case
    proof (cases e)
      case (EntryPod n p)
      have "pod_uid q \<noteq> pod_uid p" if q: "EntryPod m q \<in> set es" for m q
      proof
        assume "pod_uid q = pod_uid p"
        then have "m = n" using flight_okD(5) [OF ok, of m q] flight_okD(5) [OF ok, of n p] q Cons.prems(2) EntryPod by auto
        then show False using Cons.prems(1) q EntryPod by (auto simp: image_iff)
      qed
      then have "pod_uid p \<notin> set (map pod_uid (pods_of es))" using pods_of_mem [of _ es] by fastforce
      moreover have "pods_of (e # es) = p # pods_of es" using EntryPod by (simp add: List.map_filter_def)
      ultimately show ?thesis using Cons by simp
    next
      case (EntryEvent n ev)
      then show ?thesis using Cons by (simp add: List.map_filter_def)
    qed
  qed (simp add: List.map_filter_def)
  then show ?thesis using flight_okD(2) [OF ok] by (simp add: sq_in_flight_pods_def)
qed

lemma in_flight_empty:
  assumes ok: "flight_ok s"
  shows "in_in_flight_pods s = Map.empty \<longleftrightarrow> in_in_flight_events s = []"
proof
  assume e: "in_in_flight_pods s = Map.empty"
  show "in_in_flight_events s = []"
  proof (rule ccontr)
    assume ne: "in_in_flight_events s \<noteq> []"
    then have "is_entry_pod (hd (in_in_flight_events s))" "hd (in_in_flight_events s) \<in> set (in_in_flight_events s)"
      using ok by (simp_all add: flight_ok_def)
    then obtain n p where "EntryPod n p \<in> set (in_in_flight_events s)" by (cases "hd (in_in_flight_events s)") auto
    then show False using flight_okD(5) [OF ok] e by force
  qed
next
  assume "in_in_flight_events s = []"
  then show "in_in_flight_pods s = Map.empty" using ok by (fastforce simp: flight_ok_def)
qed

lemma popped_step:
  assumes "queues_ok pq s" and "flight_ok s" and "sq_step pq s (now, OpPop, PopAnswer (Popped p)) s'"
  shows "unlocked_pop s = Some (Some p, s') \<and> queues_ok pq s' \<and> flight_ok s' \<and> popped pq s (Some p) s'"
proof -
  obtain r t where t: "unlocked_pop s = Some (r, t)" "queues_ok pq t" "flight_ok t" "popped pq s r t"
    using unlocked_pop_ok [OF assms(1,2)] by blast
  have "r = Some p \<and> t = s'"
    using assms(3) t(1) by (auto simp: sq_step_def sq_pop_def split: if_splits option.splits)
  then show ?thesis using t by simp
qed

lemma pop_in_flight:
  assumes "sq_ok pq s" and "sq_step pq s (now, OpPop, PopAnswer (Popped p)) s'"
  shows "\<exists>n. in_in_flight_pods s' (pod_uid (qp_pod p)) = Some n"
  using popped_step [of pq s now p s'] assms by (simp add: sq_ok_def popped_def flight_def)

section \<open>A scheduling attempt\<close>

text \<open>A queue with one hint function, for added nodes. A pod is added, popped, found unschedulable; a node is
  added meanwhile.\<close>

definition demo_queue :: "unit priority_queue" where
  "demo_queue =
     \<lparr>pq_pod_initial_backoff = 1, pq_pod_max_backoff = 10, pq_pod_max_in_unschedulable_pods_duration = 300,
      pq_pre_enqueue_plugin_map = Map.empty,
      pq_queueing_hint_map =
        [(''default-scheduler'',
          [(cluster_event_new RNode ACT_ADD, [\<lparr>qh_plugin_name = ''Fit'', qh_queueing_hint_fn = \<lambda>_ _ _. Inr Hint_Queue\<rparr>])])],
      pq_pod_requests = \<lambda>_. []\<rparr>"

definition demo_failed :: queued_pod_info where
  "demo_failed = (new_queued_pod_info 0 demo_pod)\<lparr>qp_unschedulable_plugins := {''Fit''}\<rparr>"

abbreviation node_added :: cluster_event where
  "node_added \<equiv> cluster_event_new RNode ACT_ADD"

lemma demo_not_gated: "qp_gated (run_pre_enqueue_plugins demo_queue p) = False"
  by (simp add: run_pre_enqueue_plugins_def demo_queue_def qp_gated_def)

lemma demo_hint: "is_event_of_interest demo_queue node_added" "is_pod_worth_requeuing demo_queue demo_failed node_added None None \<noteq> QueueSkip"
  by (simp_all add: is_event_of_interest_def is_pod_worth_requeuing_def demo_queue_def demo_failed_def new_queued_pod_info_def
      match_cluster_events_def match_event_resources_def cluster_event_new_def cluster_event_is_wild_card_def action_defs
      demo_pod_def pod_scheduler_name_def)

lemma new_empty: "placed (inner_new pq lister) = {}" "in_in_flight_pods (inner_new pq lister) = Map.empty"
  by (simp_all add: inner_new_def placed_def heap_get_by_key_def heap_new_def fun_eq_iff)

lemma demo_added:
  "\<exists>s0. sq_step demo_queue (inner_new demo_queue None) (0, OpAdd demo_pod, NoAnswer) s0 \<and> sq_reach demo_queue s0
     \<and> placed s0 = {queue_pod_key demo_pod} \<and> in_in_flight_pods s0 = Map.empty
     \<and> (\<exists>q. act s0 (queue_pod_key demo_pod) = Some q \<and> qp_pod q = demo_pod)"
proof -
  let ?s = "inner_new demo_queue None :: unit inner"
  have k: "qp_key (new_queued_pod_info 0 demo_pod) = queue_pod_key demo_pod" "qp_pod (new_queued_pod_info 0 demo_pod) = demo_pod"
    by (simp_all add: qp_key_def new_queued_pod_info_def)
  have "queues_ok demo_queue ?s" using sq_ok_new [of demo_queue None] by (simp add: sq_ok_def)
  from move_to_active_q_ok [OF this, of 0 "new_queued_pod_info 0 demo_pod" "event_label EVENT_UNSCHEDULED_POD_ADD" False]
  obtain s0 q where s0: "sq_add demo_queue 0 demo_pod ?s = Some (True, s0)" "moved demo_queue (queue_pod_key demo_pod) ?s s0"
      "act s0 (queue_pod_key demo_pod) = Some q" "qp_pod q = demo_pod"
    by (auto simp: sq_add_def enqueue_info_def demo_not_gated k)
  have step: "sq_step demo_queue ?s (0, OpAdd demo_pod, NoAnswer) s0" using s0(1) by (simp add: sq_step_def quiet_def)
  then have "sq_reach demo_queue s0" unfolding sq_reach_def by (metis runs_single)
  moreover have "placed s0 = {queue_pod_key demo_pod}" using moved_placed [OF s0(2)] by (simp add: new_empty)
  moreover have "in_in_flight_pods s0 = Map.empty" using s0(2) new_empty(2) [of demo_queue None] by (simp add: moved_def flight_def)
  ultimately show ?thesis using step s0(3,4) by blast
qed

lemma demo_popped:
  "\<exists>s0 p s1. sq_reach demo_queue s0 \<and> placed s0 = {queue_pod_key demo_pod}
     \<and> sq_step demo_queue s0 (1, OpPop, PopAnswer (Popped p)) s1 \<and> qp_pod p = demo_pod \<and> placed s1 = {}"
proof -
  obtain s0 q where s0: "sq_reach demo_queue s0" "placed s0 = {queue_pod_key demo_pod}" "in_in_flight_pods s0 = Map.empty"
      "act s0 (queue_pod_key demo_pod) = Some q" "qp_pod q = demo_pod" using demo_added by blast
  have ok: "queues_ok demo_queue s0" "flight_ok s0" using reach_sq_ok [OF s0(1)] by (simp_all add: sq_ok_def)
  obtain r s1 where s1: "unlocked_pop s0 = Some (r, s1)" "popped demo_queue s0 r s1" using unlocked_pop_ok [OF ok] by blast
  have le: "act s1 \<subseteq>\<^sub>m act s0" "bko s1 \<subseteq>\<^sub>m bko s0" "uns s1 = uns s0" "err s1 = err s0"
    using s1(2) unfolding popped_def by blast+
  have "dom (act s1) \<subseteq> dom (act s0)" "dom (bko s1) \<subseteq> dom (bko s0)"
    by (rule map_le_implies_dom_le [OF le(1)], rule map_le_implies_dom_le [OF le(2)])
  then have "placed s1 \<subseteq> placed s0" unfolding placed_def le(3,4) by (intro Un_mono order_refl)
  then have sub: "placed s1 \<subseteq> {queue_pod_key demo_pod}" by (simp only: s0(2))
  have ne: "\<not> heap_is_empty (in_active_q s0)" using active_order.heap_ok_empty [OF queues_okD(1) [OF ok(1)]] s0(4) by auto
  have r: "r = Some (popped_info q)"
  proof (cases r)
    case None
    then have "act s1 = Map.empty" "bko s1 = Map.empty" using s1(2) unfolding popped_def by simp_all
    then have "queue_pod_key demo_pod \<notin> placed s1" using queues_okD(3-5) [OF ok(1), of "queue_pod_key demo_pod" q] s0(4) le(3,4) by (simp add: placed_def domIff)
    then have "in_in_flight_pods s0 (pod_uid (qp_pod q)) \<noteq> None \<or> r = Some (popped_info q)"
      using s1(2) s0(4) unfolding popped_def by blast
    then show ?thesis using s0(3) by simp
  next
    case (Some p)
    then have "qp_key p \<notin> placed s1" "\<exists>q. p = popped_info q \<and> (act s0 (qp_key q) = Some q \<or> bko s0 (qp_key q) = Some q)"
      using s1(2) unfolding popped_def by auto
    then obtain q' where q': "p = popped_info q'" "act s0 (qp_key q') = Some q' \<or> bko s0 (qp_key q') = Some q'" by blast
    then have "qp_key q' \<in> placed s0" by (auto simp: placed_def)
    then have "qp_key q' = queue_pod_key demo_pod" using s0(2) by simp
    then have "q' = q" using q'(2) s0(4) queues_okD(3) [OF ok(1), of "queue_pod_key demo_pod" q] by auto
    then show ?thesis using Some q'(1) by simp
  qed
  have "sq_step demo_queue s0 (1, OpPop, PopAnswer (Popped (popped_info q))) s1"
    using s1(1) ne r by (simp add: sq_step_def sq_pop_def)
  moreover have "queue_pod_key demo_pod \<notin> placed s1"
    using s1(2) s0(5) by (simp add: popped_def r qp_key_def)
  ultimately show ?thesis using s0 sub by (intro exI [of _ s0] exI [of _ "popped_info q"] exI [of _ s1]) (auto simp: subset_singleton_iff)
qed

text \<open>The pod is popped, a node is added, the pod comes back.\<close>

lemma demo_attempt:
  "\<exists>s0 p s1 s2 queue s3. sq_reach demo_queue s0 \<and> sq_step demo_queue s0 (1, OpPop, PopAnswer (Popped p)) s1 \<and> qp_pod p = demo_pod
     \<and> sq_step demo_queue s1 (2, OpMoveAll node_added None None None [], NoAnswer) s2
     \<and> sq_step demo_queue s2 (3, OpAddUnschedulable demo_failed, Requeued (Inr queue)) s3"
proof -
  obtain s0 p s1 where s1: "sq_reach demo_queue s0" "sq_step demo_queue s0 (1, OpPop, PopAnswer (Popped p)) s1" "qp_pod p = demo_pod"
    "placed s1 = {}" using demo_popped by blast
  have ok1: "sq_ok demo_queue s1" using step_post [OF s1(2) reach_sq_ok [OF s1(1)]] by (simp add: sq_post_def)
  obtain b s2 where s2: "add_event_if_any_in_flight s1 None None node_added = (b, s2)" by fastforce
  have "uns s1 = Map.empty" using s1(4) by (auto simp: placed_def)
  then have step2: "sq_step demo_queue s1 (2, OpMoveAll node_added None None None [], NoAnswer) s2"
    by (simp add: sq_step_def quiet_def move_all_to_active_or_backoff_queue_def demo_hint(1) up_values_def
        move_pods_to_active_or_backoff_queue_def s2)
  have ok2: "queues_ok demo_queue s2" "flight_ok s2"
    using step_post [OF step2 ok1] by (simp_all add: sq_post_def sq_ok_def)
  have e: "placed s2 = {}" using add_event_any_ok [OF _ s2, of demo_queue] ok1 s1(4) by (simp add: sq_ok_def)
  obtain r s3 where r: "add_unschedulable_if_not_present demo_queue 3 demo_failed s2 = Some (r, s3)"
      "case r of Inl _ \<Rightarrow> qp_key demo_failed \<in> placed s2 | Inr _ \<Rightarrow> True"
    using add_unschedulable_ok [OF ok2, of 3 demo_failed] by (fastforce split: sum.splits)
  then obtain queue where "add_unschedulable_if_not_present demo_queue 3 demo_failed s2 = Some (Inr queue, s3)"
    using e by (cases r) auto
  then have "sq_step demo_queue s2 (3, OpAddUnschedulable demo_failed, Requeued (Inr queue)) s3" by (simp add: sq_step_def)
  then show ?thesis using s1 step2 by blast
qed

section \<open>Properties\<close>

text \<open>C2. In every state the queue can reach by any operations: a pod key is in at most one of activeQ, the
  two backoff heaps and the unschedulable pool; no pod in activeQ or a backoff heap is gated; the pods in
  flight are listed once each, and recorded events are kept only while a pod is in flight; the nominator's
  two indexes agree; and every operation returns, whatever its arguments: no heap access panics and the loops end.\<close>

theorem queue_invariant:
  assumes "sq_reach pq s"
  shows "(\<forall>k. length (filter (\<lambda>m. m k \<noteq> None) [act s, bko s, err s, uns s]) \<le> 1)
    \<and> (\<forall>k p. act s k = Some p \<or> bko s k = Some p \<or> err s k = Some p \<longrightarrow> \<not> qp_gated p)
    \<and> distinct (map pod_uid (sq_in_flight_pods s)) \<and> pod_uid ` set (sq_in_flight_pods s) = dom (in_in_flight_pods s)
    \<and> (in_in_flight_pods s = Map.empty \<longleftrightarrow> in_in_flight_events s = [])
    \<and> nominator_ok (in_nominator s)
    \<and> (\<forall>now op. valid_op s op \<longrightarrow> (\<exists>ans s'. sq_step pq s (now, op, ans) s'))"
proof -
  have ok: "queues_ok pq s" "flight_ok s" "sq_ok pq s" using reach_sq_ok [OF assms] by (simp_all add: sq_ok_def)
  have "length (filter (\<lambda>m. m k \<noteq> None) [act s, bko s, err s, uns s]) \<le> 1" for k
  proof -
    consider x where "act s k = Some x" | x where "act s k = None" "uns s k = Some x"
      | x where "act s k = None" "uns s k = None" "bko s k = Some x" | "act s k = None" "uns s k = None" "bko s k = None"
      by (cases "act s k"; cases "uns s k"; cases "bko s k") auto
    then show ?thesis
      using queues_okD(3-7) [OF ok(1)] backoff_okD(3) [OF queues_okD(2) [OF ok(1)]] by cases auto
  qed
  moreover have "\<forall>k p. act s k = Some p \<or> bko s k = Some p \<or> err s k = Some p \<longrightarrow> \<not> qp_gated p" "nominator_ok (in_nominator s)"
    using ok(1) by (simp_all add: queues_ok_def)
  moreover have "distinct (map pod_uid (sq_in_flight_pods s))" by (rule in_flight_distinct [OF ok(2)])
  moreover have "pod_uid ` set (sq_in_flight_pods s) = dom (in_in_flight_pods s)" by (rule in_flight_uids [OF ok(2)])
  moreover have "in_in_flight_pods s = Map.empty \<longleftrightarrow> in_in_flight_events s = []" by (rule in_flight_empty [OF ok(2)])
  moreover have "\<exists>ans s'. sq_step pq s (now, op, ans) s'" if "valid_op s op" for now op
    using exec_ok [OF ok(3) that, of now] that by (auto simp: sq_step_def)
  ultimately show ?thesis by blast
qed

text \<open>C1. No wake-up is missed. A pod is popped; while it is being scheduled any operations of any threads run,
  among them a cluster event some plugin is interested in; then the pod comes back as unschedulable. If the
  hints of the plugins that failed it find the event worth a retry, the pod goes to activeQ or to backoff and
  not to the unschedulable pool, unless a PreEnqueue plugin gates it.\<close>

theorem no_missed_event:
  assumes "sq_reach pq s0" and pop: "sq_step pq s0 (t0, OpPop, PopAnswer (Popped p)) s1"
    and run: "runs (sq_step pq) s1 ls s2" and flying: "\<forall>(now, op, ans)\<in>set ls. \<not> lands (pod_uid (qp_pod p)) op"
    and event: "(t, OpMoveAll event old_obj new_obj pre_check order, ans) \<in> set ls" "is_event_of_interest pq event"
    and returned: "pod_uid (qp_pod q) = pod_uid (qp_pod p)" "is_pod_worth_requeuing pq q event old_obj new_obj \<noteq> QueueSkip"
    and add: "sq_step pq s2 (t', OpAddUnschedulable q, Requeued (Inr queue)) s3"
  shows "(queue = UnschedulableQ \<longleftrightarrow> qp_gated (run_pre_enqueue_plugins pq (readd_info t' q)))
    \<and> (queue \<noteq> UnschedulableQ \<longrightarrow> qp_key q \<in> dom (act s3) \<union> dom (bko s3) \<union> dom (err s3))"
proof -
  have ok0: "sq_ok pq s0" by (rule reach_sq_ok [OF assms(1)])
  then have ok1: "sq_ok pq s1" using step_post [OF pop] by (simp add: sq_post_def)
  have ok2: "sq_ok pq s2" by (rule queue_system.runs_inv [OF run ok1])
  obtain n where n: "in_in_flight_pods s1 (pod_uid (qp_pod p)) = Some n" using pop_in_flight [OF ok0 pop] by blast
  let ?ev = "\<lparr>if_event = event, if_old_obj = old_obj, if_new_obj = new_obj\<rparr>"
  have n2: "in_in_flight_pods s2 (pod_uid (qp_pod p)) = Some n"
    "\<forall>(now, op, ans)\<in>set ls. set (announces pq op) \<subseteq> set (events_after n (in_in_flight_events s2))"
    using flight_events [OF run ok1 n flying] by blast+
  then have mem: "?ev \<in> set (events_after n (in_in_flight_events s2))" using event by fastforce
  have "in_in_flight_pods s2 (pod_uid (qp_pod (readd_info t' q))) = Some n" using n2(1) returned(1) by simp
  note evs = events_for_pod [OF this]
  have "hint_of_events pq (readd_info t' q) (events_after n (in_in_flight_events s2)) QueueSkip \<noteq> QueueSkip"
    using mem returned(2) unfolding hint_of_events_skip by force
  then have hint: "determine_scheduling_hint_for_in_flight_pod pq s2 (readd_info t' q) \<noteq> QueueSkip"
    by (simp add: determine_scheduling_hint_for_in_flight_pod_def evs)
  have ok2': "queues_ok pq s2" "flight_ok s2" using ok2 by (simp_all add: sq_ok_def)
  show ?thesis
    using add_unschedulable_ok [OF ok2', of t' q] add hint by (cases queue) (auto simp: sq_step_def)
qed

text \<open>C24. No pod is lost. An operation that takes a pod out of the queue is \<open>delete\<close> of that pod, or a \<open>pop\<close>
  that returns it or discards it because a pod with its UID is in flight already.\<close>

theorem pod_leaves_only_by_pop_or_delete:
  assumes "sq_reach pq s" and "sq_step pq s (now, op, ans) s'" and "k \<in> placed s" and "k \<notin> placed s'"
  shows "(\<exists>p. op = OpDelete p \<and> queue_pod_key p = k)
    \<or> (op = OpPop \<and> (\<exists>q. (act s k = Some q \<or> bko s k = Some q) \<and>
         (ans = PopAnswer (Popped (popped_info q)) \<or> in_in_flight_pods s (pod_uid (qp_pod q)) \<noteq> None)))"
proof -
  have "k \<in> may_drop s op ans"
    using step_post [OF assms(2) reach_sq_ok [OF assms(1)]] assms(3,4) by (auto simp: sq_post_def)
  then show ?thesis by (cases op) auto
qed

text \<open>\<open>pop\<close> returns a pod that is not in flight, from activeQ if activeQ has one and else from the
  (unschedulable) backoff heap; no pod left there comes before it in queue order. The pod has then left the
  queue, is in flight, has one more attempt, and no plugins are held against it.\<close>

lemma pop_takes_first:
  assumes "sq_reach pq s" and "sq_step pq s (now, OpPop, PopAnswer (Popped p)) s'"
  shows "(\<exists>q. p = popped_info q \<and> \<not> qp_gated q \<and>
      (act s (qp_key q) = Some q \<and> (\<forall>r\<in>ran (act s'). \<not> priority_sort_less r p)
       \<or> bko s (qp_key q) = Some q \<and> act s' = Map.empty
         \<and> (\<forall>r\<in>ran (bko s'). \<not> less_backoff_with_priority (pq_pod_initial_backoff pq) (pq_pod_max_backoff pq) r p)))
    \<and> qp_key p \<notin> placed s' \<and> in_in_flight_pods s (pod_uid (qp_pod p)) = None
    \<and> cluster_events_for_pod s' p = Inr [] \<and> last (sq_in_flight_pods s') = qp_pod p"
proof -
  have ok: "queues_ok pq s" "flight_ok s" using reach_sq_ok [OF assms(1)] by (simp_all add: sq_ok_def)
  obtain q where q: "unlocked_pop s = Some (Some p, s')" "queues_ok pq s'" "flight_ok s'" "popped pq s (Some p) s'"
    using popped_step [OF ok assms(2)] by blast
  have fl: "in_in_flight_pods s' = (in_in_flight_pods s)(pod_uid (qp_pod p) \<mapsto> in_next_seq s)"
    "in_in_flight_events s' = in_in_flight_events s @ [EntryPod (in_next_seq s) (qp_pod p)]"
    using q(4) by (simp_all add: popped_def flight_def)
  have "events_after (in_next_seq s) (in_in_flight_events s) = []"
    using flight_okD(3) [OF ok(2)] by (force simp: events_after_def List.map_filter_def filter_empty_conv)
  then have "cluster_events_for_pod s' p = Inr []" using events_for_pod [of s' p] fl by simp
  moreover have "last (sq_in_flight_pods s') = qp_pod p" by (simp add: sq_in_flight_pods_def fl(2) List.map_filter_def)
  ultimately show ?thesis using q(4) queues_okD(13,14) [OF ok(1)] unfolding popped_def by fastforce
qed

text \<open>The verdict on an event does not depend on the order in which the maps of hint functions are
  iterated, although the loops over them return early: a pod no plugin failed is retried after backoff; a
  wildcard event is for every pod, or for the one pod it names; else a hint of a pending plugin asks for an
  immediate retry, a hint of another plugin that failed the pod for a retry after backoff, and without any the
  pod stays.\<close>

lemma hint_verdict_reference:
  "is_pod_worth_requeuing pq p event old_obj new_obj =
     (if qp_unschedulable_plugins p \<union> qp_pending_plugins p = {} then QueueAfterBackoff
      else if cluster_event_is_wild_card event
      then (if new_obj = None \<or> (\<exists>q. new_obj = Some (ObjPod q) \<and> pod_uid q = pod_uid (qp_pod p)) then QueueAfterBackoff else QueueSkip)
      else (case map_of (pq_queueing_hint_map pq) (pod_scheduler_name (qp_pod p)) of
              None \<Rightarrow> QueueAfterBackoff
            | Some m \<Rightarrow> hint_verdict p QueueSkip (queueing_hints p event old_obj new_obj m)))"
  by (auto simp: is_pod_worth_requeuing_def run_hint_map_verdict split: option.split event_object.split)

theorem queue_invariant_witness:
  "\<exists>s. sq_step demo_queue (inner_new demo_queue None) (0, OpAdd demo_pod, NoAnswer) s
     \<and> length (filter (\<lambda>m. m ''ns/p'' \<noteq> None) [act s, bko s, err s, uns s]) \<le> 1
     \<and> (\<exists>ans s'. sq_step demo_queue s (1, OpPop, ans) s')"
proof -
  obtain s where s: "sq_step demo_queue (inner_new demo_queue None) (0, OpAdd demo_pod, NoAnswer) s" "sq_reach demo_queue s"
    using demo_added by blast
  have "valid_op s OpPop" by simp
  then show ?thesis using s(1) queue_invariant [OF s(2)] by blast
qed

theorem no_missed_event_witness:
  "\<exists>s0 p s1 s2 queue s3. sq_step demo_queue s0 (1, OpPop, PopAnswer (Popped p)) s1 \<and> qp_pod p = demo_pod
     \<and> sq_step demo_queue s1 (2, OpMoveAll node_added None None None [], NoAnswer) s2
     \<and> sq_step demo_queue s2 (3, OpAddUnschedulable demo_failed, Requeued (Inr queue)) s3
     \<and> queue \<noteq> UnschedulableQ \<and> ''ns/p'' \<in> dom (act s3) \<union> dom (bko s3) \<union> dom (err s3)"
proof -
  obtain s0 p s1 s2 queue s3 where r: "sq_reach demo_queue s0" "sq_step demo_queue s0 (1, OpPop, PopAnswer (Popped p)) s1"
      "qp_pod p = demo_pod" "sq_step demo_queue s1 (2, OpMoveAll node_added None None None [], NoAnswer) s2"
      "sq_step demo_queue s2 (3, OpAddUnschedulable demo_failed, Requeued (Inr queue)) s3"
    using demo_attempt by blast
  have run: "runs (sq_step demo_queue) s1 [(2, OpMoveAll node_added None None None [], NoAnswer)] s2" using r(4) by simp
  have pod: "pod_uid (qp_pod demo_failed) = pod_uid (qp_pod p)" "qp_key demo_failed = ''ns/p''"
    using r(3) by (simp_all add: demo_failed_def new_queued_pod_info_def qp_key_def demo_pod_def queue_pod_key_def pod_namespace_or_empty_def)
  have "queue \<noteq> UnschedulableQ \<and> ''ns/p'' \<in> dom (act s3) \<union> dom (bko s3) \<union> dom (err s3)"
    using no_missed_event [OF r(1,2) run _ _ demo_hint(1) pod(1) demo_hint(2) r(5), of 2 None "[]" NoAnswer]
    by (simp add: demo_not_gated pod(2))
  then show ?thesis using r by blast
qed

theorem pod_leaves_only_by_pop_or_delete_witness:
  "\<exists>s0 p s1. placed s0 = {''ns/p''} \<and> sq_step demo_queue s0 (1, OpPop, PopAnswer (Popped p)) s1 \<and> placed s1 = {}
     \<and> (\<exists>q. (act s0 ''ns/p'' = Some q \<or> bko s0 ''ns/p'' = Some q) \<and>
         (p = popped_info q \<or> in_in_flight_pods s0 (pod_uid (qp_pod q)) \<noteq> None))"
proof -
  have key: "queue_pod_key demo_pod = ''ns/p''" by (simp add: demo_pod_def queue_pod_key_def pod_namespace_or_empty_def)
  obtain s0 p s1 where "sq_reach demo_queue s0" "placed s0 = {queue_pod_key demo_pod}"
      "sq_step demo_queue s0 (1, OpPop, PopAnswer (Popped p)) s1" "placed s1 = {}" using demo_popped by blast
  note r = this [unfolded key]
  have "''ns/p'' \<in> placed s0" "''ns/p'' \<notin> placed s1" using r(2,4) by simp_all
  then have "\<exists>q. (act s0 ''ns/p'' = Some q \<or> bko s0 ''ns/p'' = Some q) \<and>
         (p = popped_info q \<or> in_in_flight_pods s0 (pod_uid (qp_pod q)) \<noteq> None)"
    using pod_leaves_only_by_pop_or_delete [OF r(1,3), of "''ns/p''"]
    unfolding sq_answer.inject pop_answer.inject by blast
  then show ?thesis using r by blast
qed

end
