(* ===== verification/Dealer.thy ===== *)
theory Dealer
  imports Prelude "HOL-Library.Word"
begin

text \<open>
  Seat-seconds and shuffle sharding of the API server's fair queues
  (\<^verbatim>\<open>crates/api-server/src/flow_control_queueset.rs\<close>).

  \<open>f64\<close> is a type parameter with a record of the operations the code uses: nothing below depends on how
  they round. Seat-seconds are 64-bit words and wrap as in the source.

  Shown: a dealer deals hands of distinct cards of its deck, and the hash values below the number of
  hands are dealt one to one to the hands, so that no hand is favoured.
\<close>

section \<open>Floating point and seat-seconds\<close>

record 'f f64 =
  f_of_nat :: "nat \<Rightarrow> 'f"
  f_of_int :: "int \<Rightarrow> 'f"
  f_mul :: "'f \<Rightarrow> 'f \<Rightarrow> 'f"
  f_div :: "'f \<Rightarrow> 'f \<Rightarrow> 'f"
  f_log2 :: "'f \<Rightarrow> 'f"
  f_round :: "'f \<Rightarrow> 'f"
  f_ceil :: "'f \<Rightarrow> 'f"
  f_to_i64 :: "'f \<Rightarrow> int"
  f_to_usize :: "'f \<Rightarrow> nat"

type_synonym seat_seconds = "64 word"

definition ss_scale :: "'f f64 \<Rightarrow> 'f" where
  "ss_scale F = f_of_nat F 100000000"

definition duration_per_seat :: "'f f64 \<Rightarrow> seat_seconds \<Rightarrow> 'f \<Rightarrow> int" where
  "duration_per_seat F w seats =
     f_to_i64 F (f_mul F (f_div F (f_of_nat F (unat w)) seats) (f_div F (f_of_nat F 1000000000) (ss_scale F)))"

definition seats_times_duration :: "'f f64 \<Rightarrow> 'f \<Rightarrow> int \<Rightarrow> seat_seconds" where
  "seats_times_duration F seats nanos =
     word_of_int (f_to_i64 F (f_round F
       (f_div F (f_mul F seats (f_of_int F nanos)) (f_div F (f_of_nat F 1000000000) (ss_scale F)))))"

section \<open>The dealer\<close>

definition max_hash_bits :: nat where "max_hash_bits = 60"

definition required_entropy_bits :: "'f f64 \<Rightarrow> nat \<Rightarrow> nat \<Rightarrow> nat" where
  "required_entropy_bits F deck_size hand_size =
     f_to_usize F (f_ceil F (f_mul F (f_log2 F (f_of_nat F deck_size)) (f_of_nat F hand_size)))"

record dealer =
  dl_deck_size :: nat
  dl_hand_size :: nat

datatype dealer_error =
    NotPositive int int
  | HandGreaterThanDeck int int
  | ImpracticallyLarge int
  | TooMuchEntropy int int nat

definition dealer_new :: "'f f64 \<Rightarrow> int \<Rightarrow> int \<Rightarrow> (dealer_error, dealer) result" where
  "dealer_new F deck_size hand_size =
     (if deck_size \<le> 0 \<or> hand_size \<le> 0 then Inl (NotPositive deck_size hand_size)
      else if hand_size > deck_size then Inl (HandGreaterThanDeck hand_size deck_size)
      else if deck_size > 2 ^ 26 then Inl (ImpracticallyLarge deck_size)
      else
        (let d = nat deck_size; h = nat hand_size in
         if required_entropy_bits F d h > max_hash_bits then Inl (TooMuchEntropy deck_size hand_size max_hash_bits)
         else Inr \<lparr>dl_deck_size = d, dl_hand_size = h\<rparr>))"

text \<open>The first loop of \<open>deal\<close>; \<open>d\<close> is the divisor, the deck without the cards dealt so far.\<close>

fun deal_remainders :: "nat \<Rightarrow> nat \<Rightarrow> nat \<Rightarrow> nat list" where
  "deal_remainders d 0 hash = []"
| "deal_remainders d (Suc n) hash =
     (let q = hash div d in (hash - d * q) # deal_remainders (d - 1) n q)"

text \<open>The inner loop of the second one, for \<open>j\<close> from \<open>i\<close> down to 1.\<close>

fun deal_adjust :: "nat list \<Rightarrow> nat \<Rightarrow> nat \<Rightarrow> nat or_panic" where
  "deal_adjust rs 0 c = Some c"
| "deal_adjust rs (Suc j) c =
     do { r \<leftarrow> vec_index rs j; deal_adjust rs j (if c \<ge> r then c + 1 else c) }"

fun deal_cards :: "nat list \<Rightarrow> nat list \<Rightarrow> nat list or_panic" where
  "deal_cards rs [] = Some []"
| "deal_cards rs (i # is) =
     do { c \<leftarrow> vec_index rs i; c \<leftarrow> deal_adjust rs i c; cards \<leftarrow> deal_cards rs is; Some (c # cards) }"

text \<open>The remainders are an array of 15; a larger hand would index beyond it.\<close>

definition deal_into_hand :: "dealer \<Rightarrow> nat \<Rightarrow> nat list or_panic" where
  "deal_into_hand dl hash =
     (let n = min 15 (dl_hand_size dl); rs = deal_remainders (dl_deck_size dl) n hash @ replicate (15 - n) 0
      in deal_cards rs [0..<dl_hand_size dl])"

section \<open>Hands\<close>

text \<open>Dealing without the array: the first remainder is a card, the others are cards of the deck
  without it.\<close>

definition skip_card :: "nat \<Rightarrow> nat \<Rightarrow> nat" where
  "skip_card r c = (if c \<ge> r then c + 1 else c)"

fun hand_of :: "nat list \<Rightarrow> nat list" where
  "hand_of [] = []"
| "hand_of (r # rs) = r # map (skip_card r) (hand_of rs)"

fun num_hands :: "nat \<Rightarrow> nat \<Rightarrow> nat" where
  "num_hands d 0 = 1"
| "num_hands d (Suc n) = d * num_hands (d - 1) n"

lemma skip_card_props: "inj (skip_card r)" "skip_card r c \<noteq> r" "c < d \<Longrightarrow> skip_card r c < Suc d"
  by (auto simp: skip_card_def inj_def split: if_splits)

lemma hand_of_length [simp]: "length (hand_of rs) = length rs"
  by (induction rs) auto

lemma deal_remainders_length [simp]: "length (deal_remainders d n hash) = n"
  by (induction d n hash rule: deal_remainders.induct) (simp_all add: Let_def)

text \<open>The loops over the array compute \<open>hand_of\<close>.\<close>

lemma deal_adjust_map:
  "i \<le> length rs \<Longrightarrow> deal_adjust (r # rs) (Suc i) c = map_option (skip_card r) (deal_adjust rs i c)"
proof (induction i arbitrary: c)
  case 0
  then show ?case by (simp add: vec_index_def skip_card_def)
next
  case (Suc i)
  have "deal_adjust (r # rs) (Suc (Suc i)) c =
      deal_adjust (r # rs) (Suc i) (if c \<ge> rs ! i then c + 1 else c)"
    using Suc.prems by (simp add: vec_index_def)
  then show ?case using Suc by (simp add: vec_index_def)
qed

lemma deal_adjust_hand: "i < length rs \<Longrightarrow> deal_adjust rs i (rs ! i) = Some (hand_of rs ! i)"
proof (induction rs arbitrary: i)
  case (Cons r rs)
  show ?case
  proof (cases i)
    case (Suc j)
    then have "deal_adjust (r # rs) (Suc j) (rs ! j) = map_option (skip_card r) (deal_adjust rs j (rs ! j))"
      using Cons.prems by (intro deal_adjust_map) simp
    then show ?thesis using Cons Suc by simp
  qed simp
qed simp

lemma deal_cards_hand: "(\<And>i. i \<in> set is \<Longrightarrow> i < length rs) \<Longrightarrow> deal_cards rs is = Some (map (\<lambda>i. hand_of rs ! i) is)"
  by (induction "is") (simp_all add: vec_index_def deal_adjust_hand)

lemma hand_of_append: "take (length rs) (hand_of (rs @ rs')) = hand_of rs"
  by (induction rs) (simp_all add: take_map)

lemma deal_into_hand_of:
  assumes "dl_hand_size dl \<le> 15"
  shows "deal_into_hand dl hash = Some (hand_of (deal_remainders (dl_deck_size dl) (dl_hand_size dl) hash))"
proof -
  let ?n = "dl_hand_size dl" and ?rs = "deal_remainders (dl_deck_size dl) (dl_hand_size dl) hash"
  let ?all = "?rs @ replicate (15 - ?n) 0"
  have "deal_into_hand dl hash = deal_cards ?all [0..<?n]" using assms by (simp add: deal_into_hand_def Let_def min_def)
  also have "\<dots> = Some (map (\<lambda>i. hand_of ?all ! i) [0..<?n])" by (rule deal_cards_hand) simp
  also have "map (\<lambda>i. hand_of ?all ! i) [0..<?n] = take ?n (hand_of ?all)"
    using assms by (intro nth_equalityI) simp_all
  also have "\<dots> = hand_of ?rs" using hand_of_append [of ?rs] by simp
  finally show ?thesis .
qed

text \<open>The remainders of a deck of \<open>d\<close> cards, and the hands.\<close>

fun mixed_radix :: "nat \<Rightarrow> nat list \<Rightarrow> bool" where
  "mixed_radix d [] \<longleftrightarrow> True"
| "mixed_radix d (r # rs) \<longleftrightarrow> r < d \<and> mixed_radix (d - 1) rs"

definition hands :: "nat \<Rightarrow> nat \<Rightarrow> nat list set" where
  "hands d n = {cs. length cs = n \<and> distinct cs \<and> set cs \<subseteq> {..<d}}"

lemma deal_remainders_mixed: "n \<le> d \<Longrightarrow> mixed_radix d (deal_remainders d n hash)"
  by (induction d n hash rule: deal_remainders.induct) (auto simp: Let_def minus_mult_div_eq_mod)

lemma mixed_radix_bij:
  "n \<le> d \<Longrightarrow> bij_betw (deal_remainders d n) {..<num_hands d n} {rs. length rs = n \<and> mixed_radix d rs}"
proof (induction n arbitrary: d)
  case 0
  then show ?case by (auto simp: bij_betw_def inj_on_def)
next
  case (Suc n)
  then have d: "d > 0" and IH: "bij_betw (deal_remainders (d - 1) n) {..<num_hands (d - 1) n} {rs. length rs = n \<and> mixed_radix (d - 1) rs}"
    by auto
  have step: "deal_remainders d (Suc n) h = (h mod d) # deal_remainders (d - 1) n (h div d)" for h
    by (simp add: Let_def minus_mult_div_eq_mod)
  have inj: "inj_on (deal_remainders d (Suc n)) {..<num_hands d (Suc n)}"
  proof (rule inj_onI)
    fix x y
    assume x: "x \<in> {..<num_hands d (Suc n)}" and y: "y \<in> {..<num_hands d (Suc n)}"
      and eq: "deal_remainders d (Suc n) x = deal_remainders d (Suc n) y"
    have "x div d < num_hands (d - 1) n" "y div d < num_hands (d - 1) n"
      using x y d by (simp_all add: less_mult_imp_div_less mult.commute)
    then have "x div d = y div d" using eq IH unfolding step by (auto simp: bij_betw_def inj_on_def)
    moreover have "x mod d = y mod d" using eq unfolding step by simp
    ultimately show "x = y" by (metis div_mult_mod_eq)
  qed
  have "rs \<in> deal_remainders d (Suc n) ` {..<num_hands d (Suc n)}" if rs: "length rs = Suc n" "mixed_radix d rs" for rs
  proof -
    obtain r rs' where r: "rs = r # rs'" "r < d" "length rs' = n" "mixed_radix (d - 1) rs'" using rs by (cases rs) auto
    then have "rs' \<in> deal_remainders (d - 1) n ` {..<num_hands (d - 1) n}" using IH unfolding bij_betw_def by blast
    then obtain q where q: "q < num_hands (d - 1) n" "deal_remainders (d - 1) n q = rs'" by blast
    have "q * d + r < Suc q * d" using r(2) by simp
    also have "\<dots> \<le> num_hands (d - 1) n * d" using q(1) by (intro mult_right_mono) simp_all
    finally have "q * d + r < num_hands d (Suc n)" by (simp add: mult.commute)
    moreover have "deal_remainders d (Suc n) (q * d + r) = rs" unfolding step using r q by simp
    ultimately show ?thesis by blast
  qed
  moreover have "deal_remainders d (Suc n) h \<in> {rs. length rs = Suc n \<and> mixed_radix d rs}" for h
    using deal_remainders_mixed [OF Suc.prems] by (simp del: deal_remainders.simps)
  ultimately show ?case using inj unfolding bij_betw_def by blast
qed

lemma unskip_card: "c \<noteq> r \<Longrightarrow> c < d \<Longrightarrow> r < d \<Longrightarrow> \<exists>c'. c = skip_card r c' \<and> c' < d - 1"
  by (cases "c < r") (auto simp: skip_card_def intro: exI [of _ c] exI [of _ "c - 1"])

lemma hand_of_bij: "bij_betw hand_of {rs. length rs = n \<and> mixed_radix d rs} (hands d n)"
proof (induction n arbitrary: d)
  case 0
  then show ?case by (auto simp: bij_betw_def hands_def inj_on_def)
next
  case (Suc n)
  note IH = Suc.IH [of "d - 1"]
  have "inj_on hand_of {rs. length rs = Suc n \<and> mixed_radix d rs}"
  proof (rule inj_onI)
    fix xs ys
    assume xs: "xs \<in> {rs. length rs = Suc n \<and> mixed_radix d rs}" and ys: "ys \<in> {rs. length rs = Suc n \<and> mixed_radix d rs}"
      and eq: "hand_of xs = hand_of ys"
    obtain x xs' y ys' where c: "xs = x # xs'" "ys = y # ys'" using xs ys by (cases xs; cases ys) auto
    then have "x = y" "map (skip_card x) (hand_of xs') = map (skip_card x) (hand_of ys')" using eq by auto
    then have "hand_of xs' = hand_of ys'" using skip_card_props(1) by (simp add: inj_map_eq_map)
    then show "xs = ys" using IH xs ys c \<open>x = y\<close> by (auto simp: bij_betw_def inj_on_def)
  qed
  moreover have "hand_of rs \<in> hands d (Suc n)" if rs: "length rs = Suc n" "mixed_radix d rs" for rs
  proof -
    obtain r rs' where r: "rs = r # rs'" "r < d" "length rs' = n" "mixed_radix (d - 1) rs'" using rs by (cases rs) auto
    then have h: "hand_of rs' \<in> hands (d - 1) n" using IH by (auto simp: bij_betw_def)
    have "skip_card r c < d" if "c \<in> set (hand_of rs')" for c
    proof -
      have "c < d - 1" using h that by (auto simp: hands_def)
      then show ?thesis using skip_card_props(3) [of c "d - 1" r] r(2) by simp
    qed
    then show ?thesis
      using h r skip_card_props(1) skip_card_props(2) [of r, THEN not_sym]
      by (auto simp: hands_def distinct_map intro: inj_on_subset)
  qed
  moreover have "cs \<in> hand_of ` {rs. length rs = Suc n \<and> mixed_radix d rs}" if cs: "cs \<in> hands d (Suc n)" for cs
  proof -
    obtain r cs' where r: "cs = r # cs'" "r < d" "length cs' = n" "distinct cs'" "r \<notin> set cs'" "set cs' \<subseteq> {..<d}"
      using cs by (cases cs) (auto simp: hands_def)
    then have "\<forall>c\<in>set cs'. \<exists>c'. c = skip_card r c' \<and> c' < d - 1" using unskip_card [of _ r d] by (metis lessThan_iff subsetD)
    then obtain f where f: "\<And>c. c \<in> set cs' \<Longrightarrow> c = skip_card r (f c) \<and> f c < d - 1" by metis
    have m: "map (skip_card r) (map f cs') = cs'" using f by (simp add: map_idI)
    then have "distinct (map f cs')" using r(4) by (metis distinct_map)
    then have "map f cs' \<in> hands (d - 1) n" using f r by (auto simp: hands_def)
    then obtain rs where "length rs = n" "mixed_radix (d - 1) rs" "hand_of rs = map f cs'"
      using IH unfolding bij_betw_def by (metis (mono_tags, lifting) image_iff mem_Collect_eq)
    then show ?thesis using r m by (intro image_eqI [of _ _ "r # rs"]) auto
  qed
  ultimately show ?case unfolding bij_betw_def by blast
qed

text \<open>A dealer the constructor can have made. That 16 cards of at least 16 need more entropy than the limit
  is what keeps the hand within the array.\<close>

definition dealer_ok :: "dealer \<Rightarrow> bool" where
  "dealer_ok dl \<longleftrightarrow> 0 < dl_hand_size dl \<and> dl_hand_size dl \<le> dl_deck_size dl \<and> dl_hand_size dl \<le> 15"

definition entropy_sound :: "'f f64 \<Rightarrow> bool" where
  "entropy_sound F \<longleftrightarrow> (\<forall>d h. 16 \<le> h \<and> h \<le> d \<longrightarrow> required_entropy_bits F d h > max_hash_bits)"

lemma dealer_new_ok:
  assumes "entropy_sound F" and "dealer_new F deck_size hand_size = Inr dl"
  shows "dealer_ok dl \<and> dl_deck_size dl = nat deck_size"
proof -
  have dl: "dl = \<lparr>dl_deck_size = nat deck_size, dl_hand_size = nat hand_size\<rparr>" "0 < deck_size" "0 < hand_size"
      "hand_size \<le> deck_size" "required_entropy_bits F (nat deck_size) (nat hand_size) \<le> max_hash_bits"
    using assms(2) by (auto simp: dealer_new_def Let_def split: if_splits)
  have "\<not> 16 \<le> nat hand_size"
  proof
    assume "16 \<le> nat hand_size"
    moreover have "nat hand_size \<le> nat deck_size" using dl(4) by simp
    ultimately have "required_entropy_bits F (nat deck_size) (nat hand_size) > max_hash_bits"
      using assms(1) unfolding entropy_sound_def by blast
    then show False using dl(5) by simp
  qed
  then show ?thesis using dl by (simp add: dealer_ok_def)
qed

lemma hand_ok:
  assumes "dealer_ok dl"
  shows "\<exists>hand. deal_into_hand dl hash = Some hand \<and> hand \<in> hands (dl_deck_size dl) (dl_hand_size dl)"
proof -
  let ?rs = "deal_remainders (dl_deck_size dl) (dl_hand_size dl) hash"
  have "mixed_radix (dl_deck_size dl) ?rs" using assms by (intro deal_remainders_mixed) (simp add: dealer_ok_def)
  then have "hand_of ?rs \<in> hands (dl_deck_size dl) (dl_hand_size dl)"
    using hand_of_bij [of "dl_hand_size dl" "dl_deck_size dl"] by (auto simp: bij_betw_def)
  then show ?thesis using deal_into_hand_of assms by (simp add: dealer_ok_def)
qed

section \<open>Properties\<close>

text \<open>C34. A dealer made by the constructor deals every hash value a hand, without indexing beyond its array,
  and the hash values below \<open>deck_size * (deck_size - 1) * ...\<close> (one factor per card) are dealt one to one
  to the hands of distinct cards of the deck: every hand can be dealt and none is dealt to two of them.\<close>

theorem hands_dealt_one_to_one:
  assumes "entropy_sound F" and "dealer_new F deck_size hand_size = Inr dl"
  shows "(\<forall>hash. \<exists>hand. deal_into_hand dl hash = Some hand \<and> length hand = nat hand_size
           \<and> distinct hand \<and> set hand \<subseteq> {..<nat deck_size})
    \<and> bij_betw (\<lambda>hash. the (deal_into_hand dl hash)) {..<num_hands (nat deck_size) (nat hand_size)}
        {hand. length hand = nat hand_size \<and> distinct hand \<and> set hand \<subseteq> {..<nat deck_size}}"
proof -
  have dl: "dealer_ok dl" "dl = \<lparr>dl_deck_size = nat deck_size, dl_hand_size = nat hand_size\<rparr>"
    using dealer_new_ok [OF assms] assms(2) by (auto simp: dealer_new_def Let_def split: if_splits)
  have "bij_betw (hand_of \<circ> deal_remainders (nat deck_size) (nat hand_size)) {..<num_hands (nat deck_size) (nat hand_size)}
      (hands (nat deck_size) (nat hand_size))"
    using dl by (intro bij_betw_trans [OF mixed_radix_bij hand_of_bij]) (simp add: dealer_ok_def)
  moreover have "(\<lambda>hash. the (deal_into_hand dl hash)) = hand_of \<circ> deal_remainders (nat deck_size) (nat hand_size)"
    using deal_into_hand_of [of dl] dl by (simp add: dealer_ok_def fun_eq_iff)
  ultimately show ?thesis using hand_ok [OF dl(1)] dl(2) by (auto simp: hands_def)
qed

text \<open>A floating point that computes on rationals, with the logarithm rounded down to an integer.\<close>

definition rat_f64 :: "rat f64" where
  "rat_f64 =
     \<lparr>f_of_nat = of_nat, f_of_int = of_int, f_mul = (*), f_div = (/), f_log2 = \<lambda>x. of_int (if x \<ge> 16 then 4 else 0),
      f_round = \<lambda>x. of_int (round x), f_ceil = \<lambda>x. of_int \<lceil>x\<rceil>, f_to_i64 = floor, f_to_usize = \<lambda>x. nat \<lfloor>x\<rfloor>\<rparr>"

lemma rat_f64_entropy: "entropy_sound rat_f64"
proof -
  have "required_entropy_bits rat_f64 d h > max_hash_bits" if "16 \<le> h" "h \<le> d" for d h
  proof -
    have "4 * (of_nat h :: rat) = of_int (int (4 * h))" by simp
    then have "nat \<lfloor>4 * (of_nat h :: rat)\<rfloor> = 4 * h" by (metis floor_of_int nat_int)
    moreover have "4 * (of_nat h :: rat) = of_int \<lceil>4 * (of_nat h :: rat)\<rceil>" by simp
    ultimately have "required_entropy_bits rat_f64 d h = 4 * h"
      using that unfolding required_entropy_bits_def rat_f64_def by simp
    then show ?thesis using that by (simp add: max_hash_bits_def)
  qed
  then show ?thesis by (simp add: entropy_sound_def)
qed

theorem hands_dealt_one_to_one_witness:
  "dealer_new rat_f64 4 2 = Inr \<lparr>dl_deck_size = 4, dl_hand_size = 2\<rparr>
   \<and> bij_betw (\<lambda>hash. the (deal_into_hand \<lparr>dl_deck_size = 4, dl_hand_size = 2\<rparr> hash)) {..<12}
       {hand. length hand = 2 \<and> distinct hand \<and> set hand \<subseteq> {..<4}}"
proof -
  have new: "dealer_new rat_f64 4 2 = Inr \<lparr>dl_deck_size = 4, dl_hand_size = 2\<rparr>"
    by (simp add: dealer_new_def required_entropy_bits_def rat_f64_def max_hash_bits_def)
  moreover have "num_hands 4 2 = 12" by (simp add: numeral_2_eq_2)
  ultimately show ?thesis using hands_dealt_one_to_one [OF rat_f64_entropy new] by simp
qed

end
