(* ===== verification/FairQueue.thy ===== *)
theory FairQueue
  imports Dealer
begin

text \<open>
  The fair queues of API Priority and Fairness (\<^verbatim>\<open>crates/api-server/src/flow_control_queueset.rs\<close>): requests
  of a priority level are sharded over queues and started in the order of their virtual finish times, so
  that the seats in use stay within the concurrency limit.

  \<open>queue_set\<close> is the state behind the mutex and every public operation one function on it, with the clock
  read once as \<open>now\<close>. A request that has started is owned by an \<open>Execution\<close> and before that by a
  \<open>RequestHandle\<close>; Rust's ownership of the two, and the timers that release seats later, are the
  record \<open>flow\<close> around the state. Unsigned subtractions wrap (\<open>usub\<close>), additions to the counters are not bounded.
  Metrics and logging are left out; the value last given to the seat demand integrator is a field.
\<close>

section \<open>Data\<close>

definition usub :: "nat \<Rightarrow> nat \<Rightarrow> nat" where
  "usub a b = (if b \<le> a then a - b else a + 2 ^ 64 - b)"

record queuing_config =
  qc_name :: string
  qc_desired_num_queues :: int
  qc_queue_length_limit :: int
  qc_hand_size :: int

record work_estimate =
  we_initial_seats :: nat
  we_final_seats :: nat
  we_additional_latency :: nat

definition we_max_seats :: "work_estimate \<Rightarrow> nat" where
  "we_max_seats we = max (we_initial_seats we) (we_final_seats we)"

record completed_work_estimate =
  cw_initial_seats :: nat
  cw_final_seats :: nat
  cw_additional_latency_ns :: int
  cw_total_work :: seat_seconds
  cw_final_work :: seat_seconds

definition cw_max_seats :: "completed_work_estimate \<Rightarrow> nat" where
  "cw_max_seats w = max (cw_initial_seats w) (cw_final_seats w)"

record queue_sum =
  su_initial_seats_sum :: nat
  su_max_seats_sum :: nat
  su_total_work_sum :: seat_seconds

datatype reject_reason = ConcurrencyLimit | QueueFull

record rejected =
  rj_reason :: reject_reason
  rj_idle :: bool

definition r_decrement :: seat_seconds where "r_decrement = (- 1) div 2"
definition high_r :: seat_seconds where "high_r = r_decrement + r_decrement div 2"
definition estimated_service_duration :: int where "estimated_service_duration = 3000000"

record request =
  rq_fs_name :: string
  rq_flow_distinguisher :: string
  rq_queue_id :: "nat option"
  rq_work :: completed_work_estimate
  rq_dispatched :: bool
  rq_arrival_time :: nat
  rq_arrival_r :: seat_seconds
  rq_start_time :: nat

record queue =
  fq_id :: nat
  fq_waiting :: "nat list"
  fq_sum :: queue_sum
  fq_next_dispatch_r :: seat_seconds
  fq_executing :: "nat set"
  fq_seats_in_use :: nat

definition queue_new :: "nat \<Rightarrow> queue" where
  "queue_new i =
     \<lparr>fq_id = i, fq_waiting = [], fq_sum = \<lparr>su_initial_seats_sum = 0, su_max_seats_sum = 0, su_total_work_sum = 0\<rparr>,
      fq_next_dispatch_r = 0, fq_executing = {}, fq_seats_in_use = 0\<rparr>"

record queue_set =
  qs_estimated_service_duration_ns :: int
  qs_qcfg :: queuing_config
  qs_concurrency_limit :: nat
  qs_dealer :: "dealer option"
  qs_queues :: "queue list"
  qs_requests :: "nat \<rightharpoonup> request"
  qs_queueless_executing :: "nat set"
  qs_current_r :: seat_seconds
  qs_last_real_time :: nat
  qs_robin_index :: int
  qs_tot_requests_waiting :: nat
  qs_tot_requests_executing :: nat
  qs_tot_seats_in_use :: nat
  qs_tot_seats_waiting :: nat
  qs_seat_demand :: nat
  qs_enqueues :: nat
  qs_tot_requests_dispatched :: nat
  qs_tot_requests_rejected :: nat
  qs_tot_requests_cancelled :: nat
  qs_next_request_id :: nat
  qs_next_queue_id :: nat

definition check_config :: "'f f64 \<Rightarrow> queuing_config \<Rightarrow> (dealer_error, dealer option) result" where
  "check_config F qcfg =
     (if qc_desired_num_queues qcfg \<le> 0 then Inr None
      else (case dealer_new F (qc_desired_num_queues qcfg) (qc_hand_size qcfg) of
              Inl e \<Rightarrow> Inl e
            | Inr d \<Rightarrow> Inr (Some d)))"

definition inner_new :: "nat \<Rightarrow> queue_set" where
  "inner_new now =
     \<lparr>qs_estimated_service_duration_ns = estimated_service_duration,
      qs_qcfg = \<lparr>qc_name = '''', qc_desired_num_queues = 0, qc_queue_length_limit = 0, qc_hand_size = 0\<rparr>,
      qs_concurrency_limit = 0, qs_dealer = None, qs_queues = [], qs_requests = Map.empty, qs_queueless_executing = {},
      qs_current_r = 0, qs_last_real_time = now, qs_robin_index = 0, qs_tot_requests_waiting = 0,
      qs_tot_requests_executing = 0, qs_tot_seats_in_use = 0, qs_tot_seats_waiting = 0, qs_seat_demand = 0,
      qs_enqueues = 0, qs_tot_requests_dispatched = 0, qs_tot_requests_rejected = 0, qs_tot_requests_cancelled = 0,
      qs_next_request_id = 0, qs_next_queue_id = 0\<rparr>"

definition create_queue :: "queue_set \<Rightarrow> queue \<times> queue_set" where
  "create_queue s = (queue_new (qs_next_queue_id s), s\<lparr>qs_next_queue_id := qs_next_queue_id s + 1\<rparr>)"

text \<open>\<open>iter().position\<close>.\<close>

fun position :: "('a \<Rightarrow> bool) \<Rightarrow> 'a list \<Rightarrow> nat option" where
  "position P [] = None"
| "position P (x # xs) = (if P x then Some 0 else map_option Suc (position P xs))"

definition queue_pos :: "queue_set \<Rightarrow> nat \<Rightarrow> nat option" where
  "queue_pos s i = position (\<lambda>q. fq_id q = i) (qs_queues s)"

definition set_queue :: "queue_set \<Rightarrow> nat \<Rightarrow> (queue \<Rightarrow> queue) \<Rightarrow> queue_set" where
  "set_queue s qpos f = s\<lparr>qs_queues := (qs_queues s)[qpos := f (qs_queues s ! qpos)]\<rparr>"

definition queue_is_empty :: "queue \<Rightarrow> bool" where
  "queue_is_empty q \<longleftrightarrow> fq_waiting q = [] \<and> fq_executing q = {}"

definition is_idle :: "queue_set \<Rightarrow> bool" where
  "is_idle s \<longleftrightarrow> qs_tot_requests_waiting s = 0 \<and> qs_tot_requests_executing s = 0"

definition nanos :: "nat \<Rightarrow> int" where
  "nanos d = min (int d) (2 ^ 63 - 1)"

section \<open>Virtual time\<close>

definition virtual_time_ratio :: "'f f64 \<Rightarrow> queue_set \<Rightarrow> 'f" where
  "virtual_time_ratio F s =
     (let active_queues = length (filter (\<lambda>q. \<not> queue_is_empty q) (qs_queues s));
          seats_requested = (\<Sum>q\<leftarrow>qs_queues s. fq_seats_in_use q + su_max_seats_sum (fq_sum q))
      in if active_queues = 0 then f_of_nat F 0
         else f_div F (f_of_nat F (min seats_requested (qs_concurrency_limit s))) (f_of_nat F active_queues))"

definition lower_arrival :: "(nat \<rightharpoonup> request) \<Rightarrow> nat \<Rightarrow> (nat \<rightharpoonup> request)" where
  "lower_arrival m rid =
     (case m rid of
        None \<Rightarrow> m
      | Some r \<Rightarrow> m(rid \<mapsto> r\<lparr>rq_arrival_r := rq_arrival_r r - r_decrement\<rparr>))"

fun advance_queues :: "queue list \<Rightarrow> (nat \<rightharpoonup> request) \<Rightarrow> queue list \<times> (nat \<rightharpoonup> request)" where
  "advance_queues [] m = ([], m)"
| "advance_queues (q # qs) m =
     (if queue_is_empty q
      then (let (qs', m') = advance_queues qs m in (q\<lparr>fq_next_dispatch_r := 0\<rparr> # qs', m'))
      else
        (let (qs', m') = advance_queues qs (fold (\<lambda>rid m. lower_arrival m rid) (fq_waiting q) m)
         in (q\<lparr>fq_next_dispatch_r := fq_next_dispatch_r q - r_decrement\<rparr> # qs', m')))"

definition advance_epoch :: "queue_set \<Rightarrow> queue_set" where
  "advance_epoch s =
     (let (qs, m) = advance_queues (qs_queues s) (qs_requests s)
      in s\<lparr>qs_current_r := qs_current_r s - r_decrement, qs_queues := qs, qs_requests := m\<rparr>)"

definition sync_time :: "'f f64 \<Rightarrow> nat \<Rightarrow> queue_set \<Rightarrow> queue_set" where
  "sync_time F now s =
     (let since_last = nanos (now - qs_last_real_time s);
          prev_r = qs_current_r s;
          incr_r = seats_times_duration F (virtual_time_ratio F s) since_last;
          s1 = s\<lparr>qs_last_real_time := now, qs_current_r := prev_r + incr_r\<rparr>
      in if prev_r > qs_current_r s1 then s1
         else if qs_current_r s1 \<ge> high_r then advance_epoch s1 else s1)"

definition note_seat_demand :: "queue_set \<Rightarrow> queue_set" where
  "note_seat_demand s = s\<lparr>qs_seat_demand := qs_tot_seats_in_use s + qs_tot_seats_waiting s\<rparr>"

definition complete_work_estimate :: "'f f64 \<Rightarrow> queue_set \<Rightarrow> work_estimate \<Rightarrow> completed_work_estimate" where
  "complete_work_estimate F s we =
     (let latency = nanos (we_additional_latency we);
          final_work = seats_times_duration F (f_of_nat F (we_final_seats we)) latency;
          initial_work = seats_times_duration F (f_of_nat F (we_initial_seats we)) (qs_estimated_service_duration_ns s)
      in \<lparr>cw_initial_seats = we_initial_seats we, cw_final_seats = we_final_seats we, cw_additional_latency_ns = latency,
          cw_total_work = initial_work + final_work, cw_final_work = final_work\<rparr>)"

definition can_accommodate_seats :: "queue_set \<Rightarrow> nat \<Rightarrow> bool" where
  "can_accommodate_seats s seats =
     (if qc_desired_num_queues (qs_qcfg s) < 0 then True
      else if seats > qs_concurrency_limit s then qs_tot_requests_executing s = 0
      else qs_tot_seats_in_use s + seats \<le> qs_concurrency_limit s)"

section \<open>Queues\<close>

definition new_request ::
  "nat \<Rightarrow> string \<Rightarrow> string \<Rightarrow> nat option \<Rightarrow> completed_work_estimate \<Rightarrow> bool \<Rightarrow> queue_set \<Rightarrow> nat \<times> queue_set" where
  "new_request now fs_name flow_distinguisher queue_id work dispatched s =
     (let rid = qs_next_request_id s in
      (rid, s\<lparr>qs_next_request_id := rid + 1,
              qs_requests := (qs_requests s)(rid \<mapsto>
                \<lparr>rq_fs_name = fs_name, rq_flow_distinguisher = flow_distinguisher, rq_queue_id = queue_id, rq_work = work,
                 rq_dispatched = dispatched, rq_arrival_time = now, rq_arrival_r = qs_current_r s,
                 rq_start_time = (if dispatched then now else 0)\<rparr>)\<rparr>))"

text \<open>The loop of \<open>shuffle_shard\<close> over the hand, from the offset on.\<close>

fun shard_loop :: "queue list \<Rightarrow> nat list \<Rightarrow> nat \<Rightarrow> nat list \<Rightarrow> nat option \<Rightarrow> seat_seconds \<Rightarrow> nat option or_panic" where
  "shard_loop queues hand offset [] best mn = Some best"
| "shard_loop queues hand offset (i # is) best mn =
     do { queue_idx \<leftarrow> vec_index hand ((offset + i) mod length hand);
          q \<leftarrow> vec_index queues queue_idx;
          let this = su_total_work_sum (fq_sum q);
          if this < mn then shard_loop queues hand offset is (Some queue_idx) this
          else shard_loop queues hand offset is best mn }"

definition shuffle_shard :: "nat \<Rightarrow> queue_set \<Rightarrow> (nat \<times> queue_set) or_panic" where
  "shuffle_shard hash_value s =
     do { dealer \<leftarrow> qs_dealer s;
          hand \<leftarrow> deal_into_hand dealer hash_value;
          if hand = [] then None
          else do { best \<leftarrow> shard_loop (qs_queues s) hand (qs_enqueues s mod length hand) [0..<length hand] None (- 1);
                    Some (case best of Some i \<Rightarrow> i | None \<Rightarrow> hd hand, s\<lparr>qs_enqueues := qs_enqueues s + 1\<rparr>) } }"

definition enqueue_to_bound :: "nat \<Rightarrow> nat \<Rightarrow> queue_set \<Rightarrow> queue_set or_panic" where
  "enqueue_to_bound qid rid s =
     do { qpos \<leftarrow> queue_pos s qid;
          let s1 = (if queue_is_empty (qs_queues s ! qpos)
                    then set_queue s qpos (\<lambda>q. q\<lparr>fq_next_dispatch_r := qs_current_r s\<rparr>) else s);
          r \<leftarrow> qs_requests s1 rid;
          let w = rq_work r;
          let s2 = set_queue s1 qpos (\<lambda>q. q\<lparr>fq_waiting := fq_waiting q @ [rid],
                     fq_sum := \<lparr>su_initial_seats_sum = su_initial_seats_sum (fq_sum q) + cw_initial_seats w,
                                su_max_seats_sum = su_max_seats_sum (fq_sum q) + cw_max_seats w,
                                su_total_work_sum = su_total_work_sum (fq_sum q) + cw_total_work w\<rparr>\<rparr>);
          Some (note_seat_demand (s2\<lparr>qs_tot_requests_waiting := qs_tot_requests_waiting s2 + 1,
                                     qs_tot_seats_waiting := qs_tot_seats_waiting s2 + cw_max_seats w\<rparr>)) }"

definition remove_waiting :: "nat \<Rightarrow> nat \<Rightarrow> queue_set \<Rightarrow> (bool \<times> queue_set) or_panic" where
  "remove_waiting qid rid s =
     (case queue_pos s qid of
        None \<Rightarrow> Some (False, s)
      | Some qpos \<Rightarrow>
          (case position (\<lambda>r. r = rid) (fq_waiting (qs_queues s ! qpos)) of
             None \<Rightarrow> Some (False, s)
           | Some i \<Rightarrow>
               do { r \<leftarrow> qs_requests s rid;
                    let w = rq_work r;
                    Some (True, set_queue s qpos (\<lambda>q. q\<lparr>fq_waiting := take i (fq_waiting q) @ drop (Suc i) (fq_waiting q),
                      fq_sum := \<lparr>su_initial_seats_sum = usub (su_initial_seats_sum (fq_sum q)) (cw_initial_seats w),
                                 su_max_seats_sum = usub (su_max_seats_sum (fq_sum q)) (cw_max_seats w),
                                 su_total_work_sum = su_total_work_sum (fq_sum q) - cw_total_work w\<rparr>\<rparr>)) }))"

definition bound_next_dispatch :: "nat \<Rightarrow> queue_set \<Rightarrow> queue_set or_panic" where
  "bound_next_dispatch qid s =
     (case queue_pos s qid of
        None \<Rightarrow> Some s
      | Some qpos \<Rightarrow>
          (case fq_waiting (qs_queues s ! qpos) of
             [] \<Rightarrow> Some s
           | oldest # _ \<Rightarrow>
               do { r \<leftarrow> qs_requests s oldest;
                    let bound = rq_arrival_r r;
                    Some (set_queue s qpos (\<lambda>q. if fq_next_dispatch_r q < bound then q\<lparr>fq_next_dispatch_r := bound\<rparr> else q)) }))"

definition shuffle_shard_and_reject_or_enqueue ::
  "'f f64 \<Rightarrow> nat \<Rightarrow> work_estimate \<Rightarrow> nat \<Rightarrow> string \<Rightarrow> string \<Rightarrow> queue_set \<Rightarrow> (nat option \<times> queue_set) or_panic" where
  "shuffle_shard_and_reject_or_enqueue F now we hash_value flow_distinguisher fs_name s =
     do { (qpos, s1) \<leftarrow> shuffle_shard hash_value s;
          q \<leftarrow> vec_index (qs_queues s1) qpos;
          let qid = fq_id q;
          let work = complete_work_estimate F s1 we;
          let ok = (\<not> (qs_tot_seats_in_use s1 \<ge> qs_concurrency_limit s1
                       \<and> int (length (fq_waiting q)) \<ge> qc_queue_length_limit (qs_qcfg s1)));
          (rid, s2) \<leftarrow>
            (if ok
             then (let (rid, s2) = new_request now fs_name flow_distinguisher (Some qid) work False s1
                   in do { s3 \<leftarrow> enqueue_to_bound qid rid s2; Some (Some rid, s3) })
             else Some (None, s1));
          s3 \<leftarrow> bound_next_dispatch qid s2;
          Some (rid, s3) }"

section \<open>Dispatching\<close>

text \<open>The loop over the queues in round-robin order. The index is never below -1, where the remainder of the
  source and \<open>mod\<close> agree.\<close>

fun find_loop :: "queue_set \<Rightarrow> nat \<Rightarrow> int \<Rightarrow> seat_seconds \<Rightarrow> nat option \<Rightarrow> (int \<times> nat option) or_panic" where
  "find_loop s 0 robin mn min_queue = Some (robin, min_queue)"
| "find_loop s (Suc k) robin mn min_queue =
     (let robin' = (robin + 1) mod int (length (qs_queues s)) in
      do { q \<leftarrow> vec_index (qs_queues s) (nat robin');
           (case fq_waiting q of
              [] \<Rightarrow> find_loop s k robin' mn min_queue
            | oldest # _ \<Rightarrow>
                do { r \<leftarrow> qs_requests s oldest;
                     let virtual_finish = fq_next_dispatch_r q + cw_total_work (rq_work r);
                     if virtual_finish < mn then find_loop s k robin' virtual_finish (Some (nat robin'))
                     else find_loop s k robin' mn min_queue }) })"

text \<open>Final seats beyond the limit are reduced to it, and the latency stretched to keep the work.\<close>

definition reduce_final_seats :: "'f f64 \<Rightarrow> nat \<Rightarrow> completed_work_estimate \<Rightarrow> completed_work_estimate" where
  "reduce_final_seats F limit w =
     (if cw_final_seats w > limit
      then w\<lparr>cw_additional_latency_ns := duration_per_seat F (cw_final_work w) (f_of_nat F limit), cw_final_seats := limit\<rparr>
      else w)"

definition find_dispatch_queue_to_bound :: "'f f64 \<Rightarrow> queue_set \<Rightarrow> ((nat \<times> nat) option \<times> queue_set) or_panic" where
  "find_dispatch_queue_to_bound F s =
     do { (robin, min_queue) \<leftarrow> find_loop s (length (qs_queues s)) (qs_robin_index s) (- 1) None;
          let s1 = s\<lparr>qs_robin_index := robin\<rparr>;
          (case min_queue of
             None \<Rightarrow> Some (None, s1)
           | Some min_index \<Rightarrow>
               do { q \<leftarrow> vec_index (qs_queues s1) min_index;
                    (case fq_waiting q of
                       [] \<Rightarrow> Some (None, s1)
                     | rid # _ \<Rightarrow>
                         do { r \<leftarrow> qs_requests s1 rid;
                              if \<not> can_accommodate_seats s1 (cw_max_seats (rq_work r)) then Some (None, s1)
                              else do { (_, s2) \<leftarrow> remove_waiting (fq_id q) rid s1;
                                        r \<leftarrow> qs_requests s2 rid;
                                        Some (Some (fq_id q, rid),
                                          s2\<lparr>qs_requests := (qs_requests s2)(rid \<mapsto>
                                               r\<lparr>rq_work := reduce_final_seats F (qs_concurrency_limit s2) (rq_work r)\<rparr>),
                                             qs_robin_index := int min_index\<rparr>) } }) }) }"

definition dispatch :: "'f f64 \<Rightarrow> nat \<Rightarrow> queue_set \<Rightarrow> (bool \<times> queue_set) or_panic" where
  "dispatch F now s =
     do { (found, s1) \<leftarrow> find_dispatch_queue_to_bound F s;
          (case found of
             None \<Rightarrow> Some (False, s1)
           | Some (qid, rid) \<Rightarrow>
               do { r \<leftarrow> qs_requests s1 rid;
                    let work = rq_work r;
                    let s2 = s1\<lparr>qs_tot_requests_waiting := usub (qs_tot_requests_waiting s1) 1,
                                qs_tot_seats_waiting := usub (qs_tot_seats_waiting s1) (cw_max_seats work),
                                qs_requests := (qs_requests s1)(rid \<mapsto> r\<lparr>rq_dispatched := True, rq_start_time := now\<rparr>)\<rparr>;
                    let s3 = note_seat_demand (s2\<lparr>qs_tot_requests_executing := qs_tot_requests_executing s2 + 1,
                                qs_tot_seats_in_use := qs_tot_seats_in_use s2 + cw_max_seats work\<rparr>);
                    qpos \<leftarrow> queue_pos s3 qid;
                    let s4 = set_queue s3 qpos (\<lambda>q. q\<lparr>fq_executing := insert rid (fq_executing q),
                               fq_seats_in_use := fq_seats_in_use q + cw_max_seats work,
                               fq_next_dispatch_r := fq_next_dispatch_r q + cw_total_work work\<rparr>);
                    s5 \<leftarrow> bound_next_dispatch qid s4;
                    Some (True, s5) }) }"

partial_function (option) dispatch_as_much_as_possible :: "'f f64 \<Rightarrow> nat \<Rightarrow> queue_set \<Rightarrow> queue_set or_panic" where
  "dispatch_as_much_as_possible F now s =
     (if qs_tot_requests_waiting s \<noteq> 0 \<and> qs_tot_seats_in_use s < qs_concurrency_limit s
      then do { (more, s1) \<leftarrow> dispatch F now s;
                if more then dispatch_as_much_as_possible F now s1 else Some s1 }
      else Some s)"

declare dispatch_as_much_as_possible.simps [code]

definition dispatch_sans_queue ::
  "'f f64 \<Rightarrow> nat \<Rightarrow> work_estimate \<Rightarrow> string \<Rightarrow> string \<Rightarrow> queue_set \<Rightarrow> nat \<times> queue_set" where
  "dispatch_sans_queue F now we flow_distinguisher fs_name s =
     (let work = complete_work_estimate F s we;
          (rid, s1) = new_request now fs_name flow_distinguisher None work True s;
          s2 = note_seat_demand (s1\<lparr>qs_tot_requests_executing := qs_tot_requests_executing s1 + 1,
                 qs_tot_seats_in_use := qs_tot_seats_in_use s1 + cw_max_seats work\<rparr>)
      in (rid, s2\<lparr>qs_queueless_executing := insert rid (qs_queueless_executing s2)\<rparr>))"

section \<open>Finishing\<close>

definition remove_queue_if_empty :: "nat \<Rightarrow> queue_set \<Rightarrow> queue_set" where
  "remove_queue_if_empty qid s =
     (case queue_pos s qid of
        None \<Rightarrow> s
      | Some qpos \<Rightarrow>
          if int (length (qs_queues s)) > qc_desired_num_queues (qs_qcfg s) \<and> queue_is_empty (qs_queues s ! qpos)
          then s\<lparr>qs_queues := take qpos (qs_queues s) @ drop (Suc qpos) (qs_queues s),
                 qs_robin_index := (if qs_robin_index s \<ge> int qpos then qs_robin_index s - 1 else qs_robin_index s)\<rparr>
          else s)"

definition release_seats :: "nat \<Rightarrow> queue_set \<Rightarrow> queue_set" where
  "release_seats rid s =
     (case qs_requests s rid of
        None \<Rightarrow> s
      | Some r \<Rightarrow>
          (let mx = cw_max_seats (rq_work r);
               s1 = note_seat_demand (s\<lparr>qs_requests := (qs_requests s)(rid := None),
                      qs_tot_seats_in_use := usub (qs_tot_seats_in_use s) mx\<rparr>)
           in case rq_queue_id r of
                None \<Rightarrow> s1
              | Some qid \<Rightarrow>
                  remove_queue_if_empty qid
                    (case queue_pos s1 qid of
                       None \<Rightarrow> s1
                     | Some qpos \<Rightarrow> set_queue s1 qpos (\<lambda>q. q\<lparr>fq_seats_in_use := usub (fq_seats_in_use q) mx\<rparr>))))"

text \<open>The answer is the time the seats stay taken, if they do.\<close>

definition finish_request :: "'f f64 \<Rightarrow> nat \<Rightarrow> nat \<Rightarrow> queue_set \<Rightarrow> (nat option \<times> queue_set) or_panic" where
  "finish_request F now rid s =
     (let s1 = s\<lparr>qs_tot_requests_executing := usub (qs_tot_requests_executing s) 1\<rparr> in
      do { r \<leftarrow> qs_requests s1 rid;
           let actual_ns = nanos (now - rq_start_time r);
           s2 \<leftarrow> (case rq_queue_id r of
                    Some qid \<Rightarrow>
                      bound_next_dispatch qid
                        (case queue_pos s1 qid of
                           None \<Rightarrow> s1
                         | Some qpos \<Rightarrow>
                             set_queue s1 qpos (\<lambda>q. q\<lparr>fq_executing := fq_executing q - {rid},
                               fq_next_dispatch_r := fq_next_dispatch_r q -
                                 seats_times_duration F (f_of_nat F (cw_initial_seats (rq_work r)))
                                   (qs_estimated_service_duration_ns s1 - actual_ns)\<rparr>))
                  | None \<Rightarrow> Some (s1\<lparr>qs_queueless_executing := qs_queueless_executing s1 - {rid}\<rparr>));
           let latency = cw_additional_latency_ns (rq_work r);
           if latency \<le> 0 then Some (None, release_seats rid s2)
           else Some (Some (nat latency), s2) })"

definition cancel_waiting :: "nat \<Rightarrow> queue_set \<Rightarrow> queue_set or_panic" where
  "cancel_waiting rid s =
     (case qs_requests s rid of
        None \<Rightarrow> Some s
      | Some r \<Rightarrow>
          (case rq_queue_id r of
             None \<Rightarrow> Some s
           | Some qid \<Rightarrow>
               do { (removed, s1) \<leftarrow> remove_waiting qid rid s;
                    if removed
                    then (let s2 = note_seat_demand (s1\<lparr>qs_tot_requests_waiting := usub (qs_tot_requests_waiting s1) 1,
                                     qs_tot_seats_waiting := usub (qs_tot_seats_waiting s1) (cw_max_seats (rq_work r))\<rparr>)
                          in bound_next_dispatch qid
                               (s2\<lparr>qs_tot_requests_rejected := qs_tot_requests_rejected s2 + 1,
                                   qs_tot_requests_cancelled := qs_tot_requests_cancelled s2 + 1,
                                   qs_requests := (qs_requests s2)(rid := None)\<rparr>))
                    else Some s1 }))"

section \<open>The operations\<close>

text \<open>The loop that adds queues; it runs \<open>n\<close> times.\<close>

fun add_queues :: "nat \<Rightarrow> queue_set \<Rightarrow> queue_set" where
  "add_queues 0 s = s"
| "add_queues (Suc n) s = (let (q, s1) = create_queue s in add_queues n (s1\<lparr>qs_queues := qs_queues s1 @ [q]\<rparr>))"

definition set_configuration ::
  "'f f64 \<Rightarrow> nat \<Rightarrow> queuing_config \<Rightarrow> dealer option \<Rightarrow> nat \<Rightarrow> queue_set \<Rightarrow> queue_set or_panic" where
  "set_configuration F now qcfg dealer limit s =
     (let s1 = sync_time F now s;
          s2 = (if qc_desired_num_queues qcfg > 0
                then add_queues (nat (qc_desired_num_queues qcfg) - length (qs_queues s1)) s1 else s1);
          qcfg' = (if qc_desired_num_queues qcfg > 0 then qcfg
                   else qcfg\<lparr>qc_queue_length_limit := qc_queue_length_limit (qs_qcfg s1), qc_hand_size := qc_hand_size (qs_qcfg s1)\<rparr>)
      in dispatch_as_much_as_possible F now (s2\<lparr>qs_qcfg := qcfg', qs_concurrency_limit := limit, qs_dealer := dealer\<rparr>))"

text \<open>\<open>QueueSet::new\<close> and \<open>QueueSet::set_configuration\<close>.\<close>

definition fq_configure ::
  "'f f64 \<Rightarrow> nat \<Rightarrow> queuing_config \<Rightarrow> nat \<Rightarrow> queue_set \<Rightarrow> ((dealer_error, unit) result \<times> queue_set) or_panic" where
  "fq_configure F now qcfg limit s =
     (case check_config F qcfg of
        Inl e \<Rightarrow> Some (Inl e, s)
      | Inr dealer \<Rightarrow> do { s1 \<leftarrow> set_configuration F now qcfg dealer limit s; Some (Inr (), s1) })"

definition start_request ::
  "'f f64 \<Rightarrow> nat \<Rightarrow> work_estimate \<Rightarrow> nat \<Rightarrow> string \<Rightarrow> string \<Rightarrow> queue_set \<Rightarrow> ((rejected, nat) result \<times> queue_set) or_panic" where
  "start_request F now we hash_value flow_distinguisher fs_name s =
     (let s1 = sync_time F now s in
      if qc_desired_num_queues (qs_qcfg s1) < 1
      then
        (if \<not> can_accommodate_seats s1 (we_max_seats we)
         then (let s2 = s1\<lparr>qs_tot_requests_rejected := qs_tot_requests_rejected s1 + 1\<rparr>
               in Some (Inl \<lparr>rj_reason = ConcurrencyLimit, rj_idle = is_idle s2\<rparr>, s2))
         else (let (rid, s2) = dispatch_sans_queue F now we flow_distinguisher fs_name s1 in Some (Inr rid, s2)))
      else
        do { (rid, s2) \<leftarrow> shuffle_shard_and_reject_or_enqueue F now we hash_value flow_distinguisher fs_name s1;
             (case rid of
                None \<Rightarrow>
                  (let s3 = s2\<lparr>qs_tot_requests_rejected := qs_tot_requests_rejected s2 + 1\<rparr>
                   in Some (Inl \<lparr>rj_reason = QueueFull, rj_idle = is_idle s3\<rparr>, s3))
              | Some rid \<Rightarrow> do { s3 \<leftarrow> dispatch_as_much_as_possible F now s2; Some (Inr rid, s3) }) })"

definition finish_request_and_dispatch :: "'f f64 \<Rightarrow> nat \<Rightarrow> nat \<Rightarrow> queue_set \<Rightarrow> (nat option \<times> bool \<times> queue_set) or_panic" where
  "finish_request_and_dispatch F now rid s =
     do { (linger, s1) \<leftarrow> finish_request F now rid (sync_time F now s);
          s2 \<leftarrow> dispatch_as_much_as_possible F now s1;
          Some (linger, is_idle s2, s2) }"

text \<open>What the timer does when the seats are due.\<close>

definition release_later :: "'f f64 \<Rightarrow> nat \<Rightarrow> nat \<Rightarrow> queue_set \<Rightarrow> queue_set or_panic" where
  "release_later F now rid s = dispatch_as_much_as_possible F now (release_seats rid (sync_time F now s))"

definition is_dispatched :: "queue_set \<Rightarrow> nat \<Rightarrow> bool" where
  "is_dispatched s rid \<longleftrightarrow> (case qs_requests s rid of None \<Rightarrow> False | Some r \<Rightarrow> rq_dispatched r)"

text \<open>The first critical section of \<open>cancel\<close>; if it answers true, \<open>finish_request_and_dispatch\<close> follows.\<close>

definition fq_cancel :: "'f f64 \<Rightarrow> nat \<Rightarrow> nat \<Rightarrow> queue_set \<Rightarrow> (bool \<times> queue_set) or_panic" where
  "fq_cancel F now rid s =
     (let s1 = sync_time F now s; dispatched = is_dispatched s1 rid in
      if dispatched then Some (True, s1) else do { s2 \<leftarrow> cancel_waiting rid s1; Some (False, s2) })"

definition note_dispatched :: "queue_set \<Rightarrow> queue_set" where
  "note_dispatched s = s\<lparr>qs_tot_requests_dispatched := qs_tot_requests_dispatched s + 1\<rparr>"

end
