(* ===== verification/FairQueueInvariants.thy ===== *)
theory FairQueueInvariants
  imports FairQueue
begin

text \<open>
  What the operations of the fair queues do to the accounting. The invariant \<open>set_ok T\<close> says that the counters
  and the sums of the queues are the totals over the table of requests; \<open>T\<close> are the requests that have
  finished but whose seats are still taken. \<open>strip\<close> forgets virtual times: an operation that changes nothing
  else keeps the invariant.
\<close>

section \<open>Totals over the table of requests\<close>

definition reqs :: "(nat \<rightharpoonup> request) \<Rightarrow> (nat \<Rightarrow> request \<Rightarrow> bool) \<Rightarrow> nat set" where
  "reqs m P = {rid. \<exists>r. m rid = Some r \<and> P rid r}"

definition total ::
  "(nat \<rightharpoonup> request) \<Rightarrow> (completed_work_estimate \<Rightarrow> 'a) \<Rightarrow> (nat \<Rightarrow> request \<Rightarrow> bool) \<Rightarrow> 'a :: comm_monoid_add" where
  "total m f P = (\<Sum>rid\<in>reqs m P. f (rq_work (the (m rid))))"

lemma reqs_upd: "m rid = None \<Longrightarrow> reqs (m(rid \<mapsto> r)) P = (if P rid r then insert rid (reqs m P) else reqs m P)"
  by (auto simp: reqs_def)

lemma reqs_None: "m rid = None \<Longrightarrow> rid \<notin> reqs m P"
  by (simp add: reqs_def)

lemma reqs_finite: "finite (dom m) \<Longrightarrow> finite (reqs m P)"
  by (rule finite_subset [of _ "dom m"]) (auto simp: reqs_def)

lemma total_upd:
  assumes "finite (dom m)" and "m rid = None"
  shows "total (m(rid \<mapsto> r)) f P = (if P rid r then f (rq_work r) else 0) + total m f P"
proof -
  have "(\<Sum>x\<in>reqs m P. f (rq_work (the ((m(rid \<mapsto> r)) x)))) = total m f P"
    using assms(2) reqs_None [of m rid P] unfolding total_def by (intro sum.cong) auto
  then show ?thesis
    using assms reqs_finite [OF assms(1), of P] reqs_None [of m rid P] by (simp add: total_def reqs_upd)
qed

lemma reqs_cong: "(\<And>x r. m x = Some r \<Longrightarrow> P x r = Q x r) \<Longrightarrow> reqs m P = reqs m Q"
  by (auto simp: reqs_def)

lemma total_cong: "(\<And>x r. m x = Some r \<Longrightarrow> P x r = Q x r) \<Longrightarrow> total m f P = total m f Q"
  using reqs_cong [of m P Q] by (simp add: total_def)

lemma reqs_empty [simp]: "reqs Map.empty P = {}" "total Map.empty f P = 0"
  by (simp_all add: reqs_def total_def)

lemma total_le:
  fixes f :: "completed_work_estimate \<Rightarrow> nat"
  assumes "finite (dom m)" and "\<And>x r. m x = Some r \<Longrightarrow> P x r \<Longrightarrow> Q x r"
  shows "total m f P \<le> total m f Q"
  unfolding total_def by (rule sum_mono2) (use assms reqs_finite [of m Q] in \<open>auto simp: reqs_def\<close>)

lemma total_card: "total m (\<lambda>_. 1 :: nat) P = card (reqs m P)"
  by (simp add: total_def)

section \<open>The invariant\<close>

definition queued :: "nat \<Rightarrow> nat \<Rightarrow> request \<Rightarrow> bool" where
  "queued i rid r \<longleftrightarrow> \<not> rq_dispatched r \<and> rq_queue_id r = Some i"

definition running :: "nat \<Rightarrow> nat \<Rightarrow> request \<Rightarrow> bool" where
  "running i rid r \<longleftrightarrow> rq_dispatched r \<and> rq_queue_id r = Some i"

definition queue_ok :: "nat set \<Rightarrow> (nat \<rightharpoonup> request) \<Rightarrow> queue \<Rightarrow> bool" where
  "queue_ok T m q \<longleftrightarrow>
     distinct (fq_waiting q) \<and> set (fq_waiting q) = reqs m (queued (fq_id q))
     \<and> fq_executing q = reqs m (\<lambda>rid r. running (fq_id q) rid r \<and> rid \<notin> T)
     \<and> fq_sum q = \<lparr>su_initial_seats_sum = total m cw_initial_seats (queued (fq_id q)),
                   su_max_seats_sum = total m cw_max_seats (queued (fq_id q)),
                   su_total_work_sum = total m cw_total_work (queued (fq_id q))\<rparr>
     \<and> fq_seats_in_use q = total m cw_max_seats (running (fq_id q))"

definition queues_ok :: "nat set \<Rightarrow> queue_set \<Rightarrow> bool" where
  "queues_ok T s \<longleftrightarrow>
     distinct (map fq_id (qs_queues s)) \<and> (\<forall>q\<in>set (qs_queues s). fq_id q < qs_next_queue_id s \<and> queue_ok T (qs_requests s) q)"

definition located :: "nat set \<Rightarrow> nat set \<Rightarrow> nat \<Rightarrow> nat \<Rightarrow> request \<Rightarrow> bool" where
  "located T ids n rid r \<longleftrightarrow> (case rq_queue_id r of None \<Rightarrow> rq_dispatched r | Some i \<Rightarrow> i < n \<and> (rid \<in> T \<or> i \<in> ids))"

definition requests_ok :: "nat set \<Rightarrow> queue_set \<Rightarrow> bool" where
  "requests_ok T s \<longleftrightarrow>
     finite (dom (qs_requests s)) \<and> (\<forall>rid\<in>dom (qs_requests s). rid < qs_next_request_id s)
     \<and> T \<subseteq> reqs (qs_requests s) (\<lambda>_. rq_dispatched)
     \<and> (\<forall>rid r. qs_requests s rid = Some r \<longrightarrow> located T (fq_id ` set (qs_queues s)) (qs_next_queue_id s) rid r)
     \<and> qs_queueless_executing s = reqs (qs_requests s) (\<lambda>rid r. rq_queue_id r = None \<and> rid \<notin> T)"

definition totals_ok :: "nat set \<Rightarrow> queue_set \<Rightarrow> bool" where
  "totals_ok T s \<longleftrightarrow>
     qs_tot_requests_waiting s = total (qs_requests s) (\<lambda>_. 1) (\<lambda>_ r. \<not> rq_dispatched r)
     \<and> qs_tot_requests_executing s = total (qs_requests s) (\<lambda>_. 1) (\<lambda>rid r. rq_dispatched r \<and> rid \<notin> T)
     \<and> qs_tot_seats_in_use s = total (qs_requests s) cw_max_seats (\<lambda>_. rq_dispatched)
     \<and> total (qs_requests s) cw_max_seats (\<lambda>_ r. \<not> rq_dispatched r) \<le> qs_tot_seats_waiting s"

definition config_ok :: "queue_set \<Rightarrow> bool" where
  "config_ok s \<longleftrightarrow>
     (if qc_desired_num_queues (qs_qcfg s) > 0
      then (\<exists>dl. qs_dealer s = Some dl \<and> dealer_ok dl \<and> int (dl_deck_size dl) = qc_desired_num_queues (qs_qcfg s))
           \<and> qc_desired_num_queues (qs_qcfg s) \<le> int (length (qs_queues s))
      else qs_dealer s = None)"

definition robin_ok :: "queue_set \<Rightarrow> bool" where
  "robin_ok s \<longleftrightarrow> - 1 \<le> qs_robin_index s \<and> qs_robin_index s < max 1 (int (length (qs_queues s)))"

definition set_ok :: "nat set \<Rightarrow> queue_set \<Rightarrow> bool" where
  "set_ok T s \<longleftrightarrow> queues_ok T s \<and> requests_ok T s \<and> totals_ok T s \<and> config_ok s \<and> robin_ok s"

lemmas set_ok_defs = set_ok_def queues_ok_def requests_ok_def totals_ok_def config_ok_def robin_ok_def

lemma set_ok_new: "set_ok {} (inner_new now)"
  by (simp add: set_ok_defs inner_new_def)

section \<open>Forgetting virtual times\<close>

definition strip_request :: "request \<Rightarrow> request" where
  "strip_request r = r\<lparr>rq_arrival_r := 0\<rparr>"

definition strip_queue :: "queue \<Rightarrow> queue" where
  "strip_queue q = q\<lparr>fq_next_dispatch_r := 0\<rparr>"

definition strip :: "queue_set \<Rightarrow> queue_set" where
  "strip s = s\<lparr>qs_queues := map strip_queue (qs_queues s), qs_requests := map_option strip_request \<circ> qs_requests s,
     qs_current_r := 0, qs_last_real_time := 0, qs_seat_demand := 0, qs_enqueues := 0,
     qs_tot_requests_dispatched := 0, qs_tot_requests_rejected := 0, qs_tot_requests_cancelled := 0\<rparr>"

lemma strip_request_simps [simp]:
  "rq_queue_id (strip_request r) = rq_queue_id r" "rq_work (strip_request r) = rq_work r"
  "rq_dispatched (strip_request r) = rq_dispatched r"
  by (simp_all add: strip_request_def)

lemma strip_queue_simps [simp]:
  "fq_id (strip_queue q) = fq_id q" "fq_waiting (strip_queue q) = fq_waiting q" "fq_sum (strip_queue q) = fq_sum q"
  "fq_executing (strip_queue q) = fq_executing q" "fq_seats_in_use (strip_queue q) = fq_seats_in_use q"
  by (simp_all add: strip_queue_def)

lemma reqs_strip: "(\<And>x r. P x (strip_request r) = P x r) \<Longrightarrow> reqs (map_option strip_request \<circ> m) P = reqs m P"
  by (auto simp: reqs_def)

lemma total_strip:
  assumes "\<And>x r. P x (strip_request r) = P x r"
  shows "total (map_option strip_request \<circ> m) f P = total m f P"
proof -
  have "f (rq_work (the ((map_option strip_request \<circ> m) x))) = f (rq_work (the (m x)))" if "x \<in> reqs m P" for x
    using that by (auto simp: reqs_def)
  then show ?thesis using reqs_strip [of P m] assms by (simp add: total_def)
qed

lemma queue_ok_strip: "queue_ok T (map_option strip_request \<circ> m) (strip_queue q) = queue_ok T m q"
  unfolding queue_ok_def strip_queue_simps
  by (subst reqs_strip total_strip, simp add: queued_def running_def)+ (rule refl)

lemma all_strip:
  assumes "\<And>x r. P x (strip_request r) = P x r"
  shows "(\<forall>x r. (map_option strip_request \<circ> m) x = Some r \<longrightarrow> P x r) = (\<forall>x r. m x = Some r \<longrightarrow> P x r)"
proof -
  have "(\<forall>r. (map_option strip_request \<circ> m) x = Some r \<longrightarrow> P x r) = (\<forall>r. m x = Some r \<longrightarrow> P x r)" for x
    by (cases "m x") (simp_all add: assms)
  then show ?thesis by simp
qed

lemma set_ok_strip: "set_ok T (strip s) = set_ok T s"
proof -
  have q: "queues_ok T (strip s) = queues_ok T s"
    by (simp add: queues_ok_def strip_def queue_ok_strip [unfolded comp_def] comp_def)
  have "located T ids n x (strip_request r) = located T ids n x r" for ids n x r by (simp add: located_def split: option.split)
  note loc = all_strip [of "located T (fq_id ` set (qs_queues s)) (qs_next_queue_id s)" "qs_requests s", OF this]
  have r: "requests_ok T (strip s) = requests_ok T s"
    unfolding requests_ok_def using loc
    by (simp add: strip_def reqs_strip image_image dom_map_option_comp del: comp_apply)
  have t: "totals_ok T (strip s) = totals_ok T s" by (simp add: totals_ok_def strip_def total_strip)
  have "config_ok (strip s) = config_ok s" "robin_ok (strip s) = robin_ok s" by (simp_all add: config_ok_def robin_ok_def strip_def)
  then show ?thesis using q r t by (simp add: set_ok_def)
qed

lemma set_ok_cong: "strip s' = strip s \<Longrightarrow> set_ok T s' = set_ok T s"
  using set_ok_strip by metis

lemma strip_update [simp]:
  "strip (s\<lparr>qs_current_r := a\<rparr>) = strip s" "strip (s\<lparr>qs_last_real_time := b\<rparr>) = strip s"
  "strip (s\<lparr>qs_seat_demand := c\<rparr>) = strip s" "strip (s\<lparr>qs_enqueues := c\<rparr>) = strip s"
  "strip (s\<lparr>qs_tot_requests_dispatched := c\<rparr>) = strip s" "strip (s\<lparr>qs_tot_requests_rejected := c\<rparr>) = strip s"
  "strip (s\<lparr>qs_tot_requests_cancelled := c\<rparr>) = strip s"
  by (simp_all add: strip_def)

lemma strip_note_seat_demand [simp]: "strip (note_seat_demand s) = strip s"
  by (simp add: note_seat_demand_def)

lemma strip_set_queue: "(\<And>q. strip_queue (f q) = strip_queue q) \<Longrightarrow> strip (set_queue s p f) = strip s"
proof (cases "p < length (qs_queues s)")
  case True
  assume "\<And>q. strip_queue (f q) = strip_queue q"
  then have "map strip_queue ((qs_queues s)[p := f (qs_queues s ! p)]) = map strip_queue (qs_queues s)"
    using True by (simp add: map_update list_update_same_conv)
  then show ?thesis by (simp add: set_queue_def strip_def)
qed (simp add: set_queue_def strip_def list_update_beyond)

lemma requests_set_queue [simp]: "qs_requests (set_queue s p f) = qs_requests s"
  by (simp add: set_queue_def)

lemma strip_selects:
  "qs_qcfg (strip s) = qs_qcfg s" "qs_concurrency_limit (strip s) = qs_concurrency_limit s" "qs_dealer (strip s) = qs_dealer s"
  "length (qs_queues (strip s)) = length (qs_queues s)" "qs_queueless_executing (strip s) = qs_queueless_executing s"
  "qs_tot_requests_waiting (strip s) = qs_tot_requests_waiting s" "qs_tot_requests_executing (strip s) = qs_tot_requests_executing s"
  "qs_tot_seats_in_use (strip s) = qs_tot_seats_in_use s" "qs_tot_seats_waiting (strip s) = qs_tot_seats_waiting s"
  "qs_next_request_id (strip s) = qs_next_request_id s" "qs_next_queue_id (strip s) = qs_next_queue_id s"
  "qs_robin_index (strip s) = qs_robin_index s" "map fq_id (qs_queues (strip s)) = map fq_id (qs_queues s)"
  "map fq_waiting (qs_queues (strip s)) = map fq_waiting (qs_queues s)"
  by (simp_all add: strip_def)

lemma strip_fields:
  assumes "strip s' = strip s"
  shows "qs_qcfg s' = qs_qcfg s" "qs_concurrency_limit s' = qs_concurrency_limit s" "qs_dealer s' = qs_dealer s"
    "length (qs_queues s') = length (qs_queues s)" "qs_queueless_executing s' = qs_queueless_executing s"
    "qs_tot_requests_waiting s' = qs_tot_requests_waiting s" "qs_tot_requests_executing s' = qs_tot_requests_executing s"
    "qs_tot_seats_in_use s' = qs_tot_seats_in_use s" "qs_tot_seats_waiting s' = qs_tot_seats_waiting s"
    "qs_next_request_id s' = qs_next_request_id s" "qs_next_queue_id s' = qs_next_queue_id s"
    "qs_robin_index s' = qs_robin_index s" "map fq_id (qs_queues s') = map fq_id (qs_queues s)"
    "map fq_waiting (qs_queues s') = map fq_waiting (qs_queues s)"
  using assms by (metis strip_selects)+

lemma strip_requests:
  assumes "strip s' = strip s"
  shows "map_option strip_request (qs_requests s' rid) = map_option strip_request (qs_requests s rid)"
proof -
  have "map_option strip_request \<circ> qs_requests s' = map_option strip_request \<circ> qs_requests s"
    using arg_cong [OF assms, of qs_requests] by (simp add: strip_def)
  then show ?thesis by (metis comp_apply)
qed

lemma strip_dom: "strip s' = strip s \<Longrightarrow> dom (qs_requests s') = dom (qs_requests s)"
  using strip_requests [of s' s] by (auto simp: dom_def) (metis option.map_disc_iff option.exhaust)+

lemma strip_request_Some:
  assumes "strip s' = strip s" and "qs_requests s rid = Some r"
  shows "\<exists>r'. qs_requests s' rid = Some r' \<and> strip_request r' = strip_request r"
  using strip_requests [OF assms(1), of rid] assms(2) by (cases "qs_requests s' rid") auto

lemma advance_queues_strip:
  "advance_queues qs m = (qs', m') \<Longrightarrow> map strip_queue qs' = map strip_queue qs \<and> map_option strip_request \<circ> m' = map_option strip_request \<circ> m"
proof (induction qs m arbitrary: qs' m' rule: advance_queues.induct)
  case (2 q qs m)
  have lower: "map_option strip_request \<circ> lower_arrival m rid = map_option strip_request \<circ> m" for m rid
    by (auto simp: lower_arrival_def strip_request_def fun_eq_iff split: option.split)
  have fold: "map_option strip_request \<circ> fold (\<lambda>rid m. lower_arrival m rid) ws m = map_option strip_request \<circ> m" for ws
    by (induction ws arbitrary: m) (simp_all add: lower)
  have sq: "strip_queue (q\<lparr>fq_next_dispatch_r := r\<rparr>) = strip_queue q" for r by (simp add: strip_queue_def)
  show ?case
  proof (cases "queue_is_empty q")
    case True
    obtain a b where "advance_queues qs m = (a, b)" by fastforce
    then show ?thesis using 2 True sq by auto
  next
    case False
    obtain a b where "advance_queues qs (fold (\<lambda>rid m. lower_arrival m rid) (fq_waiting q) m) = (a, b)" by fastforce
    then show ?thesis using 2 False sq fold by auto
  qed
qed simp

lemma strip_sync_time [simp]: "strip (sync_time F now s) = strip s"
proof -
  have "strip (advance_epoch t) = strip t" for t
    using advance_queues_strip [of "qs_queues t" "qs_requests t"]
    by (cases "advance_queues (qs_queues t) (qs_requests t)") (simp add: advance_epoch_def strip_def)
  then show ?thesis by (simp add: sync_time_def Let_def)
qed

section \<open>Finding queues\<close>

lemma position_Some: "position P xs = Some i \<Longrightarrow> i < length xs \<and> P (xs ! i)"
  by (induction xs arbitrary: i) (auto split: if_splits)

lemma position_None: "position P xs = None \<longleftrightarrow> (\<forall>x\<in>set xs. \<not> P x)"
  by (induction xs) auto

lemma queue_posD:
  assumes "queue_pos s i = Some p"
  shows "p < length (qs_queues s)" "fq_id (qs_queues s ! p) = i" "qs_queues s ! p \<in> set (qs_queues s)"
  using position_Some [OF assms [unfolded queue_pos_def]] by simp_all

lemma queue_pos_ex: "i \<in> fq_id ` set (qs_queues s) \<longleftrightarrow> (\<exists>p. queue_pos s i = Some p)"
  unfolding queue_pos_def using position_None [of "\<lambda>q. fq_id q = i" "qs_queues s"]
  by (cases "position (\<lambda>q. fq_id q = i) (qs_queues s)") (force dest: position_Some)+

lemma queue_pos_cong: "map fq_id (qs_queues s') = map fq_id (qs_queues s) \<Longrightarrow> queue_pos s' i = queue_pos s i"
proof -
  have p: "position (\<lambda>q. fq_id q = i) qs = position (\<lambda>x. x = i) (map fq_id qs)" for qs :: "queue list" by (induction qs) auto
  show "map fq_id (qs_queues s') = map fq_id (qs_queues s) \<Longrightarrow> queue_pos s' i = queue_pos s i"
    unfolding queue_pos_def p by simp
qed

text \<open>The queues other than the one at \<open>p\<close> after an update there.\<close>

lemma set_queues_update:
  assumes "distinct (map fq_id qs)" and "p < length qs" and "q \<in> set (qs[p := q'])"
  shows "q = q' \<or> (q \<in> set qs \<and> fq_id q \<noteq> fq_id (qs ! p))"
proof -
  obtain k where k: "k < length qs" "q = qs[p := q'] ! k" using assms(3) by (auto simp: in_set_conv_nth)
  show ?thesis
  proof (cases "k = p")
    case False
    then have "fq_id (qs ! k) \<noteq> fq_id (qs ! p)"
      using assms(1,2) k(1) nth_eq_iff_index_eq [of "map fq_id qs" k p] by auto
    then show ?thesis using k False by auto
  qed (use k in simp)
qed

lemma bound_next_dispatch_ok:
  assumes "set_ok T s"
  shows "\<exists>s'. bound_next_dispatch i s = Some s' \<and> strip s' = strip s \<and> qs_requests s' = qs_requests s"
proof (cases "queue_pos s i")
  case (Some p)
  show ?thesis
  proof (cases "fq_waiting (qs_queues s ! p)")
    case (Cons rid rest)
    have "queue_ok T (qs_requests s) (qs_queues s ! p)"
      using assms queue_posD(3) [OF Some] by (simp add: set_ok_def queues_ok_def)
    then have "rid \<in> reqs (qs_requests s) (queued (fq_id (qs_queues s ! p)))" using Cons by (metis list.set_intros(1) queue_ok_def)
    then obtain r where "qs_requests s rid = Some r" by (auto simp: reqs_def)
    then show ?thesis
      using Some Cons by (auto simp: bound_next_dispatch_def Let_def strip_queue_def requests_set_queue intro!: strip_set_queue)
  qed (simp add: bound_next_dispatch_def Some)
qed (simp add: bound_next_dispatch_def)

lemma bound_next_dispatch_keeps:
  assumes "set_ok T s"
  shows "\<exists>s'. bound_next_dispatch i s = Some s' \<and> strip s' = strip s \<and> qs_requests s' = qs_requests s \<and> set_ok T s'"
  using bound_next_dispatch_ok [OF assms] set_ok_cong assms by blast


section \<open>One request\<close>

lemma map_base: "m rid = Some r \<Longrightarrow> m = (m(rid := None))(rid \<mapsto> r)"
  by (simp add: fun_upd_idem)

lemma usub_add [simp]: "usub (a + b) a = b" "usub (Suc a) (Suc 0) = a"
  by (simp_all add: usub_def)

lemma queue_ok_next [simp]: "queue_ok T m (q\<lparr>fq_next_dispatch_r := x\<rparr>) = queue_ok T m q"
  by (simp add: queue_ok_def)

lemma queue_ok_other:
  assumes "finite (dom b)" and "b rid = None" and "rq_queue_id r \<noteq> Some (fq_id q)" and "\<And>x. x \<noteq> rid \<Longrightarrow> x \<in> T \<longleftrightarrow> x \<in> T'"
  shows "queue_ok T (b(rid \<mapsto> r)) q = queue_ok T' b q"
proof -
  have "reqs b (\<lambda>x r. running (fq_id q) x r \<and> x \<notin> T) = reqs b (\<lambda>x r. running (fq_id q) x r \<and> x \<notin> T')"
    by (rule reqs_cong) (use assms(2,4) in \<open>metis option.distinct(1)\<close>)
  then show ?thesis
    using assms(1,2,3) by (simp add: queue_ok_def reqs_upd total_upd queued_def running_def)
qed

lemma queue_ok_enqueue:
  assumes "finite (dom b)" and "b rid = None" and "queued (fq_id q) rid r" and "queue_ok T b q"
  shows "queue_ok T (b(rid \<mapsto> r)) (q\<lparr>fq_waiting := fq_waiting q @ [rid],
    fq_sum := \<lparr>su_initial_seats_sum = su_initial_seats_sum (fq_sum q) + cw_initial_seats (rq_work r),
               su_max_seats_sum = su_max_seats_sum (fq_sum q) + cw_max_seats (rq_work r),
               su_total_work_sum = su_total_work_sum (fq_sum q) + cw_total_work (rq_work r)\<rparr>\<rparr>)"
proof -
  have "\<not> running (fq_id q) rid r" using assms(3) by (simp add: queued_def running_def)
  then show ?thesis
    using assms reqs_None [of b rid, OF assms(2)] by (simp add: queue_ok_def reqs_upd total_upd add.commute)
qed

lemma take_drop_position:
  assumes "distinct xs" and "position (\<lambda>x. x = y) xs = Some i"
  shows "distinct (take i xs @ drop (Suc i) xs)" "set (take i xs @ drop (Suc i) xs) = set xs - {y}"
proof -
  have i: "i < length xs" "xs ! i = y" using position_Some [OF assms(2)] by simp_all
  have "xs = take i xs @ y # drop (Suc i) xs" using i id_take_nth_drop [of i xs] by simp
  then have "distinct (take i xs @ y # drop (Suc i) xs)" "set xs = set (take i xs @ y # drop (Suc i) xs)" using assms(1) by simp_all
  then show "distinct (take i xs @ drop (Suc i) xs)" "set (take i xs @ drop (Suc i) xs) = set xs - {y}" by auto
qed

lemma queue_ok_dequeue:
  assumes "finite (dom b)" and "b rid = None" and "queued (fq_id q) rid r" and "queue_ok T (b(rid \<mapsto> r)) q"
    and "position (\<lambda>x. x = rid) (fq_waiting q) = Some i"
  shows "queue_ok T b (q\<lparr>fq_waiting := take i (fq_waiting q) @ drop (Suc i) (fq_waiting q),
    fq_sum := \<lparr>su_initial_seats_sum = usub (su_initial_seats_sum (fq_sum q)) (cw_initial_seats (rq_work r)),
               su_max_seats_sum = usub (su_max_seats_sum (fq_sum q)) (cw_max_seats (rq_work r)),
               su_total_work_sum = su_total_work_sum (fq_sum q) - cw_total_work (rq_work r)\<rparr>\<rparr>)"
proof -
  have "\<not> running (fq_id q) rid r" using assms(3) by (simp add: queued_def running_def)
  moreover have "distinct (fq_waiting q)" using assms(4) by (simp add: queue_ok_def)
  ultimately show ?thesis
    using assms reqs_None [of b rid, OF assms(2)] take_drop_position [of "fq_waiting q" rid i]
    by (simp add: queue_ok_def reqs_upd total_upd del: set_append distinct_append)
qed

lemma queue_ok_start:
  assumes "finite (dom b)" and "b rid = None" and "running (fq_id q) rid r" and "rid \<notin> T" and "queue_ok T b q"
  shows "queue_ok T (b(rid \<mapsto> r)) (q\<lparr>fq_executing := insert rid (fq_executing q),
    fq_seats_in_use := fq_seats_in_use q + cw_max_seats (rq_work r)\<rparr>)"
proof -
  have "\<not> queued (fq_id q) rid r" using assms(3) by (simp add: queued_def running_def)
  then show ?thesis using assms by (simp add: queue_ok_def reqs_upd total_upd add.commute)
qed

lemma queue_ok_finish:
  assumes "queue_ok T m q"
  shows "queue_ok (insert rid T) m (q\<lparr>fq_executing := fq_executing q - {rid}\<rparr>)"
  using assms by (auto simp: queue_ok_def reqs_def)

lemma queue_ok_release:
  assumes "finite (dom b)" and "b rid = None" and "running (fq_id q) rid r" and "queue_ok (insert rid T) (b(rid \<mapsto> r)) q"
  shows "queue_ok T b (q\<lparr>fq_seats_in_use := usub (fq_seats_in_use q) (cw_max_seats (rq_work r))\<rparr>)"
proof -
  have "\<not> queued (fq_id q) rid r" using assms(3) by (simp add: queued_def running_def)
  moreover have "reqs b (\<lambda>x r. running (fq_id q) x r \<and> x \<notin> insert rid T) = reqs b (\<lambda>x r. running (fq_id q) x r \<and> x \<notin> T)"
    by (rule reqs_cong) (use assms(2) in auto)
  ultimately show ?thesis using assms by (simp add: queue_ok_def reqs_upd total_upd)
qed

text \<open>The other queues do not notice.\<close>

lemma queues_ok_update:
  assumes "queues_ok T s" and "p < length (qs_queues s)" and "qs_queues s' = (qs_queues s)[p := q']"
    and "fq_id q' = fq_id (qs_queues s ! p)" and "qs_next_queue_id s' = qs_next_queue_id s"
    and "queue_ok T' (qs_requests s') q'"
    and others: "\<And>q. q \<in> set (qs_queues s) \<Longrightarrow> fq_id q \<noteq> fq_id q' \<Longrightarrow> queue_ok T (qs_requests s) q \<Longrightarrow> queue_ok T' (qs_requests s') q"
  shows "queues_ok T' s' \<and> fq_id ` set (qs_queues s') = fq_id ` set (qs_queues s)"
proof -
  have ids: "map fq_id (qs_queues s') = map fq_id (qs_queues s)"
    using assms(2-4) by (simp add: map_update list_update_same_conv)
  have d: "distinct (map fq_id (qs_queues s))" using assms(1) by (simp add: queues_ok_def)
  have "fq_id q < qs_next_queue_id s' \<and> queue_ok T' (qs_requests s') q" if "q \<in> set (qs_queues s')" for q
  proof -
    have "q = q' \<or> (q \<in> set (qs_queues s) \<and> fq_id q \<noteq> fq_id q')"
      using set_queues_update [OF d assms(2), of q q'] that assms(3,4) by simp
    then show ?thesis
    proof
      assume "q = q'"
      then show ?thesis using assms(1,2,4,5,6) by (simp add: queues_ok_def)
    qed (use assms(1,5) others in \<open>auto simp: queues_ok_def\<close>)
  qed
  then show ?thesis using ids d by (metis list.set_map queues_ok_def)
qed

lemma set_okD:
  assumes "set_ok T s"
  shows "queues_ok T s" "requests_ok T s" "totals_ok T s" "config_ok s" "robin_ok s" "finite (dom (qs_requests s))"
    "q \<in> set (qs_queues s) \<Longrightarrow> queue_ok T (qs_requests s) q" "distinct (map fq_id (qs_queues s))"
  using assms by (simp_all add: set_ok_def requests_ok_def queues_ok_def)


section \<open>The operations keep the accounting\<close>

text \<open>What no request changes.\<close>

definition settings :: "queue_set \<Rightarrow> queuing_config \<times> nat \<times> dealer option" where
  "settings s = (qs_qcfg s, qs_concurrency_limit s, qs_dealer s)"

lemma strip_settings: "strip s' = strip s \<Longrightarrow> settings s' = settings s"
  using strip_fields [of s' s] by (simp add: settings_def)

lemma config_ok_cong:
  "settings s' = settings s \<Longrightarrow> length (qs_queues s') = length (qs_queues s) \<Longrightarrow> config_ok s' = config_ok s"
  by (simp add: settings_def config_ok_def)

lemma robin_ok_cong:
  "qs_robin_index s' = qs_robin_index s \<Longrightarrow> length (qs_queues s') = length (qs_queues s) \<Longrightarrow> robin_ok s' = robin_ok s"
  by (simp add: robin_ok_def)

lemma next_id_free: "set_ok T s \<Longrightarrow> qs_requests s (qs_next_request_id s) = None"
  by (auto simp: set_ok_def requests_ok_def)

lemma in_T_known: "set_ok T s \<Longrightarrow> x \<in> T \<Longrightarrow> \<exists>r. qs_requests s x = Some r \<and> rq_dispatched r"
  by (auto simp: set_ok_def requests_ok_def reqs_def)

lemma enqueue_ok:
  assumes ok: "set_ok T s" and pos: "queue_pos s i = Some p" and new: "new_request now fs fl (Some i) w False s = (rid, s1)"
  shows "\<exists>s2 r. enqueue_to_bound i rid s1 = Some s2 \<and> set_ok T s2 \<and> settings s2 = settings s \<and> rid = qs_next_request_id s
    \<and> qs_requests s2 = (qs_requests s)(rid \<mapsto> r) \<and> rq_work r = w \<and> \<not> rq_dispatched r \<and> rq_queue_id r = Some i
    \<and> qs_tot_seats_in_use s2 = qs_tot_seats_in_use s \<and> qs_tot_requests_executing s2 = qs_tot_requests_executing s"
proof -
  let ?m = "qs_requests s" and ?q = "qs_queues s ! p"
  define r where "r = \<lparr>rq_fs_name = fs, rq_flow_distinguisher = fl, rq_queue_id = Some i, rq_work = w, rq_dispatched = False,
    rq_arrival_time = now, rq_arrival_r = qs_current_r s, rq_start_time = 0\<rparr>"
  define q' where "q' = ?q\<lparr>fq_next_dispatch_r := (if queue_is_empty ?q then qs_current_r s else fq_next_dispatch_r ?q),
    fq_waiting := fq_waiting ?q @ [rid],
    fq_sum := \<lparr>su_initial_seats_sum = su_initial_seats_sum (fq_sum ?q) + cw_initial_seats w,
               su_max_seats_sum = su_max_seats_sum (fq_sum ?q) + cw_max_seats w,
               su_total_work_sum = su_total_work_sum (fq_sum ?q) + cw_total_work w\<rparr>\<rparr>"
  define s2 where "s2 = note_seat_demand (s\<lparr>qs_next_request_id := rid + 1, qs_requests := ?m(rid \<mapsto> r),
    qs_queues := (qs_queues s)[p := q'], qs_tot_requests_waiting := qs_tot_requests_waiting s + 1,
    qs_tot_seats_waiting := qs_tot_seats_waiting s + cw_max_seats w\<rparr>)"
  note p = queue_posD [OF pos]
  have rid: "rid = qs_next_request_id s" "?m rid = None" and s1: "s1 = s\<lparr>qs_next_request_id := rid + 1, qs_requests := ?m(rid \<mapsto> r)\<rparr>"
    using new next_id_free [OF ok] by (auto simp: new_request_def r_def Let_def)
  have "queue_pos s1 i = Some p" using pos queue_pos_cong [of s1 s] by (simp add: s1)
  then have eq: "enqueue_to_bound i rid s1 = Some s2"
    using p(1) by (simp add: enqueue_to_bound_def s1 set_queue_def s2_def q'_def note_seat_demand_def Let_def r_def)
  have s2: "qs_requests s2 = ?m(rid \<mapsto> r)" "qs_queues s2 = (qs_queues s)[p := q']" "qs_next_queue_id s2 = qs_next_queue_id s"
    "qs_tot_seats_in_use s2 = qs_tot_seats_in_use s" "qs_tot_requests_executing s2 = qs_tot_requests_executing s"
    by (simp_all add: s2_def note_seat_demand_def)
  have id': "fq_id q' = fq_id ?q" by (simp add: q'_def)
  have "queue_ok T (?m(rid \<mapsto> r)) q'"
    using queue_ok_enqueue [of ?m rid ?q r T, OF set_okD(6) [OF ok] rid(2) _ set_okD(7) [OF ok p(3)]] p(2)
    unfolding queue_ok_def by (simp add: q'_def queued_def r_def)
  moreover have "queue_ok T (?m(rid \<mapsto> r)) q" if "fq_id q \<noteq> fq_id q'" "queue_ok T ?m q" for q
    using queue_ok_other [of ?m rid r q T T, OF set_okD(6) [OF ok] rid(2)] that p(2) id' by (simp add: r_def)
  ultimately have qs: "queues_ok T s2" "fq_id ` set (qs_queues s2) = fq_id ` set (qs_queues s)"
    using queues_ok_update [OF set_okD(1) [OF ok] p(1) s2(2) id' s2(3), of T] unfolding s2(1) by blast+
  have "located T (fq_id ` set (qs_queues s)) (qs_next_queue_id s) rid r"
    using p set_okD(1) [OF ok] by (auto simp: located_def r_def queues_ok_def)
  then have "requests_ok T s2"
    using set_okD(2) [OF ok] rid qs(2) unfolding requests_ok_def
    by (auto simp: s2 reqs_upd s2_def note_seat_demand_def r_def less_Suc_eq)
  moreover have "totals_ok T s2"
    using set_okD(3) [OF ok] by (simp add: totals_ok_def s2_def note_seat_demand_def total_upd [OF set_okD(6) [OF ok] rid(2)] r_def)
  moreover have "settings s2 = settings s" "config_ok s2" "robin_ok s2"
    using set_okD(4,5) [OF ok] config_ok_cong [of s2 s] robin_ok_cong [of s2 s]
    by (simp_all add: s2_def note_seat_demand_def settings_def)
  ultimately show ?thesis using eq qs(1) s2 rid(1) by (auto simp: set_ok_def r_def)
qed

lemma remove_waiting_ok:
  assumes ok: "set_ok T s" and rid: "qs_requests s rid = Some r" "queued i rid r"
  shows "\<exists>p q' s'. queue_pos s i = Some p \<and> remove_waiting i rid s = Some (True, s') \<and> s' = s\<lparr>qs_queues := (qs_queues s)[p := q']\<rparr>
    \<and> fq_id q' = i \<and> p < length (qs_queues s) \<and> queue_ok T ((qs_requests s)(rid := None)) q'
    \<and> fq_next_dispatch_r q' = fq_next_dispatch_r (qs_queues s ! p)
    \<and> fq_seats_in_use q' = fq_seats_in_use (qs_queues s ! p) \<and> fq_executing q' = fq_executing (qs_queues s ! p)"
proof -
  let ?b = "(qs_requests s)(rid := None)"
  have "located T (fq_id ` set (qs_queues s)) (qs_next_queue_id s) rid r" using ok rid(1) by (simp add: set_ok_def requests_ok_def)
  moreover have "rid \<notin> T" using in_T_known [OF ok, of rid] rid by (auto simp: queued_def)
  ultimately obtain p where p: "queue_pos s i = Some p" using rid(2) queue_pos_ex [of i s] by (auto simp: located_def queued_def)
  note pD = queue_posD [OF p]
  let ?q = "qs_queues s ! p"
  have qok: "queue_ok T (?b(rid \<mapsto> r)) ?q" using set_okD(7) [OF ok pD(3)] map_base [of "qs_requests s" rid r, OF rid(1)] by simp
  have "rid \<in> set (fq_waiting ?q)" using set_okD(7) [OF ok pD(3)] rid pD(2) by (auto simp: queue_ok_def reqs_def)
  then obtain k where k: "position (\<lambda>x. x = rid) (fq_waiting ?q) = Some k"
    using position_None [of "\<lambda>x. x = rid" "fq_waiting ?q"] by (cases "position (\<lambda>x. x = rid) (fq_waiting ?q)") auto
  have fin: "finite (dom ?b)" using set_okD(6) [OF ok] by simp
  define q' where "q' = ?q\<lparr>fq_waiting := take k (fq_waiting ?q) @ drop (Suc k) (fq_waiting ?q),
    fq_sum := \<lparr>su_initial_seats_sum = usub (su_initial_seats_sum (fq_sum ?q)) (cw_initial_seats (rq_work r)),
               su_max_seats_sum = usub (su_max_seats_sum (fq_sum ?q)) (cw_max_seats (rq_work r)),
               su_total_work_sum = su_total_work_sum (fq_sum ?q) - cw_total_work (rq_work r)\<rparr>\<rparr>"
  have "queue_ok T ?b q'" unfolding q'_def by (rule queue_ok_dequeue [OF fin _ _ qok k]) (use rid(2) pD(2) in simp_all)
  moreover have "remove_waiting i rid s = Some (True, s\<lparr>qs_queues := (qs_queues s)[p := q']\<rparr>)"
    using p k rid by (simp add: remove_waiting_def set_queue_def Let_def q'_def)
  ultimately show ?thesis using p pD by (intro exI [of _ p] exI [of _ q']) (simp add: q'_def)
qed


section \<open>Choosing a queue\<close>

text \<open>Both loops that choose a queue keep the best index seen so far: the result is the first of the smallest.\<close>

fun pick :: "('a \<Rightarrow> seat_seconds) \<Rightarrow> 'a list \<Rightarrow> seat_seconds \<Rightarrow> 'a option \<Rightarrow> 'a option" where
  "pick f [] mn best = best"
| "pick f (i # is) mn best = (if f i < mn then pick f is (f i) (Some i) else pick f is mn best)"

lemma pick_arg_min:
  "pick f xs mn best = (if xs \<noteq> [] \<and> f (arg_min_list f xs) < mn then Some (arg_min_list f xs) else best)"
proof (induction xs arbitrary: mn best)
  case (Cons x xs)
  show ?case
  proof (cases xs)
    case (Cons y ys)
    let ?m = "arg_min_list f xs"
    have "arg_min_list f (x # xs) = (if f x \<le> f ?m then x else ?m)" using Cons by (simp add: Let_def)
    then show ?thesis using Cons.IH [of "f x" "Some x"] Cons.IH [of mn best] Cons by (auto simp: not_less)
  qed simp
qed simp

lemma arg_min_list_first:
  fixes f :: "'a \<Rightarrow> 'b :: linorder"
  assumes "xs \<noteq> []"
  shows "arg_min_list f xs \<in> set xs \<and> (\<forall>x\<in>set xs. f (arg_min_list f xs) \<le> f x)"
  using assms arg_min_list_in f_arg_min_list_f [of xs f] by (metis List.finite_set Min_le finite_imageI image_eqI)

definition virtual_finish :: "queue_set \<Rightarrow> nat \<Rightarrow> seat_seconds" where
  "virtual_finish s i =
     fq_next_dispatch_r (qs_queues s ! i)
     + cw_total_work (rq_work (the (qs_requests s (hd (fq_waiting (qs_queues s ! i))))))"

fun robin_order :: "nat \<Rightarrow> nat \<Rightarrow> int \<Rightarrow> nat list" where
  "robin_order n 0 robin = []"
| "robin_order n (Suc k) robin = nat ((robin + 1) mod int n) # robin_order n k ((robin + 1) mod int n)"

definition waiting_queues :: "queue_set \<Rightarrow> nat list" where
  "waiting_queues s =
     filter (\<lambda>i. fq_waiting (qs_queues s ! i) \<noteq> []) (robin_order (length (qs_queues s)) (length (qs_queues s)) (qs_robin_index s))"

text \<open>The queue in turn among those whose oldest request has the smallest virtual finish.\<close>

definition next_queue :: "queue_set \<Rightarrow> nat option" where
  "next_queue s =
     (if waiting_queues s = [] \<or> virtual_finish s (arg_min_list (virtual_finish s) (waiting_queues s)) = - 1 then None
      else Some (arg_min_list (virtual_finish s) (waiting_queues s)))"

lemma waiting_known:
  assumes "set_ok T s" and "q \<in> set (qs_queues s)" and "rid \<in> set (fq_waiting q)"
  shows "\<exists>r. qs_requests s rid = Some r \<and> queued (fq_id q) rid r"
  using set_okD(7) [OF assms(1,2)] assms(3) by (auto simp: queue_ok_def reqs_def)

lemma find_loop_pick:
  assumes ok: "set_ok T s" and n: "n = length (qs_queues s)" "n > 0"
  shows "find_loop s k robin mn best =
    Some (if k = 0 then robin else (robin + int k) mod int n,
          pick (virtual_finish s) (filter (\<lambda>i. fq_waiting (qs_queues s ! i) \<noteq> []) (robin_order n k robin)) mn best)"
proof (induction k arbitrary: robin mn best)
  case (Suc k)
  define robin' where "robin' = (robin + 1) mod int n"
  have "nat robin' < n" using n(2) by (simp add: robin'_def nat_less_iff)
  then have q: "vec_index (qs_queues s) (nat robin') = Some (qs_queues s ! nat robin')" "qs_queues s ! nat robin' \<in> set (qs_queues s)"
    using n(1) by (simp_all add: vec_index_def)
  have mod: "(if k = 0 then robin' else (robin' + int k) mod int n) = (robin + int (Suc k)) mod int n"
    unfolding robin'_def by (simp add: mod_add_left_eq add.assoc)
  have order: "robin_order n (Suc k) robin = nat robin' # robin_order n k robin'" by (simp add: robin'_def)
  have step: "(robin + 1) mod int (length (qs_queues s)) = robin'" using n(1) by (simp add: robin'_def)
  show ?case
  proof (cases "fq_waiting (qs_queues s ! nat robin')")
    case Nil
    then show ?thesis using Suc.IH [of robin'] q(1) mod unfolding order by (simp add: step)
  next
    case (Cons rid rest)
    then obtain r where "qs_requests s rid = Some r" using waiting_known [OF ok q(2), of rid] by auto
    then show ?thesis
      using Suc.IH [of robin'] Cons q(1) mod unfolding order by (simp add: step Let_def virtual_finish_def)
  qed
qed simp

lemma robin_order_range: "n > 0 \<Longrightarrow> i \<in> set (robin_order n k robin) \<Longrightarrow> i < n"
  by (induction n k robin rule: robin_order.induct) (auto simp: nat_less_iff)

lemma robin_order_all:
  assumes "n > 0"
  shows "set (robin_order n n robin) = {..<n}"
proof -
  have nth: "j < k \<Longrightarrow> robin_order n k robin ! j = nat ((robin + 1 + int j) mod int n)" for j k
  proof (induction n k robin arbitrary: j rule: robin_order.induct)
    case (2 n k robin)
    have "((robin + 1) mod int n + 1 + int i) mod int n = (robin + 1 + int (Suc i)) mod int n" for i
      by (metis add.commute add.left_commute mod_add_left_eq of_nat_Suc)
    then show ?case using 2 by (cases j) simp_all
  qed simp
  have len: "length (robin_order n k robin) = k" for k by (induction n k robin rule: robin_order.induct) auto
  have "i \<in> set (robin_order n n robin)" if "i < n" for i
  proof -
    define j where "j = nat ((int i - robin - 1) mod int n)"
    have j: "j < n" "int j = (int i - robin - 1) mod int n" using assms by (simp_all add: j_def nat_less_iff)
    then have "(robin + 1 + int j) mod int n = int i" using that by (simp add: mod_simps)
    then have "robin_order n n robin ! j = i" using nth [OF j(1)] by simp
    then show ?thesis using j(1) len nth_mem by metis
  qed
  then show ?thesis using robin_order_range [OF assms] by blast
qed

lemma waiting_queues_set: "set (waiting_queues s) = {i. i < length (qs_queues s) \<and> fq_waiting (qs_queues s ! i) \<noteq> []}"
proof (cases "qs_queues s = []")
  case False
  then show ?thesis using robin_order_all [of "length (qs_queues s)" "qs_robin_index s"] by (auto simp: waiting_queues_def)
qed (simp add: waiting_queues_def)

lemma find_loop_next:
  assumes ok: "set_ok T s"
  shows "\<exists>robin. find_loop s (length (qs_queues s)) (qs_robin_index s) (- 1) None = Some (robin, next_queue s)
    \<and> - 1 \<le> robin \<and> robin < max 1 (int (length (qs_queues s)))"
proof (cases "qs_queues s = []")
  case True
  then show ?thesis using set_okD(5) [OF ok] by (simp add: next_queue_def waiting_queues_def robin_ok_def)
next
  case False
  let ?n = "length (qs_queues s)"
  have n: "?n > 0" using False by simp
  have lt: "x < - 1 \<longleftrightarrow> x \<noteq> - 1" for x :: seat_seconds using word_order.extremum_strict by (simp add: less_le)
  have "find_loop s ?n (qs_robin_index s) (- 1) None = Some ((qs_robin_index s + int ?n) mod int ?n, next_queue s)"
    using n find_loop_pick [OF ok refl n, of ?n "qs_robin_index s" "- 1" None]
    by (simp add: pick_arg_min next_queue_def waiting_queues_def lt)
  moreover have "0 \<le> (qs_robin_index s + int ?n) mod int ?n" "(qs_robin_index s + int ?n) mod int ?n < int ?n" using n by simp_all
  ultimately show ?thesis by (intro exI) (rule conjI, assumption, linarith)
qed


section \<open>Dispatching\<close>

lemma next_queueD:
  assumes "next_queue s = Some i"
  shows "i < length (qs_queues s)" "fq_waiting (qs_queues s ! i) \<noteq> []" "qs_queues s ! i \<in> set (qs_queues s)"
proof -
  have "i = arg_min_list (virtual_finish s) (waiting_queues s)" "waiting_queues s \<noteq> []" using assms by (auto simp: next_queue_def split: if_splits)
  then have "i \<in> set (waiting_queues s)" by (simp add: arg_min_list_in)
  then show "i < length (qs_queues s)" "fq_waiting (qs_queues s ! i) \<noteq> []" "qs_queues s ! i \<in> set (qs_queues s)"
    by (simp_all add: waiting_queues_set)
qed

lemma reduce_final_seats_le: "cw_max_seats (reduce_final_seats F limit w) \<le> cw_max_seats w"
  by (auto simp: reduce_final_seats_def cw_max_seats_def)

definition started :: "'f f64 \<Rightarrow> nat \<Rightarrow> queue_set \<Rightarrow> request \<Rightarrow> request" where
  "started F now s r =
     r\<lparr>rq_work := reduce_final_seats F (qs_concurrency_limit s) (rq_work r), rq_dispatched := True, rq_start_time := now\<rparr>"

text \<open>The seats of the oldest request of a queue.\<close>

definition head_seats :: "queue_set \<Rightarrow> nat \<Rightarrow> nat" where
  "head_seats s i = cw_max_seats (rq_work (the (qs_requests s (hd (fq_waiting (qs_queues s ! i))))))"

definition dispatched_one :: "'f f64 \<Rightarrow> nat \<Rightarrow> queue_set \<Rightarrow> nat \<Rightarrow> queue_set \<Rightarrow> bool" where
  "dispatched_one F now s rid s' \<longleftrightarrow>
     (\<exists>i r. next_queue s = Some i \<and> rid = hd (fq_waiting (qs_queues s ! i)) \<and> can_accommodate_seats s (head_seats s i)
       \<and> qs_requests s rid = Some r \<and> \<not> rq_dispatched r \<and> qs_requests s' = (qs_requests s)(rid \<mapsto> started F now s r)
       \<and> qs_tot_seats_in_use s' = qs_tot_seats_in_use s + cw_max_seats (rq_work (started F now s r))
       \<and> qs_tot_requests_waiting s = qs_tot_requests_waiting s' + 1)"

lemma start_ok:
  assumes ok: "set_ok T s" and rid: "qs_requests s rid = Some r" "queued i rid r"
    and pos: "queue_pos s i = Some p" "p < length (qs_queues s)"
    and q': "queue_ok T ((qs_requests s)(rid := None)) q'" "fq_id q' = i"
    and s': "qs_requests s' = (qs_requests s)(rid \<mapsto> r')" "qs_queues s' = (qs_queues s)[p := q'']"
      "qs_next_queue_id s' = qs_next_queue_id s" "qs_next_request_id s' = qs_next_request_id s"
      "qs_queueless_executing s' = qs_queueless_executing s"
      "qs_tot_requests_waiting s' = usub (qs_tot_requests_waiting s) 1"
      "qs_tot_requests_executing s' = qs_tot_requests_executing s + 1"
      "qs_tot_seats_in_use s' = qs_tot_seats_in_use s + cw_max_seats (rq_work r')"
      "qs_tot_seats_waiting s' = usub (qs_tot_seats_waiting s) (cw_max_seats (rq_work r'))"
    and r': "rq_dispatched r'" "rq_queue_id r' = Some i" "cw_max_seats (rq_work r') \<le> cw_max_seats (rq_work r)"
    and q'': "q'' = q'\<lparr>fq_executing := insert rid (fq_executing q'), fq_seats_in_use := fq_seats_in_use q' + cw_max_seats (rq_work r'),
                       fq_next_dispatch_r := x\<rparr>"
  shows "queues_ok T s' \<and> requests_ok T s' \<and> totals_ok T s' \<and> qs_tot_requests_waiting s = qs_tot_requests_waiting s' + 1"
proof -
  define b where "b = (qs_requests s)(rid := None)"
  have b: "finite (dom b)" "b rid = None" "qs_requests s = b(rid \<mapsto> r)" "qs_requests s' = b(rid \<mapsto> r')"
    using set_okD(6) [OF ok] rid(1) s'(1) by (simp_all add: b_def fun_upd_idem)
  have T: "rid \<notin> T" using in_T_known [OF ok, of rid] rid by (auto simp: queued_def)
  have d: "\<not> rq_dispatched r" "rq_queue_id r = Some i" using rid(2) by (simp_all add: queued_def)
  note p = queue_posD [OF pos(1)]
  have "queue_ok T (b(rid \<mapsto> r')) (q''\<lparr>fq_next_dispatch_r := fq_next_dispatch_r q'\<rparr>)"
    using queue_ok_start [OF b(1,2), of q' r' T] q'(1) [folded b_def] q'(2) r' T by (simp add: q'' running_def)
  then have "queue_ok T (qs_requests s') q''" using b(4) by simp
  moreover have "queue_ok T (qs_requests s') q" if "fq_id q \<noteq> fq_id q''" "queue_ok T (qs_requests s) q" for q
    using that queue_ok_other [OF b(1,2), of r q T T] queue_ok_other [OF b(1,2), of r' q T T] d r' q'(2) b(3,4) by (simp add: q'')
  moreover have "fq_id q'' = fq_id (qs_queues s ! p)" using p(2) q'(2) by (simp add: q'')
  ultimately have qs: "queues_ok T s'" "fq_id ` set (qs_queues s') = fq_id ` set (qs_queues s)"
    using queues_ok_update [OF set_okD(1) [OF ok] pos(2) s'(2) _ s'(3), of T] by blast+
  have "requests_ok T s'"
    using set_okD(2) [OF ok] b(1,2) d r' qs(2) T unfolding requests_ok_def b(3,4) s'(3-5)
    by (simp add: reqs_upd located_def split: if_splits) blast
  moreover have "totals_ok T s' \<and> qs_tot_requests_waiting s = qs_tot_requests_waiting s' + 1"
    using set_okD(3) [OF ok] d r' T unfolding totals_ok_def b(3,4) s'(6-9) total_upd [OF b(1,2)]
    by (simp add: usub_def) linarith
  ultimately show ?thesis using qs(1) by blast
qed


lemma dispatch_ok:
  assumes ok: "set_ok T s"
  shows "\<exists>b s'. dispatch F now s = Some (b, s') \<and> set_ok T s' \<and> settings s' = settings s \<and>
    (if b then (\<exists>rid. dispatched_one F now s rid s')
     else (\<exists>ri. s' = s\<lparr>qs_robin_index := ri\<rparr>)
       \<and> (next_queue s = None \<or> (\<exists>i. next_queue s = Some i \<and> \<not> can_accommodate_seats s (head_seats s i))))"
proof -
  obtain robin where loop: "find_loop s (length (qs_queues s)) (qs_robin_index s) (- 1) None = Some (robin, next_queue s)"
    and robin: "- 1 \<le> robin" "robin < max 1 (int (length (qs_queues s)))" using find_loop_next [OF ok] by blast
  have robin_set: "set_ok T (s\<lparr>qs_robin_index := ri\<rparr>)" if "- 1 \<le> ri" "ri < max 1 (int (length (qs_queues s)))" for ri
    using ok that by (simp add: set_ok_defs)
  let ?s1 = "s\<lparr>qs_robin_index := robin\<rparr>"
  show ?thesis
  proof (cases "next_queue s")
    case None
    then show ?thesis
      using robin_set [OF robin]
      by (intro exI [of _ False] exI [of _ ?s1]) (auto simp: dispatch_def find_dispatch_queue_to_bound_def loop settings_def)
  next
    case (Some mi)
    note mi = next_queueD [OF Some]
    obtain rid rest where w: "fq_waiting (qs_queues s ! mi) = rid # rest" using mi(2) by (cases "fq_waiting (qs_queues s ! mi)") auto
    define i where "i = fq_id (qs_queues s ! mi)"
    obtain r where r: "qs_requests s rid = Some r" "queued i rid r"
      using waiting_known [OF ok mi(3), of rid] w by (auto simp: i_def)
    have vi: "vec_index (qs_queues s) mi = Some (qs_queues s ! mi)" using mi(1) by (simp add: vec_index_def)
    have hs: "head_seats s mi = cw_max_seats (rq_work r)" by (simp add: head_seats_def w r)
    have acc: "can_accommodate_seats ?s1 n = can_accommodate_seats s n" for n by (simp add: can_accommodate_seats_def)
    show ?thesis
    proof (cases "can_accommodate_seats s (head_seats s mi)")
      case False
      then have "dispatch F now s = Some (False, ?s1)"
        using Some vi w r hs by (simp add: dispatch_def find_dispatch_queue_to_bound_def loop acc)
      then show ?thesis using robin_set [OF robin] Some False by (intro exI [of _ False] exI [of _ ?s1]) (auto simp: settings_def)
    next
      case True
      let ?s2 = "s\<lparr>qs_robin_index := int mi\<rparr>"
      have ok2: "set_ok T ?s2" using robin_set [of "int mi"] mi(1) by simp
      have r1: "qs_requests ?s1 rid = Some r" and r2: "qs_requests ?s2 rid = Some r" using r by simp_all
      obtain p q' where rw: "queue_pos ?s1 i = Some p" "remove_waiting i rid ?s1 = Some (True, ?s1\<lparr>qs_queues := (qs_queues ?s1)[p := q']\<rparr>)"
          "fq_id q' = i" "p < length (qs_queues ?s1)" "queue_ok T ((qs_requests ?s1)(rid := None)) q'"
        using remove_waiting_ok [OF robin_set [OF robin] r1 r(2)] by blast
      then have q': "queue_pos ?s2 i = Some p" "p < length (qs_queues ?s2)" "queue_ok T ((qs_requests ?s2)(rid := None)) q'" "fq_id q' = i"
        by (simp_all add: queue_pos_def)
      define r' where "r' = started F now s r"
      define q'' where "q'' = q'\<lparr>fq_executing := insert rid (fq_executing q'), fq_seats_in_use := fq_seats_in_use q' + cw_max_seats (rq_work r'),
        fq_next_dispatch_r := fq_next_dispatch_r q' + cw_total_work (rq_work r')\<rparr>"
      have pos: "queue_pos s4' i = Some p" if "qs_queues s4' = (qs_queues s)[p := q']" for s4'
        using q'(1,2,4) queue_posD [OF q'(1)] queue_pos_cong [of s4' ?s2] that by (simp add: map_update list_update_same_conv)
      define r1 where "r1 = r\<lparr>rq_work := reduce_final_seats F (qs_concurrency_limit s) (rq_work r)\<rparr>"
      have fd: "find_dispatch_queue_to_bound F s =
          Some (Some (i, rid), ?s2\<lparr>qs_queues := (qs_queues s)[p := q'], qs_requests := (qs_requests s)(rid \<mapsto> r1)\<rparr>)"
        using Some vi w r hs True by (simp add: find_dispatch_queue_to_bound_def loop acc rw(2) i_def [symmetric] r1_def)
      define s3 where "s3 = ?s2\<lparr>qs_queues := (qs_queues s)[p := q'], qs_requests := (qs_requests s)(rid \<mapsto> r1)\<rparr>"
      define s4 where "s4 = set_queue (note_seat_demand (s3\<lparr>qs_tot_requests_waiting := usub (qs_tot_requests_waiting s3) 1,
          qs_tot_seats_waiting := usub (qs_tot_seats_waiting s3) (cw_max_seats (rq_work r1)),
          qs_requests := (qs_requests s3)(rid \<mapsto> r1\<lparr>rq_dispatched := True, rq_start_time := now\<rparr>),
          qs_tot_requests_executing := qs_tot_requests_executing s3 + 1,
          qs_tot_seats_in_use := qs_tot_seats_in_use s3 + cw_max_seats (rq_work r1)\<rparr>)) p
        (\<lambda>q. q\<lparr>fq_executing := insert rid (fq_executing q), fq_seats_in_use := fq_seats_in_use q + cw_max_seats (rq_work r1),
             fq_next_dispatch_r := fq_next_dispatch_r q + cw_total_work (rq_work r1)\<rparr>)"
      have dsp: "dispatch F now s = do { s5 \<leftarrow> bound_next_dispatch i s4; Some (True, s5) }"
        unfolding dispatch_def fd s3_def [symmetric] by (simp add: pos s3_def s4_def note_seat_demand_def Let_def)
      have r1': "r1\<lparr>rq_dispatched := True, rq_start_time := now\<rparr> = r'" "rq_work r1 = rq_work r'"
        by (simp_all add: r1_def r'_def started_def)
      note s4_simps = s4_def s3_def note_seat_demand_def set_queue_def r1'
      have s4: "qs_requests s4 = (qs_requests ?s2)(rid \<mapsto> r')" "qs_queues s4 = (qs_queues ?s2)[p := q'']"
        "qs_next_queue_id s4 = qs_next_queue_id ?s2" "qs_next_request_id s4 = qs_next_request_id ?s2"
        "qs_queueless_executing s4 = qs_queueless_executing ?s2"
        "qs_tot_requests_waiting s4 = usub (qs_tot_requests_waiting ?s2) 1"
        "qs_tot_requests_executing s4 = qs_tot_requests_executing ?s2 + 1"
        "qs_tot_seats_in_use s4 = qs_tot_seats_in_use ?s2 + cw_max_seats (rq_work r')"
        "qs_tot_seats_waiting s4 = usub (qs_tot_seats_waiting ?s2) (cw_max_seats (rq_work r'))"
        using q'(2) by (simp_all add: s4_simps q''_def)
      have r': "rq_dispatched r'" "rq_queue_id r' = Some i" "cw_max_seats (rq_work r') \<le> cw_max_seats (rq_work r)"
        using r(2) reduce_final_seats_le by (simp_all add: r'_def started_def queued_def)
      note start_ok [OF ok2 r2 r(2) q' s4 r' q''_def]
      moreover have "settings s4 = settings s" "config_ok s4" "robin_ok s4"
        using set_okD(4,5) [OF ok2] config_ok_cong [of s4 ?s2] robin_ok_cong [of s4 ?s2]
        by (simp_all add: s4_simps settings_def)
      ultimately have ok4: "set_ok T s4" "qs_tot_requests_waiting s = qs_tot_requests_waiting s4 + 1" "settings s4 = settings s"
        by (simp_all add: set_ok_def)
      obtain s5 where s5: "bound_next_dispatch i s4 = Some s5" "strip s5 = strip s4" "qs_requests s5 = qs_requests s4" "set_ok T s5"
        using bound_next_dispatch_keeps [OF ok4(1)] by blast
      have "dispatched_one F now s rid s5"
        using Some True w r(1) r(2) ok4(2) strip_fields [OF s5(2)] s5(3)
        by (simp add: dispatched_one_def s4_simps) (simp add: r'_def queued_def)
      then show ?thesis using dsp s5 ok4(3) strip_settings [OF s5(2)] by auto
    qed
  qed
qed


text \<open>Nothing more can start: no request waits, the seats are taken, or a queue whose turn it is has to wait for
  seats (a virtual finish at the very end of the range is never chosen).\<close>

definition exhausted :: "queue_set \<Rightarrow> bool" where
  "exhausted s \<longleftrightarrow>
     qs_tot_requests_waiting s = 0 \<or> qs_concurrency_limit s \<le> qs_tot_seats_in_use s
     \<or> (\<forall>i\<in>set (waiting_queues s). virtual_finish s i = - 1)
     \<or> (\<exists>i\<in>set (waiting_queues s). (\<forall>j\<in>set (waiting_queues s). virtual_finish s i \<le> virtual_finish s j)
          \<and> \<not> can_accommodate_seats s (head_seats s i))"

lemma exhausted_robin: "exhausted (s\<lparr>qs_robin_index := ri\<rparr>) = exhausted s"
  by (simp add: exhausted_def waiting_queues_set virtual_finish_def can_accommodate_seats_def head_seats_def)

lemma next_queue_exhausted:
  assumes "next_queue s = None \<or> (\<exists>i. next_queue s = Some i \<and> \<not> can_accommodate_seats s (head_seats s i))"
  shows "exhausted s"
proof (cases "waiting_queues s = []")
  case False
  let ?i = "arg_min_list (virtual_finish s) (waiting_queues s)"
  note first = arg_min_list_first [OF False, of "virtual_finish s"]
  show ?thesis
  proof (cases "virtual_finish s ?i = - 1")
    case True
    then have "\<forall>i\<in>set (waiting_queues s). virtual_finish s i = - 1" using first by (metis word_order.extremum_uniqueI)
    then show ?thesis by (simp add: exhausted_def)
  next
    case max: False
    then have "next_queue s = Some ?i" using False by (simp add: next_queue_def)
    then show ?thesis using assms first by (auto simp: exhausted_def)
  qed
qed (simp add: exhausted_def)

lemma dispatch_loop_rule:
  assumes "set_ok T s" and "P s"
    and step: "\<And>s rid s'. set_ok T s \<Longrightarrow> P s \<Longrightarrow> qs_tot_seats_in_use s < qs_concurrency_limit s \<Longrightarrow>
      dispatched_one F now s rid s' \<Longrightarrow> settings s' = settings s \<Longrightarrow> P s'"
    and robin: "\<And>s ri. P s \<Longrightarrow> P (s\<lparr>qs_robin_index := ri\<rparr>)"
  shows "\<exists>s'. dispatch_as_much_as_possible F now s = Some s' \<and> set_ok T s' \<and> settings s' = settings s \<and> P s' \<and> exhausted s'"
  using assms(1,2)
proof (induction "qs_tot_requests_waiting s" arbitrary: s rule: less_induct)
  case less
  show ?case
  proof (cases "qs_tot_requests_waiting s \<noteq> 0 \<and> qs_tot_seats_in_use s < qs_concurrency_limit s")
    case False
    then have "exhausted s" by (auto simp: exhausted_def)
    then show ?thesis using False less.prems by (subst dispatch_as_much_as_possible.simps) auto
  next
    case True
    obtain b s1 where s1: "dispatch F now s = Some (b, s1)" "set_ok T s1" "settings s1 = settings s"
      "if b then (\<exists>rid. dispatched_one F now s rid s1)
       else (\<exists>ri. s1 = s\<lparr>qs_robin_index := ri\<rparr>)
         \<and> (next_queue s = None \<or> (\<exists>i. next_queue s = Some i \<and> \<not> can_accommodate_seats s (head_seats s i)))"
      using dispatch_ok [OF less.prems(1), of F now] by blast
    show ?thesis
    proof (cases b)
      case False
      then have "exhausted s1" "P s1" using s1(4) next_queue_exhausted [of s] exhausted_robin robin less.prems(2) by auto
      then show ?thesis using True False s1 by (subst dispatch_as_much_as_possible.simps) simp
    next
      case more: True
      then obtain rid where one: "dispatched_one F now s rid s1" using s1(4) by auto
      then have "qs_tot_requests_waiting s1 < qs_tot_requests_waiting s" by (auto simp: dispatched_one_def)
      moreover have "P s1" using step [OF less.prems _ one s1(3)] True by simp
      ultimately obtain s' where "dispatch_as_much_as_possible F now s1 = Some s'" "set_ok T s'" "settings s' = settings s1" "P s'" "exhausted s'"
        using less.hyps s1(2) by blast
      then show ?thesis using True more s1 by (subst dispatch_as_much_as_possible.simps) simp
    qed
  qed
qed

text \<open>What the loop does to the requests: it starts some, and changes nothing else.\<close>

definition progressed :: "queue_set \<Rightarrow> queue_set \<Rightarrow> bool" where
  "progressed s s' \<longleftrightarrow>
     dom (qs_requests s') = dom (qs_requests s)
     \<and> (\<forall>rid r. qs_requests s rid = Some r \<and> rq_dispatched r \<longrightarrow> qs_requests s' rid = Some r)"

lemma dispatch_loop_ok:
  assumes "set_ok T s"
  shows "\<exists>s'. dispatch_as_much_as_possible F now s = Some s' \<and> set_ok T s' \<and> settings s' = settings s \<and> progressed s s' \<and> exhausted s'"
proof (rule dispatch_loop_rule [OF assms])
  show "progressed s s" by (simp add: progressed_def)
  show "progressed s s2" if p: "progressed s s1" and one: "dispatched_one F now s1 rid s2" for s1 rid s2
  proof -
    obtain r r' where "qs_requests s1 rid = Some r" "\<not> rq_dispatched r" "qs_requests s2 = (qs_requests s1)(rid \<mapsto> r')"
      using one unfolding dispatched_one_def by blast
    then show ?thesis using p unfolding progressed_def by (metis domI dom_fun_upd fun_upd_other insert_absorb option.distinct(1) option.inject)
  qed
  show "progressed s (s1\<lparr>qs_robin_index := ri\<rparr>)" if "progressed s s1" for s1 ri using that by (simp add: progressed_def)
qed


section \<open>Finishing and cancelling\<close>

lemma located_mono: "located T ids n x r \<Longrightarrow> (x \<in> T \<Longrightarrow> x \<in> T') \<Longrightarrow> located T' ids n x r"
  by (auto simp: located_def split: option.splits)

lemma locatedD: "set_ok T s \<Longrightarrow> qs_requests s x = Some r \<Longrightarrow> located T (fq_id ` set (qs_queues s)) (qs_next_queue_id s) x r"
  by (simp add: set_ok_def requests_ok_def)

lemma finish_core:
  assumes ok: "set_ok T s" and rid: "qs_requests s rid = Some r" "rq_dispatched r" "rid \<notin> T"
    and s': "qs_requests s' = qs_requests s" "qs_next_queue_id s' = qs_next_queue_id s"
      "qs_next_request_id s' = qs_next_request_id s" "fq_id ` set (qs_queues s') = fq_id ` set (qs_queues s)"
      "qs_queueless_executing s' = qs_queueless_executing s - {rid}"
      "qs_tot_requests_waiting s' = qs_tot_requests_waiting s" "qs_tot_seats_in_use s' = qs_tot_seats_in_use s"
      "qs_tot_requests_executing s' = usub (qs_tot_requests_executing s) 1"
      "qs_tot_seats_waiting s' = qs_tot_seats_waiting s"
  shows "requests_ok (insert rid T) s' \<and> totals_ok (insert rid T) s'"
proof -
  define b where "b = (qs_requests s)(rid := None)"
  have b: "finite (dom b)" "b rid = None" "qs_requests s = b(rid \<mapsto> r)"
    using set_okD(6) [OF ok] rid(1) by (simp_all add: b_def fun_upd_idem)
  have cong: "total b f (\<lambda>x r. P r \<and> x \<notin> insert rid T) = total b f (\<lambda>x r. P r \<and> x \<notin> T)" for f :: "_ \<Rightarrow> nat" and P
    by (rule total_cong) (use b(2) in auto)
  have "located (insert rid T) (fq_id ` set (qs_queues s)) (qs_next_queue_id s) x r" if "qs_requests s x = Some r" for x r
    using located_mono [OF locatedD [OF ok that], of "insert rid T"] by blast
  then have "requests_ok (insert rid T) s'"
    using set_okD(2) [OF ok] rid unfolding requests_ok_def s'(1-5) by (auto simp: reqs_def)
  moreover have "totals_ok (insert rid T) s'"
    using set_okD(3) [OF ok] rid unfolding totals_ok_def s'(1) s'(6-9) b(3) total_upd [OF b(1,2)] cong by simp
  ultimately show ?thesis ..
qed

text \<open>The finished request is in \<open>T\<close> from here on.\<close>

lemma finish_queue_ok:
  assumes ok: "set_ok T s" and rid: "qs_requests s rid = Some r" "rq_dispatched r" "rid \<notin> T" "rq_queue_id r = Some i"
  defines "s1 \<equiv> s\<lparr>qs_tot_requests_executing := usub (qs_tot_requests_executing s) 1\<rparr>"
  shows "\<exists>p. queue_pos s1 i = Some p \<and>
    set_ok (insert rid T) (set_queue s1 p (\<lambda>q. q\<lparr>fq_executing := fq_executing q - {rid}, fq_next_dispatch_r := g q\<rparr>))"
proof -
  have "located T (fq_id ` set (qs_queues s)) (qs_next_queue_id s) rid r" using ok rid(1) by (simp add: set_ok_def requests_ok_def)
  then obtain p where p: "queue_pos s i = Some p" using rid(3,4) queue_pos_ex [of i s] by (auto simp: located_def)
  let ?q = "qs_queues s ! p"
  define q' where "q' = ?q\<lparr>fq_executing := fq_executing ?q - {rid}, fq_next_dispatch_r := g ?q\<rparr>"
  let ?s2 = "set_queue s1 p (\<lambda>q. q\<lparr>fq_executing := fq_executing q - {rid}, fq_next_dispatch_r := g q\<rparr>)"
  note pD = queue_posD [OF p]
  have s2: "qs_queues ?s2 = (qs_queues s)[p := q']" "qs_requests ?s2 = qs_requests s" "qs_next_queue_id ?s2 = qs_next_queue_id s"
    by (simp_all add: set_queue_def s1_def q'_def)
  define b where "b = (qs_requests s)(rid := None)"
  have b: "finite (dom b)" "b rid = None" "qs_requests s = b(rid \<mapsto> r)"
    using set_okD(6) [OF ok] rid(1) by (simp_all add: b_def fun_upd_idem)
  have id': "fq_id q' = fq_id ?q" by (simp add: q'_def)
  have "queue_ok (insert rid T) (qs_requests s) q'"
    using queue_ok_finish [OF set_okD(7) [OF ok pD(3)], of rid] unfolding q'_def by simp
  moreover have "queue_ok (insert rid T) (qs_requests s) q" if "fq_id q \<noteq> fq_id q'" "queue_ok T (qs_requests s) q" for q
  proof -
    have "rq_queue_id r \<noteq> Some (fq_id q)" using rid(4) pD(2) id' that(1) by simp
    then show ?thesis using that(2) queue_ok_other [OF b(1,2), of r q T T] queue_ok_other [OF b(1,2), of r q "insert rid T" T] b(3) by simp
  qed
  ultimately have qs: "queues_ok (insert rid T) ?s2" "fq_id ` set (qs_queues ?s2) = fq_id ` set (qs_queues s)"
    using queues_ok_update [OF set_okD(1) [OF ok] pD(1) s2(1) id' s2(3), of "insert rid T"] unfolding s2(2) by blast+
  have "rid \<notin> qs_queueless_executing s" using set_okD(2) [OF ok] rid by (auto simp: requests_ok_def reqs_def)
  then have "requests_ok (insert rid T) ?s2 \<and> totals_ok (insert rid T) ?s2"
    using finish_core [OF ok rid(1-3) s2(2) s2(3) _ qs(2)] by (simp add: set_queue_def s1_def)
  moreover have "config_ok ?s2" "robin_ok ?s2"
    using set_okD(4,5) [OF ok] config_ok_cong [of ?s2 s] robin_ok_cong [of ?s2 s] by (simp_all add: set_queue_def s1_def settings_def)
  moreover have "queue_pos s1 i = Some p" using p by (simp add: queue_pos_def s1_def)
  ultimately show ?thesis using qs(1) by (auto simp: set_ok_def)
qed

lemma remove_queue_ok:
  assumes ok: "set_ok T s"
  shows "set_ok T (remove_queue_if_empty i s) \<and> qs_requests (remove_queue_if_empty i s) = qs_requests s
    \<and> settings (remove_queue_if_empty i s) = settings s"
proof (cases "\<exists>p. queue_pos s i = Some p \<and> int (length (qs_queues s)) > qc_desired_num_queues (qs_qcfg s) \<and> queue_is_empty (qs_queues s ! p)")
  case False
  then have "remove_queue_if_empty i s = s" by (auto simp: remove_queue_if_empty_def split: option.split)
  then show ?thesis using ok by simp
next
  case True
  then obtain p where p: "queue_pos s i = Some p" and long: "int (length (qs_queues s)) > qc_desired_num_queues (qs_qcfg s)"
    and empty: "queue_is_empty (qs_queues s ! p)" by blast
  note pD = queue_posD [OF p]
  let ?qs = "take p (qs_queues s) @ drop (Suc p) (qs_queues s)" and ?s' = "remove_queue_if_empty i s"
  have s': "?s' = s\<lparr>qs_queues := ?qs,
      qs_robin_index := (if qs_robin_index s \<ge> int p then qs_robin_index s - 1 else qs_robin_index s)\<rparr>"
    using p long empty by (simp add: remove_queue_if_empty_def)
  have split: "qs_queues s = take p (qs_queues s) @ qs_queues s ! p # drop (Suc p) (qs_queues s)" using pD(1) by (rule id_take_nth_drop)
  then have sub: "set ?qs \<subseteq> set (qs_queues s)" and cover: "set (qs_queues s) = insert (qs_queues s ! p) (set ?qs)"
    by (metis Un_insert_right insertCI list.simps(15) set_append subset_insertI, metis Un_insert_right list.simps(15) set_append)
  have "distinct (map fq_id (take p (qs_queues s) @ qs_queues s ! p # drop (Suc p) (qs_queues s)))"
    using set_okD(8) [OF ok] split by simp
  then have "distinct (map fq_id ?qs)" by auto
  then have "queues_ok T ?s'" using set_okD(1) [OF ok] sub unfolding queues_ok_def s' by auto
  moreover have "requests_ok T ?s'"
  proof -
    have "located T (fq_id ` set ?qs) (qs_next_queue_id s) rid r" if r: "qs_requests s rid = Some r" for rid r
    proof -
      have l: "located T (fq_id ` set (qs_queues s)) (qs_next_queue_id s) rid r" using r set_okD(2) [OF ok] by (simp add: requests_ok_def)
      have "rid \<in> T" if "rq_queue_id r = Some i"
      proof -
        have "reqs (qs_requests s) (queued i) = {}" "reqs (qs_requests s) (\<lambda>x r. running i x r \<and> x \<notin> T) = {}"
          using set_okD(7) [OF ok pD(3)] empty pD(2) by (auto simp: queue_ok_def queue_is_empty_def)
        then show ?thesis using r that by (auto simp: reqs_def queued_def running_def)
      qed
      then show ?thesis using l pD(2) unfolding cover by (auto simp: located_def split: option.splits)
    qed
    then show ?thesis using set_okD(2) [OF ok] unfolding requests_ok_def s' by simp
  qed
  moreover have "totals_ok T ?s'" using set_okD(3) [OF ok] by (simp add: totals_ok_def s')
  moreover have "config_ok ?s'" using set_okD(4) [OF ok] long pD(1) by (auto simp: config_ok_def s')
  moreover have "robin_ok ?s'" using set_okD(5) [OF ok] pD(1) by (auto simp: robin_ok_def s')
  ultimately show ?thesis by (simp add: set_ok_def s' settings_def)
qed

lemma release_core:
  assumes ok: "set_ok (insert rid T) s" and rid: "qs_requests s rid = Some r" "rid \<notin> T"
    and s': "qs_requests s' = (qs_requests s)(rid := None)" "qs_next_queue_id s' = qs_next_queue_id s"
      "qs_next_request_id s' = qs_next_request_id s" "fq_id ` set (qs_queues s') = fq_id ` set (qs_queues s)"
      "qs_queueless_executing s' = qs_queueless_executing s"
      "qs_tot_requests_waiting s' = qs_tot_requests_waiting s" "qs_tot_requests_executing s' = qs_tot_requests_executing s"
      "qs_tot_seats_in_use s' = usub (qs_tot_seats_in_use s) (cw_max_seats (rq_work r))"
      "qs_tot_seats_waiting s' = qs_tot_seats_waiting s"
  shows "requests_ok T s' \<and> totals_ok T s'"
proof -
  define b where "b = (qs_requests s)(rid := None)"
  have b: "finite (dom b)" "b rid = None" "qs_requests s = b(rid \<mapsto> r)" "qs_requests s' = b"
    using set_okD(6) [OF ok] rid(1) s'(1) by (simp_all add: b_def fun_upd_idem)
  have d: "rq_dispatched r" using in_T_known [OF ok, of rid] rid by auto
  have cong: "total b f (\<lambda>x r. P r \<and> x \<notin> insert rid T) = total b f (\<lambda>x r. P r \<and> x \<notin> T)" for f :: "_ \<Rightarrow> nat" and P
    by (rule total_cong) (use b(2) in auto)
  have loc: "located T (fq_id ` set (qs_queues s)) (qs_next_queue_id s) x r" if "b x = Some r" for x r
  proof -
    have x: "x \<noteq> rid" "qs_requests s x = Some r" using that by (auto simp: b_def split: if_splits)
    then show ?thesis using located_mono [OF locatedD [OF ok x(2)], of T] by blast
  qed
  have T: "T \<subseteq> reqs b (\<lambda>_. rq_dispatched)" "\<forall>x\<in>dom b. x < qs_next_request_id s"
    using set_okD(2) [OF ok] rid(2) by (auto simp: requests_ok_def b_def reqs_def)
  have "reqs (qs_requests s) (\<lambda>x r. rq_queue_id r = None \<and> x \<notin> insert rid T) = reqs b (\<lambda>x r. rq_queue_id r = None \<and> x \<notin> T)"
    by (auto simp: reqs_def b_def)
  then have "requests_ok T s'"
    using set_okD(2) [OF ok] b(1) loc T unfolding requests_ok_def s'(2-5) b(4) by simp
  moreover have "totals_ok T s'"
    using set_okD(3) [OF ok] d unfolding totals_ok_def b(3,4) s'(6-9) total_upd [OF b(1,2)] cong by simp
  ultimately show ?thesis ..
qed


lemma release_ok:
  assumes ok: "set_ok (insert rid T) s" and rid: "qs_requests s rid = Some r" "rid \<notin> T"
  shows "set_ok T (release_seats rid s) \<and> qs_requests (release_seats rid s) = (qs_requests s)(rid := None)
    \<and> settings (release_seats rid s) = settings s"
proof -
  define mx where "mx = cw_max_seats (rq_work r)"
  define s1 where "s1 = note_seat_demand (s\<lparr>qs_requests := (qs_requests s)(rid := None), qs_tot_seats_in_use := usub (qs_tot_seats_in_use s) mx\<rparr>)"
  define b where "b = (qs_requests s)(rid := None)"
  have b: "finite (dom b)" "b rid = None" "qs_requests s = b(rid \<mapsto> r)"
    using set_okD(6) [OF ok] rid(1) by (simp_all add: b_def fun_upd_idem)
  have d: "rq_dispatched r" using in_T_known [OF ok, of rid] rid by auto
  have s1: "qs_requests s1 = b" "qs_queues s1 = qs_queues s" "settings s1 = settings s"
    by (simp_all add: s1_def note_seat_demand_def b_def settings_def)
  have other: "queue_ok T b q" if "rq_queue_id r \<noteq> Some (fq_id q)" "queue_ok (insert rid T) (qs_requests s) q" for q
    using queue_ok_other [OF b(1,2) that(1), of "insert rid T" T] that(2) b(3) by simp
  have keeps: "set_ok T s'" if "queues_ok T s'" "fq_id ` set (qs_queues s') = fq_id ` set (qs_queues s)"
      "s' = s1\<lparr>qs_queues := qs_queues s'\<rparr>" "length (qs_queues s') = length (qs_queues s)" for s'
  proof -
    have f: "qs_requests s' = (qs_requests s)(rid := None)" "qs_next_queue_id s' = qs_next_queue_id s"
      "qs_next_request_id s' = qs_next_request_id s" "qs_queueless_executing s' = qs_queueless_executing s"
      "qs_tot_requests_waiting s' = qs_tot_requests_waiting s" "qs_tot_requests_executing s' = qs_tot_requests_executing s"
      "qs_tot_seats_in_use s' = usub (qs_tot_seats_in_use s) (cw_max_seats (rq_work r))"
      "qs_tot_seats_waiting s' = qs_tot_seats_waiting s" "settings s' = settings s" "qs_robin_index s' = qs_robin_index s"
      by (subst that(3), simp add: s1_def note_seat_demand_def mx_def settings_def)+
    have "requests_ok T s' \<and> totals_ok T s'" by (rule release_core [OF ok rid f(1-3) that(2) f(4-8)])
    then show ?thesis
      using that(1) set_okD(4,5) [OF ok] config_ok_cong [OF f(9) that(4)] robin_ok_cong [OF f(10) that(4)] by (simp add: set_ok_def)
  qed
  show ?thesis
  proof (cases "\<exists>i p. rq_queue_id r = Some i \<and> queue_pos s i = Some p")
    case False
    have "rq_queue_id r \<noteq> Some (fq_id q)" if "q \<in> set (qs_queues s)" for q
      using False queue_pos_ex [of "fq_id q" s] that by auto
    then have "queues_ok T s1"
      using set_okD(1) [OF ok] other by (auto simp: queues_ok_def s1 s1_def note_seat_demand_def b_def)
    then have "set_ok T s1" using keeps [of s1] s1(2) by simp
    moreover have "release_seats rid s = s1 \<or> (\<exists>i. release_seats rid s = remove_queue_if_empty i s1)"
      using rid(1) False by (cases "rq_queue_id r")
        (auto simp: release_seats_def Let_def s1_def mx_def queue_pos_def note_seat_demand_def)
    ultimately show ?thesis using remove_queue_ok [of T s1] s1 by (auto simp: b_def)
  next
    case True
    then obtain i p where i: "rq_queue_id r = Some i" and p: "queue_pos s i = Some p" by blast
    note pD = queue_posD [OF p]
    let ?f = "\<lambda>q. q\<lparr>fq_seats_in_use := usub (fq_seats_in_use q) mx\<rparr>"
    define s2 where "s2 = set_queue s1 p ?f"
    have s2: "qs_queues s2 = (qs_queues s)[p := ?f (qs_queues s ! p)]" "qs_next_queue_id s2 = qs_next_queue_id s" "qs_requests s2 = b"
      by (simp_all add: s2_def set_queue_def s1_def note_seat_demand_def b_def)
    have "queue_ok T b (?f (qs_queues s ! p))"
      using queue_ok_release [OF b(1,2), of "qs_queues s ! p" r T] set_okD(7) [OF ok pD(3)] b(3) d i pD(2)
      by (simp add: running_def mx_def)
    then have "queues_ok T s2 \<and> fq_id ` set (qs_queues s2) = fq_id ` set (qs_queues s)"
      using queues_ok_update [OF set_okD(1) [OF ok] pD(1) s2(1) _ s2(2), of T] other i pD(2) unfolding s2(3) by auto
    then have "set_ok T s2" using keeps [of s2] s2(1) s1(2) by (simp add: s2_def set_queue_def)
    moreover have "queue_pos s1 i = Some p" using p s1(2) by (simp add: queue_pos_def)
    then have "release_seats rid s = remove_queue_if_empty i s2"
      using rid(1) i by (simp add: release_seats_def Let_def s1_def [symmetric] mx_def [symmetric] s2_def)
    ultimately show ?thesis using remove_queue_ok [of T s2 i] s1 s2(3) by (simp add: b_def s2_def set_queue_def settings_def)
  qed
qed

text \<open>Finishing either releases the seats at once or leaves the request behind in \<open>T\<close>.\<close>

definition finished_ok :: "nat set \<Rightarrow> queue_set \<Rightarrow> nat \<Rightarrow> nat option \<Rightarrow> queue_set \<Rightarrow> bool" where
  "finished_ok T s rid linger s' \<longleftrightarrow>
     settings s' = settings s \<and>
     (case linger of
        None \<Rightarrow> set_ok T s' \<and> qs_requests s' = (qs_requests s)(rid := None)
      | Some d \<Rightarrow> set_ok (insert rid T) s' \<and> qs_requests s' = qs_requests s)"

lemma finish_ok:
  assumes ok: "set_ok T s" and rid: "qs_requests s rid = Some r" "rq_dispatched r" "rid \<notin> T"
  shows "\<exists>linger s'. finish_request F now rid s = Some (linger, s') \<and> finished_ok T s rid linger s'"
proof -
  let ?s1 = "s\<lparr>qs_tot_requests_executing := usub (qs_tot_requests_executing s) 1\<rparr>"
  define leave where "leave = (case rq_queue_id r of
      Some qid \<Rightarrow> bound_next_dispatch qid (case queue_pos ?s1 qid of None \<Rightarrow> ?s1
        | Some qpos \<Rightarrow> set_queue ?s1 qpos (\<lambda>q. q\<lparr>fq_executing := fq_executing q - {rid},
            fq_next_dispatch_r := fq_next_dispatch_r q - seats_times_duration F (f_of_nat F (cw_initial_seats (rq_work r)))
              (qs_estimated_service_duration_ns ?s1 - nanos (now - rq_start_time r))\<rparr>))
    | None \<Rightarrow> Some (?s1\<lparr>qs_queueless_executing := qs_queueless_executing ?s1 - {rid}\<rparr>))"
  have "\<exists>s2. leave = Some s2 \<and> set_ok (insert rid T) s2 \<and> qs_requests s2 = qs_requests s \<and> settings s2 = settings s"
  proof (cases "rq_queue_id r")
    case None
    let ?s2 = "?s1\<lparr>qs_queueless_executing := qs_queueless_executing ?s1 - {rid}\<rparr>"
    define b where "b = (qs_requests s)(rid := None)"
    have b: "finite (dom b)" "b rid = None" "qs_requests s = b(rid \<mapsto> r)"
      using set_okD(6) [OF ok] rid(1) by (simp_all add: b_def fun_upd_idem)
    have "queue_ok (insert rid T) (qs_requests s) q" if "queue_ok T (qs_requests s) q" for q
      using that queue_ok_other [OF b(1,2), of r q T T] queue_ok_other [OF b(1,2), of r q "insert rid T" T] b(3) None by simp
    then have "queues_ok (insert rid T) ?s2" using set_okD(1) [OF ok] by (simp add: queues_ok_def)
    moreover have "requests_ok (insert rid T) ?s2 \<and> totals_ok (insert rid T) ?s2" by (rule finish_core [OF ok rid]) simp_all
    moreover have "config_ok ?s2" "robin_ok ?s2" using set_okD(4,5) [OF ok] by (simp_all add: config_ok_def robin_ok_def)
    ultimately show ?thesis by (simp add: leave_def None set_ok_def settings_def)
  next
    case (Some i)
    let ?g = "\<lambda>q. fq_next_dispatch_r q - seats_times_duration F (f_of_nat F (cw_initial_seats (rq_work r)))
        (qs_estimated_service_duration_ns ?s1 - nanos (now - rq_start_time r))"
    obtain p where p: "queue_pos ?s1 i = Some p"
        "set_ok (insert rid T) (set_queue ?s1 p (\<lambda>q. q\<lparr>fq_executing := fq_executing q - {rid}, fq_next_dispatch_r := ?g q\<rparr>))"
      using finish_queue_ok [OF ok rid Some, of ?g] by blast
    obtain s2 where "bound_next_dispatch i (set_queue ?s1 p (\<lambda>q. q\<lparr>fq_executing := fq_executing q - {rid}, fq_next_dispatch_r := ?g q\<rparr>)) = Some s2"
        "strip s2 = strip (set_queue ?s1 p (\<lambda>q. q\<lparr>fq_executing := fq_executing q - {rid}, fq_next_dispatch_r := ?g q\<rparr>))"
        "qs_requests s2 = qs_requests s" "set_ok (insert rid T) s2"
      using bound_next_dispatch_keeps [OF p(2), of i] by auto
    then show ?thesis using p(1) Some strip_settings [of s2] by (auto simp: leave_def settings_def set_queue_def)
  qed
  then obtain s2 where s2: "leave = Some s2" "set_ok (insert rid T) s2" "qs_requests s2 = qs_requests s" "settings s2 = settings s" by blast
  have "finish_request F now rid s = do { s2 \<leftarrow> leave; let latency = cw_additional_latency_ns (rq_work r);
      if latency \<le> 0 then Some (None, release_seats rid s2) else Some (Some (nat latency), s2) }"
    unfolding finish_request_def leave_def Let_def using rid(1) by (cases "rq_queue_id r") simp_all
  then show ?thesis
    using s2 release_ok [OF s2(2) _ rid(3), of r] rid(1) by (auto simp: finished_ok_def Let_def)
qed


lemma cancel_ok:
  assumes ok: "set_ok T s" and rid: "qs_requests s rid = Some r" "\<not> rq_dispatched r"
  shows "\<exists>s'. cancel_waiting rid s = Some s' \<and> set_ok T s' \<and> qs_requests s' = (qs_requests s)(rid := None) \<and> settings s' = settings s"
proof -
  obtain i where i: "rq_queue_id r = Some i" using locatedD [OF ok rid(1)] rid(2) by (auto simp: located_def split: option.splits)
  then have qd: "queued i rid r" using rid(2) by (simp add: queued_def)
  obtain p q' where q': "queue_pos s i = Some p" "remove_waiting i rid s = Some (True, s\<lparr>qs_queues := (qs_queues s)[p := q']\<rparr>)"
      "fq_id q' = i" "p < length (qs_queues s)" "queue_ok T ((qs_requests s)(rid := None)) q'"
    using remove_waiting_ok [OF ok rid(1) qd] by blast
  note pD = queue_posD [OF q'(1)]
  define s1 where "s1 = s\<lparr>qs_queues := (qs_queues s)[p := q']\<rparr>"
  define s2 where "s2 = note_seat_demand (s1\<lparr>qs_tot_requests_waiting := usub (qs_tot_requests_waiting s1) 1,
    qs_tot_seats_waiting := usub (qs_tot_seats_waiting s1) (cw_max_seats (rq_work r))\<rparr>)"
  define s3 where "s3 = s2\<lparr>qs_tot_requests_rejected := qs_tot_requests_rejected s2 + 1,
    qs_tot_requests_cancelled := qs_tot_requests_cancelled s2 + 1, qs_requests := (qs_requests s2)(rid := None)\<rparr>"
  note s3_simps = s3_def s2_def s1_def note_seat_demand_def
  define b where "b = (qs_requests s)(rid := None)"
  have b: "finite (dom b)" "b rid = None" "qs_requests s = b(rid \<mapsto> r)" "qs_requests s3 = b"
    using set_okD(6) [OF ok] rid(1) by (simp_all add: b_def fun_upd_idem s3_simps)
  have T: "rid \<notin> T" using in_T_known [OF ok, of rid] rid by auto
  have s3: "qs_queues s3 = (qs_queues s)[p := q']" "qs_next_queue_id s3 = qs_next_queue_id s" by (simp_all add: s3_simps)
  have "queue_ok T (qs_requests s3) q" if "fq_id q \<noteq> fq_id q'" "queue_ok T (qs_requests s) q" for q
    using queue_ok_other [OF b(1,2), of r q T T] that i q'(3) b(3,4) by simp
  then have qs: "queues_ok T s3" "fq_id ` set (qs_queues s3) = fq_id ` set (qs_queues s)"
    using queues_ok_update [OF set_okD(1) [OF ok] q'(4) s3(1) _ s3(2), of T] q'(3,5) pD(2) b(4) b_def by auto
  have loc: "located T (fq_id ` set (qs_queues s)) (qs_next_queue_id s) x r'" if "b x = Some r'" for x r'
    using locatedD [OF ok, of x r'] that by (auto simp: b_def split: if_splits)
  have "reqs (b(rid \<mapsto> r)) (\<lambda>x r. rq_queue_id r = None \<and> x \<notin> T) = reqs b (\<lambda>x r. rq_queue_id r = None \<and> x \<notin> T)"
    "reqs (b(rid \<mapsto> r)) (\<lambda>_. rq_dispatched) = reqs b (\<lambda>_. rq_dispatched)" using i rid(2) by (simp_all add: reqs_upd b(2))
  moreover have "qs_queueless_executing s3 = qs_queueless_executing s" "qs_next_request_id s3 = qs_next_request_id s" by (simp_all add: s3_simps)
  ultimately have "requests_ok T s3"
    using set_okD(2) [OF ok] loc b(1) unfolding requests_ok_def b(4) s3(2) qs(2) unfolding b(3) by auto
  moreover have "totals_ok T s3"
    using set_okD(3) [OF ok] rid(2) unfolding totals_ok_def b(4) unfolding b(3) total_upd [OF b(1,2)]
    by (simp add: s3_simps) (simp add: usub_def; linarith)
  moreover have "settings s3 = settings s" "config_ok s3" "robin_ok s3"
    using set_okD(4,5) [OF ok] config_ok_cong [of s3 s] robin_ok_cong [of s3 s] by (simp_all add: s3_simps settings_def)
  ultimately have ok3: "set_ok T s3" "settings s3 = settings s" using qs(1) by (simp_all add: set_ok_def)
  obtain s4 where s4: "bound_next_dispatch i s3 = Some s4" "strip s4 = strip s3" "qs_requests s4 = qs_requests s3" "set_ok T s4"
    using bound_next_dispatch_keeps [OF ok3(1)] by blast
  have "cancel_waiting rid s = Some s4"
    using rid(1) i q'(2) [folded s1_def] s4(1) by (simp add: cancel_waiting_def Let_def s3_def s2_def)
  then show ?thesis using s4 ok3(2) strip_settings [OF s4(2)] b(4) b_def by auto
qed

lemma sans_queue_ok:
  assumes ok: "set_ok T s" and new: "dispatch_sans_queue F now we fl fs s = (rid, s')"
  shows "set_ok T s' \<and> settings s' = settings s \<and> rid = qs_next_request_id s
    \<and> (\<exists>r. qs_requests s' = (qs_requests s)(rid \<mapsto> r) \<and> rq_dispatched r \<and> cw_max_seats (rq_work r) = we_max_seats we)"
proof -
  let ?m = "qs_requests s"
  define w where "w = complete_work_estimate F s we"
  define r where "r = \<lparr>rq_fs_name = fs, rq_flow_distinguisher = fl, rq_queue_id = None, rq_work = w, rq_dispatched = True,
    rq_arrival_time = now, rq_arrival_r = qs_current_r s, rq_start_time = now\<rparr>"
  have rid: "rid = qs_next_request_id s" "?m rid = None"
    and s': "qs_requests s' = ?m(rid \<mapsto> r)" "qs_queues s' = qs_queues s" "qs_next_queue_id s' = qs_next_queue_id s"
      "qs_next_request_id s' = rid + 1" "qs_queueless_executing s' = insert rid (qs_queueless_executing s)"
      "qs_tot_requests_waiting s' = qs_tot_requests_waiting s" "qs_tot_requests_executing s' = qs_tot_requests_executing s + 1"
      "qs_tot_seats_in_use s' = qs_tot_seats_in_use s + cw_max_seats w" "qs_tot_seats_waiting s' = qs_tot_seats_waiting s"
      "settings s' = settings s" "qs_robin_index s' = qs_robin_index s"
    using new next_id_free [OF ok]
    by (auto simp: dispatch_sans_queue_def new_request_def Let_def note_seat_demand_def r_def w_def settings_def)
  have T: "rid \<notin> T" using in_T_known [OF ok, of rid] rid(2) by auto
  have "queue_ok T (?m(rid \<mapsto> r)) q" if "queue_ok T ?m q" for q
    using queue_ok_other [of ?m rid r q T T, OF set_okD(6) [OF ok] rid(2)] that by (simp add: r_def)
  then have "queues_ok T s'" using set_okD(1) [OF ok] by (simp add: queues_ok_def s')
  moreover have "requests_ok T s'"
    using set_okD(2) [OF ok] rid T unfolding requests_ok_def s'
    by (auto simp: reqs_upd r_def less_Suc_eq located_def)
  moreover have "totals_ok T s'"
    using set_okD(3) [OF ok] T by (simp add: totals_ok_def s' total_upd [OF set_okD(6) [OF ok] rid(2)] r_def)
  moreover have "config_ok s'" "robin_ok s'" using set_okD(4,5) [OF ok] config_ok_cong [OF s'(10)] robin_ok_cong [OF s'(11)] s'(2) by simp_all
  moreover have "cw_max_seats w = we_max_seats we"
    by (simp add: w_def complete_work_estimate_def cw_max_seats_def we_max_seats_def Let_def)
  ultimately show ?thesis using rid(1) s'(1,10) by (auto simp: set_ok_def r_def)
qed


section \<open>Sharding and configuration\<close>

abbreviation load :: "queue_set \<Rightarrow> nat \<Rightarrow> seat_seconds" where
  "load s i \<equiv> su_total_work_sum (fq_sum (qs_queues s ! i))"

lemma shard_loop_pick:
  assumes "\<And>c. c \<in> set hand \<Longrightarrow> c < length (qs_queues s)" and "hand \<noteq> []"
  shows "shard_loop (qs_queues s) hand offset is best mn =
    Some (pick (load s) (map (\<lambda>i. hand ! ((offset + i) mod length hand)) is) mn best)"
proof (induction "is" arbitrary: best mn)
  case (Cons i "is")
  have j: "(offset + i) mod length hand < length hand" using assms(2) by simp
  then have "hand ! ((offset + i) mod length hand) < length (qs_queues s)" using assms(1) nth_mem by blast
  then show ?case using Cons j by (simp add: vec_index_def Let_def)
qed simp

lemma shuffle_shard_ok:
  assumes ok: "set_ok T s" and desired: "qc_desired_num_queues (qs_qcfg s) > 0"
  shows "\<exists>dl hand i. qs_dealer s = Some dl \<and> deal_into_hand dl hash = Some hand
    \<and> shuffle_shard hash s = Some (i, s\<lparr>qs_enqueues := qs_enqueues s + 1\<rparr>)
    \<and> i \<in> set hand \<and> i < length (qs_queues s) \<and> (\<forall>j\<in>set hand. load s i \<le> load s j)"
proof -
  obtain dl where dl: "qs_dealer s = Some dl" "dealer_ok dl" "dl_deck_size dl \<le> length (qs_queues s)"
    using set_okD(4) [OF ok] desired by (auto simp: config_ok_def)
  obtain hand where hand: "deal_into_hand dl hash = Some hand" "hand \<in> hands (dl_deck_size dl) (dl_hand_size dl)"
    using hand_ok [OF dl(2)] by blast
  have range: "c < length (qs_queues s)" if "c \<in> set hand" for c using that hand(2) dl(3) by (auto simp: hands_def)
  have ne: "hand \<noteq> []" using hand(2) dl(2) by (auto simp: hands_def dealer_ok_def)
  let ?off = "qs_enqueues s mod length hand"
  have rot: "map (\<lambda>i. hand ! ((?off + i) mod length hand)) [0..<length hand] = rotate ?off hand"
    by (intro nth_equalityI) (simp_all add: nth_rotate)
  let ?m = "arg_min_list (load s) (rotate ?off hand)"
  define i where "i = (if load s ?m < - 1 then ?m else hd hand)"
  have sh: "shuffle_shard hash s = Some (i, s\<lparr>qs_enqueues := qs_enqueues s + 1\<rparr>)"
    using dl(1) hand(1) ne shard_loop_pick [OF range ne, of ?off "[0..<length hand]" None "- 1"]
    unfolding rot by (simp add: shuffle_shard_def pick_arg_min i_def)
  have ne': "rotate ?off hand \<noteq> []" using ne by simp
  note first = arg_min_list_first [OF ne', of "load s"]
  have least: "load s i \<le> load s j" if "j \<in> set hand" for j
  proof (cases "load s ?m < - 1")
    case True
    then show ?thesis using first that by (simp add: i_def)
  next
    case False
    then have "- 1 \<le> load s ?m" by (simp only: not_less)
    also have "load s ?m \<le> load s j" using first that by simp
    finally have "load s j = - 1" by (rule word_order.extremum_uniqueI)
    then show ?thesis by simp
  qed
  moreover have "i \<in> set hand" using first ne by (simp add: i_def)
  ultimately show ?thesis using dl(1) hand(1) sh range by blast
qed

definition base_ok :: "nat set \<Rightarrow> queue_set \<Rightarrow> bool" where
  "base_ok T s \<longleftrightarrow> queues_ok T s \<and> requests_ok T s \<and> totals_ok T s \<and> robin_ok s"

lemma add_queues_ok:
  "base_ok T s \<Longrightarrow> base_ok T (add_queues n s) \<and> length (qs_queues (add_queues n s)) = length (qs_queues s) + n
    \<and> qs_requests (add_queues n s) = qs_requests s \<and> settings (add_queues n s) = settings s"
proof (induction n arbitrary: s)
  case (Suc n)
  let ?i = "qs_next_queue_id s" and ?m = "qs_requests s"
  let ?s1 = "s\<lparr>qs_next_queue_id := ?i + 1, qs_queues := qs_queues s @ [queue_new ?i]\<rparr>"
  have b: "queues_ok T s" "requests_ok T s" "totals_ok T s" "robin_ok s" using Suc.prems by (simp_all add: base_ok_def)
  have loc: "located T (fq_id ` set (qs_queues s)) ?i x r" if "?m x = Some r" for x r using b(2) that by (simp add: requests_ok_def)
  have no: "rq_queue_id r \<noteq> Some ?i" if "?m x = Some r" for x r using loc [OF that] by (auto simp: located_def)
  then have e: "reqs ?m (queued ?i) = {}" "reqs ?m (running ?i) = {}" "reqs ?m (\<lambda>x r. running ?i x r \<and> x \<notin> T) = {}"
    by (auto simp: reqs_def queued_def running_def)
  have "queue_ok T ?m (queue_new ?i)" by (simp add: queue_ok_def queue_new_def e total_def)
  moreover have "fq_id (queue_new ?i) \<notin> fq_id ` set (qs_queues s)" using b(1) by (auto simp: queues_ok_def queue_new_def)
  ultimately have "queues_ok T ?s1" using b(1) by (auto simp: queues_ok_def queue_new_def less_Suc_eq)
  moreover have "located T (fq_id ` set (qs_queues ?s1)) (qs_next_queue_id ?s1) x r" if "?m x = Some r" for x r
    using loc [OF that] by (auto simp: located_def split: option.splits)
  then have "requests_ok T ?s1" using b(2) by (simp add: requests_ok_def)
  moreover have "totals_ok T ?s1" "robin_ok ?s1" using b(3,4) by (auto simp: totals_ok_def robin_ok_def)
  ultimately have "base_ok T ?s1" by (simp add: base_ok_def)
  then have "base_ok T (add_queues n ?s1) \<and> length (qs_queues (add_queues n ?s1)) = length (qs_queues ?s1) + n
    \<and> qs_requests (add_queues n ?s1) = qs_requests ?s1 \<and> settings (add_queues n ?s1) = settings ?s1" by (rule Suc.IH)
  moreover have "add_queues (Suc n) s = add_queues n ?s1" by (simp add: create_queue_def)
  ultimately show ?case by (simp add: settings_def)
qed simp

lemma check_config_dealer:
  assumes "entropy_sound F" and "check_config F qcfg = Inr dealer"
  shows "if qc_desired_num_queues qcfg > 0 then (\<exists>dl. dealer = Some dl \<and> dealer_ok dl \<and> int (dl_deck_size dl) = qc_desired_num_queues qcfg)
         else dealer = None"
  using assms dealer_new_ok [OF assms(1)] by (fastforce simp: check_config_def split: if_splits sum.splits)

lemma set_configuration_ok:
  assumes ok: "set_ok T s" and dealer: "entropy_sound F" "check_config F qcfg = Inr dealer"
  shows "\<exists>s'. set_configuration F now qcfg dealer limit s = Some s' \<and> set_ok T s' \<and> progressed (sync_time F now s) s' \<and> exhausted s'"
proof -
  define s1 where "s1 = sync_time F now s"
  have ok1: "set_ok T s1" using set_ok_cong [of s1 s T] ok by (simp add: s1_def)
  define s2 where "s2 = (if qc_desired_num_queues qcfg > 0
      then add_queues (nat (qc_desired_num_queues qcfg) - length (qs_queues s1)) s1 else s1)"
  define qcfg' where "qcfg' = (if qc_desired_num_queues qcfg > 0 then qcfg
      else qcfg\<lparr>qc_queue_length_limit := qc_queue_length_limit (qs_qcfg s1), qc_hand_size := qc_hand_size (qs_qcfg s1)\<rparr>)"
  define s3 where "s3 = s2\<lparr>qs_qcfg := qcfg', qs_concurrency_limit := limit, qs_dealer := dealer\<rparr>"
  have "base_ok T s1" using ok1 by (simp add: base_ok_def set_ok_def)
  then have s2: "base_ok T s2" "qs_requests s2 = qs_requests s1"
      "qc_desired_num_queues qcfg > 0 \<longrightarrow> qc_desired_num_queues qcfg \<le> int (length (qs_queues s2))"
    using add_queues_ok [of T s1] by (auto simp: s2_def)
  have "qc_desired_num_queues qcfg' = qc_desired_num_queues qcfg" by (simp add: qcfg'_def)
  then have "config_ok s3" using check_config_dealer [OF dealer] s2(3) by (auto simp: config_ok_def s3_def)
  then have "set_ok T s3"
    using s2(1) by (simp add: s3_def set_ok_def base_ok_def queues_ok_def requests_ok_def totals_ok_def robin_ok_def)
  then obtain s' where "dispatch_as_much_as_possible F now s3 = Some s'" "set_ok T s'" "progressed s3 s'" "exhausted s'"
    using dispatch_loop_ok by blast
  moreover have "progressed s3 s' \<Longrightarrow> progressed s1 s'" using s2(2) by (simp add: progressed_def s3_def)
  ultimately show ?thesis
    by (auto simp: set_configuration_def Let_def s1_def [symmetric] s2_def [symmetric] qcfg'_def [symmetric] s3_def [symmetric])
qed


section \<open>The next queue\<close>

lemma arg_min_list_split:
  fixes f :: "'a \<Rightarrow> 'b :: linorder"
  assumes "xs \<noteq> []"
  shows "\<exists>before after. xs = before @ arg_min_list f xs # after \<and> (\<forall>x\<in>set before. f (arg_min_list f xs) < f x)
    \<and> (\<forall>x\<in>set after. f (arg_min_list f xs) \<le> f x)"
  using assms
proof (induction xs rule: list_nonempty_induct)
  case (cons x xs)
  let ?m = "arg_min_list f xs"
  have amin: "arg_min_list f (x # xs) = (if f x \<le> f ?m then x else ?m)" using cons.hyps by (cases xs) (simp_all add: Let_def)
  show ?case
  proof (cases "f x \<le> f ?m")
    case True
    then have "\<forall>y\<in>set xs. f x \<le> f y" using arg_min_list_first [OF cons.hyps, of f] by force
    then show ?thesis using True amin by (intro exI [of _ "[]"] exI [of _ xs]) simp
  next
    case False
    obtain before after where "xs = before @ ?m # after" "\<forall>x\<in>set before. f ?m < f x" "\<forall>x\<in>set after. f ?m \<le> f x" using cons.IH by blast
    then show ?thesis using False amin by (intro exI [of _ "x # before"] exI [of _ after]) auto
  qed
qed (auto intro: exI [of _ "[]"])

text \<open>The loop against the order of the virtual finish times.\<close>

lemma find_dispatch_reference:
  assumes ok: "set_ok T s"
  shows "\<exists>found s'. find_dispatch_queue_to_bound F s = Some (found, s') \<and>
    (case found of
       Some (qid, rid) \<Rightarrow> \<exists>before i after. waiting_queues s = before @ i # after
         \<and> (\<forall>j\<in>set before. virtual_finish s i < virtual_finish s j) \<and> (\<forall>j\<in>set after. virtual_finish s i \<le> virtual_finish s j)
         \<and> qid = fq_id (qs_queues s ! i) \<and> rid = hd (fq_waiting (qs_queues s ! i)) \<and> can_accommodate_seats s (head_seats s i)
     | None \<Rightarrow> (\<exists>ri. s' = s\<lparr>qs_robin_index := ri\<rparr>)
         \<and> ((\<forall>i\<in>set (waiting_queues s). virtual_finish s i = - 1)
            \<or> (\<exists>i\<in>set (waiting_queues s). (\<forall>j\<in>set (waiting_queues s). virtual_finish s i \<le> virtual_finish s j)
                 \<and> \<not> can_accommodate_seats s (head_seats s i))))"
proof -
  obtain robin where loop: "find_loop s (length (qs_queues s)) (qs_robin_index s) (- 1) None = Some (robin, next_queue s)"
    and robin: "- 1 \<le> robin" "robin < max 1 (int (length (qs_queues s)))" using find_loop_next [OF ok] by blast
  let ?s1 = "s\<lparr>qs_robin_index := robin\<rparr>" and ?m = "arg_min_list (virtual_finish s) (waiting_queues s)"
  have ok1: "set_ok T ?s1" using ok robin by (simp add: set_ok_defs)
  show ?thesis
  proof (cases "next_queue s")
    case None
    then have "waiting_queues s = [] \<or> virtual_finish s ?m = - 1" by (auto simp: next_queue_def split: if_splits)
    moreover have "virtual_finish s i = - 1" if "virtual_finish s ?m = - 1" "i \<in> set (waiting_queues s)" for i
      using arg_min_list_first [of "waiting_queues s" "virtual_finish s"] that by (metis empty_iff list.set(1) word_order.extremum_uniqueI)
    ultimately have "\<forall>i\<in>set (waiting_queues s). virtual_finish s i = - 1" by auto
    then show ?thesis using None by (intro exI [of _ None] exI [of _ ?s1]) (auto simp: find_dispatch_queue_to_bound_def loop)
  next
    case (Some i)
    then have i: "i = ?m" "waiting_queues s \<noteq> []" by (auto simp: next_queue_def split: if_splits)
    note mi = next_queueD [OF Some]
    obtain rid rest where w: "fq_waiting (qs_queues s ! i) = rid # rest" using mi(2) by (cases "fq_waiting (qs_queues s ! i)") auto
    obtain r where r: "qs_requests s rid = Some r" "queued (fq_id (qs_queues s ! i)) rid r"
      using waiting_known [OF ok mi(3), of rid] w by auto
    have vi: "vec_index (qs_queues s) i = Some (qs_queues s ! i)" using mi(1) by (simp add: vec_index_def)
    have hs: "head_seats s i = cw_max_seats (rq_work r)" by (simp add: head_seats_def w r)
    have acc: "can_accommodate_seats ?s1 n = can_accommodate_seats s n" for n by (simp add: can_accommodate_seats_def)
    show ?thesis
    proof (cases "can_accommodate_seats s (head_seats s i)")
      case False
      then have "find_dispatch_queue_to_bound F s = Some (None, ?s1)"
        using Some vi w r hs by (simp add: find_dispatch_queue_to_bound_def loop acc)
      moreover have "i \<in> set (waiting_queues s)" "\<forall>j\<in>set (waiting_queues s). virtual_finish s i \<le> virtual_finish s j"
        using arg_min_list_first [OF i(2), of "virtual_finish s"] i(1) by simp_all
      ultimately show ?thesis using False by auto
    next
      case True
      have r1: "qs_requests ?s1 rid = Some r" using r by simp
      obtain p q' where "remove_waiting (fq_id (qs_queues s ! i)) rid ?s1 = Some (True, ?s1\<lparr>qs_queues := (qs_queues ?s1)[p := q']\<rparr>)"
        using remove_waiting_ok [OF ok1 r1 r(2)] by blast
      then have "\<exists>s'. find_dispatch_queue_to_bound F s = Some (Some (fq_id (qs_queues s ! i), rid), s')"
        using Some vi w r hs True by (simp add: find_dispatch_queue_to_bound_def loop acc)
      then obtain s' where s': "find_dispatch_queue_to_bound F s = Some (Some (fq_id (qs_queues s ! i), rid), s')" ..
      obtain before after where split: "waiting_queues s = before @ i # after"
          "\<forall>j\<in>set before. virtual_finish s i < virtual_finish s j" "\<forall>j\<in>set after. virtual_finish s i \<le> virtual_finish s j"
        using arg_min_list_split [OF i(2), of "virtual_finish s"] unfolding i(1) [symmetric] by blast
      have "\<exists>before i' after. waiting_queues s = before @ i' # after
         \<and> (\<forall>j\<in>set before. virtual_finish s i' < virtual_finish s j) \<and> (\<forall>j\<in>set after. virtual_finish s i' \<le> virtual_finish s j)
         \<and> fq_id (qs_queues s ! i) = fq_id (qs_queues s ! i') \<and> rid = hd (fq_waiting (qs_queues s ! i')) \<and> can_accommodate_seats s (head_seats s i')"
        using split w True by (intro exI [of _ before] exI [of _ i] exI [of _ after]) simp
      then show ?thesis
        using s' by (intro exI [of _ "Some (fq_id (qs_queues s ! i), rid)"] exI [of _ s'] conjI) (simp_all only: option.case prod.case)
    qed
  qed
qed

end
