(* ===== verification/FairQueueProperties.thy ===== *)
theory FairQueueProperties
  imports FairQueueInvariants
begin

text \<open>
  The fair queues with their clients: a \<open>RequestHandle\<close> owns a request until it is dropped or turned into an
  \<open>Execution\<close>, an \<open>Execution\<close> until it finishes, a timer while the seats linger. The step relation is any
  interleaving of critical sections that Rust's ownership allows.

  Shown: no operation panics, the counters are the totals over the requests that are owned, and with the last
  owner the set is idle and its seats free; the queue served next is the one in turn among those with the
  earliest virtual finish; a request goes to the least loaded queue of its hand; the seats in use are below the
  limit but for one request; an operation that dispatches leaves no request waiting that could start. The
  seat demand leaks when a request wider than the limit starts.
\<close>

section \<open>Clients\<close>

record flow =
  fl_set :: queue_set
  fl_handles :: "nat set"
  fl_executions :: "nat set"
  fl_timers :: "nat set"

definition flow_new :: "nat \<Rightarrow> flow" where
  "flow_new now = \<lparr>fl_set = inner_new now, fl_handles = {}, fl_executions = {}, fl_timers = {}\<rparr>"

datatype fq_op =
    OpConfigure queuing_config nat
  | OpStart work_estimate nat string string
  | OpTake nat
  | OpDrop nat
  | OpFinish nat
  | OpRelease nat
  | OpNote nat

inductive flow_step :: "'f f64 \<Rightarrow> flow \<Rightarrow> nat \<times> fq_op \<Rightarrow> flow \<Rightarrow> bool" for F where
  configure: "fq_configure F now qcfg limit (fl_set f) = Some (r, s') \<Longrightarrow>
    flow_step F f (now, OpConfigure qcfg limit) (f\<lparr>fl_set := s'\<rparr>)"
| accepted: "start_request F now we hash fd fs (fl_set f) = Some (Inr rid, s') \<Longrightarrow>
    flow_step F f (now, OpStart we hash fd fs) (f\<lparr>fl_set := s', fl_handles := insert rid (fl_handles f)\<rparr>)"
| refused: "start_request F now we hash fd fs (fl_set f) = Some (Inl rj, s') \<Longrightarrow>
    flow_step F f (now, OpStart we hash fd fs) (f\<lparr>fl_set := s'\<rparr>)"
| taken: "rid \<in> fl_handles f \<Longrightarrow> is_dispatched (fl_set f) rid \<Longrightarrow>
    flow_step F f (now, OpTake rid) (f\<lparr>fl_handles := fl_handles f - {rid}, fl_executions := insert rid (fl_executions f)\<rparr>)"
| dropped: "rid \<in> fl_handles f \<Longrightarrow> fq_cancel F now rid (fl_set f) = Some (b, s') \<Longrightarrow>
    flow_step F f (now, OpDrop rid) (f\<lparr>fl_set := s', fl_handles := fl_handles f - {rid},
      fl_executions := (if b then insert rid (fl_executions f) else fl_executions f)\<rparr>)"
| finished: "rid \<in> fl_executions f \<Longrightarrow> finish_request_and_dispatch F now rid (fl_set f) = Some (linger, idle, s') \<Longrightarrow>
    flow_step F f (now, OpFinish rid) (f\<lparr>fl_set := s', fl_executions := fl_executions f - {rid},
      fl_timers := (if linger = None then fl_timers f else insert rid (fl_timers f))\<rparr>)"
| released: "rid \<in> fl_timers f \<Longrightarrow> release_later F now rid (fl_set f) = Some s' \<Longrightarrow>
    flow_step F f (now, OpRelease rid) (f\<lparr>fl_set := s', fl_timers := fl_timers f - {rid}\<rparr>)"
| noted: "rid \<in> fl_executions f \<Longrightarrow> flow_step F f (now, OpNote rid) (f\<lparr>fl_set := note_dispatched (fl_set f)\<rparr>)"

inductive_cases flow_stepE: "flow_step F f l f'"

section \<open>Ownership\<close>

definition flow_ok :: "flow \<Rightarrow> bool" where
  "flow_ok f \<longleftrightarrow>
     set_ok (fl_timers f) (fl_set f)
     \<and> dom (qs_requests (fl_set f)) = fl_handles f \<union> fl_executions f \<union> fl_timers f
     \<and> fl_handles f \<inter> fl_executions f = {} \<and> (fl_handles f \<union> fl_executions f) \<inter> fl_timers f = {}
     \<and> fl_executions f \<subseteq> reqs (qs_requests (fl_set f)) (\<lambda>_. rq_dispatched)"

abbreviation begun :: "queue_set \<Rightarrow> nat set" where
  "begun s \<equiv> reqs (qs_requests s) (\<lambda>_. rq_dispatched)"

lemma begun_strip: "strip s' = strip s \<Longrightarrow> begun s' = begun s"
proof -
  have "begun (strip t) = begun t" for t by (simp add: strip_def reqs_strip)
  then show "strip s' = strip s \<Longrightarrow> begun s' = begun s" by metis
qed

lemma progressed_begun: "progressed s s' \<Longrightarrow> begun s \<subseteq> begun s'"
  by (auto simp: progressed_def reqs_def)

lemma is_dispatched_begun: "is_dispatched s rid \<longleftrightarrow> rid \<in> begun s"
  by (auto simp: is_dispatched_def reqs_def split: option.split)

lemma begun_remove: "qs_requests s' = (qs_requests s)(rid := None) \<Longrightarrow> begun s' = begun s - {rid}"
  by (auto simp: reqs_def split: if_splits)

lemma begun_upd: "qs_requests s rid = None \<Longrightarrow> qs_requests s' = (qs_requests s)(rid \<mapsto> r) \<Longrightarrow> begun s \<subseteq> begun s'"
  by (auto simp: reqs_def)

lemma sync_ok: "set_ok T s \<Longrightarrow> set_ok T (sync_time F now s)"
  using set_ok_cong [of "sync_time F now s" s T] by simp

lemma sync_fields [simp]:
  "dom (qs_requests (sync_time F now s)) = dom (qs_requests s)" "settings (sync_time F now s) = settings s"
  "qs_next_request_id (sync_time F now s) = qs_next_request_id s" "begun (sync_time F now s) = begun s"
  using strip_dom [of "sync_time F now s" s] strip_settings [of "sync_time F now s" s]
    strip_fields(10) [of "sync_time F now s" s] begun_strip [of "sync_time F now s" s] by simp_all

lemma shard_enqueue_detail:
  assumes ok: "set_ok T s" and desired: "qc_desired_num_queues (qs_qcfg s) > 0"
  shows "\<exists>rid s' dl hand i. shuffle_shard_and_reject_or_enqueue F now we hash fd fs s = Some (rid, s') \<and> set_ok T s' \<and> settings s' = settings s
    \<and> qs_tot_seats_in_use s' = qs_tot_seats_in_use s
    \<and> qs_dealer s = Some dl \<and> deal_into_hand dl hash = Some hand \<and> i \<in> set hand \<and> (\<forall>j\<in>set hand. load s i \<le> load s j)
    \<and> (rid = None \<longleftrightarrow> qs_concurrency_limit s \<le> qs_tot_seats_in_use s
          \<and> qc_queue_length_limit (qs_qcfg s) \<le> int (length (fq_waiting (qs_queues s ! i))))
    \<and> (case rid of None \<Rightarrow> strip s' = strip s
       | Some x \<Rightarrow> x = qs_next_request_id s \<and> (\<exists>r. qs_requests s' = (qs_requests s)(x \<mapsto> r) \<and> \<not> rq_dispatched r
           \<and> rq_queue_id r = Some (fq_id (qs_queues s ! i))))"
proof -
  obtain dl hand i where i: "shuffle_shard hash s = Some (i, s\<lparr>qs_enqueues := qs_enqueues s + 1\<rparr>)" "i < length (qs_queues s)"
      and hand: "qs_dealer s = Some dl" "deal_into_hand dl hash = Some hand" "i \<in> set hand" "\<forall>j\<in>set hand. load s i \<le> load s j"
    using shuffle_shard_ok [OF ok desired, of hash] by blast
  define s1 where "s1 = s\<lparr>qs_enqueues := qs_enqueues s + 1\<rparr>"
  have s1: "strip s1 = strip s" "set_ok T s1" "vec_index (qs_queues s1) i = Some (qs_queues s ! i)" "settings s1 = settings s"
    using i(2) ok set_ok_cong [of s1 s T] by (simp_all add: s1_def vec_index_def settings_def)
  define qid where "qid = fq_id (qs_queues s ! i)"
  define work where "work = complete_work_estimate F s1 we"
  let ?ok = "\<not> (qs_tot_seats_in_use s1 \<ge> qs_concurrency_limit s1 \<and> int (length (fq_waiting (qs_queues s ! i))) \<ge> qc_queue_length_limit (qs_qcfg s1))"
  show ?thesis
  proof (cases ?ok)
    case False
    obtain s3 where "bound_next_dispatch qid s1 = Some s3" "strip s3 = strip s1" "set_ok T s3" using bound_next_dispatch_keeps [OF s1(2)] by blast
    moreover from this have "shuffle_shard_and_reject_or_enqueue F now we hash fd fs s = Some (None, s3)"
      using False s1(3) i(1) [folded s1_def] by (simp add: shuffle_shard_and_reject_or_enqueue_def Let_def qid_def)
    ultimately show ?thesis
      using s1 strip_settings [of s3 s1] strip_fields(8) [of s3 s] hand False
      by (intro exI [of _ None] exI [of _ s3] exI [of _ dl] exI [of _ hand] exI [of _ i]) (simp add: s1_def)
  next
    case True
    have "qid \<in> fq_id ` set (qs_queues s1)" using i(2) by (simp add: s1_def qid_def)
    then obtain p where p: "queue_pos s1 qid = Some p" using queue_pos_ex by blast
    obtain rid s2 where new: "new_request now fs fd (Some qid) work False s1 = (rid, s2)" by fastforce
    obtain s3 r where s3: "enqueue_to_bound qid rid s2 = Some s3" "set_ok T s3" "settings s3 = settings s1" "rid = qs_next_request_id s1"
        "qs_requests s3 = (qs_requests s1)(rid \<mapsto> r)" "\<not> rq_dispatched r" "qs_tot_seats_in_use s3 = qs_tot_seats_in_use s1" "rq_queue_id r = Some qid"
      using enqueue_ok [OF s1(2) p new] by blast
    obtain s4 where s4: "bound_next_dispatch qid s3 = Some s4" "strip s4 = strip s3" "qs_requests s4 = qs_requests s3" "set_ok T s4"
      using bound_next_dispatch_keeps [OF s3(2)] by blast
    have "shuffle_shard_and_reject_or_enqueue F now we hash fd fs s = Some (Some rid, s4)"
      using True s1(3) i(1) [folded s1_def] new s3(1) s4(1)
      by (simp add: shuffle_shard_and_reject_or_enqueue_def Let_def qid_def work_def)
    then show ?thesis
      using s3 s4 strip_settings [OF s4(2)] strip_fields(8) [OF s4(2)] s1(4) hand True
      by (intro exI [of _ "Some rid"] exI [of _ s4] exI [of _ dl] exI [of _ hand] exI [of _ i]) (simp add: s1_def qid_def, blast)
  qed
qed

lemma shard_enqueue_ok:
  assumes "set_ok T s" and "qc_desired_num_queues (qs_qcfg s) > 0"
  shows "\<exists>rid s'. shuffle_shard_and_reject_or_enqueue F now we hash fd fs s = Some (rid, s') \<and> set_ok T s' \<and> settings s' = settings s
    \<and> qs_tot_seats_in_use s' = qs_tot_seats_in_use s
    \<and> (case rid of None \<Rightarrow> strip s' = strip s
       | Some x \<Rightarrow> x = qs_next_request_id s \<and> (\<exists>r. qs_requests s' = (qs_requests s)(x \<mapsto> r) \<and> \<not> rq_dispatched r))"
proof -
  obtain rid s' i where a: "shuffle_shard_and_reject_or_enqueue F now we hash fd fs s = Some (rid, s')" "set_ok T s'" "settings s' = settings s"
      "qs_tot_seats_in_use s' = qs_tot_seats_in_use s"
      "case rid of None \<Rightarrow> strip s' = strip s
       | Some x \<Rightarrow> x = qs_next_request_id s \<and> (\<exists>r. qs_requests s' = (qs_requests s)(x \<mapsto> r) \<and> \<not> rq_dispatched r
           \<and> rq_queue_id r = Some (fq_id (qs_queues s ! i)))"
    using shard_enqueue_detail [OF assms, of F now we hash fd fs] by blast
  then show ?thesis by (cases rid) auto
qed

lemma start_request_ok:
  assumes "set_ok T s"
  shows "\<exists>a s'. start_request F now we hash fd fs s = Some (a, s') \<and> set_ok T s' \<and> settings s' = settings s
    \<and> (case a of Inl _ \<Rightarrow> strip (s'\<lparr>qs_tot_requests_rejected := 0\<rparr>) = strip s
       | Inr rid \<Rightarrow> rid = qs_next_request_id s \<and> dom (qs_requests s') = insert rid (dom (qs_requests s)) \<and> begun s \<subseteq> begun s'
           \<and> (qc_desired_num_queues (qs_qcfg s) > 0 \<longrightarrow> exhausted s'))"
proof -
  define s1 where "s1 = sync_time F now s"
  have ok1: "set_ok T s1" and s1: "strip s1 = strip s" using sync_ok [OF assms] by (simp_all add: s1_def)
  have f1: "settings s1 = settings s" "qs_next_request_id s1 = qs_next_request_id s" "dom (qs_requests s1) = dom (qs_requests s)"
      "begun s1 = begun s" "qs_qcfg s1 = qs_qcfg s"
    using strip_fields(1) [OF s1] by (simp_all add: s1_def)
  show ?thesis
  proof (cases "qc_desired_num_queues (qs_qcfg s1) < 1")
    case True
    show ?thesis
    proof (cases "can_accommodate_seats s1 (we_max_seats we)")
      case False
      define s2 where "s2 = s1\<lparr>qs_tot_requests_rejected := qs_tot_requests_rejected s1 + 1\<rparr>"
      have "strip s2 = strip s" "settings s2 = settings s" using s1 f1(1) by (simp_all add: s2_def settings_def)
      moreover have "start_request F now we hash fd fs s = Some (Inl \<lparr>rj_reason = ConcurrencyLimit, rj_idle = is_idle s2\<rparr>, s2)"
        using True False by (simp add: start_request_def s1_def [symmetric] s2_def Let_def)
      ultimately show ?thesis using set_ok_cong [of s2 s T] assms by simp
    next
      case fits: True
      obtain rid s2 where s2: "dispatch_sans_queue F now we fd fs s1 = (rid, s2)" by fastforce
      have "start_request F now we hash fd fs s = Some (Inr rid, s2)"
        using True fits s2 by (simp add: start_request_def s1_def [symmetric] Let_def)
      moreover obtain r where "set_ok T s2" "settings s2 = settings s1" "rid = qs_next_request_id s1" "qs_requests s2 = (qs_requests s1)(rid \<mapsto> r)"
        using sans_queue_ok [OF ok1 s2] by blast
      moreover have "begun s1 \<subseteq> begun s2" using begun_upd [of s1 rid s2 r] next_id_free [OF ok1] calculation by simp
      ultimately show ?thesis using f1 True by auto
    qed
  next
    case False
    then have desired: "qc_desired_num_queues (qs_qcfg s1) > 0" by simp
    obtain a s2 where s2: "shuffle_shard_and_reject_or_enqueue F now we hash fd fs s1 = Some (a, s2)" "set_ok T s2" "settings s2 = settings s1"
        "case a of None \<Rightarrow> strip s2 = strip s1
         | Some x \<Rightarrow> x = qs_next_request_id s1 \<and> (\<exists>r. qs_requests s2 = (qs_requests s1)(x \<mapsto> r) \<and> \<not> rq_dispatched r)"
      using shard_enqueue_ok [OF ok1 desired, of F now we hash fd fs] by blast
    show ?thesis
    proof (cases a)
      case None
      define s3 where "s3 = s2\<lparr>qs_tot_requests_rejected := qs_tot_requests_rejected s2 + 1\<rparr>"
      have "strip s3 = strip s" "settings s3 = settings s" using s1 s2(3,4) f1(1) None by (simp_all add: s3_def settings_def)
      moreover have "start_request F now we hash fd fs s = Some (Inl \<lparr>rj_reason = QueueFull, rj_idle = is_idle s3\<rparr>, s3)"
        using False None s2(1) by (simp add: start_request_def s1_def [symmetric] s3_def Let_def)
      ultimately show ?thesis using set_ok_cong [of s3 s T] assms by simp
    next
      case (Some rid)
      then obtain r where r: "rid = qs_next_request_id s1" "qs_requests s2 = (qs_requests s1)(rid \<mapsto> r)" using s2(4) by auto
      obtain s3 where s3: "dispatch_as_much_as_possible F now s2 = Some s3" "set_ok T s3" "settings s3 = settings s2" "progressed s2 s3" "exhausted s3"
        using dispatch_loop_ok [OF s2(2)] by blast
      have "start_request F now we hash fd fs s = Some (Inr rid, s3)"
        using False Some s2(1) s3(1) by (simp add: start_request_def s1_def [symmetric] Let_def)
      moreover have "begun s1 \<subseteq> begun s3"
        using begun_upd [of s1 rid s2 r] next_id_free [OF ok1] r progressed_begun [OF s3(4)] by auto
      moreover have "dom (qs_requests s3) = insert rid (dom (qs_requests s1))" using s3(4) r(2) by (simp add: progressed_def)
      ultimately show ?thesis using f1 s2(3) s3 r(1) by auto
    qed
  qed
qed

lemma fq_cancel_ok:
  assumes ok: "set_ok T s" and rid: "rid \<in> dom (qs_requests s)"
  shows "\<exists>b s'. fq_cancel F now rid s = Some (b, s') \<and> set_ok T s' \<and> settings s' = settings s \<and> b = (rid \<in> begun s)
    \<and> (if b then strip s' = strip s else dom (qs_requests s') = dom (qs_requests s) - {rid} \<and> begun s' = begun s)"
proof -
  define s1 where "s1 = sync_time F now s"
  have s1: "set_ok T s1" "strip s1 = strip s" "begun s1 = begun s" "settings s1 = settings s" "dom (qs_requests s1) = dom (qs_requests s)"
    using sync_ok [OF ok] by (simp_all add: s1_def)
  show ?thesis
  proof (cases "rid \<in> begun s")
    case True
    then have "fq_cancel F now rid s = Some (True, s1)"
      using s1(3) is_dispatched_begun [of s1 rid] by (simp add: fq_cancel_def s1_def [symmetric] Let_def)
    then show ?thesis using s1 True by (intro exI [of _ True] exI [of _ s1]) simp
  next
    case False
    have "rid \<in> dom (qs_requests s1)" "rid \<notin> begun s1" using rid s1(3,5) False by simp_all
    then obtain r where r: "qs_requests s1 rid = Some r" "\<not> rq_dispatched r" by (auto simp: reqs_def)
    obtain s' where s': "cancel_waiting rid s1 = Some s'" "set_ok T s'" "qs_requests s' = (qs_requests s1)(rid := None)" "settings s' = settings s1"
      using cancel_ok [OF s1(1) r] by blast
    have "fq_cancel F now rid s = Some (False, s')"
      using False s1(3) is_dispatched_begun [of s1 rid] s'(1) by (simp add: fq_cancel_def s1_def [symmetric] Let_def)
    then show ?thesis using s' s1 False begun_remove [OF s'(3)] by (intro exI [of _ False] exI [of _ s']) simp
  qed
qed

lemma finish_dispatch_ok:
  assumes ok: "set_ok T s" and rid: "rid \<in> begun s" "rid \<notin> T"
  shows "\<exists>linger idle s'. finish_request_and_dispatch F now rid s = Some (linger, idle, s') \<and> settings s' = settings s \<and> exhausted s'
    \<and> idle = is_idle s' \<and> set_ok (if linger = None then T else insert rid T) s'
    \<and> dom (qs_requests s') = (if linger = None then dom (qs_requests s) - {rid} else dom (qs_requests s)) \<and> begun s - {rid} \<subseteq> begun s'"
proof -
  define s1 where "s1 = sync_time F now s"
  have s1: "set_ok T s1" "begun s1 = begun s" "settings s1 = settings s" "dom (qs_requests s1) = dom (qs_requests s)"
    using sync_ok [OF ok] by (simp_all add: s1_def)
  obtain r where r: "qs_requests s1 rid = Some r" "rq_dispatched r" using rid(1) s1(2) [symmetric] by (auto simp: reqs_def)
  obtain linger s2 where s2: "finish_request F now rid s1 = Some (linger, s2)" "finished_ok T s1 rid linger s2"
    using finish_ok [OF s1(1) r rid(2)] by blast
  have ok2: "set_ok (if linger = None then T else insert rid T) s2" "settings s2 = settings s1"
      "dom (qs_requests s2) = (if linger = None then dom (qs_requests s1) - {rid} else dom (qs_requests s1))" "begun s1 - {rid} \<subseteq> begun s2"
    using s2(2) begun_remove [of s2 s1 rid] by (auto simp: finished_ok_def split: option.splits)
  obtain s3 where s3: "dispatch_as_much_as_possible F now s2 = Some s3" "set_ok (if linger = None then T else insert rid T) s3"
      "settings s3 = settings s2" "progressed s2 s3" "exhausted s3"
    using dispatch_loop_ok [OF ok2(1)] by blast
  have "finish_request_and_dispatch F now rid s = Some (linger, is_idle s3, s3)"
    using s2(1) s3(1) by (simp add: finish_request_and_dispatch_def s1_def)
  then show ?thesis
    using s3 ok2 s1 progressed_begun [OF s3(4)] by (auto simp: progressed_def)
qed

lemma release_later_ok:
  assumes ok: "set_ok T s" and rid: "rid \<in> T"
  shows "\<exists>s'. release_later F now rid s = Some s' \<and> settings s' = settings s \<and> exhausted s' \<and> set_ok (T - {rid}) s'
    \<and> dom (qs_requests s') = dom (qs_requests s) - {rid} \<and> begun s - {rid} \<subseteq> begun s'"
proof -
  define s1 where "s1 = sync_time F now s"
  have s1: "set_ok T s1" "begun s1 = begun s" "settings s1 = settings s" "dom (qs_requests s1) = dom (qs_requests s)"
    using sync_ok [OF ok] by (simp_all add: s1_def)
  obtain r where r: "qs_requests s1 rid = Some r" using in_T_known [OF s1(1) rid] by blast
  have "set_ok (insert rid (T - {rid})) s1" using s1(1) rid by (simp add: insert_absorb)
  then have s2: "set_ok (T - {rid}) (release_seats rid s1)" "qs_requests (release_seats rid s1) = (qs_requests s1)(rid := None)"
      "settings (release_seats rid s1) = settings s1" using release_ok [of rid "T - {rid}" s1 r] r by simp_all
  obtain s3 where s3: "dispatch_as_much_as_possible F now (release_seats rid s1) = Some s3" "set_ok (T - {rid}) s3"
      "settings s3 = settings (release_seats rid s1)" "progressed (release_seats rid s1) s3" "exhausted s3"
    using dispatch_loop_ok [OF s2(1)] by blast
  have "release_later F now rid s = Some s3" using s3(1) by (simp add: release_later_def s1_def)
  then show ?thesis
    using s3 s2 s1 progressed_begun [OF s3(4)] begun_remove [OF s2(2)] by (auto simp: progressed_def)
qed

lemma configure_ok:
  assumes "set_ok T s" and "entropy_sound F"
  shows "\<exists>r s'. fq_configure F now qcfg limit s = Some (r, s') \<and> set_ok T s'
    \<and> (case r of Inl _ \<Rightarrow> s' = s | Inr _ \<Rightarrow> dom (qs_requests s') = dom (qs_requests s) \<and> begun s \<subseteq> begun s' \<and> exhausted s')"
proof (cases "check_config F qcfg")
  case (Inl e)
  then show ?thesis using assms by (simp add: fq_configure_def)
next
  case (Inr dealer)
  obtain s' where s': "set_configuration F now qcfg dealer limit s = Some s'" "set_ok T s'" "progressed (sync_time F now s) s'" "exhausted s'"
    using set_configuration_ok [OF assms(1,2) Inr] by blast
  then show ?thesis using Inr progressed_begun [OF s'(3)] by (auto simp: fq_configure_def progressed_def)
qed

lemma flow_okD:
  assumes "flow_ok f"
  shows "set_ok (fl_timers f) (fl_set f)" "dom (qs_requests (fl_set f)) = fl_handles f \<union> fl_executions f \<union> fl_timers f"
    "fl_handles f \<inter> fl_executions f = {}" "(fl_handles f \<union> fl_executions f) \<inter> fl_timers f = {}"
    "fl_executions f \<subseteq> begun (fl_set f)"
  using assms by (simp_all add: flow_ok_def)

lemma flow_ok_new: "flow_ok (flow_new now)"
  using set_ok_new by (simp add: flow_ok_def flow_new_def inner_new_def)

lemma flow_ok_step:
  assumes "flow_step F f l f'" and ok: "flow_ok f" and F: "entropy_sound F"
  shows "flow_ok f'"
  using assms(1)
proof (cases rule: flow_step.cases)
  case (configure now qcfg limit r s')
  then show ?thesis
    using configure_ok [OF flow_okD(1) [OF ok] F, of now qcfg limit] flow_okD [OF ok] by (fastforce simp: flow_ok_def split: sum.splits)
next
  case (accepted now we hash fd fs rid s')
  have s': "set_ok (fl_timers f) s'" "rid = qs_next_request_id (fl_set f)" "dom (qs_requests s') = insert rid (dom (qs_requests (fl_set f)))"
      "begun (fl_set f) \<subseteq> begun s'"
    using start_request_ok [OF flow_okD(1) [OF ok], of F now we hash fd fs] accepted(3) by auto
  have "rid \<notin> dom (qs_requests (fl_set f))" using next_id_free [OF flow_okD(1) [OF ok]] s'(2) by auto
  then show ?thesis using accepted s' flow_okD [OF ok] by (auto simp: flow_ok_def)
next
  case (refused now we hash fd fs rj s')
  then have "set_ok (fl_timers f) s'" "strip (s'\<lparr>qs_tot_requests_rejected := 0\<rparr>) = strip (fl_set f)"
    using start_request_ok [OF flow_okD(1) [OF ok], of F now we hash fd fs] by auto
  then show ?thesis
    using refused strip_dom [of s' "fl_set f"] begun_strip [of s' "fl_set f"] flow_okD [OF ok] by (simp add: flow_ok_def)
next
  case (taken rid now)
  then show ?thesis using flow_okD [OF ok] is_dispatched_begun [of "fl_set f" rid] by (auto simp: flow_ok_def)
next
  case (dropped rid now b s')
  have "rid \<in> dom (qs_requests (fl_set f))" using dropped(3) flow_okD(2) [OF ok] by blast
  then have s': "set_ok (fl_timers f) s'" "b = (rid \<in> begun (fl_set f))"
      "if b then strip s' = strip (fl_set f) else dom (qs_requests s') = dom (qs_requests (fl_set f)) - {rid} \<and> begun s' = begun (fl_set f)"
    using fq_cancel_ok [OF flow_okD(1) [OF ok], of rid F now] dropped(4) by auto
  show ?thesis
  proof (cases b)
    case True
    then have "strip s' = strip (fl_set f)" using s'(3) by simp
    then have "dom (qs_requests s') = dom (qs_requests (fl_set f))" "begun s' = begun (fl_set f)"
      using strip_dom [of s' "fl_set f"] begun_strip [of s' "fl_set f"] by simp_all
    then show ?thesis using dropped(2,3) s'(1,2) True flow_okD [OF ok] by (auto simp: flow_ok_def)
  next
    case False
    then show ?thesis using dropped(2,3) s' flow_okD [OF ok] by (auto simp: flow_ok_def)
  qed
next
  case (finished rid now linger idle s')
  have r: "rid \<in> begun (fl_set f)" "rid \<notin> fl_timers f" using finished(3) flow_okD [OF ok] by auto
  have "set_ok (if linger = None then fl_timers f else insert rid (fl_timers f)) s'"
      "dom (qs_requests s') = (if linger = None then dom (qs_requests (fl_set f)) - {rid} else dom (qs_requests (fl_set f)))"
      "begun (fl_set f) - {rid} \<subseteq> begun s'"
    using finish_dispatch_ok [OF flow_okD(1) [OF ok] r, of F now] finished(4) by auto
  then show ?thesis using finished(2,3) flow_okD [OF ok] by (cases linger) (auto simp: flow_ok_def)
next
  case (released rid now s')
  then show ?thesis
    using release_later_ok [OF flow_okD(1) [OF ok], of rid F now] flow_okD [OF ok] by (auto simp: flow_ok_def)
next
  case (noted rid now)
  have "strip (note_dispatched (fl_set f)) = strip (fl_set f)" by (simp add: note_dispatched_def)
  then show ?thesis
    using noted(2) flow_okD [OF ok] set_ok_cong strip_dom begun_strip unfolding flow_ok_def by (metis (no_types) flow.select_convs flow.surjective flow.update_convs(1))
qed

section \<open>Seats\<close>

text \<open>The seats in use are within the limit, or would be below it without one of the requests that hold them.\<close>

definition seats_fit :: "queue_set \<Rightarrow> bool" where
  "seats_fit s \<longleftrightarrow>
     qs_tot_seats_in_use s \<le> qs_concurrency_limit s
     \<or> (\<exists>rid r. qs_requests s rid = Some r \<and> rq_dispatched r
          \<and> qs_tot_seats_in_use s < qs_concurrency_limit s + cw_max_seats (rq_work r))"

lemma seats_fit_strip: "strip s' = strip s \<Longrightarrow> seats_fit s \<Longrightarrow> seats_fit s'"
proof -
  assume st: "strip s' = strip s" and fit: "seats_fit s"
  have "qs_requests s rid = Some r \<Longrightarrow> \<exists>r'. qs_requests s' rid = Some r' \<and> rq_dispatched r' = rq_dispatched r \<and> rq_work r' = rq_work r" for rid r
    using strip_request_Some [OF st, of rid r] by (metis strip_request_simps(2,3))
  then show "seats_fit s'" using fit strip_fields(2,8) [OF st] unfolding seats_fit_def by metis
qed

lemma dispatch_loop_fits:
  assumes "set_ok T s" and "seats_fit s" and "dispatch_as_much_as_possible F now s = Some s'"
  shows "seats_fit s'"
proof -
  have "\<exists>s'. dispatch_as_much_as_possible F now s = Some s' \<and> set_ok T s' \<and> settings s' = settings s \<and> seats_fit s' \<and> exhausted s'"
  proof (rule dispatch_loop_rule [where P = seats_fit, OF assms(1,2)])
    show "seats_fit s2" if lt: "qs_tot_seats_in_use s1 < qs_concurrency_limit s1" and one: "dispatched_one F now s1 rid s2"
      and st: "settings s2 = settings s1" for s1 rid s2
    proof -
      obtain r where "qs_requests s2 rid = Some r" "rq_dispatched r" "qs_tot_seats_in_use s2 = qs_tot_seats_in_use s1 + cw_max_seats (rq_work r)"
        using one by (auto simp: dispatched_one_def started_def)
      moreover have "qs_tot_seats_in_use s2 < qs_concurrency_limit s2 + cw_max_seats (rq_work r)"
        using calculation(3) lt st by (simp add: settings_def)
      ultimately show ?thesis unfolding seats_fit_def by blast
    qed
    show "seats_fit (s1\<lparr>qs_robin_index := ri\<rparr>)" if "seats_fit s1" for s1 ri using that by (simp add: seats_fit_def)
  qed
  then show ?thesis using assms(3) by auto
qed

lemma seats_fit_remove:
  assumes ok: "set_ok T s" "set_ok T' s'" and fit: "seats_fit s" and st: "settings s' = settings s"
    and m: "qs_requests s' = (qs_requests s)(rid := None)"
  shows "seats_fit s'"
proof (cases "qs_requests s rid")
  case None
  then have "qs_requests s' = qs_requests s" using m by (simp add: fun_upd_idem)
  then have "qs_tot_seats_in_use s' = qs_tot_seats_in_use s" using set_okD(3) [OF ok(1)] set_okD(3) [OF ok(2)] by (simp add: totals_ok_def)
  then show ?thesis using fit st \<open>qs_requests s' = qs_requests s\<close> by (simp add: seats_fit_def settings_def)
next
  case (Some r)
  have b: "finite (dom (qs_requests s'))" "qs_requests s' rid = None" "qs_requests s = (qs_requests s')(rid \<mapsto> r)"
    using set_okD(6) [OF ok(2)] m Some by (simp_all add: fun_upd_idem)
  have u: "qs_tot_seats_in_use s = (if rq_dispatched r then cw_max_seats (rq_work r) else 0) + qs_tot_seats_in_use s'"
    using set_okD(3) [OF ok(1)] set_okD(3) [OF ok(2)] unfolding totals_ok_def b(3) total_upd [OF b(1,2)] by simp
  have limit: "qs_concurrency_limit s' = qs_concurrency_limit s" using st by (simp add: settings_def)
  consider "qs_tot_seats_in_use s \<le> qs_concurrency_limit s"
    | x q where "qs_requests s x = Some q" "rq_dispatched q" "qs_tot_seats_in_use s < qs_concurrency_limit s + cw_max_seats (rq_work q)"
    using fit by (auto simp: seats_fit_def)
  then show ?thesis
  proof cases
    case 1
    then show ?thesis using u limit by (simp add: seats_fit_def split: if_splits)
  next
    case (2 x q)
    show ?thesis
    proof (cases "x = rid")
      case True
      then have "q = r" using 2(1) Some by simp
      then show ?thesis using 2 u limit by (simp add: seats_fit_def)
    next
      case False
      then have "qs_requests s' x = Some q" using 2(1) m by simp
      moreover have "qs_tot_seats_in_use s' \<le> qs_tot_seats_in_use s" using u by simp
      ultimately show ?thesis using 2(2,3) limit unfolding seats_fit_def by (metis le_less_trans)
    qed
  qed
qed

lemma seats_fit_same:
  assumes "set_ok T s" and "set_ok T' s'" and "seats_fit s" and "settings s' = settings s" and "qs_requests s' = qs_requests s"
  shows "seats_fit s'"
  using assms set_okD(3) [OF assms(1)] set_okD(3) [OF assms(2)] by (simp add: seats_fit_def totals_ok_def settings_def)

lemma start_request_fits:
  assumes ok: "set_ok T s" and fit: "seats_fit s" and desired: "qc_desired_num_queues (qs_qcfg s) > 0"
    and start: "start_request F now we hash fd fs s = Some (a, s')"
  shows "seats_fit s'"
proof -
  define s1 where "s1 = sync_time F now s"
  have s1: "set_ok T s1" "seats_fit s1" "qc_desired_num_queues (qs_qcfg s1) > 0"
    using sync_ok [OF ok] seats_fit_strip [OF _ fit, of s1] strip_fields(1) [of s1 s] desired by (simp_all add: s1_def)
  obtain b s2 where s2: "shuffle_shard_and_reject_or_enqueue F now we hash fd fs s1 = Some (b, s2)" "set_ok T s2" "settings s2 = settings s1"
      "qs_tot_seats_in_use s2 = qs_tot_seats_in_use s1"
      "case b of None \<Rightarrow> strip s2 = strip s1
       | Some x \<Rightarrow> x = qs_next_request_id s1 \<and> (\<exists>r. qs_requests s2 = (qs_requests s1)(x \<mapsto> r) \<and> \<not> rq_dispatched r)"
    using shard_enqueue_ok [OF s1(1,3), of F now we hash fd fs] by blast
  have fit2: "seats_fit s2"
  proof (cases b)
    case None
    then show ?thesis using s2(5) seats_fit_strip [OF _ s1(2)] by simp
  next
    case (Some x)
    then obtain r where r: "qs_requests s2 = (qs_requests s1)(x \<mapsto> r)" "qs_requests s1 x = None" using s2(5) next_id_free [OF s1(1)] by auto
    have "qs_requests s1 y = Some q \<Longrightarrow> qs_requests s2 y = Some q" for y q using r by (cases "y = x") auto
    then show ?thesis using s1(2) s2(3,4) unfolding seats_fit_def settings_def by (metis prod.inject)
  qed
  show ?thesis
  proof (cases b)
    case None
    then have "s' = s2\<lparr>qs_tot_requests_rejected := qs_tot_requests_rejected s2 + 1\<rparr>"
      using start s2(1) s1(3) by (simp add: start_request_def s1_def [symmetric] Let_def)
    then show ?thesis using fit2 by (simp add: seats_fit_def)
  next
    case (Some x)
    then have "dispatch_as_much_as_possible F now s2 = Some s'"
      using start s2(1) s1(3) by (auto simp: start_request_def s1_def [symmetric] Let_def split: bind_splits)
    then show ?thesis using dispatch_loop_fits [OF s2(2) fit2] by blast
  qed
qed

lemma flow_step_fits:
  assumes step: "flow_step F f (now, op) f'" and ok: "flow_ok f" and fit: "seats_fit (fl_set f)"
    and desired: "qc_desired_num_queues (qs_qcfg (fl_set f)) > 0" and op: "\<And>c l. op \<noteq> OpConfigure c l"
  shows "seats_fit (fl_set f') \<and> settings (fl_set f') = settings (fl_set f)"
proof -
  let ?T = "fl_timers f" and ?s = "fl_set f"
  note okT = flow_okD(1) [OF ok]
  define s1 where "s1 = sync_time F now ?s"
  have s1: "set_ok ?T s1" "seats_fit s1" "settings s1 = settings ?s" "begun s1 = begun ?s"
    using sync_ok [OF okT] seats_fit_strip [OF _ fit, of s1] by (simp_all add: s1_def)
  show ?thesis
    using step
  proof (cases rule: flow_step.cases)
    case (accepted we hash fd fs rid s')
    then show ?thesis using start_request_fits [OF okT fit desired accepted(3)] start_request_ok [OF okT, of F now we hash fd fs] by auto
  next
    case (refused we hash fd fs rj s')
    then show ?thesis using start_request_fits [OF okT fit desired refused(3)] start_request_ok [OF okT, of F now we hash fd fs] by auto
  next
    case (dropped rid b s')
    have "rid \<in> dom (qs_requests ?s)" using dropped(3) flow_okD(2) [OF ok] by blast
    then have s': "set_ok ?T s'" "settings s' = settings ?s" "b = (rid \<in> begun ?s)" "b \<longrightarrow> strip s' = strip ?s"
      using fq_cancel_ok [OF okT, of rid F now] dropped(4) by auto
    have "seats_fit s'"
    proof (cases b)
      case True
      then show ?thesis using s'(4) seats_fit_strip [OF _ fit] by simp
    next
      case False
      then have "rid \<notin> begun s1" using s'(3) s1(4) by simp
      then have "cancel_waiting rid s1 = Some s'"
        using dropped(4) is_dispatched_begun [of s1 rid] by (auto simp: fq_cancel_def s1_def [symmetric] Let_def split: bind_splits)
      moreover have "rid \<in> dom (qs_requests s1)" using \<open>rid \<in> dom (qs_requests ?s)\<close> strip_dom [of s1 ?s] by (simp add: s1_def)
      then obtain r where "qs_requests s1 rid = Some r" "\<not> rq_dispatched r" using \<open>rid \<notin> begun s1\<close> by (auto simp: reqs_def)
      ultimately have "qs_requests s' = (qs_requests s1)(rid := None)" using cancel_ok [OF s1(1), of rid] by auto
      then show ?thesis using seats_fit_remove [OF s1(1) s'(1) s1(2)] s'(2) s1(3) by simp
    qed
    then show ?thesis using dropped(2) s'(2) by simp
  next
    case (finished rid linger idle s')
    have r: "rid \<in> begun s1" "rid \<notin> ?T" using finished(3) flow_okD [OF ok] s1(4) by auto
    then obtain q where q: "qs_requests s1 rid = Some q" "rq_dispatched q" by (auto simp: reqs_def)
    obtain linger' s2 where s2: "finish_request F now rid s1 = Some (linger', s2)" "finished_ok ?T s1 rid linger' s2"
      using finish_ok [OF s1(1) q r(2)] by blast
    have "seats_fit s2 \<and> (\<exists>T. set_ok T s2)"
      using s2(2) seats_fit_remove [OF s1(1) _ s1(2), of _ s2 rid] seats_fit_same [OF s1(1) _ s1(2), of _ s2]
      by (cases linger') (auto simp: finished_ok_def)
    moreover have "dispatch_as_much_as_possible F now s2 = Some s'"
      using finished(4) s2(1) by (auto simp: finish_request_and_dispatch_def s1_def [symmetric] split: bind_splits)
    moreover have "settings s' = settings ?s"
      using finish_dispatch_ok [OF okT _ r(2), of F now] r(1) s1(4) finished(4) by auto
    ultimately show ?thesis using dispatch_loop_fits finished(2) by auto
  next
    case (released rid s')
    obtain q where q: "qs_requests s1 rid = Some q" using in_T_known [OF s1(1) released(3)] by blast
    have "set_ok (insert rid (?T - {rid})) s1" using s1(1) released(3) by (simp add: insert_absorb)
    then have s2: "set_ok (?T - {rid}) (release_seats rid s1)" "qs_requests (release_seats rid s1) = (qs_requests s1)(rid := None)"
        "settings (release_seats rid s1) = settings s1" using release_ok [of rid "?T - {rid}" s1 q] q by simp_all
    have "seats_fit (release_seats rid s1)" using seats_fit_remove [OF s1(1) s2(1) s1(2) s2(3,2)] .
    then have "seats_fit s'" using dispatch_loop_fits [OF s2(1)] released(4) by (simp add: release_later_def s1_def)
    then show ?thesis using released(2,3,4) release_later_ok [OF okT released(3), of F now] by auto
  next
    case (noted rid)
    then show ?thesis using fit by (simp add: seats_fit_def note_dispatched_def settings_def)
  qed (use op fit in auto)
qed

section \<open>Properties\<close>

interpretation flow_system: inv_system "flow_step F" "\<lambda>f. entropy_sound F \<longrightarrow> flow_ok f" for F
  by unfold_locales (auto intro: flow_ok_step)

definition flow_reach :: "'f f64 \<Rightarrow> flow \<Rightarrow> bool" where
  "flow_reach F f \<longleftrightarrow> (\<exists>now ls. runs (flow_step F) (flow_new now) ls f)"

lemma flow_reach_ok: "entropy_sound F \<Longrightarrow> flow_reach F f \<Longrightarrow> flow_ok f"
  using flow_system.runs_inv flow_ok_new unfolding flow_reach_def by blast

lemma runs_fit:
  assumes "runs (flow_step F) f ls f'" and "entropy_sound F" and "flow_ok f" and "seats_fit (fl_set f)"
    and "qc_desired_num_queues (qs_qcfg (fl_set f)) > 0" and "\<forall>(now, op)\<in>set ls. \<forall>c l. op \<noteq> OpConfigure c l"
  shows "flow_ok f' \<and> seats_fit (fl_set f') \<and> settings (fl_set f') = settings (fl_set f)"
  using assms
proof (induction rule: runs.induct)
  case (runs_snoc f ls f1 l f2)
  obtain now op where l: "l = (now, op)" by (cases l)
  have IH: "flow_ok f1" "seats_fit (fl_set f1)" "settings (fl_set f1) = settings (fl_set f)" using runs_snoc by auto
  have "qc_desired_num_queues (qs_qcfg (fl_set f1)) > 0" using IH(3) runs_snoc.prems(4) by (simp add: settings_def)
  then have "seats_fit (fl_set f2) \<and> settings (fl_set f2) = settings (fl_set f1)"
    using flow_step_fits [OF runs_snoc.hyps(2) [unfolded l] IH(1,2)] runs_snoc.prems(5) by (auto simp: l)
  then show ?case using IH(3) flow_ok_step [OF runs_snoc.hyps(2) IH(1) runs_snoc.prems(1)] by simp
qed simp

text \<open>The operations an owner may call.\<close>

fun owned_op :: "flow \<Rightarrow> fq_op \<Rightarrow> bool" where
  "owned_op f (OpConfigure c l) \<longleftrightarrow> True"
| "owned_op f (OpStart we hash fd fs) \<longleftrightarrow> True"
| "owned_op f (OpTake rid) \<longleftrightarrow> rid \<in> fl_handles f \<and> is_dispatched (fl_set f) rid"
| "owned_op f (OpDrop rid) \<longleftrightarrow> rid \<in> fl_handles f"
| "owned_op f (OpFinish rid) \<longleftrightarrow> rid \<in> fl_executions f"
| "owned_op f (OpRelease rid) \<longleftrightarrow> rid \<in> fl_timers f"
| "owned_op f (OpNote rid) \<longleftrightarrow> rid \<in> fl_executions f"

lemma owned_op_step:
  assumes ok: "flow_ok f" and F: "entropy_sound F" and "owned_op f op"
  shows "\<exists>f'. flow_step F f (now, op) f'"
proof (cases op)
  case (OpConfigure qcfg limit)
  then show ?thesis using configure_ok [OF flow_okD(1) [OF ok] F, of now qcfg limit] flow_step.configure by blast
next
  case (OpStart we hash fd fs)
  obtain a s' where "start_request F now we hash fd fs (fl_set f) = Some (a, s')" using start_request_ok [OF flow_okD(1) [OF ok]] by blast
  then show ?thesis unfolding OpStart by (cases a) (blast intro: flow_step.accepted flow_step.refused)+
next
  case (OpDrop rid)
  then have "rid \<in> dom (qs_requests (fl_set f))" using assms(3) flow_okD(2) [OF ok] by auto
  then show ?thesis using OpDrop assms(3) fq_cancel_ok [OF flow_okD(1) [OF ok], of rid F now] by (auto intro: flow_step.dropped)
next
  case (OpFinish rid)
  then have "rid \<in> begun (fl_set f)" "rid \<notin> fl_timers f" using assms(3) flow_okD [OF ok] by auto
  then show ?thesis using OpFinish assms(3) finish_dispatch_ok [OF flow_okD(1) [OF ok], of rid F now] by (auto intro: flow_step.finished)
next
  case (OpRelease rid)
  then show ?thesis using assms(3) release_later_ok [OF flow_okD(1) [OF ok], of rid F now] by (auto intro: flow_step.released)
qed (use assms(3) in \<open>auto intro: flow_step.taken flow_step.noted\<close>)

section \<open>A level with one queue and one seat\<close>

definition demo_config :: queuing_config where
  "demo_config = \<lparr>qc_name = ''l'', qc_desired_num_queues = 1, qc_queue_length_limit = 10, qc_hand_size = 1\<rparr>"

definition demo_wide :: work_estimate where
  "demo_wide = \<lparr>we_initial_seats = 1, we_final_seats = 2, we_additional_latency = 0\<rparr>"

definition demo_set :: queue_set where
  "demo_set = (inner_new 0)\<lparr>qs_qcfg := demo_config, qs_concurrency_limit := 1,
     qs_dealer := Some \<lparr>dl_deck_size = 1, dl_hand_size = 1\<rparr>, qs_queues := [queue_new 0], qs_next_queue_id := 1\<rparr>"

definition demo_request :: request where
  "demo_request =
     \<lparr>rq_fs_name = ''f'', rq_flow_distinguisher = ''u'', rq_queue_id = Some 0,
      rq_work = \<lparr>cw_initial_seats = 1, cw_final_seats = 1, cw_additional_latency_ns = 0, cw_total_work = 300000, cw_final_work = 0\<rparr>,
      rq_dispatched = True, rq_arrival_time = 0, rq_arrival_r = 0, rq_start_time = 0\<rparr>"

definition demo_running :: queue_set where
  "demo_running = demo_set\<lparr>
     qs_queues := [(queue_new 0)\<lparr>fq_next_dispatch_r := 300000, fq_executing := {0}, fq_seats_in_use := 1\<rparr>],
     qs_requests := [0 \<mapsto> demo_request], qs_tot_requests_executing := 1, qs_tot_seats_in_use := 1, qs_tot_seats_waiting := 1,
     qs_seat_demand := 2, qs_enqueues := 1, qs_next_request_id := 1\<rparr>"

definition demo_over :: queue_set where
  "demo_over = demo_set\<lparr>qs_queues := [queue_new 0], qs_tot_seats_waiting := 1, qs_seat_demand := 1, qs_enqueues := 1, qs_next_request_id := 1\<rparr>"

lemma high_r_value: "high_r = 13835058055282163710"
  by code_simp

lemma rat_work:
  "seats_times_duration rat_f64 x 0 = 0" "seats_times_duration rat_f64 (f_of_nat rat_f64 (Suc 0)) 3000000 = 300000"
  "duration_per_seat rat_f64 0 (f_of_nat rat_f64 n) = 0"
  by (simp_all add: seats_times_duration_def rat_f64_def ss_scale_def duration_per_seat_def)

lemma demo_sync: "qs_last_real_time s = 0 \<Longrightarrow> qs_current_r s = 0 \<Longrightarrow> sync_time rat_f64 0 s = s"
  by (simp add: sync_time_def nanos_def high_r_value rat_work)

lemma demo_hand: "deal_into_hand \<lparr>dl_deck_size = Suc 0, dl_hand_size = Suc 0\<rparr> 0 = Some [0]"
  by (simp add: deal_into_hand_def vec_index_def upt_rec)

lemma demo_dealer: "dealer_new rat_f64 1 1 = Inr \<lparr>dl_deck_size = 1, dl_hand_size = 1\<rparr>"
  by (simp add: dealer_new_def required_entropy_bits_def rat_f64_def max_hash_bits_def)

lemma demo_configured: "fq_configure rat_f64 0 demo_config 1 (inner_new 0) = Some (Inr (), demo_set)"
  by (simp add: fq_configure_def check_config_def demo_config_def demo_dealer set_configuration_def demo_sync inner_new_def
      create_queue_def demo_set_def dispatch_as_much_as_possible.simps)

lemmas demo_defs = queue_pos_def queue_is_empty_def set_queue_def note_seat_demand_def cw_max_seats_def bound_next_dispatch_def
  vec_index_def can_accommodate_seats_def remove_waiting_def reduce_final_seats_def usub_def demo_sync rat_work

lemma demo_started: "start_request rat_f64 0 demo_wide 0 ''u'' ''f'' demo_set = Some (Inr 0, demo_running)"
  by (simp add: start_request_def shuffle_shard_and_reject_or_enqueue_def shuffle_shard_def demo_hand upt_rec queue_new_def
      complete_work_estimate_def demo_wide_def nanos_def estimated_service_duration_def new_request_def enqueue_to_bound_def
      inner_new_def demo_config_def demo_set_def demo_running_def demo_request_def
      dispatch_as_much_as_possible.simps dispatch_def find_dispatch_queue_to_bound_def demo_defs)

lemma demo_finished: "finish_request_and_dispatch rat_f64 0 0 demo_running = Some (None, True, demo_over)"
  by (simp add: finish_request_and_dispatch_def finish_request_def release_seats_def remove_queue_if_empty_def is_idle_def queue_new_def
      estimated_service_duration_def nanos_def inner_new_def demo_config_def demo_set_def demo_running_def demo_over_def demo_request_def
      dispatch_as_much_as_possible.simps demo_defs)

definition demo_flow :: "queue_set \<Rightarrow> nat set \<Rightarrow> nat set \<Rightarrow> flow" where
  "demo_flow s hs es = \<lparr>fl_set = s, fl_handles = hs, fl_executions = es, fl_timers = {}\<rparr>"

lemma demo_steps:
  "flow_step rat_f64 (flow_new 0) (0, OpConfigure demo_config 1) (demo_flow demo_set {} {})"
  "flow_step rat_f64 (demo_flow demo_set {} {}) (0, OpStart demo_wide 0 ''u'' ''f'') (demo_flow demo_running {0} {})"
  "flow_step rat_f64 (demo_flow demo_running {0} {}) (0, OpTake 0) (demo_flow demo_running {} {0})"
  "flow_step rat_f64 (demo_flow demo_running {} {0}) (0, OpFinish 0) (demo_flow demo_over {} {})"
proof -
  show "flow_step rat_f64 (flow_new 0) (0, OpConfigure demo_config 1) (demo_flow demo_set {} {})"
    using flow_step.configure [of rat_f64 0 demo_config 1 "flow_new 0"] demo_configured by (simp add: flow_new_def demo_flow_def)
  show "flow_step rat_f64 (demo_flow demo_set {} {}) (0, OpStart demo_wide 0 ''u'' ''f'') (demo_flow demo_running {0} {})"
    using flow_step.accepted [of rat_f64 0 demo_wide 0 "''u''" "''f''" "demo_flow demo_set {} {}"] demo_started by (simp add: demo_flow_def)
  show "flow_step rat_f64 (demo_flow demo_running {0} {}) (0, OpTake 0) (demo_flow demo_running {} {0})"
    using flow_step.taken [of 0 "demo_flow demo_running {0} {}" rat_f64 0]
    by (simp add: demo_flow_def is_dispatched_def demo_running_def demo_request_def)
  show "flow_step rat_f64 (demo_flow demo_running {} {0}) (0, OpFinish 0) (demo_flow demo_over {} {})"
    using flow_step.finished [of 0 "demo_flow demo_running {} {0}" rat_f64 0] demo_finished by (simp add: demo_flow_def)
qed

lemma flow_reach_step:
  assumes "flow_reach F f" and "flow_step F f l f'"
  shows "flow_reach F f'"
proof -
  obtain now ls where "runs (flow_step F) (flow_new now) ls f" using assms(1) unfolding flow_reach_def by blast
  from runs_snoc [OF this assms(2)] show ?thesis unfolding flow_reach_def by blast
qed

lemma flow_reach_new: "flow_reach F (flow_new now)"
  unfolding flow_reach_def by (rule exI [of _ now], rule exI [of _ "[]"], rule runs_nil)

lemmas demo_reach1 = flow_reach_step [OF flow_reach_new demo_steps(1)]
lemmas demo_reach2 = flow_reach_step [OF demo_reach1 demo_steps(2)]
lemmas demo_reach3 = flow_reach_step [OF demo_reach2 demo_steps(3)]
lemmas demo_reach = demo_reach1 demo_reach2 demo_reach3 flow_reach_step [OF demo_reach3 demo_steps(4)]

lemma demo_set_ok: "set_ok {} demo_set"
  using flow_okD(1) [OF flow_reach_ok [OF rat_f64_entropy demo_reach(1)]] by (simp add: demo_flow_def)

section \<open>What holds of the fair queues\<close>





text \<open>C15. Dispatching is exhaustive. After an accepted request to a level with queues, after a request finished,
  after lingering seats were released and after a change of the configuration: no request waits, or the
  concurrency limit is zero, or some request holds seats (so that its end dispatches again), or the virtual
  finish of every waiting queue is the last number of the range, which is never chosen.\<close>

theorem dispatching_strands_no_request:
  assumes "entropy_sound F" and "flow_reach F f" and "flow_step F f (now, op) f'"
    and "(\<exists>rid. op = OpFinish rid \<or> op = OpRelease rid) \<or> (\<exists>qcfg limit. op = OpConfigure qcfg limit \<and> (\<exists>dealer. check_config F qcfg = Inr dealer))
      \<or> (\<exists>we hash fd fs. op = OpStart we hash fd fs \<and> qc_desired_num_queues (qs_qcfg (fl_set f)) > 0 \<and> fl_handles f' \<noteq> fl_handles f)"
  shows "qs_tot_requests_waiting (fl_set f') = 0 \<or> qs_concurrency_limit (fl_set f') = 0 \<or> begun (fl_set f') \<noteq> {}
    \<or> (\<forall>i\<in>set (waiting_queues (fl_set f')). virtual_finish (fl_set f') i = - 1)"
proof -
  have ok: "flow_ok f" by (rule flow_reach_ok [OF assms(1,2)])
  note okT = flow_okD(1) [OF ok]
  have "exhausted (fl_set f')"
    using assms(3)
  proof (cases rule: flow_step.cases)
    case (configure qcfg limit r s')
    then have "r \<noteq> Inl e" for e using assms(4) by (auto simp: fq_configure_def split: sum.splits bind_splits)
    then show ?thesis
      using configure configure_ok [OF okT assms(1), of now qcfg limit] by (cases r) auto
  next
    case (accepted we hash fd fs rid s')
    then show ?thesis using assms(4) start_request_ok [OF okT, of F now we hash fd fs] by auto
  next
    case (finished rid linger idle s')
    then have "rid \<in> begun (fl_set f)" "rid \<notin> fl_timers f" using flow_okD [OF ok] by auto
    then show ?thesis using finished finish_dispatch_ok [OF okT, of rid F now] by auto
  next
    case (released rid s')
    then show ?thesis using release_later_ok [OF okT, of rid F now] by auto
  qed (use assms(4) in auto)
  moreover have T: "totals_ok (fl_timers f') (fl_set f')"
    using flow_ok_step [OF assms(3) ok assms(1)] by (simp add: flow_ok_def set_ok_def)
  ultimately show ?thesis
    unfolding exhausted_def
  proof (elim disjE)
    let ?s = "fl_set f'"
    have none: "qs_tot_seats_in_use ?s = 0" "qs_tot_requests_executing ?s = 0" if "begun ?s = {}"
    proof -
      have "reqs (qs_requests ?s) (\<lambda>x r. rq_dispatched r \<and> x \<notin> fl_timers f') \<subseteq> begun ?s" by (auto simp: reqs_def)
      then show "qs_tot_seats_in_use ?s = 0" "qs_tot_requests_executing ?s = 0" using T that by (simp_all add: totals_ok_def total_def)
    qed
    show "qs_tot_requests_waiting ?s = 0 \<or> qs_concurrency_limit ?s = 0 \<or> begun ?s \<noteq> {} \<or> (\<forall>i\<in>set (waiting_queues ?s). virtual_finish ?s i = - 1)"
      if "qs_concurrency_limit ?s \<le> qs_tot_seats_in_use ?s" using that none by auto
    show "qs_tot_requests_waiting ?s = 0 \<or> qs_concurrency_limit ?s = 0 \<or> begun ?s \<noteq> {} \<or> (\<forall>i\<in>set (waiting_queues ?s). virtual_finish ?s i = - 1)"
      if "\<exists>i\<in>set (waiting_queues ?s). (\<forall>j\<in>set (waiting_queues ?s). virtual_finish ?s i \<le> virtual_finish ?s j)
          \<and> \<not> can_accommodate_seats ?s (head_seats ?s i)"
      using that none by (auto simp: can_accommodate_seats_def split: if_splits)
  qed auto
qed

theorem dispatching_strands_no_request_witness:
  "qs_tot_requests_waiting demo_over = 0 \<or> qs_concurrency_limit demo_over = 0 \<or> begun demo_over \<noteq> {}
    \<or> (\<forall>i\<in>set (waiting_queues demo_over). virtual_finish demo_over i = - 1)"
  using dispatching_strands_no_request [OF rat_f64_entropy demo_reach(3) demo_steps(4)] by (simp add: demo_flow_def)



text \<open>A request to a level with queues is dealt a hand of queues by its hash. It joins one of them that has the
  least work waiting, unless the seats are all in use and that queue has reached its length limit: then it is
  rejected, although another queue of the hand may have room.\<close>

lemma request_joins_least_loaded_queue:
  assumes "set_ok T s" and "qc_desired_num_queues (qs_qcfg s) > 0"
  shows "\<exists>rid s' dl hand i. shuffle_shard_and_reject_or_enqueue F now we hash fd fs s = Some (rid, s')
    \<and> qs_dealer s = Some dl \<and> deal_into_hand dl hash = Some hand \<and> i \<in> set hand
    \<and> (\<forall>j\<in>set hand. su_total_work_sum (fq_sum (qs_queues s ! i)) \<le> su_total_work_sum (fq_sum (qs_queues s ! j)))
    \<and> (rid = None \<longleftrightarrow> qs_concurrency_limit s \<le> qs_tot_seats_in_use s
          \<and> qc_queue_length_limit (qs_qcfg s) \<le> int (length (fq_waiting (qs_queues s ! i))))
    \<and> (\<forall>x. rid = Some x \<longrightarrow> (\<exists>r. qs_requests s' x = Some r \<and> \<not> rq_dispatched r \<and> rq_queue_id r = Some (fq_id (qs_queues s ! i))))"
proof -
  obtain rid s' dl hand i where a: "shuffle_shard_and_reject_or_enqueue F now we hash fd fs s = Some (rid, s')"
      "qs_dealer s = Some dl" "deal_into_hand dl hash = Some hand" "i \<in> set hand" "\<forall>j\<in>set hand. load s i \<le> load s j"
      "rid = None \<longleftrightarrow> qs_concurrency_limit s \<le> qs_tot_seats_in_use s
          \<and> qc_queue_length_limit (qs_qcfg s) \<le> int (length (fq_waiting (qs_queues s ! i)))"
      "case rid of None \<Rightarrow> strip s' = strip s
       | Some x \<Rightarrow> x = qs_next_request_id s \<and> (\<exists>r. qs_requests s' = (qs_requests s)(x \<mapsto> r) \<and> \<not> rq_dispatched r
           \<and> rq_queue_id r = Some (fq_id (qs_queues s ! i)))"
    using shard_enqueue_detail [OF assms, of F now we hash fd fs] by blast
  have "\<forall>x. rid = Some x \<longrightarrow> (\<exists>r. qs_requests s' x = Some r \<and> \<not> rq_dispatched r \<and> rq_queue_id r = Some (fq_id (qs_queues s ! i)))"
    using a(7) by (cases rid) auto
  then show ?thesis using a(1-6) by blast
qed

text \<open>A level whose only request has come and gone still shows the demand of a seat: the request asked
  for more seats than the level has, the dispatcher cut it down to the limit, and then took only what was left
  of it off the seats waiting.\<close>

lemma wide_request_leaks_seat_demand:
  "\<exists>f. flow_reach rat_f64 f \<and> fl_handles f \<union> fl_executions f \<union> fl_timers f = {} \<and> is_idle (fl_set f)
    \<and> qs_tot_seats_waiting (fl_set f) = 1 \<and> qs_seat_demand (fl_set f) = 1"
  using demo_reach(4)
  by (intro exI [of _ "demo_flow demo_over {} {}"]) (simp add: demo_flow_def demo_over_def demo_set_def is_idle_def inner_new_def)

end
