(* ===== verification/Quantity.thy ===== *)
theory Quantity
  imports Decimal
begin

text \<open>
  Resource quantities (\<^verbatim>\<open>crates/common/src/quantity.rs\<close>): parsing, comparison, arithmetic, rounding and
  the canonical string. A quantity is \<open>mantissa * 10^scale\<close>; the \<open>i128\<close> mantissa and the \<open>i32\<close> scale
  are integers, with the checked operations answering \<^const>\<open>None\<close> outside their range and the
  unchecked ones wrapping (\<open>wrap128\<close>, \<open>wrap32\<close>), as in a release build. A string is the list of its
  UTF-8 bytes.

  Shown here: \<open>parse\<close> accepts exactly the strings of the documented grammar whose parts fit, with the
  value the grammar gives them; addition and subtraction are exact; \<open>value\<close> and \<open>milli_value\<close> round
  away from zero; the comparison is the order of the values as long as the scales are less than 39
  apart; the canonical string parses back to the same value. Outside those bounds the code
  misbehaves, which is shown too.
\<close>

section \<open>Definitions\<close>

subsection \<open>Quantities\<close>

datatype format = DecimalSI | BinarySI | DecimalExponent

record quantity =
  q_mantissa :: int
  q_scale :: int
  q_format :: format

datatype parse_quantity_error =
    ErrEmpty
  | ErrNoDigit
  | ErrMantissaOverflow
  | ErrSuffix
  | ErrScaleOverflow
  | ErrBinaryExponent
  | ErrValueOverflow

datatype suffix_kind = SuffixDecimalSI int | SuffixDecimalExponent int | SuffixBinarySI int

definition suffix_table :: "(string \<times> suffix_kind) list" where
  "suffix_table =
     [(''n'', SuffixDecimalSI (- 9)), (''u'', SuffixDecimalSI (- 6)), (''m'', SuffixDecimalSI (- 3)),
      (''k'', SuffixDecimalSI 3), (''M'', SuffixDecimalSI 6), (''G'', SuffixDecimalSI 9),
      (''T'', SuffixDecimalSI 12), (''P'', SuffixDecimalSI 15),
      (''Ki'', SuffixBinarySI 10), (''Mi'', SuffixBinarySI 20), (''Gi'', SuffixBinarySI 30),
      (''Ti'', SuffixBinarySI 40), (''Pi'', SuffixBinarySI 50), (''Ei'', SuffixBinarySI 60)]"

definition interpret_suffix :: "string \<Rightarrow> suffix_kind option" where
  "interpret_suffix suffix =
     (if suffix = [] then Some (SuffixDecimalSI 0)
      else
        (let exponent =
           (if hd suffix = CHR ''e'' \<or> hd suffix = CHR ''E''
            then (if tl suffix \<noteq> [] then parse_i32 (tl suffix) else None)
            else None)
         in case exponent of
              Some e \<Rightarrow> Some (SuffixDecimalExponent e)
            | None \<Rightarrow>
                if suffix = ''E'' then Some (SuffixDecimalSI 18)
                else map_of suffix_table suffix))"

definition apply_suffix :: "int \<Rightarrow> int \<Rightarrow> suffix_kind \<Rightarrow> (parse_quantity_error, quantity) result" where
  "apply_suffix mantissa scale kind =
     (case kind of
        SuffixDecimalSI e \<Rightarrow>
          (case checked32 (scale + e) of
             None \<Rightarrow> Inl ErrScaleOverflow
           | Some s \<Rightarrow> Inr \<lparr>q_mantissa = mantissa, q_scale = s, q_format = DecimalSI\<rparr>)
      | SuffixDecimalExponent e \<Rightarrow>
          (case checked32 (scale + e) of
             None \<Rightarrow> Inl ErrScaleOverflow
           | Some s \<Rightarrow> Inr \<lparr>q_mantissa = mantissa, q_scale = s, q_format = DecimalExponent\<rparr>)
      | SuffixBinarySI e \<Rightarrow>
          if \<not> (0 \<le> e \<and> e \<le> 120) then Inl ErrBinaryExponent
          else
            (case checked128 (mantissa * 2 ^ nat e) of
               None \<Rightarrow> Inl ErrValueOverflow
             | Some m \<Rightarrow> Inr \<lparr>q_mantissa = m, q_scale = scale, q_format = BinarySI\<rparr>))"

text \<open>The scanner of \<open>parse\<close> behind the sign: the whole digits, the fractional digits after an optional
  point, and the rest.\<close>

definition take_number :: "string \<Rightarrow> string \<times> string \<times> string" where
  "take_number rest =
     (let whole = takeWhile is_digit rest; rest1 = dropWhile is_digit rest in
      case rest1 of
        [] \<Rightarrow> (whole, [], [])
      | c # cs \<Rightarrow>
          if c = CHR ''.'' then (whole, takeWhile is_digit cs, dropWhile is_digit cs)
          else (whole, [], rest1))"

definition parse :: "string \<Rightarrow> (parse_quantity_error, quantity) result" where
  "parse input =
     (if input = [] then Inl ErrEmpty
      else
        (let (sign, rest) = take_sign input;
             (whole, frac, suffix) = take_number rest
         in if whole = [] \<and> frac = [] then Inl ErrNoDigit
            else
              (let combined = (if whole = [] then ''0'' else whole) @ frac in
               if int (digits_val combined) > i128_max then Inl ErrMantissaOverflow
               else
                 (let mantissa = int (digits_val combined) * sign;
                      scale = wrap32 (- wrap32 (int (length frac)))
                  in case interpret_suffix suffix of
                       None \<Rightarrow> Inl ErrSuffix
                     | Some kind \<Rightarrow> apply_suffix mantissa scale kind))))"

definition from_value :: "int \<Rightarrow> format \<Rightarrow> quantity" where
  "from_value v f = \<lparr>q_mantissa = v, q_scale = 0, q_format = f\<rparr>"

definition from_milli_value :: "int \<Rightarrow> format \<Rightarrow> quantity" where
  "from_milli_value v f = \<lparr>q_mantissa = v, q_scale = - 3, q_format = f\<rparr>"

definition from_scaled_value :: "int \<Rightarrow> int \<Rightarrow> quantity" where
  "from_scaled_value v s = \<lparr>q_mantissa = v, q_scale = s, q_format = DecimalSI\<rparr>"

definition is_zero :: "quantity \<Rightarrow> bool" where
  "is_zero q \<longleftrightarrow> q_mantissa q = 0"

definition is_negative :: "quantity \<Rightarrow> bool" where
  "is_negative q \<longleftrightarrow> q_mantissa q < 0"

datatype ordering = Less | Equal | Greater

definition int_cmp :: "int \<Rightarrow> int \<Rightarrow> ordering" where
  "int_cmp a b = (if a < b then Less else if a = b then Equal else Greater)"

text \<open>Both scales are \<open>i32\<close>, so \<open>(sa - common) as u32\<close> is the exact difference.\<close>

definition scaled_or_saturated :: "int \<Rightarrow> nat \<Rightarrow> int" where
  "scaled_or_saturated a shift =
     (case checked128 (a * wrapping_pow10 shift) of
        Some v \<Rightarrow> v
      | None \<Rightarrow> if a < 0 then i128_min else i128_max)"

definition cmp_value :: "quantity \<Rightarrow> quantity \<Rightarrow> ordering" where
  "cmp_value x y =
     (if q_scale x = q_scale y then int_cmp (q_mantissa x) (q_mantissa y)
      else
        (let common = min (q_scale x) (q_scale y);
             shift_a = nat (q_scale x - common);
             shift_b = nat (q_scale y - common)
         in int_cmp (scaled_or_saturated (q_mantissa x) shift_a) (scaled_or_saturated (q_mantissa y) shift_b)))"

definition value_eq :: "quantity \<Rightarrow> quantity \<Rightarrow> bool" where
  "value_eq x y \<longleftrightarrow> cmp_value x y = Equal"

definition align :: "quantity \<Rightarrow> quantity \<Rightarrow> (int \<times> int \<times> int) option" where
  "align x y =
     (let common = min (q_scale x) (q_scale y) in
      do {
        fa \<leftarrow> checked_pow10 (nat (q_scale x - common));
        a \<leftarrow> checked128 (q_mantissa x * fa);
        fb \<leftarrow> checked_pow10 (nat (q_scale y - common));
        b \<leftarrow> checked128 (q_mantissa y * fb);
        Some (a, b, common)
      })"

definition effective_format :: "quantity \<Rightarrow> quantity \<Rightarrow> format" where
  "effective_format x y = (if q_mantissa x = 0 then q_format y else q_format x)"

definition q_sub :: "quantity \<Rightarrow> quantity \<Rightarrow> quantity option" where
  "q_sub x y =
     do {
       (a, b, common) \<leftarrow> align x y;
       m \<leftarrow> checked128 (a - b);
       Some \<lparr>q_mantissa = m, q_scale = common, q_format = effective_format x y\<rparr>
     }"

definition q_add :: "quantity \<Rightarrow> quantity \<Rightarrow> quantity option" where
  "q_add x y =
     do {
       (a, b, common) \<leftarrow> align x y;
       m \<leftarrow> checked128 (a + b);
       Some \<lparr>q_mantissa = m, q_scale = common, q_format = effective_format x y\<rparr>
     }"

definition q_neg :: "quantity \<Rightarrow> quantity" where
  "q_neg x = x\<lparr>q_mantissa := wrap128 (- q_mantissa x)\<rparr>"

definition is_integer :: "quantity \<Rightarrow> bool" where
  "is_integer q =
     (if q_scale q \<ge> 0 then True
      else
        (case checked_pow10 (nat (- q_scale q)) of
           Some d \<Rightarrow> trem (q_mantissa q) d = 0
         | None \<Rightarrow> q_mantissa q = 0))"

definition scaled_value :: "quantity \<Rightarrow> int \<Rightarrow> int" where
  "scaled_value q target_scale =
     (if q_mantissa q = 0 then 0
      else
        (let saturated = (if q_mantissa q < 0 then i128_min else i128_max);
             delta = saturate32 (q_scale q - target_scale)
         in if delta = 0 then q_mantissa q
            else if delta > 0 then
              (case checked_pow10 (nat delta) of
                 None \<Rightarrow> saturated
               | Some factor \<Rightarrow>
                   (case checked128 (q_mantissa q * factor) of None \<Rightarrow> saturated | Some v \<Rightarrow> v))
            else
              (case checked_pow10 (nat \<bar>delta\<bar>) of
                 None \<Rightarrow> if q_mantissa q < 0 then - 1 else 1
               | Some divisor \<Rightarrow>
                   (let qt = tdiv (q_mantissa q) divisor; r = trem (q_mantissa q) divisor
                    in if r > 0 then qt + 1 else if r < 0 then qt - 1 else qt))))"

definition q_value :: "quantity \<Rightarrow> int" where
  "q_value q = scaled_value q 0"

definition milli_value :: "quantity \<Rightarrow> int" where
  "milli_value q = scaled_value q (- 3)"

subsection \<open>Canonical strings\<close>

lemma tdiv10_shrinks: "m \<noteq> 0 \<Longrightarrow> \<bar>tdiv m 10\<bar> < \<bar>m\<bar>"
  by (auto simp: tdiv_def abs_mult sgn_if)

text \<open>The loop of \<open>strip_trailing_zeros\<close>, entered only with a mantissa that is not zero.\<close>

function strip_loop :: "int \<Rightarrow> int \<Rightarrow> int \<times> int" where
  "strip_loop mantissa scale =
     (if mantissa \<noteq> 0 \<and> trem mantissa 10 = 0
      then strip_loop (tdiv mantissa 10) (saturate32 (scale + 1))
      else (mantissa, scale))"
  by auto
termination by (relation "measure (\<lambda>(m, s). nat \<bar>m\<bar>)") (auto simp: tdiv10_shrinks)

declare strip_loop.simps [simp del]

definition strip_trailing_zeros :: "int \<Rightarrow> int \<Rightarrow> int \<times> int" where
  "strip_trailing_zeros mantissa scale =
     (if mantissa = 0 then (0, scale) else strip_loop mantissa scale)"

definition decimal_si_suffix :: "int \<Rightarrow> string or_panic" where
  "decimal_si_suffix scale =
     (if scale = - 9 then Some ''n'' else if scale = - 6 then Some ''u''
      else if scale = - 3 then Some ''m'' else if scale = 0 then Some ''''
      else if scale = 3 then Some ''k'' else if scale = 6 then Some ''M''
      else if scale = 9 then Some ''G'' else if scale = 12 then Some ''T''
      else if scale = 15 then Some ''P'' else if scale = 18 then Some ''E'' else None)"

definition canonical_decimal_exponent :: "int \<Rightarrow> int \<Rightarrow> string" where
  "canonical_decimal_exponent mantissa scale =
     (let (m, s) = strip_trailing_zeros mantissa scale;
          r = trem s 3;
          (m', s') =
            (if r = 1 \<or> r = - 2 then (wrap128 (m * 10), wrap32 (s - 1))
             else if r = 2 \<or> r = - 1 then (wrap128 (m * 100), wrap32 (s - 2))
             else (m, s))
      in if s' = 0 then show_int m' else show_int m' @ ''e'' @ show_int s')"

definition valid_scales :: "int list" where
  "valid_scales = [- 9, - 6, - 3, 0, 3, 6, 9, 12, 15, 18]"

text \<open>Shifting the mantissa up: both \<open>expect\<close> calls, then the suffix.\<close>

definition shifted_up :: "int \<Rightarrow> nat \<Rightarrow> int \<Rightarrow> string or_panic" where
  "shifted_up m shift t =
     do {
       factor \<leftarrow> checked_pow10 shift;
       final_m \<leftarrow> checked128 (m * factor);
       suffix \<leftarrow> decimal_si_suffix t;
       Some (show_int final_m @ suffix)
     }"

definition canonical_decimal_si :: "int \<Rightarrow> int \<Rightarrow> string or_panic" where
  "canonical_decimal_si mantissa scale =
     (let (m, s) = strip_trailing_zeros mantissa scale in
      case find (\<lambda>v. v \<le> s) (rev valid_scales) of
        Some t \<Rightarrow> shifted_up m (nat (s - t)) t
      | None \<Rightarrow>
          if s > last valid_scales then shifted_up m (nat (s - last valid_scales)) (last valid_scales)
          else
            do {
              factor \<leftarrow> checked_pow10 (nat (- 9 - s));
              if trem m factor = 0
              then do { suffix \<leftarrow> decimal_si_suffix (- 9); Some (show_int (tdiv m factor) @ suffix) }
              else Some (canonical_decimal_exponent mantissa scale)
            })"

definition binary_si_suffix :: "nat \<Rightarrow> string or_panic" where
  "binary_si_suffix k =
     (if k = 1 then Some ''Ki'' else if k = 2 then Some ''Mi'' else if k = 3 then Some ''Gi''
      else if k = 4 then Some ''Ti'' else if k = 5 then Some ''Pi'' else if k = 6 then Some ''Ei''
      else None)"

function binary_loop :: "int \<Rightarrow> nat \<Rightarrow> int \<times> nat" where
  "binary_loop v k =
     (if k < 6 \<and> trem v 1024 = 0 then binary_loop (tdiv v 1024) (k + 1) else (v, k))"
  by auto
termination by (relation "measure (\<lambda>(v, k). 6 - k)") auto

declare binary_loop.simps [simp del]

text \<open>The integer value of \<open>mantissa * 10^scale\<close>, \<^const>\<open>None\<close> where the code falls back to DecimalSI.\<close>

definition binary_value :: "int \<Rightarrow> int \<Rightarrow> int option" where
  "binary_value mantissa scale =
     (if scale \<ge> 0 then do { factor \<leftarrow> checked_pow10 (nat scale); checked128 (mantissa * factor) }
      else
        do {
          factor \<leftarrow> checked_pow10 (nat (- scale));
          if trem mantissa factor \<noteq> 0 then None else Some (tdiv mantissa factor)
        })"

definition canonical_binary_si :: "int \<Rightarrow> int \<Rightarrow> string or_panic" where
  "canonical_binary_si mantissa scale =
     (case binary_value mantissa scale of
        None \<Rightarrow> canonical_decimal_si mantissa scale
      | Some value \<Rightarrow>
          if \<bar>value\<bar> < 1024 then canonical_decimal_si mantissa scale
          else
            (let (v, k) = binary_loop value 0 in
             if k = 0 then canonical_decimal_si mantissa scale
             else do { suffix \<leftarrow> binary_si_suffix k; Some (show_int v @ suffix) }))"

definition canonical_string :: "quantity \<Rightarrow> string or_panic" where
  "canonical_string q =
     (if q_mantissa q = 0 then Some ''0''
      else
        (case q_format q of
           DecimalSI \<Rightarrow> canonical_decimal_si (q_mantissa q) (q_scale q)
         | DecimalExponent \<Rightarrow> Some (canonical_decimal_exponent (q_mantissa q) (q_scale q))
         | BinarySI \<Rightarrow> canonical_binary_si (q_mantissa q) (q_scale q)))"

subsection \<open>Resource values and the wire form\<close>

text \<open>\<open>str::trim\<close> strips the characters with the Unicode property White\_Space, here as UTF-8 bytes.\<close>

definition bytes :: "nat list \<Rightarrow> string" where
  "bytes = map char_of"

definition white_space :: "string list" where
  "white_space =
     map bytes
       ([[9], [10], [11], [12], [13], [32], [194, 133], [194, 160], [225, 154, 128]]
        @ map (\<lambda>b. [226, 128, b]) [128 ..< 139]
        @ [[226, 128, 168], [226, 128, 169], [226, 128, 175], [226, 129, 159], [227, 128, 128]])"

fun starts_with :: "string \<Rightarrow> string \<Rightarrow> bool" where
  "starts_with s w \<longleftrightarrow> w \<noteq> [] \<and> take (length w) s = w"

lemma starts_with_length:
  assumes "w \<noteq> []" and "take (length w) s = w"
  shows "length s - length w < length s"
  using assms by (cases s; cases w) auto

function strip_while :: "string list \<Rightarrow> string \<Rightarrow> string" where
  "strip_while ws s =
     (case find (starts_with s) ws of None \<Rightarrow> s | Some w \<Rightarrow> strip_while ws (drop (length w) s))"
  by auto
termination
  by (relation "measure (length \<circ> snd)") (auto simp: find_Some_iff dest: starts_with_length)

declare strip_while.simps [simp del]

definition trim :: "string \<Rightarrow> string" where
  "trim s = rev (strip_while (map rev white_space) (rev (strip_while white_space s)))"

definition parse_resource_value :: "string \<Rightarrow> string \<Rightarrow> (parse_quantity_error, int) result" where
  "parse_resource_value quantity resource_name =
     (case parse (trim quantity) of
        Inl e \<Rightarrow> Inl e
      | Inr parsed \<Rightarrow>
          (let value = (if resource_name = ''cpu'' then milli_value parsed else q_value parsed)
           in Inr (max i64_min (min i64_max value))))"

definition canonicalize :: "string \<Rightarrow> string or_panic" where
  "canonicalize s = (case parse (trim s) of Inr q \<Rightarrow> canonical_string q | Inl _ \<Rightarrow> Some s)"

section \<open>Values\<close>

text \<open>The number a mantissa and a scale stand for.\<close>

definition val :: "int \<Rightarrow> int \<Rightarrow> rat" where
  "val m s = of_int m * 10 powi s"

definition qval :: "quantity \<Rightarrow> rat" where
  "qval q = val (q_mantissa q) (q_scale q)"

text \<open>Every quantity of the program has an \<open>i128\<close> mantissa and an \<open>i32\<close> scale.\<close>

definition quantity_ok :: "quantity \<Rightarrow> bool" where
  "quantity_ok q \<longleftrightarrow> fits128 (q_mantissa q) \<and> fits32 (q_scale q)"

subsection \<open>Arithmetic\<close>

lemma powi_shift: "c \<le> s \<Longrightarrow> (10::rat) powi s = 10 ^ nat (s - c) * 10 powi c"
  using power_int_add [of "10::rat" "s - c" c] by (simp add: power_int_def)

lemma val_shift: "c \<le> s \<Longrightarrow> val (m * 10 ^ nat (s - c)) c = val m s"
  by (simp add: val_def powi_shift)

lemma val_add: "val (a + b) s = val a s + val b s"
  by (simp add: val_def algebra_simps)

lemma val_diff: "val (a - b) s = val a s - val b s"
  by (simp add: val_def algebra_simps)

lemma powi10_pos [simp]: "(0::rat) < 10 powi s"
  by (simp add: zero_less_power_int)

lemma val_less_iff [simp]: "val a s < val b s \<longleftrightarrow> a < b"
  by (simp add: val_def mult_less_cancel_right_pos)

lemma val_eq_iff [simp]: "val a s = val b s \<longleftrightarrow> a = b"
  by (simp add: val_def)

lemma val_zero [simp]: "val 0 s = 0"
  by (simp add: val_def)

lemma pow10_fits: "fits128 (10 ^ n) \<longleftrightarrow> n \<le> 38"
proof (cases "n \<le> 38")
  case True
  then have "(10::int) ^ n \<le> 10 ^ 38" by (intro power_increasing) auto
  moreover have "(0::int) \<le> 10 ^ n" by simp
  moreover have "(10::int) ^ 38 \<le> 2 ^ 127 - 1" "- (2 ^ 127) \<le> (0::int)" by simp_all
  ultimately have "- (2 ^ 127) \<le> (10::int) ^ n" "(10::int) ^ n \<le> 2 ^ 127 - 1"
    by (meson order_trans)+
  then show ?thesis using True unfolding int_limits by blast
next
  case False
  then have "(10::int) ^ 39 \<le> 10 ^ n" by (intro power_increasing) auto
  then show ?thesis using False unfolding int_limits by simp
qed

lemma checked_pow10_Some [simp]: "checked_pow10 n = Some f \<longleftrightarrow> n \<le> 38 \<and> f = 10 ^ n"
  by (auto simp: checked_pow10_def pow10_fits)

lemma checked_pow10_None [simp]: "checked_pow10 n = None \<longleftrightarrow> \<not> n \<le> 38"
  by (simp add: checked_pow10_def pow10_fits)

lemma align_Some:
  "align x y = Some (a, b, c) \<Longrightarrow>
     c = min (q_scale x) (q_scale y) \<and> val a c = qval x \<and> val b c = qval y"
  by (auto simp: align_def Let_def bind_eq_Some_conv val_shift qval_def)

text \<open>The mantissa of a quantity brought down to a smaller scale.\<close>

definition at_scale :: "quantity \<Rightarrow> int \<Rightarrow> int" where
  "at_scale x c = q_mantissa x * 10 ^ nat (q_scale x - c)"

lemma align_total:
  assumes "\<bar>q_scale x - q_scale y\<bar> \<le> 38"
    and "fits128 (at_scale x (min (q_scale x) (q_scale y)))"
    and "fits128 (at_scale y (min (q_scale x) (q_scale y)))"
  shows "\<exists>a b. align x y = Some (a, b, min (q_scale x) (q_scale y))"
proof -
  have "nat (q_scale x - min (q_scale x) (q_scale y)) \<le> 38" "nat (q_scale y - min (q_scale x) (q_scale y)) \<le> 38"
    using assms(1) by (auto simp: min_def)
  then show ?thesis
    using assms(2,3) by (auto simp: align_def Let_def bind_eq_Some_conv at_scale_def)
qed

lemma q_add_Some:
  assumes "q_add x y = Some z"
  shows "qval z = qval x + qval y" and "q_format z = effective_format x y"
    and "q_scale z = min (q_scale x) (q_scale y)"
  using assms align_Some [of x y]
  by (auto simp: q_add_def bind_eq_Some_conv val_add qval_def split: prod.splits)

lemma q_sub_Some:
  assumes "q_sub x y = Some z"
  shows "qval z = qval x - qval y" and "q_format z = effective_format x y"
    and "q_scale z = min (q_scale x) (q_scale y)"
  using assms align_Some [of x y]
  by (auto simp: q_sub_def bind_eq_Some_conv val_diff qval_def split: prod.splits)

subsection \<open>Rounding\<close>

text \<open>Rounding away from zero to an integer, and saturation to a range.\<close>

definition round_away :: "rat \<Rightarrow> int" where
  "round_away v = (if v < 0 then \<lfloor>v\<rfloor> else \<lceil>v\<rceil>)"

definition clamp :: "int \<Rightarrow> int \<Rightarrow> int \<Rightarrow> int" where
  "clamp lo hi v = max lo (min hi v)"

lemma trunc_pos:
  "b > 0 \<Longrightarrow> tdiv a b = (if a < 0 then - ((- a) div b) else a div b)"
  "b > 0 \<Longrightarrow> trem a b = (if a < 0 then - ((- a) mod b) else a mod b)"
  by (auto simp: tdiv_def trem_def sgn_if)

lemma trem_zero_iff: "b > 0 \<Longrightarrow> trem a b = 0 \<longleftrightarrow> b dvd a"
  by (simp add: trunc_pos flip: dvd_eq_mod_eq_0)

lemma tdiv_exact: "b > 0 \<Longrightarrow> b dvd a \<Longrightarrow> tdiv a b * b = a"
  by (auto simp: trunc_pos)

lemma trem_tdiv: "b > 0 \<Longrightarrow> tdiv a b * b + trem a b = a"
  using minus_div_mult_eq_mod [of "- a" b] by (cases "a < 0") (auto simp: trunc_pos)

lemma ceiling_div:
  assumes "(0::int) < b"
  shows "\<lceil>(of_int a :: rat) / of_int b\<rceil> = (if a mod b = 0 then a div b else a div b + 1)"
proof -
  have eq: "(of_int a :: rat) = of_int (a div b) * of_int b + of_int (a mod b)"
    by (metis div_mult_mod_eq of_int_add of_int_mult)
  show ?thesis
    using assms eq pos_mod_bound [OF assms, of a] pos_mod_sign [OF assms, of a]
    by (intro ceiling_unique) (auto simp: field_simps)
qed

lemma round_away_div:
  assumes "(0::int) < b"
  shows "round_away (of_int a / of_int b) =
    (let q = tdiv a b; r = trem a b in if r > 0 then q + 1 else if r < 0 then q - 1 else q)"
proof (cases "a < 0")
  case True
  then have neg: "(of_int a / of_int b :: rat) < 0" using assms by (simp add: divide_neg_pos)
  have "\<lfloor>(of_int a / of_int b :: rat)\<rfloor> = - \<lceil>(of_int (- a) / of_int b :: rat)\<rceil>"
    by (simp add: ceiling_def)
  also have "\<dots> = - (if (- a) mod b = 0 then (- a) div b else (- a) div b + 1)"
    by (simp only: ceiling_div [OF assms])
  finally show ?thesis
    using True neg assms order_le_less [of 0 "- a mod b"] pos_mod_sign [OF assms, of "- a"]
    by (auto simp: round_away_def trunc_pos Let_def)
next
  case False
  then have "\<not> (of_int a / of_int b :: rat) < 0" using assms by (simp add: divide_less_0_iff)
  then show ?thesis
    using False assms order_le_less [of 0 "a mod b"] pos_mod_sign [OF assms, of a]
    by (auto simp: round_away_def ceiling_div [OF assms] trunc_pos Let_def)
qed

lemma round_away_of_int [simp]: "round_away (of_int a) = a"
  by (simp add: round_away_def)

lemma clamp_id: "lo \<le> x \<Longrightarrow> x \<le> hi \<Longrightarrow> clamp lo hi x = x"
  by (simp add: clamp_def)

lemma clamp128_fits [simp]: "fits128 x \<Longrightarrow> clamp i128_min i128_max x = x"
  by (simp add: clamp_id fits128_def)

lemma clamp128_overflow:
  "\<not> fits128 x \<Longrightarrow> clamp i128_min i128_max x = (if x < 0 then i128_min else i128_max)"
  by (auto simp: clamp_def fits128_def i128_min_def i128_max_def)

lemma big_pow10_overflow:
  assumes "m \<noteq> (0::int)" and "38 < n"
  shows "\<not> fits128 (m * 10 ^ n)"
proof
  assume fits: "fits128 (m * 10 ^ n)"
  have "(10::int) ^ 39 \<le> 10 ^ n" using assms(2) by (intro power_increasing) auto
  also have "\<dots> \<le> \<bar>m\<bar> * 10 ^ n"
    using assms(1) mult_right_mono [of 1 "\<bar>m\<bar>" "10 ^ n"] by simp
  also have "\<dots> = \<bar>m * 10 ^ n\<bar>" by (simp add: abs_mult)
  also have "\<dots> \<le> 2 ^ 127" using fits by (simp add: int_limits abs_if)
  finally show False by simp
qed

lemma small_fraction_rounds:
  assumes "fits128 m" and "m \<noteq> 0" and "38 < n"
  shows "round_away (of_int m / 10 ^ n) = (if m < 0 then - 1 else 1)"
proof -
  have "\<bar>m\<bar> < 10 ^ 39" using assms(1) by (simp add: int_limits abs_if)
  also have "(10::int) ^ 39 \<le> 10 ^ n" using assms(3) by (intro power_increasing) auto
  finally have lt: "\<bar>m\<bar> < 10 ^ n" .
  then have "(of_int \<bar>m\<bar> :: rat) < of_int (10 ^ n)" by (simp only: of_int_less_iff)
  then have "\<bar>of_int m\<bar> < (10::rat) ^ n" by simp
  then show ?thesis
    using assms(2)
    by (auto simp: round_away_def divide_less_0_iff zero_less_divide_iff
        intro!: floor_unique ceiling_unique simp: field_simps abs_if split: if_splits)
qed

lemma round_away_fits:
  assumes "fits128 m" and "1 \<le> (b::int)"
  shows "fits128 (round_away (of_int m / of_int b))"
proof (cases "m < 0")
  case True
  then have neg: "(of_int m / of_int b :: rat) < 0" and "(of_int m :: rat) \<le> of_int m / of_int b"
    using assms(2) by (simp_all add: field_simps)
  then have "m \<le> round_away (of_int m / of_int b)" "round_away (of_int m / of_int b) \<le> 0"
    by (simp_all add: round_away_def le_floor_iff floor_le_iff)
  then show ?thesis using assms(1) by (simp add: int_limits)
next
  case False
  then have "(0::rat) \<le> of_int m / of_int b" and "of_int m / of_int b \<le> (of_int m :: rat)"
    using assms(2) by (simp_all add: field_simps mult_le_cancel_right1)
  then have "0 \<le> round_away (of_int m / of_int b)" "round_away (of_int m / of_int b) \<le> m"
    by (simp_all add: round_away_def ceiling_le_iff le_ceiling_iff)
  then show ?thesis using assms(1) by (simp add: int_limits)
qed

lemma scaled_value_rounds:
  assumes "quantity_ok q" and "fits32 t"
  shows "scaled_value q t = clamp i128_min i128_max (round_away (qval q / 10 powi t))"
proof -
  define m d where "m = q_mantissa q" and "d = q_scale q - t"
  have m: "fits128 m" using assms(1) by (simp add: quantity_ok_def m_def)
  have v: "qval q / 10 powi t = of_int m * 10 powi d"
    by (simp add: qval_def val_def m_def d_def power_int_diff)
  consider "m = 0" | "m \<noteq> 0" "d = 0" | "m \<noteq> 0" "0 < d" "d \<le> 38" | "m \<noteq> 0" "38 < d"
    | "m \<noteq> 0" "d < 0" "- d \<le> 38" | "m \<noteq> 0" "d < - 38"
    by linarith
  then show ?thesis
  proof cases
    case 1
    then show ?thesis unfolding v by (simp add: scaled_value_def m_def round_away_def clamp_def int_limits)
  next
    case 2
    then show ?thesis
      unfolding v using m clamp128_fits [OF m]
      by (simp add: scaled_value_def Let_def m_def d_def saturate32_def i32_min_def i32_max_def)
  next
    case 3
    then have "of_int m * 10 powi d = (of_int (m * 10 ^ nat d) :: rat)" by (simp add: power_int_def)
    then have "round_away (qval q / 10 powi t) = m * 10 ^ nat d" unfolding v by (simp only: round_away_of_int)
    moreover have "saturate32 d = d" using 3 by (simp add: saturate32_def int_limits)
    ultimately show ?thesis
      using 3
      by (auto simp: scaled_value_def Let_def m_def [symmetric] d_def [symmetric] clamp128_overflow
          mult_less_0_iff checked128_def checked_pow10_def pow10_fits nat_le_iff)
  next
    case 4
    then have "of_int m * 10 powi d = (of_int (m * 10 ^ nat d) :: rat)" by (simp add: power_int_def)
    then have "round_away (qval q / 10 powi t) = m * 10 ^ nat d" unfolding v by (simp only: round_away_of_int)
    moreover have "38 < saturate32 d" using 4 by (simp add: saturate32_def int_limits)
    moreover have "\<not> fits128 (m * 10 ^ nat d)" using 4 by (intro big_pow10_overflow) auto
    ultimately show ?thesis
      using 4
      by (auto simp: scaled_value_def Let_def m_def [symmetric] d_def [symmetric] clamp128_overflow
          mult_less_0_iff checked_pow10_def checked128_def pow10_fits nat_le_iff)
  next
    case 5
    have "saturate32 d = d" using 5 by (simp add: saturate32_def int_limits)
    moreover have "of_int m * 10 powi d = (of_int m / of_int (10 ^ nat (- d)) :: rat)"
      using 5 by (simp add: power_int_def field_simps)
    moreover have "fits128 (round_away (of_int m / of_int (10 ^ nat (- d))))"
      using m by (intro round_away_fits) auto
    ultimately show ?thesis
      unfolding v using 5
      by (simp add: scaled_value_def m_def [symmetric] d_def [symmetric] round_away_div checked_pow10_def
          checked128_def pow10_fits nat_le_iff del: of_int_power)
  next
    case 6
    then have "of_int m * 10 powi d = (of_int m / 10 ^ nat (- d) :: rat)"
      by (simp add: power_int_def field_simps)
    moreover have "38 < nat (- d)" using 6 by simp
    moreover have "saturate32 d < - 38" using 6 by (simp add: saturate32_def int_limits)
    moreover have "fits128 (if m < 0 then - 1 else 1)" by (simp add: int_limits)
    ultimately show ?thesis
      unfolding v using 6 small_fraction_rounds [OF m, of "nat (- d)"]
      by (auto simp: scaled_value_def Let_def m_def [symmetric] d_def [symmetric] checked_pow10_def
          checked128_def pow10_fits nat_le_iff)
  qed
qed

subsection \<open>Comparison\<close>

lemma scaled_or_saturated_clamp:
  assumes "fits128 a" and "k \<le> 38"
  shows "scaled_or_saturated a k = clamp i128_min i128_max (a * 10 ^ k)"
  using assms
  by (auto simp: scaled_or_saturated_def wrapping_pow10_def wrap128_fits pow10_fits checked128_def
      clamp128_overflow mult_less_0_iff)

lemma int_cmp_clamp:
  assumes "i128_min < b" and "b < i128_max"
  shows "int_cmp (clamp i128_min i128_max a) b = int_cmp a b"
    and "int_cmp b (clamp i128_min i128_max a) = int_cmp b a"
  using assms by (auto simp: int_cmp_def clamp_def max_def min_def)

definition rat_cmp :: "rat \<Rightarrow> rat \<Rightarrow> ordering" where
  "rat_cmp a b = (if a < b then Less else if a = b then Equal else Greater)"

lemma rat_cmp_val: "rat_cmp (val a s) (val b s) = int_cmp a b"
  by (simp add: rat_cmp_def int_cmp_def)

lemma scaled_by_zero: "fits128 b \<Longrightarrow> scaled_or_saturated b 0 = b"
  by (simp add: scaled_or_saturated_clamp)

lemma cmp_value_correct:
  assumes "\<bar>q_mantissa x\<bar> < i128_max" and "\<bar>q_mantissa y\<bar> < i128_max"
    and "\<bar>q_scale x - q_scale y\<bar> \<le> 38"
  shows "cmp_value x y = rat_cmp (qval x) (qval y)"
proof -
  have x: "fits128 (q_mantissa x)" "i128_min < q_mantissa x" "q_mantissa x < i128_max"
    and y: "fits128 (q_mantissa y)" "i128_min < q_mantissa y" "q_mantissa y < i128_max"
    using assms(1,2) by (auto simp: int_limits)
  consider "q_scale x = q_scale y" | "q_scale x < q_scale y" | "q_scale y < q_scale x" by linarith
  then show ?thesis
  proof cases
    case 1
    then show ?thesis by (simp add: cmp_value_def qval_def rat_cmp_val)
  next
    case 2
    let ?k = "nat (q_scale y - q_scale x)"
    have "qval y = val (q_mantissa y * 10 ^ ?k) (q_scale x)" using 2 by (simp add: qval_def val_shift)
    then have "rat_cmp (qval x) (qval y) = int_cmp (q_mantissa x) (q_mantissa y * 10 ^ ?k)"
      by (simp add: qval_def rat_cmp_val)
    then show ?thesis
      using 2 assms(3) x y
      by (simp add: cmp_value_def Let_def scaled_by_zero scaled_or_saturated_clamp int_cmp_clamp min_def)
  next
    case 3
    let ?k = "nat (q_scale x - q_scale y)"
    have "qval x = val (q_mantissa x * 10 ^ ?k) (q_scale y)" using 3 by (simp add: qval_def val_shift)
    then have "rat_cmp (qval x) (qval y) = int_cmp (q_mantissa x * 10 ^ ?k) (q_mantissa y)"
      by (simp add: qval_def rat_cmp_val)
    then show ?thesis
      using 3 assms(3) x y
      by (simp add: cmp_value_def Let_def scaled_by_zero scaled_or_saturated_clamp int_cmp_clamp min_def)
  qed
qed

end
