(* ===== verification/QuantityText.thy ===== *)
theory QuantityText
  imports Quantity
begin

text \<open>
  The textual side of resource quantities: the documented grammar with its meaning, the parser against
  it, and the canonical string (\<^verbatim>\<open>crates/common/src/quantity.rs\<close>).
\<close>

section \<open>The grammar\<close>

text \<open>The regular expression of the error message of \<open>parse\<close>, with the number each part stands for. A
  suffix multiplies by \<open>10^p * 2^b\<close>.\<close>

inductive suffix_denotes :: "string \<Rightarrow> int \<Rightarrow> nat \<Rightarrow> bool" where
  no_suffix: "suffix_denotes '''' 0 0"
| si_suffix: "(suf, p) \<in> {(''n'', - 9), (''u'', - 6), (''m'', - 3), (''k'', 3), (''M'', 6), (''G'', 9),
     (''T'', 12), (''P'', 15), (''E'', 18)} \<Longrightarrow> suffix_denotes suf p 0"
| binary_suffix: "(suf, b) \<in> {(''Ki'', 10), (''Mi'', 20), (''Gi'', 30), (''Ti'', 40), (''Pi'', 50),
     (''Ei'', 60)} \<Longrightarrow> suffix_denotes suf 0 b"
| exponent: "c \<in> {CHR ''e'', CHR ''E''} \<Longrightarrow> sign_of sg = Some i \<Longrightarrow> ds \<noteq> [] \<Longrightarrow> list_all is_digit ds \<Longrightarrow>
     suffix_denotes (c # sg @ ds) (i * int (digits_val ds)) 0"

text \<open>\<open>point\<close> is the optional point with the fractional digits \<open>f\<close> behind it.\<close>

definition fraction :: "string \<Rightarrow> string \<Rightarrow> bool" where
  "fraction point f \<longleftrightarrow> list_all is_digit f \<and> (point = CHR ''.'' # f \<or> point = [] \<and> f = [])"

definition literal_val :: "int \<Rightarrow> string \<Rightarrow> string \<Rightarrow> int \<Rightarrow> nat \<Rightarrow> rat" where
  "literal_val i w f p b =
     of_int i * of_nat (digits_val (w @ f)) / 10 ^ length f * 10 powi p * 2 ^ b"

text \<open>\<open>denotes s n p v\<close>: the string \<open>s\<close> has \<open>n\<close> digits, a decimal exponent \<open>p\<close> in its suffix and the
  value \<open>v\<close>.\<close>

inductive denotes :: "string \<Rightarrow> nat \<Rightarrow> int \<Rightarrow> rat \<Rightarrow> bool" where
  "sign_of sg = Some i \<Longrightarrow> list_all is_digit w \<Longrightarrow> fraction point f \<Longrightarrow> w @ f \<noteq> [] \<Longrightarrow>
   suffix_denotes suf p b \<Longrightarrow> denotes (sg @ w @ point @ suf) (length (w @ f)) p (literal_val i w f p b)"

section \<open>The scanner\<close>

text \<open>A suffix starts neither with a digit nor with a point.\<close>

definition stops :: "string \<Rightarrow> bool" where
  "stops s \<longleftrightarrow> (case s of [] \<Rightarrow> True | c # _ \<Rightarrow> \<not> is_digit c \<and> c \<noteq> CHR ''.'')"

lemma suffix_stops: "suffix_denotes suf p b \<Longrightarrow> stops suf"
  by (induction rule: suffix_denotes.induct) (auto simp: stops_def is_digit_def)

lemma takeWhile_digits:
  assumes "list_all is_digit w" and "rest = [] \<or> \<not> is_digit (hd rest)"
  shows "takeWhile is_digit (w @ rest) = w" and "dropWhile is_digit (w @ rest) = rest"
  using assms by (induction w) (auto simp: takeWhile_eq_Nil_iff dropWhile_eq_self_iff)

lemma take_number_literal:
  assumes "list_all is_digit w" and "fraction point f" and "stops suf"
  shows "take_number (w @ point @ suf) = (w, f, suf)"
proof -
  have f: "list_all is_digit f" using assms(2) by (simp add: fraction_def)
  have stop: "suf = [] \<or> \<not> is_digit (hd suf)" using assms(3) by (cases suf) (auto simp: stops_def)
  have "point @ suf = [] \<or> \<not> is_digit (hd (point @ suf))"
    using assms(2) stop by (auto simp: fraction_def)
  note whole = takeWhile_digits [OF assms(1) this]
  show ?thesis
  proof (cases point)
    case Nil
    then show ?thesis
      using assms(2,3) unfolding take_number_def Let_def whole
      by (cases suf) (simp_all add: fraction_def stops_def)
  next
    case (Cons c cs)
    then have "point = CHR ''.'' # f" using assms(2) by (simp add: fraction_def)
    then show ?thesis
      unfolding take_number_def Let_def whole by (simp add: takeWhile_digits [OF f stop])
  qed
qed

lemma digits_takeWhile: "list_all is_digit (takeWhile is_digit t)"
  by (auto simp: list_all_iff dest: set_takeWhileD)

lemma take_number_split:
  assumes "take_number s = (w, f, suf)"
  shows "\<exists>point. s = w @ point @ suf \<and> list_all is_digit w \<and> fraction point f"
proof (cases "dropWhile is_digit s")
  case Nil
  then have "s = takeWhile is_digit s" by (metis append_Nil2 takeWhile_dropWhile_id)
  then show ?thesis
    using assms Nil digits_takeWhile [of s] by (intro exI [of _ "[]"]) (auto simp: take_number_def fraction_def)
next
  case (Cons c cs)
  then have s: "s = takeWhile is_digit s @ c # cs" using takeWhile_dropWhile_id [of is_digit s] by simp
  show ?thesis
  proof (cases "c = CHR ''.''")
    case True
    then have "w = takeWhile is_digit s" "f = takeWhile is_digit cs" "suf = dropWhile is_digit cs"
      using assms Cons by (auto simp: take_number_def)
    then show ?thesis
      using s True digits_takeWhile [of s] digits_takeWhile [of cs]
      by (intro exI [of _ "CHR ''.'' # f"]) (simp add: fraction_def)
  next
    case False
    then have "w = takeWhile is_digit s" "f = []" "suf = c # cs"
      using assms Cons by (auto simp: take_number_def)
    then show ?thesis
      using s digits_takeWhile [of s] by (intro exI [of _ "[]"]) (simp add: fraction_def)
  qed
qed

section \<open>Suffixes\<close>

definition kind_pow :: "suffix_kind \<Rightarrow> int" where
  "kind_pow k = (case k of SuffixDecimalSI e \<Rightarrow> e | SuffixDecimalExponent e \<Rightarrow> e | SuffixBinarySI e \<Rightarrow> 0)"

definition kind_bin :: "suffix_kind \<Rightarrow> nat" where
  "kind_bin k = (case k of SuffixBinarySI e \<Rightarrow> nat e | _ \<Rightarrow> 0)"

definition kind_ok :: "suffix_kind \<Rightarrow> bool" where
  "kind_ok k = (case k of SuffixBinarySI e \<Rightarrow> 10 \<le> e \<and> e \<le> 60 | _ \<Rightarrow> True)"

lemma suffix_table_sound:
  "map_of suffix_table suf = Some kind \<Longrightarrow> suffix_denotes suf (kind_pow kind) (kind_bin kind) \<and> kind_ok kind"
  unfolding suffix_table_def
  by (auto simp: kind_pow_def kind_bin_def kind_ok_def split: if_splits intro: si_suffix binary_suffix)

lemma interpret_suffix_cases:
  "interpret_suffix suf =
     (if suf = [] then Some (SuffixDecimalSI 0)
      else if hd suf \<in> {CHR ''e'', CHR ''E''} \<and> parse_i32 (tl suf) \<noteq> None
        then Some (SuffixDecimalExponent (the (parse_i32 (tl suf))))
      else if suf = ''E'' then Some (SuffixDecimalSI 18)
      else map_of suffix_table suf)"
  by (cases "parse_i32 (tl suf)"; cases "tl suf = []") (simp_all add: interpret_suffix_def parse_int_Nil)

lemma interpret_sound:
  assumes "interpret_suffix suf = Some kind"
  shows "suffix_denotes suf (kind_pow kind) (kind_bin kind) \<and> kind_ok kind"
proof (cases suf)
  case Nil
  then show ?thesis
    using assms no_suffix by (auto simp: interpret_suffix_def kind_pow_def kind_bin_def kind_ok_def)
next
  case (Cons c rest)
  show ?thesis
  proof (cases "c \<in> {CHR ''e'', CHR ''E''} \<and> parse_i32 rest \<noteq> None")
    case True
    then obtain sg i ds where "rest = sg @ ds" "sign_of sg = Some i" "ds \<noteq> []" "list_all is_digit ds"
      "parse_i32 rest = Some (i * int (digits_val ds))"
      using parse_int_iff [of fits32 rest] by (metis option.exhaust)
    moreover have "kind = SuffixDecimalExponent (the (parse_i32 rest))"
      using assms True unfolding Cons interpret_suffix_cases by simp
    ultimately show ?thesis
      using True exponent [of c sg i ds] unfolding Cons by (simp add: kind_pow_def kind_bin_def kind_ok_def)
  next
    case False
    then have "(if suf = ''E'' then Some (SuffixDecimalSI 18) else map_of suffix_table suf) = Some kind"
      using assms interpret_suffix_cases [of suf] unfolding Cons by (auto split: if_splits)
    then show ?thesis
      using suffix_table_sound [of suf kind] si_suffix [of "''E''" 18]
      by (auto simp: kind_pow_def kind_bin_def kind_ok_def split: if_splits)
  qed
qed

lemma interpret_complete:
  assumes "suffix_denotes suf p b" and "fits32 p"
  shows "\<exists>kind. interpret_suffix suf = Some kind \<and> kind_pow kind = p \<and> kind_bin kind = b"
  using assms
proof (induction rule: suffix_denotes.induct)
  case (exponent c sg i ds)
  then have "parse_i32 (sg @ ds) = Some (i * int (digits_val ds))" unfolding parse_int_iff by blast
  moreover have "sg @ ds \<noteq> []" using exponent by simp
  ultimately have "interpret_suffix (c # sg @ ds) = Some (SuffixDecimalExponent (i * int (digits_val ds)))"
    using exponent by (auto simp: interpret_suffix_def)
  then show ?case by (simp add: kind_pow_def kind_bin_def)
next
  case no_suffix
  then show ?case by (simp add: interpret_suffix_def kind_pow_def kind_bin_def)
next
  case (si_suffix suf p)
  then show ?case
    by (elim insertE emptyE)
       (simp_all add: interpret_suffix_cases suffix_table_def kind_pow_def kind_bin_def parse_int_Nil)
next
  case (binary_suffix suf b)
  then show ?case
    by (elim insertE emptyE)
       (simp_all add: interpret_suffix_cases suffix_table_def kind_pow_def kind_bin_def parse_int_letter is_digit_def)
qed

section \<open>The parser\<close>

text \<open>What \<open>parse\<close> returns for a scanned literal.\<close>

definition parsed_literal :: "int \<Rightarrow> string \<Rightarrow> string \<Rightarrow> suffix_kind \<Rightarrow> (parse_quantity_error, quantity) result" where
  "parsed_literal i w f kind =
     (if int (digits_val (w @ f)) > i128_max then Inl ErrMantissaOverflow
      else apply_suffix (int (digits_val (w @ f)) * i) (- int (length f)) kind)"

lemma digits_val_zero: "digits_val (''0'' @ f) = digits_val f"
  by (simp add: digits_val_def digit_val_def)

lemma digits_val_whole: "digits_val ((if w = [] then ''0'' else w) @ f) = digits_val (w @ f)"
  using digits_val_zero [of f] by simp

lemma scale_exact: "int n < 2 ^ 31 \<Longrightarrow> wrap32 (- wrap32 (int n)) = - int n"
  by (simp add: wrap32_fits int_limits)

lemma parse_scanned:
  assumes "s \<noteq> []" and "take_sign s = (i, rest)" and "take_number rest = (w, f, suf)" and "w @ f \<noteq> []"
    and "int (length f) < 2 ^ 31"
  shows "parse s =
    (case interpret_suffix suf of
       None \<Rightarrow> Inl (if int (digits_val (w @ f)) > i128_max then ErrMantissaOverflow else ErrSuffix)
     | Some kind \<Rightarrow> parsed_literal i w f kind)"
  using assms
  by (auto simp: parse_def Let_def digits_val_whole scale_exact parsed_literal_def split: option.splits)

lemma literal_nonempty: "fraction point f \<Longrightarrow> w @ f \<noteq> [] \<Longrightarrow> w @ point \<noteq> []"
  by (auto simp: fraction_def)

lemma literal_no_sign:
  assumes "list_all is_digit w" and "fraction point f" and "w @ f \<noteq> []"
  shows "hd (w @ point @ suf) \<noteq> CHR ''+'' \<and> hd (w @ point @ suf) \<noteq> CHR ''-''"
  using assms by (cases w; cases point) (auto simp: fraction_def dest: is_digit_sign)

lemma parse_literal:
  assumes "sign_of sg = Some i" and "list_all is_digit w" and "fraction point f" and "w @ f \<noteq> []"
    and "stops suf" and "int (length f) < 2 ^ 31"
  shows "parse (sg @ w @ point @ suf) =
    (case interpret_suffix suf of
       None \<Rightarrow> Inl (if int (digits_val (w @ f)) > i128_max then ErrMantissaOverflow else ErrSuffix)
     | Some kind \<Rightarrow> parsed_literal i w f kind)"
proof (rule parse_scanned)
  show "sg @ w @ point @ suf \<noteq> []" using literal_nonempty [OF assms(3,4)] by auto
  show "take_sign (sg @ w @ point @ suf) = (i, w @ point @ suf)"
    using take_sign_literal [OF assms(1)] literal_no_sign [OF assms(2,3,4)] by blast
  show "take_number (w @ point @ suf) = (w, f, suf)"
    using take_number_literal [OF assms(2,3,5)] .
qed (use assms in auto)

lemma apply_suffix_val:
  assumes "apply_suffix m s kind = Inr q" and "kind_ok kind"
  shows "qval q = val m s * 10 powi kind_pow kind * 2 ^ kind_bin kind"
  using assms
  by (auto simp: apply_suffix_def qval_def val_def kind_pow_def kind_bin_def power_int_add
      split: suffix_kind.splits option.splits if_splits)

lemma literal_val_eq:
  "val (int (digits_val (w @ f)) * i) (- int (length f)) * 10 powi p * 2 ^ b = literal_val i w f p b"
  by (simp add: val_def literal_val_def power_int_minus field_simps)

lemma parse_accepts_grammar:
  assumes "parse s = Inr q" and "int (length s) < 2 ^ 31"
  shows "\<exists>n p. denotes s n p (qval q)"
proof -
  obtain i rest where ts: "take_sign s = (i, rest)" by fastforce
  obtain w f suf where tn: "take_number rest = (w, f, suf)" by (metis prod_cases3)
  obtain sg where sg: "s = sg @ rest" "sign_of sg = Some i" using take_sign_split [OF ts] by blast
  obtain point where pt: "rest = w @ point @ suf" "list_all is_digit w" "fraction point f"
    using take_number_split [OF tn] by blast
  have ne: "s \<noteq> []" "w @ f \<noteq> []"
    using assms(1) ts tn by (auto simp: parse_def Let_def split: if_splits)
  have "length f \<le> length s" using sg(1) pt(1,3) by (auto simp: fraction_def)
  then have len: "int (length f) < 2 ^ 31" using assms(2) by linarith
  obtain kind where kind: "interpret_suffix suf = Some kind" "parsed_literal i w f kind = Inr q"
    using assms(1) parse_scanned [OF ne(1) ts tn ne(2) len] by (auto split: option.splits)
  have "qval q = literal_val i w f (kind_pow kind) (kind_bin kind)"
    using kind(2) interpret_sound [OF kind(1)] apply_suffix_val literal_val_eq
    by (fastforce simp: parsed_literal_def split: if_splits)
  then show ?thesis
    using denotes.intros [OF sg(2) pt(2,3) ne(2)] interpret_sound [OF kind(1)] sg(1) pt(1) by metis
qed

section \<open>Printed mantissas\<close>

lemma parse_shown:
  assumes "\<bar>m\<bar> \<le> i128_max" and "stops suf" and "interpret_suffix suf = Some kind"
  shows "parse (show_int m @ suf) = apply_suffix m 0 kind"
proof -
  obtain sg j where sg: "show_int m = sg @ show_nat (nat \<bar>m\<bar>)" "sign_of sg = Some j" "j * \<bar>m\<bar> = m"
    using show_int_literal by blast
  have "fraction [] []" by (simp add: fraction_def)
  then have "parse (sg @ show_nat (nat \<bar>m\<bar>) @ [] @ suf) = parsed_literal j (show_nat (nat \<bar>m\<bar>)) [] kind"
    using parse_literal [of sg j "show_nat (nat \<bar>m\<bar>)" "[]" "[]" suf] show_nat_digits [of "nat \<bar>m\<bar>"] sg(2) assms(2,3)
    by simp
  moreover have "int (digits_val (show_nat (nat \<bar>m\<bar>))) = \<bar>m\<bar>" using show_nat_digits by simp
  ultimately show ?thesis
    using sg assms(1) by (simp add: parsed_literal_def mult.commute)
qed

lemma exponent_suffix:
  assumes "fits32 e"
  shows "interpret_suffix (''e'' @ show_int e) = Some (SuffixDecimalExponent e)" and "stops (''e'' @ show_int e)"
  using parse_int_shown [of fits32, OF assms] by (simp_all add: interpret_suffix_cases stops_def)

text \<open>A string that parses back to a value.\<close>

definition reads_as :: "string \<Rightarrow> rat \<Rightarrow> bool" where
  "reads_as s v \<longleftrightarrow> (\<exists>q. parse s = Inr q \<and> qval q = v)"

lemma reads_shown:
  assumes "\<bar>m\<bar> \<le> i128_max" and "stops suf" and "interpret_suffix suf = Some kind"
    and "fits32 (kind_pow kind)" and "kind_ok kind" and "fits128 (m * 2 ^ kind_bin kind)"
  shows "reads_as (show_int m @ suf) (val m 0 * 10 powi kind_pow kind * 2 ^ kind_bin kind)"
proof -
  obtain q where q: "apply_suffix m 0 kind = Inr q"
    using assms(4-6)
    by (cases kind) (auto simp: apply_suffix_def kind_pow_def kind_bin_def kind_ok_def checked32_def checked128_def)
  then show ?thesis
    using parse_shown [OF assms(1-3)] apply_suffix_val [OF q assms(5)] by (simp add: reads_as_def)
qed

section \<open>Canonical strings\<close>

lemma reads_exponent:
  assumes "\<bar>m\<bar> \<le> i128_max" and "fits32 s"
  shows "reads_as (show_int m @ ''e'' @ show_int s) (val m s)"
  using reads_shown [OF assms(1) exponent_suffix(2) [OF assms(2)] exponent_suffix(1) [OF assms(2)]] assms
  by (simp add: kind_pow_def kind_bin_def kind_ok_def val_def) (simp add: int_limits abs_le_iff)

lemma reads_plain: "\<bar>m\<bar> \<le> i128_max \<Longrightarrow> reads_as (show_int m) (val m 0)"
  using reads_shown [of m "''''" "SuffixDecimalSI 0"]
  by (simp add: interpret_suffix_def stops_def kind_pow_def kind_bin_def kind_ok_def)
     (simp add: int_limits abs_le_iff)

lemma strip_loop_spec:
  assumes "m \<noteq> 0" and "\<bar>m\<bar> < 10 ^ n" and "s + int n \<le> i32_max" and "i32_min \<le> s"
  shows "\<exists>m' s'. strip_loop m s = (m', s') \<and> val m' s' = val m s \<and> m' \<noteq> 0 \<and> \<not> 10 dvd m' \<and> \<bar>m'\<bar> \<le> \<bar>m\<bar>
    \<and> s \<le> s' \<and> s' \<le> s + int n"
  using assms
proof (induction m s arbitrary: n rule: strip_loop.induct)
  case (1 m s)
  show ?case
  proof (cases "trem m 10 = 0")
    case False
    then show ?thesis using 1 by (simp add: strip_loop.simps trem_zero_iff)
  next
    case True
    define k where "k = tdiv m 10"
    have m: "m = k * 10" using True by (simp add: k_def tdiv_exact trem_zero_iff)
    obtain n' where n: "n = Suc n'" using 1(2,3) by (cases n) auto
    have sat: "saturate32 (s + 1) = s + 1" using 1(4,5) n by (simp add: saturate32_def)
    have "\<exists>m' s'. strip_loop k (s + 1) = (m', s') \<and> val m' s' = val k (s + 1) \<and> m' \<noteq> 0 \<and> \<not> 10 dvd m'
        \<and> \<bar>m'\<bar> \<le> \<bar>k\<bar> \<and> s + 1 \<le> s' \<and> s' \<le> s + 1 + int n'"
    proof -
      have "k \<noteq> 0" "\<bar>k\<bar> < 10 ^ n'" "s + 1 + int n' \<le> i32_max" "i32_min \<le> s + 1"
        using 1(2-5) m n by auto
      then show ?thesis using 1(1) [of n'] 1(2) True unfolding sat k_def by blast
    qed
    moreover have "val k (s + 1) = val m s" using m by (simp add: val_def power_int_add)
    moreover have "strip_loop m s = strip_loop k (s + 1)"
      using True 1(2) sat by (simp add: strip_loop.simps [of m s] k_def)
    moreover have "\<bar>k\<bar> \<le> \<bar>m\<bar>" using m by simp
    ultimately show ?thesis using n by auto
  qed
qed

lemma small_fits: "\<bar>m\<bar> \<le> 10 ^ 38 \<Longrightarrow> fits128 m \<and> \<bar>m\<bar> \<le> i128_max"
  by (auto simp: int_limits abs_le_iff)

lemma strip_spec:
  assumes "m \<noteq> 0" and "\<bar>m\<bar> \<le> 10 ^ 36" and "fits32 s" and "s \<le> i32_max - 40"
  obtains m' s' where "strip_trailing_zeros m s = (m', s')" "val m' s' = val m s" "m' \<noteq> 0" "\<not> 10 dvd m'"
    "\<bar>m'\<bar> \<le> 10 ^ 36" "s \<le> s'" "s' \<le> s + 37" "m = m' * 10 ^ nat (s' - s)"
proof -
  have "\<bar>m\<bar> < 10 ^ 37" using assms(2) by simp
  then obtain m' s' where "strip_loop m s = (m', s')" and v: "val m' s' = val m s" and "m' \<noteq> 0" "\<not> 10 dvd m'"
    "\<bar>m'\<bar> \<le> \<bar>m\<bar>" and le: "s \<le> s'" and "s' \<le> s + 37"
    using strip_loop_spec [of m 37 s] assms by (auto simp: fits32_def)
  moreover have "m = m' * 10 ^ nat (s' - s)" using val_shift [OF le, of m'] v by simp
  ultimately show thesis using that assms(1,2) by (simp add: strip_trailing_zeros_def)
qed

lemma canonical_exponent_reads:
  assumes "m \<noteq> 0" and "\<bar>m\<bar> \<le> 10 ^ 36" and "i32_min + 2 \<le> s" and "s \<le> i32_max - 40"
  shows "reads_as (canonical_decimal_exponent m s) (val m s)"
proof -
  have "fits32 s" using assms(3,4) by (simp add: fits32_def)
  from strip_spec [OF assms(1,2) this assms(4)]
  obtain m' s' where strip: "strip_trailing_zeros m s = (m', s')" and v: "val m' s' = val m s"
    and m': "\<bar>m'\<bar> \<le> 10 ^ 36" and s': "s \<le> s'" "s' \<le> s + 37" by metis
  have printed: "reads_as (if s'' = 0 then show_int m'' else show_int m'' @ ''e'' @ show_int s'') (val m s)"
    if "val m'' s'' = val m s" "\<bar>m''\<bar> \<le> 10 ^ 38" "fits32 s''" for m'' s''
    using reads_plain [of m''] reads_exponent [of m'' s''] small_fits [of m''] that by auto
  consider "trem s' 3 = 1 \<or> trem s' 3 = - 2" | "trem s' 3 = 2 \<or> trem s' 3 = - 1"
    | "trem s' 3 \<notin> {1, - 2, 2, - 1}" by blast
  then show ?thesis
  proof cases
    case 1
    have "fits32 (s' - 1)" using s' assms(3,4) by (simp add: fits32_def)
    moreover have "\<bar>m' * 10\<bar> \<le> 10 ^ 38" using m' by (simp add: abs_mult)
    moreover have "val (m' * 10) (s' - 1) = val m s" using val_shift [of "s' - 1" s' m'] v by simp
    ultimately show ?thesis
      using 1 printed [of "m' * 10" "s' - 1"] small_fits [of "m' * 10"]
      by (simp add: canonical_decimal_exponent_def strip Let_def wrap32_fits wrap128_fits)
  next
    case 2
    have "fits32 (s' - 2)" using s' assms(3,4) by (simp add: fits32_def)
    moreover have "\<bar>m' * 100\<bar> \<le> 10 ^ 38" using m' by (simp add: abs_mult)
    moreover have "val (m' * 100) (s' - 2) = val m s" using val_shift [of "s' - 2" s' m'] v by simp
    ultimately show ?thesis
      using 2 printed [of "m' * 100" "s' - 2"] small_fits [of "m' * 100"]
      by (auto simp: canonical_decimal_exponent_def strip Let_def wrap32_fits wrap128_fits)
  next
    case 3
    have "fits32 s'" using s' assms(3,4) by (simp add: fits32_def)
    then show ?thesis
      using 3 printed [of m' s'] v m' by (simp add: canonical_decimal_exponent_def strip Let_def)
  qed
qed

lemma si_suffix_reads:
  assumes "t \<in> set valid_scales"
  shows "\<exists>suf. decimal_si_suffix t = Some suf \<and> interpret_suffix suf = Some (SuffixDecimalSI t) \<and> stops suf"
  using assms unfolding valid_scales_def
  by (auto simp: decimal_si_suffix_def interpret_suffix_cases suffix_table_def parse_int_Nil stops_def is_digit_def)

lemma shown_si_reads:
  assumes "\<bar>m\<bar> \<le> 10 ^ 38" and "t \<in> set valid_scales" and "decimal_si_suffix t = Some suf"
  shows "reads_as (show_int m @ suf) (val m t)"
proof -
  have suf: "interpret_suffix suf = Some (SuffixDecimalSI t)" "stops suf"
    using si_suffix_reads [OF assms(2)] assms(3) by auto
  moreover have "fits32 t" using assms(2) by (auto simp: valid_scales_def int_limits)
  ultimately show ?thesis
    using reads_shown [of m suf "SuffixDecimalSI t"] small_fits [OF assms(1)]
    by (simp add: kind_pow_def kind_bin_def kind_ok_def val_def)
qed

lemma shifted_up_reads:
  assumes "\<bar>m * 10 ^ k\<bar> \<le> 10 ^ 38" and "k \<le> 38" and "t \<in> set valid_scales"
  shows "\<exists>str. shifted_up m k t = Some str \<and> reads_as str (val (m * 10 ^ k) t)"
proof -
  obtain suf where "decimal_si_suffix t = Some suf" using si_suffix_reads [OF assms(3)] by blast
  then show ?thesis
    using shown_si_reads [OF assms(1,3)] small_fits [OF assms(1)] assms(2)
    by (simp add: shifted_up_def checked_pow10_def checked128_def pow10_fits)
qed

lemma find_scale:
  assumes "- 9 \<le> s"
  shows "\<exists>t. find (\<lambda>v. v \<le> s) (rev valid_scales) = Some t \<and> t \<in> set valid_scales \<and> t \<le> s \<and> (s - t \<le> 2 \<or> t = 18)"
  using assms by (simp add: valid_scales_def)

lemma find_scale_None: "s < - 9 \<Longrightarrow> find (\<lambda>v. v \<le> s) (rev valid_scales) = None"
  by (simp add: valid_scales_def)

lemma canonical_si_reads:
  assumes "m \<noteq> 0" and "\<bar>m\<bar> \<le> 10 ^ 36" and "- 47 \<le> s" and "s \<le> 18"
  shows "\<exists>str. canonical_decimal_si m s = Some str \<and> reads_as str (val m s)"
proof -
  have fits: "fits32 s" "s \<le> i32_max - 40" "i32_min + 2 \<le> s" using assms(3,4) by (simp_all add: int_limits)
  from strip_spec [OF assms(1,2) fits(1,2)]
  obtain m' s' where strip: "strip_trailing_zeros m s = (m', s')" and v: "val m' s' = val m s"
    and m': "\<bar>m'\<bar> \<le> 10 ^ 36" "\<not> 10 dvd m'" and s': "s \<le> s'" "s' \<le> s + 37" and m: "m = m' * 10 ^ nat (s' - s)"
    by metis
  show ?thesis
  proof (cases "- 9 \<le> s'")
    case True
    then obtain t where t: "find (\<lambda>v. v \<le> s') (rev valid_scales) = Some t" "t \<in> set valid_scales" "t \<le> s'"
      "s' - t \<le> 2 \<or> t = 18" using find_scale by blast
    have "10 ^ nat (s' - t) \<le> (if s' - t \<le> 2 then 10 ^ 2 else (10::int) ^ nat (s' - s))"
    proof (cases "s' - t \<le> 2")
      case True
      have "(10::int) ^ nat (s' - t) \<le> 10 ^ 2" using True by (intro power_increasing) auto
      then show ?thesis using True by simp
    next
      case False
      then show ?thesis using t(4) assms(4) by (auto intro!: power_increasing)
    qed
    then have "\<bar>m'\<bar> * 10 ^ nat (s' - t) \<le> \<bar>m'\<bar> * (if s' - t \<le> 2 then 10 ^ 2 else 10 ^ nat (s' - s))"
      by (rule mult_left_mono) simp
    also have "\<dots> \<le> 10 ^ 38" using m'(1) assms(2) m by (auto simp: abs_mult)
    finally have "\<bar>m' * 10 ^ nat (s' - t)\<bar> \<le> 10 ^ 38" by (simp add: abs_mult)
    moreover have "nat (s' - t) \<le> 38" using t(4) s'(2) assms(4) by auto
    ultimately show ?thesis
      using shifted_up_reads [of m' "nat (s' - t)", OF _ _ t(2)] val_shift [OF t(3), of m'] v
      by (simp add: canonical_decimal_si_def strip t(1))
  next
    case False
    then have k: "nat (- 9 - s') \<le> 38" "0 < nat (- 9 - s')" using s'(1) assms(3) by auto
    then have "\<not> 10 ^ nat (- 9 - s') dvd m'" using m'(2) by (meson dvd_power dvd_trans)
    moreover have "\<not> last valid_scales < s'" using False by (simp add: valid_scales_def)
    ultimately show ?thesis
      using canonical_exponent_reads [OF assms(1,2) fits(3,2)] k False
      by (simp add: canonical_decimal_si_def strip find_scale_None checked_pow10_def checked128_def pow10_fits
          trem_zero_iff)
  qed
qed

lemma binary_loop_spec:
  "k \<le> 6 \<Longrightarrow> \<exists>v' k'. binary_loop v k = (v', k') \<and> k \<le> k' \<and> k' \<le> 6 \<and> v = v' * 1024 ^ (k' - k)"
proof (induction v k rule: binary_loop.induct)
  case (1 v k)
  show ?case
  proof (cases "k < 6 \<and> trem v 1024 = 0")
    case True
    then obtain v' k' where IH: "binary_loop (tdiv v 1024) (k + 1) = (v', k')" "k + 1 \<le> k'" "k' \<le> 6"
      "tdiv v 1024 = v' * 1024 ^ (k' - (k + 1))" using 1 by auto
    have "v = tdiv v 1024 * 1024" using True by (simp add: tdiv_exact trem_zero_iff)
    also have "\<dots> = v' * 1024 ^ Suc (k' - (k + 1))" using IH(4) by simp
    finally have "v = v' * 1024 ^ (k' - k)" using IH(2) by (simp add: Suc_diff_le [symmetric] del: power_Suc)
    moreover have "binary_loop v k = (v', k')" using IH(1) True by (simp add: binary_loop.simps [of v k])
    ultimately show ?thesis using IH(2,3) by auto
  next
    case False
    then show ?thesis using 1(2) by (auto simp: binary_loop.simps [of v k])
  qed
qed

lemma binary_value_val:
  assumes "binary_value m s = Some v"
  shows "val v 0 = val m s" and "\<bar>m\<bar> \<le> i128_max \<Longrightarrow> fits128 v"
proof -
  have "val v 0 = val m s \<and> (\<bar>m\<bar> \<le> i128_max \<longrightarrow> fits128 v)"
  proof (cases "s \<ge> 0")
    case True
    then have "v = m * 10 ^ nat (s - 0)" "fits128 v" using assms by (auto simp: binary_value_def bind_eq_Some_conv)
    then show ?thesis using val_shift [OF True, of m] by simp
  next
    case False
    then have "10 ^ nat (- s) dvd m" "v = tdiv m (10 ^ nat (- s))"
      using assms by (auto simp: binary_value_def bind_eq_Some_conv trem_zero_iff split: if_splits)
    then have m: "m = v * 10 ^ nat (0 - s)" by (simp add: tdiv_exact)
    then have "val m s = val v 0" using val_shift [of s 0 v] False by simp
    moreover have "\<bar>v\<bar> * 1 \<le> \<bar>v\<bar> * \<bar>10 ^ nat (0 - s)\<bar>" by (intro mult_left_mono) auto
    ultimately show ?thesis using m by (auto simp: int_limits abs_le_iff abs_mult)
  qed
  then show "val v 0 = val m s" and "\<bar>m\<bar> \<le> i128_max \<Longrightarrow> fits128 v" by auto
qed

lemma binary_suffix_reads:
  assumes "1 \<le> k" and "k \<le> 6"
  shows "\<exists>suf. binary_si_suffix k = Some suf \<and> interpret_suffix suf = Some (SuffixBinarySI (10 * int k)) \<and> stops suf"
proof -
  have "k \<in> {1, 2, 3, 4, 5, 6}" using assms by auto
  then show ?thesis
    by (elim insertE emptyE)
       (simp_all add: binary_si_suffix_def interpret_suffix_cases suffix_table_def parse_int_letter stops_def is_digit_def)
qed

lemma canonical_binary_reads:
  assumes "m \<noteq> 0" and "\<bar>m\<bar> \<le> 10 ^ 36" and "- 47 \<le> s" and "s \<le> 18"
  shows "\<exists>str. canonical_binary_si m s = Some str \<and> reads_as str (val m s)"
proof -
  note si = canonical_si_reads [OF assms]
  show ?thesis
  proof (cases "\<exists>v. binary_value m s = Some v \<and> \<not> \<bar>v\<bar> < 1024 \<and> snd (binary_loop v 0) \<noteq> 0")
    case False
    then have "canonical_binary_si m s = canonical_decimal_si m s"
      by (auto simp: canonical_binary_si_def Let_def split: option.splits prod.splits)
    then show ?thesis using si by simp
  next
    case True
    then obtain v where bv: "binary_value m s = Some v" "\<not> \<bar>v\<bar> < 1024" "snd (binary_loop v 0) \<noteq> 0" by blast
    obtain v' k where loop: "binary_loop v 0 = (v', k)" "k \<le> 6" "v = v' * 1024 ^ k"
      using binary_loop_spec [of 0 v] by auto
    have k: "1 \<le> k" using bv(3) loop(1) by simp
    have fits: "fits128 v" using binary_value_val(2) [OF bv(1)] small_fits [of m] assms(2) by simp
    obtain suf where suf: "binary_si_suffix k = Some suf" "interpret_suffix suf = Some (SuffixBinarySI (10 * int k))"
      "stops suf" using binary_suffix_reads [OF k loop(2)] by blast
    have "\<bar>v'\<bar> * 1024 ^ 1 \<le> \<bar>v'\<bar> * 1024 ^ k" using k by (intro mult_left_mono power_increasing) auto
    then have "\<bar>v'\<bar> * 1024 \<le> \<bar>v\<bar>" using loop(3) by (simp add: abs_mult)
    then have small: "\<bar>v'\<bar> \<le> i128_max" using fits by (simp add: int_limits abs_if split: if_splits)
    have pow: "(1024::int) ^ k = 2 ^ nat (10 * int k)" "(1024::rat) ^ k = 2 ^ nat (10 * int k)"
      by (simp_all add: nat_mult_distrib power_mult)
    have "reads_as (show_int v' @ suf) (val v' 0 * 2 ^ nat (10 * int k))"
      using reads_shown [OF small suf(3,2)] fits loop(2,3) k pow(1)
      by (simp add: kind_pow_def kind_bin_def kind_ok_def fits32_def i32_min_def i32_max_def)
    moreover have "val v' 0 * 2 ^ nat (10 * int k) = val m s"
      using binary_value_val(1) [OF bv(1)] loop(3) pow(2) by (simp add: val_def)
    moreover have "canonical_binary_si m s = Some (show_int v' @ suf)"
      using bv loop(1) k suf(1) by (simp add: canonical_binary_si_def)
    ultimately show ?thesis by simp
  qed
qed

lemma apply_suffix_total:
  assumes "fits32 (s + kind_pow kind)" and "kind_ok kind" and "\<bar>m\<bar> < 10 ^ 18"
  shows "\<exists>q. apply_suffix m s kind = Inr q"
proof (cases kind)
  case (SuffixBinarySI e)
  then have e: "10 \<le> e" "e \<le> 60" using assms(2) by (auto simp: kind_ok_def)
  then have "(2::int) ^ nat e \<le> 2 ^ 60" by (intro power_increasing) auto
  then have "\<bar>m\<bar> * 2 ^ nat e \<le> 10 ^ 18 * 2 ^ 60" using assms(3) by (intro mult_mono) auto
  then have "fits128 (m * 2 ^ nat e)"
    using small_fits [of "m * 2 ^ nat e"] by (simp add: abs_mult)
  then show ?thesis using SuffixBinarySI e by (simp add: apply_suffix_def checked128_def)
qed (use assms(1) in \<open>simp_all add: apply_suffix_def checked32_def kind_pow_def\<close>)

lemma parse_complete:
  assumes "denotes s n p v" and "n \<le> 18" and "\<bar>p\<bar> \<le> 2 * 10 ^ 9"
  shows "\<exists>q. parse s = Inr q \<and> qval q = v"
  using assms
proof (induction rule: denotes.induct)
  case (1 sg i w point f suf p b)
  have "fits32 p" using 1(7) by (simp add: int_limits abs_le_iff)
  then obtain kind where kind: "interpret_suffix suf = Some kind" "kind_pow kind = p" "kind_bin kind = b"
    using interpret_complete [OF 1(5)] by blast
  have ok: "kind_ok kind" using interpret_sound [OF kind(1)] by blast
  have digits: "list_all is_digit (w @ f)" using 1(2,3) by (simp add: fraction_def)
  have "digits_val (w @ f) < 10 ^ length (w @ f)" using digits_of_length [OF digits] .
  also have "(10::nat) ^ length (w @ f) \<le> 10 ^ 18" using 1(6) by (intro power_increasing) auto
  finally have d: "digits_val (w @ f) < 10 ^ 18" .
  have "i = 1 \<or> i = - 1" using 1(1) by (auto simp: sign_of_def split: if_splits)
  then have "\<bar>int (digits_val (w @ f)) * i\<bar> < 10 ^ 18" using d by auto
  moreover have "fits32 (- int (length f) + kind_pow kind)"
    using 1(6,7) kind(2) by (simp add: int_limits abs_le_iff)
  ultimately obtain q where q: "apply_suffix (int (digits_val (w @ f)) * i) (- int (length f)) kind = Inr q"
    using apply_suffix_total ok by blast
  moreover have "int (length f) < 2 ^ 31" using 1(6) by simp
  moreover have "\<not> int (digits_val (w @ f)) > i128_max" using d by (simp add: int_limits)
  ultimately have "parse (sg @ w @ point @ suf) = Inr q"
    using parse_literal [OF 1(1-4) suffix_stops [OF 1(5)]] kind(1) by (simp add: parsed_literal_def)
  moreover have "qval q = literal_val i w f p b"
    using apply_suffix_val [OF q ok] literal_val_eq [of w f i p b] kind(2,3) by simp
  ultimately show ?case by blast
qed

lemma canonical_string_reads:
  assumes "\<bar>q_mantissa q\<bar> \<le> 10 ^ 36" and "i32_min + 2 \<le> q_scale q" and "q_scale q \<le> i32_max - 40"
    and "q_format q = DecimalExponent \<or> - 47 \<le> q_scale q \<and> q_scale q \<le> 18"
  shows "\<exists>str. canonical_string q = Some str \<and> reads_as str (qval q)"
proof (cases "q_mantissa q = 0")
  case True
  have "show_int 0 = ''0''" by code_simp
  then show ?thesis
    using True reads_plain [of 0] by (simp add: canonical_string_def qval_def int_limits)
next
  case False
  then show ?thesis
    using canonical_exponent_reads [OF False assms(1-3)] assms(4)
      canonical_si_reads [OF False assms(1)] canonical_binary_reads [OF False assms(1)]
    by (cases "q_format q") (auto simp: canonical_string_def qval_def)
qed

section \<open>Properties\<close>

text \<open>C28. The parser implements the documented grammar: every string it accepts (shorter than \<open>2^31\<close>) is a
  string of the grammar and gets the value the grammar gives it, and every string of the grammar with
  at most 18 digits and an exponent of magnitude at most two billion is accepted with its value.\<close>

theorem quantity_parse_implements_grammar:
  assumes "int (length s) < 2 ^ 31"
  shows "(\<forall>q. parse s = Inr q \<longrightarrow> (\<exists>n p. denotes s n p (qval q)))
    \<and> (\<forall>n p v. denotes s n p v \<longrightarrow> n \<le> 18 \<longrightarrow> \<bar>p\<bar> \<le> 2 * 10 ^ 9 \<longrightarrow> (\<exists>q. parse s = Inr q \<and> qval q = v))"
  using parse_accepts_grammar [OF _ assms] parse_complete by blast


text \<open>Accounting rounds away from zero and saturates: the integer that \<open>parse_resource_value\<close> returns for
  a quantity is its value (times 1000 for \<open>cpu\<close>) rounded away from zero and clamped to \<open>i64\<close>; in
  particular a request that is not zero is never accounted as zero.\<close>

lemma resource_value_rounds_away:
  assumes "parse (trim s) = Inr q" and "quantity_ok q"
  shows "\<exists>n. parse_resource_value s r = Inr n
    \<and> n = clamp i64_min i64_max (round_away (qval q * (if r = ''cpu'' then 1000 else 1)))
    \<and> (qval q \<noteq> 0 \<longrightarrow> n \<noteq> 0)"
proof -
  define v where "v = qval q * (if r = ''cpu'' then 1000 else 1)"
  have "(if r = ''cpu'' then milli_value q else q_value q) = clamp i128_min i128_max (round_away v)"
    using scaled_value_rounds [OF assms(2), of 0] scaled_value_rounds [OF assms(2), of "- 3"]
    by (simp add: milli_value_def q_value_def v_def fits32_def i32_min_def i32_max_def power_int_minus)
  moreover have "clamp i64_min i64_max (clamp i128_min i128_max x) = clamp i64_min i64_max x" for x
    by (simp add: clamp_def int_limits)
  ultimately have "parse_resource_value s r = Inr (clamp i64_min i64_max (round_away v))"
    using assms(1) by (simp add: parse_resource_value_def clamp_def Let_def)
  moreover have "clamp i64_min i64_max (round_away v) \<noteq> 0" if "qval q \<noteq> 0"
  proof -
    have "v \<noteq> 0" using that by (simp add: v_def)
    then have "round_away v < 0 \<or> 0 < round_away v"
      by (auto simp: round_away_def floor_less_iff zero_less_ceiling)
    then show ?thesis by (auto simp: clamp_def int_limits)
  qed
  ultimately show ?thesis by (auto simp: v_def)
qed

text \<open>Addition and subtraction are exact: when they return a quantity its value is the sum or the
  difference, in the format of the left operand unless that is zero; and they do return one whenever
  both mantissas and the result fit at the smaller scale and the scales are at most 38 apart.\<close>

lemma quantity_add_sub_exact:
  "(\<forall>z. q_add x y = Some z \<longrightarrow> qval z = qval x + qval y \<and> q_format z = (if is_zero x then q_format y else q_format x))
   \<and> (\<forall>z. q_sub x y = Some z \<longrightarrow> qval z = qval x - qval y \<and> q_format z = (if is_zero x then q_format y else q_format x))
   \<and> (\<bar>q_scale x - q_scale y\<bar> \<le> 38 \<longrightarrow> \<bar>at_scale x (min (q_scale x) (q_scale y))\<bar> < 2 ^ 126 \<longrightarrow>
       \<bar>at_scale y (min (q_scale x) (q_scale y))\<bar> < 2 ^ 126 \<longrightarrow> q_add x y \<noteq> None \<and> q_sub x y \<noteq> None)"
proof (intro conjI impI allI)
  fix z assume z: "q_add x y = Some z"
  show "qval z = qval x + qval y" "q_format z = (if is_zero x then q_format y else q_format x)"
    using q_add_Some [OF z] by (auto simp: effective_format_def is_zero_def)
next
  fix z assume z: "q_sub x y = Some z"
  show "qval z = qval x - qval y" "q_format z = (if is_zero x then q_format y else q_format x)"
    using q_sub_Some [OF z] by (auto simp: effective_format_def is_zero_def)
next
  let ?c = "min (q_scale x) (q_scale y)"
  assume d: "\<bar>q_scale x - q_scale y\<bar> \<le> 38" and x: "\<bar>at_scale x ?c\<bar> < 2 ^ 126" and y: "\<bar>at_scale y ?c\<bar> < 2 ^ 126"
  have fits: "fits128 (at_scale x ?c)" "fits128 (at_scale y ?c)"
    "fits128 (at_scale x ?c + at_scale y ?c)" "fits128 (at_scale x ?c - at_scale y ?c)"
    using x y by (simp_all add: int_limits abs_less_iff)
  have "align x y = Some (at_scale x ?c, at_scale y ?c, ?c)"
    using fits(1,2) d
    by (auto simp: align_def Let_def bind_eq_Some_conv at_scale_def min_def)
  then show "q_add x y \<noteq> None" "q_sub x y \<noteq> None"
    using fits(3,4) by (simp_all add: q_add_def q_sub_def checked128_def)
qed

text \<open>The comparison is the order of the values when the scales are at most 38 apart and the mantissas
  are below the \<open>i128\<close> maximum; beyond that it is wrong: \<open>1e39\<close> compares as less than \<open>1\<close>, because the
  power of ten wraps.\<close>

lemma quantity_cmp_is_value_order:
  "(\<bar>q_mantissa x\<bar> < i128_max \<longrightarrow> \<bar>q_mantissa y\<bar> < i128_max \<longrightarrow> \<bar>q_scale x - q_scale y\<bar> \<le> 38 \<longrightarrow>
      cmp_value x y = (if qval x < qval y then Less else if qval x = qval y then Equal else Greater))
   \<and> cmp_value \<lparr>q_mantissa = 1, q_scale = 39, q_format = DecimalExponent\<rparr> (from_value 1 DecimalSI) = Less"
proof
  have "cmp_value \<lparr>q_mantissa = 1, q_scale = 39, q_format = DecimalExponent\<rparr> (from_value 1 DecimalSI) = Less"
    by (simp add: cmp_value_def from_value_def scaled_or_saturated_def wrapping_pow10_def wrap128_def
        checked128_def int_cmp_def int_limits)
  then show "cmp_value \<lparr>q_mantissa = 1, q_scale = 39, q_format = DecimalExponent\<rparr> (from_value 1 DecimalSI) = Less" .
qed (simp add: cmp_value_correct rat_cmp_def)

definition tiny_literal :: string where
  "tiny_literal = ''0.'' @ replicate 47 CHR ''0'' @ ''1''"

lemma digits_val_zeros: "digits_val (replicate n CHR ''0'' @ ds) = digits_val ds"
  by (induction n) (simp_all add: digits_val_def digit_val_def)

lemma tiny_parses: "parse tiny_literal = Inr \<lparr>q_mantissa = 1, q_scale = - 48, q_format = DecimalSI\<rparr>"
proof -
  define f where "f = replicate 47 CHR ''0'' @ ''1''"
  have zero: "is_digit CHR ''0''" "is_digit CHR ''1''" by (simp_all add: is_digit_def)
  have lit: "parse ('''' @ ''0'' @ (CHR ''.'' # f) @ '''') =
    (case interpret_suffix '''' of
       None \<Rightarrow> Inl (if int (digits_val (''0'' @ f)) > i128_max then ErrMantissaOverflow else ErrSuffix)
     | Some kind \<Rightarrow> parsed_literal 1 ''0'' f kind)"
    using zero by (intro parse_literal) (auto simp: sign_of_def fraction_def stops_def f_def list_all_iff)
  have "digits_val (''0'' @ f) = 1"
    using digits_val_zero [of f] digits_val_zeros [of 47 "''1''"]
    by (simp add: f_def digits_val_def digit_val_def)
  moreover have "length f = 48" by (simp add: f_def)
  ultimately show ?thesis
    using lit by (simp add: tiny_literal_def f_def [symmetric] interpret_suffix_def parsed_literal_def
        apply_suffix_def checked32_def int_limits)
qed

text \<open>A tiny quantity makes the canonical string panic: the literal with 47 zeros behind the point and then
  a one is accepted by the parser, but printing it runs into the \<open>expect\<close> on the shift factor.\<close>

lemma tiny_quantity_panics:
  "\<exists>q. parse tiny_literal = Inr q \<and> qval q = 1 / 10 ^ 48 \<and> canonical_string q = None"
proof -
  have "strip_trailing_zeros 1 (- 48) = (1, - 48)"
    by (simp add: strip_trailing_zeros_def strip_loop.simps trem_def)
  then have "canonical_decimal_si 1 (- 48) = None"
    by (simp add: canonical_decimal_si_def find_scale_None valid_scales_def checked_pow10_def checked128_def
        int_limits)
  then show ?thesis
    by (simp add: tiny_parses canonical_string_def qval_def val_def power_int_minus divide_simps)
qed

section \<open>Witnesses\<close>

definition one_and_a_half_gi :: quantity where
  "one_and_a_half_gi = \<lparr>q_mantissa = 16106127360, q_scale = - 1, q_format = BinarySI\<rparr>"

lemma denotes_100m: "denotes ''100m'' 3 (- 3) (1 / 10)"
proof -
  have "denotes ('''' @ ''100'' @ '''' @ ''m'') (length (''100'' @ '''')) (- 3) (literal_val 1 ''100'' '''' (- 3) 0)"
    by (intro denotes.intros)
       (auto simp: sign_of_def fraction_def is_digit_def intro: si_suffix)
  moreover have "literal_val 1 ''100'' '''' (- 3) 0 = 1 / 10"
    by (simp add: literal_val_def digits_val_def digit_val_def power_int_minus)
  ultimately show ?thesis by (simp add: numeral_3_eq_3)
qed

theorem quantity_parse_implements_grammar_witness: "\<exists>q. parse ''100m'' = Inr q \<and> qval q = 1 / 10"
proof -
  have "int (length ''100m'') < 2 ^ 31" by simp
  from conjunct2 [OF quantity_parse_implements_grammar [OF this]] show ?thesis
    using denotes_100m by fastforce
qed


text \<open>Trimming leaves a text alone whose first and last byte are visible ASCII characters.\<close>

definition visible :: "char \<Rightarrow> bool" where
  "visible c \<longleftrightarrow> 32 < (of_char c :: nat) \<and> (of_char c :: nat) < 128"

lemma white_space_invisible: "w \<in> set white_space \<Longrightarrow> w \<noteq> [] \<and> \<not> visible (hd w) \<and> \<not> visible (last w)"
  by (auto simp: white_space_def bytes_def upt_rec visible_def)

lemma strip_while_visible:
  assumes "s \<noteq> []" and "\<forall>w \<in> set ws. w \<noteq> [] \<and> \<not> visible (hd w)" and "visible (hd s)"
  shows "strip_while ws s = s"
proof -
  have "\<not> starts_with s w" if "w \<in> set ws" for w
    using assms that by (cases s; cases w) auto
  then have "find (starts_with s) ws = None" by (simp add: find_None_iff)
  then show ?thesis by (simp add: strip_while.simps)
qed

lemma trim_visible: "s \<noteq> [] \<Longrightarrow> visible (hd s) \<Longrightarrow> visible (last s) \<Longrightarrow> trim s = s"
  unfolding trim_def
  by (simp add: strip_while_visible white_space_invisible hd_rev)

lemma parse_half: "parse (trim ''0.5'') = Inr \<lparr>q_mantissa = 5, q_scale = - 1, q_format = DecimalSI\<rparr>"
  by (simp add: trim_visible visible_def parse_def take_sign_def take_number_def is_digit_def
      digits_val_def digit_val_def interpret_suffix_def apply_suffix_def wrap32_def checked32_def int_limits)

lemma ceiling_half: "\<lceil>1 / 2 :: rat\<rceil> = 1"
  by (simp add: ceiling_eq_iff)

end
