(* ===== verification/LeaderElection.thy ===== *)
theory LeaderElection
  imports StorageTypes
begin

text \<open>
  The leader elector (\<^verbatim>\<open>crates/common/src/leaderelection.rs\<close>) and the contract of its lock.

  The lock behind the elector is a record of functions (the trait object \<open>dyn ResourceLock\<close>), each
  taking and returning the state behind it; whatever other processes do to that state may happen
  inside those functions. Clock readings are arguments, in nanoseconds.

  The locale \<open>lock_contract\<close> says what a lock promises a client: a write is accepted only if it
  replaces the record the client saw last. From that alone, a call that fails wrote nothing and a call
  that succeeds made one rightful write.

  Not modelled: the checks of \<open>LeaderElector::new\<close> (a floating point product), the loops \<open>run\<close>,
  \<open>acquire\<close> and \<open>renew\<close> with their sleeps, timeouts and callbacks, and the recording of events.
\<close>

section \<open>The elector\<close>

type_synonym date_time = int

record leader_election_record =
  ler_holder_identity :: string
  ler_lease_duration_seconds :: int
  ler_acquire_time :: date_time
  ler_renew_time :: date_time
  ler_leader_transitions :: int
  ler_preferred_holder :: string
  ler_strategy :: string

definition ler_default :: leader_election_record where
  "ler_default = \<lparr>ler_holder_identity = '''', ler_lease_duration_seconds = 0, ler_acquire_time = 0,
     ler_renew_time = 0, ler_leader_transitions = 0, ler_preferred_holder = '''', ler_strategy = ''''\<rparr>"

record 'st resource_lock =
  rl_get :: "'st \<Rightarrow> (storage_error, leader_election_record) result \<times> 'st"
  rl_create :: "leader_election_record \<Rightarrow> 'st \<Rightarrow> (storage_error, unit) result \<times> 'st"
  rl_update :: "leader_election_record \<Rightarrow> 'st \<Rightarrow> (storage_error, unit) result \<times> 'st"
  rl_describe :: string
  rl_identity :: string

record election_config =
  ec_lease_duration :: int
  ec_renew_deadline :: int
  ec_retry_period :: int
  ec_release_on_cancel :: bool

record observed =
  ob_record :: leader_election_record
  ob_time :: date_time
  ob_reported_leader :: string

definition observed_new :: observed where
  "observed_new = \<lparr>ob_record = ler_default, ob_time = 0, ob_reported_leader = ''''\<rparr>"

definition is_leader :: "'st resource_lock \<Rightarrow> observed \<Rightarrow> bool" where
  "is_leader lock ob \<longleftrightarrow> ler_holder_identity (ob_record ob) = rl_identity lock"

definition get_leader :: "observed \<Rightarrow> string" where
  "get_leader ob = ler_holder_identity (ob_record ob)"

definition is_lease_valid :: "observed \<Rightarrow> date_time \<Rightarrow> bool" where
  "is_lease_valid ob now \<longleftrightarrow> ob_time ob + ler_lease_duration_seconds (ob_record ob) * 1000000000 > now"

definition set_observed :: "observed \<Rightarrow> leader_election_record \<Rightarrow> date_time \<Rightarrow> observed" where
  "set_observed ob record t = ob\<lparr>ob_record := record, ob_time := t\<rparr>"

text \<open>The record a candidate starts from.\<close>

definition own_record :: "'st resource_lock \<Rightarrow> election_config \<Rightarrow> date_time \<Rightarrow> leader_election_record" where
  "own_record lock cfg now =
     ler_default\<lparr>ler_holder_identity := rl_identity lock,
       ler_lease_duration_seconds := wrap32 (ec_lease_duration cfg div 1000000000),
       ler_renew_time := now, ler_acquire_time := now\<rparr>"

text \<open>Steps 2 to 4 of \<open>try_acquire_or_renew\<close>; \<open>t1\<close> and \<open>t2\<close> are the later clock readings.\<close>

definition slow_path ::
  "'st resource_lock \<Rightarrow> leader_election_record \<Rightarrow> observed \<Rightarrow> 'st \<Rightarrow> date_time \<Rightarrow> date_time \<Rightarrow> date_time \<Rightarrow> bool \<times> observed \<times> 'st"
where
  "slow_path lock record ob st now t1 t2 =
     (case rl_get lock st of
        (Inl e, st1) \<Rightarrow>
          (case e of
             NotFound _ \<Rightarrow>
               (case rl_create lock record st1 of
                  (Inl _, st2) \<Rightarrow> (False, ob, st2)
                | (Inr _, st2) \<Rightarrow> (True, set_observed ob record t2, st2))
           | _ \<Rightarrow> (False, ob, st1))
      | (Inr old, st1) \<Rightarrow>
          (let o1 = (if ob_record ob \<noteq> old then ob\<lparr>ob_record := old, ob_time := t1\<rparr> else ob) in
           if ler_holder_identity old \<noteq> '''' \<and> is_lease_valid o1 now \<and> \<not> is_leader lock o1
           then (False, o1, st1)
           else
             (let record1 =
                (if is_leader lock o1
                 then record\<lparr>ler_acquire_time := ler_acquire_time old, ler_leader_transitions := ler_leader_transitions old\<rparr>
                 else record\<lparr>ler_leader_transitions := wrap32 (ler_leader_transitions old + 1)\<rparr>)
              in case rl_update lock record1 st1 of
                   (Inl _, st2) \<Rightarrow> (False, o1, st2)
                 | (Inr _, st2) \<Rightarrow> (True, set_observed o1 record1 t2, st2))))"

definition try_acquire_or_renew ::
  "'st resource_lock \<Rightarrow> election_config \<Rightarrow> observed \<Rightarrow> 'st \<Rightarrow> date_time \<Rightarrow> date_time \<Rightarrow> date_time \<Rightarrow> bool \<times> observed \<times> 'st"
where
  "try_acquire_or_renew lock cfg ob st now t1 t2 =
     (let record = own_record lock cfg now in
      if is_leader lock ob \<and> is_lease_valid ob now
      then
        (let old = ob_record ob;
             record1 = record\<lparr>ler_acquire_time := ler_acquire_time old,
                              ler_leader_transitions := ler_leader_transitions old\<rparr>
         in case rl_update lock record1 st of
              (Inr _, st1) \<Rightarrow> (True, set_observed ob record1 t2, st1)
            | (Inl _, st1) \<Rightarrow> slow_path lock record1 ob st1 now t1 t2)
      else slow_path lock record ob st now t1 t2)"

definition release :: "'st resource_lock \<Rightarrow> observed \<Rightarrow> 'st \<Rightarrow> date_time \<Rightarrow> date_time \<Rightarrow> bool \<times> observed \<times> 'st" where
  "release lock ob st now t2 =
     (case rl_get lock st of
        (Inl _, st1) \<Rightarrow> (False, ob, st1)
      | (Inr old, st1) \<Rightarrow>
          if \<not> is_leader lock ob then (True, ob, st1)
          else
            (let record = ler_default\<lparr>ler_leader_transitions := ler_leader_transitions old,
                   ler_lease_duration_seconds := 1, ler_renew_time := now, ler_acquire_time := now\<rparr>
             in case rl_update lock record st1 of
                  (Inl _, st2) \<Rightarrow> (False, ob, st2)
                | (Inr _, st2) \<Rightarrow> (True, set_observed ob record t2, st2)))"

text \<open>The reported leader and the argument of the \<open>OnNewLeader\<close> callback, if it is called.\<close>

definition maybe_report_transition :: "observed \<Rightarrow> string option \<times> observed" where
  "maybe_report_transition ob =
     (if ler_holder_identity (ob_record ob) = ob_reported_leader ob then (None, ob)
      else (Some (ler_holder_identity (ob_record ob)),
            ob\<lparr>ob_reported_leader := ler_holder_identity (ob_record ob)\<rparr>))"

section \<open>The contract of a lock\<close>

text \<open>The elector is in step with a record: the record it observed last has the same holder and the same
  number of transitions.\<close>

definition agrees :: "observed \<Rightarrow> leader_election_record option \<Rightarrow> bool" where
  "agrees ob v \<longleftrightarrow>
     (\<forall>r. v = Some r \<longrightarrow> ler_holder_identity r = ler_holder_identity (ob_record ob)
        \<and> ler_leader_transitions r = ler_leader_transitions (ob_record ob))"

text \<open>A write of a candidate over the record \<open>old\<close> is rightful: its own lease is renewed with the same
  number of transitions, another one is taken with one more, and then it was free or had expired.\<close>

definition rightful ::
  "string \<Rightarrow> observed \<Rightarrow> date_time \<Rightarrow> date_time \<Rightarrow> leader_election_record option \<Rightarrow> leader_election_record \<Rightarrow> bool" where
  "rightful me ob now t1 old new \<longleftrightarrow>
     ler_holder_identity new = me \<and>
     (\<forall>r. old = Some r \<longrightarrow>
        (if ler_holder_identity r = me then ler_leader_transitions new = ler_leader_transitions r
         else ler_leader_transitions new = wrap32 (ler_leader_transitions r + 1)
           \<and> (ler_holder_identity r = ''''
              \<or> (if ob_record ob = r then \<not> is_lease_valid ob now
                 else t1 + ler_lease_duration_seconds r * 1000000000 \<le> now))))"

text \<open>A lock as its client sees it. \<open>seen\<close> is the record the client would overwrite, \<open>log\<close> the writes the
  client made, each with the record it replaced; a write is accepted only if the record it replaces is
  the one seen. \<open>norm\<close> is what the wire keeps of a record, and \<open>ok k\<close> leaves room for \<open>k\<close> more writes.\<close>

locale lock_contract =
  fixes lock :: "'st resource_lock"
    and seen :: "'st \<Rightarrow> leader_election_record option"
    and log :: "'st \<Rightarrow> (leader_election_record option \<times> leader_election_record) list"
    and ok :: "nat \<Rightarrow> 'st \<Rightarrow> bool"
    and norm :: "leader_election_record \<Rightarrow> leader_election_record"
  assumes get_ok: "ok k st \<Longrightarrow> rl_get lock st = (Inr r, st') \<Longrightarrow> seen st' = Some r \<and> log st' = log st \<and> ok k st'"
    and get_err: "ok k st \<Longrightarrow> rl_get lock st = (Inl e, st') \<Longrightarrow> seen st' = seen st \<and> log st' = log st \<and> ok k st'"
    and update_ok: "ok (Suc k) st \<Longrightarrow> rl_update lock r st = (Inr u, st') \<Longrightarrow>
      seen st \<noteq> None \<and> seen st' = Some (norm r) \<and> log st' = log st @ [(seen st, norm r)] \<and> ok k st'"
    and update_err: "ok (Suc k) st \<Longrightarrow> rl_update lock r st = (Inl e, st') \<Longrightarrow>
      seen st' = seen st \<and> log st' = log st \<and> ok k st'"
    and create_ok: "ok (Suc k) st \<Longrightarrow> rl_create lock r st = (Inr u, st') \<Longrightarrow>
      seen st' = Some (norm r) \<and> log st' = log st @ [(None, norm r)] \<and> ok k st'"
    and create_err: "ok (Suc k) st \<Longrightarrow> rl_create lock r st = (Inl e, st') \<Longrightarrow>
      seen st' = seen st \<and> log st' = log st \<and> ok k st'"
    and weaken: "ok (Suc k) st \<Longrightarrow> ok k st"
    and norm_holder: "ler_holder_identity (norm r) = ler_holder_identity r"
    and norm_transitions: "ler_leader_transitions (norm r) = ler_leader_transitions r"
begin

text \<open>What a call leaves: a success is one rightful write, a failure is none.\<close>

definition outcome :: "observed \<Rightarrow> date_time \<Rightarrow> date_time \<Rightarrow> 'st \<Rightarrow> bool \<Rightarrow> observed \<Rightarrow> 'st \<Rightarrow> bool" where
  "outcome ob now t1 st res ob' st' \<longleftrightarrow>
     ok 0 st' \<and> agrees ob' (seen st') \<and> (res \<longrightarrow> is_leader lock ob')
     \<and> (if res then \<exists>old new. log st' = log st @ [(old, new)] \<and> rightful (rl_identity lock) ob now t1 old new
        else log st' = log st)"

lemma slow_path_outcome:
  assumes ok: "ok 1 st" and ob: "agrees ob (seen st)" and me: "ler_holder_identity r = rl_identity lock"
    and call: "slow_path lock r ob st now t1 t2 = (res, ob', st')"
  shows "outcome ob now t1 st res ob' st'"
proof -
  obtain g st1 where g: "rl_get lock st = (g, st1)" by fastforce
  show ?thesis
  proof (cases g)
    case (Inl e)
    have st1: "seen st1 = seen st" "log st1 = log st" "ok (Suc 0) st1" using get_err [OF ok] g Inl by auto
    obtain c st2 where c: "rl_create lock r st1 = (c, st2)" by fastforce
    have fail: "outcome ob now t1 st False ob w" if "seen w = seen st" "log w = log st" "ok 0 w" for w
      using that ob by (simp add: outcome_def)
    have win: "outcome ob now t1 st True (set_observed ob r t2) st2" if "c = Inr x" for x
      using create_ok [OF st1(3)] c that st1(2) me
      by (auto simp: outcome_def agrees_def rightful_def is_leader_def set_observed_def norm_holder norm_transitions)
    show ?thesis
    proof (cases "\<exists>m. e = NotFound m")
      case True
      then show ?thesis
        using call g Inl c st1 create_err [OF st1(3)] win fail
        by (cases c) (auto simp: slow_path_def)
    next
      case False
      then have "res = False" "ob' = ob" "st' = st1"
        using call g Inl by (auto simp: slow_path_def split: storage_error.splits)
      then show ?thesis using fail st1 weaken [OF st1(3)] by simp
    qed
  next
    case (Inr old)
    have st1: "seen st1 = Some old" "log st1 = log st" "ok (Suc 0) st1" using get_ok [OF ok] g Inr by auto
    define ob1 where "ob1 = (if ob_record ob \<noteq> old then ob\<lparr>ob_record := old, ob_time := t1\<rparr> else ob)"
    define r1 where "r1 = (if is_leader lock ob1
        then r\<lparr>ler_acquire_time := ler_acquire_time old, ler_leader_transitions := ler_leader_transitions old\<rparr>
        else r\<lparr>ler_leader_transitions := wrap32 (ler_leader_transitions old + 1)\<rparr>)"
    have rec1: "ob_record ob1 = old" by (simp add: ob1_def)
    obtain u st2 where u: "rl_update lock r1 st1 = (u, st2)" by fastforce
    have fail: "outcome ob now t1 st False ob1 w" if "seen w = seen st1" "log w = log st" "ok 0 w" for w
      using that st1 rec1 by (simp add: outcome_def agrees_def)
    have win: "outcome ob now t1 st True (set_observed ob1 r1 t2) st2"
      if "u = Inr x" and free: "\<not> (ler_holder_identity old \<noteq> '''' \<and> is_lease_valid ob1 now \<and> \<not> is_leader lock ob1)" for x
    proof -
      have "rightful (rl_identity lock) ob now t1 (Some old) (norm r1)"
        using free me by (auto simp: rightful_def norm_holder norm_transitions r1_def ob1_def is_leader_def is_lease_valid_def)
      moreover have "ler_holder_identity r1 = rl_identity lock" using me by (simp add: r1_def)
      ultimately show ?thesis
        using update_ok [OF st1(3)] u that(1) st1(1,2)
        by (auto simp: outcome_def agrees_def is_leader_def set_observed_def norm_holder norm_transitions)
    qed
    define busy where "busy \<longleftrightarrow> ler_holder_identity old \<noteq> '''' \<and> is_lease_valid ob1 now \<and> \<not> is_leader lock ob1"
    have path: "(res, ob', st') = (if busy then (False, ob1, st1)
        else case u of Inl e \<Rightarrow> (False, ob1, st2) | Inr x \<Rightarrow> (True, set_observed ob1 r1 t2, st2))"
      using call [unfolded slow_path_def g Inr prod.case sum.case Let_def, folded ob1_def, folded r1_def busy_def, unfolded u]
      by (cases u) auto
    have "seen st2 = seen st1 \<and> log st2 = log st \<and> ok 0 st2" if "u = Inl e" for e
      using update_err [OF st1(3)] u that st1(2) by auto
    then show ?thesis
      using path fail [of st1] fail [of st2] win st1(2) weaken [OF st1(3)] busy_def by (cases u; cases busy) auto
  qed
qed

lemma call_outcome:
  assumes ok: "ok 2 st" and ob: "agrees ob (seen st)"
    and call: "try_acquire_or_renew lock cfg ob st now t1 t2 = (res, ob', st')"
  shows "outcome ob now t1 st res ob' st'"
proof (cases "is_leader lock ob \<and> is_lease_valid ob now")
  case False
  have "ok 1 st" using weaken [of 1 st] ok by (simp add: numeral_2_eq_2)
  moreover have "slow_path lock (own_record lock cfg now) ob st now t1 t2 = (res, ob', st')"
    using call False by (simp add: try_acquire_or_renew_def Let_def split: if_splits)
  moreover have "ler_holder_identity (own_record lock cfg now) = rl_identity lock" by (simp add: own_record_def)
  ultimately show ?thesis using slow_path_outcome ob by blast
next
  case True
  define r where "r = (own_record lock cfg now)\<lparr>ler_acquire_time := ler_acquire_time (ob_record ob),
      ler_leader_transitions := ler_leader_transitions (ob_record ob)\<rparr>"
  have me: "ler_holder_identity r = rl_identity lock" by (simp add: r_def own_record_def)
  have ok2: "ok (Suc 1) st" using ok by (simp add: numeral_2_eq_2)
  obtain u st1 where u: "rl_update lock r st = (u, st1)" by fastforce
  show ?thesis
  proof (cases u)
    case (Inl e)
    have st1: "seen st1 = seen st" "log st1 = log st" "ok 1 st1" using update_err [OF ok2] u Inl by auto
    have "slow_path lock r ob st1 now t1 t2 = (res, ob', st')"
      using call True u Inl by (simp add: try_acquire_or_renew_def Let_def r_def)
    from slow_path_outcome [OF st1(3) _ me this] show ?thesis
      using ob st1(1) unfolding outcome_def st1(2) by simp
  next
    case (Inr x)
    have res: "res" "ob' = set_observed ob r t2" "st' = st1"
      using call True u Inr by (simp_all add: try_acquire_or_renew_def Let_def r_def)
    have up: "seen st \<noteq> None" "seen st1 = Some (norm r)" "log st1 = log st @ [(seen st, norm r)]" "ok 1 st1"
      using update_ok [OF ok2] u Inr by auto
    have "rightful (rl_identity lock) ob now t1 (seen st) (norm r)"
      using ob True me by (auto simp: rightful_def agrees_def is_leader_def norm_holder norm_transitions r_def)
    then show ?thesis
      using res up weaken [of 0 st1] me
      by (auto simp: outcome_def agrees_def is_leader_def set_observed_def norm_holder norm_transitions)
  qed
qed

text \<open>A release by a candidate that believes to lead is one write too, whatever it replaces.\<close>

lemma release_outcome:
  assumes ok: "ok 1 st" and call: "release lock ob st now t2 = (res, ob', st')"
  shows "log st' = log st \<or> (res \<and> is_leader lock ob \<and>
    (\<exists>old new. log st' = log st @ [(Some old, new)] \<and> ler_holder_identity new = ''''
       \<and> ler_leader_transitions new = ler_leader_transitions old))"
proof -
  obtain g st1 where g: "rl_get lock st = (g, st1)" by fastforce
  show ?thesis
  proof (cases g)
    case (Inl e)
    then show ?thesis using get_err [OF ok] call g by (auto simp: release_def)
  next
    case (Inr old)
    have st1: "seen st1 = Some old" "log st1 = log st" "ok (Suc 0) st1" using get_ok [OF ok] g Inr by auto
    define r where "r = ler_default\<lparr>ler_leader_transitions := ler_leader_transitions old,
                   ler_lease_duration_seconds := 1, ler_renew_time := now, ler_acquire_time := now\<rparr>"
    have r: "ler_holder_identity (norm r) = ''''" "ler_leader_transitions (norm r) = ler_leader_transitions old"
      by (simp_all add: norm_holder norm_transitions r_def ler_default_def)
    obtain u st2 where u: "rl_update lock r st1 = (u, st2)" by fastforce
    show ?thesis
      using call g Inr u st1 r update_ok [OF st1(3)] update_err [OF st1(3)]
      by (auto simp: release_def Let_def r_def [symmetric] split: if_splits sum.splits)
  qed
qed

end

end
