(* ===== verification/MemoryStorage.thy ===== *)
theory MemoryStorage
  imports StorageTypes
begin

text \<open>
  The in-memory storage backend (\<^verbatim>\<open>crates/storage/src/memory.rs\<close>): a key-value map of serialised objects
  with optimistic concurrency on \<open>metadata.resourceVersion\<close>, a bounded history of events for watches and
  of undo entries for reads at an earlier revision, and expiring keys.

  \<open>serde_json\<close> is a parameter: \<open>ser\<close> prints a value, \<open>de\<close> parses a text; objects are handed in as their
  JSON value (\<open>T = serde_json::Value\<close>). Fresh UIDs and clock readings are arguments. A write is the
  composition of its critical sections, \<open>*_commit\<close> under the data lock and \<open>finish_write\<close> (expiry table,
  history) behind it, so that interleavings of writers can be stated. The event bus is the sequence of
  published events; its receivers are tokio's. The number of writes stays below the range of the
  \<open>i64\<close> revision where a theorem says so.

  Not modelled: \<open>apply\<close> (server-side apply of the field manager) and the \<open>AuthzStorage\<close> lookups by type
  name.
\<close>

section \<open>Definitions\<close>

definition default_history_capacity :: nat where
  "default_history_capacity = 1000"

record 'x history =
  hi_events :: "(int \<times> 'x watch_event) list"
  hi_capacity :: nat
  hi_evicted_floor :: int
  hi_undo :: "(int \<times> string \<times> 'x option) list"

record 'x memory_storage =
  ms_history :: "'x history"
  ms_data :: "string \<rightharpoonup> 'x"
  ms_bus :: "'x watch_event list"
  ms_conflict_update_count :: nat
  ms_reject_apply :: bool
  ms_apply_calls :: nat
  ms_compacted_revision :: int
  ms_revision :: int
  ms_expiries :: "string \<rightharpoonup> nat"
  ms_expiry_generation :: nat

definition with_history_capacity :: "nat \<Rightarrow> 'x memory_storage" where
  "with_history_capacity capacity =
     \<lparr>ms_history = \<lparr>hi_events = [], hi_capacity = max capacity 1, hi_evicted_floor = 0, hi_undo = []\<rparr>,
      ms_data = Map.empty, ms_bus = [], ms_conflict_update_count = 0, ms_reject_apply = False,
      ms_apply_calls = 0, ms_compacted_revision = 0, ms_revision = 1, ms_expiries = Map.empty,
      ms_expiry_generation = 0\<rparr>"

definition ms_new :: "'x memory_storage" where
  "ms_new = with_history_capacity default_history_capacity"

text \<open>\<open>set_ttl\<close>; the timer it arms is \<open>ttl_timer\<close> below, with the generation it captured.\<close>

definition set_ttl :: "'x memory_storage \<Rightarrow> string \<Rightarrow> nat \<Rightarrow> 'x memory_storage" where
  "set_ttl s key ttl =
     (if ttl = 0 then s\<lparr>ms_expiries := (ms_expiries s)(key := None)\<rparr>
      else
        (let generation = (ms_expiry_generation s + 1) mod 2 ^ 64
         in s\<lparr>ms_expiry_generation := generation, ms_expiries := (ms_expiries s)(key \<mapsto> generation)\<rparr>))"

definition push_event :: "'x history \<Rightarrow> int \<Rightarrow> 'x watch_event \<Rightarrow> 'x option \<Rightarrow> 'x history" where
  "push_event h revision event previous =
     (let h1 =
        (if length (hi_events h) \<ge> hi_capacity h
         then (case hi_events h of
                 [] \<Rightarrow> h\<lparr>hi_undo := drop 1 (hi_undo h)\<rparr>
               | (r, _) # rest \<Rightarrow>
                   h\<lparr>hi_events := rest, hi_evicted_floor := max (hi_evicted_floor h) r,
                     hi_undo := drop 1 (hi_undo h)\<rparr>)
         else h)
      in h1\<lparr>hi_undo := hi_undo h1 @ [(revision, ev_key event, previous)],
            hi_events := hi_events h1 @ [(revision, event)]\<rparr>)"

definition emit :: "'x memory_storage \<Rightarrow> int \<Rightarrow> 'x watch_event \<Rightarrow> 'x option \<Rightarrow> 'x memory_storage" where
  "emit s revision event previous =
     s\<lparr>ms_history := push_event (ms_history s) revision event previous, ms_bus := ms_bus s @ [event]\<rparr>"

definition stamp_revision :: "'x memory_storage \<Rightarrow> json \<Rightarrow> string \<times> json \<times> 'x memory_storage" where
  "stamp_revision s value =
     (let r = wrap64 (ms_revision s + 1); rv = mod_revision_to_resource_version r
      in (rv, set_metadata ''resourceVersion'' (JString rv) value, s\<lparr>ms_revision := r\<rparr>))"

definition compact_to :: "'x memory_storage \<Rightarrow> int \<Rightarrow> 'x memory_storage" where
  "compact_to s revision = s\<lparr>ms_compacted_revision := revision\<rparr>"

definition ms_clear :: "'x memory_storage \<Rightarrow> 'x memory_storage" where
  "ms_clear s = s\<lparr>ms_data := Map.empty\<rparr>"

definition ms_len :: "'x memory_storage \<Rightarrow> nat" where
  "ms_len s = card (dom (ms_data s))"

definition ms_is_empty :: "'x memory_storage \<Rightarrow> bool" where
  "ms_is_empty s \<longleftrightarrow> ms_data s = Map.empty"

definition inject_conflicts :: "'x memory_storage \<Rightarrow> nat \<Rightarrow> 'x memory_storage" where
  "inject_conflicts s n = s\<lparr>ms_conflict_update_count := n\<rparr>"

definition reject_apply_as_unsupported_media_type :: "'x memory_storage \<Rightarrow> bool \<Rightarrow> 'x memory_storage" where
  "reject_apply_as_unsupported_media_type s reject = s\<lparr>ms_reject_apply := reject\<rparr>"

text \<open>\<open>rev.parse().unwrap_or_default()\<close>\<close>

definition parse_rev :: "string \<Rightarrow> int" where
  "parse_rev rv = (case parse_i64 rv of None \<Rightarrow> 0 | Some r \<Rightarrow> r)"

text \<open>What a committed write still has to publish: its revision, event and the value it replaced.\<close>

type_synonym 'x pending = "int \<times> 'x watch_event \<times> 'x option"

definition publish :: "'x memory_storage \<Rightarrow> 'x pending \<Rightarrow> 'x memory_storage" where
  "publish s p = (case p of (r, event, previous) \<Rightarrow> emit s r event previous)"

subsection \<open>Create\<close>

definition fill_metadata :: "string \<Rightarrow> string \<Rightarrow> json \<Rightarrow> json" where
  "fill_metadata uid now value =
     (case metadata_obj value of
        None \<Rightarrow> value
      | Some mm \<Rightarrow>
          (let should_generate_uid =
                 (case map_of mm ''uid'' of Some (JString s) \<Rightarrow> s = '''' | _ \<Rightarrow> True);
               mm1 = (if should_generate_uid then obj_insert ''uid'' (JString uid) mm else mm);
               unset = (case map_of mm1 ''creationTimestamp'' of None \<Rightarrow> True | Some x \<Rightarrow> x = JNull);
               mm2 = (if unset then obj_insert ''creationTimestamp'' (JString now) mm1 else mm1)
           in with_metadata value mm2))"

text \<open>Stamping a create consumes a revision before the data lock is taken; the insertion checks again.\<close>

definition create_commit ::
  "(json \<Rightarrow> 'x) \<Rightarrow> 'x memory_storage \<Rightarrow> string \<Rightarrow> string \<Rightarrow> json \<Rightarrow> (storage_error, 'x pending) result \<times> 'x memory_storage"
where
  "create_commit ser s key rv value_json =
     (if ms_data s key \<noteq> None then (Inl (AlreadyExists key), s)
      else
        (let serialized = ser value_json
         in (Inr (parse_rev rv, EvAdded key serialized, None), s\<lparr>ms_data := (ms_data s)(key \<mapsto> serialized)\<rparr>)))"

definition decode :: "('x \<Rightarrow> json option) \<Rightarrow> 'x \<Rightarrow> (storage_error, json) result" where
  "decode de text = (case de text of None \<Rightarrow> Inl Serialization | Some v \<Rightarrow> Inr v)"

definition create_with_ttl ::
  "(json \<Rightarrow> 'x) \<Rightarrow> ('x \<Rightarrow> json option) \<Rightarrow> string \<Rightarrow> string \<Rightarrow> 'x memory_storage \<Rightarrow> string \<Rightarrow> json \<Rightarrow> nat \<Rightarrow>
   (storage_error, json) result \<times> 'x memory_storage"
where
  "create_with_ttl ser de uid now s key value ttl =
     (let value_json = fill_metadata uid now value in
      if ms_data s key \<noteq> None then (Inl (AlreadyExists key), s)
      else
        (let (rv, value_json, s1) = stamp_revision s value_json in
         case create_commit ser s1 key rv value_json of
           (Inl e, s2) \<Rightarrow> (Inl e, s2)
         | (Inr p, s2) \<Rightarrow> (decode de (ev_value (fst (snd p))), publish (set_ttl s2 key ttl) p)))"

definition ms_create where
  "ms_create ser de uid now s key value = create_with_ttl ser de uid now s key value 0"

definition ms_get :: "('x \<Rightarrow> json option) \<Rightarrow> 'x memory_storage \<Rightarrow> string \<Rightarrow> (storage_error, json) result" where
  "ms_get de s key = (case ms_data s key of None \<Rightarrow> Inl (NotFound key) | Some v \<Rightarrow> decode de v)"

subsection \<open>Update\<close>

definition update_commit ::
  "(json \<Rightarrow> 'x) \<Rightarrow> ('x \<Rightarrow> json option) \<Rightarrow> 'x memory_storage \<Rightarrow> string \<Rightarrow> json \<Rightarrow>
   (storage_error, 'x pending) result \<times> 'x memory_storage"
where
  "update_commit ser de s key value =
     (let incoming_rv = resource_version_of value in
      case ms_data s key of
        None \<Rightarrow> (Inl (NotFound key), s)
      | Some stored \<Rightarrow>
          (let stored_rv = (case de stored of None \<Rightarrow> None | Some v \<Rightarrow> resource_version_of v) in
           if incoming_rv \<noteq> None \<and> stored_rv \<noteq> None \<and> stored_rv \<noteq> incoming_rv then (Inl Conflict, s)
           else
             (let (rv, value_json, s1) = stamp_revision s value; serialized = ser value_json
              in (Inr (parse_rev rv, EvModified key serialized, Some stored),
                  s1\<lparr>ms_data := (ms_data s1)(key \<mapsto> serialized)\<rparr>))))"

definition update_with_ttl ::
  "(json \<Rightarrow> 'x) \<Rightarrow> ('x \<Rightarrow> json option) \<Rightarrow> 'x memory_storage \<Rightarrow> string \<Rightarrow> json \<Rightarrow> nat \<Rightarrow>
   (storage_error, json) result \<times> 'x memory_storage"
where
  "update_with_ttl ser de s key value ttl =
     (if ms_conflict_update_count s > 0
      then (Inl Conflict, s\<lparr>ms_conflict_update_count := ms_conflict_update_count s - 1\<rparr>)
      else
        (case update_commit ser de s key value of
           (Inl e, s1) \<Rightarrow> (Inl e, s1)
         | (Inr p, s1) \<Rightarrow> (decode de (ev_value (fst (snd p))), publish (set_ttl s1 key ttl) p)))"

definition ms_update where
  "ms_update ser de s key value = update_with_ttl ser de s key value 0"

definition update_raw ::
  "(json \<Rightarrow> 'x) \<Rightarrow> 'x memory_storage \<Rightarrow> string \<Rightarrow> json \<Rightarrow> (storage_error, unit) result \<times> 'x memory_storage"
where
  "update_raw ser s key value =
     (if ms_data s key = None then (Inl (NotFound key), s)
      else
        (let (rv, value_json, s1) = stamp_revision s value; serialized = ser value_json in
         case ms_data s1 key of
           None \<Rightarrow> (Inl (NotFound key), s1)
         | Some previous \<Rightarrow>
             (Inr (), publish (s1\<lparr>ms_data := (ms_data s1)(key \<mapsto> serialized)\<rparr>)
                        (parse_rev rv, EvModified key serialized, Some previous))))"

subsection \<open>Delete\<close>

definition delete_commit ::
  "(json \<Rightarrow> 'x) \<Rightarrow> ('x \<Rightarrow> json option) \<Rightarrow> 'x memory_storage \<Rightarrow> string \<Rightarrow> preconditions option \<Rightarrow>
   (storage_error, 'x pending) result \<times> 'x memory_storage"
where
  "delete_commit ser de s key pre =
     (case ms_data s key of
        None \<Rightarrow> (Inl (NotFound key), s)
      | Some previous \<Rightarrow>
          (case (case pre of
                   None \<Rightarrow> Inr ()
                 | Some p \<Rightarrow>
                     (case de previous of
                        None \<Rightarrow> Inl Serialization
                      | Some obj \<Rightarrow> precondition_check p obj)) of
             Inl e \<Rightarrow> (Inl e, s)
           | Inr _ \<Rightarrow>
               (let r = wrap64 (ms_revision s + 1);
                    stamped =
                      (case de previous of
                         None \<Rightarrow> previous
                       | Some v \<Rightarrow>
                           (if metadata_obj v = None then previous
                            else ser (set_metadata ''resourceVersion''
                                        (JString (mod_revision_to_resource_version r)) v)))
                in (Inr (r, EvDeleted key stamped, Some previous),
                    s\<lparr>ms_data := (ms_data s)(key := None), ms_revision := r\<rparr>))))"

definition delete_inner ::
  "(json \<Rightarrow> 'x) \<Rightarrow> ('x \<Rightarrow> json option) \<Rightarrow> 'x memory_storage \<Rightarrow> string \<Rightarrow> preconditions option \<Rightarrow>
   (storage_error, unit) result \<times> 'x memory_storage"
where
  "delete_inner ser de s key pre =
     (case delete_commit ser de s key pre of
        (Inl e, s1) \<Rightarrow> (Inl e, s1)
      | (Inr p, s1) \<Rightarrow> (Inr (), publish (s1\<lparr>ms_expiries := (ms_expiries s1)(key := None)\<rparr>) p))"

definition ms_delete where
  "ms_delete ser de s key = delete_inner ser de s key None"

definition delete_with_preconditions where
  "delete_with_preconditions ser de s key p = delete_inner ser de s key (Some p)"

text \<open>The task spawned by \<open>set_ttl\<close>, when its sleep is over.\<close>

definition ttl_timer ::
  "(json \<Rightarrow> 'x) \<Rightarrow> ('x \<Rightarrow> json option) \<Rightarrow> 'x memory_storage \<Rightarrow> string \<Rightarrow> nat \<Rightarrow> 'x memory_storage"
where
  "ttl_timer ser de s key generation =
     (if ms_expiries s key = Some generation
      then snd (ms_delete ser de (s\<lparr>ms_expiries := (ms_expiries s)(key := None)\<rparr>) key)
      else s)"

subsection \<open>Reads\<close>

definition has_prefix :: "string \<Rightarrow> string \<Rightarrow> bool" where
  "has_prefix prefix key \<longleftrightarrow> take (length prefix) key = prefix"

text \<open>The values of a map in key order, decoded; \<open>BTreeMap::values\<close> or the sorted matches of a hash map.\<close>

definition sorted_values :: "(string \<rightharpoonup> 'x) \<Rightarrow> 'x list" where
  "sorted_values m = map (the \<circ> m) (sorted_list_of_set (dom m))"

definition decode_all :: "('x \<Rightarrow> json option) \<Rightarrow> 'x list \<Rightarrow> (storage_error, json list) result" where
  "decode_all de xs = (case those (map de xs) of None \<Rightarrow> Inl Serialization | Some vs \<Rightarrow> Inr vs)"

definition matching :: "string \<Rightarrow> (string \<rightharpoonup> 'x) \<Rightarrow> (string \<rightharpoonup> 'x)" where
  "matching prefix m = m |` {k. has_prefix prefix k}"

definition ms_list :: "('x \<Rightarrow> json option) \<Rightarrow> 'x memory_storage \<Rightarrow> string \<Rightarrow> (storage_error, json list) result" where
  "ms_list de s prefix = decode_all de (sorted_values (matching prefix (ms_data s)))"

definition undo_one ::
  "string \<Rightarrow> int \<Rightarrow> int \<times> string \<times> 'x option \<Rightarrow> (string \<rightharpoonup> 'x) \<Rightarrow> (string \<rightharpoonup> 'x)" where
  "undo_one prefix revision e state =
     (case e of (r, key, previous) \<Rightarrow>
        if r \<le> revision \<or> \<not> has_prefix prefix key then state else state(key := previous))"

definition too_old_list :: string where
  "too_old_list = ''The resourceVersion for the provided list is too old.''"

definition list_at_revision ::
  "('x \<Rightarrow> json option) \<Rightarrow> 'x memory_storage \<Rightarrow> string \<Rightarrow> int \<Rightarrow> (storage_error, json list) result" where
  "list_at_revision de s prefix revision =
     (if revision \<le> 0 \<or> revision \<ge> ms_revision s then ms_list de s prefix
      else
        (let compacted = ms_compacted_revision s; h = ms_history s in
         if revision < hi_evicted_floor h \<or> (compacted > 0 \<and> revision \<le> compacted)
         then Inl (Gone too_old_list)
         else
           decode_all de
             (sorted_values (fold (undo_one prefix revision) (rev (hi_undo h)) (matching prefix (ms_data s))))))"

text \<open>A watch stream: the replayed events, then those published from a position of the bus on, both
  under a prefix.\<close>

record 'x watch_stream =
  ws_replay :: "'x watch_event list"
  ws_live_from :: nat
  ws_prefix :: string

definition ms_watch :: "'x memory_storage \<Rightarrow> string \<Rightarrow> 'x watch_stream" where
  "ms_watch s prefix = \<lparr>ws_replay = [], ws_live_from = length (ms_bus s), ws_prefix = prefix\<rparr>"

definition watch_from_revision ::
  "'x memory_storage \<Rightarrow> string \<Rightarrow> int \<Rightarrow> (storage_error, 'x watch_stream) result" where
  "watch_from_revision s prefix revision =
     (if revision \<le> 0 then Inr (ms_watch s prefix)
      else
        (let compacted = ms_compacted_revision s; h = ms_history s in
         if revision \<le> hi_evicted_floor h \<or> (compacted > 0 \<and> revision \<le> compacted)
         then Inl (Gone (''too old resource version: '' @ show_int revision @ '' ('' @
                show_int (wrap64 (max (hi_evicted_floor h) compacted + 1)) @ '')''))
         else
           Inr \<lparr>ws_replay = map snd (filter (\<lambda>(r, ev). r \<ge> revision \<and> has_prefix prefix (ev_key ev)) (hi_events h)),
                ws_live_from = length (ms_bus s), ws_prefix = prefix\<rparr>))"

text \<open>The events a stream has delivered in a later state of the store.\<close>

definition ws_delivered :: "'x watch_stream \<Rightarrow> 'x memory_storage \<Rightarrow> 'x watch_event list" where
  "ws_delivered w s =
     ws_replay w @ filter (\<lambda>ev. has_prefix (ws_prefix w) (ev_key ev)) (drop (ws_live_from w) (ms_bus s))"

definition current_revision :: "'x memory_storage \<Rightarrow> int" where
  "current_revision s = ms_revision s"

definition is_revision_compacted :: "'x memory_storage \<Rightarrow> int \<Rightarrow> bool" where
  "is_revision_compacted s revision \<longleftrightarrow> ms_compacted_revision s > 0 \<and> revision \<le> ms_compacted_revision s"

end
