(* ===== verification/LeaseLock.thy ===== *)
theory LeaseLock
  imports LeaderElection StorageHistory
begin

text \<open>
  The lease lock (\<^verbatim>\<open>crates/storage/src/lease_lock.rs\<close>) over the in-memory store, and leader election
  over both. The JSON form of a Lease is \<open>serde\<close>'s: a pair of parameters with the laws of the locale
  \<open>lease_codec\<close>, for which a concrete form is given; times are kept in microseconds on the wire.

  Before each storage operation of a call other processes may do anything to the store
  (\<open>interfere\<close>), and the writes of the candidate are logged with the record each replaced. Over all
  states an elector can reach in this way: a lease of another candidate is taken only after the
  elector saw it unchanged for its duration; transitions count the takeovers; a free lease is acquired;
  \<open>release\<close> trusts the last observed record and clears the lease of a new leader.
\<close>

section \<open>The lock\<close>

record lease_spec =
  lsp_holder_identity :: "string option"
  lsp_lease_duration_seconds :: "int option"
  lsp_acquire_time :: "date_time option"
  lsp_renew_time :: "date_time option"
  lsp_lease_transitions :: "int option"
  lsp_preferred_holder :: "string option"
  lsp_strategy :: "string option"

text \<open>A Lease with the metadata the lock and the store read.\<close>

record lease =
  le_name :: string
  le_namespace :: "string option"
  le_uid :: string
  le_resource_version :: "string option"
  le_spec :: "lease_spec option"

definition opt_or :: "'a option \<Rightarrow> 'a \<Rightarrow> 'a" where
  "opt_or x d = (case x of None \<Rightarrow> d | Some v \<Rightarrow> v)"

definition lease_spec_to_record :: "lease_spec \<Rightarrow> leader_election_record" where
  "lease_spec_to_record spec =
     \<lparr>ler_holder_identity = opt_or (lsp_holder_identity spec) '''',
      ler_lease_duration_seconds = opt_or (lsp_lease_duration_seconds spec) 0,
      ler_acquire_time = opt_or (lsp_acquire_time spec) 0,
      ler_renew_time = opt_or (lsp_renew_time spec) 0,
      ler_leader_transitions = opt_or (lsp_lease_transitions spec) 0,
      ler_preferred_holder = opt_or (lsp_preferred_holder spec) '''',
      ler_strategy = opt_or (lsp_strategy spec) ''''\<rparr>"

definition record_to_lease_spec :: "leader_election_record \<Rightarrow> lease_spec" where
  "record_to_lease_spec r =
     \<lparr>lsp_holder_identity = Some (ler_holder_identity r),
      lsp_lease_duration_seconds = Some (ler_lease_duration_seconds r),
      lsp_acquire_time = Some (ler_acquire_time r),
      lsp_renew_time = Some (ler_renew_time r),
      lsp_lease_transitions = Some (ler_leader_transitions r),
      lsp_preferred_holder = (if ler_preferred_holder r \<noteq> '''' then Some (ler_preferred_holder r) else None),
      lsp_strategy = (if ler_strategy r \<noteq> '''' then Some (ler_strategy r) else None)\<rparr>"

definition lease_spec_default :: lease_spec where
  "lease_spec_default = \<lparr>lsp_holder_identity = None, lsp_lease_duration_seconds = None, lsp_acquire_time = None,
     lsp_renew_time = None, lsp_lease_transitions = None, lsp_preferred_holder = None, lsp_strategy = None\<rparr>"

definition lease_new :: "string \<Rightarrow> string \<Rightarrow> string \<Rightarrow> lease" where
  "lease_new fresh name namespace =
     \<lparr>le_name = name, le_namespace = Some namespace, le_uid = fresh, le_resource_version = None, le_spec = None\<rparr>"

text \<open>The storage operations on leases, \<open>S: Storage\<close> at \<open>T = Lease\<close>.\<close>

record 's lease_storage =
  st_get :: "'s \<Rightarrow> string \<Rightarrow> (storage_error, lease) result"
  st_create :: "'s \<Rightarrow> string \<Rightarrow> lease \<Rightarrow> (storage_error, lease) result \<times> 's"
  st_update :: "'s \<Rightarrow> string \<Rightarrow> lease \<Rightarrow> (storage_error, lease) result \<times> 's"

definition lock_key :: "string \<Rightarrow> string \<Rightarrow> string" where
  "lock_key namespace name = ''/registry/leases/'' @ namespace @ ''/'' @ name"

text \<open>The state behind a \<open>LeaseLock\<close>: the store and the lease last returned by it.\<close>

definition lease_lock_get ::
  "'s lease_storage \<Rightarrow> string \<Rightarrow> 's \<times> lease option \<Rightarrow> (storage_error, leader_election_record) result \<times> 's \<times> lease option" where
  "lease_lock_get S key st =
     (case st_get S (fst st) key of
        Inl e \<Rightarrow> (Inl e, st)
      | Inr l \<Rightarrow> (Inr (lease_spec_to_record (opt_or (le_spec l) lease_spec_default)), fst st, Some l))"

definition lease_lock_create ::
  "'s lease_storage \<Rightarrow> string \<Rightarrow> string \<Rightarrow> string \<Rightarrow> string \<Rightarrow> leader_election_record \<Rightarrow> 's \<times> lease option \<Rightarrow>
   (storage_error, unit) result \<times> 's \<times> lease option" where
  "lease_lock_create S key fresh namespace name ler st =
     (case st_create S (fst st) key ((lease_new fresh name namespace)\<lparr>le_spec := Some (record_to_lease_spec ler)\<rparr>) of
        (Inl e, s1) \<Rightarrow> (Inl e, s1, snd st)
      | (Inr created, s1) \<Rightarrow> (Inr (), s1, Some created))"

definition lease_lock_update ::
  "'s lease_storage \<Rightarrow> string \<Rightarrow> leader_election_record \<Rightarrow> 's \<times> lease option \<Rightarrow> (storage_error, unit) result \<times> 's \<times> lease option" where
  "lease_lock_update S key ler st =
     (case snd st of
        None \<Rightarrow> (Inl Internal, st)
      | Some cached \<Rightarrow>
          (case st_update S (fst st) key (cached\<lparr>le_spec := Some (record_to_lease_spec ler)\<rparr>) of
             (Inl e, s1) \<Rightarrow> (Inl e, s1, snd st)
           | (Inr updated, s1) \<Rightarrow> (Inr (), s1, Some updated)))"

definition lease_lock :: "'s lease_storage \<Rightarrow> string \<Rightarrow> string \<Rightarrow> string \<Rightarrow> string \<Rightarrow> ('s \<times> lease option) resource_lock" where
  "lease_lock S fresh namespace name identity =
     \<lparr>rl_get = lease_lock_get S (lock_key namespace name),
      rl_create = lease_lock_create S (lock_key namespace name) fresh namespace name,
      rl_update = lease_lock_update S (lock_key namespace name),
      rl_describe = namespace @ ''/'' @ name,
      rl_identity = identity\<rparr>"

text \<open>The in-memory store as the storage of leases, with the JSON form of a lease as parameters.\<close>

definition typed_lease :: "(json \<Rightarrow> lease option) \<Rightarrow> (storage_error, json) result \<Rightarrow> (storage_error, lease) result" where
  "typed_lease lde r =
     (case r of Inl e \<Rightarrow> Inl e | Inr v \<Rightarrow> (case lde v of None \<Rightarrow> Inl Serialization | Some l \<Rightarrow> Inr l))"

definition mem_lease_storage ::
  "(lease \<Rightarrow> json) \<Rightarrow> (json \<Rightarrow> lease option) \<Rightarrow> (json \<Rightarrow> 'x) \<Rightarrow> ('x \<Rightarrow> json option) \<Rightarrow> string \<Rightarrow> string \<Rightarrow>
   'x memory_storage lease_storage" where
  "mem_lease_storage lser lde ser de uid now =
     \<lparr>st_get = (\<lambda>s key. typed_lease lde (ms_get de s key)),
      st_create = (\<lambda>s key l. map_prod (typed_lease lde) id (ms_create ser de uid now s key (lser l))),
      st_update = (\<lambda>s key l. map_prod (typed_lease lde) id (ms_update ser de s key (lser l)))\<rparr>"

text \<open>The laws of \<open>serde\<close> for leases: a stored lease decodes to what was written, with times in
  microseconds and the version it was stamped with.\<close>

definition micro :: "date_time \<Rightarrow> date_time" where
  "micro t = t - t mod 1000"

definition micro_spec :: "lease_spec \<Rightarrow> lease_spec" where
  "micro_spec sp = sp\<lparr>lsp_acquire_time := map_option micro (lsp_acquire_time sp),
                      lsp_renew_time := map_option micro (lsp_renew_time sp)\<rparr>"

definition micro_lease :: "lease \<Rightarrow> lease" where
  "micro_lease l = l\<lparr>le_spec := map_option micro_spec (le_spec l)\<rparr>"

definition micro_record :: "leader_election_record \<Rightarrow> leader_election_record" where
  "micro_record r = r\<lparr>ler_acquire_time := micro (ler_acquire_time r), ler_renew_time := micro (ler_renew_time r)\<rparr>"

locale lease_codec =
  fixes lser :: "lease \<Rightarrow> json" and lde :: "json \<Rightarrow> lease option"
    and ser :: "json \<Rightarrow> 'x" and de :: "'x \<Rightarrow> json option"
  assumes serde: "de (ser v) = Some v"
    and lease_metadata: "metadata_obj (lser l) \<noteq> None"
    and lease_version: "resource_version_of (lser l) =
          (case le_resource_version l of None \<Rightarrow> None | Some rv \<Rightarrow> if rv = '''' then None else Some rv)"
    and decode_stamped: "rv \<noteq> '''' \<Longrightarrow>
          lde (set_metadata ''resourceVersion'' (JString rv) (lser l)) = Some ((micro_lease l)\<lparr>le_resource_version := Some rv\<rparr>)"
    and decode_created: "rv \<noteq> '''' \<Longrightarrow>
          \<exists>u. lde (set_metadata ''resourceVersion'' (JString rv) (fill_metadata uid now (lser l)))
            = Some ((micro_lease l)\<lparr>le_resource_version := Some rv, le_uid := u\<rparr>)"

section \<open>The lease lock over the in-memory store\<close>

definition record_of_lease :: "lease \<Rightarrow> leader_election_record" where
  "record_of_lease l = lease_spec_to_record (opt_or (le_spec l) lease_spec_default)"

definition stored_lease :: "(json \<Rightarrow> lease option) \<Rightarrow> ('x \<Rightarrow> json option) \<Rightarrow> string \<Rightarrow> 'x memory_storage \<Rightarrow> lease option" where
  "stored_lease lde de key s =
     (case ms_data s key of None \<Rightarrow> None | Some x \<Rightarrow> (case de x of None \<Rightarrow> None | Some v \<Rightarrow> lde v))"

text \<open>What is stored under the key is a lease stamped with a revision, and so is the cached lease.\<close>

definition lease_at :: "(json \<Rightarrow> lease option) \<Rightarrow> ('x \<Rightarrow> json option) \<Rightarrow> string \<Rightarrow> 'x memory_storage \<Rightarrow> bool" where
  "lease_at lde de key s \<longleftrightarrow>
     (\<forall>x. ms_data s key = Some x \<longrightarrow>
        (\<exists>v l n. de x = Some v \<and> lde v = Some l \<and> le_resource_version l = Some (show_int n)
           \<and> resource_version_of v = Some (show_int n)))"

definition lock_ok ::
  "(json \<Rightarrow> lease option) \<Rightarrow> ('x \<Rightarrow> json option) \<Rightarrow> string \<Rightarrow> 'x memory_storage \<times> lease option \<Rightarrow> bool" where
  "lock_ok lde de key st \<longleftrightarrow>
     lease_at lde de key (fst st) \<and> (\<forall>c. snd st = Some c \<longrightarrow> (\<exists>n. le_resource_version c = Some (show_int n)))"

lemma record_spec_round_trip: "lease_spec_to_record (record_to_lease_spec r) = r"
  by (cases r) (simp add: lease_spec_to_record_def record_to_lease_spec_def opt_or_def)

lemma record_of_written [simp]:
  "record_of_lease (micro_lease (l\<lparr>le_spec := Some (record_to_lease_spec r)\<rparr>)\<lparr>le_resource_version := v\<rparr>) = micro_record r"
  "record_of_lease (micro_lease (l\<lparr>le_spec := Some (record_to_lease_spec r)\<rparr>)\<lparr>le_resource_version := v, le_uid := u\<rparr>) = micro_record r"
  by (cases r;
      simp add: record_of_lease_def micro_lease_def micro_spec_def micro_record_def opt_or_def lease_spec_to_record_def
        record_to_lease_spec_def)+

context lease_codec
begin

lemma lock_get:
  assumes "lock_ok lde de (lock_key ns name) st"
  shows "rl_get (lease_lock (mem_lease_storage lser lde ser de uid now) fresh ns name me) st =
    (case stored_lease lde de (lock_key ns name) (fst st) of
       None \<Rightarrow> (Inl (NotFound (lock_key ns name)), st)
     | Some l \<Rightarrow> (Inr (record_of_lease l), fst st, Some l))"
proof (cases "ms_data (fst st) (lock_key ns name)")
  case None
  then show ?thesis
    by (simp add: lease_lock_def lease_lock_get_def mem_lease_storage_def ms_get_def stored_lease_def typed_lease_def)
next
  case (Some x)
  then obtain v l where "de x = Some v" "lde v = Some l" using assms by (auto simp: lock_ok_def lease_at_def)
  then show ?thesis
    using Some by (simp add: lease_lock_def lease_lock_get_def mem_lease_storage_def ms_get_def decode_def
        stored_lease_def typed_lease_def record_of_lease_def)
qed

lemma stored_version:
  assumes "lease_at lde de key s" and "ms_data s key = Some x"
  obtains v l n where "de x = Some v" "lde v = Some l" "le_resource_version l = Some (show_int n)"
    "resource_version_of v = Some (show_int n)" "stored_lease lde de key s = Some l"
  using assms by (fastforce simp: lease_at_def stored_lease_def)

lemma mem_update_ok:
  assumes "lease_at lde de key s" and "le_resource_version c = Some (show_int n)"
    and "st_update (mem_lease_storage lser lde ser de uid now) s key c = (Inr l', s')"
  shows "\<exists>l. stored_lease lde de key s = Some l \<and> le_resource_version l = le_resource_version c
    \<and> l' = (micro_lease c)\<lparr>le_resource_version := Some (show_int (wrap64 (ms_revision s + 1)))\<rparr>
    \<and> stored_lease lde de key s' = Some l' \<and> lease_at lde de key s'
    \<and> s' = exec ser de (OpUpdate key (lser c) 0) s"
proof -
  let ?r = "wrap64 (ms_revision s + 1)"
  let ?new = "set_metadata ''resourceVersion'' (JString (show_int ?r)) (lser c)"
  have c: "resource_version_of (lser c) = Some (show_int n)"
    using assms(2) lease_version [of c] show_int_nonempty by simp
  have new: "lde ?new = Some ((micro_lease c)\<lparr>le_resource_version := Some (show_int ?r)\<rparr>)"
    using decode_stamped show_int_nonempty by blast
  have upd: "ms_update ser de s key (lser c) = (Inr v', s') \<Longrightarrow> v' = ?new \<and> ms_data s' key = Some (ser ?new)" for v'
    by (auto simp: ms_update_def update_with_ttl_def update_commit_def stamp_revision_def Let_def decode_def serde
        mod_revision_to_resource_version_def publish_def emit_def split: if_splits option.splits)
  obtain v' where v': "ms_update ser de s key (lser c) = (Inr v', s')" "lde v' = Some l'"
    using assms(3)
    by (cases "ms_update ser de s key (lser c)")
       (auto simp: mem_lease_storage_def typed_lease_def split: sum.splits option.splits)
  obtain x where x: "ms_data s key = Some x"
    using v'(1) by (auto simp: ms_update_def update_with_ttl_def update_commit_def Let_def split: if_splits option.splits)
  obtain v l m where old: "de x = Some v" "le_resource_version l = Some (show_int m)"
    "resource_version_of v = Some (show_int m)" "stored_lease lde de key s = Some l"
    using stored_version [OF assms(1) x] by metis
  have "show_int m = show_int n"
    using v'(1) x old(1,3) c
    by (auto simp: ms_update_def update_with_ttl_def update_commit_def Let_def split: if_splits)
  moreover have "s' = exec ser de (OpUpdate key (lser c) 0) s" using v'(1) by (simp add: ms_update_def)
  moreover have "stored_lease lde de key s' = Some l'" using upd [OF v'(1)] v'(2) by (simp add: stored_lease_def serde)
  moreover have "lease_at lde de key s'"
    using upd [OF v'(1)] new resource_version_of_stamped [OF lease_metadata] by (auto simp: lease_at_def serde)
  ultimately show ?thesis using old(2,4) assms(2) upd [OF v'(1)] v'(2) new by auto
qed

lemma mem_update_err:
  assumes "st_update (mem_lease_storage lser lde ser de uid now) s key c = (Inl e, s')"
  shows "ms_data s' = ms_data s \<and> s' = exec ser de (OpUpdate key (lser c) 0) s"
proof -
  have dec: "lde (set_metadata ''resourceVersion'' (JString (show_int r)) (lser c)) \<noteq> None" for r
    using decode_stamped [of "show_int r" c] show_int_nonempty by simp
  obtain w where w: "ms_update ser de s key (lser c) = (w, s')" "typed_lease lde w = Inl e"
    using assms by (cases "ms_update ser de s key (lser c)") (auto simp: mem_lease_storage_def)
  have "ms_data s' = ms_data s" if "w = Inr v" for v
  proof -
    have "v = set_metadata ''resourceVersion'' (JString (show_int (wrap64 (ms_revision s + 1)))) (lser c)"
      using w(1) that
      by (auto simp: ms_update_def update_with_ttl_def update_commit_def stamp_revision_def Let_def decode_def serde
          mod_revision_to_resource_version_def split: if_splits option.splits)
    then show ?thesis
      using w(2) that dec [of "wrap64 (ms_revision s + 1)"] by (auto simp: typed_lease_def split: option.splits)
  qed
  moreover have "ms_data s' = ms_data s" if "w = Inl e'" for e'
    using w(1) that
    by (auto simp: ms_update_def update_with_ttl_def update_commit_def stamp_revision_def Let_def decode_def serde
        split: if_splits option.splits)
  moreover have "s' = exec ser de (OpUpdate key (lser c) 0) s" using w(1) by (simp add: ms_update_def)
  ultimately show ?thesis by (cases w) auto
qed

lemma mem_create:
  assumes "st_create (mem_lease_storage lser lde ser de uid now) s key c = (res, s')"
  shows "s' = exec ser de (OpCreate key (lser c) 0 uid now) s
    \<and> (case res of
         Inl e \<Rightarrow> s' = s
       | Inr l' \<Rightarrow> ms_data s key = None \<and> stored_lease lde de key s' = Some l' \<and> lease_at lde de key s'
           \<and> (\<exists>u. l' = (micro_lease c)\<lparr>le_resource_version := Some (show_int (wrap64 (ms_revision s + 1))), le_uid := u\<rparr>))"
proof -
  let ?r = "wrap64 (ms_revision s + 1)"
  let ?new = "set_metadata ''resourceVersion'' (JString (show_int ?r)) (fill_metadata uid now (lser c))"
  obtain u where dec: "lde ?new = Some ((micro_lease c)\<lparr>le_resource_version := Some (show_int ?r), le_uid := u\<rparr>)"
    using decode_created [of "show_int ?r" uid now c] show_int_nonempty by blast
  have stamped: "resource_version_of ?new = Some (show_int ?r)"
    using resource_version_of_stamped metadata_obj_fill lease_metadata by blast
  obtain w where w: "ms_create ser de uid now s key (lser c) = (w, s')" "res = typed_lease lde w"
    using assms by (cases "ms_create ser de uid now s key (lser c)") (auto simp: mem_lease_storage_def)
  have exec: "s' = exec ser de (OpCreate key (lser c) 0 uid now) s" using w(1) by (simp add: ms_create_def)
  show ?thesis
  proof (cases "ms_data s key")
    case (Some x)
    then have "w = Inl (AlreadyExists key)" "s' = s" using w(1) by (auto simp: ms_create_def create_with_ttl_def Let_def)
    then show ?thesis using w(2) exec by (simp add: typed_lease_def)
  next
    case None
    have "w = Inr ?new" "ms_data s' key = Some (ser ?new)"
      using w(1) None
      by (auto simp: ms_create_def create_with_ttl_def create_commit_def stamp_revision_def Let_def decode_def serde
          mod_revision_to_resource_version_def publish_def emit_def)
    then show ?thesis
      using w(2) dec stamped None exec by (auto simp: typed_lease_def stored_lease_def lease_at_def serde)
  qed
qed

end

section \<open>An elector among other writers\<close>

text \<open>Other processes write leases under the key of the lock, and objects with metadata elsewhere.\<close>

fun lease_op :: "(lease \<Rightarrow> json) \<Rightarrow> string \<Rightarrow> store_op \<Rightarrow> bool" where
  "lease_op lser key (OpCreate k v _ _ _) \<longleftrightarrow> metadata_obj v \<noteq> None \<and> (k = key \<longrightarrow> (\<exists>l. v = lser l))"
| "lease_op lser key (OpUpdate k v _) \<longleftrightarrow> metadata_obj v \<noteq> None \<and> (k = key \<longrightarrow> (\<exists>l. v = lser l))"
| "lease_op lser key (OpUpdateRaw k v) \<longleftrightarrow> metadata_obj v \<noteq> None \<and> (k = key \<longrightarrow> (\<exists>l. v = lser l))"
| "lease_op lser key _ \<longleftrightarrow> True"

lemma lease_op_ok: "lease_op lser key op \<Longrightarrow> op_ok op"
  by (cases op) auto

definition cache_ok :: "'x memory_storage \<times> lease option \<Rightarrow> bool" where
  "cache_ok st \<longleftrightarrow> (\<forall>c. snd st = Some c \<longrightarrow> (\<exists>n \<le> ms_revision (fst st). le_resource_version c = Some (show_int n)))"

definition store_inv ::
  "(json \<Rightarrow> lease option) \<Rightarrow> ('x \<Rightarrow> json option) \<Rightarrow> string \<Rightarrow> nat \<Rightarrow> 'x memory_storage \<times> lease option \<Rightarrow> bool" where
  "store_inv lde de key k st \<longleftrightarrow>
     hist_ok (fst st) \<and> all_stamped de (fst st) \<and> lock_ok lde de key st \<and> cache_ok st
     \<and> ms_revision (fst st) + int k < i64_max"

context lease_codec
begin

lemma round_trip: "serde_round_trip ser de"
  by (simp add: serde_round_trip_def serde)

lemma written_lease:
  "lease_at lde de key (s\<lparr>ms_data := (ms_data s)(key \<mapsto> ser (set_metadata ''resourceVersion'' (JString (show_int r)) (lser l)))\<rparr>)"
  "lease_at lde de key (s\<lparr>ms_data := (ms_data s)(key \<mapsto>
     ser (set_metadata ''resourceVersion'' (JString (show_int r)) (fill_metadata uid now (lser l))))\<rparr>)"
proof -
  show "lease_at lde de key (s\<lparr>ms_data := (ms_data s)(key \<mapsto> ser (set_metadata ''resourceVersion'' (JString (show_int r)) (lser l)))\<rparr>)"
    using decode_stamped [of "show_int r" l] show_int_nonempty resource_version_of_stamped [OF lease_metadata]
    by (auto simp: lease_at_def serde)
  obtain u where "lde (set_metadata ''resourceVersion'' (JString (show_int r)) (fill_metadata uid now (lser l)))
      = Some ((micro_lease l)\<lparr>le_resource_version := Some (show_int r), le_uid := u\<rparr>)"
    using decode_created show_int_nonempty by blast
  then show "lease_at lde de key (s\<lparr>ms_data := (ms_data s)(key \<mapsto>
      ser (set_metadata ''resourceVersion'' (JString (show_int r)) (fill_metadata uid now (lser l))))\<rparr>)"
    using resource_version_of_stamped [OF metadata_obj_fill [OF lease_metadata]] by (auto simp: lease_at_def serde)
qed

end

lemma delete_data:
  "ms_data (snd (delete_inner ser de s k pre)) = ms_data s \<or> ms_data (snd (delete_inner ser de s k pre)) = (ms_data s)(k := None)"
  by (auto simp: delete_inner_def delete_commit_def Let_def publish_def emit_def split: option.splits sum.splits)

lemma create_data:
  "ms_data (snd (create_with_ttl ser de uid now s k v ttl)) = ms_data s
   \<or> (\<exists>r. ms_data (snd (create_with_ttl ser de uid now s k v ttl))
        = (ms_data s)(k \<mapsto> ser (set_metadata ''resourceVersion'' (JString (show_int r)) (fill_metadata uid now v))))"
  by (auto simp: create_with_ttl_def create_commit_def stamp_revision_def Let_def publish_def emit_def
      mod_revision_to_resource_version_def)

lemma update_data:
  "ms_data (snd (update_with_ttl ser de s k v ttl)) = ms_data s
   \<or> (\<exists>r. ms_data (snd (update_with_ttl ser de s k v ttl))
        = (ms_data s)(k \<mapsto> ser (set_metadata ''resourceVersion'' (JString (show_int r)) v)))"
  by (auto simp: update_with_ttl_def update_commit_def stamp_revision_def Let_def publish_def emit_def
      mod_revision_to_resource_version_def split: option.splits)

lemma update_raw_data:
  "ms_data (snd (update_raw ser s k v)) = ms_data s
   \<or> (\<exists>r. ms_data (snd (update_raw ser s k v))
        = (ms_data s)(k \<mapsto> ser (set_metadata ''resourceVersion'' (JString (show_int r)) v)))"
  by (auto simp: update_raw_def stamp_revision_def Let_def publish_def emit_def
      mod_revision_to_resource_version_def split: option.splits)

context lease_codec
begin

lemma lease_at_step:
  assumes "lease_op lser key op" and "lease_at lde de key s"
  shows "lease_at lde de key (exec ser de op s)"
proof -
  have keep: "lease_at lde de key s'" if "ms_data s' = ms_data s \<or> ms_data s' = (ms_data s)(k := None)" for s' k
    using that assms(2) by (auto simp: lease_at_def split: if_splits)
  have put: "lease_at lde de key s'"
    if "ms_data s' = (ms_data s)(k \<mapsto> ser (set_metadata ''resourceVersion'' (JString (show_int r)) v))"
      and "k = key \<Longrightarrow> (\<exists>l. v = lser l) \<or> (\<exists>l uid now. v = fill_metadata uid now (lser l))" for s' k r v
  proof (cases "k = key")
    case True
    then show ?thesis using that written_lease [of key s r] by (auto simp: lease_at_def)
  next
    case False
    then show ?thesis using that(1) assms(2) by (simp add: lease_at_def)
  qed
  show ?thesis
  proof (cases op)
    case (OpCreate k v ttl uid now)
    then show ?thesis using assms(1) create_data [of ser de uid now s k v ttl] keep put by fastforce
  next
    case (OpUpdate k v ttl)
    then show ?thesis using assms(1) update_data [of ser de s k v ttl] keep put by fastforce
  next
    case (OpUpdateRaw k v)
    then show ?thesis using assms(1) update_raw_data [of ser s k v] keep put by fastforce
  next
    case (OpDelete k pre)
    then show ?thesis using delete_data [of ser de s k pre] keep by fastforce
  next
    case (OpTimer k g)
    then show ?thesis
      using delete_data [of ser de "s\<lparr>ms_expiries := (ms_expiries s)(k := None)\<rparr>" k None] keep [of _ k]
      by (auto simp: ttl_timer_def ms_delete_def)
  qed (use assms(2) in \<open>simp_all add: compact_to_def inject_conflicts_def lease_at_def\<close>)
qed

end

text \<open>A writing operation advances the revision by at most one.\<close>

lemma exec_revision:
  assumes "hist_ok s" and "ms_revision s < i64_max"
  shows "ms_revision s \<le> ms_revision (exec ser de op s) \<and> ms_revision (exec ser de op s) \<le> ms_revision s + 1"
proof -
  have "store_step ser de s op (exec ser de op s)" using assms(2) by (simp add: store_step_def)
  from store_step_effect [OF this assms(1)] show ?thesis by (auto simp: quiet_def writes_def)
qed

context lease_codec
begin

lemma store_inv_exec:
  assumes "store_inv lde de key (Suc k) (s, c)" and "lease_op lser key op"
  shows "store_inv lde de key k (exec ser de op s, c)"
proof -
  have inv: "hist_ok s" "all_stamped de s" "lease_at lde de key s" "ms_revision s < i64_max"
    using assms(1) by (auto simp: store_inv_def lock_ok_def)
  have step: "store_step ser de s op (exec ser de op s)" using inv(4) by (simp add: store_step_def)
  have "all_stamped de (exec ser de op s)"
    using entry_step_stamped [OF store_entry_step [OF step lease_op_ok [OF assms(2)] round_trip inv(1)] inv(2)] .
  moreover have "hist_ok (exec ser de op s)" using store.step_hist_ok [OF step inv(1)] .
  moreover have "lease_at lde de key (exec ser de op s)" using lease_at_step [OF assms(2) inv(3)] .
  ultimately show ?thesis
    using assms(1) exec_revision [OF inv(1,4), of ser de op]
    by (auto simp: store_inv_def lock_ok_def cache_ok_def) (metis order_trans)
qed

lemma store_inv_weaken: "store_inv lde de key (Suc k) st \<Longrightarrow> store_inv lde de key k st"
  by (simp add: store_inv_def)

lemma store_inv_cache:
  assumes "store_inv lde de key k (s, c)" and "le_resource_version l = Some (show_int n)" and "n \<le> ms_revision s"
  shows "store_inv lde de key k (s, Some l)"
  using assms by (auto simp: store_inv_def lock_ok_def cache_ok_def)

lemma stored_lease_revision:
  assumes "store_inv lde de key k (s, c)" and "stored_lease lde de key s = Some l"
  shows "\<exists>n \<le> ms_revision s. le_resource_version l = Some (show_int n)"
proof -
  obtain x where x: "ms_data s key = Some x" using assms(2) by (auto simp: stored_lease_def split: option.splits)
  have "lease_at lde de key s" "all_stamped de s" using assms(1) by (auto simp: store_inv_def lock_ok_def)
  then obtain v n m where v: "de x = Some v" "le_resource_version l = Some (show_int n)"
    "resource_version_of v = Some (show_int n)" "m \<le> ms_revision s" "stamped_at de x m"
    using stored_version [of key s x] x assms(2) unfolding all_stamped_def by (metis option.inject)
  then have "show_int n = show_int m" by (auto simp: stamped_at_def)
  then show ?thesis using v(2,4) show_int_inj by metis
qed

end

section \<open>A lock among other writers\<close>

text \<open>The state behind the lock of one candidate: the store, the lease last returned, what other processes
  will do before each of the coming storage operations, and the writes the candidate made so far.\<close>

record 'x shared =
  sh_store :: "'x memory_storage"
  sh_cache :: "lease option"
  sh_env :: "store_op list list"
  sh_log :: "(leader_election_record option \<times> leader_election_record) list"

definition interfere :: "(json \<Rightarrow> 'x) \<Rightarrow> ('x \<Rightarrow> json option) \<Rightarrow> 'x shared \<Rightarrow> 'x shared" where
  "interfere ser de sh =
     (case sh_env sh of
        [] \<Rightarrow> sh
      | ops # rest \<Rightarrow> sh\<lparr>sh_store := fold (exec ser de) ops (sh_store sh), sh_env := rest\<rparr>)"

definition on_lock :: "('x memory_storage \<times> lease option \<Rightarrow> 'r \<times> 'x memory_storage \<times> lease option) \<Rightarrow> 'x shared \<Rightarrow> 'r \<times> 'x shared" where
  "on_lock f sh = (case f (sh_store sh, sh_cache sh) of (r, s, c) \<Rightarrow> (r, sh\<lparr>sh_store := s, sh_cache := c\<rparr>))"

definition stored_record :: "(json \<Rightarrow> lease option) \<Rightarrow> ('x \<Rightarrow> json option) \<Rightarrow> string \<Rightarrow> 'x memory_storage \<Rightarrow> leader_election_record option" where
  "stored_record lde de key s = map_option record_of_lease (stored_lease lde de key s)"

text \<open>A write of the lock, and the pair it leaves in the log when it is accepted.\<close>

definition logged ::
  "(json \<Rightarrow> lease option) \<Rightarrow> ('x \<Rightarrow> json option) \<Rightarrow> string \<Rightarrow> (storage_error, unit) result \<times> 'x shared \<Rightarrow> 'x shared \<Rightarrow>
   (storage_error, unit) result \<times> 'x shared" where
  "logged lde de key res before =
     (case res of
        (Inl e, sh) \<Rightarrow> (Inl e, sh)
      | (Inr u, sh) \<Rightarrow>
          (case stored_record lde de key (sh_store sh) of
             None \<Rightarrow> (Inr u, sh)
           | Some new \<Rightarrow> (Inr u, sh\<lparr>sh_log := sh_log sh @ [(stored_record lde de key (sh_store before), new)]\<rparr>)))"

definition shared_lock ::
  "(lease \<Rightarrow> json) \<Rightarrow> (json \<Rightarrow> lease option) \<Rightarrow> (json \<Rightarrow> 'x) \<Rightarrow> ('x \<Rightarrow> json option) \<Rightarrow> string \<Rightarrow> string \<Rightarrow>
   string \<Rightarrow> string \<Rightarrow> string \<Rightarrow> string \<Rightarrow> 'x shared resource_lock" where
  "shared_lock lser lde ser de uid now fresh ns name me =
     (let L = lease_lock (mem_lease_storage lser lde ser de uid now) fresh ns name me; key = lock_key ns name in
      \<lparr>rl_get = (\<lambda>sh. on_lock (rl_get L) (interfere ser de sh)),
       rl_create = (\<lambda>r sh. let sh1 = interfere ser de sh in logged lde de key (on_lock (rl_create L r) sh1) sh1),
       rl_update = (\<lambda>r sh. let sh1 = interfere ser de sh in logged lde de key (on_lock (rl_update L r) sh1) sh1),
       rl_describe = rl_describe L,
       rl_identity = rl_identity L\<rparr>)"

definition seen :: "'x shared \<Rightarrow> leader_election_record option" where
  "seen sh = map_option record_of_lease (sh_cache sh)"

text \<open>A version names one record: the cached lease, if it has the version stored now, has its record.\<close>

definition version_fixed :: "(json \<Rightarrow> lease option) \<Rightarrow> ('x \<Rightarrow> json option) \<Rightarrow> string \<Rightarrow> 'x memory_storage \<Rightarrow> lease option \<Rightarrow> bool" where
  "version_fixed lde de key s c \<longleftrightarrow>
     (\<forall>l l'. c = Some l \<longrightarrow> stored_lease lde de key s = Some l' \<longrightarrow> le_resource_version l = le_resource_version l'
        \<longrightarrow> record_of_lease l = record_of_lease l')"

definition shared_ok ::
  "(lease \<Rightarrow> json) \<Rightarrow> (json \<Rightarrow> lease option) \<Rightarrow> ('x \<Rightarrow> json option) \<Rightarrow> string \<Rightarrow> nat \<Rightarrow> 'x shared \<Rightarrow> bool" where
  "shared_ok lser lde de key k sh \<longleftrightarrow>
     (\<forall>ops \<in> set (sh_env sh). \<forall>op \<in> set ops. lease_op lser key op)
     \<and> store_inv lde de key (k + length (concat (sh_env sh))) (sh_store sh, sh_cache sh)
     \<and> version_fixed lde de key (sh_store sh) (sh_cache sh)"

context lease_codec
begin

lemma version_fixed_exec:
  assumes "store_inv lde de key (Suc k) (s, c)" and "lease_op lser key op" and "version_fixed lde de key s c"
  shows "version_fixed lde de key (exec ser de op s) c"
  unfolding version_fixed_def
proof (intro allI impI)
  fix l l'
  assume c: "c = Some l" and l': "stored_lease lde de key (exec ser de op s) = Some l'"
    and eq: "le_resource_version l = le_resource_version l'"
  have inv: "hist_ok s" "ms_revision s < i64_max" using assms(1) by (auto simp: store_inv_def)
  have "store_step ser de s op (exec ser de op s)" using inv(2) by (simp add: store_step_def)
  then have entry: "entry_step de s (exec ser de op s)"
    using store_entry_step lease_op_ok [OF assms(2)] round_trip inv(1) by blast
  obtain n where n: "n \<le> ms_revision s" "le_resource_version l = Some (show_int n)"
    using assms(1) c by (auto simp: store_inv_def cache_ok_def)
  obtain x where x: "ms_data (exec ser de op s) key = Some x"
    using l' by (auto simp: stored_lease_def split: option.splits)
  have "lease_at lde de key (exec ser de op s)"
    using store_inv_exec [OF assms(1,2)] by (simp add: store_inv_def lock_ok_def)
  then obtain v where v: "de x = Some v" "resource_version_of v = Some (show_int n)"
    using stored_version x l' eq n(2) by (metis option.inject)
  have "\<not> (stamped_at de x m \<and> ms_revision s < m)" for m
    using v n(1) show_int_inj by (fastforce simp: stamped_at_def)
  then have "ms_data (exec ser de op s) key = ms_data s key"
    using entry x unfolding entry_step_def by (metis option.distinct(1) option.inject)
  then have "stored_lease lde de key s = Some l'" using l' by (simp add: stored_lease_def)
  then show "record_of_lease l = record_of_lease l'" using assms(3) c eq by (simp add: version_fixed_def)
qed

lemma store_inv_execs:
  assumes "store_inv lde de key (k + length ops) (s, c)" and "\<forall>op \<in> set ops. lease_op lser key op"
    and "version_fixed lde de key s c"
  shows "store_inv lde de key k (fold (exec ser de) ops s, c) \<and> version_fixed lde de key (fold (exec ser de) ops s) c"
  using assms
proof (induction ops arbitrary: s)
  case (Cons op ops)
  have inv: "store_inv lde de key (Suc (k + length ops)) (s, c)" "lease_op lser key op" using Cons.prems by simp_all
  show ?case
    using Cons.IH [OF store_inv_exec [OF inv]] Cons.prems(2) version_fixed_exec [OF inv Cons.prems(3)] by simp
qed simp

lemma interfere_keeps:
  assumes "shared_ok lser lde de key k sh"
  shows "shared_ok lser lde de key k (interfere ser de sh)" "seen (interfere ser de sh) = seen sh"
    "sh_log (interfere ser de sh) = sh_log sh"
proof -
  show "shared_ok lser lde de key k (interfere ser de sh)"
  proof (cases "sh_env sh")
    case Nil
    then show ?thesis using assms by (simp add: interfere_def)
  next
    case (Cons ops rest)
    have "store_inv lde de key ((k + length (concat rest)) + length ops) (sh_store sh, sh_cache sh)"
      "\<forall>op \<in> set ops. lease_op lser key op" "version_fixed lde de key (sh_store sh) (sh_cache sh)"
      using assms Cons by (auto simp: shared_ok_def ac_simps)
    from store_inv_execs [OF this] show ?thesis using assms Cons by (simp add: shared_ok_def interfere_def)
  qed
qed (simp_all add: interfere_def seen_def split: list.splits)

end


text \<open>The three operations of the lock, between two interferences.\<close>

definition lock_fine ::
  "(json \<Rightarrow> lease option) \<Rightarrow> ('x \<Rightarrow> json option) \<Rightarrow> string \<Rightarrow> nat \<Rightarrow> 'x memory_storage \<times> lease option \<Rightarrow> bool" where
  "lock_fine lde de key k st \<longleftrightarrow> store_inv lde de key k st \<and> version_fixed lde de key (fst st) (snd st)"

lemma shared_ok_fine:
  "shared_ok lser lde de key k sh \<longleftrightarrow>
     (\<forall>ops \<in> set (sh_env sh). \<forall>op \<in> set ops. lease_op lser key op)
     \<and> lock_fine lde de key (k + length (concat (sh_env sh))) (sh_store sh, sh_cache sh)"
  by (auto simp: shared_ok_def lock_fine_def)

context lease_codec
begin

lemma fine_cached:
  assumes "store_inv lde de key k (s, c)" and "stored_lease lde de key s = Some l"
  shows "lock_fine lde de key k (s, Some l)"
  using assms stored_lease_revision [OF assms] store_inv_cache [OF assms(1)]
  by (auto simp: lock_fine_def version_fixed_def)

lemma fine_get:
  assumes "lock_fine lde de (lock_key ns name) k st"
    and "rl_get (lease_lock (mem_lease_storage lser lde ser de uid now) fresh ns name me) st = (g, st')"
  shows "lock_fine lde de (lock_key ns name) k st' \<and>
    (case g of Inl e \<Rightarrow> st' = st | Inr r \<Rightarrow> map_option record_of_lease (snd st') = Some r)"
proof -
  have ok: "lock_ok lde de (lock_key ns name) st" and inv: "store_inv lde de (lock_key ns name) k (fst st, snd st)"
    using assms(1) by (simp_all add: lock_fine_def store_inv_def)
  show ?thesis
    using assms lock_get [OF ok, of uid now fresh me] fine_cached [OF inv]
    by (auto split: option.splits)
qed

lemma fine_update:
  assumes "lock_fine lde de (lock_key ns name) (Suc k) st"
    and "rl_update (lease_lock (mem_lease_storage lser lde ser de uid now) fresh ns name me) r st = (u, st')"
  shows "lock_fine lde de (lock_key ns name) k st' \<and>
    (case u of
       Inl e \<Rightarrow> snd st' = snd st
     | Inr x \<Rightarrow> map_option record_of_lease (snd st) \<noteq> None
         \<and> stored_record lde de (lock_key ns name) (fst st) = map_option record_of_lease (snd st)
         \<and> map_option record_of_lease (snd st') = Some (micro_record r)
         \<and> stored_record lde de (lock_key ns name) (fst st') = Some (micro_record r))"
proof (cases "snd st")
  case None
  then show ?thesis
    using assms store_inv_weaken by (auto simp: lock_fine_def lease_lock_def lease_lock_update_def)
next
  case (Some c)
  let ?k = "lock_key ns name"
  let ?c = "c\<lparr>le_spec := Some (record_to_lease_spec r)\<rparr>"
  obtain q s' where q: "st_update (mem_lease_storage lser lde ser de uid now) (fst st) ?k ?c = (q, s')" by fastforce
  have inv: "store_inv lde de ?k (Suc k) (fst st, snd st)" "version_fixed lde de ?k (fst st) (snd st)"
    using assms(1) by (simp_all add: lock_fine_def)
  have exec: "s' = exec ser de (OpUpdate ?k (lser ?c) 0) (fst st)"
    using q by (auto simp: mem_lease_storage_def ms_update_def map_prod_def split: prod.splits)
  have op: "lease_op lser ?k (OpUpdate ?k (lser ?c) 0)" using lease_metadata by auto
  have inv': "store_inv lde de ?k k (s', snd st)" "version_fixed lde de ?k s' (snd st)"
    unfolding exec using store_inv_exec [OF inv(1) op] version_fixed_exec [OF inv(1) op inv(2)] by auto
  have res: "(u, st') = (case q of Inl e \<Rightarrow> (Inl e, s', snd st) | Inr l \<Rightarrow> (Inr (), s', Some l))"
    using assms(2) q Some by (auto simp: lease_lock_def lease_lock_update_def split: sum.splits)
  show ?thesis
  proof (cases q)
    case (Inl e)
    then show ?thesis using res inv' by (simp add: lock_fine_def)
  next
    case (Inr l)
    obtain n where n: "le_resource_version ?c = Some (show_int n)" and at: "lease_at lde de ?k (fst st)"
      using inv(1) Some by (auto simp: store_inv_def lock_ok_def)
    obtain l0 where l0: "stored_lease lde de ?k (fst st) = Some l0" "le_resource_version l0 = le_resource_version c"
      and l: "stored_lease lde de ?k s' = Some l" "record_of_lease l = micro_record r"
      using mem_update_ok [OF at n q [unfolded Inr]] by auto
    have "record_of_lease c = record_of_lease l0" using inv(2) Some l0 by (simp add: version_fixed_def)
    then show ?thesis using res Inr fine_cached [OF inv'(1) l(1)] l l0 Some by (simp add: stored_record_def)
  qed
qed

lemma fine_create:
  assumes "lock_fine lde de (lock_key ns name) (Suc k) st"
    and "rl_create (lease_lock (mem_lease_storage lser lde ser de uid now) fresh ns name me) r st = (u, st')"
  shows "lock_fine lde de (lock_key ns name) k st' \<and>
    (case u of
       Inl e \<Rightarrow> snd st' = snd st
     | Inr x \<Rightarrow> stored_record lde de (lock_key ns name) (fst st) = None
         \<and> map_option record_of_lease (snd st') = Some (micro_record r)
         \<and> stored_record lde de (lock_key ns name) (fst st') = Some (micro_record r))"
proof -
  let ?k = "lock_key ns name"
  let ?c = "(lease_new fresh name ns)\<lparr>le_spec := Some (record_to_lease_spec r)\<rparr>"
  obtain q s' where q: "st_create (mem_lease_storage lser lde ser de uid now) (fst st) ?k ?c = (q, s')" by fastforce
  have inv: "store_inv lde de ?k (Suc k) (fst st, snd st)" "version_fixed lde de ?k (fst st) (snd st)"
    using assms(1) by (simp_all add: lock_fine_def)
  have op: "lease_op lser ?k (OpCreate ?k (lser ?c) 0 uid now)" using lease_metadata by auto
  have inv': "store_inv lde de ?k k (s', snd st)" "version_fixed lde de ?k s' (snd st)"
    using store_inv_exec [OF inv(1) op] version_fixed_exec [OF inv(1) op inv(2)] mem_create [OF q] by auto
  have res: "(u, st') = (case q of Inl e \<Rightarrow> (Inl e, s', snd st) | Inr l \<Rightarrow> (Inr (), s', Some l))"
    using assms(2) q by (auto simp: lease_lock_def lease_lock_create_def split: sum.splits)
  show ?thesis
  proof (cases q)
    case (Inl e)
    then show ?thesis using res inv' by (simp add: lock_fine_def)
  next
    case (Inr l)
    have l: "ms_data (fst st) ?k = None" "stored_lease lde de ?k s' = Some l" "record_of_lease l = micro_record r"
      using mem_create [OF q] Inr by auto
    then show ?thesis
      using res Inr fine_cached [OF inv'(1) l(2)] by (simp add: stored_record_def stored_lease_def)
  qed
qed

end

sublocale lease_codec \<subseteq> shared: lock_contract
    "shared_lock lser lde ser de uid now fresh ns name me" LeaseLock.seen sh_log
    "shared_ok lser lde de (lock_key ns name)" micro_record
  for uid now fresh ns name me
proof unfold_locales
  let ?L = "lease_lock (mem_lease_storage lser lde ser de uid now) fresh ns name me"
  let ?S = "shared_lock lser lde ser de uid now fresh ns name me"
  let ?ok = "shared_ok lser lde de (lock_key ns name)"
  fix k st st' r e u
  {
    assume ok: "?ok k st"
    note keeps = interfere_keeps [OF this]
    obtain g s c where L: "rl_get ?L (sh_store (interfere ser de st), sh_cache (interfere ser de st)) = (g, s, c)"
      by (metis prod_cases3)
    have S: "rl_get ?S st = (g, (interfere ser de st)\<lparr>sh_store := s, sh_cache := c\<rparr>)"
      using L by (simp add: shared_lock_def Let_def on_lock_def)
    note fine = fine_get [OF conjunct2 [OF keeps(1) [unfolded shared_ok_fine]] L]
    show "rl_get ?S st = (Inr r, st') \<Longrightarrow> seen st' = Some r \<and> sh_log st' = sh_log st \<and> ?ok k st'"
      using S fine keeps by (auto simp: shared_ok_fine seen_def)
    show "rl_get ?S st = (Inl e, st') \<Longrightarrow> seen st' = seen st \<and> sh_log st' = sh_log st \<and> ?ok k st'"
      using S fine keeps by (auto simp: shared_ok_fine seen_def)
  }
  assume ok: "?ok (Suc k) st"
  note keeps = interfere_keeps [OF this]
  have fine0: "lock_fine lde de (lock_key ns name) (Suc (k + length (concat (sh_env (interfere ser de st)))))
      (sh_store (interfere ser de st), sh_cache (interfere ser de st))"
    using keeps(1) by (simp add: shared_ok_fine)
  obtain g s c where L: "rl_update ?L r (sh_store (interfere ser de st), sh_cache (interfere ser de st)) = (g, s, c)"
    by (metis prod_cases3)
  have S: "rl_update ?S r st = logged lde de (lock_key ns name)
      (g, (interfere ser de st)\<lparr>sh_store := s, sh_cache := c\<rparr>) (interfere ser de st)"
    using L by (simp add: shared_lock_def Let_def on_lock_def)
  note fine = fine_update [OF fine0 L]
  show "rl_update ?S r st = (Inr u, st') \<Longrightarrow> seen st \<noteq> None \<and> seen st' = Some (micro_record r)
      \<and> sh_log st' = sh_log st @ [(seen st, micro_record r)] \<and> ?ok k st'"
    using S fine keeps by (auto simp: shared_ok_fine seen_def logged_def split: sum.splits)
  show "rl_update ?S r st = (Inl e, st') \<Longrightarrow> seen st' = seen st \<and> sh_log st' = sh_log st \<and> ?ok k st'"
    using S fine keeps by (auto simp: shared_ok_fine seen_def logged_def split: sum.splits)
  obtain g' s' c' where L': "rl_create ?L r (sh_store (interfere ser de st), sh_cache (interfere ser de st)) = (g', s', c')"
    by (metis prod_cases3)
  have S': "rl_create ?S r st = logged lde de (lock_key ns name)
      (g', (interfere ser de st)\<lparr>sh_store := s', sh_cache := c'\<rparr>) (interfere ser de st)"
    using L' by (simp add: shared_lock_def Let_def on_lock_def)
  note fine' = fine_create [OF fine0 L']
  show "rl_create ?S r st = (Inr u, st') \<Longrightarrow> seen st' = Some (micro_record r)
      \<and> sh_log st' = sh_log st @ [(None, micro_record r)] \<and> ?ok k st'"
    using S' fine' keeps by (auto simp: shared_ok_fine seen_def logged_def split: sum.splits)
  show "rl_create ?S r st = (Inl e, st') \<Longrightarrow> seen st' = seen st \<and> sh_log st' = sh_log st \<and> ?ok k st'"
    using S' fine' keeps by (auto simp: shared_ok_fine seen_def logged_def split: sum.splits)
  show "?ok k st" using ok by (auto simp: shared_ok_def store_inv_def)
qed (simp_all add: micro_record_def)


section \<open>A concrete JSON form of leases\<close>

text \<open>A JSON form of leases with the field names \<open>serde\<close> derives, a time written as its number of microseconds.\<close>

definition put_opt :: "string \<Rightarrow> ('a \<Rightarrow> json) \<Rightarrow> 'a option \<Rightarrow> (string \<times> json) list \<Rightarrow> (string \<times> json) list" where
  "put_opt k f x m = (case x of None \<Rightarrow> m | Some v \<Rightarrow> obj_insert k (f v) m)"

definition micro_json :: "date_time \<Rightarrow> json" where
  "micro_json t = JInt (t div 1000)"

definition opt_str :: "(string \<times> json) list \<Rightarrow> string \<Rightarrow> string option" where
  "opt_str m k = Option.bind (map_of m k) as_str"

definition opt_int :: "(string \<times> json) list \<Rightarrow> string \<Rightarrow> int option" where
  "opt_int m k = (case map_of m k of Some (JInt i) \<Rightarrow> Some i | _ \<Rightarrow> None)"

definition spec_json :: "lease_spec \<Rightarrow> json" where
  "spec_json sp = JObject
     (put_opt ''holderIdentity'' JString (lsp_holder_identity sp)
     (put_opt ''leaseDurationSeconds'' JInt (lsp_lease_duration_seconds sp)
     (put_opt ''acquireTime'' micro_json (lsp_acquire_time sp)
     (put_opt ''renewTime'' micro_json (lsp_renew_time sp)
     (put_opt ''leaseTransitions'' JInt (lsp_lease_transitions sp)
     (put_opt ''preferredHolder'' JString (lsp_preferred_holder sp)
     (put_opt ''strategy'' JString (lsp_strategy sp) [])))))))"

definition json_spec :: "json \<Rightarrow> lease_spec" where
  "json_spec v = (case v of JObject m \<Rightarrow>
      \<lparr>lsp_holder_identity = opt_str m ''holderIdentity'',
       lsp_lease_duration_seconds = opt_int m ''leaseDurationSeconds'',
       lsp_acquire_time = map_option (\<lambda>i. i * 1000) (opt_int m ''acquireTime''),
       lsp_renew_time = map_option (\<lambda>i. i * 1000) (opt_int m ''renewTime''),
       lsp_lease_transitions = opt_int m ''leaseTransitions'',
       lsp_preferred_holder = opt_str m ''preferredHolder'',
       lsp_strategy = opt_str m ''strategy''\<rparr>
    | _ \<Rightarrow> lease_spec_default)"

definition lease_json :: "lease \<Rightarrow> json" where
  "lease_json l = JObject (put_opt ''spec'' spec_json (le_spec l)
     [(''apiVersion'', JString ''coordination.k8s.io/v1''), (''kind'', JString ''Lease''),
      (''metadata'', JObject
         (put_opt ''namespace'' JString (le_namespace l)
         (put_opt ''resourceVersion'' JString (le_resource_version l)
            [(''name'', JString (le_name l)), (''uid'', JString (le_uid l))])))])"

definition json_lease :: "json \<Rightarrow> lease option" where
  "json_lease v = (case jget v ''metadata'' of
      Some (JObject mm) \<Rightarrow> Some
        \<lparr>le_name = opt_or (opt_str mm ''name'') '''', le_namespace = opt_str mm ''namespace'',
         le_uid = opt_or (opt_str mm ''uid'') '''', le_resource_version = opt_str mm ''resourceVersion'',
         le_spec = map_option json_spec (jget v ''spec'')\<rparr>
    | _ \<Rightarrow> None)"

lemma map_of_put_opt [simp]:
  "map_of (put_opt k f x m) = (case x of None \<Rightarrow> map_of m | Some v \<Rightarrow> (map_of m)(k \<mapsto> f v))"
  by (simp add: put_opt_def split: option.splits)

lemma json_spec_round: "json_spec (spec_json sp) = micro_spec sp"
  by (cases sp) (simp add: json_spec_def spec_json_def micro_spec_def opt_str_def opt_int_def as_str_def micro_json_def
      micro_def minus_mod_eq_div_mult split: option.splits)

lemma lease_json_meta:
  "metadata_obj (lease_json l) = Some (put_opt ''namespace'' JString (le_namespace l)
     (put_opt ''resourceVersion'' JString (le_resource_version l)
        [(''name'', JString (le_name l)), (''uid'', JString (le_uid l))]))"
  by (simp add: metadata_obj_def jget_def lease_json_def split: option.splits)

lemma spec_of_metadata: "jget (with_metadata v mm) ''spec'' = jget v ''spec''"
  by (simp add: jget_def with_metadata_def split: json.splits)

lemma json_lease_with:
  "metadata_obj v \<noteq> None \<Longrightarrow> json_lease (with_metadata v mm) = Some
     \<lparr>le_name = opt_or (opt_str mm ''name'') '''', le_namespace = opt_str mm ''namespace'',
      le_uid = opt_or (opt_str mm ''uid'') '''', le_resource_version = opt_str mm ''resourceVersion'',
      le_spec = map_option json_spec (jget v ''spec'')\<rparr>"
  by (simp add: json_lease_def jget_with_metadata spec_of_metadata)

lemma lease_json_spec: "map_option json_spec (jget (lease_json l) ''spec'') = map_option micro_spec (le_spec l)"
  by (simp add: jget_def lease_json_def json_spec_round split: option.splits)

interpretation json_leases: lease_codec lease_json json_lease id Some
proof unfold_locales
  fix l :: lease and rv uid now
  show "metadata_obj (lease_json l) \<noteq> None" by (simp add: lease_json_meta)
  show "resource_version_of (lease_json l) =
      (case le_resource_version l of None \<Rightarrow> None | Some rv \<Rightarrow> if rv = '''' then None else Some rv)"
    by (simp add: resource_version_of_def extract_resource_version_def as_str_def jget_def lease_json_def split: option.splits)
  show "json_lease (set_metadata ''resourceVersion'' (JString rv) (lease_json l))
      = Some ((micro_lease l)\<lparr>le_resource_version := Some rv\<rparr>)"
    by (cases l) (simp add: set_metadata_def lease_json_meta json_lease_with lease_json_spec micro_lease_def opt_str_def
        opt_or_def as_str_def split: option.splits)
  let ?mm = "put_opt ''namespace'' JString (le_namespace l)
     (put_opt ''resourceVersion'' JString (le_resource_version l) [(''name'', JString (le_name l)), (''uid'', JString (le_uid l))])"
  obtain mm where mm: "fill_metadata uid now (lease_json l) = with_metadata (lease_json l) mm"
    "map_of mm ''name'' = map_of ?mm ''name''" "map_of mm ''namespace'' = map_of ?mm ''namespace''"
    by (auto simp: fill_metadata_def lease_json_meta Let_def split: option.splits if_splits)
  show "\<exists>u. json_lease (set_metadata ''resourceVersion'' (JString rv) (fill_metadata uid now (lease_json l)))
      = Some ((micro_lease l)\<lparr>le_resource_version := Some rv, le_uid := u\<rparr>)"
  proof -
    let ?v = "with_metadata (lease_json l) mm"
    have v: "metadata_obj ?v = Some mm" by (simp add: lease_json_meta)
    have "json_lease (set_metadata ''resourceVersion'' (JString rv) ?v) = Some
        \<lparr>le_name = le_name l, le_namespace = le_namespace l, le_uid = opt_or (opt_str mm ''uid'') '''',
         le_resource_version = Some rv, le_spec = map_option micro_spec (le_spec l)\<rparr>"
      using mm(2,3) v
      by (simp add: set_metadata_def json_lease_with spec_of_metadata lease_json_spec opt_str_def opt_or_def as_str_def
          split: option.splits)
    then show ?thesis unfolding mm(1) by (cases l) (simp add: micro_lease_def)
  qed
qed simp_all


section \<open>Reachable states of an elector\<close>

text \<open>An elector starts knowing nothing; before each storage operation of each of its calls, other processes
  may write leases under the key of the lock, delete it, let it expire, and change anything elsewhere.
  Revisions stay in range.\<close>

inductive elector_reach ::
  "(lease \<Rightarrow> json) \<Rightarrow> (json \<Rightarrow> lease option) \<Rightarrow> (json \<Rightarrow> 'x) \<Rightarrow> ('x \<Rightarrow> json option) \<Rightarrow> string \<Rightarrow> string \<Rightarrow> string \<Rightarrow> election_config \<Rightarrow>
   observed \<Rightarrow> 'x shared \<Rightarrow> bool"
  for lser lde ser de ns name me cfg where
  elector_start:
    "elector_reach lser lde ser de ns name me cfg observed_new
       \<lparr>sh_store = with_history_capacity cap, sh_cache = None, sh_env = env, sh_log = []\<rparr>"
    if "\<forall>ops \<in> set env. \<forall>op \<in> set ops. lease_op lser (lock_key ns name) op"
      and "int (length (concat env)) + 3 < i64_max"
| elector_call:
    "elector_reach lser lde ser de ns name me cfg ob' (sh'\<lparr>sh_env := env\<rparr>)"
    if "elector_reach lser lde ser de ns name me cfg ob sh"
      and "try_acquire_or_renew (shared_lock lser lde ser de uid stamp fresh ns name me) cfg ob sh now t1 t2 = (res, ob', sh')"
      and "\<forall>ops \<in> set env. \<forall>op \<in> set ops. lease_op lser (lock_key ns name) op"
      and "ms_revision (sh_store sh') + int (length (concat env)) + 2 < i64_max"

inductive_cases elector_reachE: "elector_reach lser lde ser de ns name me cfg ob sh"

lemma shared_ok_start:
  assumes "\<forall>ops \<in> set env. \<forall>op \<in> set ops. lease_op lser key op" and "int (length (concat env)) + 3 < i64_max"
  shows "shared_ok lser lde de key 2 \<lparr>sh_store = with_history_capacity cap, sh_cache = None, sh_env = env, sh_log = []\<rparr>"
  using assms hist_ok_new [of cap] all_stamped_new [of de cap]
  by (simp add: shared_ok_def store_inv_def lock_ok_def cache_ok_def lease_at_def version_fixed_def with_history_capacity_def)

lemma shared_ok_env:
  assumes "shared_ok lser lde de key k sh" and "\<forall>ops \<in> set env. \<forall>op \<in> set ops. lease_op lser key op"
    and "ms_revision (sh_store sh) + int (length (concat env)) + 2 < i64_max"
  shows "shared_ok lser lde de key 2 (sh\<lparr>sh_env := env\<rparr>)"
  using assms by (simp add: shared_ok_def store_inv_def lock_ok_def cache_ok_def)

context lease_codec
begin

lemma elector_reach_inv:
  assumes "elector_reach lser lde ser de ns name me cfg ob sh"
  shows "shared_ok lser lde de (lock_key ns name) 2 sh \<and> agrees ob (LeaseLock.seen sh)"
  using assms
proof (induction rule: elector_reach.induct)
  case (elector_start env cap)
  then show ?case using shared_ok_start by (auto simp: seen_def agrees_def)
next
  case (elector_call ob sh uid stamp fresh now t1 t2 res ob' sh' env)
  have "shared.outcome uid stamp fresh ns name me ob now t1 sh res ob' sh'"
    using shared.call_outcome elector_call.IH elector_call.hyps(2) by blast
  then have "shared_ok lser lde de (lock_key ns name) 0 sh'" "agrees ob' (LeaseLock.seen sh')"
    by (simp_all add: shared.outcome_def)
  then show ?case using shared_ok_env elector_call.hyps(3,4) by (auto simp: seen_def)
qed

lemma reachable_call:
  assumes "elector_reach lser lde ser de ns name me cfg ob sh"
    and "try_acquire_or_renew (shared_lock lser lde ser de uid stamp fresh ns name me) cfg ob sh now t1 t2 = (res, ob', sh')"
  shows "if res then \<exists>old new. sh_log sh' = sh_log sh @ [(old, new)] \<and> rightful me ob now t1 old new
      \<and> ler_holder_identity (ob_record ob') = me
    else sh_log sh' = sh_log sh"
proof -
  have "shared.outcome uid stamp fresh ns name me ob now t1 sh res ob' sh'"
    using shared.call_outcome elector_reach_inv [OF assms(1)] assms(2) by blast
  moreover have "rl_identity (shared_lock lser lde ser de uid stamp fresh ns name me) = me"
    by (simp add: shared_lock_def Let_def lease_lock_def)
  ultimately show ?thesis by (auto simp: shared.outcome_def is_leader_def)
qed

end


text \<open>Without interference and injected conflicts, the operations of the lock succeed when they should.\<close>

definition undisturbed :: "'x shared \<Rightarrow> bool" where
  "undisturbed sh \<longleftrightarrow> sh_env sh = [] \<and> ms_conflict_update_count (sh_store sh) = 0"

context lease_codec
begin

lemma get_value:
  assumes "shared_ok lser lde de (lock_key ns name) k sh"
  shows "rl_get (shared_lock lser lde ser de uid stamp fresh ns name me) sh =
    (case stored_lease lde de (lock_key ns name) (sh_store (interfere ser de sh)) of
       None \<Rightarrow> (Inl (NotFound (lock_key ns name)), interfere ser de sh)
     | Some l \<Rightarrow> (Inr (record_of_lease l), (interfere ser de sh)\<lparr>sh_cache := Some l\<rparr>))"
proof -
  let ?sh = "interfere ser de sh"
  have "lock_ok lde de (lock_key ns name) (sh_store ?sh, sh_cache ?sh)"
    using interfere_keeps(1) [OF assms] by (simp add: shared_ok_def store_inv_def)
  from lock_get [OF this, of uid stamp fresh me] show ?thesis
    by (simp add: shared_lock_def Let_def on_lock_def split: option.splits)
qed

lemma update_succeeds:
  assumes "lease_at lde de (lock_key ns name) (sh_store sh)" and "undisturbed sh"
    and "stored_lease lde de (lock_key ns name) (sh_store sh) = Some l" and "sh_cache sh = Some l"
  shows "fst (rl_update (shared_lock lser lde ser de uid stamp fresh ns name me) r sh) = Inr ()"
proof -
  let ?k = "lock_key ns name"
  let ?c = "l\<lparr>le_spec := Some (record_to_lease_spec r)\<rparr>"
  let ?n = "set_metadata ''resourceVersion'' (JString (show_int (wrap64 (ms_revision (sh_store sh) + 1)))) (lser ?c)"
  obtain x where x: "ms_data (sh_store sh) ?k = Some x" using assms(3) by (auto simp: stored_lease_def split: option.splits)
  obtain v n where v: "de x = Some v" "le_resource_version l = Some (show_int n)" "resource_version_of v = Some (show_int n)"
    using stored_version [OF assms(1) x] assms(3) by (metis option.inject)
  have "resource_version_of (lser ?c) = Some (show_int n)" using v(2) lease_version [of ?c] show_int_nonempty by simp
  then have "fst (ms_update ser de (sh_store sh) ?k (lser ?c)) = Inr ?n"
    using assms(2) x v(1,3)
    by (simp add: undisturbed_def ms_update_def update_with_ttl_def update_commit_def Let_def stamp_revision_def decode_def
        serde mod_revision_to_resource_version_def)
  moreover have "lde ?n \<noteq> None" using decode_stamped show_int_nonempty by simp
  ultimately show ?thesis
    using assms(2,4)
    by (auto simp: undisturbed_def shared_lock_def Let_def on_lock_def interfere_def logged_def lease_lock_def
        lease_lock_update_def mem_lease_storage_def typed_lease_def map_prod_def split: prod.splits option.splits)
qed

lemma update_fails:
  assumes "undisturbed sh" and "rl_update (shared_lock lser lde ser de uid stamp fresh ns name me) r sh = (Inl e, sh')"
  shows "sh' = sh"
proof (cases "sh_cache sh")
  case None
  then show ?thesis
    using assms by (cases sh) (auto simp: undisturbed_def shared_lock_def Let_def on_lock_def interfere_def logged_def
        lease_lock_def lease_lock_update_def)
next
  case (Some l)
  let ?c = "l\<lparr>le_spec := Some (record_to_lease_spec r)\<rparr>"
  obtain q s where q: "st_update (mem_lease_storage lser lde ser de uid stamp) (sh_store sh) (lock_key ns name) ?c = (q, s)"
    by fastforce
  obtain e' where e: "q = Inl e'" "sh' = sh\<lparr>sh_store := s\<rparr>"
    using assms Some q
    by (cases q) (auto simp: undisturbed_def shared_lock_def Let_def on_lock_def interfere_def logged_def lease_lock_def
        lease_lock_update_def split: option.splits)
  have dec: "lde (set_metadata ''resourceVersion'' (JString (show_int i)) (lser ?c)) \<noteq> None" for i
    using decode_stamped show_int_nonempty by simp
  obtain w where w: "ms_update ser de (sh_store sh) (lock_key ns name) (lser ?c) = (w, s)" "typed_lease lde w = Inl e'"
    using q e(1) by (cases "ms_update ser de (sh_store sh) (lock_key ns name) (lser ?c)") (auto simp: mem_lease_storage_def)
  have "\<exists>i. v = set_metadata ''resourceVersion'' (JString (show_int i)) (lser ?c)" if "w = Inr v" for v
    using w(1) that
    by (auto simp: ms_update_def update_with_ttl_def update_commit_def stamp_revision_def Let_def decode_def serde
        mod_revision_to_resource_version_def split: if_splits option.splits)
  moreover have "typed_lease lde (Inr (set_metadata ''resourceVersion'' (JString (show_int i)) (lser ?c))) \<noteq> Inl e'" for i
    using dec [of i] by (auto simp: typed_lease_def)
  ultimately have "\<exists>e. w = Inl e" using w(2) by (cases w) blast+
  then have "s = sh_store sh"
    using w(1) assms(1)
    by (auto simp: undisturbed_def ms_update_def update_with_ttl_def update_commit_def stamp_revision_def Let_def decode_def
        serde split: if_splits option.splits)
  then show ?thesis using e by simp
qed

lemma create_succeeds:
  assumes "undisturbed sh" and "lease_at lde de (lock_key ns name) (sh_store sh)"
    and "stored_lease lde de (lock_key ns name) (sh_store sh) = None"
  shows "fst (rl_create (shared_lock lser lde ser de uid stamp fresh ns name me) r sh) = Inr ()"
proof -
  let ?k = "lock_key ns name"
  let ?c = "(lease_new fresh name ns)\<lparr>le_spec := Some (record_to_lease_spec r)\<rparr>"
  obtain q s where q: "st_create (mem_lease_storage lser lde ser de uid stamp) (sh_store sh) ?k ?c = (q, s)" by fastforce
  have "ms_data (sh_store sh) ?k = None" using assms(2,3) by (auto simp: lease_at_def stored_lease_def split: option.splits)
  moreover obtain u where
    "lde (set_metadata ''resourceVersion'' (JString (show_int (wrap64 (ms_revision (sh_store sh) + 1)))) (fill_metadata uid stamp (lser ?c)))
     = Some ((micro_lease ?c)\<lparr>le_resource_version := Some (show_int (wrap64 (ms_revision (sh_store sh) + 1))), le_uid := u\<rparr>)"
    using decode_created show_int_nonempty by blast
  ultimately obtain l where "q = Inr l"
    using q by (auto simp: mem_lease_storage_def map_prod_def ms_create_def create_with_ttl_def create_commit_def
        stamp_revision_def Let_def decode_def serde mod_revision_to_resource_version_def typed_lease_def split: prod.splits)
  then show ?thesis
    using q assms(1)
    by (auto simp: undisturbed_def shared_lock_def Let_def on_lock_def interfere_def logged_def lease_lock_def
        lease_lock_create_def split: option.splits)
qed

end


text \<open>A lease this candidate may take.\<close>

definition free_for :: "string \<Rightarrow> observed \<Rightarrow> date_time \<Rightarrow> date_time \<Rightarrow> leader_election_record \<Rightarrow> bool" where
  "free_for me ob now t1 r \<longleftrightarrow>
     ler_holder_identity r \<in> {'''', me}
     \<or> (if ob_record ob = r then \<not> is_lease_valid ob now else t1 + ler_lease_duration_seconds r * 1000000000 \<le> now)"

context lease_codec
begin

lemma slow_path_succeeds:
  assumes "shared_ok lser lde de (lock_key ns name) k sh" and "undisturbed sh"
    and "\<And>r. stored_record lde de (lock_key ns name) (sh_store sh) = Some r \<Longrightarrow> free_for me ob now t1 r"
  shows "fst (slow_path (shared_lock lser lde ser de uid stamp fresh ns name me) q ob sh now t1 t2)"
proof -
  let ?L = "shared_lock lser lde ser de uid stamp fresh ns name me"
  have quiet: "interfere ser de sh = sh" using assms(2) by (simp add: interfere_def undisturbed_def)
  have at: "lease_at lde de (lock_key ns name) (sh_store sh)" using assms(1) by (simp add: shared_ok_def store_inv_def lock_ok_def)
  have me: "rl_identity ?L = me" by (simp add: shared_lock_def Let_def lease_lock_def)
  show ?thesis
  proof (cases "stored_lease lde de (lock_key ns name) (sh_store sh)")
    case None
    then have "rl_get ?L sh = (Inl (NotFound (lock_key ns name)), sh)" using get_value [OF assms(1)] quiet by simp
    moreover obtain sh' where "rl_create ?L q sh = (Inr (), sh')"
      using create_succeeds [OF assms(2) at None, of uid stamp fresh me q] by (metis prod.collapse)
    ultimately show ?thesis by (simp add: slow_path_def)
  next
    case (Some l)
    then have get: "rl_get ?L sh = (Inr (record_of_lease l), sh\<lparr>sh_cache := Some l\<rparr>)"
      using get_value [OF assms(1)] quiet by simp
    have free: "free_for me ob now t1 (record_of_lease l)" using assms(3) Some by (simp add: stored_record_def)
    have up: "rl_update ?L q' (sh\<lparr>sh_cache := Some l\<rparr>) \<noteq> (Inl e, sh')" for q' e sh'
      using update_succeeds [of ns name "sh\<lparr>sh_cache := Some l\<rparr>" l uid stamp fresh me q'] at Some assms(2)
      by (auto simp: undisturbed_def)
    define ob1 where "ob1 = (if ob_record ob \<noteq> record_of_lease l then ob\<lparr>ob_record := record_of_lease l, ob_time := t1\<rparr> else ob)"
    have "\<not> (ler_holder_identity (record_of_lease l) \<noteq> '''' \<and> is_lease_valid ob1 now \<and> \<not> is_leader ?L ob1)"
      using free by (auto simp: free_for_def ob1_def is_lease_valid_def is_leader_def me split: if_splits)
    then show ?thesis
      unfolding slow_path_def get prod.case sum.case Let_def ob1_def [symmetric]
      by (auto simp: up split: prod.splits sum.splits)
  qed
qed

lemma call_succeeds:
  assumes "shared_ok lser lde de (lock_key ns name) k sh" and "undisturbed sh"
    and "\<And>r. stored_record lde de (lock_key ns name) (sh_store sh) = Some r \<Longrightarrow> free_for me ob now t1 r"
  shows "fst (try_acquire_or_renew (shared_lock lser lde ser de uid stamp fresh ns name me) cfg ob sh now t1 t2)"
proof -
  note slow = slow_path_succeeds [OF assms, of uid stamp fresh _ t2]
  have fast: "rl_update (shared_lock lser lde ser de uid stamp fresh ns name me) r sh = (Inl e, sh1) \<Longrightarrow> sh1 = sh" for r e sh1
    using update_fails [OF assms(2)] by blast
  show ?thesis
    using slow by (auto simp: try_acquire_or_renew_def Let_def split: prod.splits sum.splits dest: fast)
qed

lemma release_succeeds:
  assumes "shared_ok lser lde de (lock_key ns name) (Suc k) sh" and "undisturbed (interfere ser de sh)"
    and "stored_record lde de (lock_key ns name) (sh_store (interfere ser de sh)) = Some old"
    and "ler_holder_identity (ob_record ob) = me"
  shows "\<exists>ob' sh' new. release (shared_lock lser lde ser de uid stamp fresh ns name me) ob sh now t2 = (True, ob', sh')
    \<and> sh_log sh' = sh_log sh @ [(Some old, new)] \<and> ler_holder_identity new = ''''"
proof -
  let ?L = "shared_lock lser lde ser de uid stamp fresh ns name me"
  let ?sh = "interfere ser de sh"
  have ok: "shared_ok lser lde de (lock_key ns name) (Suc k) ?sh" using interfere_keeps(1) [OF assms(1)] .
  have at: "lease_at lde de (lock_key ns name) (sh_store ?sh)" using ok by (simp add: shared_ok_def store_inv_def lock_ok_def)
  obtain l where l: "stored_lease lde de (lock_key ns name) (sh_store ?sh) = Some l" "old = record_of_lease l"
    using assms(3) by (auto simp: stored_record_def)
  have get: "rl_get ?L sh = (Inr old, ?sh\<lparr>sh_cache := Some l\<rparr>)" using get_value [OF assms(1)] l by simp
  let ?sh1 = "?sh\<lparr>sh_cache := Some l\<rparr>"
  have me: "is_leader ?L ob" using assms(4) by (simp add: is_leader_def shared_lock_def Let_def lease_lock_def)
  define r where "r = ler_default\<lparr>ler_leader_transitions := ler_leader_transitions old,
                   ler_lease_duration_seconds := 1, ler_renew_time := now, ler_acquire_time := now\<rparr>"
  obtain sh' where up: "rl_update ?L r ?sh1 = (Inr (), sh')"
    using update_succeeds [of ns name ?sh1 l uid stamp fresh me r] at l assms(2) by (simp add: undisturbed_def) (metis prod.collapse)
  have ok1: "shared_ok lser lde de (lock_key ns name) (Suc k) ?sh1" and seen1: "LeaseLock.seen ?sh1 = Some old"
    using shared.get_ok [OF assms(1) get] by auto
  have "sh_log sh' = sh_log ?sh1 @ [(Some old, micro_record r)]"
    using shared.update_ok [OF ok1 up] seen1 by simp
  moreover have "ler_holder_identity (micro_record r) = ''''" by (simp add: micro_record_def r_def ler_default_def)
  moreover have "release ?L ob sh now t2 = (True, set_observed ob r t2, sh')"
    using me up by (simp add: release_def get Let_def r_def [symmetric])
  ultimately show ?thesis using interfere_keeps(3) [OF assms(1)] by auto
qed

end


section \<open>Properties\<close>

text \<open>C10. A candidate takes the lease of another one only after it expired. Whatever other processes do
  between the storage operations of a call, a call that returns false wrote nothing, and a call that
  returns true made exactly one write, of a lease held by this candidate; if the lease it replaced was
  held by another candidate for a positive duration, it is the very record this elector had observed
  before the call, and that observation is at least its duration old.\<close>

theorem takeover_only_after_expiry:
  assumes "lease_codec lser lde ser de" and "elector_reach lser lde ser de ns name me cfg ob sh"
    and "try_acquire_or_renew (shared_lock lser lde ser de uid stamp fresh ns name me) cfg ob sh now t1 t2 = (res, ob', sh')"
    and "now \<le> t1"
  shows "if res
    then \<exists>old new. sh_log sh' = sh_log sh @ [(old, new)] \<and> ler_holder_identity new = me
      \<and> ler_holder_identity (ob_record ob') = me
      \<and> (\<forall>r. old = Some r \<and> ler_holder_identity r \<notin> {'''', me} \<and> 0 < ler_lease_duration_seconds r \<longrightarrow>
           ob_record ob = r \<and> ob_time ob + ler_lease_duration_seconds r * 1000000000 \<le> now)
    else sh_log sh' = sh_log sh"
proof -
  have expired: "ob_record ob = r \<and> ob_time ob + ler_lease_duration_seconds r * 1000000000 \<le> now"
    if "rightful me ob now t1 (Some r) new" "ler_holder_identity r \<notin> {'''', me}" "0 < ler_lease_duration_seconds r" for r new
    using that assms(4) by (auto simp: rightful_def is_lease_valid_def split: if_splits)
  have holder: "ler_holder_identity new = me" if "rightful me ob now t1 old new" for old new
    using that by (simp add: rightful_def)
  show ?thesis
    using lease_codec.reachable_call [OF assms(1,2,3)] expired holder by (cases res) (simp_all, metis)
qed


text \<open>Leadership transitions are counted exactly. In every reachable state, each write this elector ever
  made kept the number of transitions when it renewed the candidate's own lease, and added one (at the
  width of the field) when the lease it replaced was not held by the candidate.\<close>

lemma transitions_count_takeovers:
  assumes "lease_codec lser lde ser de" and "elector_reach lser lde ser de ns name me cfg ob sh"
    and "(Some old, new) \<in> set (sh_log sh)"
  shows "ler_holder_identity new = me
    \<and> ler_leader_transitions new =
        (if ler_holder_identity old = me then ler_leader_transitions old else wrap32 (ler_leader_transitions old + 1))"
  using assms(2,3)
proof (induction rule: elector_reach.induct)
  case (elector_call ob sh uid stamp fresh now t1 t2 res ob' sh' env)
  have "(Some old, new) \<in> set (sh_log sh) \<or> rightful me ob now t1 (Some old) new"
    using lease_codec.reachable_call [OF assms(1) elector_call.hyps(1,2)] elector_call.prems by (cases res) auto
  then show ?case using elector_call.IH by (auto simp: rightful_def)
qed simp

text \<open>C38. A free lease is acquired. When nobody interferes and no conflict is injected, a call succeeds if
  the lease does not exist, has no holder, is held by this candidate, or has expired for it.\<close>

theorem free_lease_is_acquired:
  assumes "lease_codec lser lde ser de" and "elector_reach lser lde ser de ns name me cfg ob sh" and "undisturbed sh"
    and "\<forall>r. stored_record lde de (lock_key ns name) (sh_store sh) = Some r \<longrightarrow> free_for me ob now t1 r"
  shows "fst (try_acquire_or_renew (shared_lock lser lde ser de uid stamp fresh ns name me) cfg ob sh now t1 t2)"
  using lease_codec.call_succeeds [OF assms(1) conjunct1 [OF lease_codec.elector_reach_inv [OF assms(1,2)]] assms(3)] assms(4)
  by blast

text \<open>A release clears the lease of a new leader. A release decides by the record the elector observed
  last and not by the record it just read: in every reachable state in which the elector still believes to
  lead, it replaces the lease by one without a holder, whoever holds it by then.\<close>

lemma release_clears_any_holder:
  assumes "lease_codec lser lde ser de" and "elector_reach lser lde ser de ns name me cfg ob sh"
    and "ler_holder_identity (ob_record ob) = me" and "undisturbed (interfere ser de sh)"
    and "stored_record lde de (lock_key ns name) (sh_store (interfere ser de sh)) = Some old"
  shows "\<exists>ob' sh' new. release (shared_lock lser lde ser de uid stamp fresh ns name me) ob sh now t2 = (True, ob', sh')
    \<and> sh_log sh' = sh_log sh @ [(Some old, new)] \<and> ler_holder_identity new = ''''"
proof -
  have "shared_ok lser lde de (lock_key ns name) (Suc 1) sh"
    using lease_codec.elector_reach_inv [OF assms(1,2)] by (simp add: numeral_2_eq_2)
  from lease_codec.release_succeeds [OF assms(1) this assms(4,5,3)] show ?thesis by blast
qed

section \<open>Witnesses\<close>

definition demo_config :: election_config where
  "demo_config = \<lparr>ec_lease_duration = 15000000000, ec_renew_deadline = 10000000000, ec_retry_period = 2000000000,
     ec_release_on_cancel = True\<rparr>"

definition demo_lease :: "string \<Rightarrow> string option \<Rightarrow> date_time \<Rightarrow> lease" where
  "demo_lease holder version t =
     (lease_new ''f'' ''l'' ''n'')\<lparr>le_resource_version := version,
        le_spec := Some (record_to_lease_spec (ler_default\<lparr>ler_holder_identity := holder,
          ler_lease_duration_seconds := 15, ler_renew_time := t, ler_acquire_time := t\<rparr>))\<rparr>"

definition demo_shared :: "store_op list list \<Rightarrow> json shared" where
  "demo_shared env = \<lparr>sh_store = with_history_capacity 10, sh_cache = None, sh_env = env, sh_log = []\<rparr>"

definition demo_call :: "observed \<Rightarrow> json shared \<Rightarrow> date_time \<Rightarrow> bool \<times> observed \<times> json shared" where
  "demo_call ob sh t =
     try_acquire_or_renew (shared_lock lease_json json_lease id Some ''u'' ''s'' ''f'' ''n'' ''l'' ''a'') demo_config ob sh t t t"


text \<open>Candidate \<open>a\<close> finds the lease of \<open>b\<close>, waits, and takes it.\<close>

definition demo_key :: string where
  "demo_key = lock_key ''n'' ''l''"

definition demo_env :: "store_op list list" where
  "demo_env = [[OpCreate demo_key (lease_json (demo_lease ''b'' None 0)) 0 ''ub'' ''sb'']]"

definition demo_seen :: "bool \<times> observed \<times> json shared" where
  "demo_seen = demo_call observed_new (demo_shared demo_env) 1000000000"

definition demo_waiting :: "json shared" where
  "demo_waiting = (snd (snd demo_seen))\<lparr>sh_env := []\<rparr>"

definition demo_taken :: "bool \<times> observed \<times> json shared" where
  "demo_taken = demo_call (fst (snd demo_seen)) demo_waiting 17000000000"

text \<open>Then \<open>b\<close> takes it back, while \<open>a\<close> still believes to lead.\<close>

lemma lease_json_op:
  "lease_op lease_json key (OpCreate k (lease_json l) ttl uid now)" "lease_op lease_json key (OpUpdate k (lease_json l) ttl)"
  using json_leases.lease_metadata by auto

abbreviation demo_reach where
  "demo_reach \<equiv> elector_reach lease_json json_lease id Some ''n'' ''l'' ''a'' demo_config"

lemma demo_reach_start: "demo_reach observed_new (demo_shared demo_env)"
  unfolding demo_shared_def by (rule elector_start) (simp_all add: demo_env_def lease_json_op int_limits del: lease_op.simps)

lemma demo_reach_call:
  assumes "demo_reach ob sh" and "\<forall>ops \<in> set env. \<forall>op \<in> set ops. lease_op lease_json (lock_key ''n'' ''l'') op"
    and "ms_revision (sh_store (snd (snd (demo_call ob sh t)))) + int (length (concat env)) + 2 < i64_max"
  shows "demo_reach (fst (snd (demo_call ob sh t))) ((snd (snd (demo_call ob sh t)))\<lparr>sh_env := env\<rparr>)"
  using assms elector_call [OF assms(1), of "''u''" "''s''" "''f''" t t t "fst (demo_call ob sh t)"] by (simp add: demo_call_def)

lemma demo_reach_waiting: "demo_reach (fst (snd demo_seen)) demo_waiting"
proof -
  have "ms_revision (sh_store (snd (snd demo_seen))) + 2 < i64_max" by code_simp
  then show ?thesis
    unfolding demo_waiting_def demo_seen_def using demo_reach_call [OF demo_reach_start, of "[]"] by simp
qed

theorem takeover_only_after_expiry_witness:
  "fst demo_taken \<and> map (map_option ler_holder_identity \<circ> fst) (sh_log (snd (snd demo_taken))) = [Some ''b'']
   \<and> (\<exists>old new. sh_log (snd (snd demo_taken)) = sh_log demo_waiting @ [(old, new)] \<and> ler_holder_identity new = ''a''
        \<and> (\<forall>r. old = Some r \<and> ler_holder_identity r \<notin> {'''', ''a''} \<and> 0 < ler_lease_duration_seconds r \<longrightarrow>
             ob_record (fst (snd demo_seen)) = r
             \<and> ob_time (fst (snd demo_seen)) + ler_lease_duration_seconds r * 1000000000 \<le> 17000000000))"
proof (intro conjI)
  show taken: "fst demo_taken" by code_simp
  show "map (map_option ler_holder_identity \<circ> fst) (sh_log (snd (snd demo_taken))) = [Some ''b'']" by code_simp
  have call: "try_acquire_or_renew (shared_lock lease_json json_lease id Some ''u'' ''s'' ''f'' ''n'' ''l'' ''a'') demo_config
      (fst (snd demo_seen)) demo_waiting 17000000000 17000000000 17000000000
      = (fst demo_taken, fst (snd demo_taken), snd (snd demo_taken))"
    by (simp add: demo_taken_def demo_call_def)
  show "\<exists>old new. sh_log (snd (snd demo_taken)) = sh_log demo_waiting @ [(old, new)] \<and> ler_holder_identity new = ''a''
        \<and> (\<forall>r. old = Some r \<and> ler_holder_identity r \<notin> {'''', ''a''} \<and> 0 < ler_lease_duration_seconds r \<longrightarrow>
             ob_record (fst (snd demo_seen)) = r
             \<and> ob_time (fst (snd demo_seen)) + ler_lease_duration_seconds r * 1000000000 \<le> 17000000000)"
    using takeover_only_after_expiry [OF json_leases.lease_codec_axioms demo_reach_waiting call] taken by auto
qed

theorem free_lease_is_acquired_witness: "fst demo_taken"
proof -
  have "undisturbed demo_waiting" by code_simp
  moreover have "(case stored_record json_lease Some demo_key (sh_store demo_waiting) of
      None \<Rightarrow> True | Some r \<Rightarrow> free_for ''a'' (fst (snd demo_seen)) 17000000000 17000000000 r)" by code_simp
  ultimately show ?thesis
    using free_lease_is_acquired [OF json_leases.lease_codec_axioms demo_reach_waiting, of 17000000000 17000000000]
    by (simp add: demo_taken_def demo_call_def demo_key_def split: option.splits)
qed

end
