(* ===== verification/Pagination.thy ===== *)
theory Pagination
  imports StorageHistory
begin

text \<open>
  Paged lists: the default \<open>list_paginated\<close> of the storage trait, its continue tokens and the errors of a
  walk that outlives its revision (\<^verbatim>\<open>crates/storage/src/lib.rs\<close>).

  A call makes up to three reads of the backend, and other calls may come between them: the reads are
  the record \<open>storage_reads\<close>, and \<open>mem_reads\<close> takes each from a state of the in-memory store of its own.
  The locale \<open>snapshot_reads\<close> says what a walk needs of the reads: a list at the pinned revision is the
  snapshot or fails. From that the pages of a walk are exactly the sorted snapshot, cut in pieces.
  Shown of the in-memory store: the snapshot is the list when the first page read the revision; tokens
  survive encoding; a compacted walk gets a token to go on with, an evicted one does not.
\<close>

section \<open>Continue tokens\<close>

record continue_token =
  ct_start_key :: string
  ct_compacted_at :: "int option"

definition inconsistent_continue_rv :: int where
  "inconsistent_continue_rv = - 1"

definition encode_default_token :: "string \<Rightarrow> int \<Rightarrow> string" where
  "encode_default_token start_key rv = ''c1:'' @ show_int rv @ '':'' @ start_key"

text \<open>\<open>split_once\<close> of a \<open>str\<close>.\<close>

fun split_once :: "char \<Rightarrow> string \<Rightarrow> (string \<times> string) option" where
  "split_once c [] = None"
| "split_once c (x # xs) =
     (if x = c then Some ([], xs) else map_option (\<lambda>(a, b). (x # a, b)) (split_once c xs))"

definition decode_default_token :: "string \<Rightarrow> (storage_error, continue_token) result" where
  "decode_default_token token =
     (case strip_prefix ''c1:'' token of
        None \<Rightarrow> Inl InvalidResource
      | Some rest \<Rightarrow>
          (case split_once (CHR '':'') rest of
             None \<Rightarrow> Inl InvalidResource
           | Some (rv_str, start_key) \<Rightarrow>
               (case parse_i64 rv_str of
                  None \<Rightarrow> Inl InvalidResource
                | Some rv \<Rightarrow> Inr \<lparr>ct_start_key = start_key, ct_compacted_at = Some rv\<rparr>)))"

section \<open>Errors of an old revision\<close>

definition compacted_continue_error :: "string \<Rightarrow> int \<Rightarrow> storage_error" where
  "compacted_continue_error start_key rv =
     GoneWithContinue (''continue token expired (resource version '' @ show_int rv @ '' has been compacted)'')
       (encode_default_token start_key inconsistent_continue_rv)"

fun contains_str :: "string \<Rightarrow> string \<Rightarrow> bool" where
  "contains_str [] p \<longleftrightarrow> p = []"
| "contains_str (c # s) p \<longleftrightarrow> has_prefix p (c # s) \<or> contains_str s p"

definition is_compaction_error :: "storage_error \<Rightarrow> bool" where
  "is_compaction_error err =
     (case (case err of StorageFailure m \<Rightarrow> Some m | Gone m \<Rightarrow> Some m | GoneWithContinue m _ \<Rightarrow> Some m | _ \<Rightarrow> None) of
        None \<Rightarrow> False
      | Some msg \<Rightarrow> contains_str msg ''has been compacted'' \<or> contains_str msg ''OutOfRange'')"

section \<open>A page\<close>

definition default_sort_key :: "json \<Rightarrow> string" where
  "default_sort_key v =
     (let field = (\<lambda>f. case Option.bind (Option.bind (jget v ''metadata'') (\<lambda>m. jget m f)) as_str of None \<Rightarrow> '''' | Some s \<Rightarrow> s);
          ns = field ''namespace''; name = field ''name''
      in if ns = '''' then name else ns @ ''/'' @ name)"

text \<open>The backend as one call sees it under a prefix.\<close>

record storage_reads =
  sr_compacted :: "int \<Rightarrow> (storage_error, bool) result"
  sr_current :: "(storage_error, int) result"
  sr_list :: "(storage_error, json list) result"
  sr_list_at :: "int \<Rightarrow> (storage_error, json list) result"

text \<open>A page and the token of the next one, an error, or the panic of \<open>drain\<close> on a reversed range.\<close>

datatype 'a page =
    Page "'a list" "string option"
  | PageError storage_error
  | PagePanic

definition usize_wrap :: "int \<Rightarrow> int" where
  "usize_wrap i = i mod 2 ^ 64"

text \<open>\<open>iter().position(|(k, _)| k >= start_key).unwrap_or(len)\<close>.\<close>

definition start_position :: "string \<Rightarrow> (string \<times> json) list \<Rightarrow> nat" where
  "start_position start_key indexed = length (takeWhile (\<lambda>(k, _). \<not> start_key \<le> k) indexed)"

definition slice_page ::
  "(json \<Rightarrow> 'a option) \<Rightarrow> nat \<Rightarrow> continue_token option \<Rightarrow> json list \<Rightarrow> int \<Rightarrow> 'a page" where
  "slice_page from_value limit decoded all page_rv =
     (let indexed = sort_key fst (map (\<lambda>v. (default_sort_key v, v)) all);
          start = (case decoded of None \<Rightarrow> 0 | Some d \<Rightarrow> start_position (ct_start_key d) indexed);
          end = nat (min (usize_wrap (int start + int limit)) (int (length indexed)));
          next_token = (if end < length indexed
                        then Some (encode_default_token (fst (indexed ! end)) page_rv) else None)
      in if end < start then PagePanic
         else
           (case those (map (from_value \<circ> snd) (take (end - start) (drop start indexed))) of
              None \<Rightarrow> PageError Serialization
            | Some out \<Rightarrow> Page out next_token))"

definition typed_list :: "(json \<Rightarrow> 'a option) \<Rightarrow> (storage_error, json list) result \<Rightarrow> 'a page" where
  "typed_list from_value r =
     (case r of
        Inl e \<Rightarrow> PageError e
      | Inr xs \<Rightarrow> (case those (map from_value xs) of None \<Rightarrow> PageError Serialization | Some ys \<Rightarrow> Page ys None))"

text \<open>A strict token, pinned to a revision the backend says it compacted.\<close>

definition token_compacted :: "storage_reads \<Rightarrow> continue_token option \<Rightarrow> int option" where
  "token_compacted rd decoded =
     (case decoded of
        None \<Rightarrow> None
      | Some d \<Rightarrow>
          if ct_compacted_at d \<noteq> Some inconsistent_continue_rv
          then (case ct_compacted_at d of
                  None \<Rightarrow> None
                | Some rv \<Rightarrow>
                    if rv > 0 \<and> (case sr_compacted rd rv of Inl _ \<Rightarrow> False | Inr b \<Rightarrow> b) then Some rv else None)
          else None)"

definition list_paginated ::
  "(json \<Rightarrow> 'a option) \<Rightarrow> storage_reads \<Rightarrow> nat \<Rightarrow> string option \<Rightarrow> 'a page" where
  "list_paginated from_value rd limit continue_tok =
     (if limit = 0 then typed_list from_value (sr_list rd)
      else
        (case (case continue_tok of
                 None \<Rightarrow> Inr None
               | Some t \<Rightarrow> (case decode_default_token t of Inl e \<Rightarrow> Inl e | Inr d \<Rightarrow> Inr (Some d))) of
           Inl e \<Rightarrow> PageError e
         | Inr decoded \<Rightarrow>
             (let start_key = (case decoded of None \<Rightarrow> '''' | Some d \<Rightarrow> ct_start_key d) in
              case token_compacted rd decoded of
                Some rv \<Rightarrow> PageError (compacted_continue_error start_key rv)
              | None \<Rightarrow>
                  (case (case decoded of
                           None \<Rightarrow> None
                         | Some d \<Rightarrow> (case ct_compacted_at d of None \<Rightarrow> None | Some rv \<Rightarrow> if rv > 0 then Some rv else None)) of
                     Some rv \<Rightarrow>
                       (case sr_list_at rd rv of
                          Inr items \<Rightarrow> slice_page from_value limit decoded items rv
                        | Inl e \<Rightarrow>
                            if is_compaction_error e then PageError (compacted_continue_error start_key rv)
                            else PageError e)
                   | None \<Rightarrow>
                       (case sr_current rd of
                          Inr rv \<Rightarrow>
                            if rv > 0
                            then (case sr_list_at rd rv of
                                    Inl e \<Rightarrow> PageError e
                                  | Inr items \<Rightarrow> slice_page from_value limit decoded items rv)
                            else (case sr_list rd of
                                    Inl e \<Rightarrow> PageError e
                                  | Inr items \<Rightarrow> slice_page from_value limit decoded items 0)
                        | Inl _ \<Rightarrow>
                            (case sr_list rd of
                               Inl e \<Rightarrow> PageError e
                             | Inr items \<Rightarrow> slice_page from_value limit decoded items 0))))))"

text \<open>The in-memory store: the compaction probe, the current revision and the list read the states in which
  they happen.\<close>

definition mem_reads ::
  "('x \<Rightarrow> json option) \<Rightarrow> string \<Rightarrow> 'x memory_storage \<Rightarrow> 'x memory_storage \<Rightarrow> 'x memory_storage \<Rightarrow> storage_reads" where
  "mem_reads de prefix s_probe s_current s_list =
     \<lparr>sr_compacted = (\<lambda>r. Inr (is_revision_compacted s_probe r)),
      sr_current = Inr (current_revision s_current),
      sr_list = ms_list de s_list prefix,
      sr_list_at = list_at_revision de s_list prefix\<rparr>"

text \<open>A client's walk, one call per element of \<open>rds\<close>: the pages, and the token to go on with
  (\<open>None\<close> when the list is complete).\<close>

fun walk :: "(json \<Rightarrow> 'a option) \<Rightarrow> nat \<Rightarrow> string option \<Rightarrow> storage_reads list \<Rightarrow> 'a list list \<times> string option option" where
  "walk from_value limit tok [] = ([], Some tok)"
| "walk from_value limit tok (rd # rds) =
     (case list_paginated from_value rd limit tok of
        Page xs None \<Rightarrow> ([xs], None)
      | Page xs (Some t) \<Rightarrow> (let (ps, rest) = walk from_value limit (Some t) rds in (xs # ps, rest))
      | _ \<Rightarrow> ([], Some tok))"

section \<open>Tokens survive encoding\<close>

lemma split_once_append: "c \<notin> set a \<Longrightarrow> split_once c (a @ c # b) = Some (a, b)"
  by (induction a) auto

lemma show_int_no_colon: "CHR '':'' \<notin> set (show_int i)"
proof -
  have "list_all is_digit (show_nat n)" for n using show_nat_digits by simp
  moreover have "\<not> is_digit CHR '':''" by (simp add: is_digit_def)
  ultimately have "CHR '':'' \<notin> set (show_nat n)" for n by (auto simp: list_all_iff)
  then show ?thesis by (simp add: show_int_def)
qed

lemma decode_encode:
  assumes "fits64 rv"
  shows "decode_default_token (encode_default_token key rv) = Inr \<lparr>ct_start_key = key, ct_compacted_at = Some rv\<rparr>"
  using split_once_append [OF show_int_no_colon, of rv key] parse_int_shown [of fits64, OF assms]
  by (simp add: decode_default_token_def encode_default_token_def strip_prefix_def)

section \<open>Slices of a sorted list\<close>

lemma those_map_Some: "those (map f xs) = Some ys \<longleftrightarrow> map f xs = map Some ys"
proof (induction xs arbitrary: ys)
  case (Cons x xs)
  then show ?case by (cases ys) (auto split: option.splits)
qed auto

text \<open>The position of the key of an element of a list sorted by distinct keys is its index.\<close>

lemma start_position_nth:
  assumes "sorted (map fst xs)" and "distinct (map fst xs)" and "i < length xs"
  shows "start_position (fst (xs ! i)) xs = i"
proof -
  have mono: "fst (xs ! j) < fst (xs ! i)" if "j < i" for j
    using that assms sorted_nth_mono [OF assms(1), of j i] nth_eq_iff_index_eq [OF assms(2), of j i] by simp
  have "takeWhile (\<lambda>(k, _). \<not> fst (xs ! i) \<le> k) xs = take i xs"
    by (rule takeWhile_eq_take_P_nth) (use assms mono in \<open>auto simp: case_prod_beta not_le\<close>)
  then show ?thesis using assms(3) by (simp add: start_position_def)
qed


lemma insort_tagged: "insort_key fst (f x, x) (map (\<lambda>v. (f v, v)) xs) = map (\<lambda>v. (f v, v)) (insort_key f x xs)"
  by (induction xs) auto

lemma sort_tagged: "sort_key fst (map (\<lambda>v. (f v, v)) xs) = map (\<lambda>v. (f v, v)) (sort_key f xs)"
  by (induction xs) (auto simp: insort_tagged)

section \<open>A walk over a snapshot\<close>

text \<open>What a walk pinned to the revision \<open>r\<close> needs of the reads: a list at that revision returns the
  snapshot, if it returns. Sort keys are distinct, and the snapshot fits the address space.\<close>

locale snapshot_reads =
  fixes good :: "storage_reads \<Rightarrow> bool" and r :: int and snap :: "json list" and limit :: nat
  assumes list_at: "good rd \<Longrightarrow> sr_list_at rd r = Inr xs \<Longrightarrow> xs = snap"
    and revision: "0 < r" "fits64 r"
    and distinct_keys: "distinct (map default_sort_key snap)"
    and limit_pos: "0 < limit" and fits: "int (length snap) + int limit < 2 ^ 64"
begin

definition items :: "json list" where
  "items = sort_key default_sort_key snap"

definition token_at :: "nat \<Rightarrow> string option" where
  "token_at i = (if i < length items then Some (encode_default_token (default_sort_key (items ! i)) r) else None)"

definition page_at :: "(json \<Rightarrow> 'a option) \<Rightarrow> nat \<Rightarrow> 'a page" where
  "page_at fv i =
     (case those (map fv (take limit (drop i items))) of
        None \<Rightarrow> PageError Serialization
      | Some out \<Rightarrow> Page out (token_at (i + limit)))"

lemma slice_at:
  assumes "i \<le> length items"
    and "case decoded of None \<Rightarrow> i = 0 | Some d \<Rightarrow> i < length items \<and> ct_start_key d = default_sort_key (items ! i)"
  shows "slice_page fv limit decoded snap r = page_at fv i"
proof -
  let ?ix = "map (\<lambda>v. (default_sort_key v, v)) items"
  have keys: "map fst ?ix = map default_sort_key items" by (simp add: comp_def)
  have "sorted (map default_sort_key items)" by (simp add: items_def)
  moreover have "distinct (map default_sort_key items)"
    using distinct_keys unfolding items_def by (metis distinct_map distinct_sort set_sort)
  ultimately have pos: "start_position (default_sort_key (items ! j)) ?ix = j" if "j < length items" for j
    using start_position_nth [of ?ix j] that unfolding keys by simp
  have start: "(case decoded of None \<Rightarrow> 0 | Some d \<Rightarrow> start_position (ct_start_key d) ?ix) = i"
    using assms(2) pos by (auto split: option.splits)
  have len: "length items = length snap" by (simp add: items_def)
  have no_wrap: "usize_wrap (int i + int limit) = int (i + limit)"
    using assms(1) fits len by (simp add: usize_wrap_def)
  define e where "e = nat (min (int (i + limit)) (int (length ?ix)))"
  have e: "e = min (i + limit) (length items)" by (simp add: e_def min_def nat_int_add)
  have "\<not> e < i" using assms(1) by (simp add: e)
  moreover have "map (fv \<circ> snd) (take (e - i) (drop i ?ix)) = map fv (take limit (drop i items))"
    by (cases "i + limit \<le> length items") (simp_all add: e take_map drop_map comp_def)
  moreover have "token_at (i + limit) = (if e < length ?ix then Some (encode_default_token (fst (?ix ! e)) r) else None)"
    by (simp add: token_at_def e min_def)
  ultimately show ?thesis
    unfolding slice_page_def sort_tagged items_def [symmetric] Let_def start no_wrap e_def [symmetric] page_at_def
    by (cases "those (map fv (take limit (drop i items)))") simp_all
qed

lemma page_of_token:
  assumes "good rd" and "i < length items"
  shows "list_paginated fv rd limit (token_at i) = page_at fv i \<or> (\<exists>e. list_paginated fv rd limit (token_at i) = PageError e)"
proof -
  let ?d = "\<lparr>ct_start_key = default_sort_key (items ! i), ct_compacted_at = Some r\<rparr>"
  have dec: "decode_default_token (encode_default_token (default_sort_key (items ! i)) r) = Inr ?d"
    using decode_encode revision(2) by blast
  have slice: "slice_page fv limit (Some ?d) snap r = page_at fv i" using slice_at [of i "Some ?d"] assms(2) by simp
  show ?thesis
  proof (cases "sr_list_at rd r")
    case (Inl e)
    then show ?thesis
      using assms(2) limit_pos revision(1) by (auto simp: token_at_def list_paginated_def dec Let_def split: option.splits)
  next
    case (Inr xs)
    then have "xs = snap" using list_at [OF assms(1)] by simp
    then show ?thesis
      using assms(2) limit_pos revision(1) Inr slice
      by (auto simp: token_at_def list_paginated_def dec Let_def split: option.splits)
  qed
qed

lemma walk_from:
  assumes "\<forall>rd \<in> set rds. good rd" and "i < length items" and "walk fv limit (token_at i) rds = (ps, rest)"
  shows "map Some (concat ps) = map fv (take (length ps * limit) (drop i items))
    \<and> (case rest of
         None \<Rightarrow> length items \<le> i + length ps * limit
       | Some t \<Rightarrow> i + length ps * limit < length items \<and> t = token_at (i + length ps * limit))"
  using assms
proof (induction rds arbitrary: i ps rest)
  case Nil
  then show ?case by auto
next
  case (Cons rd rds)
  show ?case
  proof (cases "list_paginated fv rd limit (token_at i)")
    case (Page xs t)
    have page: "map Some xs = map fv (take limit (drop i items))" and t: "t = token_at (i + limit)"
      using page_of_token [of rd i fv] Cons.prems(1,2) Page
      by (auto simp: page_at_def those_map_Some split: option.splits)
    show ?thesis
    proof (cases "i + limit < length items")
      case False
      then have "t = None" using t by (simp add: token_at_def)
      then show ?thesis using Cons.prems(3) Page page False by auto
    next
      case True
      then obtain t' where t': "token_at (i + limit) = Some t'" by (simp add: token_at_def)
      obtain ps' where ps': "walk fv limit (token_at (i + limit)) rds = (ps', rest)" "ps = xs # ps'"
        using Cons.prems(3) Page t t' by (auto split: prod.splits)
      have "map fv (take (limit + length ps' * limit) (drop i items))
          = map fv (take limit (drop i items)) @ map fv (take (length ps' * limit) (drop (i + limit) items))"
        by (simp add: take_add add.commute)
      then show ?thesis
        using Cons.IH [OF _ True ps'(1)] Cons.prems(1) page ps'(2) by (simp add: add.assoc split: option.splits)
    qed
  qed (use Cons.prems in auto)
qed

text \<open>When no read fails, a walk of enough calls is complete.\<close>

lemma walk_completes:
  assumes "\<forall>rd \<in> set rds. good rd \<and> sr_list_at rd r = Inr snap \<and> sr_compacted rd r = Inr False"
    and "i < length items" and "length items \<le> i + length rds * limit" and "\<forall>v \<in> set snap. fv v \<noteq> None"
  shows "snd (walk fv limit (token_at i) rds) = None"
  using assms(1-3)
proof (induction rds arbitrary: i)
  case (Cons rd rds)
  let ?d = "\<lparr>ct_start_key = default_sort_key (items ! i), ct_compacted_at = Some r\<rparr>"
  have dec: "decode_default_token (encode_default_token (default_sort_key (items ! i)) r) = Inr ?d"
    using decode_encode revision(2) by blast
  have slice: "slice_page fv limit (Some ?d) snap r = page_at fv i" using slice_at [of i "Some ?d"] Cons.prems(2) by simp
  have "\<exists>ys. map fv xs = map Some ys" if "set xs \<subseteq> set snap" for xs
    using that assms(4) by (intro exI [of _ "map (the \<circ> fv) xs"]) auto
  moreover have "set (take limit (drop i items)) \<subseteq> set snap"
    using set_take_subset [of limit "drop i items"] set_drop_subset [of i items] by (auto simp: items_def)
  ultimately obtain ys where "those (map fv (take limit (drop i items))) = Some ys"
    using those_map_Some by metis
  then have "list_paginated fv rd limit (token_at i) = Page ys (token_at (i + limit))"
    using Cons.prems limit_pos revision(1) slice
    by (auto simp: token_at_def [of i] list_paginated_def dec Let_def token_compacted_def page_at_def)
  then show ?case
    using Cons.IH [of "i + limit"] Cons.prems
    by (cases "i + limit < length items")
       (auto simp: token_at_def [of "i + limit"] split: prod.splits)
qed simp

end


section \<open>Walks over the in-memory store\<close>

text \<open>The reads of one call that lists at some time after the state \<open>s\<close>; the probe for compaction and the
  current revision may have been read at any time.\<close>

definition reads_after ::
  "(json \<Rightarrow> 'x) \<Rightarrow> ('x \<Rightarrow> json option) \<Rightarrow> string \<Rightarrow> 'x memory_storage \<Rightarrow> storage_reads \<Rightarrow> bool" where
  "reads_after ser de prefix s rd \<longleftrightarrow>
     (\<exists>s_probe s_current s_list ls. runs (store_step ser de) s ls s_list \<and> rd = mem_reads de prefix s_probe s_current s_list)"

lemma revision_range:
  assumes "runs (store_step ser de) (with_history_capacity n) ls s"
  shows "0 < ms_revision s" "fits64 (ms_revision s)"
proof -
  have ok: "hist_ok s" using store.runs_hist_ok [OF assms hist_ok_new] .
  then show pos: "0 < ms_revision s" by (simp add: hist_ok_def Let_def)
  have "ms_revision s \<le> i64_max"
    using assms
  proof (cases rule: runs.cases)
    case runs_nil
    then show ?thesis by (simp add: with_history_capacity_def int_limits)
  next
    case (runs_snoc ls' s' l)
    have "hist_ok s'" using store.runs_hist_ok [OF runs_snoc(2) hist_ok_new] .
    from store_step_effect [OF runs_snoc(3) this] runs_snoc(3) show ?thesis
      by (auto simp: quiet_def writes_def store_step_def)
  qed
  then show "fits64 (ms_revision s)" using pos by (simp add: int_limits)
qed

lemma mem_snapshot:
  assumes "runs (store_step ser de) (with_history_capacity n) ls s" and "ms_list de s prefix = Inr snap"
    and "distinct (map default_sort_key snap)" and "0 < limit" and "int (length snap) + int limit < 2 ^ 64"
  shows "snapshot_reads (reads_after ser de prefix s) (ms_revision s) snap limit"
proof
  fix rd xs
  assume "reads_after ser de prefix s rd" and at: "sr_list_at rd (ms_revision s) = Inr xs"
  then obtain s_list ls' where "runs (store_step ser de) s ls' s_list" "list_at_revision de s_list prefix (ms_revision s) = Inr xs"
    by (auto simp: reads_after_def mem_reads_def)
  then show "xs = snap" using past_list [OF assms(1), of ls' s_list prefix] assms(2) by auto
qed (use revision_range [OF assms(1)] assms(3-5) in simp_all)


context snapshot_reads
begin

lemma page_unpinned:
  assumes "sr_current rd = Inr r" and "good rd"
  shows "list_paginated fv rd limit None = page_at fv 0 \<or> (\<exists>e. list_paginated fv rd limit None = PageError e)"
proof (cases "sr_list_at rd r")
  case (Inl e)
  then show ?thesis using assms limit_pos revision(1) by (simp add: list_paginated_def token_compacted_def)
next
  case (Inr xs)
  then have "xs = snap" using list_at [OF assms(2)] by simp
  then show ?thesis
    using assms(1) limit_pos revision(1) Inr slice_at [of 0 None fv] by (simp add: list_paginated_def token_compacted_def)
qed

lemma unpinned_completes:
  assumes "sr_current rd = Inr r" and "\<forall>rd' \<in> set (rd # rds). good rd' \<and> sr_list_at rd' r = Inr snap \<and> sr_compacted rd' r = Inr False"
    and "length snap \<le> length (rd # rds) * limit" and "\<forall>v \<in> set snap. fv v \<noteq> None"
  shows "snd (walk fv limit None (rd # rds)) = None"
proof -
  have page: "list_paginated fv rd limit None = page_at fv 0"
    using assms(1,2) limit_pos revision(1) slice_at [of 0 None fv] by (simp add: list_paginated_def token_compacted_def)
  have "set (take limit items) \<subseteq> set snap" using set_take_subset [of limit items] by (simp add: items_def)
  then have "map fv (take limit items) = map Some (map (the \<circ> fv) (take limit items))" using assms(4) by auto
  then obtain ys where "those (map fv (take limit items)) = Some ys" using those_map_Some by metis
  then have page: "list_paginated fv rd limit None = Page ys (token_at limit)" using page by (simp add: page_at_def)
  show ?thesis
  proof (cases "limit < length items")
    case True
    then show ?thesis
      using page walk_completes [of rds limit fv] assms(2-4)
      by (auto simp: token_at_def items_def split: prod.splits)
  qed (use page in \<open>simp add: token_at_def\<close>)
qed

text \<open>The pages so far are the first items of the sorted snapshot, and the walk goes on where it stopped.\<close>

lemma walk_prefix:
  assumes "sr_current rd = Inr r" and "\<forall>rd' \<in> set (rd # rds). good rd'" and "walk fv limit None (rd # rds) = (ps, rest)"
  shows "map Some (concat ps) = map fv (take (length ps * limit) items)
    \<and> (case rest of
         None \<Rightarrow> length items \<le> length ps * limit
       | Some None \<Rightarrow> ps = []
       | Some (Some t) \<Rightarrow> length ps * limit < length items
           \<and> t = encode_default_token (default_sort_key (items ! (length ps * limit))) r)"
proof (cases "list_paginated fv rd limit None")
  case (Page xs t)
  have page: "map Some xs = map fv (take limit items)" and t: "t = token_at limit"
    using page_unpinned [OF assms(1), of fv] assms(2) Page by (auto simp: page_at_def those_map_Some split: option.splits)
  show ?thesis
  proof (cases "limit < length items")
    case False
    then show ?thesis using assms(3) Page page t by (auto simp: token_at_def)
  next
    case True
    then obtain t' where t': "token_at limit = Some t'" by (simp add: token_at_def)
    obtain ps' where ps': "walk fv limit (token_at limit) rds = (ps', rest)" "ps = xs # ps'"
      using assms(3) Page t t' by (auto split: prod.splits)
    have "map fv (take (limit + length ps' * limit) items)
        = map fv (take limit items) @ map fv (take (length ps' * limit) (drop limit items))"
      by (simp add: take_add)
    then show ?thesis
      using walk_from [OF _ True ps'(1)] assms(2) page ps'(2) by (auto simp: token_at_def split: option.splits)
  qed
qed (use assms(3) in auto)

end

text \<open>A page that starts at a key holds the first items from that key on.\<close>

lemma drop_start_position:
  assumes "sorted (map fst xs)"
  shows "drop (start_position k xs) xs = filter (\<lambda>p. k \<le> fst p) xs"
  using assms
proof (induction xs)
  case (Cons x xs)
  have "filter (\<lambda>p. k \<le> fst p) xs = xs" if "k \<le> fst x"
    using Cons.prems that by (auto simp: filter_id_conv)
  then show ?case using Cons by (auto simp: start_position_def case_prod_beta)
qed (simp add: start_position_def)

lemma slice_from_key:
  assumes "slice_page fv limit (Some d) all rv = Page out t" and "int (length all) + int limit < 2 ^ 64"
  shows "map Some out = map fv (take limit (filter (\<lambda>v. ct_start_key d \<le> default_sort_key v) (sort_key default_sort_key all)))"
proof -
  let ?ix = "map (\<lambda>v. (default_sort_key v, v)) (sort_key default_sort_key all)"
  define i where "i = start_position (ct_start_key d) ?ix"
  have le: "i \<le> length all"
    using length_takeWhile_le [of _ ?ix] by (simp add: i_def start_position_def)
  have "usize_wrap (int i + int limit) = int (i + limit)" using le assms(2) by (simp add: usize_wrap_def)
  then have e: "nat (min (usize_wrap (int i + int limit)) (int (length ?ix))) = min (i + limit) (length all)"
    by (simp add: min_def nat_int_add)
  have "those (map (fv \<circ> snd) (take (min (i + limit) (length all) - i) (drop i ?ix))) = Some out"
    using assms(1) unfolding slice_page_def sort_tagged Let_def i_def [symmetric] option.case e
    by (auto split: if_splits option.splits)
  then have "map Some out = map (fv \<circ> snd) (take (min (i + limit) (length all) - i) (drop i ?ix))"
    using those_map_Some [of "fv \<circ> snd"] by metis
  also have "take (min (i + limit) (length all) - i) (drop i ?ix) = take limit (drop i ?ix)"
    by (cases "i + limit \<le> length all") simp_all
  also have "drop i ?ix = filter (\<lambda>p. ct_start_key d \<le> fst p) ?ix"
    unfolding i_def by (rule drop_start_position) (simp add: comp_def)
  finally show ?thesis by (simp add: filter_map take_map comp_def)
qed

section \<open>Properties\<close>


text \<open>C39. A walk ends. If the revision of the first page is not compacted meanwhile and no more writes follow
  than the history retains, as many calls as the snapshot has pages complete the list.\<close>

theorem paged_walk_completes:
  assumes "runs (store_step ser de) (with_history_capacity n) ls s" and "ms_list de s prefix = Inr snap"
    and "distinct (map default_sort_key snap)" and "0 < limit" and "int (length snap) + int limit < 2 ^ 64"
    and "\<forall>v \<in> set snap. fv v \<noteq> None" and "states \<noteq> []" and "length snap \<le> length states * limit"
    and "\<forall>(s_probe, s_list) \<in> set states. (\<exists>ls'. runs (store_step ser de) s ls' s_list)
           \<and> \<not> is_revision_compacted s_probe (ms_revision s) \<and> \<not> is_revision_compacted s_list (ms_revision s)
           \<and> ms_revision s_list \<le> ms_revision s + int (hi_capacity (ms_history s_list))"
  shows "snd (walk fv limit None (map (\<lambda>(s_probe, s_list). mem_reads de prefix s_probe s s_list) states)) = None"
proof -
  note snapshot = mem_snapshot [OF assms(1-5)]
  let ?rd = "\<lambda>(s_probe, s_list). mem_reads de prefix s_probe s s_list"
  have fine: "reads_after ser de prefix s (?rd p) \<and> sr_list_at (?rd p) (ms_revision s) = Inr snap
      \<and> sr_compacted (?rd p) (ms_revision s) = Inr False" if mem: "p \<in> set states" for p
  proof -
    obtain s_probe s_list where p: "p = (s_probe, s_list)" by fastforce
    then obtain ls' where "runs (store_step ser de) s ls' s_list" using assms(9) mem by auto
    then show ?thesis
      using past_list [OF assms(1), of ls' s_list prefix] assms(2,9) mem p by (auto simp: reads_after_def mem_reads_def)
  qed
  obtain p ps where states: "states = p # ps" using assms(7) by (cases states) auto
  have "snd (walk fv limit None (?rd p # map ?rd ps)) = None"
    by (rule snapshot_reads.unpinned_completes [OF snapshot])
       (use fine states assms(6,8) in \<open>auto simp: mem_reads_def current_revision_def split: prod.splits\<close>)
  then show ?thesis by (simp add: states)
qed

text \<open>A walk whose revision was compacted can go on. The call fails with a token for the same key without a
  revision; a call with that token returns the first items from that key on, as they are by then.\<close>

lemma compacted_walk_resumes:
  assumes "0 < limit" and "0 < r" and "fits64 r" and "is_revision_compacted s_probe r"
  shows "\<exists>msg tok. list_paginated fv (mem_reads de prefix s_probe s_current s_list) limit (Some (encode_default_token key r))
      = PageError (GoneWithContinue msg tok)
    \<and> (\<forall>s snap s_probe' out t. 0 < ms_revision s \<longrightarrow> ms_list de s prefix = Inr snap \<longrightarrow> int (length snap) + int limit < 2 ^ 64 \<longrightarrow>
         list_paginated fv (mem_reads de prefix s_probe' s s) limit (Some tok) = Page out t \<longrightarrow>
         map Some out = map fv (take limit (filter (\<lambda>v. key \<le> default_sort_key v) (sort_key default_sort_key snap))))"
proof -
  let ?tok = "encode_default_token key inconsistent_continue_rv"
  let ?d = "\<lparr>ct_start_key = key, ct_compacted_at = Some inconsistent_continue_rv\<rparr>"
  have dec: "decode_default_token ?tok = Inr ?d"
    by (rule decode_encode) (simp add: inconsistent_continue_rv_def int_limits)
  have "map Some out = map fv (take limit (filter (\<lambda>v. key \<le> default_sort_key v) (sort_key default_sort_key snap)))"
    if "0 < ms_revision s" "ms_list de s prefix = Inr snap" "int (length snap) + int limit < 2 ^ 64"
      "list_paginated fv (mem_reads de prefix s_probe' s s) limit (Some ?tok) = Page out t" for s snap s_probe' out t
  proof -
    have "slice_page fv limit (Some ?d) snap (ms_revision s) = Page out t"
      using that assms(1) dec
      by (simp add: list_paginated_def Let_def token_compacted_def mem_reads_def current_revision_def
          inconsistent_continue_rv_def list_at_revision_def)
    from slice_from_key [OF this that(3)] show ?thesis by simp
  qed
  moreover have "list_paginated fv (mem_reads de prefix s_probe s_current s_list) limit (Some (encode_default_token key r))
      = PageError (compacted_continue_error key r)"
    using assms decode_encode [OF assms(3), of key]
    by (simp add: list_paginated_def Let_def token_compacted_def mem_reads_def inconsistent_continue_rv_def)
  ultimately show ?thesis unfolding compacted_continue_error_def by blast
qed

text \<open>A walk whose revision left the history cannot go on: when the pinned revision was not compacted but is
  older than the retained events, the call fails without a token. The message of the in-memory store is
  not recognised as that of a compaction.\<close>

lemma evicted_walk_is_stuck:
  assumes "0 < limit" and "0 < r" and "fits64 r" and "\<not> is_revision_compacted s_probe r"
    and "r < hi_evicted_floor (ms_history s_list)" and "r < ms_revision s_list"
  shows "list_paginated fv (mem_reads de prefix s_probe s_current s_list) limit (Some (encode_default_token key r))
    = PageError (Gone too_old_list)"
proof -
  have "\<not> is_compaction_error (Gone too_old_list)" by code_simp
  then show ?thesis
    using assms decode_encode [OF assms(3), of key]
    by (simp add: list_paginated_def Let_def token_compacted_def mem_reads_def inconsistent_continue_rv_def
        list_at_revision_def)
qed


section \<open>Witnesses\<close>

definition page_obj :: "string \<Rightarrow> json" where
  "page_obj name = JObject [(''metadata'', JObject [(''name'', JString name)])]"

definition page_ops :: "store_op list" where
  "page_ops = [OpCreate ''p/b'' (page_obj ''b'') 0 ''ub'' ''t'', OpCreate ''p/a'' (page_obj ''a'') 0 ''ua'' ''t'']"

definition page_store :: "json memory_storage" where
  "page_store = fold (exec id Some) page_ops (with_history_capacity 10)"

definition page_later :: "json memory_storage" where
  "page_later = exec id Some (OpCreate ''p/c'' (page_obj ''c'') 0 ''uc'' ''t'') page_store"

definition page_stored :: "string \<Rightarrow> string \<Rightarrow> string \<Rightarrow> json" where
  "page_stored name uid rv = set_metadata ''resourceVersion'' (JString rv) (fill_metadata uid ''t'' (page_obj name))"

lemma page_store_data: "ms_data page_store = [''p/a'' \<mapsto> page_stored ''a'' ''ua'' ''3'', ''p/b'' \<mapsto> page_stored ''b'' ''ub'' ''2'']"
  by (simp add: page_store_def page_ops_def create_with_ttl_def create_commit_def stamp_revision_def publish_def emit_def
      with_history_capacity_def set_ttl_def wrap_small mod_revision_to_resource_version_def show_small page_stored_def Let_def
      fun_eq_iff)

lemma page_revision: "ms_revision page_store = 3" "ms_revision page_later = 4"
  by code_simp+

lemma page_runs: "runs (store_step id Some) (with_history_capacity 10) page_ops page_store"
  "runs (store_step id Some) page_store [OpCreate ''p/c'' (page_obj ''c'') 0 ''uc'' ''t''] page_later"
proof -
  have "ms_revision (with_history_capacity 10) < i64_max"
    "ms_revision (exec id Some (hd page_ops) (with_history_capacity 10)) < i64_max" by code_simp+
  then show "runs (store_step id Some) (with_history_capacity 10) page_ops page_store"
    by (simp add: page_ops_def page_store_def store_step_def del: exec.simps)
  show "runs (store_step id Some) page_store [OpCreate ''p/c'' (page_obj ''c'') 0 ''uc'' ''t''] page_later"
    by (simp add: store_step_def page_later_def page_revision i64_max_def del: exec.simps)
qed

lemma page_list: "ms_list Some page_store ''p/'' = Inr [page_stored ''a'' ''ua'' ''3'', page_stored ''b'' ''ub'' ''2'']"
proof -
  have "''p/a'' < (''p/b'' :: string)" by code_simp
  then have "sorted_list_of_set {''p/a'', ''p/b''} = [''p/a'', ''p/b'']" by simp
  moreover have "matching ''p/'' (ms_data page_store) = ms_data page_store"
    by (auto simp: matching_def page_store_data restrict_map_def has_prefix_def fun_eq_iff)
  moreover have "dom (ms_data page_store) = {''p/a'', ''p/b''}" by (auto simp: page_store_data)
  ultimately show ?thesis by (simp add: ms_list_def sorted_values_def decode_all_def page_store_data)
qed

lemma page_keys: "default_sort_key (page_stored ''a'' ''ua'' ''3'') = ''a''" "default_sort_key (page_stored ''b'' ''ub'' ''2'') = ''b''"
  by code_simp+


interpretation page_walk: snapshot_reads "reads_after id Some ''p/'' page_store" "ms_revision page_store"
    "[page_stored ''a'' ''ua'' ''3'', page_stored ''b'' ''ub'' ''2'']" 1
  by (rule mem_snapshot [OF page_runs(1) page_list]) (simp_all add: page_keys)


theorem paged_walk_completes_witness:
  "snd (walk Some 1 None (map (\<lambda>(s_probe, s_list). mem_reads Some ''p/'' s_probe page_store s_list)
     [(page_store, page_store), (page_later, page_later)])) = None"
proof -
  have "\<exists>ls. runs (store_step id Some) page_store ls page_store" by (rule exI [of _ "[]"]) simp
  moreover have "\<exists>ls. runs (store_step id Some) page_store ls page_later" by (rule exI, rule page_runs(2))
  moreover have "\<not> is_revision_compacted page_store (ms_revision page_store)"
    "\<not> is_revision_compacted page_later (ms_revision page_store)"
    "ms_revision page_later \<le> ms_revision page_store + int (hi_capacity (ms_history page_later))" by code_simp+
  moreover have "distinct (map default_sort_key [page_stored ''a'' ''ua'' ''3'', page_stored ''b'' ''ub'' ''2''])"
    by (simp add: page_keys)
  ultimately show ?thesis
    by (intro paged_walk_completes [OF page_runs(1) page_list]) auto
qed

text \<open>A history of one event, and a walk that began two writes ago.\<close>

definition page_small :: "json memory_storage" where
  "page_small = fold (exec id Some) page_ops (with_history_capacity 1)"

end
