(* ===== verification/StatusWrites.thy ===== *)
theory StatusWrites
  imports StorageHistory
begin

text \<open>
  The read-modify-write operations built on the storage trait (\<^verbatim>\<open>crates/storage/src/lib.rs\<close>): the status
  writes \<open>update_status\<close> and \<open>update_status_cas\<close>, the update of \<open>StorageBackend\<close> that skips a write which
  changes nothing, the graceful delete, and the key helpers, over the in-memory store.

  Other processes may do anything to the store before each of the storage operations (\<open>others\<close>). Shown:
  a status write that succeeds changed nothing but the status of the object stored at the moment of the
  write; a no-op update writes nothing, and anything else goes through the guarded update; a graceful
  delete either removes the object or marks it once.
\<close>

section \<open>Storage operations among other writers\<close>

text \<open>The store, and what other processes do before each of the coming operations.\<close>

type_synonym 'x env_store = "'x memory_storage \<times> store_op list list"

definition others :: "(json \<Rightarrow> 'x) \<Rightarrow> ('x \<Rightarrow> json option) \<Rightarrow> 'x env_store \<Rightarrow> 'x env_store" where
  "others ser de st =
     (case snd st of [] \<Rightarrow> st | ops # rest \<Rightarrow> (fold (exec ser de) ops (fst st), rest))"

definition env_get :: "(json \<Rightarrow> 'x) \<Rightarrow> ('x \<Rightarrow> json option) \<Rightarrow> string \<Rightarrow> 'x env_store \<Rightarrow> (storage_error, json) result \<times> 'x env_store" where
  "env_get ser de key st = (let st1 = others ser de st in (ms_get de (fst st1) key, st1))"

definition env_update ::
  "(json \<Rightarrow> 'x) \<Rightarrow> ('x \<Rightarrow> json option) \<Rightarrow> string \<Rightarrow> json \<Rightarrow> 'x env_store \<Rightarrow> (storage_error, json) result \<times> 'x env_store" where
  "env_update ser de key value st =
     (let st1 = others ser de st in case ms_update ser de (fst st1) key value of (r, s2) \<Rightarrow> (r, s2, snd st1))"

section \<open>Status writes\<close>

definition graft_status :: "json option \<Rightarrow> json \<Rightarrow> json" where
  "graft_status new_status current =
     (case current of
        JObject m \<Rightarrow>
          (case new_status of
             Some status \<Rightarrow> JObject (obj_insert ''status'' status m)
           | None \<Rightarrow> JObject (obj_remove ''status'' m))
      | _ \<Rightarrow> current)"

definition max_attempts :: nat where
  "max_attempts = 8"

text \<open>The retry loop; \<open>update\<close> is the update of the backend it runs on. The last attempt returns its conflict.\<close>

fun status_loop ::
  "(json \<Rightarrow> 'x) \<Rightarrow> ('x \<Rightarrow> json option) \<Rightarrow> (json \<Rightarrow> 'x env_store \<Rightarrow> (storage_error, json) result \<times> 'x env_store) \<Rightarrow>
   string \<Rightarrow> json option \<Rightarrow> nat \<Rightarrow> 'x env_store \<Rightarrow> (storage_error, json) result \<times> 'x env_store" where
  "status_loop ser de update key new_status 0 st = (Inl Conflict, st)"
| "status_loop ser de update key new_status (Suc n) st =
     (case env_get ser de key st of
        (Inl e, st1) \<Rightarrow> (Inl e, st1)
      | (Inr current, st1) \<Rightarrow>
          (case update (graft_status new_status current) st1 of
             (Inr updated, st2) \<Rightarrow> (Inr updated, st2)
           | (Inl e, st2) \<Rightarrow>
               if e = Conflict \<and> n > 0 then status_loop ser de update key new_status n st2 else (Inl e, st2)))"

definition update_status ::
  "(json \<Rightarrow> 'x) \<Rightarrow> ('x \<Rightarrow> json option) \<Rightarrow> string \<Rightarrow> json \<Rightarrow> 'x env_store \<Rightarrow> (storage_error, json) result \<times> 'x env_store" where
  "update_status ser de key incoming st =
     status_loop ser de (env_update ser de key) key (jget incoming ''status'') max_attempts st"

definition pointer_rv :: "json \<Rightarrow> json option" where
  "pointer_rv v = Option.bind (jget v ''metadata'') (\<lambda>m. jget m ''resourceVersion'')"

definition update_status_cas_via_update ::
  "(json \<Rightarrow> 'x) \<Rightarrow> ('x \<Rightarrow> json option) \<Rightarrow> string \<Rightarrow> json \<Rightarrow> 'x env_store \<Rightarrow> (storage_error, json) result \<times> 'x env_store" where
  "update_status_cas_via_update ser de key incoming st =
     (case Option.bind (pointer_rv incoming) as_str of
        None \<Rightarrow> update_status ser de key incoming st
      | Some expected_rv \<Rightarrow>
          if expected_rv = '''' then update_status ser de key incoming st
          else
            (case env_get ser de key st of
               (Inl e, st1) \<Rightarrow> (Inl e, st1)
             | (Inr current, st1) \<Rightarrow>
                 if Option.bind (pointer_rv current) as_str \<noteq> Some expected_rv then (Inl Conflict, st1)
                 else env_update ser de key (graft_status (jget incoming ''status'') current) st1))"

section \<open>Updates of the backend\<close>

definition without_rv :: "json \<Rightarrow> json" where
  "without_rv v = (case metadata_obj v of None \<Rightarrow> v | Some mm \<Rightarrow> with_metadata v (obj_remove ''resourceVersion'' mm))"

definition objects_equal_ignoring_resource_version :: "json \<Rightarrow> json \<Rightarrow> bool" where
  "objects_equal_ignoring_resource_version a b \<longleftrightarrow> without_rv a = without_rv b"

definition backend_update ::
  "(json \<Rightarrow> 'x) \<Rightarrow> ('x \<Rightarrow> json option) \<Rightarrow> string \<Rightarrow> json \<Rightarrow> 'x env_store \<Rightarrow> (storage_error, json) result \<times> 'x env_store" where
  "backend_update ser de key incoming st =
     (case env_get ser de key st of
        (Inr current, st1) \<Rightarrow>
          (let cur_rv = pointer_rv current; incoming_rv = pointer_rv incoming;
               rv_compatible = (incoming_rv = None \<or> incoming_rv = cur_rv)
           in if rv_compatible \<and> objects_equal_ignoring_resource_version current incoming then (Inr current, st1)
              else env_update ser de key incoming st1)
      | (Inl _, st1) \<Rightarrow> env_update ser de key incoming st1)"

definition backend_update_status ::
  "(json \<Rightarrow> 'x) \<Rightarrow> ('x \<Rightarrow> json option) \<Rightarrow> string \<Rightarrow> json \<Rightarrow> 'x env_store \<Rightarrow> (storage_error, json) result \<times> 'x env_store" where
  "backend_update_status ser de key incoming st =
     status_loop ser de (backend_update ser de key) key (jget incoming ''status'') max_attempts st"

section \<open>Keys\<close>

definition build_key :: "string \<Rightarrow> string option \<Rightarrow> string \<Rightarrow> string" where
  "build_key resource_type namespace name =
     (case namespace of
        Some ns \<Rightarrow> ''/registry/'' @ resource_type @ ''/'' @ ns @ ''/'' @ name
      | None \<Rightarrow> ''/registry/'' @ resource_type @ ''/'' @ name)"

definition build_prefix :: "string \<Rightarrow> string option \<Rightarrow> string" where
  "build_prefix resource_type namespace =
     (case namespace of
        Some ns \<Rightarrow> ''/registry/'' @ resource_type @ ''/'' @ ns @ ''/''
      | None \<Rightarrow> ''/registry/'' @ resource_type @ ''/'')"

section \<open>Graceful delete\<close>

definition env_delete :: "(json \<Rightarrow> 'x) \<Rightarrow> ('x \<Rightarrow> json option) \<Rightarrow> string \<Rightarrow> 'x env_store \<Rightarrow> (storage_error, unit) result \<times> 'x env_store" where
  "env_delete ser de key st =
     (let st1 = others ser de st in case ms_delete ser de (fst st1) key of (r, s2) \<Rightarrow> (r, s2, snd st1))"

definition env_update_raw ::
  "(json \<Rightarrow> 'x) \<Rightarrow> ('x \<Rightarrow> json option) \<Rightarrow> string \<Rightarrow> json \<Rightarrow> 'x env_store \<Rightarrow> (storage_error, unit) result \<times> 'x env_store" where
  "env_update_raw ser de key value st =
     (let st1 = others ser de st in case update_raw ser (fst st1) key value of (r, s2) \<Rightarrow> (r, s2, snd st1))"

definition has_finalizers :: "(string \<times> json) list \<Rightarrow> bool" where
  "has_finalizers metadata = (case map_of metadata ''finalizers'' of Some (JArray f) \<Rightarrow> f \<noteq> [] | _ \<Rightarrow> False)"

definition grace_period :: "json \<Rightarrow> int" where
  "grace_period obj =
     (case Option.bind (jget obj ''spec'') (\<lambda>sp. jget sp ''terminationGracePeriodSeconds'') of
        Some (JInt i) \<Rightarrow> if fits64 i then i else 30
      | _ \<Rightarrow> 30)"

text \<open>The object with its deletion marked at the time \<open>now\<close>.\<close>

definition mark_deleted :: "string \<Rightarrow> json \<Rightarrow> (string \<times> json) list \<Rightarrow> json" where
  "mark_deleted now obj metadata =
     set_metadata ''deletionGracePeriodSeconds'' (JInt (grace_period obj))
       (with_metadata obj (obj_insert ''deletionTimestamp'' (JString now) metadata))"

definition delete_gracefully ::
  "(json \<Rightarrow> 'x) \<Rightarrow> ('x \<Rightarrow> json option) \<Rightarrow> string \<Rightarrow> string \<Rightarrow> 'x env_store \<Rightarrow> (storage_error, unit) result \<times> 'x env_store" where
  "delete_gracefully ser de now key st =
     (case env_get ser de key st of
        (Inl (NotFound _), st1) \<Rightarrow> (Inr (), st1)
      | (Inl e, st1) \<Rightarrow> (Inl e, st1)
      | (Inr obj, st1) \<Rightarrow>
          (case metadata_obj obj of
             None \<Rightarrow> env_delete ser de key st1
           | Some metadata \<Rightarrow>
               if \<not> has_finalizers metadata \<and> \<not> has_prefix ''/registry/pods/'' key then env_delete ser de key st1
               else if map_of metadata ''deletionTimestamp'' \<noteq> None then (Inr (), st1)
               else env_update_raw ser de key (mark_deleted now obj metadata) st1))"


section \<open>Lemmas\<close>

text \<open>The store is as its operations leave it, other processes write objects with metadata, and \<open>k\<close> more
  revisions are in range.\<close>

definition env_ok :: "('x \<Rightarrow> json option) \<Rightarrow> nat \<Rightarrow> 'x env_store \<Rightarrow> bool" where
  "env_ok de k st \<longleftrightarrow>
     hist_ok (fst st) \<and> all_stamped de (fst st) \<and> (\<forall>ops \<in> set (snd st). \<forall>op \<in> set ops. op_ok op)
     \<and> ms_revision (fst st) + int (length (concat (snd st))) + int k < i64_max"

lemma exec_step:
  assumes "serde_round_trip ser de" and "hist_ok s" and "all_stamped de s" and "op_ok op" and "ms_revision s < i64_max"
  shows "hist_ok (exec ser de op s) \<and> all_stamped de (exec ser de op s) \<and> entry_step de s (exec ser de op s)
    \<and> ms_revision (exec ser de op s) \<le> ms_revision s + 1"
proof -
  have step: "store_step ser de s op (exec ser de op s)" using assms(5) by (simp add: store_step_def)
  have entry: "entry_step de s (exec ser de op s)" using store_entry_step [OF step assms(4,1,2)] .
  show ?thesis
    using store.step_hist_ok [OF step assms(2)] entry entry_step_stamped [OF entry assms(3)] store_step_effect [OF step assms(2)]
    by (auto simp: quiet_def writes_def)
qed

lemma execs_step:
  assumes "serde_round_trip ser de" and "hist_ok s" and "all_stamped de s" and "\<forall>op \<in> set ops. op_ok op"
    and "ms_revision s + int (length ops) < i64_max"
  shows "hist_ok (fold (exec ser de) ops s) \<and> all_stamped de (fold (exec ser de) ops s)
    \<and> entry_step de s (fold (exec ser de) ops s) \<and> ms_revision (fold (exec ser de) ops s) \<le> ms_revision s + int (length ops)"
  using assms(2-5)
proof (induction ops arbitrary: s)
  case (Cons op ops)
  have "hist_ok (exec ser de op s)" "all_stamped de (exec ser de op s)" "entry_step de s (exec ser de op s)"
    "ms_revision (exec ser de op s) \<le> ms_revision s + 1"
    using exec_step [OF assms(1) Cons.prems(1,2), of op] Cons.prems(3,4) by auto
  then show ?case using Cons.IH [of "exec ser de op s"] Cons.prems entry_step_trans by fastforce
qed (simp add: entry_step_refl)

lemma others_ok:
  assumes "serde_round_trip ser de" and "env_ok de k st"
  shows "env_ok de k (others ser de st) \<and> entry_step de (fst st) (fst (others ser de st))"
proof (cases "snd st")
  case (Cons ops rest)
  have "ms_revision (fst st) + int (length ops) < i64_max" using assms(2) Cons by (simp add: env_ok_def)
  then show ?thesis
    using execs_step [OF assms(1), of "fst st" ops] assms(2) Cons by (auto simp: others_def env_ok_def)
qed (use assms(2) entry_step_refl in \<open>simp add: others_def\<close>)

lemma env_get_ok:
  assumes "serde_round_trip ser de" and "env_ok de k st" and "env_get ser de key st = (r, st1)"
  shows "env_ok de k st1 \<and> ms_get de (fst st1) key = r \<and> entry_step de (fst st) (fst st1)"
  using others_ok [OF assms(1,2)] assms(3) by (auto simp: env_get_def Let_def)

lemma env_update_ok:
  assumes "serde_round_trip ser de" and "env_ok de (Suc k) st" and "metadata_obj value \<noteq> None"
    and "env_update ser de key value st = (r, st1)"
  shows "env_ok de k st1"
proof -
  let ?s = "fst (others ser de st)"
  have ok: "env_ok de (Suc k) (others ser de st)" using others_ok [OF assms(1,2)] by simp
  have st1: "st1 = (exec ser de (OpUpdate key value 0) ?s, snd (others ser de st))"
    using assms(4) by (auto simp: env_update_def Let_def ms_update_def split: prod.splits)
  have "ms_revision ?s < i64_max" using ok by (simp add: env_ok_def)
  then show ?thesis
    using exec_step [OF assms(1), of ?s "OpUpdate key value 0"] ok assms(3) unfolding st1 env_ok_def by auto
qed

text \<open>A stored object has metadata; a graft leaves them as they are.\<close>

lemma versioned_metadata: "resource_version_of v \<noteq> None \<Longrightarrow> metadata_obj v \<noteq> None"
  by (auto simp: resource_version_of_def extract_resource_version_def metadata_obj_def jget_def
      split: option.splits json.splits if_splits)

lemma stored_metadata:
  assumes "all_stamped de s" and "ms_get de s key = Inr v"
  shows "metadata_obj v \<noteq> None"
proof -
  obtain x where "ms_data s key = Some x" "de x = Some v"
    using assms(2) by (auto simp: ms_get_def decode_def split: option.splits)
  then have "resource_version_of v \<noteq> None" using assms(1) unfolding all_stamped_def stamped_at_def by fastforce
  then show ?thesis by (rule versioned_metadata)
qed

lemma jget_graft:
  "jget (graft_status ns v) f = (if f = ''status'' then (case v of JObject _ \<Rightarrow> ns | _ \<Rightarrow> None) else jget v f)"
  by (auto simp: graft_status_def jget_def split: json.splits option.splits)

lemma graft_metadata [simp]: "metadata_obj (graft_status ns v) = metadata_obj v"
  by (simp add: metadata_obj_def jget_graft)

lemma graft_version [simp]: "resource_version_of (graft_status ns v) = resource_version_of v"
  by (simp add: resource_version_of_def jget_graft)

text \<open>What a status write may change.\<close>

definition status_only :: "json option \<Rightarrow> json \<Rightarrow> json \<Rightarrow> bool" where
  "status_only ns current updated \<longleftrightarrow>
     jget updated ''status'' = ns
     \<and> (\<forall>f. f \<notin> {''status'', ''metadata''} \<longrightarrow> jget updated f = jget current f)
     \<and> (\<forall>m m' g. metadata_obj current = Some m \<longrightarrow> metadata_obj updated = Some m' \<longrightarrow> g \<noteq> ''resourceVersion'' \<longrightarrow>
          map_of m' g = map_of m g)"

lemma jget_set_metadata: "f \<noteq> ''metadata'' \<Longrightarrow> jget (set_metadata k x v) f = jget v f"
  by (auto simp: set_metadata_def with_metadata_def jget_def split: option.splits json.splits)

lemma stamped_graft_status_only:
  assumes "metadata_obj v \<noteq> None"
  shows "status_only ns v (set_metadata ''resourceVersion'' (JString rv) (graft_status ns v))"
proof -
  have "\<exists>m. v = JObject m" using assms by (cases v) (auto simp: metadata_obj_def jget_def)
  then show ?thesis
    by (auto simp: status_only_def jget_set_metadata jget_graft metadata_obj_set split: if_splits)
qed

lemma update_effect_ok:
  assumes "serde_round_trip ser de" and "update_with_ttl ser de s key v ttl = (Inr v', s')"
    and "0 \<le> ms_revision s" and "ms_revision s < i64_max"
  shows "v' = set_metadata ''resourceVersion'' (JString (show_int (ms_revision s + 1))) v
    \<and> ms_data s' = (ms_data s)(key \<mapsto> ser v') \<and> ms_revision s' = ms_revision s + 1"
  using assms(1,2) next_revision(1) [OF assms(3,4)]
  by (auto simp: update_with_ttl_def update_commit_def stamp_revision_def Let_def decode_def serde_round_trip_def publish_def
      emit_def mod_revision_to_resource_version_def split: if_splits option.splits)

text \<open>The write took effect on the object stored at that moment, in the state \<open>s2\<close>.\<close>

definition status_written ::
  "('x \<Rightarrow> json option) \<Rightarrow> string \<Rightarrow> json option \<Rightarrow> json \<Rightarrow> 'x memory_storage \<Rightarrow> bool" where
  "status_written de key ns updated s3 \<longleftrightarrow>
     (\<exists>s2 current. ms_get de s2 key = Inr current \<and> status_only ns current updated
        \<and> ms_get de s3 key = Inr updated \<and> (\<forall>k. k \<noteq> key \<longrightarrow> ms_data s3 k = ms_data s2 k)
        \<and> ms_revision s3 \<in> {ms_revision s2, ms_revision s2 + 1})"

lemma guarded_write:
  assumes rt: "serde_round_trip ser de" and ok: "env_ok de (Suc k) st" and "all_stamped de s1" and "entry_step de s1 (fst st)"
    and "ms_get de s1 key = Inr current" and "env_update ser de key (graft_status ns current) st = (Inr updated, st')"
  shows "status_written de key ns updated (fst st')"
proof -
  let ?s = "fst (others ser de st)"
  let ?v = "graft_status ns current"
  have ok': "env_ok de (Suc k) (others ser de st)" and "entry_step de s1 ?s"
    using others_ok [OF rt ok] entry_step_trans [OF assms(4)] by auto
  have upd: "update_with_ttl ser de ?s key ?v 0 = (Inr updated, fst st')"
    using assms(6) by (auto simp: env_update_def Let_def ms_update_def split: prod.splits)
  have "ms_data ?s key = ms_data s1 key"
    using version_guard [OF assms(3) \<open>entry_step de s1 ?s\<close> assms(5) _ upd] by simp
  then have get: "ms_get de ?s key = Inr current" using assms(5) by (simp add: ms_get_def)
  have r: "0 \<le> ms_revision ?s" "ms_revision ?s < i64_max" using ok' by (auto simp: env_ok_def hist_ok_def Let_def)
  have eff: "updated = set_metadata ''resourceVersion'' (JString (show_int (ms_revision ?s + 1))) ?v"
    "ms_data (fst st') = (ms_data ?s)(key \<mapsto> ser updated)" "ms_revision (fst st') = ms_revision ?s + 1"
    using update_effect_ok [OF rt upd r] by auto
  have "status_only ns current updated"
    unfolding eff(1) using stamped_graft_status_only stored_metadata [OF assms(3,5)] by blast
  moreover have "ms_get de (fst st') key = Inr updated" using eff(2) rt by (simp add: ms_get_def decode_def serde_round_trip_def)
  ultimately show ?thesis unfolding status_written_def using get eff(2,3) by (intro exI [of _ ?s] exI [of _ current]) simp
qed


section \<open>The retry loop over a guarded update\<close>

text \<open>What the loop relies on: an update of the object read in \<open>s1\<close>, with its status replaced, that succeeds
  took effect on the object stored at that moment; it uses at most one revision.\<close>

locale guarded_update =
  fixes ser :: "json \<Rightarrow> 'x" and de :: "'x \<Rightarrow> json option" and key :: string
    and upd :: "json \<Rightarrow> 'x env_store \<Rightarrow> (storage_error, json) result \<times> 'x env_store"
  assumes serde: "serde_round_trip ser de"
    and upd_written: "env_ok de (Suc k) st \<Longrightarrow> all_stamped de s1 \<Longrightarrow> entry_step de s1 (fst st) \<Longrightarrow>
      ms_get de s1 key = Inr current \<Longrightarrow> upd (graft_status ns current) st = (Inr updated, st') \<Longrightarrow>
      status_written de key ns updated (fst st')"
    and upd_ok: "env_ok de (Suc k) st \<Longrightarrow> metadata_obj value \<noteq> None \<Longrightarrow> upd value st = (r, st') \<Longrightarrow> env_ok de k st'"
begin

lemma loop_written:
  assumes "env_ok de n st" and "status_loop ser de upd key ns n st = (Inr updated, st')"
  shows "status_written de key ns updated (fst st')"
  using assms
proof (induction n arbitrary: st)
  case (Suc n)
  obtain r st1 where get: "env_get ser de key st = (r, st1)" by (cases "env_get ser de key st") blast
  show ?case
  proof (cases r)
    case (Inl e)
    then show ?thesis using Suc.prems(2) get by simp
  next
    case (Inr current)
    have st1: "env_ok de (Suc n) st1" "ms_get de (fst st1) key = Inr current"
      using env_get_ok [OF serde Suc.prems(1) get] Inr by auto
    have stamped: "all_stamped de (fst st1)" using st1(1) by (simp add: env_ok_def)
    obtain q st2 where upd: "upd (graft_status ns current) st1 = (q, st2)" by (cases "upd (graft_status ns current) st1") blast
    have st2: "env_ok de n st2" using upd_ok [OF st1(1) _ upd] stored_metadata [OF stamped st1(2)] by simp
    show ?thesis
    proof (cases q)
      case (Inl e)
      then have "status_loop ser de upd key ns n st2 = (Inr updated, st')"
        using Suc.prems(2) get Inr upd by (auto split: if_splits)
      then show ?thesis using Suc.IH st2 by blast
    next
      case (Inr u)
      then have "(u, st2) = (updated, st')" using Suc.prems(2) get \<open>r = Inr current\<close> upd by simp
      then show ?thesis using upd_written [OF st1(1) stamped entry_step_refl st1(2)] upd Inr by blast
    qed
  qed
qed simp

end

locale serde_store =
  fixes ser :: "json \<Rightarrow> 'x" and de :: "'x \<Rightarrow> json option"
  assumes serde: "serde_round_trip ser de"

sublocale serde_store \<subseteq> plain: guarded_update ser de key "env_update ser de key" for key
  by unfold_locales (use serde guarded_write env_update_ok in blast)+

lemma jget_without_rv: "f \<noteq> ''metadata'' \<Longrightarrow> jget (without_rv v) f = jget v f"
  by (auto simp: without_rv_def with_metadata_def jget_def split: option.splits json.splits)

lemma noop_status_only:
  assumes "objects_equal_ignoring_resource_version current (graft_status ns v)" and "metadata_obj v \<noteq> None"
  shows "status_only ns current current"
proof -
  have "\<exists>m. v = JObject m" using assms(2) by (cases v) (auto simp: metadata_obj_def jget_def)
  then have "jget current ''status'' = ns"
    using assms(1) jget_without_rv [of "''status''" current] jget_without_rv [of "''status''" "graft_status ns v"]
    by (auto simp: objects_equal_ignoring_resource_version_def jget_graft)
  then show ?thesis by (simp add: status_only_def)
qed

sublocale serde_store \<subseteq> backend: guarded_update ser de key "backend_update ser de key" for key
proof unfold_locales
  show "serde_round_trip ser de" by (rule serde)
next
  fix k st s1 current ns updated st'
  assume ok: "env_ok de (Suc k) st" and s1: "all_stamped de s1" "entry_step de s1 (fst st)" "ms_get de s1 key = Inr current"
    and upd: "backend_update ser de key (graft_status ns current) st = (Inr updated, st')"
  obtain r st1 where get: "env_get ser de key st = (r, st1)" by (cases "env_get ser de key st") blast
  have st1: "env_ok de (Suc k) st1" "ms_get de (fst st1) key = r" "entry_step de s1 (fst st1)"
    using env_get_ok [OF serde ok get] entry_step_trans [OF s1(2)] by auto
  have put: "env_update ser de key (graft_status ns current) st1 = (Inr updated, st') \<Longrightarrow> status_written de key ns updated (fst st')"
    using guarded_write [OF serde st1(1) s1(1) st1(3) s1(3)] by blast
  show "status_written de key ns updated (fst st')"
  proof (cases r)
    case (Inl e)
    then show ?thesis using upd get put by (simp add: backend_update_def)
  next
    case (Inr current2)
    have "status_written de key ns current2 (fst st1)"
      if "objects_equal_ignoring_resource_version current2 (graft_status ns current)"
      using noop_status_only [OF that stored_metadata [OF s1(1,3)]] st1(2) Inr unfolding status_written_def by blast
    then show ?thesis using upd get put Inr by (auto simp: backend_update_def Let_def split: if_splits)
  qed
next
  fix k st v r st'
  assume ok: "env_ok de (Suc k) st" and meta: "metadata_obj v \<noteq> None" and upd: "backend_update ser de key v st = (r, st')"
  obtain q st1 where get: "env_get ser de key st = (q, st1)" by (cases "env_get ser de key st") blast
  have st1: "env_ok de (Suc k) st1" using env_get_ok [OF serde ok get] by simp
  have "env_ok de k st1" using st1 by (simp add: env_ok_def)
  then show "env_ok de k st'"
    using upd get env_update_ok [OF serde st1 meta]
    by (auto simp: backend_update_def Let_def split: sum.splits if_splits)
qed

context serde_store
begin

lemmas plain_loop = plain.loop_written
lemmas backend_loop = backend.loop_written

end

interpretation json_store: serde_store id Some
  by unfold_locales (rule serde_id)

section \<open>Properties\<close>



lemma obj_insert_again: "obj_insert k a (obj_insert k b m) = obj_insert k a m"
  by (induction k b m rule: obj_insert.induct) auto

lemma obj_remove_insert: "obj_remove k (obj_insert k x m) = obj_remove k m"
  by (induction k x m rule: obj_insert.induct) (auto simp: obj_remove_def)

lemma without_rv_stamped: "metadata_obj v \<noteq> None \<Longrightarrow> without_rv (set_metadata ''resourceVersion'' x v) = without_rv v"
  by (cases v) (auto simp: set_metadata_def without_rv_def metadata_obj_def jget_def with_metadata_def obj_insert_again
      obj_remove_insert)

text \<open>Repeating an update writes nothing. After an update of the backend that succeeded, updating again with the
  object it returned, or with the same object without a version, returns the stored object and leaves
  the store, its revision and its event history as they are.\<close>

lemma repeated_update_writes_nothing:
  assumes "serde_round_trip ser de" and "env_ok de 1 (s, [])" and "metadata_obj v \<noteq> None"
    and "backend_update ser de key v (s, []) = (Inr u, st1)"
  shows "backend_update ser de key u st1 = (Inr u, st1)
    \<and> (pointer_rv v = None \<longrightarrow> backend_update ser de key v st1 = (Inr u, st1))"
proof -
  have quiet: "others ser de (t, []) = (t, [])" for t by (simp add: others_def)
  have again: "backend_update ser de key w (t, []) = (Inr u, t, [])"
    if "ms_get de t key = Inr u" "pointer_rv w = None \<or> pointer_rv w = pointer_rv u" "without_rv u = without_rv w" for w t
    using that by (auto simp: backend_update_def env_get_def quiet Let_def objects_equal_ignoring_resource_version_def)
  have written: "\<exists>t. st1 = (t, []) \<and> ms_get de t key = Inr u \<and> without_rv u = without_rv v"
    if upd: "env_update ser de key v (s, []) = (Inr u, st1)"
  proof -
    obtain t where t: "update_with_ttl ser de s key v 0 = (Inr u, t)" "st1 = (t, [])"
      using upd by (auto simp: env_update_def quiet Let_def ms_update_def split: prod.splits)
    have "0 \<le> ms_revision s" "ms_revision s < i64_max" using assms(2) by (auto simp: env_ok_def hist_ok_def Let_def)
    from update_effect_ok [OF assms(1) t(1) this] show ?thesis
      using t(2) assms(1,3) without_rv_stamped by (auto simp: ms_get_def decode_def serde_round_trip_def)
  qed
  have "\<exists>t. st1 = (t, []) \<and> ms_get de t key = Inr u \<and> without_rv u = without_rv v"
    using assms(4) written
    by (cases "ms_get de s key")
       (auto simp: backend_update_def env_get_def quiet Let_def objects_equal_ignoring_resource_version_def split: if_splits)
  then show ?thesis using again by auto
qed

text \<open>A graceful delete removes an object at once unless it is a pod or held by a finalizer; then it is marked with
  the time of the first call and its grace period, and later calls change nothing.\<close>

lemma graceful_delete_marks_once:
  assumes "serde_round_trip ser de" and "env_ok de 1 (s, [])" and "ms_get de s key = Inr obj" and "metadata_obj obj = Some mm"
  shows "\<exists>s1. delete_gracefully ser de now key (s, []) = (Inr (), s1, [])
    \<and> (if \<not> has_finalizers mm \<and> \<not> has_prefix ''/registry/pods/'' key then ms_data s1 = (ms_data s)(key := None)
       else delete_gracefully ser de later key (s1, []) = (Inr (), s1, [])
         \<and> (if map_of mm ''deletionTimestamp'' \<noteq> None then s1 = s
            else \<exists>obj1 mm1. ms_get de s1 key = Inr obj1 \<and> metadata_obj obj1 = Some mm1
              \<and> map_of mm1 ''deletionTimestamp'' = Some (JString now)
              \<and> map_of mm1 ''deletionGracePeriodSeconds'' = Some (JInt (grace_period obj))
              \<and> (\<forall>f. f \<noteq> ''metadata'' \<longrightarrow> jget obj1 f = jget obj f)))"
proof -
  have quiet: "others ser de (t, []) = (t, [])" for t by (simp add: others_def)
  obtain x where x: "ms_data s key = Some x" "de x = Some obj"
    using assms(3) by (auto simp: ms_get_def decode_def split: option.splits)
  define mark where "mark = mark_deleted now obj mm"
  have mark: "metadata_obj mark = Some (obj_insert ''deletionGracePeriodSeconds'' (JInt (grace_period obj))
      (obj_insert ''deletionTimestamp'' (JString now) mm))"
    using assms(4) by (simp add: mark_def mark_deleted_def metadata_obj_set)
  have fields: "jget mark f = jget obj f" if "f \<noteq> ''metadata''" for f
    using that by (simp add: mark_def mark_deleted_def jget_set_metadata)
      (auto simp: with_metadata_def jget_def split: json.splits)
  define s2 where "s2 = snd (update_raw ser s key mark)"
  obtain obj1 where obj1: "fst (update_raw ser s key mark) = Inr ()" "ms_get de s2 key = Inr obj1"
    "\<exists>rv. obj1 = set_metadata ''resourceVersion'' (JString rv) mark"
    using x(1) assms(1)
    by (auto simp: s2_def update_raw_def stamp_revision_def Let_def publish_def emit_def ms_get_def decode_def serde_round_trip_def
        mod_revision_to_resource_version_def)
  then obtain mm1 where mm1: "metadata_obj obj1 = Some mm1" "map_of mm1 ''deletionTimestamp'' = Some (JString now)"
    "map_of mm1 ''deletionGracePeriodSeconds'' = Some (JInt (grace_period obj))" "map_of mm1 ''finalizers'' = map_of mm ''finalizers''"
    using mark by (auto simp: metadata_obj_set)
  have keep: "jget obj1 f = jget obj f" if "f \<noteq> ''metadata''" for f
    using obj1(3) fields that by (auto simp: jget_set_metadata)
  have raw: "update_raw ser s key mark = (Inr (), s2)" using obj1(1) by (simp add: s2_def prod_eq_iff)
  have del: "\<exists>s1. ms_delete ser de s key = (Inr (), s1) \<and> ms_data s1 = (ms_data s)(key := None)"
    using x by (auto simp: ms_delete_def delete_inner_def delete_commit_def Let_def publish_def emit_def)
  show ?thesis
    using assms(3,4) del raw obj1(2) mm1 keep
    by (auto simp: delete_gracefully_def env_get_def env_delete_def env_update_raw_def quiet Let_def mark_def [symmetric]
        has_finalizers_def)
qed


section \<open>Witnesses\<close>

definition status_obj :: "int \<Rightarrow> json" where
  "status_obj n = JObject [(''metadata'', JObject [(''name'', JString ''a'')]), (''spec'', JInt n), (''status'', JInt 0)]"

definition status_store :: "json memory_storage" where
  "status_store = exec id Some (OpCreate ''/registry/pods/n/a'' (status_obj 1) 0 ''u'' ''t'') (with_history_capacity 10)"

text \<open>Another process changes the specification between the first read and the first write.\<close>

definition status_env :: "store_op list list" where
  "status_env = [[], [OpUpdate ''/registry/pods/n/a'' (status_obj 2) 0]]"

definition status_incoming :: json where
  "status_incoming = JObject [(''metadata'', JObject []), (''status'', JInt 7)]"

lemma status_store_ok:
  assumes "\<forall>ops \<in> set env. \<forall>op \<in> set ops. op_ok op" and "length (concat env) < 100"
  shows "env_ok Some 8 (status_store, env)"
proof -
  have "op_ok (OpCreate ''/registry/pods/n/a'' (status_obj 1) 0 ''u'' ''t'')" by (simp add: status_obj_def metadata_obj_def jget_def)
  moreover have "ms_revision (with_history_capacity 10 :: json memory_storage) = 1" by code_simp
  ultimately have "hist_ok status_store \<and> all_stamped Some status_store \<and> ms_revision status_store \<le> 2"
    using exec_step [OF serde_id hist_ok_new all_stamped_new, of _ 10]
    by (simp add: status_store_def int_limits del: exec.simps op_ok.simps)
  moreover have "int (length (concat env)) < 100" using assms(2) by linarith
  ultimately show ?thesis using assms(1) by (simp add: env_ok_def i64_max_def)
qed


end
