(* ===== verification/LabelSelector.thy ===== *)
theory LabelSelector
  imports Decimal "HOL-Library.List_Lexorder" "HOL-Library.Char_ord"
begin

text \<open>
  Label selectors (\<^verbatim>\<open>crates/common/src/label_selector.rs\<close>): the lexer, the recursive descent parser, the
  requirements with their validation and matching, and the printer; with the label key and value
  formats of \<^verbatim>\<open>crates/common/src/validation/metav1.rs\<close>.

  A string is a list of bytes; the lexer keeps the rest of the input, the parser the rest of the
  scanned tokens, and reading beyond either gives the end as in the source (a NUL byte reads as the end
  of the input). A \<open>BTreeSet\<close> of values is its sorted list. Error messages are reduced to the place that
  raises them and the literal found there; the regular expressions are the predicates they describe.

  Shown: scanning and parsing terminate; a parsed selector is well formed; printing it and parsing the
  text gives it back; \<open>in\<close> and \<open>notin\<close>, \<open>=\<close> and \<open>!=\<close>, and existence and its negation are complements on every
  set of labels.
\<close>

section \<open>Keys and values\<close>

definition is_alnum :: "char \<Rightarrow> bool" where
  "is_alnum c \<longleftrightarrow> (let n = of_char c :: nat in 48 \<le> n \<and> n \<le> 57 \<or> 65 \<le> n \<and> n \<le> 90 \<or> 97 \<le> n \<and> n \<le> 122)"

definition is_lower_alnum :: "char \<Rightarrow> bool" where
  "is_lower_alnum c \<longleftrightarrow> (let n = of_char c :: nat in 48 \<le> n \<and> n \<le> 57 \<or> 97 \<le> n \<and> n \<le> 122)"

definition is_name_char :: "char \<Rightarrow> bool" where
  "is_name_char c \<longleftrightarrow> is_alnum c \<or> c \<in> {CHR ''-'', CHR ''_'', CHR ''.''}"

text \<open>\<open>^([A-Za-z0-9][-A-Za-z0-9_.]*)?[A-Za-z0-9]$\<close>\<close>

definition label_key_re :: "string \<Rightarrow> bool" where
  "label_key_re s \<longleftrightarrow> s \<noteq> [] \<and> is_alnum (hd s) \<and> is_alnum (last s) \<and> list_all is_name_char s"

text \<open>\<open>^[a-z0-9]([-a-z0-9]*[a-z0-9])?$\<close> and labels of that form joined by dots.\<close>

definition dns1123_label_re :: "string \<Rightarrow> bool" where
  "dns1123_label_re s \<longleftrightarrow>
     s \<noteq> [] \<and> is_lower_alnum (hd s) \<and> is_lower_alnum (last s) \<and> list_all (\<lambda>c. is_lower_alnum c \<or> c = CHR ''-'') s"

fun split_on :: "char \<Rightarrow> string \<Rightarrow> string list" where
  "split_on d [] = [[]]"
| "split_on d (c # cs) =
     (if c = d then [] # split_on d cs
      else (case split_on d cs of [] \<Rightarrow> [[c]] | p # ps \<Rightarrow> (c # p) # ps))"

definition is_dns1123_subdomain :: "string \<Rightarrow> bool" where
  "is_dns1123_subdomain s \<longleftrightarrow> length s \<le> 253 \<and> list_all dns1123_label_re (split_on (CHR ''.'') s)"

definition is_qualified_name :: "string \<Rightarrow> bool" where
  "is_qualified_name s \<longleftrightarrow>
     (case split_on (CHR ''/'') s of
        [name] \<Rightarrow> name \<noteq> [] \<and> length name \<le> 63 \<and> label_key_re name
      | [prefix, name] \<Rightarrow>
          prefix \<noteq> [] \<and> is_dns1123_subdomain prefix \<and> name \<noteq> [] \<and> length name \<le> 63 \<and> label_key_re name
      | _ \<Rightarrow> False)"

definition is_valid_label_value :: "string \<Rightarrow> bool" where
  "is_valid_label_value s \<longleftrightarrow> length s \<le> 63 \<and> (s = [] \<or> label_key_re s)"

section \<open>Requirements\<close>

datatype label_operator =
    Equals | DoubleEquals | NotEquals | In | NotIn | Exists | DoesNotExist | GreaterThan | LessThan

record label_requirement =
  lr_key :: string
  lr_operator :: label_operator
  lr_values :: "string list option"

datatype selector_error =
    ErrRequirement selector_error
  | ErrAfterComma string
  | ErrCommaOrEnd string
  | ErrStart string
  | ErrIdentifier string
  | ErrLabelKey string
  | ErrOperator string
  | ErrOpenPar string
  | ErrClosedPar string
  | ErrValues string
  | ErrListSeparator string
  | ErrListItem string
  | ErrExactValue string
  | ErrNewRequirement string label_operator "string list"

text \<open>No error of \<open>validate_at\<close>.\<close>

definition requirement_valid :: "string \<Rightarrow> label_operator \<Rightarrow> string list \<Rightarrow> bool" where
  "requirement_valid key op vals \<longleftrightarrow>
     is_qualified_name key
     \<and> (case op of
          In \<Rightarrow> vals \<noteq> []
        | NotIn \<Rightarrow> vals \<noteq> []
        | Equals \<Rightarrow> length vals = 1
        | DoubleEquals \<Rightarrow> length vals = 1
        | NotEquals \<Rightarrow> length vals = 1
        | Exists \<Rightarrow> vals = []
        | DoesNotExist \<Rightarrow> vals = []
        | GreaterThan \<Rightarrow> length vals = 1 \<and> list_all (\<lambda>v. parse_i64 v \<noteq> None) vals
        | LessThan \<Rightarrow> length vals = 1 \<and> list_all (\<lambda>v. parse_i64 v \<noteq> None) vals)
     \<and> list_all is_valid_label_value vals"

definition requirement_new ::
  "string \<Rightarrow> label_operator \<Rightarrow> string list \<Rightarrow> (selector_error, label_requirement) result" where
  "requirement_new key op vals =
     (if requirement_valid key op vals
      then Inr \<lparr>lr_key = key, lr_operator = op,
                lr_values = (if op \<in> {Exists, DoesNotExist} then None else Some vals)\<rparr>
      else Inl (ErrNewRequirement key op vals))"

definition has_value :: "label_requirement \<Rightarrow> string \<Rightarrow> bool" where
  "has_value r v = (case lr_values r of None \<Rightarrow> False | Some vs \<Rightarrow> v \<in> set vs)"

definition requirement_matches :: "label_requirement \<Rightarrow> (string \<rightharpoonup> string) \<Rightarrow> bool" where
  "requirement_matches r labels =
     (let included = (case labels (lr_key r) of None \<Rightarrow> False | Some v \<Rightarrow> has_value r v);
          excluded = (case labels (lr_key r) of None \<Rightarrow> True | Some v \<Rightarrow> \<not> has_value r v);
          compared = (\<lambda>less. case Option.bind (labels (lr_key r)) parse_i64 of
             None \<Rightarrow> False
           | Some ls_value \<Rightarrow>
               (case lr_values r of
                  Some [v] \<Rightarrow>
                    (case parse_i64 v of
                       None \<Rightarrow> False
                     | Some r_value \<Rightarrow> if less then ls_value < r_value else ls_value > r_value)
                | _ \<Rightarrow> False))
      in case lr_operator r of
           In \<Rightarrow> included | Equals \<Rightarrow> included | DoubleEquals \<Rightarrow> included
         | NotIn \<Rightarrow> excluded | NotEquals \<Rightarrow> excluded
         | Exists \<Rightarrow> labels (lr_key r) \<noteq> None
         | DoesNotExist \<Rightarrow> labels (lr_key r) = None
         | GreaterThan \<Rightarrow> compared False
         | LessThan \<Rightarrow> compared True)"

section \<open>The lexer\<close>

datatype token =
    TError | TEndOfString | TClosedPar | TComma | TDoesNotExist | TDoubleEquals | TEquals | TGreaterThan
  | TIdentifier | TIn | TLessThan | TNotEquals | TNotIn | TOpenPar

definition string2token :: "string \<Rightarrow> token option" where
  "string2token s =
     (if s = '')'' then Some TClosedPar
      else if s = '','' then Some TComma
      else if s = ''!'' then Some TDoesNotExist
      else if s = ''=='' then Some TDoubleEquals
      else if s = ''='' then Some TEquals
      else if s = ''>'' then Some TGreaterThan
      else if s = ''in'' then Some TIn
      else if s = ''<'' then Some TLessThan
      else if s = ''!='' then Some TNotEquals
      else if s = ''notin'' then Some TNotIn
      else if s = ''('' then Some TOpenPar
      else None)"

definition is_whitespace :: "char \<Rightarrow> bool" where
  "is_whitespace c \<longleftrightarrow> c \<in> {CHR '' '', CHR 0x09, CHR 0x0D, CHR 0x0A}"

definition is_special_symbol :: "char \<Rightarrow> bool" where
  "is_special_symbol c \<longleftrightarrow>
     c \<in> {CHR ''='', CHR ''!'', CHR ''('', CHR '')'', CHR '','', CHR ''>'', CHR ''<''}"

text \<open>What \<open>read\<close> returns at the end; as a byte of the input it is consumed all the same.\<close>

abbreviation nul :: char where
  "nul \<equiv> CHR 0x00"

fun scan_id :: "string \<Rightarrow> string \<Rightarrow> string \<times> string" where
  "scan_id buffer [] = (buffer, [])"
| "scan_id buffer (c # cs) =
     (if c = nul then (buffer, cs)
      else if is_special_symbol c \<or> is_whitespace c then (buffer, c # cs)
      else scan_id (buffer @ [c]) cs)"

definition scan_id_or_keyword :: "string \<Rightarrow> (token \<times> string) \<times> string" where
  "scan_id_or_keyword input =
     (let (s, rest) = scan_id [] input in
      ((case string2token s of Some tok \<Rightarrow> tok | None \<Rightarrow> TIdentifier, s), rest))"

fun scan_special ::
  "(token \<times> string) option \<Rightarrow> string \<Rightarrow> string \<Rightarrow> (token \<times> string) option \<times> string \<times> string" where
  "scan_special found buffer [] = (found, buffer, [])"
| "scan_special found buffer (c # cs) =
     (if c = nul then (found, buffer, cs)
      else if is_special_symbol c
      then (case string2token (buffer @ [c]) of
              Some tok \<Rightarrow> scan_special (Some (tok, buffer @ [c])) (buffer @ [c]) cs
            | None \<Rightarrow> if found \<noteq> None then (found, buffer @ [c], c # cs) else scan_special found (buffer @ [c]) cs)
      else (found, buffer, c # cs))"

definition scan_special_symbol :: "string \<Rightarrow> (token \<times> string) \<times> string" where
  "scan_special_symbol input =
     (let (found, buffer, rest) = scan_special None [] input in
      (case found of
         Some item \<Rightarrow> item
       | None \<Rightarrow> (TError, ''error expected: keyword found '' @ [CHR 0x27] @ buffer @ [CHR 0x27]), rest))"

text \<open>\<open>skip_white_spaces\<close>, with the byte it returns still in the input.\<close>

fun skip_white_spaces :: "string \<Rightarrow> string" where
  "skip_white_spaces [] = []"
| "skip_white_spaces (c # cs) = (if is_whitespace c then skip_white_spaces cs else c # cs)"

definition lex :: "string \<Rightarrow> (token \<times> string) \<times> string" where
  "lex input =
     (case skip_white_spaces input of
        [] \<Rightarrow> ((TEndOfString, []), [])
      | c # cs \<Rightarrow>
          if c = nul then ((TEndOfString, []), cs)
          else if is_special_symbol c then scan_special_symbol (c # cs)
          else scan_id_or_keyword (c # cs))"


lemma string2token_range [simp]: "string2token s \<noteq> Some TEndOfString" "string2token s \<noteq> Some TError"
  "string2token s \<noteq> Some TIdentifier" "string2token [] = None"
  by (auto simp: string2token_def)

lemma scan_id_length: "scan_id b s = (l, s') \<Longrightarrow> length s' \<le> length s"
  by (induction b s rule: scan_id.induct) (auto split: if_splits)

lemma scan_special_length: "scan_special f b s = (g, b', s') \<Longrightarrow> length s' \<le> length s"
  by (induction f b s rule: scan_special.induct) (fastforce split: if_splits option.splits)+

lemma skip_length: "length (skip_white_spaces s) \<le> length s"
  by (induction s) auto

lemma special_token:
  assumes "is_special_symbol c"
  obtains tok where "string2token [c] = Some tok"
  using assms by (auto simp: is_special_symbol_def string2token_def)

lemma special_not_nul [simp]: "is_special_symbol c \<Longrightarrow> c \<noteq> nul"
  by (auto simp: is_special_symbol_def)

text \<open>Every token but the end consumes input, so scanning ends.\<close>

lemma lex_length:
  assumes "lex s = ((t, l), s')" and "t \<noteq> TEndOfString"
  shows "length s' < length s"
proof -
  obtain c cs where skip: "skip_white_spaces s = c # cs" "c \<noteq> nul"
    using assms by (auto simp: lex_def split: list.splits if_splits)
  then have le: "Suc (length cs) \<le> length s" using skip_length [of s] by simp
  have ws: "\<not> is_whitespace c" using skip(1) by (induction s) (auto split: if_splits)
  have "length s' \<le> length cs"
  proof (cases "is_special_symbol c")
    case True
    then obtain tok where tok: "string2token [c] = Some tok" by (rule special_token)
    have "scan_special None [] (c # cs) = scan_special (Some (tok, [c])) [c] cs" using True skip(2) tok by simp
    then show ?thesis
      using assms(1) skip True scan_special_length
      by (auto simp: lex_def scan_special_symbol_def split: prod.splits)
  next
    case False
    then have "scan_id [] (c # cs) = scan_id [c] cs" using skip(2) ws by simp
    then show ?thesis
      using assms(1) skip False scan_id_length by (auto simp: lex_def scan_id_or_keyword_def split: prod.splits)
  qed
  then show ?thesis using le by simp
qed

function scan :: "string \<Rightarrow> (token \<times> string) list" where
  "scan s = (case lex s of ((t, l), s') \<Rightarrow> if t = TEndOfString then [(t, l)] else (t, l) # scan s')"
  by pat_completeness auto
termination
  by (relation "measure length") (auto dest: lex_length [OF sym])

declare scan.simps [simp del]

section \<open>The parser\<close>

datatype parser_context = KeyAndOperator | Values

definition adjust :: "token \<Rightarrow> parser_context \<Rightarrow> token" where
  "adjust tok ctx = (if ctx = Values \<and> tok \<in> {TIn, TNotIn} then TIdentifier else tok)"

type_synonym tokens = "(token \<times> string) list"

definition lookahead :: "parser_context \<Rightarrow> tokens \<Rightarrow> token \<times> string" where
  "lookahead ctx toks = (case toks of [] \<Rightarrow> (TEndOfString, []) | (t, l) # _ \<Rightarrow> (adjust t ctx, l))"

definition consume :: "parser_context \<Rightarrow> tokens \<Rightarrow> (token \<times> string) \<times> tokens" where
  "consume ctx toks = (lookahead ctx toks, tl toks)"

text \<open>\<open>BTreeSet::insert\<close> on the sorted list of a set.\<close>

fun set_insert :: "string \<Rightarrow> string list \<Rightarrow> string list" where
  "set_insert x [] = [x]"
| "set_insert x (y # ys) = (if x = y then y # ys else if x < y then x # y # ys else y # set_insert x ys)"

fun parse_identifiers_list :: "string list \<Rightarrow> tokens \<Rightarrow> (selector_error, string list \<times> tokens) result" where
  "parse_identifiers_list s [] = Inl (ErrListItem [])"
| "parse_identifiers_list s ((t, lit) # toks) =
     (let tok = adjust t Values in
      if tok = TIdentifier
      then (let s1 = set_insert lit s; (tok2, lit2) = lookahead Values toks in
            if tok2 = TComma then parse_identifiers_list s1 toks
            else if tok2 = TClosedPar then Inr (s1, toks)
            else Inl (ErrListSeparator lit2))
      else if tok = TComma
      then (let s1 = (if s = [] then set_insert [] s else s); (tok2, _) = lookahead Values toks in
            if tok2 = TClosedPar then Inr (set_insert [] s1, toks)
            else if tok2 = TComma then parse_identifiers_list (set_insert [] s1) toks
            else parse_identifiers_list s1 toks)
      else Inl (ErrListItem lit))"

definition parse_values :: "tokens \<Rightarrow> (selector_error, string list \<times> tokens) result" where
  "parse_values toks =
     (let ((tok, lit), toks1) = consume Values toks in
      if tok \<noteq> TOpenPar then Inl (ErrOpenPar lit)
      else
        (let (tok, lit) = lookahead Values toks1 in
         if tok \<in> {TIdentifier, TComma}
         then (case parse_identifiers_list [] toks1 of
                 Inl e \<Rightarrow> Inl e
               | Inr (s, toks2) \<Rightarrow>
                   (let ((tok, _), toks3) = consume Values toks2 in
                    if tok \<noteq> TClosedPar then Inl (ErrClosedPar lit) else Inr (s, toks3)))
         else if tok = TClosedPar then Inr ([[]], snd (consume Values toks1))
         else Inl (ErrValues lit)))"

definition parse_exact_value :: "tokens \<Rightarrow> (selector_error, string list \<times> tokens) result" where
  "parse_exact_value toks =
     (if fst (lookahead Values toks) \<in> {TEndOfString, TComma} then Inr ([[]], toks)
      else
        (let ((tok, lit), toks1) = consume Values toks in
         if tok = TIdentifier then Inr ([lit], toks1) else Inl (ErrExactValue lit)))"

definition parse_operator :: "tokens \<Rightarrow> (selector_error, label_operator \<times> tokens) result" where
  "parse_operator toks =
     (let ((tok, lit), toks1) = consume KeyAndOperator toks in
      case tok of
        TIn \<Rightarrow> Inr (In, toks1)
      | TEquals \<Rightarrow> Inr (Equals, toks1)
      | TDoubleEquals \<Rightarrow> Inr (DoubleEquals, toks1)
      | TGreaterThan \<Rightarrow> Inr (GreaterThan, toks1)
      | TLessThan \<Rightarrow> Inr (LessThan, toks1)
      | TNotIn \<Rightarrow> Inr (NotIn, toks1)
      | TNotEquals \<Rightarrow> Inr (NotEquals, toks1)
      | _ \<Rightarrow> Inl (ErrOperator lit))"

definition parse_key_and_infer_operator ::
  "tokens \<Rightarrow> (selector_error, (string \<times> label_operator option) \<times> tokens) result" where
  "parse_key_and_infer_operator toks =
     (let ((tok0, literal0), toks0) = consume Values toks;
          (operator, (tok, literal), toks1) =
            (if tok0 = TDoesNotExist then (Some DoesNotExist, consume Values toks0)
             else (None, (tok0, literal0), toks0))
      in if tok \<noteq> TIdentifier then Inl (ErrIdentifier literal)
         else if \<not> is_qualified_name literal then Inl (ErrLabelKey literal)
         else
           (let operator1 =
              (if fst (lookahead Values toks1) \<in> {TEndOfString, TComma} \<and> operator \<noteq> Some DoesNotExist
               then Some Exists else operator)
            in Inr ((literal, operator1), toks1)))"

definition parse_requirement :: "tokens \<Rightarrow> (selector_error, label_requirement \<times> tokens) result" where
  "parse_requirement toks =
     (case parse_key_and_infer_operator toks of
        Inl e \<Rightarrow> Inl e
      | Inr ((key, operator), toks1) \<Rightarrow>
          if operator \<in> {Some Exists, Some DoesNotExist}
          then map_sum id (\<lambda>r. (r, toks1)) (requirement_new key (the operator) [])
          else
            (case parse_operator toks1 of
               Inl e \<Rightarrow> Inl e
             | Inr (op, toks2) \<Rightarrow>
                 (case (if op \<in> {In, NotIn} then parse_values toks2 else parse_exact_value toks2) of
                    Inl e \<Rightarrow> Inl e
                  | Inr (vals, toks3) \<Rightarrow> map_sum id (\<lambda>r. (r, toks3)) (requirement_new key op vals))))"


lemma parse_identifiers_length: "parse_identifiers_list s toks = Inr (vs, toks') \<Longrightarrow> length toks' \<le> length toks"
  by (induction s toks rule: parse_identifiers_list.induct)
     (fastforce simp: Let_def split: if_splits prod.splits)+

lemma parse_values_length: "parse_values toks = Inr (vs, toks') \<Longrightarrow> length toks' \<le> length toks"
proof -
  assume p: "parse_values toks = Inr (vs, toks')"
  have "length toks2 \<le> length (tl toks)" if "parse_identifiers_list [] (tl toks) = Inr (s, toks2)" for s toks2
    using parse_identifiers_length [OF that] .
  then show ?thesis
    using p by (fastforce simp: parse_values_def consume_def Let_def split: prod.splits if_splits sum.splits)
qed

lemma parse_requirement_length: "parse_requirement toks = Inr (r, toks') \<Longrightarrow> length toks' \<le> length toks"
proof -
  assume p: "parse_requirement toks = Inr (r, toks')"
  obtain key operator toks1 where k: "parse_key_and_infer_operator toks = Inr ((key, operator), toks1)"
    using p by (cases "parse_key_and_infer_operator toks") (auto simp: parse_requirement_def)
  have k1: "length toks1 \<le> length toks"
    using k by (auto simp: parse_key_and_infer_operator_def consume_def Let_def split: prod.splits if_splits)
  have op: "parse_operator toks1 = Inr (op, toks2) \<Longrightarrow> length toks2 \<le> length toks1" for op toks2
    by (auto simp: parse_operator_def consume_def Let_def split: prod.splits token.splits)
  have ex: "parse_exact_value toks2 = Inr (vs, toks3) \<Longrightarrow> length toks3 \<le> length toks2" for vs toks2 toks3
    by (auto simp: parse_exact_value_def consume_def Let_def split: prod.splits if_splits)
  show ?thesis
  proof (cases "operator \<in> {Some Exists, Some DoesNotExist}")
    case True
    then show ?thesis using p k k1 by (auto simp: parse_requirement_def map_sum_def split: sum.splits)
  next
    case False
    then obtain op toks2 vals where o: "parse_operator toks1 = Inr (op, toks2)"
      "(if op \<in> {In, NotIn} then parse_values toks2 else parse_exact_value toks2) = Inr (vals, toks')"
      using p k by (auto simp: parse_requirement_def map_sum_def split: sum.splits prod.splits)
    then show ?thesis using k1 op [OF o(1)] ex parse_values_length by (fastforce split: if_splits)
  qed
qed

function parse_requirements :: "tokens \<Rightarrow> (selector_error, label_requirement list) result" where
  "parse_requirements toks =
     (let (tok, lit) = lookahead Values toks in
      if tok \<in> {TIdentifier, TDoesNotExist}
      then (case parse_requirement toks of
              Inl e \<Rightarrow> Inl (ErrRequirement e)
            | Inr (r, toks1) \<Rightarrow>
                (let (t, l) = fst (consume Values toks1); toks2 = snd (consume Values toks1) in
                 if t = TEndOfString then Inr [r]
                 else if t = TComma
                 then (let (t2, l2) = lookahead Values toks2 in
                       if t2 \<noteq> TIdentifier \<and> t2 \<noteq> TDoesNotExist then Inl (ErrAfterComma l2)
                       else map_sum id (Cons r) (parse_requirements toks2))
                 else Inl (ErrCommaOrEnd l)))
      else if tok = TEndOfString then Inr []
      else Inl (ErrStart lit))"
  by pat_completeness auto
termination
proof (relation "measure length", goal_cases)
  case (2 toks p tok lit y r toks1 q t l toks2 v t2 l2)
  have "toks1 \<noteq> []" using 2 by (auto simp: consume_def lookahead_def)
  moreover have "parse_requirement toks = Inr (r, toks1)" using 2 by simp
  moreover have "toks2 = tl toks1" using 2 by (auto simp: consume_def)
  ultimately show ?case using parse_requirement_length [of toks r toks1] by (cases toks1) auto
qed simp

declare parse_requirements.simps [simp del]

record label_selector =
  ls_requirements :: "label_requirement list"

definition parse_selector :: "string \<Rightarrow> (selector_error, label_selector) result" where
  "parse_selector selector =
     (case parse_requirements (scan selector) of
        Inl e \<Rightarrow> Inl e
      | Inr rs \<Rightarrow> Inr \<lparr>ls_requirements = sort_key lr_key rs\<rparr>)"

definition selector_matches :: "label_selector \<Rightarrow> (string \<rightharpoonup> string) \<Rightarrow> bool" where
  "selector_matches sel labels = list_all (\<lambda>r. requirement_matches r labels) (ls_requirements sel)"

definition selector_is_empty :: "label_selector \<Rightarrow> bool" where
  "selector_is_empty sel = (ls_requirements sel = [])"

section \<open>The printer\<close>

fun join :: "string \<Rightarrow> string list \<Rightarrow> string" where
  "join sep [] = []"
| "join sep [x] = x"
| "join sep (x # y # xs) = x @ sep @ join sep (y # xs)"

definition show_requirement :: "label_requirement \<Rightarrow> string" where
  "show_requirement r =
     (let op = lr_operator r;
          pre = (if op = DoesNotExist then ''!'' else '''') @ lr_key r;
          sym = (case op of
             Equals \<Rightarrow> ''='' | DoubleEquals \<Rightarrow> ''=='' | NotEquals \<Rightarrow> ''!='' | In \<Rightarrow> '' in '' | NotIn \<Rightarrow> '' notin ''
           | GreaterThan \<Rightarrow> ''>'' | LessThan \<Rightarrow> ''<'' | _ \<Rightarrow> '''');
          vals = (case lr_values r of None \<Rightarrow> [] | Some vs \<Rightarrow> vs);
          text = (if length vals = 1 then vals ! 0 else join '','' (sort vals))
      in if op \<in> {Exists, DoesNotExist} then pre
         else if op \<in> {In, NotIn} then pre @ sym @ ''('' @ text @ '')''
         else pre @ sym @ text)"

definition show_selector :: "label_selector \<Rightarrow> string" where
  "show_selector sel = join '','' (map show_requirement (ls_requirements sel))"


section \<open>Well formed selectors\<close>

definition vals_of :: "label_requirement \<Rightarrow> string list" where
  "vals_of r = (case lr_values r of None \<Rightarrow> [] | Some vs \<Rightarrow> vs)"

definition requirement_ok :: "label_requirement \<Rightarrow> bool" where
  "requirement_ok r \<longleftrightarrow>
     requirement_valid (lr_key r) (lr_operator r) (vals_of r) \<and> sorted_wrt (<) (vals_of r)
     \<and> (lr_values r = None \<longleftrightarrow> lr_operator r \<in> {Exists, DoesNotExist})"

definition selector_ok :: "label_selector \<Rightarrow> bool" where
  "selector_ok sel \<longleftrightarrow> list_all requirement_ok (ls_requirements sel) \<and> sorted (map lr_key (ls_requirements sel))"

lemma set_insert_sorted:
  "sorted_wrt (<) xs \<Longrightarrow> sorted_wrt (<) (set_insert x xs) \<and> set (set_insert x xs) = insert x (set xs)"
  by (induction xs) (auto simp: not_less)

lemma parse_identifiers_sorted:
  "sorted_wrt (<) s \<Longrightarrow> parse_identifiers_list s toks = Inr (vs, toks') \<Longrightarrow> sorted_wrt (<) vs"
  by (induction s toks rule: parse_identifiers_list.induct)
     (auto simp: Let_def set_insert_sorted split: if_splits prod.splits)

lemma parse_values_sorted:
  assumes "parse_values toks = Inr (vs, toks')"
  shows "sorted_wrt (<) vs"
proof -
  have "sorted_wrt (<) s" if "parse_identifiers_list [] t = Inr (s, t')" for s t t'
    using parse_identifiers_sorted [OF _ that] by simp
  then show ?thesis
    using assms by (fastforce simp: parse_values_def Let_def split: prod.splits if_splits sum.splits)
qed

lemma requirement_new_ok:
  assumes "requirement_new key op vals = Inr r" and "sorted_wrt (<) vals"
  shows "requirement_ok r"
proof -
  have valid: "requirement_valid key op vals" using assms(1) by (auto simp: requirement_new_def split: if_splits)
  moreover have "vals = []" if "op \<in> {Exists, DoesNotExist}"
    using valid that by (auto simp: requirement_valid_def)
  moreover have "r = \<lparr>lr_key = key, lr_operator = op,
      lr_values = (if op \<in> {Exists, DoesNotExist} then None else Some vals)\<rparr>"
    using assms(1) valid by (simp add: requirement_new_def)
  ultimately show ?thesis using assms(2) by (cases "op \<in> {Exists, DoesNotExist}") (auto simp: requirement_ok_def vals_of_def)
qed

lemma parse_requirement_ok:
  assumes "parse_requirement toks = Inr (r, toks')"
  shows "requirement_ok r"
proof -
  have exact: "sorted_wrt (<) vs" if "parse_exact_value t = Inr (vs, t')" for vs t t'
    using that by (auto simp: parse_exact_value_def Let_def split: prod.splits if_splits)
  show ?thesis
    using assms requirement_new_ok exact parse_values_sorted
    by (fastforce simp: parse_requirement_def map_sum_def split: sum.splits prod.splits if_splits)
qed

lemma parse_requirements_step:
  assumes "parse_requirements toks = Inr rs"
  shows "rs = [] \<or> (\<exists>r toks1. parse_requirement toks = Inr (r, toks1)
    \<and> (rs = [r] \<or> (\<exists>rs'. rs = r # rs' \<and> toks1 \<noteq> [] \<and> parse_requirements (tl toks1) = Inr rs')))"
proof (cases "fst (lookahead Values toks) \<in> {TIdentifier, TDoesNotExist}")
  case False
  then show ?thesis
    using assms unfolding parse_requirements.simps [of toks] by (simp add: case_prod_unfold Let_def split: if_splits)
next
  case True
  then obtain r toks1 where r: "parse_requirement toks = Inr (r, toks1)"
    using assms unfolding parse_requirements.simps [of toks]
    by (cases "parse_requirement toks") (auto simp add: case_prod_unfold Let_def)
  have "toks1 \<noteq> []" if "fst (lookahead Values toks1) \<noteq> TEndOfString"
    using that by (auto simp: lookahead_def)
  then have "rs = [r] \<or> (\<exists>rs'. rs = r # rs' \<and> toks1 \<noteq> [] \<and> parse_requirements (tl toks1) = Inr rs')"
    using assms True r unfolding parse_requirements.simps [of toks]
    by (cases "parse_requirements (tl toks1)") (auto simp add: case_prod_unfold Let_def consume_def split: if_splits)
  then show ?thesis using r by blast
qed

lemma parse_requirements_ok: "parse_requirements toks = Inr rs \<Longrightarrow> list_all requirement_ok rs"
proof (induction "length toks" arbitrary: toks rs rule: less_induct)
  case less
  consider "rs = []" | r toks1 where "parse_requirement toks = Inr (r, toks1)" "rs = [r]"
    | r toks1 rs' where "parse_requirement toks = Inr (r, toks1)" "rs = r # rs'" "toks1 \<noteq> []"
        "parse_requirements (tl toks1) = Inr rs'"
    using parse_requirements_step [OF less.prems] by blast
  then show ?case
  proof cases
    case 3
    have "length (tl toks1) < length toks"
      using 3(3) parse_requirement_length [OF 3(1)] by (cases toks1) auto
    then have "list_all requirement_ok rs'" using less.hyps 3(4) by blast
    then show ?thesis using 3 parse_requirement_ok [OF 3(1)] by simp
  qed (auto dest: parse_requirement_ok)
qed

lemma parse_selector_ok: "parse_selector s = Inr sel \<Longrightarrow> selector_ok sel"
  using parse_requirements_ok by (auto simp: parse_selector_def selector_ok_def list_all_iff split: sum.splits)

section \<open>Scanning printed text\<close>

definition plain :: "char \<Rightarrow> bool" where
  "plain c \<longleftrightarrow> c \<noteq> nul \<and> \<not> is_special_symbol c \<and> \<not> is_whitespace c"

lemma name_char_plain: "is_name_char c \<Longrightarrow> plain c"
  by (auto simp: is_name_char_def is_alnum_def plain_def is_special_symbol_def is_whitespace_def Let_def)

lemma lower_alnum_plain: "is_lower_alnum c \<Longrightarrow> plain c"
  by (auto simp: is_lower_alnum_def plain_def is_special_symbol_def is_whitespace_def Let_def)

lemma split_on_chars: "list_all (list_all P) (split_on d s) \<Longrightarrow> P d \<Longrightarrow> list_all P s"
  by (induction s) (auto split: if_splits list.splits)

lemma label_key_re_plain: "label_key_re s \<Longrightarrow> list_all plain s"
  by (auto simp: label_key_re_def list_all_iff name_char_plain)

lemma punctuation_plain: "plain (CHR ''.'')" "plain (CHR ''-'')" "plain (CHR ''/'')"
  by (simp_all add: plain_def is_special_symbol_def is_whitespace_def)

lemma dns1123_label_plain: "dns1123_label_re p \<Longrightarrow> list_all plain p"
proof -
  assume "dns1123_label_re p"
  then have "list_all (\<lambda>c. is_lower_alnum c \<or> c = CHR ''-'') p" unfolding dns1123_label_re_def by blast
  then show ?thesis by (rule list.pred_mono_strong) (use lower_alnum_plain punctuation_plain(2) in blast)
qed

lemma subdomain_plain:
  assumes "is_dns1123_subdomain s"
  shows "list_all plain s"
proof (rule split_on_chars)
  show "list_all (list_all plain) (split_on (CHR ''.'') s)"
    using assms unfolding is_dns1123_subdomain_def by (metis list.pred_mono_strong dns1123_label_plain)
  show "plain (CHR ''.'')" by (rule punctuation_plain)
qed

lemma qualified_name_plain:
  assumes "is_qualified_name s"
  shows "list_all plain s \<and> s \<noteq> []"
proof -
  have "list_all (list_all plain) (split_on (CHR ''/'') s)"
    using assms label_key_re_plain subdomain_plain by (auto simp: is_qualified_name_def split: list.splits)
  then have "list_all plain s" using punctuation_plain(3) by (rule split_on_chars)
  moreover have "s \<noteq> []" using assms by (auto simp: is_qualified_name_def)
  ultimately show ?thesis ..
qed

lemma label_value_plain: "is_valid_label_value s \<Longrightarrow> list_all plain s"
  by (auto simp: is_valid_label_value_def label_key_re_plain)

text \<open>The text after a word or a symbol.\<close>

definition stops :: "string \<Rightarrow> bool" where
  "stops rest \<longleftrightarrow> rest = [] \<or> is_special_symbol (hd rest) \<or> is_whitespace (hd rest)"

definition no_nul :: "string \<Rightarrow> bool" where
  "no_nul rest \<longleftrightarrow> rest = [] \<or> hd rest \<noteq> nul"

lemma scan_id_plain: "list_all plain w \<Longrightarrow> stops rest \<Longrightarrow> no_nul rest \<Longrightarrow> scan_id b (w @ rest) = (b @ w, rest)"
proof (induction w arbitrary: b)
  case Nil
  then show ?case by (cases rest) (auto simp: stops_def no_nul_def)
qed (auto simp: plain_def)

definition word_token :: "string \<Rightarrow> token" where
  "word_token w = (if w = ''in'' then TIn else if w = ''notin'' then TNotIn else TIdentifier)"

lemma adjust_word [simp]: "adjust (word_token w) Values = TIdentifier"
  by (simp add: adjust_def word_token_def)

lemma plain_token:
  assumes "list_all plain w"
  shows "(case string2token w of Some tok \<Rightarrow> tok | None \<Rightarrow> TIdentifier) = word_token w"
proof -
  have "\<not> plain (CHR '')'')" "\<not> plain (CHR ''('')" "\<not> plain (CHR '','')" "\<not> plain (CHR ''!'')"
    "\<not> plain (CHR ''='')" "\<not> plain (CHR ''>'')" "\<not> plain (CHR ''<'')"
    by (simp_all add: plain_def is_special_symbol_def)
  then have "w \<noteq> '')''" "w \<noteq> ''(''" "w \<noteq> '',''" "w \<noteq> ''!''" "w \<noteq> ''=''" "w \<noteq> ''>''" "w \<noteq> ''<''" "w \<noteq> ''==''"
    "w \<noteq> ''!=''" using assms by (metis list.pred_inject(2))+
  then show ?thesis by (simp add: string2token_def word_token_def)
qed

lemma scan_word:
  assumes "list_all plain w" and "w \<noteq> []" and "stops rest" and "no_nul rest"
  shows "scan (w @ rest) = (word_token w, w) # scan rest"
proof -
  obtain c cs where w: "w = c # cs" using assms(2) by (cases w) auto
  then have c: "plain c" using assms(1) by simp
  have "lex (w @ rest) = ((word_token w, w), rest)"
    using c scan_id_plain [OF assms(1,3,4), of "[]"] plain_token [OF assms(1)]
    by (auto simp: lex_def w plain_def scan_id_or_keyword_def)
  moreover have "word_token w \<noteq> TEndOfString" by (simp add: word_token_def)
  ultimately show ?thesis by (subst scan.simps) simp
qed

lemma scan_nil: "scan [] = [(TEndOfString, [])]"
  by (subst scan.simps) (simp add: lex_def)

lemma scan_space: "scan (CHR '' '' # s) = scan s"
proof -
  have "lex (CHR '' '' # s) = lex s" by (simp add: lex_def is_whitespace_def)
  then show ?thesis by (subst (1 2) scan.simps) simp
qed

text \<open>A symbol that no further symbol extends.\<close>

lemma scan_special_stop:
  assumes "\<And>c. string2token (b @ [c]) \<noteq> None \<Longrightarrow> rest = [] \<or> hd rest \<noteq> c" and "no_nul rest"
  shows "\<exists>b'. scan_special (Some x) b rest = (Some x, b', rest)"
  using assms by (cases rest) (auto simp: no_nul_def split: option.splits)

lemma lex_symbol:
  assumes "is_special_symbol c" and "scan_special None [] (c # s) = (Some (t, l), b, rest)" and "t \<noteq> TEndOfString"
  shows "scan (c # s) = (t, l) # scan rest"
proof -
  have "\<not> is_whitespace c" using assms(1) by (auto simp: is_special_symbol_def is_whitespace_def)
  then have "lex (c # s) = ((t, l), rest)" using assms(1,2) by (simp add: lex_def scan_special_symbol_def)
  then show ?thesis using assms(3) by (subst scan.simps) simp
qed

lemma scan_symbol:
  assumes "no_nul rest"
  shows "scan ('','' @ rest) = (TComma, '','') # scan rest"
    and "scan (''('' @ rest) = (TOpenPar, ''('') # scan rest"
    and "scan ('')'' @ rest) = (TClosedPar, '')'') # scan rest"
    and "scan (''>'' @ rest) = (TGreaterThan, ''>'') # scan rest"
    and "scan (''<'' @ rest) = (TLessThan, ''<'') # scan rest"
    and "scan (''=='' @ rest) = (TDoubleEquals, ''=='') # scan rest"
    and "scan (''!='' @ rest) = (TNotEquals, ''!='') # scan rest"
    and "rest = [] \<or> hd rest \<noteq> CHR ''='' \<Longrightarrow> scan (''='' @ rest) = (TEquals, ''='') # scan rest"
    and "rest = [] \<or> hd rest \<noteq> CHR ''='' \<Longrightarrow> scan (''!'' @ rest) = (TDoesNotExist, ''!'') # scan rest"
proof -
  have sym: "scan (c # s) = (t, l) # scan rest"
    if "is_special_symbol c" "scan_special None [] (c # s) = scan_special (Some (t, l)) l rest"
      "\<And>c. string2token (l @ [c]) \<noteq> None \<Longrightarrow> rest = [] \<or> hd rest \<noteq> c" "t \<noteq> TEndOfString" for c s t l
    using that(1,2,4) lex_symbol scan_special_stop [OF that(3) assms] by metis
  note defs = is_special_symbol_def string2token_def
  show "scan ('','' @ rest) = (TComma, '','') # scan rest" by (simp, rule sym) (auto simp: defs)
  show "scan (''('' @ rest) = (TOpenPar, ''('') # scan rest" by (simp, rule sym) (auto simp: defs)
  show "scan ('')'' @ rest) = (TClosedPar, '')'') # scan rest" by (simp, rule sym) (auto simp: defs)
  show "scan (''>'' @ rest) = (TGreaterThan, ''>'') # scan rest" by (simp, rule sym) (auto simp: defs)
  show "scan (''<'' @ rest) = (TLessThan, ''<'') # scan rest" by (simp, rule sym) (auto simp: defs)
  show "scan (''=='' @ rest) = (TDoubleEquals, ''=='') # scan rest" by (simp, rule sym) (auto simp: defs)
  show "scan (''!='' @ rest) = (TNotEquals, ''!='') # scan rest" by (simp, rule sym) (auto simp: defs)
  show "rest = [] \<or> hd rest \<noteq> CHR ''='' \<Longrightarrow> scan (''='' @ rest) = (TEquals, ''='') # scan rest"
    by (simp, rule sym) (auto simp: defs split: if_splits)
  show "rest = [] \<or> hd rest \<noteq> CHR ''='' \<Longrightarrow> scan (''!'' @ rest) = (TDoesNotExist, ''!'') # scan rest"
    by (simp, rule sym) (auto simp: defs split: if_splits)
qed


section \<open>The tokens of a printed selector\<close>

definition value_tokens :: "string \<Rightarrow> tokens" where
  "value_tokens v = (if v = [] then [] else [(word_token v, v)])"

fun list_tokens :: "string list \<Rightarrow> tokens" where
  "list_tokens [] = []"
| "list_tokens [v] = value_tokens v"
| "list_tokens (v # w # vs) = value_tokens v @ (TComma, '','') # list_tokens (w # vs)"

definition req_tokens :: "label_requirement \<Rightarrow> tokens" where
  "req_tokens r =
     (let key = (word_token (lr_key r), lr_key r); exact = (\<lambda>t l. key # (t, l) # list_tokens (vals_of r));
          listed = (\<lambda>t l. key # (t, l) # (TOpenPar, ''('') # list_tokens (vals_of r) @ [(TClosedPar, '')'')])
      in case lr_operator r of
           Equals \<Rightarrow> exact TEquals ''='' | DoubleEquals \<Rightarrow> exact TDoubleEquals ''=='' | NotEquals \<Rightarrow> exact TNotEquals ''!=''
         | GreaterThan \<Rightarrow> exact TGreaterThan ''>'' | LessThan \<Rightarrow> exact TLessThan ''<''
         | In \<Rightarrow> listed TIn ''in'' | NotIn \<Rightarrow> listed TNotIn ''notin''
         | Exists \<Rightarrow> [key] | DoesNotExist \<Rightarrow> [(TDoesNotExist, ''!''), key])"

fun sel_tokens :: "label_requirement list \<Rightarrow> tokens" where
  "sel_tokens [] = [(TEndOfString, [])]"
| "sel_tokens [r] = req_tokens r @ [(TEndOfString, [])]"
| "sel_tokens (r # q # rs) = req_tokens r @ (TComma, '','') # sel_tokens (q # rs)"

lemma stops_no_nul [simp]: "stops rest \<Longrightarrow> no_nul rest"
  by (auto simp: stops_def no_nul_def is_whitespace_def)

lemma stops_simps [simp]:
  "stops []" "stops (CHR '','' # s)" "stops (CHR '')'' # s)" "stops (CHR ''('' # s)" "stops (CHR '' '' # s)"
  "stops (CHR ''='' # s)" "stops (CHR ''!'' # s)" "stops (CHR ''>'' # s)" "stops (CHR ''<'' # s)"
  by (simp_all add: stops_def is_special_symbol_def is_whitespace_def)

lemma no_nul_plain:
  assumes "list_all plain v" and "no_nul rest"
  shows "no_nul (v @ rest)"
  using assms by (cases v) (auto simp: no_nul_def plain_def)

lemma scan_value: "list_all plain v \<Longrightarrow> stops rest \<Longrightarrow> scan (v @ rest) = value_tokens v @ scan rest"
  using scan_word by (auto simp: value_tokens_def)

lemma no_nul_join:
  "list_all (list_all plain) vs \<Longrightarrow> no_nul rest \<Longrightarrow> no_nul (join '','' vs @ rest)"
proof (induction vs rule: list_tokens.induct)
  case (3 v w vs)
  then show ?case using no_nul_plain [of v "'','' @ join '','' (w # vs) @ rest"] by (simp add: no_nul_def)
qed (auto simp: no_nul_plain)

lemma scan_join:
  "list_all (list_all plain) vs \<Longrightarrow> stops rest \<Longrightarrow> scan (join '','' vs @ rest) = list_tokens vs @ scan rest"
proof (induction vs rule: list_tokens.induct)
  case (3 v w vs)
  have "no_nul (join '','' (w # vs) @ rest)" using 3 no_nul_join by auto
  then show ?case using 3 scan_value [of v] scan_symbol(1) by simp
qed (auto simp: scan_value)


lemma printed_values:
  "sorted_wrt (<) vs \<Longrightarrow> (if length vs = 1 then vs ! 0 else join '','' (sort vs)) = join '','' vs"
proof -
  assume "sorted_wrt (<) vs"
  then have "sort vs = vs" by (intro sorted_sort_id strict_sorted_imp_sorted)
  then show ?thesis by (cases vs rule: list_tokens.cases) simp_all
qed

lemma requirement_ok_plain:
  assumes "requirement_ok r"
  shows "list_all plain (lr_key r)" "lr_key r \<noteq> []" "list_all (list_all plain) (vals_of r)"
proof -
  have valid: "requirement_valid (lr_key r) (lr_operator r) (vals_of r)" using assms by (simp add: requirement_ok_def)
  then have "is_qualified_name (lr_key r)" by (simp add: requirement_valid_def)
  then show "list_all plain (lr_key r)" "lr_key r \<noteq> []" using qualified_name_plain by blast+
  have "list_all is_valid_label_value (vals_of r)" using valid by (simp add: requirement_valid_def)
  then show "list_all (list_all plain) (vals_of r)" by (rule list.pred_mono_strong) (rule label_value_plain)
qed

lemma show_requirement_ok:
  assumes "requirement_ok r"
  shows "show_requirement r =
    (let key = lr_key r; vals = join '','' (vals_of r) in case lr_operator r of
       Equals \<Rightarrow> key @ ''='' @ vals | DoubleEquals \<Rightarrow> key @ ''=='' @ vals | NotEquals \<Rightarrow> key @ ''!='' @ vals
     | GreaterThan \<Rightarrow> key @ ''>'' @ vals | LessThan \<Rightarrow> key @ ''<'' @ vals
     | In \<Rightarrow> key @ '' '' @ ''in'' @ '' '' @ ''('' @ vals @ '')''
     | NotIn \<Rightarrow> key @ '' '' @ ''notin'' @ '' '' @ ''('' @ vals @ '')''
     | Exists \<Rightarrow> key | DoesNotExist \<Rightarrow> ''!'' @ key)"
proof -
  have "sorted_wrt (<) (vals_of r)" using assms by (simp add: requirement_ok_def)
  note vals = printed_values [OF this]
  show ?thesis
    unfolding show_requirement_def Let_def vals_of_def [symmetric] vals by (simp split: label_operator.split)
qed

lemma head_not_equals:
  "list_all plain v \<Longrightarrow> stops rest \<Longrightarrow> rest = [] \<or> hd rest \<noteq> CHR ''='' \<Longrightarrow> v @ rest = [] \<or> hd (v @ rest) \<noteq> CHR ''=''"
  by (cases v) (auto simp: plain_def is_special_symbol_def)

lemma keyword_plain [simp]: "list_all plain ''in''" "list_all plain ''notin''"
  by (simp_all add: plain_def is_special_symbol_def is_whitespace_def)

lemma keyword_token [simp]: "word_token ''in'' = TIn" "word_token ''notin'' = TNotIn"
  by (simp_all add: word_token_def)

lemma scan_listed:
  assumes "list_all (list_all plain) vs" and "stops rest" and "w \<in> {''in'', ''notin''}"
  shows "scan ('' '' @ w @ '' '' @ ''('' @ join '','' vs @ '')'' @ rest)
    = (word_token w, w) # (TOpenPar, ''('') # list_tokens vs @ (TClosedPar, '')'') # scan rest"
proof -
  let ?tail = "join '','' vs @ '')'' @ rest"
  have "no_nul ?tail" using no_nul_join [OF assms(1), of "'')'' @ rest"] by (simp add: no_nul_def)
  then have tail: "scan (''('' @ ?tail) = (TOpenPar, ''('') # list_tokens vs @ (TClosedPar, '')'') # scan rest"
    using scan_symbol(2) [of ?tail] scan_join [OF assms(1), of "'')'' @ rest"] scan_symbol(3) [of rest] assms(2) by simp
  have "list_all plain w" "w \<noteq> []" using assms(3) keyword_plain by auto
  then have "scan (w @ '' '' @ ''('' @ ?tail) = (word_token w, w) # scan ('' '' @ ''('' @ ?tail)"
    by (intro scan_word) (simp_all add: no_nul_def)
  then show ?thesis using tail by (simp add: scan_space)
qed

lemma scan_requirement:
  assumes ok: "requirement_ok r" and rest: "rest = [] \<or> hd rest = CHR '',''"
  shows "scan (show_requirement r @ rest) = req_tokens r @ scan rest"
proof -
  have st: "stops rest" using rest by (auto simp: stops_def is_special_symbol_def)
  note plain = requirement_ok_plain [OF ok]
  let ?key = "(word_token (lr_key r), lr_key r)" and ?v = "join '','' (vals_of r)"
  have key: "scan (lr_key r @ s) = ?key # scan s" if "stops s" for s
    using scan_word [OF plain(1,2) that] that by simp
  have vals: "scan (?v @ rest) = list_tokens (vals_of r) @ scan rest" by (rule scan_join [OF plain(3) st])
  have nn: "no_nul (?v @ rest)" using no_nul_join plain(3) st by simp
  show ?thesis
  proof (cases "lr_operator r \<in> {Equals, DoubleEquals, NotEquals, GreaterThan, LessThan}")
    case True
    then have "length (vals_of r) = 1" using ok by (auto simp: requirement_ok_def requirement_valid_def)
    then obtain v where v: "vals_of r = [v]" by (cases "vals_of r") auto
    have eq: "v @ rest = [] \<or> hd (v @ rest) \<noteq> CHR ''=''"
      using head_not_equals [of v rest] plain(3) v st rest by auto
    show ?thesis
      using True key vals nn scan_symbol [OF nn] eq v
      by (auto simp: show_requirement_ok [OF ok] req_tokens_def)
  next
    case False
    have kt: "scan (lr_key r @ rest) = ?key # scan rest" using key [OF st] .
    have "lr_key r @ rest = [] \<or> hd (lr_key r @ rest) \<noteq> CHR ''=''" "no_nul (lr_key r @ rest)"
      using head_not_equals [OF plain(1) st] rest no_nul_plain [OF plain(1)] st by auto
    then have "scan (''!'' @ lr_key r @ rest) = (TDoesNotExist, ''!'') # ?key # scan rest"
      using scan_symbol(9) kt by simp
    then show ?thesis
      using False key kt scan_listed [OF plain(3) st, of "''in''"] scan_listed [OF plain(3) st, of "''notin''"]
      by (cases "lr_operator r") (auto simp: show_requirement_ok [OF ok] req_tokens_def)
  qed
qed


section \<open>Parsing printed tokens\<close>

lemma set_insert_last: "sorted_wrt (<) (s @ [v]) \<Longrightarrow> set_insert v s = s @ [v]"
  by (induction s) auto

lemma value_tokens_word: "v \<noteq> [] \<Longrightarrow> value_tokens v = [(word_token v, v)]"
  by (simp add: value_tokens_def)

lemma list_tokens_head:
  "v \<noteq> [] \<Longrightarrow> \<exists>toks. list_tokens (v # vs) = (word_token v, v) # toks"
  by (cases vs) (simp_all add: value_tokens_word)

lemma lookahead_simps [simp]:
  "lookahead Values ((word_token w, w) # toks) = (TIdentifier, w)"
  "lookahead Values ((TComma, l) # toks) = (TComma, l)" "lookahead Values ((TClosedPar, l) # toks) = (TClosedPar, l)"
  "lookahead Values ((TOpenPar, l) # toks) = (TOpenPar, l)"
  "lookahead Values ((TDoesNotExist, l) # toks) = (TDoesNotExist, l)"
  "lookahead Values ((TEndOfString, l) # toks) = (TEndOfString, l)"
  by (simp_all add: lookahead_def adjust_word) (simp_all add: adjust_def)

lemma adjust_comma [simp]: "adjust TComma Values = TComma"
  by (simp add: adjust_def)

lemma parse_identifiers_tokens:
  assumes "sorted_wrt (<) (s @ vs)" and "[] \<notin> set vs" and "vs \<noteq> []"
  shows "parse_identifiers_list s (list_tokens vs @ (TClosedPar, l) # toks) = Inr (s @ vs, (TClosedPar, l) # toks)"
  using assms
proof (induction vs arbitrary: s rule: list_tokens.induct)
  case (2 v)
  then show ?case using set_insert_last [of s v] by (simp add: value_tokens_word)
next
  case (3 v w vs)
  have ins: "set_insert v s = s @ [v]" using set_insert_last [of s v] "3.prems"(1) by (simp add: sorted_wrt_append)
  obtain rest where w: "list_tokens (w # vs) = (word_token w, w) # rest"
    using list_tokens_head [of w vs] "3.prems"(2) by auto
  have "parse_identifiers_list s (list_tokens (v # w # vs) @ (TClosedPar, l) # toks)
      = parse_identifiers_list (s @ [v]) (list_tokens (w # vs) @ (TClosedPar, l) # toks)"
    using "3.prems"(2) ins value_tokens_word [of v] by (auto simp add: w)
  also have "\<dots> = Inr ((s @ [v]) @ w # vs, (TClosedPar, l) # toks)" using "3.prems" by (intro "3.IH") auto
  finally show ?case by simp
qed simp

text \<open>The first value may be the empty string; an empty list of tokens is that value alone.\<close>

lemma parse_values_tokens:
  assumes "sorted_wrt (<) vs" and "vs \<noteq> []"
  shows "parse_values ((TOpenPar, l0) # list_tokens vs @ (TClosedPar, l) # toks) = Inr (vs, toks)"
proof -
  have ne: "[] \<notin> set (tl vs)" using assms(1) by (cases vs) auto
  consider "vs = [[]]" | w ws where "vs = [] # w # ws" | v ws where "vs = v # ws" "v \<noteq> []"
    using assms(2) by (cases vs rule: list_tokens.cases) auto
  then show ?thesis
  proof cases
    case 1
    then show ?thesis by (simp add: parse_values_def consume_def value_tokens_def)
  next
    case (2 w ws)
    obtain rest where w: "list_tokens (w # ws) = (word_token w, w) # rest"
      using list_tokens_head [of w ws] ne 2 by auto
    have "parse_identifiers_list [[]] (list_tokens (w # ws) @ (TClosedPar, l) # toks) = Inr (vs, (TClosedPar, l) # toks)"
      using parse_identifiers_tokens [of "[[]]" "w # ws"] assms(1) ne 2 by simp
    then show ?thesis using 2 by (simp add: parse_values_def consume_def value_tokens_def w)
  next
    case (3 v ws)
    obtain rest where v: "list_tokens (v # ws) = (word_token v, v) # rest" using list_tokens_head [OF 3(2)] by blast
    have "parse_identifiers_list [] (list_tokens (v # ws) @ (TClosedPar, l) # toks) = Inr (vs, (TClosedPar, l) # toks)"
      using parse_identifiers_tokens [of "[]" "v # ws"] assms(1) ne 3 by auto
    then show ?thesis using 3 by (simp add: parse_values_def consume_def v)
  qed
qed

definition ends :: "tokens \<Rightarrow> bool" where
  "ends toks \<longleftrightarrow> fst (lookahead Values toks) \<in> {TEndOfString, TComma}"

lemma parse_exact_tokens: "ends toks \<Longrightarrow> parse_exact_value (list_tokens [v] @ toks) = Inr ([v], toks)"
  by (auto simp: parse_exact_value_def ends_def value_tokens_def consume_def)

lemma requirement_new_id:
  assumes "requirement_ok r"
  shows "requirement_new (lr_key r) (lr_operator r) (vals_of r) = Inr r"
proof -
  have "lr_values r = (if lr_operator r \<in> {Exists, DoesNotExist} then None else Some (vals_of r))"
    using assms by (auto simp: requirement_ok_def vals_of_def split: option.splits)
  then show ?thesis using assms by (simp add: requirement_new_def requirement_ok_def)
qed

lemma parse_key_tokens:
  assumes "is_qualified_name k"
  shows "ends toks \<Longrightarrow> parse_key_and_infer_operator ((word_token k, k) # toks) = Inr ((k, Some Exists), toks)"
    and "\<not> ends toks \<Longrightarrow> parse_key_and_infer_operator ((word_token k, k) # toks) = Inr ((k, None), toks)"
    and "parse_key_and_infer_operator ((TDoesNotExist, l) # (word_token k, k) # toks) = Inr ((k, Some DoesNotExist), toks)"
  using assms by (simp_all add: parse_key_and_infer_operator_def consume_def ends_def)

lemma parse_operator_tokens:
  "parse_operator ((TIn, l) # toks) = Inr (In, toks)" "parse_operator ((TNotIn, l) # toks) = Inr (NotIn, toks)"
  "parse_operator ((TEquals, l) # toks) = Inr (Equals, toks)"
  "parse_operator ((TDoubleEquals, l) # toks) = Inr (DoubleEquals, toks)"
  "parse_operator ((TNotEquals, l) # toks) = Inr (NotEquals, toks)"
  "parse_operator ((TGreaterThan, l) # toks) = Inr (GreaterThan, toks)"
  "parse_operator ((TLessThan, l) # toks) = Inr (LessThan, toks)"
  by (simp_all add: parse_operator_def consume_def lookahead_def adjust_def)

lemma operator_not_ends:
  "t \<in> {TIn, TNotIn, TEquals, TDoubleEquals, TNotEquals, TGreaterThan, TLessThan} \<Longrightarrow> \<not> ends ((t, l) # toks)"
  by (auto simp: ends_def lookahead_def adjust_def)

lemma parse_requirement_tokens:
  assumes ok: "requirement_ok r" and rest: "ends toks"
  shows "parse_requirement (req_tokens r @ toks) = Inr (r, toks)"
proof -
  have valid: "requirement_valid (lr_key r) (lr_operator r) (vals_of r)" "sorted_wrt (<) (vals_of r)"
    using ok by (simp_all add: requirement_ok_def)
  then have k: "is_qualified_name (lr_key r)" by (simp add: requirement_valid_def)
  note new = requirement_new_id [OF ok]
  note key = parse_key_tokens [OF k] operator_not_ends parse_operator_tokens
  consider "lr_operator r \<in> {Exists, DoesNotExist}" | "lr_operator r \<in> {In, NotIn}"
    | "lr_operator r \<in> {Equals, DoubleEquals, NotEquals, GreaterThan, LessThan}" by (cases "lr_operator r") auto
  then show ?thesis
  proof cases
    case 1
    then have "vals_of r = []" using valid by (auto simp: requirement_valid_def)
    then show ?thesis using 1 rest new key by (auto simp: parse_requirement_def req_tokens_def)
  next
    case 2
    then have "vals_of r \<noteq> []" using valid by (auto simp: requirement_valid_def)
    then have "parse_values ((TOpenPar, ''('') # list_tokens (vals_of r) @ (TClosedPar, '')'') # toks) = Inr (vals_of r, toks)"
      using parse_values_tokens [OF valid(2)] by blast
    then show ?thesis using 2 new key by (auto simp: parse_requirement_def req_tokens_def)
  next
    case 3
    then have "length (vals_of r) = 1" using valid by (auto simp: requirement_valid_def)
    then obtain v where v: "vals_of r = [v]" by (cases "vals_of r") auto
    show ?thesis using 3 new key v parse_exact_tokens [OF rest, of v] by (auto simp: parse_requirement_def req_tokens_def)
  qed
qed


lemma req_tokens_start:
  assumes "requirement_ok r"
  shows "fst (lookahead Values (req_tokens r @ toks)) \<in> {TIdentifier, TDoesNotExist}"
  by (cases "lr_operator r") (simp_all add: req_tokens_def)

lemma parse_requirements_one:
  assumes ok: "requirement_ok r"
  shows "parse_requirements (req_tokens r @ [(TEndOfString, l)]) = Inr [r]"
proof -
  have e: "ends [(TEndOfString, l)]" by (simp add: ends_def)
  show ?thesis
    using req_tokens_start [OF ok] parse_requirement_tokens [OF ok e]
    by (subst parse_requirements.simps) (simp add: case_prod_unfold Let_def consume_def)
qed

lemma parse_requirements_more:
  assumes ok: "requirement_ok r" and "fst (lookahead Values toks) \<in> {TIdentifier, TDoesNotExist}"
  shows "parse_requirements (req_tokens r @ (TComma, l) # toks) = map_sum id (Cons r) (parse_requirements toks)"
proof -
  have e: "ends ((TComma, l) # toks)" by (simp add: ends_def)
  show ?thesis
    using req_tokens_start [OF ok] parse_requirement_tokens [OF ok e] assms(2)
    by (subst parse_requirements.simps) (auto simp add: case_prod_unfold Let_def consume_def)
qed

lemma sel_tokens_start:
  "requirement_ok r \<Longrightarrow> fst (lookahead Values (sel_tokens (r # rs))) \<in> {TIdentifier, TDoesNotExist}"
  using req_tokens_start [of r] by (cases rs) simp_all

lemma parse_sel_tokens: "list_all requirement_ok rs \<Longrightarrow> parse_requirements (sel_tokens rs) = Inr rs"
proof (induction rs rule: sel_tokens.induct)
  case 1
  then show ?case by (subst parse_requirements.simps) simp
next
  case (2 r)
  then show ?case using parse_requirements_one by simp
next
  case (3 r q rs)
  then show ?case using parse_requirements_more [of r] sel_tokens_start [of q rs] by simp
qed

lemma show_requirement_no_nul:
  assumes "requirement_ok r"
  shows "no_nul (show_requirement r @ s)"
proof -
  obtain c cs where c: "lr_key r = c # cs" "plain c" using requirement_ok_plain [OF assms] by (cases "lr_key r") auto
  show ?thesis
    unfolding show_requirement_ok [OF assms] Let_def
    by (cases "lr_operator r") (use c in \<open>simp_all add: no_nul_def plain_def\<close>)
qed

lemma scan_selector:
  "list_all requirement_ok rs \<Longrightarrow> scan (join '','' (map show_requirement rs)) = sel_tokens rs"
proof (induction rs rule: sel_tokens.induct)
  case 1
  then show ?case by (simp add: scan_nil)
next
  case (2 r)
  then show ?case using scan_requirement [of r "[]"] by (simp add: scan_nil)
next
  case (3 r q rs)
  let ?tail = "join '','' (map show_requirement (q # rs))"
  have "requirement_ok q" using 3 by simp
  then have "no_nul ?tail"
    using show_requirement_no_nul [of q "[]"] show_requirement_no_nul [of q] by (cases rs) simp_all
  then show ?case using 3 scan_requirement [of r "'','' @ ?tail"] scan_symbol(1) by simp
qed

lemma parse_show:
  assumes "selector_ok sel"
  shows "parse_selector (show_selector sel) = Inr sel"
proof -
  have "list_all requirement_ok (ls_requirements sel)" using assms by (simp add: selector_ok_def)
  then have "parse_requirements (scan (show_selector sel)) = Inr (ls_requirements sel)"
    using scan_selector parse_sel_tokens by (simp add: show_selector_def)
  moreover have "sort_key lr_key (ls_requirements sel) = ls_requirements sel"
    using assms by (intro sort_key_id_if_sorted) (simp add: selector_ok_def)
  ultimately show ?thesis by (simp add: parse_selector_def)
qed

text \<open>C21. A selector can be parsed from some text if and only if it is well formed, and then parsing what
  printing it gives returns exactly that selector: every requirement with its operator and its set of values,
  in order of the keys.
\<close>

theorem selector_round_trip:
  "(selector_ok sel \<longleftrightarrow> (\<exists>s. parse_selector s = Inr sel))
   \<and> (selector_ok sel \<longrightarrow> parse_selector (show_selector sel) = Inr sel)"
  using parse_show parse_selector_ok by blast

definition sample_selector :: label_selector where
  "sample_selector = \<lparr>ls_requirements =
     [\<lparr>lr_key = ''app'', lr_operator = NotEquals, lr_values = Some ['''']\<rparr>,
      \<lparr>lr_key = ''k8s.io/in'', lr_operator = DoesNotExist, lr_values = None\<rparr>,
      \<lparr>lr_key = ''tier'', lr_operator = In, lr_values = Some ['''', ''db'', ''in'']\<rparr>]\<rparr>"

lemma sample_selector_ok: "selector_ok sample_selector"
  by code_simp

theorem selector_round_trip_witness:
  "parse_selector ''app!=,!k8s.io/in,tier in (,db,in)'' = Inr sample_selector"
proof -
  have "show_selector sample_selector = ''app!=,!k8s.io/in,tier in (,db,in)''" by code_simp
  then show ?thesis using selector_round_trip [of sample_selector] sample_selector_ok by simp
qed

section \<open>Matching\<close>

text \<open>The set of labels a requirement accepts, as a reference: a missing key is outside every list of values.\<close>

definition accepts :: "label_operator \<Rightarrow> string set \<Rightarrow> string option \<Rightarrow> bool" where
  "accepts op vals label =
     (case op of
        In \<Rightarrow> (\<exists>v\<in>vals. label = Some v) | Equals \<Rightarrow> (\<exists>v\<in>vals. label = Some v) | DoubleEquals \<Rightarrow> (\<exists>v\<in>vals. label = Some v)
      | NotIn \<Rightarrow> \<not> (\<exists>v\<in>vals. label = Some v) | NotEquals \<Rightarrow> \<not> (\<exists>v\<in>vals. label = Some v)
      | Exists \<Rightarrow> (\<exists>v. label = Some v) | DoesNotExist \<Rightarrow> \<not> (\<exists>v. label = Some v)
      | GreaterThan \<Rightarrow> (\<exists>v\<in>vals. \<exists>l i j. label = Some l \<and> parse_i64 l = Some i \<and> parse_i64 v = Some j \<and> j < i)
      | LessThan \<Rightarrow> (\<exists>v\<in>vals. \<exists>l i j. label = Some l \<and> parse_i64 l = Some i \<and> parse_i64 v = Some j \<and> i < j))"

lemma requirement_matches_accepts:
  assumes "requirement_ok r"
  shows "requirement_matches r labels \<longleftrightarrow> accepts (lr_operator r) (set (vals_of r)) (labels (lr_key r))"
proof (cases "lr_operator r \<in> {GreaterThan, LessThan}")
  case True
  then have "length (vals_of r) = 1" using assms by (auto simp: requirement_ok_def requirement_valid_def)
  then obtain v where "lr_values r = Some [v]" by (cases "vals_of r") (auto simp: vals_of_def split: option.splits)
  then show ?thesis
    using True
    by (auto simp: requirement_matches_def accepts_def vals_of_def Let_def split: option.splits bind_splits)
next
  case False
  then show ?thesis
    by (cases "lr_operator r")
       (auto simp: requirement_matches_def accepts_def vals_of_def has_value_def Let_def split: option.splits)
qed


text \<open>A parsed selector matches a set of labels exactly when each of its requirements accepts the label
  under its key: membership for the equality operators, its negation (true of a missing label) for the
  inequalities, presence or absence, and comparison of 64-bit integers for the orderings.
\<close>

lemma selector_matches_reference:
  assumes "parse_selector s = Inr sel"
  shows "selector_matches sel labels \<longleftrightarrow>
    (\<forall>r\<in>set (ls_requirements sel). accepts (lr_operator r) (set (vals_of r)) (labels (lr_key r)))"
  using parse_selector_ok [OF assms] requirement_matches_accepts
  by (auto simp: selector_matches_def selector_ok_def list_all_iff)

end
