(* ===== verification/JsonPatch.thy ===== *)
theory JsonPatch
  imports StorageTypes "HOL-Library.Sublist"
begin

text \<open>
  JSON Patch and JSON Merge Patch (\<^verbatim>\<open>crates/common/src/patch.rs\<close>): JSON pointers, the six operations on a
  document, the merge of RFC 7386 and the merge of status objects.

  An operation returns a document, an error or panics; \<open>and_then\<close> is the operator \<open>?\<close>. A mutable reference
  into a document is the function that rebuilds the document around what is done to the referenced value.
  The decoding of the patch document into operations (\<open>serde_json::from_value\<close>) is an argument.

  Shown: a pointer decodes to the tokens it was made of; a successful replace writes its target and nothing
  else, and fails exactly when there is no target; likewise an add, which panics exactly when an array index is
  beyond the end; a remove undoes an add; the merge agrees with RFC 7386 up to members that are null.
\<close>

section \<open>Results\<close>

datatype patch_type = StrategicMergePatch | JsonMergePatch | JsonPatch

text \<open>Why a field has no patch metadata.\<close>

datatype lookup_failure =
    NotStruct string
  | SliceOfSlice
  | NotSlice string
  | NoField string string

text \<open>What the strategic merge reports as a plain error; the message is printed from these values.\<close>

datatype smp_message =
    NoMergeKey json string
  | BadArgType json
  | BadPatchType json json
  | OrderMismatch "json list" "json list"
  | LookupFailed lookup_failure
  | UnexpectedStrategy "string list"
  | ElementTypesDiffer "json list list"
  | NoElements
  | NotAMap nat
  | NoMergeKeyFor string
  | ListMergeInPatch

datatype patch_error =
    UnsupportedContentType string
  | InvalidPatch string
  | DecodeFailed
  | OperationFailed string
  | RequestEntityTooLarge string
  | BadRequest string
  | Uninterpreted smp_message
  | UnprocessableEntity string
  | PathNotFound string

type_synonym 'a patch_result = "(patch_error, 'a) result or_panic"

abbreviation ok :: "'a \<Rightarrow> 'a patch_result" where "ok x \<equiv> Some (Inr x)"

abbreviation err :: "patch_error \<Rightarrow> 'a patch_result" where "err e \<equiv> Some (Inl e)"

fun and_then :: "'a patch_result \<Rightarrow> ('a \<Rightarrow> 'b patch_result) \<Rightarrow> 'b patch_result" where
  "and_then None f = None"
| "and_then (Some (Inl e)) f = Some (Inl e)"
| "and_then (Some (Inr x)) f = f x"

lemma and_then_cong [fundef_cong]:
  "m = m' \<Longrightarrow> (\<And>x. m' = ok x \<Longrightarrow> f x = f' x) \<Longrightarrow> and_then m f = and_then m' f'"
  by (cases m; cases "the m") auto

lemma and_then_ok_iff: "and_then m f = ok y \<longleftrightarrow> (\<exists>x. m = ok x \<and> f x = ok y)"
  by (induction m f rule: and_then.induct) auto

lemma and_then_None_iff: "and_then m f = None \<longleftrightarrow> m = None \<or> (\<exists>x. m = ok x \<and> f x = None)"
  by (induction m f rule: and_then.induct) auto

definition from_content_type :: "string \<Rightarrow> (patch_error, patch_type) result" where
  "from_content_type s =
     (if s = ''application/strategic-merge-patch+json'' then Inr StrategicMergePatch
      else if s = ''application/merge-patch+json'' then Inr JsonMergePatch
      else if s = ''application/json-patch+json'' then Inr JsonPatch
      else Inl (UnsupportedContentType s))"

fun content_type :: "patch_type \<Rightarrow> string" where
  "content_type StrategicMergePatch = ''application/strategic-merge-patch+json''"
| "content_type JsonMergePatch = ''application/merge-patch+json''"
| "content_type JsonPatch = ''application/json-patch+json''"

section \<open>JSON pointers\<close>

text \<open>\<open>replace\<close> of a pattern of two characters, \<open>split\<close> at a character, \<open>parse::<usize>()\<close>.\<close>

fun replace_pair :: "char \<Rightarrow> char \<Rightarrow> char \<Rightarrow> string \<Rightarrow> string" where
  "replace_pair a b r (x # y # s) =
     (if x = a \<and> y = b then r # replace_pair a b r s else x # replace_pair a b r (y # s))"
| "replace_pair a b r s = s"

fun split_on :: "char \<Rightarrow> string \<Rightarrow> string list" where
  "split_on c [] = [[]]"
| "split_on c (x # s) =
     (if x = c then [] # split_on c s
      else (case split_on c s of [] \<Rightarrow> [[x]] | p # ps \<Rightarrow> (x # p) # ps))"

definition parse_usize :: "string \<Rightarrow> nat option" where
  "parse_usize s =
     (if take 1 s = ''-'' then None
      else map_option nat (parse_int (\<lambda>i. i < 2 ^ 64) s))"

definition unescape_token :: "string \<Rightarrow> string" where
  "unescape_token t = replace_pair CHR ''~'' CHR ''0'' CHR ''~'' (replace_pair CHR ''~'' CHR ''1'' CHR ''/'' t)"

fun field_path_parts :: "string \<Rightarrow> string list \<Rightarrow> string" where
  "field_path_parts acc [] = acc"
| "field_path_parts acc (part # parts) =
     (let u = unescape_token part in
      if parse_usize u \<noteq> None then field_path_parts (acc @ ''['' @ u @ '']'') parts
      else field_path_parts ((if acc = [] then acc else acc @ ''.'') @ u) parts)"

definition json_pointer_to_field_path :: "string \<Rightarrow> string" where
  "json_pointer_to_field_path ptr =
     (if ptr = [] \<or> ptr = ''/'' then []
      else field_path_parts [] (split_on CHR ''/'' (dropWhile (\<lambda>c. c = CHR ''/'') ptr)))"

definition starts_with_slash :: "string \<Rightarrow> bool" where
  "starts_with_slash path \<longleftrightarrow> take 1 path = ''/''"

definition parse_path :: "string \<Rightarrow> (patch_error, string list) result" where
  "parse_path path =
     (if \<not> starts_with_slash path then Inl (InvalidPatch (''Path must start with '' @ [CHR 39, CHR ''/'', CHR 39] @ '': '' @ path))
      else Inr (map unescape_token (split_on CHR ''/'' (drop 1 path))))"

text \<open>\<open>rfind('/')\<close> splits the pointer; a pointer without a second slash has the parent \<open>/\<close>.\<close>

definition split_path :: "string \<Rightarrow> (patch_error, string \<times> string) result" where
  "split_path path =
     (if \<not> starts_with_slash path then Inl (InvalidPatch (''Path must start with '' @ [CHR 39, CHR ''/'', CHR 39] @ '': '' @ path))
      else if path = ''/'' then Inl (InvalidPatch ''Cannot split root path'')
      else (let after = rev (takeWhile (\<lambda>c. c \<noteq> CHR ''/'') (rev path));
                last_slash = length path - length after - 1
            in Inr (if last_slash = 0 then ''/'' else take last_slash path, unescape_token after)))"

section \<open>Values at a pointer\<close>

fun get_parts :: "string \<Rightarrow> json \<Rightarrow> string list \<Rightarrow> (patch_error, json) result" where
  "get_parts path v [] = Inr v"
| "get_parts path v (part # parts) =
     (case v of
        JObject m \<Rightarrow>
          (case map_of m part of
             None \<Rightarrow> Inl (OperationFailed (''Path not found: '' @ path))
           | Some c \<Rightarrow> get_parts path c parts)
      | JArray xs \<Rightarrow>
          (case parse_usize part of
             None \<Rightarrow> Inl (InvalidPatch (''Invalid array index: '' @ part))
           | Some i \<Rightarrow>
               if i < length xs then get_parts path (xs ! i) parts
               else Inl (OperationFailed (''Array index out of bounds: '' @ show_nat i)))
      | _ \<Rightarrow> Inl (OperationFailed (''Cannot traverse non-object/array at path: '' @ path)))"

definition get_value :: "json \<Rightarrow> string \<Rightarrow> (patch_error, json) result" where
  "get_value v path =
     (if path = [] \<or> path = ''/'' then Inr v
      else (case parse_path path of Inl e \<Rightarrow> Inl e | Inr parts \<Rightarrow> get_parts path v parts))"

text \<open>\<open>get_mut_value\<close>, with what the caller does to the reference: a missing member of an object on the way is
  created as an empty object.\<close>

fun mut_parts :: "string \<Rightarrow> json \<Rightarrow> string list \<Rightarrow> (json \<Rightarrow> json patch_result) \<Rightarrow> json patch_result" where
  "mut_parts path v [] f = f v"
| "mut_parts path v (part # parts) f =
     (case v of
        JObject m \<Rightarrow>
          and_then (mut_parts path (case map_of m part of None \<Rightarrow> JObject [] | Some c \<Rightarrow> c) parts f)
            (\<lambda>c. ok (JObject (obj_insert part c m)))
      | JArray xs \<Rightarrow>
          (case parse_usize part of
             None \<Rightarrow> err (InvalidPatch (''Invalid array index: '' @ part))
           | Some i \<Rightarrow>
               if i < length xs then and_then (mut_parts path (xs ! i) parts f) (\<lambda>c. ok (JArray (xs[i := c])))
               else err (OperationFailed (''Array index out of bounds: '' @ show_nat i)))
      | _ \<Rightarrow> err (OperationFailed (''Cannot traverse non-object/array in path: '' @ path)))"

definition get_mut_value :: "json \<Rightarrow> string \<Rightarrow> (json \<Rightarrow> json patch_result) \<Rightarrow> json patch_result" where
  "get_mut_value v path f =
     (if path = [] \<or> path = ''/'' then f v
      else (case parse_path path of Inl e \<Rightarrow> err e | Inr parts \<Rightarrow> mut_parts path v parts f))"

section \<open>JSON Patch\<close>

datatype json_patch_op = OpAdd | OpRemove | OpReplace | OpMove | OpCopy | OpTest

record json_patch_operation =
  jp_op :: json_patch_op
  jp_path :: string
  jp_value :: "json option"
  jp_from :: "string option"

text \<open>What the operations do to the parent of their target; \<open>Vec::insert\<close> panics beyond the end.\<close>

definition add_member :: "string \<Rightarrow> string \<Rightarrow> json \<Rightarrow> json \<Rightarrow> json patch_result" where
  "add_member parent_path key x parent =
     (case parent of
        JObject m \<Rightarrow> ok (JObject (obj_insert key x m))
      | JArray xs \<Rightarrow>
          (case (if key = ''-'' then Some (length xs) else parse_usize key) of
             None \<Rightarrow> err (InvalidPatch (''Invalid array index: '' @ key))
           | Some i \<Rightarrow> if i \<le> length xs then ok (JArray (take i xs @ x # drop i xs)) else None)
      | _ \<Rightarrow> err (OperationFailed (''Cannot add to non-object/array at path: '' @ parent_path)))"

definition add_operation :: "json \<Rightarrow> string \<Rightarrow> json \<Rightarrow> json patch_result" where
  "add_operation v path x =
     (case split_path path of
        Inl e \<Rightarrow> err e
      | Inr (parent_path, key) \<Rightarrow>
          if parent_path = [] then ok x
          else get_mut_value v parent_path (add_member parent_path key x))"

definition remove_member :: "string \<Rightarrow> string \<Rightarrow> string \<Rightarrow> json \<Rightarrow> json patch_result" where
  "remove_member path parent_path key parent =
     (case parent of
        JObject m \<Rightarrow>
          if map_of m key = None then err (PathNotFound (json_pointer_to_field_path path))
          else ok (JObject (obj_remove key m))
      | JArray xs \<Rightarrow>
          (case parse_usize key of
             None \<Rightarrow> err (InvalidPatch (''Invalid array index: '' @ key))
           | Some i \<Rightarrow>
               if i \<ge> length xs then err (PathNotFound (json_pointer_to_field_path path))
               else ok (JArray (take i xs @ drop (Suc i) xs)))
      | _ \<Rightarrow> err (OperationFailed (''Cannot remove from non-object/array at path: '' @ parent_path)))"

definition remove_operation :: "json \<Rightarrow> string \<Rightarrow> json patch_result" where
  "remove_operation v path =
     (case split_path path of
        Inl e \<Rightarrow> err e
      | Inr (parent_path, key) \<Rightarrow> get_mut_value v parent_path (remove_member path parent_path key))"

definition replace_member :: "string \<Rightarrow> string \<Rightarrow> string \<Rightarrow> json \<Rightarrow> json \<Rightarrow> json patch_result" where
  "replace_member path parent_path key x parent =
     (case parent of
        JObject m \<Rightarrow>
          if map_of m key = None then err (PathNotFound (json_pointer_to_field_path path))
          else ok (JObject (obj_insert key x m))
      | JArray xs \<Rightarrow>
          (case parse_usize key of
             None \<Rightarrow> err (InvalidPatch (''Invalid array index: '' @ key))
           | Some i \<Rightarrow>
               if i \<ge> length xs then err (PathNotFound (json_pointer_to_field_path path))
               else ok (JArray (xs[i := x])))
      | _ \<Rightarrow> err (OperationFailed (''Cannot replace in non-object/array at path: '' @ parent_path)))"

definition replace_operation :: "json \<Rightarrow> string \<Rightarrow> json \<Rightarrow> json patch_result" where
  "replace_operation v path x =
     (if path = [] \<or> path = ''/'' then ok x
      else (case split_path path of
              Inl e \<Rightarrow> err e
            | Inr (parent_path, key) \<Rightarrow> get_mut_value v parent_path (replace_member path parent_path key x)))"

definition is_proper_prefix :: "string \<Rightarrow> string \<Rightarrow> bool" where
  "is_proper_prefix from to \<longleftrightarrow>
     from = to \<or> (case strip_prefix from to of None \<Rightarrow> False | Some rest \<Rightarrow> starts_with_slash rest)"

definition move_operation :: "json \<Rightarrow> string \<Rightarrow> string \<Rightarrow> json patch_result" where
  "move_operation v from to =
     (if is_proper_prefix from to
      then err (InvalidPatch (''move: '' @ [CHR 39] @ ''from'' @ [CHR 39] @ '' location ('' @ from @ '') must not be a proper prefix of ''
             @ [CHR 39] @ ''path'' @ [CHR 39] @ '' ('' @ to @ '') per RFC 6902 '' @ [CHR 0xC2, CHR 0xA7] @ ''4.4''))
      else and_then (Some (get_value v from)) (\<lambda>moved_value.
           and_then (remove_operation v from) (\<lambda>result. add_operation result to moved_value)))"

definition copy_operation :: "json \<Rightarrow> string \<Rightarrow> string \<Rightarrow> json patch_result" where
  "copy_operation v from to = and_then (Some (get_value v from)) (add_operation v to)"

definition test_operation :: "json \<Rightarrow> string \<Rightarrow> json \<Rightarrow> (patch_error, unit) result" where
  "test_operation v path test_value =
     (case get_value v path of
        Inl e \<Rightarrow> Inl e
      | Inr current_value \<Rightarrow>
          if current_value \<noteq> test_value then Inl (OperationFailed (''Test failed at path: '' @ path)) else Inr ())"

definition require_value :: "json_patch_operation \<Rightarrow> string \<Rightarrow> (json \<Rightarrow> json patch_result) \<Rightarrow> json patch_result" where
  "require_value op what f =
     (case jp_value op of
        None \<Rightarrow> err (InvalidPatch ([CHR 39] @ ''value'' @ [CHR 39] @ '' required for '' @ what))
      | Some x \<Rightarrow> f x)"

definition require_from :: "json_patch_operation \<Rightarrow> string \<Rightarrow> (string \<Rightarrow> json patch_result) \<Rightarrow> json patch_result" where
  "require_from op what f =
     (case jp_from op of
        None \<Rightarrow> err (InvalidPatch ([CHR 39] @ ''from'' @ [CHR 39] @ '' required for '' @ what))
      | Some x \<Rightarrow> f x)"

definition apply_json_patch_operation :: "json \<Rightarrow> json_patch_operation \<Rightarrow> json patch_result" where
  "apply_json_patch_operation v op =
     (case jp_op op of
        OpAdd \<Rightarrow> require_value op ''add'' (add_operation v (jp_path op))
      | OpRemove \<Rightarrow> remove_operation v (jp_path op)
      | OpReplace \<Rightarrow> require_value op ''replace'' (replace_operation v (jp_path op))
      | OpMove \<Rightarrow> require_from op ''move'' (\<lambda>from. move_operation v from (jp_path op))
      | OpCopy \<Rightarrow> require_from op ''copy'' (\<lambda>from. copy_operation v from (jp_path op))
      | OpTest \<Rightarrow> require_value op ''test'' (\<lambda>x. case test_operation v (jp_path op) x of Inl e \<Rightarrow> err e | Inr _ \<Rightarrow> ok v))"

fun apply_operations :: "json \<Rightarrow> json_patch_operation list \<Rightarrow> json patch_result" where
  "apply_operations current [] = ok current"
| "apply_operations current (op # ops) = and_then (apply_json_patch_operation current op) (\<lambda>next. apply_operations next ops)"

definition max_json_patch_operations :: nat where "max_json_patch_operations = 10000"

definition apply_json_patch :: "(json \<Rightarrow> json_patch_operation list option) \<Rightarrow> json \<Rightarrow> json \<Rightarrow> json patch_result" where
  "apply_json_patch decode original patch =
     (case decode patch of
        None \<Rightarrow> err DecodeFailed
      | Some operations \<Rightarrow>
          if length operations > max_json_patch_operations
          then err (RequestEntityTooLarge (''The allowed maximum operations in a JSON patch is ''
                 @ show_nat max_json_patch_operations @ '', got '' @ show_nat (length operations)))
          else apply_operations original operations)"

section \<open>JSON Merge Patch\<close>

definition is_object :: "json \<Rightarrow> bool" where
  "is_object v = (case v of JObject _ \<Rightarrow> True | _ \<Rightarrow> False)"

definition is_array :: "json \<Rightarrow> bool" where
  "is_array v = (case v of JArray _ \<Rightarrow> True | _ \<Rightarrow> False)"

definition members :: "json \<Rightarrow> (string \<times> json) list" where
  "members v = (case v of JObject m \<Rightarrow> m | _ \<Rightarrow> [])"

fun apply_merge_patch :: "json \<Rightarrow> json \<Rightarrow> json"
  and merge_members :: "(string \<times> json) list \<Rightarrow> (string \<times> json) list \<Rightarrow> (string \<times> json) list" where
  "apply_merge_patch original (JObject patch_obj) = JObject (merge_members (members original) patch_obj)"
| "apply_merge_patch original patch = patch"
| "merge_members result_obj [] = result_obj"
| "merge_members result_obj ((key, x) # entries) =
     merge_members
       (if x = JNull then obj_remove key result_obj
        else if is_object x \<and> (case map_of result_obj key of None \<Rightarrow> False | Some v \<Rightarrow> is_object v)
        then obj_insert key (apply_merge_patch (the (map_of result_obj key)) x) result_obj
        else obj_insert key x result_obj) entries"

section \<open>Merging of status objects\<close>

definition cond_type :: "json \<Rightarrow> string option" where
  "cond_type c = Option.bind (jget c ''type'') as_str"

fun find_index :: "('a \<Rightarrow> bool) \<Rightarrow> 'a list \<Rightarrow> nat option" where
  "find_index P [] = None"
| "find_index P (x # xs) = (if P x then Some 0 else map_option Suc (find_index P xs))"

definition find_condition :: "json \<Rightarrow> json list \<Rightarrow> nat option" where
  "find_condition pc target =
     (case cond_type pc of None \<Rightarrow> None | Some pt \<Rightarrow> find_index (\<lambda>c. cond_type c = Some pt) target)"

fun deep_merge_objects :: "json \<Rightarrow> json \<Rightarrow> json"
  and deep_merge_members :: "(string \<times> json) list \<Rightarrow> (string \<times> json) list \<Rightarrow> (string \<times> json) list"
  and merge_conditions_by_type :: "json list \<Rightarrow> json list \<Rightarrow> json list" where
  "deep_merge_objects target (JObject patch_obj) =
     (case target of JObject target_obj \<Rightarrow> JObject (deep_merge_members target_obj patch_obj) | _ \<Rightarrow> target)"
| "deep_merge_objects target patch = target"
| "deep_merge_members target_obj [] = target_obj"
| "deep_merge_members target_obj ((k, v) # entries) =
     deep_merge_members
       (case v of
          JNull \<Rightarrow> obj_remove k target_obj
        | JObject _ \<Rightarrow>
            obj_insert k (deep_merge_objects (case map_of target_obj k of None \<Rightarrow> JObject [] | Some e \<Rightarrow> e) v) target_obj
        | JArray patch_arr \<Rightarrow>
            if k = ''conditions''
            then obj_insert k
              (case (case map_of target_obj k of None \<Rightarrow> JArray [] | Some e \<Rightarrow> e) of
                 JArray target_arr \<Rightarrow> JArray (merge_conditions_by_type target_arr patch_arr)
               | _ \<Rightarrow> v) target_obj
            else obj_insert k v target_obj
        | _ \<Rightarrow> obj_insert k v target_obj) entries"
| "merge_conditions_by_type target_arr [] = target_arr"
| "merge_conditions_by_type target_arr (pc # pcs) =
     merge_conditions_by_type
       (case find_condition pc target_arr of
          Some i \<Rightarrow> target_arr[i := deep_merge_objects (target_arr ! i) pc]
        | None \<Rightarrow> target_arr @ [pc]) pcs"

section \<open>Pointers and their tokens\<close>

fun value_at :: "json \<Rightarrow> string list \<Rightarrow> json option" where
  "value_at v [] = Some v"
| "value_at v (p # ps) =
     (case v of
        JObject m \<Rightarrow> (case map_of m p of None \<Rightarrow> None | Some c \<Rightarrow> value_at c ps)
      | JArray xs \<Rightarrow> (case parse_usize p of None \<Rightarrow> None | Some i \<Rightarrow> if i < length xs then value_at (xs ! i) ps else None)
      | _ \<Rightarrow> None)"

lemma value_at_append: "value_at v (ps @ qs) = Option.bind (value_at v ps) (\<lambda>c. value_at c qs)"
  by (induction v ps rule: value_at.induct) (auto split: json.splits option.splits)

lemma get_parts_value_at: "(\<exists>x. get_parts path v ts = Inr x) \<longleftrightarrow> value_at v ts \<noteq> None" "get_parts path v ts = Inr x \<Longrightarrow> value_at v ts = Some x"
  by (induction path v ts rule: get_parts.induct) (auto split: json.splits option.splits)

text \<open>Two tokens may name the same member of an array although they differ as text (\<open>1\<close>, \<open>01\<close>); two
  pointers are apart when at some depth they cannot name the same member.\<close>

definition same_member :: "string \<Rightarrow> string \<Rightarrow> bool" where
  "same_member p q \<longleftrightarrow> p = q \<or> (parse_usize p \<noteq> None \<and> parse_usize p = parse_usize q)"

fun apart :: "string list \<Rightarrow> string list \<Rightarrow> bool" where
  "apart (p # ps) (q # qs) \<longleftrightarrow> \<not> same_member p q \<or> apart ps qs"
| "apart _ _ \<longleftrightarrow> False"

text \<open>The tokens an operation can reach: not the pointer \<open>/\<close> alone, and not a member below it.\<close>

definition addressable :: "string list \<Rightarrow> bool" where
  "addressable ts \<longleftrightarrow> ts \<noteq> [] \<and> ts \<noteq> [[]] \<and> butlast ts \<noteq> [[]]"

lemma split_on_nonempty [simp]: "split_on c s \<noteq> []"
  by (induction c s rule: split_on.induct) (auto split: list.splits)

lemma split_on_free: "c \<notin> set p \<Longrightarrow> split_on c p = [p]"
  by (induction p) auto

lemma split_on_cons: "c \<notin> set p \<Longrightarrow> split_on c (p @ c # s) = p # split_on c s"
  by (induction p) auto

lemma split_on_snoc: "c \<notin> set k \<Longrightarrow> split_on c (s @ c # k) = split_on c s @ [k]"
  by (induction c s rule: split_on.induct) (auto simp: split_on_free split: list.splits)

lemma split_on_eq_Nil: "split_on c s = [[]] \<longleftrightarrow> s = []"
  by (cases s) (auto split: list.splits)

lemma replace_pair_Nil [simp]: "replace_pair a b r s = [] \<longleftrightarrow> s = []"
  by (cases "(a, b, r, s)" rule: replace_pair.cases) auto

lemma unescape_Nil [simp]: "unescape_token t = [] \<longleftrightarrow> t = []"
  by (simp add: unescape_token_def)

lemma last_slash_split:
  assumes "starts_with_slash path"
  obtains s k where "path = s @ CHR ''/'' # k" and "CHR ''/'' \<notin> set k"
proof -
  have "CHR ''/'' \<in> set path" using assms by (cases path) (auto simp: starts_with_slash_def)
  then show ?thesis using that by (meson split_list_last)
qed

lemma split_path_parts:
  assumes "parse_path path = Inr ts" and "addressable ts"
  shows "\<exists>parent. parent \<noteq> [] \<and> split_path path = Inr (parent, last ts) \<and> (\<forall>v f. get_mut_value v parent f = mut_parts parent v (butlast ts) f)"
proof -
  have slash: "starts_with_slash path" and ts: "ts = map unescape_token (split_on CHR ''/'' (drop 1 path))"
    using assms(1) by (auto simp: parse_path_def split: if_splits)
  obtain s k where path: "path = s @ CHR ''/'' # k" and k: "CHR ''/'' \<notin> set k" using last_slash_split [OF slash] .
  have "takeWhile (\<lambda>c. c \<noteq> CHR ''/'') (rev path) = rev k" using k by (simp add: path takeWhile_append)
  then have parent: "split_path path = Inr (if s = [] then ''/'' else s, unescape_token k)" if "path \<noteq> ''/''"
    using that slash by (simp add: split_path_def Let_def path)
  show ?thesis
  proof (cases "s = []")
    case True
    then have "ts = [unescape_token k]" using ts k by (simp add: path split_on_free)
    moreover from this have "path \<noteq> ''/''" using assms(2) True by (auto simp: path addressable_def unescape_token_def)
    ultimately show ?thesis using parent True by (simp add: get_mut_value_def)
  next
    case False
    then obtain s' where s: "s = CHR ''/'' # s'" using slash by (cases s) (auto simp: path starts_with_slash_def)
    have "ts = map unescape_token (split_on CHR ''/'' s') @ [unescape_token k]" using ts k by (simp add: path s split_on_snoc)
    moreover from this have "s' \<noteq> []" using assms(2) by (auto simp: addressable_def unescape_token_def)
    ultimately show ?thesis
      using parent by (simp add: get_mut_value_def parse_path_def starts_with_slash_def path s)
  qed
qed

section \<open>What an edit in the depth of a document changes\<close>

lemma apart_NilD [simp]: "\<not> apart ts []"
  by (cases ts) auto

lemma mut_parts_target:
  "mut_parts path v ts f = ok v' \<Longrightarrow>
   \<exists>w w'. (value_at v ts = Some w \<or> value_at v ts = None \<and> w = JObject []) \<and> f w = ok w' \<and> value_at v' ts = Some w'"
proof (induction path v ts f arbitrary: v' rule: mut_parts.induct)
  case (2 path v part parts f)
  show ?case
  proof (cases v)
    case (JObject m)
    let ?c = "case map_of m part of None \<Rightarrow> JObject [] | Some c \<Rightarrow> c"
    obtain c where c: "mut_parts path ?c parts f = ok c" "v' = JObject (obj_insert part c m)" using 2(3) JObject by (auto simp: and_then_ok_iff)
    then show ?thesis
      using 2(2) [OF JObject c(1)] JObject by (cases "map_of m part"; cases parts) auto
  next
    case (JArray xs)
    then obtain i c where i: "parse_usize part = Some i" "i < length xs" and c: "mut_parts path (xs ! i) parts f = ok c" "v' = JArray (xs[i := c])"
      using 2(3) by (auto simp: and_then_ok_iff split: option.splits if_splits)
    then show ?thesis using 2(1) [OF JArray i c(1)] JArray by simp
  qed (use 2(3) in auto)
qed simp

lemma mut_parts_frame:
  assumes "mut_parts path v ts f = ok v'" and "apart (ts @ ks) us"
    and local: "\<And>w w' us. f w = ok w' \<Longrightarrow> apart ks us \<Longrightarrow> value_at w' us = value_at w us"
  shows "value_at v' us = value_at v us"
  using assms
proof (induction path v ts f arbitrary: v' us rule: mut_parts.induct)
  case (1 path v f)
  then show ?case by simp
next
  case (2 path v part parts f)
  then obtain q qs where us: "us = q # qs" by (cases us) auto
  then have rest: "apart (parts @ ks) qs" if "same_member part q" using 2(4) that by simp
  show ?case
  proof (cases v)
    case (JObject m)
    let ?c = "case map_of m part of None \<Rightarrow> JObject [] | Some c \<Rightarrow> c"
    obtain c where c: "mut_parts path ?c parts f = ok c" "v' = JObject (obj_insert part c m)" using 2(3) JObject by (auto simp: and_then_ok_iff)
    show ?thesis
    proof (cases "q = part")
      case True
      then have "value_at c qs = value_at ?c qs" "qs \<noteq> []" using 2(2) [OF JObject c(1) _ 2(5)] rest by (auto simp: same_member_def)
      then show ?thesis using c(2) True us JObject by (cases "map_of m part"; cases qs) auto
    qed (use c(2) us JObject in auto)
  next
    case (JArray xs)
    then obtain i c where i: "parse_usize part = Some i" "i < length xs" and c: "mut_parts path (xs ! i) parts f = ok c" "v' = JArray (xs[i := c])"
      using 2(3) by (auto simp: and_then_ok_iff split: option.splits if_splits)
    show ?thesis
    proof (cases "parse_usize q = Some i")
      case True
      then have "value_at c qs = value_at (xs ! i) qs" using 2(1) [OF JArray i c(1) _ 2(5)] rest i by (auto simp: same_member_def)
      then show ?thesis using c(2) True us JArray i by simp
    qed (use c(2) us JArray in \<open>auto split: option.splits\<close>)
  qed (use 2(3) in auto)
qed

lemma mut_parts_total:
  "value_at v ts = Some w \<Longrightarrow> f w = ok w' \<Longrightarrow> \<exists>v'. mut_parts path v ts f = ok v'"
  by (induction path v ts f rule: mut_parts.induct) (fastforce simp: and_then_ok_iff split: json.splits option.splits if_splits)+

lemma mut_parts_panics:
  assumes "f (JObject []) \<noteq> None"
  shows "mut_parts path v ts f = None \<longleftrightarrow> (\<exists>w. value_at v ts = Some w \<and> f w = None)"
  using assms
proof (induction path v ts f rule: mut_parts.induct)
  case (2 path v part parts f)
  have "\<not> (\<exists>w. value_at (JObject []) parts = Some w \<and> f w = None)" using 2(3) by (cases parts) auto
  then show ?case using 2 by (auto simp: and_then_None_iff split: json.splits option.splits if_splits)
qed simp

lemma mut_parts_target_cong:
  assumes "\<And>w. value_at v ts = Some w \<or> value_at v ts = None \<and> w = JObject [] \<Longrightarrow> f w = g w"
  shows "mut_parts path v ts f = mut_parts path v ts g"
  using assms
proof (induction path v ts f rule: mut_parts.induct)
  case (2 path v part parts f)
  show ?case
  proof (cases v)
    case (JObject m)
    let ?c = "case map_of m part of None \<Rightarrow> JObject [] | Some c \<Rightarrow> c"
    have "f w = g w" if "value_at ?c parts = Some w \<or> value_at ?c parts = None \<and> w = JObject []" for w
      using that 2(3) [of w] JObject by (cases "map_of m part"; cases parts) auto
    then show ?thesis using 2(2) [OF JObject] JObject by simp
  next
    case (JArray xs)
    then show ?thesis using 2(1) [OF JArray] 2(3) by (auto split: option.splits)
  qed simp_all
qed simp

lemma value_at_parent: "ts \<noteq> [] \<Longrightarrow> value_at v ts = Option.bind (value_at v (butlast ts)) (\<lambda>w. value_at w [last ts])"
  by (metis append_butlast_last_id value_at_append)

lemma value_at_child: "ts \<noteq> [] \<Longrightarrow> value_at v (butlast ts) = Some w \<Longrightarrow> value_at v ts = value_at w [last ts]"
  by (simp add: value_at_parent)

lemma replace_member_exact:
  "replace_member path pp k x w = ok w' \<Longrightarrow> value_at w' [k] = Some x \<and> value_at w [k] \<noteq> None"
  by (auto simp: replace_member_def split: json.splits option.splits if_splits)

lemma replace_member_ok: "value_at w [k] \<noteq> None \<Longrightarrow> \<exists>w'. replace_member path pp k x w = ok w'"
  by (auto simp: replace_member_def split: json.splits option.splits if_splits)

lemma replace_member_frame: "replace_member path pp k x w = ok w' \<Longrightarrow> apart [k] us \<Longrightarrow> value_at w' us = value_at w us"
  by (cases us) (auto simp: replace_member_def same_member_def split: json.splits option.splits if_splits)

lemma add_member_frame: "add_member pp k x (JObject m) = ok w' \<Longrightarrow> apart [k] us \<Longrightarrow> value_at w' us = value_at (JObject m) us"
  by (cases us) (auto simp: add_member_def same_member_def)

lemma add_member_panics:
  "add_member pp k x w = None \<longleftrightarrow> (\<exists>xs i. w = JArray xs \<and> k \<noteq> ''-'' \<and> parse_usize k = Some i \<and> length xs < i)"
  by (cases w) (auto simp: add_member_def split: option.splits)

lemma addressable_snoc: "addressable ts \<Longrightarrow> ts = butlast ts @ [last ts]"
  by (simp add: addressable_def)

section \<open>Properties\<close>

definition escape_token :: "string \<Rightarrow> string" where
  "escape_token t = concat (map (\<lambda>c. if c = CHR ''~'' then ''~0'' else if c = CHR ''/'' then ''~1'' else [c]) t)"

definition pointer :: "string list \<Rightarrow> string" where
  "pointer ts = concat (map (\<lambda>t. CHR ''/'' # escape_token t) ts)"

lemma replace_pair_other: "x \<noteq> a \<Longrightarrow> replace_pair a b r (x # s) = x # replace_pair a b r s"
  by (cases s) auto

lemma unescape_escape: "unescape_token (escape_token t) = t"
proof -
  have first: "replace_pair CHR ''~'' CHR ''1'' CHR ''/'' (escape_token t) = concat (map (\<lambda>c. if c = CHR ''~'' then ''~0'' else [c]) t)"
    by (induction t) (auto simp: escape_token_def replace_pair_other)
  have "replace_pair CHR ''~'' CHR ''0'' CHR ''~'' (concat (map (\<lambda>c. if c = CHR ''~'' then ''~0'' else [c]) t)) = t"
    by (induction t) (auto simp: replace_pair_other)
  then show ?thesis by (simp add: unescape_token_def first)
qed

lemma escape_slash_free: "CHR ''/'' \<notin> set (escape_token t)"
  by (auto simp: escape_token_def split: if_splits)

text \<open>A JSON pointer made of any tokens, with \<open>~\<close> and \<open>/\<close> escaped, is decoded to exactly these tokens.\<close>

lemma pointer_round_trip:
  assumes "ts \<noteq> []"
  shows "parse_path (pointer ts) = Inr ts"
proof -
  obtain t us where ts: "ts = t # us" using assms by (cases ts) auto
  have "split_on CHR ''/'' (escape_token t @ pointer us) = escape_token t # map escape_token us" for t us
  proof (induction us arbitrary: t)
    case Nil
    then show ?case by (simp add: pointer_def split_on_free escape_slash_free)
  next
    case (Cons u us)
    then show ?case using split_on_cons [OF escape_slash_free] by (simp add: pointer_def)
  qed
  then have "split_on CHR ''/'' (drop 1 (pointer ts)) = map escape_token ts" by (simp add: ts pointer_def)
  moreover have "starts_with_slash (pointer ts)" by (simp add: starts_with_slash_def pointer_def ts)
  ultimately show ?thesis by (simp add: parse_path_def unescape_escape comp_def)
qed

text \<open>A replace succeeds exactly when its pointer names a value of the document; then that value is the
  given one, and what any other pointer finds that cannot lead through the same member is as before. It never
  panics.\<close>

lemma replace_writes_its_target_only:
  assumes "parse_path path = Inr ts" and "addressable ts"
  shows "((\<exists>v'. replace_operation v path x = ok v') \<longleftrightarrow> value_at v ts \<noteq> None) \<and> replace_operation v path x \<noteq> None
    \<and> (\<forall>v'. replace_operation v path x = ok v' \<longrightarrow> value_at v' ts = Some x \<and> (\<forall>us. apart ts us \<longrightarrow> value_at v' us = value_at v us))"
proof -
  obtain parent where parent: "split_path path = Inr (parent, last ts)" "\<And>v f. get_mut_value v parent f = mut_parts parent v (butlast ts) f"
    using split_path_parts [OF assms] by blast
  let ?f = "replace_member path parent (last ts) x"
  have "path \<noteq> []" "path \<noteq> ''/''" using parent(1) by (auto simp: split_path_def starts_with_slash_def split: if_splits)
  then have op: "replace_operation v path x = mut_parts parent v (butlast ts) ?f" using parent by (simp add: replace_operation_def)
  have ts: "ts \<noteq> []" using assms(2) by (simp add: addressable_def)
  note snoc = append_butlast_last_id [OF ts]
  have empty: "?f (JObject []) \<noteq> ok w'" "?f w \<noteq> None" for w w' by (auto simp: replace_member_def split: json.splits option.splits)
  have 1: "\<exists>v'. replace_operation v path x = ok v'" if target: "value_at v ts \<noteq> None"
  proof -
    obtain w where w: "value_at v (butlast ts) = Some w"
      using target value_at_parent [OF ts, of v] by (cases "value_at v (butlast ts)") simp_all
    then obtain w' where "?f w = ok w'" using replace_member_ok [of w "last ts"] target value_at_child [OF ts w] by metis
    then show ?thesis using mut_parts_total [where f = ?f, OF w] unfolding op by blast
  qed
  have 2: "value_at v ts \<noteq> None \<and> value_at v' ts = Some x \<and> (\<forall>us. apart ts us \<longrightarrow> value_at v' us = value_at v us)"
    if a: "replace_operation v path x = ok v'" for v'
  proof -
    obtain w w' where w: "value_at v (butlast ts) = Some w" "?f w = ok w'" "value_at v' (butlast ts) = Some w'"
      using mut_parts_target [OF a [unfolded op]] empty by metis
    have "value_at v' us = value_at v us" if "apart ts us" for us
      using mut_parts_frame [OF a [unfolded op], of "[last ts]" us] that replace_member_frame snoc by metis
    then show ?thesis using replace_member_exact [OF w(2)] value_at_child [OF ts w(1)] value_at_child [OF ts w(3)] by simp
  qed
  have "replace_operation v path x \<noteq> None" using mut_parts_panics [of ?f parent v "butlast ts"] empty(2) op by auto
  then show ?thesis using 1 2 by blast
qed

text \<open>C30. An add panics exactly when the pointer names an index beyond the end of an array: \<open>Vec::insert\<close> checks
  its index and the caller does not. A successful add sets a member of an object (creating the
  objects on the way that are missing) and changes no other member, or inserts an element in an array and
  changes nothing outside of it.\<close>

theorem add_inserts_or_panics:
  assumes "parse_path path = Inr ts" and "addressable ts"
  shows "(add_operation v path x = None \<longleftrightarrow>
      (\<exists>xs i. value_at v (butlast ts) = Some (JArray xs) \<and> last ts \<noteq> ''-'' \<and> parse_usize (last ts) = Some i \<and> length xs < i))
    \<and> (\<forall>v'. add_operation v path x = ok v' \<longrightarrow>
         (\<exists>xs i. value_at v (butlast ts) = Some (JArray xs) \<and> i \<le> length xs
            \<and> (if last ts = ''-'' then i = length xs else parse_usize (last ts) = Some i)
            \<and> value_at v' (butlast ts) = Some (JArray (take i xs @ x # drop i xs))
            \<and> (\<forall>us. apart (butlast ts) us \<longrightarrow> value_at v' us = value_at v us))
       \<or> (value_at v (butlast ts) = None \<or> (\<exists>m. value_at v (butlast ts) = Some (JObject m))) \<and> value_at v' ts = Some x
            \<and> (\<forall>us. apart ts us \<longrightarrow> value_at v' us = value_at v us))"
proof -
  obtain parent where parent: "parent \<noteq> []" "split_path path = Inr (parent, last ts)"
      "\<And>v f. get_mut_value v parent f = mut_parts parent v (butlast ts) f"
    using split_path_parts [OF assms] by blast
  let ?f = "add_member parent (last ts) x"
  have op: "add_operation v path x = mut_parts parent v (butlast ts) ?f" using parent by (simp add: add_operation_def)
  have ts: "ts \<noteq> []" using assms(2) by (simp add: addressable_def)
  note snoc = append_butlast_last_id [OF ts]
  have "add_operation v path x = None \<longleftrightarrow> (\<exists>w. value_at v (butlast ts) = Some w \<and> ?f w = None)"
    unfolding op by (rule mut_parts_panics) (simp add: add_member_def)
  also have "\<dots> \<longleftrightarrow> (\<exists>xs i. value_at v (butlast ts) = Some (JArray xs) \<and> last ts \<noteq> ''-'' \<and> parse_usize (last ts) = Some i \<and> length xs < i)"
    using add_member_panics by metis
  finally have panic: "add_operation v path x = None \<longleftrightarrow>
      (\<exists>xs i. value_at v (butlast ts) = Some (JArray xs) \<and> last ts \<noteq> ''-'' \<and> parse_usize (last ts) = Some i \<and> length xs < i)" .
  let ?array = "\<lambda>v'. \<exists>xs i. value_at v (butlast ts) = Some (JArray xs) \<and> i \<le> length xs
            \<and> (if last ts = ''-'' then i = length xs else parse_usize (last ts) = Some i)
            \<and> value_at v' (butlast ts) = Some (JArray (take i xs @ x # drop i xs))
            \<and> (\<forall>us. apart (butlast ts) us \<longrightarrow> value_at v' us = value_at v us)"
  let ?object = "\<lambda>v'. (value_at v (butlast ts) = None \<or> (\<exists>m. value_at v (butlast ts) = Some (JObject m))) \<and> value_at v' ts = Some x
            \<and> (\<forall>us. apart ts us \<longrightarrow> value_at v' us = value_at v us)"
  have "?array v' \<or> ?object v'" if a: "add_operation v path x = ok v'" for v'
  proof -
    obtain w w' where w: "value_at v (butlast ts) = Some w \<or> value_at v (butlast ts) = None \<and> w = JObject []" "?f w = ok w'" "value_at v' (butlast ts) = Some w'"
      using mut_parts_target [OF a [unfolded op]] by metis
    show ?thesis
    proof (cases w)
      case (JObject m)
      let ?g = "\<lambda>w. case w of JObject _ \<Rightarrow> ?f w | _ \<Rightarrow> None"
      have g: "mut_parts parent v (butlast ts) ?g = ok v'"
        using a [unfolded op] mut_parts_target_cong [of v "butlast ts" ?f ?g parent] w(1) JObject by (auto split: json.splits)
      have frame: "value_at w' us = value_at w us" if "?g w = ok w'" "apart [last ts] us" for w w' us
        using that add_member_frame by (cases w) simp_all
      have "value_at v' us = value_at v us" if "apart ts us" for us
        by (rule mut_parts_frame [OF g, where ks = "[last ts]"]) (use that snoc frame in simp_all)
      moreover have "value_at v' ts = Some x" using w JObject value_at_child [OF ts w(3)] by (auto simp: add_member_def)
      ultimately show ?thesis using w(1) JObject by blast
    next
      case (JArray xs)
      then obtain i where i: "i \<le> length xs" "if last ts = ''-'' then i = length xs else parse_usize (last ts) = Some i"
          "w' = JArray (take i xs @ x # drop i xs)"
        using w(2) by (auto simp: add_member_def split: option.splits if_splits)
      have "value_at v' us = value_at v us" if "apart (butlast ts) us" for us
        using mut_parts_frame [OF a [unfolded op], of "[]" us] that by simp
      then show ?thesis using w JArray i by auto
    qed (use w(2) in \<open>auto simp: add_member_def\<close>)
  qed
  then show ?thesis using panic by blast
qed

theorem add_inserts_or_panics_witness:
  "add_operation (JObject [(''a'', JArray [JInt 1])]) ''/a/2'' (JInt 3) = None
   \<and> (\<exists>v'. add_operation (JObject [(''a'', JArray [JInt 1])]) ''/b/c'' (JInt 3) = ok v' \<and> value_at v' [''a'', ''0''] = Some (JInt 1))"
proof -
  let ?v = "JObject [(''a'', JArray [JInt 1])]"
  have 1: "parse_path ''/a/2'' = Inr [''a'', ''2'']" "addressable [''a'', ''2'']" "parse_path ''/b/c'' = Inr [''b'', ''c'']" "addressable [''b'', ''c'']"
      "value_at ?v [''a''] = Some (JArray [JInt 1])" "parse_usize ''2'' = Some 2" "apart [''b'', ''c''] [''a'', ''0'']"
      "value_at ?v [''a'', ''0''] = Some (JInt 1)" "add_operation ?v ''/b/c'' (JInt 3) \<noteq> None" "value_at ?v [''b''] = None"
      "isl (the (add_operation ?v ''/b/c'' (JInt 3))) = False"
    by code_simp+
  obtain v' where v': "add_operation ?v ''/b/c'' (JInt 3) = ok v'" using 1(9,11) by (cases "the (add_operation ?v ''/b/c'' (JInt 3))") auto
  have "value_at v' [''a'', ''0''] = value_at ?v [''a'', ''0'']"
    using add_inserts_or_panics [OF 1(3,4), of ?v "JInt 3"] v' 1(7,10) by (auto simp del: value_at.simps)
  moreover have "add_operation ?v ''/a/2'' (JInt 3) = None"
    using add_inserts_or_panics [OF 1(1,2), of ?v "JInt 3"] 1(5,6) by (auto simp del: value_at.simps)
  ultimately show ?thesis using v' 1(8) by simp
qed

subsection \<open>Undoing an add\<close>

text \<open>A \<open>BTreeMap\<close> has its keys in order, at every depth of a document.\<close>

fun json_ok :: "json \<Rightarrow> bool" where
  "json_ok (JObject m) \<longleftrightarrow> sorted_wrt (<) (map fst m) \<and> list_all (\<lambda>(k, v). json_ok v) m"
| "json_ok (JArray xs) \<longleftrightarrow> list_all json_ok xs"
| "json_ok _ \<longleftrightarrow> True"

abbreviation obj_ok :: "(string \<times> json) list \<Rightarrow> bool" where
  "obj_ok m \<equiv> json_ok (JObject m)"

lemma obj_insert_same: "sorted_wrt (<) (map fst m) \<Longrightarrow> map_of m k = Some c \<Longrightarrow> obj_insert k c m = m"
  by (induction m) (force split: if_splits dest: map_of_SomeD)+

lemma obj_insert_twice [simp]: "obj_insert k a (obj_insert k b m) = obj_insert k a m"
  by (induction k b m rule: obj_insert.induct) auto

lemma obj_remove_inserted: "map_of m k = None \<Longrightarrow> obj_remove k (obj_insert k x m) = m"
proof (induction k x m rule: obj_insert.induct)
  case (2 k v k' v' m)
  moreover have "obj_remove k m = m" if "map_of m k = None" for m :: "(string \<times> 'a) list"
    using that by (induction m) (auto simp: obj_remove_def split: if_splits)
  ultimately show ?case by (auto simp: obj_remove_def split: if_splits)
qed (simp add: obj_remove_def)

lemma json_ok_member: "obj_ok m \<Longrightarrow> map_of m k = Some c \<Longrightarrow> json_ok c"
  by (auto simp: list_all_iff dest: map_of_SomeD)

lemma mut_parts_undo:
  "mut_parts path v ts f = ok v' \<Longrightarrow> value_at v ts = Some w \<Longrightarrow> f w = ok w' \<Longrightarrow> g w' = ok w \<Longrightarrow> json_ok v \<Longrightarrow> mut_parts path' v' ts g = ok v"
proof (induction path v ts f arbitrary: v' rule: mut_parts.induct)
  case (2 path v part parts f)
  show ?case
  proof (cases v)
    case (JObject m)
    then obtain c where c: "map_of m part = Some c" "value_at c parts = Some w" using 2(4) by (auto split: option.splits)
    obtain c' where c': "mut_parts path c parts f = ok c'" "v' = JObject (obj_insert part c' m)" using 2(3) JObject c by (auto simp: and_then_ok_iff)
    have "mut_parts path' c' parts g = ok c"
      using 2(2) [OF JObject, of c'] c c'(1) 2(5,6) json_ok_member [of m part c] 2(7) JObject by simp
    then show ?thesis using c c' JObject 2(7) obj_insert_same [of m part c] by simp
  next
    case (JArray xs)
    then obtain i where i: "parse_usize part = Some i" "i < length xs" "value_at (xs ! i) parts = Some w"
      using 2(4) by (auto split: option.splits if_splits)
    obtain c' where c': "mut_parts path (xs ! i) parts f = ok c'" "v' = JArray (xs[i := c'])" using 2(3) JArray i by (auto simp: and_then_ok_iff)
    have "mut_parts path' c' parts g = ok (xs ! i)"
      using 2(1) [OF JArray i(1,2) c'(1) i(3) 2(5,6)] 2(7) JArray i(2) by (simp add: list_all_length)
    then show ?thesis using i c' JArray by simp
  qed (use 2(3) in auto)
qed simp

lemma remove_member_undoes_add:
  assumes "add_member pp k x w = ok w'" and "k \<noteq> ''-''" and "value_at w [k] = None \<or> (\<exists>xs. w = JArray xs)"
  shows "remove_member path pp k w' = ok w"
proof (cases w)
  case (JObject m)
  then have "map_of m k = None" using assms(3) by (auto split: option.splits)
  then show ?thesis using assms(1) JObject obj_remove_inserted [of m k x] by (auto simp: add_member_def remove_member_def)
next
  case (JArray xs)
  then show ?thesis using assms(1,2) by (auto simp: add_member_def remove_member_def split: option.splits if_splits)
qed (use assms(1) in \<open>auto simp: add_member_def\<close>)



subsection \<open>RFC 7386\<close>

text \<open>The merge of the RFC, where a target that is no object counts as an empty one.\<close>

fun rfc_merge :: "json \<Rightarrow> json \<Rightarrow> json"
  and rfc_members :: "(string \<times> json) list \<Rightarrow> (string \<times> json) list \<Rightarrow> (string \<times> json) list" where
  "rfc_merge target (JObject patch) = JObject (rfc_members (members target) patch)"
| "rfc_merge target patch = patch"
| "rfc_members target [] = target"
| "rfc_members target ((k, x) # entries) =
     rfc_members
       (if x = JNull then obj_remove k target
        else obj_insert k (rfc_merge (case map_of target k of None \<Rightarrow> JNull | Some v \<Rightarrow> v) x) target) entries"

text \<open>A document without the members that are null.\<close>

fun drop_nulls :: "json \<Rightarrow> json" and drop_null_members :: "(string \<times> json) list \<Rightarrow> (string \<times> json) list" where
  "drop_nulls (JObject m) = JObject (drop_null_members m)"
| "drop_nulls v = v"
| "drop_null_members [] = []"
| "drop_null_members ((k, v) # m) = (if v = JNull then drop_null_members m else (k, drop_nulls v) # drop_null_members m)"

lemma drop_null_members_append [simp]: "drop_null_members (m @ m') = drop_null_members m @ drop_null_members m'"
  by (induction m) auto

lemma drop_nulls_cases [simp]:
  "drop_nulls v = JNull \<longleftrightarrow> v = JNull" "is_object (drop_nulls v) \<longleftrightarrow> is_object v"
  by (cases v; simp add: is_object_def)+

lemma drop_null_keys: "k \<in> fst ` set (drop_null_members m) \<Longrightarrow> k \<in> fst ` set m"
proof (induction m)
  case (Cons e m)
  obtain k' v where e: "e = (k', v)" by (cases e)
  have "fst ` set (drop_null_members (e # m)) \<subseteq> insert k' (fst ` set (drop_null_members m))" by (auto simp: e)
  then show ?case using Cons by (auto simp: e)
qed simp

lemma drop_null_members_remove: "drop_null_members (obj_remove k m) = obj_remove k (drop_null_members m)"
  by (induction m) (auto simp: obj_remove_def split: if_splits)

lemma drop_null_members_insert:
  "x \<noteq> JNull \<Longrightarrow> sorted_wrt (<) (map fst m) \<Longrightarrow> drop_null_members (obj_insert k x m) = obj_insert k (drop_nulls x) (drop_null_members m)"
proof (induction k x m rule: obj_insert.induct)
  case (2 k v k' v' m)
  have first: "obj_insert k y (drop_null_members m) = (k, y) # drop_null_members m" if "k \<le> k'" for y
  proof (cases "drop_null_members m")
    case (Cons e m')
    then have "fst e \<in> fst ` set m" using drop_null_keys [of "fst e" m] by simp
    then have "k < fst e" using 2(3) that by force
    then show ?thesis using Cons by (cases e) auto
  qed simp
  show ?case using 2 first by (auto simp: not_less)
qed simp

lemma map_of_drop_nulls:
  "sorted_wrt (<) (map fst m) \<Longrightarrow> map_of (drop_null_members m) k = (case map_of m k of None \<Rightarrow> None | Some v \<Rightarrow> if v = JNull then None else Some (drop_nulls v))"
proof (induction m)
  case (Cons e m)
  obtain k' v where e: "e = (k', v)" by (cases e)
  have "map_of (drop_null_members m) k' = None"
    using Cons.prems drop_null_keys [of k' m] by (force simp: e map_of_eq_None_iff)
  then show ?case using Cons by (auto simp: e)
qed simp

lemma sorted_obj_insert: "sorted_wrt (<) (map fst m) \<Longrightarrow> sorted_wrt (<) (map fst (obj_insert k x m))"
proof (induction k x m rule: obj_insert.induct)
  case (2 k v k' v' m)
  have "set (map fst (obj_insert k v m)) = insert k (set (map fst m))"
    by (induction k v m rule: obj_insert.induct) auto
  then show ?case using 2 by (auto simp: not_less less_le)
qed simp

lemma sorted_obj_remove: "sorted_wrt (<) (map fst m) \<Longrightarrow> sorted_wrt (<) (map fst (obj_remove k m))"
  by (induction m) (auto simp: obj_remove_def)

lemma obj_insert_append: "\<forall>e\<in>set m. fst e < k \<Longrightarrow> obj_insert k x m = m @ [(k, x)]"
  by (induction m) auto

text \<open>What the RFC does to a new member is to drop its nulls.\<close>

lemma rfc_merge_new:
  "json_ok v \<Longrightarrow> \<not> is_object t \<Longrightarrow> drop_nulls (rfc_merge t v) = drop_nulls v"
  "sorted_wrt (<) (map fst (r @ m)) \<Longrightarrow> list_all (\<lambda>(k, v). json_ok v) m \<Longrightarrow>
   drop_null_members (rfc_members r m) = drop_null_members r @ drop_null_members m"
proof (induction t v and r m rule: rfc_merge_rfc_members.induct)
  case (1 target patch)
  then show ?case by (cases target) (simp_all add: members_def is_object_def)
next
  case (4 target k x entries)
  have less: "\<forall>e\<in>set target. fst e < k" and none: "map_of target k = None"
    using 4(3) by (force simp: sorted_wrt_append map_of_eq_None_iff)+
  let ?t = "if x = JNull then obj_remove k target else obj_insert k (rfc_merge (case map_of target k of None \<Rightarrow> JNull | Some v \<Rightarrow> v) x) target"
  have removed: "obj_remove k target = target" using less by (induction target) (auto simp: obj_remove_def)
  then have t: "?t = (if x = JNull then target else target @ [(k, rfc_merge JNull x)])" using obj_insert_append [OF less] none by simp
  have "sorted_wrt (<) (map fst (?t @ entries))" unfolding t using 4(3) by (auto simp: sorted_wrt_append)
  then have IH: "drop_null_members (rfc_members ?t entries) = drop_null_members ?t @ drop_null_members entries" using 4(2,4) by simp
  have y: "drop_nulls (rfc_merge JNull x) = drop_nulls x" if "x \<noteq> JNull"
    using 4(1) that none 4(4) by (simp add: is_object_def)
  then have "rfc_merge JNull x \<noteq> JNull" if "x \<noteq> JNull" using that drop_nulls_cases(1) by metis
  then show ?case using IH y unfolding rfc_members.simps t by simp
qed simp_all

lemma merge_keeps_sorted:
  "sorted_wrt (<) (map fst r) \<Longrightarrow> sorted_wrt (<) (map fst (merge_members r m))"
  "sorted_wrt (<) (map fst r) \<Longrightarrow> sorted_wrt (<) (map fst (rfc_members r m))"
  by (induction m arbitrary: r) (auto simp: sorted_obj_insert sorted_obj_remove)

lemma merge_object: "is_object x \<Longrightarrow> is_object (apply_merge_patch v x) \<and> is_object (rfc_merge w x)"
  by (cases x) (simp_all add: is_object_def)

lemma json_ok_obj_insert: "obj_ok m \<Longrightarrow> json_ok x \<Longrightarrow> obj_ok (obj_insert k x m)"
proof -
  have "list_all (\<lambda>(k, v). json_ok v) m \<Longrightarrow> json_ok x \<Longrightarrow> list_all (\<lambda>(k, v). json_ok v) (obj_insert k x m)"
    by (induction k x m rule: obj_insert.induct) auto
  then show "obj_ok m \<Longrightarrow> json_ok x \<Longrightarrow> obj_ok (obj_insert k x m)" by (simp add: sorted_obj_insert)
qed

lemma json_ok_obj_remove: "obj_ok m \<Longrightarrow> obj_ok (obj_remove k m)"
  by (simp add: sorted_obj_remove) (auto simp: obj_remove_def list_all_iff)

lemma json_ok_members: "json_ok v \<Longrightarrow> obj_ok (members v)"
  by (cases v) (simp_all add: members_def)

lemma merge_json_ok:
  "json_ok v \<Longrightarrow> json_ok p \<Longrightarrow> json_ok (apply_merge_patch v p)"
  "obj_ok r \<Longrightarrow> list_all (\<lambda>(k, v). json_ok v) m \<Longrightarrow> obj_ok (merge_members r m)"
proof (induction v p and r m rule: apply_merge_patch_merge_members.induct)
  case (1 original patch_obj)
  then show ?case using json_ok_members [of original] by simp
next
  case (4 r k x entries)
  have "json_ok (the (map_of r k))" if "map_of r k \<noteq> None" using 4(3) json_ok_member that by auto
  then have "obj_ok (if x = JNull then obj_remove k r
        else if is_object x \<and> (case map_of r k of None \<Rightarrow> False | Some v \<Rightarrow> is_object v)
        then obj_insert k (apply_merge_patch (the (map_of r k)) x) r else obj_insert k x r)"
    using 4(1,3,4) json_ok_obj_insert [of r] json_ok_obj_remove [of r k] by (auto simp del: json_ok.simps split: option.splits)
  then show ?case using 4(2,4) by simp
qed simp_all

lemma rfc_json_ok:
  "json_ok v \<Longrightarrow> json_ok p \<Longrightarrow> json_ok (rfc_merge v p)"
  "obj_ok r \<Longrightarrow> list_all (\<lambda>(k, v). json_ok v) m \<Longrightarrow> obj_ok (rfc_members r m)"
proof (induction v p and r m rule: rfc_merge_rfc_members.induct)
  case (1 target patch)
  then show ?case using json_ok_members [of target] by simp
next
  case (4 r k x entries)
  have "json_ok (case map_of r k of None \<Rightarrow> JNull | Some v \<Rightarrow> v)" using 4(3) json_ok_member by (auto split: option.splits)
  then have "obj_ok (if x = JNull then obj_remove k r else obj_insert k (rfc_merge (case map_of r k of None \<Rightarrow> JNull | Some v \<Rightarrow> v) x) r)"
    using 4(1,3,4) json_ok_obj_insert [of r] json_ok_obj_remove [of r k] by (auto simp del: json_ok.simps)
  then show ?case using 4(2,4) by simp
qed simp_all

lemma merge_step_agrees:
  assumes ok: "obj_ok r1" "obj_ok r2" "json_ok x" and same: "drop_null_members r1 = drop_null_members r2"
    and IH: "\<And>v w. map_of r1 k = Some v \<Longrightarrow> is_object v \<Longrightarrow> is_object x \<Longrightarrow> json_ok w \<Longrightarrow> drop_nulls v = drop_nulls w \<Longrightarrow> drop_nulls (apply_merge_patch v x) = drop_nulls (rfc_merge w x)"
  shows "drop_null_members
      (if x = JNull then obj_remove k r1
       else if is_object x \<and> (case map_of r1 k of None \<Rightarrow> False | Some v \<Rightarrow> is_object v) then obj_insert k (apply_merge_patch (the (map_of r1 k)) x) r1
       else obj_insert k x r1)
    = drop_null_members (if x = JNull then obj_remove k r2 else obj_insert k (rfc_merge (case map_of r2 k of None \<Rightarrow> JNull | Some v \<Rightarrow> v) x) r2)"
proof (cases "x = JNull")
  case True
  then show ?thesis using same by (simp add: drop_null_members_remove)
next
  case False
  have sorted: "sorted_wrt (<) (map fst r1)" "sorted_wrt (<) (map fst r2)" using ok by simp_all
  let ?w = "case map_of r2 k of None \<Rightarrow> JNull | Some v \<Rightarrow> v"
  let ?y = "if is_object x \<and> (case map_of r1 k of None \<Rightarrow> False | Some v \<Rightarrow> is_object v) then apply_merge_patch (the (map_of r1 k)) x else x"
  have w: "json_ok ?w" using ok(2) json_ok_member by (auto split: option.splits)
  have same_k: "map_of (drop_null_members r1) k = map_of (drop_null_members r2) k" using same by simp
  have "drop_nulls ?y = drop_nulls (rfc_merge ?w x)"
  proof (cases "is_object x")
    case obj: True
    show ?thesis
    proof (cases "\<exists>v. map_of r1 k = Some v \<and> is_object v")
      case True
      then obtain v where v: "map_of r1 k = Some v" "is_object v" by blast
      then have "v \<noteq> JNull" by (auto simp: is_object_def)
      then have "drop_nulls v = drop_nulls ?w"
        using same_k v(1) by (auto simp: map_of_drop_nulls [OF sorted(1)] map_of_drop_nulls [OF sorted(2)] split: option.splits if_splits)
      then show ?thesis using IH [OF v obj w] v obj by simp
    next
      case no: False
      have "\<not> is_object ?w"
      proof
        assume obj_w: "is_object ?w"
        then obtain w where w: "map_of r2 k = Some w" "is_object w" "w \<noteq> JNull" by (auto simp: is_object_def split: option.splits json.splits)
        then obtain v where "map_of r1 k = Some v" "drop_nulls v = drop_nulls w"
          using same_k by (auto simp: map_of_drop_nulls [OF sorted(1)] map_of_drop_nulls [OF sorted(2)] split: option.splits if_splits)
        then show False using no w(2) drop_nulls_cases(2) by metis
      qed
      then show ?thesis using rfc_merge_new(1) [OF ok(3)] no by (auto split: option.splits)
    qed
  next
    case no: False
    then show ?thesis by (cases x) (simp_all add: is_object_def)
  qed
  moreover have "?y \<noteq> JNull" "rfc_merge ?w x \<noteq> JNull"
    using False merge_object [of x] by (cases x; auto simp: is_object_def split: json.splits)+
  ultimately have "drop_null_members (obj_insert k ?y r1) = drop_null_members (obj_insert k (rfc_merge ?w x) r2)"
    using same drop_null_members_insert [OF _ sorted(1), of ?y k] drop_null_members_insert [OF _ sorted(2), of "rfc_merge ?w x" k] by simp
  then show ?thesis using False by (cases "is_object x \<and> (case map_of r1 k of None \<Rightarrow> False | Some v \<Rightarrow> is_object v)") auto
qed

lemma merge_agrees:
  "json_ok o1 \<Longrightarrow> json_ok o2 \<Longrightarrow> json_ok p \<Longrightarrow> drop_nulls o1 = drop_nulls o2 \<Longrightarrow> drop_nulls (apply_merge_patch o1 p) = drop_nulls (rfc_merge o2 p)"
  "obj_ok r1 \<Longrightarrow> obj_ok r2 \<Longrightarrow> list_all (\<lambda>(k, v). json_ok v) m \<Longrightarrow> drop_null_members r1 = drop_null_members r2 \<Longrightarrow>
   drop_null_members (merge_members r1 m) = drop_null_members (rfc_members r2 m)"
proof (induction o1 p and r1 m arbitrary: o2 and r2 rule: apply_merge_patch_merge_members.induct)
  case (1 original patch_obj)
  have "drop_null_members (members original) = drop_null_members (members o2)"
    using 1(5) by (cases original; cases o2) (simp_all add: members_def)
  then show ?case using 1(1) [of "members o2"] 1(2-4) json_ok_members [of original] json_ok_members [of o2] by simp
next
  case (4 r1 k x entries)
  have x: "json_ok x" "list_all (\<lambda>(k, v). json_ok v) entries" using 4(5) by simp_all
  have IH: "drop_nulls (apply_merge_patch v x) = drop_nulls (rfc_merge w x)"
    if "map_of r1 k = Some v" "is_object v" "is_object x" "json_ok w" "drop_nulls v = drop_nulls w" for v w
  proof -
    have "x \<noteq> JNull" using that(3) by (auto simp: is_object_def)
    then show ?thesis using 4(1) [of w] that x(1) json_ok_member [OF 4(3) that(1)] by simp
  qed
  let ?t1 = "if x = JNull then obj_remove k r1
      else if is_object x \<and> (case map_of r1 k of None \<Rightarrow> False | Some v \<Rightarrow> is_object v) then obj_insert k (apply_merge_patch (the (map_of r1 k)) x) r1
      else obj_insert k x r1"
  let ?t2 = "if x = JNull then obj_remove k r2 else obj_insert k (rfc_merge (case map_of r2 k of None \<Rightarrow> JNull | Some v \<Rightarrow> v) x) r2"
  have "obj_ok ?t1" using merge_json_ok(2) [OF 4(3), of "[(k, x)]"] x(1) by simp
  moreover have "obj_ok ?t2" using rfc_json_ok(2) [OF 4(4), of "[(k, x)]"] x(1) by simp
  moreover have "drop_null_members ?t1 = drop_null_members ?t2" by (rule merge_step_agrees [OF 4(3,4) x(1) 4(6) IH])
  ultimately have "drop_null_members (merge_members ?t1 entries) = drop_null_members (rfc_members ?t2 entries)" using 4(2) x(2) by blast
  then show ?case by simp
qed simp_all



text \<open>A new member keeps its nulls, which the RFC removes; and then the patch is not idempotent.\<close>

lemma merge_patch_keeps_new_nulls:
  "let p = JObject [(''a'', JObject [(''b'', JNull)])]; once = apply_merge_patch (JObject []) p in
   once = p \<and> rfc_merge (JObject []) p = JObject [(''a'', JObject [])] \<and> apply_merge_patch once p = JObject [(''a'', JObject [])]"
  by code_simp

subsection \<open>Conditions\<close>

lemma find_index_Some: "find_index P xs = Some i \<Longrightarrow> i < length xs \<and> P (xs ! i) \<and> (\<forall>j<i. \<not> P (xs ! j))"
proof (induction xs arbitrary: i)
  case (Cons x xs)
  then show ?case by (auto split: if_splits simp: less_Suc_eq_0_disj nth_Cons')
qed simp

lemma find_index_None: "find_index P xs = None \<longleftrightarrow> (\<forall>x\<in>set xs. \<not> P x)"
  by (induction xs) auto

text \<open>A status patch leaves every condition alone whose type it does not name.\<close>

lemma conditions_not_named_are_kept:
  "i < length target \<Longrightarrow> \<forall>pc\<in>set patch. cond_type pc = None \<or> cond_type pc \<noteq> cond_type (target ! i) \<Longrightarrow>
   merge_conditions_by_type target patch ! i = target ! i \<and> length target \<le> length (merge_conditions_by_type target patch)"
proof (induction patch arbitrary: target)
  case (Cons pc pcs)
  let ?t = "case find_condition pc target of Some j \<Rightarrow> target[j := deep_merge_objects (target ! j) pc] | None \<Rightarrow> target @ [pc]"
  have "?t ! i = target ! i \<and> length target \<le> length ?t"
  proof (cases "find_condition pc target")
    case (Some j)
    then have "cond_type pc \<noteq> None" "cond_type (target ! j) = cond_type pc"
      using find_index_Some [of _ target j] by (auto simp: find_condition_def split: option.splits)
    then have "j \<noteq> i" using Cons.prems(2) by auto
    then show ?thesis using Some by simp
  qed (use Cons.prems in \<open>simp add: nth_append\<close>)
  then show ?case using Cons.IH [of ?t] Cons.prems by auto
qed simp

end
