(* ===== verification/StrategicPatch.thy ===== *)
theory StrategicPatch
  imports JsonPatch
begin

text \<open>
  Strategic merge patch (\<^verbatim>\<open>crates/common/src/patch.rs\<close>, \<open>smp_merge_map\<close> and what it calls) over the patch metadata of
  the served kinds (\<^verbatim>\<open>crates/common/src/patch/meta.rs\<close>).

  The environment of a merge holds the metadata definitions, the Unicode lower case of a string and the text of
  a JSON value; the data file of the definitions and the printer of \<open>serde_json\<close> are not part of the sources. The merge
  is a recursion over the patch: the functions that merge lists take the merge of their elements as an
  argument, and congruence rules tell the termination proof that they apply it to elements of the patch only.

  Shown: a merge returns, whatever the patch, no \<open>expect\<close> panics; without directives and metadata it is the
  merge patch; without directives it touches only the members the patch names; a list merged by key keeps the items the patch
  does not name, unchanged and in order, and has the named ones in the order of the patch.
\<close>

section \<open>Patch metadata\<close>

datatype ty = TyStruct string | TySlice ty | TyMap | TyPrim string

record patch_meta =
  pm_strategies :: "string list"
  pm_merge_key :: string

record field =
  fd_name :: string
  fd_ty :: ty
  fd_meta :: patch_meta

record defs =
  df_defs :: "string \<rightharpoonup> field list"
  df_gvk :: "string \<rightharpoonup> string"

record smp_env =
  en_defs :: defs
  en_lower :: "string \<Rightarrow> string"
  en_show :: "json \<Rightarrow> string"

definition split_once :: "char \<Rightarrow> string \<Rightarrow> (string \<times> string) option" where
  "split_once c s = (if c \<in> set s then Some (takeWhile (\<lambda>x. x \<noteq> c) s, drop 1 (dropWhile (\<lambda>x. x \<noteq> c) s)) else None)"

lemma split_once_shorter: "split_once c s = Some (a, b) \<Longrightarrow> length b < length s"
proof -
  assume a: "split_once c s = Some (a, b)"
  then have "s \<noteq> []" "b = drop 1 (dropWhile (\<lambda>x. x \<noteq> c) s)" by (auto simp: split_once_def split: if_splits)
  then show ?thesis using length_dropWhile_le [of "\<lambda>x. x \<noteq> c" s] by (cases s) auto
qed

function ty_parse :: "string \<Rightarrow> ty" where
  "ty_parse s =
     (case split_once CHR '':'' s of
        None \<Rightarrow> TyPrim s
      | Some (a, b) \<Rightarrow>
          if a = ''S'' then TyStruct b else if a = ''L'' then TySlice (ty_parse b) else if a = ''M'' then TyMap else TyPrim b)"
  by auto
termination by (relation "measure length") (auto dest: split_once_shorter)

fun ty_kind :: "ty \<Rightarrow> string" where
  "ty_kind (TyStruct _) = ''struct''"
| "ty_kind (TySlice _) = ''slice''"
| "ty_kind TyMap = ''map''"
| "ty_kind (TyPrim k) = k"

text \<open>\<open>spec.get(i).and_then(as_str).unwrap_or("")\<close> of an array.\<close>

definition spec_str :: "json \<Rightarrow> nat \<Rightarrow> string" where
  "spec_str spec i =
     (case spec of
        JArray xs \<Rightarrow> if i < length xs then (case as_str (xs ! i) of None \<Rightarrow> [] | Some s \<Rightarrow> s) else []
      | _ \<Rightarrow> [])"

definition defs_from_json :: "json \<Rightarrow> defs" where
  "defs_from_json v =
     \<lparr>df_defs = map_of (map (\<lambda>(nm, fields).
          (nm, map (\<lambda>(f, spec).
             \<lparr>fd_name = f, fd_ty = ty_parse (spec_str spec 0),
              fd_meta = \<lparr>pm_strategies = split_on CHR '','' (spec_str spec 1), pm_merge_key = spec_str spec 2\<rparr>\<rparr>) (members fields)))
          (case jget v ''defs'' of None \<Rightarrow> [] | Some d \<Rightarrow> members d)),
      df_gvk = map_of (concat (map (\<lambda>(k, d). case as_str d of None \<Rightarrow> [] | Some s \<Rightarrow> [(k, s)])
          (case jget v ''gvk'' of None \<Rightarrow> [] | Some g \<Rightarrow> members g)))\<rparr>"

definition for_kind :: "smp_env \<Rightarrow> string \<Rightarrow> string \<Rightarrow> string \<Rightarrow> ty option" where
  "for_kind E grp version kind = map_option TyStruct (df_gvk (en_defs E) (grp @ ''/'' @ version @ ''/'' @ kind))"

definition for_object :: "smp_env \<Rightarrow> json \<Rightarrow> ty option" where
  "for_object E obj =
     Option.bind (Option.bind (jget obj ''apiVersion'') as_str) (\<lambda>api_version.
     Option.bind (Option.bind (jget obj ''kind'') as_str) (\<lambda>kind.
       let (grp, version) = (case split_once CHR ''/'' api_version of Some gv \<Rightarrow> gv | None \<Rightarrow> ([], api_version))
       in for_kind E grp version kind))"

text \<open>The last segment of a dotted name, \<open>rsplit('.').next()\<close>.\<close>

definition last_segment :: "string \<Rightarrow> string" where
  "last_segment s = rev (takeWhile (\<lambda>c. c \<noteq> CHR ''.'') (rev s))"

definition lookup_field :: "smp_env \<Rightarrow> ty \<Rightarrow> string \<Rightarrow> (lookup_failure, ty \<times> patch_meta) result" where
  "lookup_field E t key =
     (case t of
        TyStruct def \<Rightarrow>
          (let fields = (case df_defs (en_defs E) def of None \<Rightarrow> [] | Some fs \<Rightarrow> fs);
               found = (case find (\<lambda>f. fd_name f = key) fields of
                          Some f \<Rightarrow> Some f
                        | None \<Rightarrow> find (\<lambda>f. en_lower E (fd_name f) = en_lower E key) fields)
           in case found of
                Some f \<Rightarrow> Inr (fd_ty f, fd_meta f)
              | None \<Rightarrow> Inl (NoField (last_segment def) key))
      | _ \<Rightarrow> Inl (NotStruct (ty_kind t)))"

definition lookup_struct :: "smp_env \<Rightarrow> ty \<Rightarrow> string \<Rightarrow> (lookup_failure, ty \<times> patch_meta) result" where
  "lookup_struct E t key = lookup_field E t key"

definition lookup_slice :: "smp_env \<Rightarrow> ty \<Rightarrow> string \<Rightarrow> (lookup_failure, ty \<times> patch_meta) result" where
  "lookup_slice E t key =
     (case lookup_field E t key of
        Inl e \<Rightarrow> Inl e
      | Inr (TySlice el, meta) \<Rightarrow> (case el of TySlice _ \<Rightarrow> Inl SliceOfSlice | _ \<Rightarrow> Inr (el, meta))
      | Inr (other, _) \<Rightarrow> Inl (NotSlice (ty_kind other)))"

definition lookup_error :: "(lookup_failure, 'a) result \<Rightarrow> 'a patch_result" where
  "lookup_error r = (case r of Inl e \<Rightarrow> err (Uninterpreted (LookupFailed e)) | Inr x \<Rightarrow> ok x)"

fun extract_retain_keys_strategy :: "string list \<Rightarrow> (bool \<times> string) patch_result" where
  "extract_retain_keys_strategy [] = ok (False, [])"
| "extract_retain_keys_strategy [one] = (if one = ''retainKeys'' then ok (True, []) else ok (False, one))"
| "extract_retain_keys_strategy [a, b] =
     (if a = ''retainKeys'' then ok (True, b) else if b = ''retainKeys'' then ok (True, a)
      else err (Uninterpreted (UnexpectedStrategy [a, b])))"
| "extract_retain_keys_strategy ss = err (Uninterpreted (UnexpectedStrategy ss))"

section \<open>Directives\<close>

definition delete_from_primitive_list :: string where "delete_from_primitive_list = ''$deleteFromPrimitiveList''"

definition set_element_order :: string where "set_element_order = ''$setElementOrder''"

definition is_directive :: "string \<Rightarrow> bool" where
  "is_directive key \<longleftrightarrow> take 1 key = ''$''"

definition is_delete_directive :: "json \<Rightarrow> bool" where
  "is_delete_directive item \<longleftrightarrow> Option.bind (jget item ''$patch'') as_str = Some ''delete''"

text \<open>\<open>removeDirectives\<close>: a map that carries \<open>$patch\<close> is dropped.\<close>

fun remove_directives_deep :: "json \<Rightarrow> json option"
  and clean_members :: "(string \<times> json) list \<Rightarrow> (string \<times> json) list"
  and clean_items :: "json list \<Rightarrow> json list" where
  "remove_directives_deep (JObject m) = (if map_of m ''$patch'' \<noteq> None then None else Some (JObject (clean_members m)))"
| "remove_directives_deep (JArray xs) = Some (JArray (clean_items xs))"
| "remove_directives_deep v = Some v"
| "clean_members [] = []"
| "clean_members ((k, v) # m) = (case remove_directives_deep v of None \<Rightarrow> clean_members m | Some w \<Rightarrow> (k, w) # clean_members m)"
| "clean_items [] = []"
| "clean_items (v # vs) = (case remove_directives_deep v of None \<Rightarrow> clean_items vs | Some w \<Rightarrow> w # clean_items vs)"

definition retained :: "json \<Rightarrow> string set" where
  "retained retain = (case retain of JArray xs \<Rightarrow> set (List.map_filter as_str xs) | _ \<Rightarrow> {})"

definition apply_retain_keys_directive ::
  "(string \<times> json) list \<Rightarrow> (string \<times> json) list \<Rightarrow> json \<Rightarrow> (string \<times> json) list patch_result" where
  "apply_retain_keys_directive original patch retain =
     (if \<not> is_array retain then err (BadRequest ''invalid patch format of retainKeys'')
      else if list_all (\<lambda>(k, v). v = JNull \<or> k = ''$retainKeys'' \<or> k = ''$patch''
             \<or> strip_prefix (delete_from_primitive_list @ ''/'') k \<noteq> None \<or> strip_prefix (set_element_order @ ''/'') k \<noteq> None
             \<or> k \<in> retained retain) patch
      then ok (filter (\<lambda>(k, _). k \<in> retained retain) original)
      else err (BadRequest ''invalid patch format of retainKeys''))"

section \<open>Order of list items\<close>

definition is_scalar_list :: "json list \<Rightarrow> bool" where
  "is_scalar_list xs \<longleftrightarrow> list_all (\<lambda>v. \<not> is_object v \<and> \<not> is_array v) xs"

type_synonym item_id = "json \<Rightarrow> string option"

definition scalar_id :: "smp_env \<Rightarrow> item_id" where
  "scalar_id E v = Some (en_show E v)"

definition key_id :: "smp_env \<Rightarrow> string \<Rightarrow> item_id" where
  "key_id E key v = map_option (en_show E) (map_of (members v) key)"

definition index_of :: "item_id \<Rightarrow> json list \<Rightarrow> json \<Rightarrow> nat option" where
  "index_of iid xs v = (case iid v of None \<Rightarrow> None | Some t \<Rightarrow> find_index (\<lambda>x. iid x = Some t) xs)"

text \<open>\<open>sort_by_key\<close> with an optional index: no index comes first.\<close>

definition option_rank :: "nat option \<Rightarrow> nat" where
  "option_rank i = (case i of None \<Rightarrow> 0 | Some n \<Rightarrow> Suc n)"

fun merge_sorted :: "('a \<Rightarrow> 'a \<Rightarrow> bool) \<Rightarrow> 'a list \<Rightarrow> 'a list \<Rightarrow> 'a list" where
  "merge_sorted lt [] right = right"
| "merge_sorted lt left [] = left"
| "merge_sorted lt (l # left) (r # right) =
     (if lt l r then l # merge_sorted lt left (r # right) else r # merge_sorted lt (l # left) right)"

definition server_less :: "item_id \<Rightarrow> json list \<Rightarrow> json \<Rightarrow> json \<Rightarrow> bool" where
  "server_less iid server_order l r =
     (case (index_of iid server_order l, index_of iid server_order r) of (Some li, Some ri) \<Rightarrow> li < ri | _ \<Rightarrow> False)"

definition normalize_order ::
  "item_id \<Rightarrow> string option \<Rightarrow> json list \<Rightarrow> json list \<Rightarrow> json list \<Rightarrow> (patch_error, json list) result" where
  "normalize_order iid merge_key merged patch_order server_order =
     (case (case merge_key of None \<Rightarrow> None
            | Some key \<Rightarrow> map_option (\<lambda>bad. NoMergeKey bad key) (find (\<lambda>v. is_object v \<and> iid v = None) merged)) of
        Some e \<Rightarrow> Inl (Uninterpreted e)
      | None \<Rightarrow>
          (let patch_items = sort_key (\<lambda>v. option_rank (index_of iid patch_order v)) (filter (\<lambda>v. index_of iid patch_order v \<noteq> None) merged);
               server_only = sort_key (\<lambda>v. option_rank (index_of iid server_order v)) (filter (\<lambda>v. index_of iid patch_order v = None) merged)
           in Inr (merge_sorted (server_less iid server_order) server_only patch_items)))"

fun dedup_onto :: "json list \<Rightarrow> json list \<Rightarrow> json list" where
  "dedup_onto merged [] = merged"
| "dedup_onto merged (v # vs) = dedup_onto (if v \<in> set merged then merged else merged @ [v]) vs"

definition merge_scalar_lists :: "smp_env \<Rightarrow> json list \<Rightarrow> json list \<Rightarrow> json list patch_result" where
  "merge_scalar_lists E original patch =
     (case normalize_order (scalar_id E) None (dedup_onto [] (original @ patch)) patch original of
        Inl _ \<Rightarrow> None
      | Inr out \<Rightarrow> ok out)"

function (sequential) validate_loop ::
  "item_id \<Rightarrow> string option \<Rightarrow> json list \<Rightarrow> json list \<Rightarrow> (json list \<times> json list) patch_result" where
  "validate_loop iid merge_key (p # ps) (q # qs) =
     (if merge_key \<noteq> None \<and> map_of (members p) ''$patch'' \<noteq> None then validate_loop iid merge_key ps (q # qs)
      else if merge_key \<noteq> None \<and> iid p = None then err (Uninterpreted (NoMergeKey p (the merge_key)))
      else if merge_key \<noteq> None \<and> iid q = None then err (Uninterpreted (NoMergeKey q (the merge_key)))
      else if iid p = iid q then validate_loop iid merge_key ps qs
      else validate_loop iid merge_key (p # ps) qs)"
| "validate_loop iid merge_key ps qs = ok (ps, qs)"
  by pat_completeness auto
termination by (relation "measure (\<lambda>(_, _, ps, qs). length ps + length qs)") auto

definition validate_patch_with_set_order_list ::
  "item_id \<Rightarrow> string option \<Rightarrow> json list \<Rightarrow> json list \<Rightarrow> unit patch_result" where
  "validate_patch_with_set_order_list iid merge_key patch_list order =
     (if patch_list = [] \<or> order = [] then ok ()
      else and_then (validate_loop iid merge_key (filter (\<lambda>v. \<not> (merge_key \<noteq> None \<and> is_delete_directive v)) patch_list) order) (\<lambda>(ps, qs).
           if ps \<noteq> [] \<and> qs = [] then err (Uninterpreted (OrderMismatch patch_list order)) else ok ()))"

fun go_type_name :: "json \<Rightarrow> string option" where
  "go_type_name JNull = None"
| "go_type_name (JBool _) = Some ''bool''"
| "go_type_name (JInt _) = Some ''int64''"
| "go_type_name (JNumber _) = Some ''float64''"
| "go_type_name (JString _) = Some ''string''"
| "go_type_name (JArray _) = Some ''[]interface {}''"
| "go_type_name (JObject _) = Some ''map[string]interface {}''"

fun element_types :: "json list list \<Rightarrow> string option option \<Rightarrow> json list \<Rightarrow> (string option option) patch_result" where
  "element_types slices prev [] = ok prev"
| "element_types slices prev (v # vs) =
     (case prev of
        None \<Rightarrow>
          if is_array v then err (UnprocessableEntity ''lists of lists are not supported'')
          else element_types slices (Some (go_type_name v)) vs
      | Some p \<Rightarrow>
          if p \<noteq> go_type_name v then err (Uninterpreted (ElementTypesDiffer slices)) else element_types slices prev vs)"

definition slice_elements_are_maps :: "json list list \<Rightarrow> bool patch_result" where
  "slice_elements_are_maps slices =
     and_then (element_types slices None (concat slices)) (\<lambda>prev.
       case prev of
         None \<Rightarrow> err (Uninterpreted NoElements)
       | Some t \<Rightarrow> ok (t = Some ''map[string]interface {}''))"

section \<open>Merging lists\<close>

type_synonym merge = "json \<Rightarrow> json \<Rightarrow> ty option \<Rightarrow> json patch_result"

fun find_map_from :: "nat \<Rightarrow> string \<Rightarrow> json \<Rightarrow> json list \<Rightarrow> nat option patch_result" where
  "find_map_from i key x [] = ok None"
| "find_map_from i key x (v # vs) =
     (case v of
        JObject m \<Rightarrow> if map_of m key = Some x then ok (Some i) else find_map_from (Suc i) key x vs
      | _ \<Rightarrow> err (Uninterpreted (NotAMap i)))"

definition find_map_in_slice :: "json list \<Rightarrow> string \<Rightarrow> json \<Rightarrow> nat option patch_result" where
  "find_map_in_slice xs key x = find_map_from 0 key x xs"

lemma find_map_from_Some:
  "find_map_from i key x xs = ok (Some j) \<Longrightarrow> i \<le> j \<and> j - i < length xs \<and> (\<exists>m. xs ! (j - i) = JObject m \<and> map_of m key = Some x)"
proof (induction i key x xs rule: find_map_from.induct)
  case (2 i key x v vs)
  show ?case
  proof (cases "\<exists>m. v = JObject m \<and> map_of m key = Some x")
    case False
    then have "find_map_from (Suc i) key x vs = ok (Some j)" using 2(2) by (auto split: json.splits if_splits)
    moreover obtain m where "v = JObject m" "map_of m key \<noteq> Some x" using 2(2) False by (auto split: json.splits)
    ultimately have "Suc i \<le> j \<and> j - Suc i < length vs \<and> (\<exists>m. vs ! (j - Suc i) = JObject m \<and> map_of m key = Some x)" using 2(1) by simp
    then show ?thesis by (auto simp: nth_Cons')
  qed (use 2(2) in auto)
qed simp

lemma find_map_in_slice_Some:
  "find_map_in_slice xs key x = ok (Some i) \<Longrightarrow> i < length xs \<and> (\<exists>m. xs ! i = JObject m \<and> map_of m key = Some x)"
  using find_map_from_Some [of 0 key x xs i] by (simp add: find_map_in_slice_def)

function delete_matching :: "string \<Rightarrow> json \<Rightarrow> json list \<Rightarrow> json list patch_result" where
  "delete_matching key x xs =
     and_then (find_map_in_slice xs key x) (\<lambda>found.
       case found of None \<Rightarrow> ok xs | Some i \<Rightarrow> delete_matching key x (take i xs @ drop (Suc i) xs))"
  by auto
termination by (relation "measure (\<lambda>(_, _, xs). length xs)") (auto dest: find_map_in_slice_Some)

declare delete_matching.simps [simp del]

fun special_loop ::
  "string \<Rightarrow> json list \<Rightarrow> json list \<Rightarrow> bool \<Rightarrow> json list \<Rightarrow> (json list \<times> json list) patch_result" where
  "special_loop mk original plain repl [] = ok (if repl then (plain, []) else (original, plain))"
| "special_loop mk original plain repl (v # vs) =
     (case v of
        JObject m \<Rightarrow>
          (case map_of m ''$patch'' of
             None \<Rightarrow> special_loop mk original (plain @ [v]) repl vs
           | Some directive \<Rightarrow>
               if directive = JString ''delete'' then
                 (case map_of m mk of
                    None \<Rightarrow> err (Uninterpreted (NoMergeKey v mk))
                  | Some x \<Rightarrow> and_then (delete_matching mk x original) (\<lambda>original'. special_loop mk original' plain repl vs))
               else if directive = JString ''replace'' then special_loop mk original plain True vs
               else if directive = JString ''merge'' then err (Uninterpreted ListMergeInPatch)
               else err (Uninterpreted (BadPatchType directive v)))
      | _ \<Rightarrow> None)"

definition merge_slice_with_special_elements :: "string \<Rightarrow> json list \<Rightarrow> json list \<Rightarrow> (json list \<times> json list) patch_result" where
  "merge_slice_with_special_elements mk original patch = special_loop mk original [] False patch"

fun merge_slice_without_special_elements ::
  "merge \<Rightarrow> string \<Rightarrow> ty option \<Rightarrow> json list \<Rightarrow> json list \<Rightarrow> json list patch_result" where
  "merge_slice_without_special_elements smp mk schema original [] = ok original"
| "merge_slice_without_special_elements smp mk schema original (v # vs) =
     (case v of
        JObject m \<Rightarrow>
          (case map_of m mk of
             None \<Rightarrow> err (Uninterpreted (NoMergeKey v mk))
           | Some x \<Rightarrow>
               and_then (find_map_in_slice original mk x) (\<lambda>found.
                 case found of
                   Some i \<Rightarrow> and_then (smp (original ! i) v schema) (\<lambda>merged.
                     merge_slice_without_special_elements smp mk schema (original[i := merged]) vs)
                 | None \<Rightarrow> merge_slice_without_special_elements smp mk schema (original @ [v]) vs))
      | _ \<Rightarrow> None)"

definition merge_slice :: "smp_env \<Rightarrow> merge \<Rightarrow> json list \<Rightarrow> json list \<Rightarrow> ty option \<Rightarrow> string \<Rightarrow> json list patch_result" where
  "merge_slice E smp original patch schema mk =
     (if original = [] \<and> patch = [] then ok original
      else and_then (slice_elements_are_maps [original, patch]) (\<lambda>is_map.
        if \<not> is_map then merge_scalar_lists E original patch
        else if mk = [] then err (Uninterpreted (NoMergeKeyFor (case schema of None \<Rightarrow> [] | Some t \<Rightarrow> ty_kind t)))
        else and_then (merge_slice_with_special_elements mk original patch) (\<lambda>(original', patch').
          and_then (merge_slice_without_special_elements smp mk schema original' patch') (\<lambda>merged.
            Some (normalize_order (key_id E mk) (Some mk) merged patch' original')))))"

section \<open>Merging objects\<close>

text \<open>\<open>$setElementOrder/<field>\<close>: the field is merged with its list and its order is enforced. The second
  component of the answer has the fields that were consumed.\<close>

definition order_array :: "json option \<Rightarrow> json list option patch_result" where
  "order_array v =
     (case v of None \<Rightarrow> ok None | Some (JArray a) \<Rightarrow> ok (Some a) | Some other \<Rightarrow> err (Uninterpreted (BadArgType other)))"

definition merged_field ::
  "smp_env \<Rightarrow> merge \<Rightarrow> ty \<Rightarrow> string \<Rightarrow> string \<Rightarrow> json list option \<Rightarrow> json list option \<Rightarrow> json list option patch_result" where
  "merged_field E smp sub key strategy original patch_list =
     (case (original, patch_list) of
        (None, None) \<Rightarrow> ok None
      | (Some s, None) \<Rightarrow> ok (Some s)
      | (None, Some p) \<Rightarrow> ok (Some (clean_items p))
      | (Some s, Some p) \<Rightarrow>
          if strategy = ''merge'' then and_then (merge_slice E smp s p (Some sub) key) (\<lambda>m. ok (Some m)) else ok (Some p))"

definition set_order_field ::
  "smp_env \<Rightarrow> merge \<Rightarrow> ty option \<Rightarrow> (string \<times> json) list \<Rightarrow> string \<Rightarrow> json \<Rightarrow>
   (string \<times> json) list \<times> string set \<Rightarrow> ((string \<times> json) list \<times> string set) patch_result" where
  "set_order_field E smp schema patch_obj field order_v acc =
     (case order_v of
        JArray order \<Rightarrow>
          and_then (order_array (map_of (fst acc) field)) (\<lambda>original.
          and_then (order_array (map_of patch_obj field)) (\<lambda>patch_list.
            case schema of
              None \<Rightarrow> ok acc
            | Some t \<Rightarrow>
                and_then (lookup_error (lookup_slice E t field)) (\<lambda>(sub, meta).
                and_then (extract_retain_keys_strategy (pm_strategies meta)) (\<lambda>(_, strategy).
                  let key = pm_merge_key meta;
                      iid = (if key = [] then scalar_id E else key_id E key);
                      merge_key = (if key = [] then None else Some key);
                      plist = (case patch_list of None \<Rightarrow> [] | Some p \<Rightarrow> p);
                      server_order = (case original of None \<Rightarrow> [] | Some s \<Rightarrow> s)
                  in and_then (validate_patch_with_set_order_list iid merge_key plist order) (\<lambda>_.
                     and_then (merged_field E smp sub key strategy original patch_list) (\<lambda>merged.
                       case merged of
                         None \<Rightarrow> ok acc
                       | Some m \<Rightarrow>
                           and_then (slice_elements_are_maps [server_order, plist]) (\<lambda>_.
                           and_then (Some (normalize_order iid merge_key m order server_order)) (\<lambda>ordered.
                             ok (obj_insert field (JArray ordered) (fst acc), insert field (snd acc))))))))))
      | _ \<Rightarrow> err (Uninterpreted (BadArgType order_v)))"

fun merge_set_element_order_lists ::
  "smp_env \<Rightarrow> merge \<Rightarrow> ty option \<Rightarrow> (string \<times> json) list \<Rightarrow> (string \<times> json) list \<Rightarrow>
   (string \<times> json) list \<times> string set \<Rightarrow> ((string \<times> json) list \<times> string set) patch_result" where
  "merge_set_element_order_lists E smp schema patch_obj [] acc = ok acc"
| "merge_set_element_order_lists E smp schema patch_obj ((key, order_v) # entries) acc =
     (case strip_prefix (set_element_order @ ''/'') key of
        None \<Rightarrow> merge_set_element_order_lists E smp schema patch_obj entries acc
      | Some field \<Rightarrow>
          and_then (set_order_field E smp schema patch_obj field order_v acc)
            (merge_set_element_order_lists E smp schema patch_obj entries))"

text \<open>A member that is an object, or an array, on both sides, under the metadata of its field.\<close>

definition merge_with_schema ::
  "smp_env \<Rightarrow> merge \<Rightarrow> ty option \<Rightarrow> json option \<Rightarrow> string \<Rightarrow> json \<Rightarrow> json option patch_result" where
  "merge_with_schema E smp schema current key patch_value =
     (case (schema, current, patch_value) of
        (Some t, Some (JObject m), JObject p) \<Rightarrow>
          and_then (lookup_error (lookup_struct E t key)) (\<lambda>(sub, meta).
          and_then (extract_retain_keys_strategy (pm_strategies meta)) (\<lambda>(_, strategy).
            if strategy = ''replace'' then ok (Some patch_value)
            else and_then (smp (JObject m) patch_value (Some sub)) (\<lambda>merged. ok (Some merged))))
      | (Some t, Some (JArray xs), JArray ps) \<Rightarrow>
          and_then (lookup_error (lookup_slice E t key)) (\<lambda>(sub, meta).
          and_then (extract_retain_keys_strategy (pm_strategies meta)) (\<lambda>(_, strategy).
            if strategy = ''merge''
            then and_then (merge_slice E smp xs ps (Some sub) (pm_merge_key meta)) (\<lambda>merged. ok (Some (JArray merged)))
            else ok (Some patch_value)))
      | _ \<Rightarrow> ok None)"

definition merge_entry ::
  "smp_env \<Rightarrow> merge \<Rightarrow> ty option \<Rightarrow> (string \<times> json) list \<Rightarrow> string \<Rightarrow> json \<Rightarrow> (string \<times> json) list \<Rightarrow> (string \<times> json) list patch_result" where
  "merge_entry E smp schema patch_obj key patch_value result_obj =
     and_then (merge_with_schema E smp schema (map_of result_obj key) key patch_value) (\<lambda>handled.
       case handled of
         Some merged \<Rightarrow> ok (obj_insert key merged result_obj)
       | None \<Rightarrow>
           (case (patch_value, map_of result_obj key) of
              (JNull, _) \<Rightarrow> ok (obj_remove key result_obj)
            | (JArray ps, Some (JArray xs)) \<Rightarrow>
                if map_of patch_obj (delete_from_primitive_list @ ''/'' @ key) \<noteq> None \<and> is_scalar_list ps \<and> is_scalar_list xs
                then and_then (merge_scalar_lists E xs ps) (\<lambda>merged. ok (obj_insert key (JArray merged) result_obj))
                else ok (obj_insert key patch_value result_obj)
            | (JObject p, Some (JObject m)) \<Rightarrow>
                and_then (smp (JObject m) patch_value None) (\<lambda>merged. ok (obj_insert key merged result_obj))
            | _ \<Rightarrow>
                (case remove_directives_deep patch_value of
                   Some v \<Rightarrow> ok (obj_insert key v result_obj)
                 | None \<Rightarrow> ok (obj_remove key result_obj))))"

fun merge_entries ::
  "smp_env \<Rightarrow> merge \<Rightarrow> ty option \<Rightarrow> (string \<times> json) list \<Rightarrow> string set \<Rightarrow> (string \<times> json) list \<Rightarrow>
   (string \<times> json) list \<Rightarrow> (string \<times> json) list patch_result" where
  "merge_entries E smp schema patch_obj consumed [] result_obj = ok result_obj"
| "merge_entries E smp schema patch_obj consumed ((key, patch_value) # entries) result_obj =
     (if is_directive key \<or> key \<in> consumed then merge_entries E smp schema patch_obj consumed entries result_obj
      else and_then (merge_entry E smp schema patch_obj key patch_value result_obj)
             (merge_entries E smp schema patch_obj consumed entries))"

definition delete_list_field ::
  "smp_env \<Rightarrow> merge \<Rightarrow> ty option \<Rightarrow> string \<Rightarrow> json \<Rightarrow> (string \<times> json) list \<Rightarrow> (string \<times> json) list patch_result" where
  "delete_list_field E smp schema field patch_value result_obj =
     (if patch_value = JNull then ok (obj_remove field result_obj)
      else case map_of result_obj field of
        None \<Rightarrow> ok result_obj
      | Some current \<Rightarrow>
          if go_type_name current \<noteq> go_type_name patch_value then ok result_obj
          else (case (current, patch_value) of
             (JArray xs, JArray ds) \<Rightarrow> ok (obj_insert field (JArray (filter (\<lambda>v. v \<notin> set ds) xs)) result_obj)
           | (JObject m, JObject p) \<Rightarrow>
               and_then (case schema of
                           None \<Rightarrow> ok None
                         | Some t \<Rightarrow> and_then (lookup_error (lookup_struct E t field)) (\<lambda>(sub, _). ok (Some sub))) (\<lambda>sub.
               and_then (smp current patch_value sub) (\<lambda>merged. ok (obj_insert field merged result_obj)))
           | _ \<Rightarrow> ok (obj_insert field patch_value result_obj)))"

fun delete_lists ::
  "smp_env \<Rightarrow> merge \<Rightarrow> ty option \<Rightarrow> (string \<times> json) list \<Rightarrow> (string \<times> json) list \<Rightarrow> (string \<times> json) list patch_result" where
  "delete_lists E smp schema [] result_obj = ok result_obj"
| "delete_lists E smp schema ((key, patch_value) # entries) result_obj =
     (case strip_prefix (delete_from_primitive_list @ ''/'') key of
        None \<Rightarrow> delete_lists E smp schema entries result_obj
      | Some field \<Rightarrow>
          and_then (delete_list_field E smp schema field patch_value result_obj) (delete_lists E smp schema entries))"

text \<open>\<open>$patch: replace\<close>: the patch without directives, on top of the retained keys.\<close>

definition replace_object :: "(string \<times> json) list \<Rightarrow> (string \<times> json) list \<Rightarrow> (string \<times> json) list" where
  "replace_object result_obj patch_obj =
     (let kept = (case map_of patch_obj ''$retainKeys'' of
           Some (JArray ks) \<Rightarrow>
             fold (\<lambda>k acc. case as_str k of
                       None \<Rightarrow> acc
                     | Some key \<Rightarrow> (case map_of result_obj key of None \<Rightarrow> acc | Some v \<Rightarrow> obj_insert key v acc)) ks []
         | _ \<Rightarrow> [])
      in fold (\<lambda>(key, v) acc. if is_directive key then acc else obj_insert key v acc) patch_obj kept)"

subsection \<open>The merge recurs on the patch\<close>

lemma merge_slice_elements_cong [fundef_cong]:
  assumes "original = original'" "patch = patch'" "mk = mk'" "schema = schema'"
    and "\<And>w v s. v \<in> set patch' \<Longrightarrow> smp w v s = smp' w v s"
  shows "merge_slice_without_special_elements smp mk schema original patch = merge_slice_without_special_elements smp' mk' schema' original' patch'"
  unfolding assms(1-4) using assms(5)
proof (induction patch' arbitrary: original')
  case (Cons v vs)
  have smp: "smp w v s = smp' w v s" for w s using Cons.prems by simp
  have IH: "merge_slice_without_special_elements smp mk' schema' os vs = merge_slice_without_special_elements smp' mk' schema' os vs" for os
    using Cons by simp
  show ?case using smp by (cases v) (auto simp: IH intro!: and_then_cong split: option.split)
qed simp

lemma special_loop_plain: "special_loop mk xs plain repl ps = ok (ys, qs) \<Longrightarrow> set qs \<subseteq> set plain \<union> set ps"
proof (induction mk xs plain repl ps rule: special_loop.induct)
  case (2 mk original plain repl v vs)
  then show ?case by (fastforce simp: and_then_ok_iff split: json.splits option.splits if_splits)
qed (auto split: if_splits)

lemma merge_slice_cong [fundef_cong]:
  assumes "E = E'" "original = original'" "patch = patch'" "mk = mk'" "schema = schema'"
    and smp: "\<And>w v s. v \<in> set patch' \<Longrightarrow> smp w v s = smp' w v s"
  shows "merge_slice E smp original patch schema mk = merge_slice E' smp' original' patch' schema' mk'"
proof -
  have "merge_slice_without_special_elements smp mk' schema' os ps = merge_slice_without_special_elements smp' mk' schema' os ps"
    if "merge_slice_with_special_elements mk' original' patch' = ok (os, ps)" for os ps
  proof (rule merge_slice_elements_cong [OF refl refl refl refl])
    show "smp w v s = smp' w v s" if "v \<in> set ps" for w v s
      using special_loop_plain \<open>merge_slice_with_special_elements mk' original' patch' = ok (os, ps)\<close> that smp
      by (fastforce simp: merge_slice_with_special_elements_def)
  qed
  then show ?thesis unfolding assms(1-5) merge_slice_def by (auto intro!: and_then_cong split: prod.split)
qed

lemma merge_with_schema_cong [fundef_cong]:
  assumes "E = E'" "schema = schema'" "current = current'" "key = key'" "patch_value = patch_value'"
    and smp: "\<And>w v s. v = patch_value' \<or> (\<exists>ps. patch_value' = JArray ps \<and> v \<in> set ps) \<Longrightarrow> smp w v s = smp' w v s"
  shows "merge_with_schema E smp schema current key patch_value = merge_with_schema E' smp' schema' current' key' patch_value'"
proof -
  have "merge_slice E' smp xs ps s mk = merge_slice E' smp' xs ps s mk" if "patch_value' = JArray ps" for xs ps s mk
    using that smp by (intro merge_slice_cong) auto
  then show ?thesis
    unfolding assms(1-5) merge_with_schema_def
    by (auto simp: smp intro!: and_then_cong split: option.split json.split prod.split)
qed

lemma merge_entry_cong [fundef_cong]:
  assumes "E = E'" "schema = schema'" "patch_obj = patch_obj'" "key = key'" "patch_value = patch_value'" "result_obj = result_obj'"
    and smp: "\<And>w v s. v = patch_value' \<or> (\<exists>ps. patch_value' = JArray ps \<and> v \<in> set ps) \<Longrightarrow> smp w v s = smp' w v s"
  shows "merge_entry E smp schema patch_obj key patch_value result_obj = merge_entry E' smp' schema' patch_obj' key' patch_value' result_obj'"
proof -
  have "merge_with_schema E' smp schema' current key' patch_value' = merge_with_schema E' smp' schema' current key' patch_value'" for current
    by (rule merge_with_schema_cong) (use smp in auto)
  then show ?thesis
    unfolding assms(1-6) merge_entry_def by (auto simp: smp intro!: and_then_cong split: option.split json.split)
qed

abbreviation patch_part :: "(string \<times> json) list \<Rightarrow> json \<Rightarrow> bool" where
  "patch_part entries v \<equiv> \<exists>(k, x)\<in>set entries. v = x \<or> (\<exists>ps. x = JArray ps \<and> v \<in> set ps)"

lemma merge_entries_cong [fundef_cong]:
  assumes "E = E'" "schema = schema'" "patch_obj = patch_obj'" "consumed = consumed'" "entries = entries'" "result_obj = result_obj'"
    and "\<And>w v s. patch_part entries' v \<Longrightarrow> smp w v s = smp' w v s"
  shows "merge_entries E smp schema patch_obj consumed entries result_obj = merge_entries E' smp' schema' patch_obj' consumed' entries' result_obj'"
  unfolding assms(1-6) using assms(7)
proof (induction entries' arbitrary: result_obj')
  case (Cons e es)
  obtain key pv where e: "e = (key, pv)" by (cases e)
  have "merge_entry E' smp schema' patch_obj' key pv r = merge_entry E' smp' schema' patch_obj' key pv r" for r
    by (rule merge_entry_cong) (use Cons.prems e in auto)
  moreover have "merge_entries E' smp schema' patch_obj' consumed' es r = merge_entries E' smp' schema' patch_obj' consumed' es r" for r
    by (rule Cons.IH) (use Cons.prems in auto)
  ultimately show ?case by (auto simp: e intro!: and_then_cong)
qed simp

lemma delete_list_field_cong [fundef_cong]:
  assumes "E = E'" "schema = schema'" "field = field'" "patch_value = patch_value'" "result_obj = result_obj'"
    and smp: "\<And>w v s. v = patch_value' \<Longrightarrow> smp w v s = smp' w v s"
  shows "delete_list_field E smp schema field patch_value result_obj = delete_list_field E' smp' schema' field' patch_value' result_obj'"
  unfolding assms(1-5) delete_list_field_def by (auto simp: smp intro!: and_then_cong split: option.split json.split)

lemma delete_lists_cong [fundef_cong]:
  assumes "E = E'" "schema = schema'" "entries = entries'" "result_obj = result_obj'"
    and "\<And>w v s. patch_part entries' v \<Longrightarrow> smp w v s = smp' w v s"
  shows "delete_lists E smp schema entries result_obj = delete_lists E' smp' schema' entries' result_obj'"
  unfolding assms(1-4) using assms(5)
proof (induction entries' arbitrary: result_obj')
  case (Cons e es)
  obtain key pv where e: "e = (key, pv)" by (cases e)
  have "delete_list_field E' smp schema' f pv r = delete_list_field E' smp' schema' f pv r" for f r
    by (rule delete_list_field_cong) (use Cons.prems e in auto)
  moreover have "delete_lists E' smp schema' es r = delete_lists E' smp' schema' es r" for r
    by (rule Cons.IH) (use Cons.prems in auto)
  ultimately show ?case by (auto simp: e intro!: and_then_cong split: option.split)
qed simp

lemma order_array_Some: "order_array v = ok (Some p) \<longleftrightarrow> v = Some (JArray p)"
  by (auto simp: order_array_def split: option.splits json.splits)

lemma set_order_field_cong [fundef_cong]:
  assumes "E = E'" "schema = schema'" "patch_obj = patch_obj'" "field = field'" "order_v = order_v'" "acc = acc'"
    and smp: "\<And>w v s. patch_part patch_obj' v \<Longrightarrow> smp w v s = smp' w v s"
  shows "set_order_field E smp schema patch_obj field order_v acc = set_order_field E' smp' schema' patch_obj' field' order_v' acc'"
proof -
  have slice: "merge_slice E' smp xs ps s mk = merge_slice E' smp' xs ps s mk" if "map_of patch_obj' field' = Some (JArray ps)" for xs ps s mk
  proof (rule merge_slice_cong [OF refl refl refl refl refl])
    show "smp w v s = smp' w v s" if "v \<in> set ps" for w v s
      by (rule smp, rule bexI [OF _ map_of_SomeD [OF \<open>map_of patch_obj' field' = Some (JArray ps)\<close>]]) (use that in simp)
  qed
  have merged: "merged_field E' smp sub key strategy original pl = merged_field E' smp' sub key strategy original pl"
    if "order_array (map_of patch_obj' field') = ok pl" for sub key strategy original pl
    using that by (auto simp: merged_field_def order_array_Some slice split: option.split)
  show ?thesis
  proof (cases order_v')
    case (JArray order)
    then show ?thesis
      unfolding assms(1-6) set_order_field_def JArray json.case
      by (intro and_then_cong refl) (simp add: merged split: option.split)
  qed (simp_all add: assms(1-6) set_order_field_def)
qed

lemma merge_set_element_order_lists_cong [fundef_cong]:
  assumes "E = E'" "schema = schema'" "patch_obj = patch_obj'" "entries = entries'" "acc = acc'"
    and smp: "\<And>w v s. patch_part patch_obj' v \<Longrightarrow> smp w v s = smp' w v s"
  shows "merge_set_element_order_lists E smp schema patch_obj entries acc = merge_set_element_order_lists E' smp' schema' patch_obj' entries' acc'"
  unfolding assms(1-5)
proof (induction entries' arbitrary: acc')
  case (Cons e es)
  obtain key ov where e: "e = (key, ov)" by (cases e)
  have "set_order_field E' smp schema' patch_obj' f ov r = set_order_field E' smp' schema' patch_obj' f ov r" for f r
    by (rule set_order_field_cong) (use smp in auto)
  then show ?case using Cons by (auto simp: e intro!: and_then_cong split: option.split)
qed simp

lemma patch_part_smaller: "patch_part m v \<Longrightarrow> size v < size (JObject m)"
proof -
  have inner: "size x < size (JObject m)" if "(k, x) \<in> set m" for k x
    using that by (induction m) auto
  have "size v < size (JArray ps)" if "v \<in> set ps" for v ps using that by (induction ps) auto
  then show "patch_part m v \<Longrightarrow> size v < size (JObject m)" using inner by (fastforce dest: less_trans)
qed

function smp_merge_map :: "smp_env \<Rightarrow> json \<Rightarrow> json \<Rightarrow> ty option \<Rightarrow> json patch_result" where
  "smp_merge_map E original patch schema =
     (case patch of
        JObject patch_obj \<Rightarrow>
          (let result_obj = members original in
           case map_of patch_obj ''$patch'' of
             Some directive \<Rightarrow>
               if directive = JString ''replace'' then ok (JObject (replace_object result_obj patch_obj))
               else if directive = JString ''delete'' then ok (JObject [])
               else err (Uninterpreted (BadPatchType directive patch))
           | None \<Rightarrow>
               and_then (case map_of patch_obj ''$retainKeys'' of
                           None \<Rightarrow> ok result_obj
                         | Some retain \<Rightarrow> apply_retain_keys_directive result_obj patch_obj retain) (\<lambda>r0.
               and_then (merge_set_element_order_lists E (smp_merge_map E) schema patch_obj patch_obj (r0, {})) (\<lambda>(r1, consumed).
               and_then (merge_entries E (smp_merge_map E) schema patch_obj consumed patch_obj r1) (\<lambda>r2.
               and_then (delete_lists E (smp_merge_map E) schema patch_obj r2) (\<lambda>r3. ok (JObject r3))))))
      | _ \<Rightarrow> ok patch)"
  by auto
termination
  by (relation "measure (\<lambda>(_, _, patch, _). size patch)") (auto intro!: patch_part_smaller [THEN order.strict_trans2])

declare smp_merge_map.simps [simp del]

definition apply_patch_with_schema ::
  "smp_env \<Rightarrow> (json \<Rightarrow> json_patch_operation list option) \<Rightarrow> json \<Rightarrow> json \<Rightarrow> patch_type \<Rightarrow> ty option \<Rightarrow> json patch_result" where
  "apply_patch_with_schema E decode original patch patch_type schema =
     (case patch_type of
        JsonMergePatch \<Rightarrow>
          if is_object patch \<or> is_array patch then ok (apply_merge_patch original patch)
          else err (BadRequest ''Invalid JSON Patch'')
      | JsonPatch \<Rightarrow> apply_json_patch decode original patch
      | StrategicMergePatch \<Rightarrow> smp_merge_map E original patch schema)"

definition apply_patch ::
  "smp_env \<Rightarrow> (json \<Rightarrow> json_patch_operation list option) \<Rightarrow> json \<Rightarrow> json \<Rightarrow> patch_type \<Rightarrow> json patch_result" where
  "apply_patch E decode original patch patch_type =
     apply_patch_with_schema E decode original patch patch_type (for_object E original)"

section \<open>A merge returns\<close>

definition returns :: "'a patch_result \<Rightarrow> bool" where
  "returns m \<longleftrightarrow> m \<noteq> None"

lemma returns_Some [simp, intro]: "returns (Some x)"
  by (simp add: returns_def)

lemma returns_and_then [intro]: "returns m \<Longrightarrow> (\<And>x. m = ok x \<Longrightarrow> returns (f x)) \<Longrightarrow> returns (and_then m f)"
  by (auto simp: returns_def and_then_None_iff simp del: not_None_eq)

lemma returns_split:
  "(\<And>a b. p = (a, b) \<Longrightarrow> returns (f a b)) \<Longrightarrow> returns (case p of (a, b) \<Rightarrow> f a b)"
  "(b \<Longrightarrow> returns x) \<Longrightarrow> (\<not> b \<Longrightarrow> returns y) \<Longrightarrow> returns (if b then x else y)"
  "(q = None \<Longrightarrow> returns x) \<Longrightarrow> (\<And>a. q = Some a \<Longrightarrow> returns (g a)) \<Longrightarrow> returns (case q of None \<Rightarrow> x | Some a \<Rightarrow> g a)"
  by (cases p, simp) (simp, cases q, simp_all)

lemma merge_scalar_lists_returns: "returns (merge_scalar_lists E xs ps)"
  by (simp add: merge_scalar_lists_def normalize_order_def Let_def)

lemma lookup_returns [simp, intro]: "returns (lookup_error r)" "returns (extract_retain_keys_strategy ss)"
  by (auto simp: lookup_error_def split: sum.split) (cases ss rule: extract_retain_keys_strategy.cases; auto)

lemma element_types_returns: "returns (element_types slices prev xs)"
  by (induction slices prev xs rule: element_types.induct) (auto split: option.split)

lemma element_types_same:
  "element_types slices prev xs = ok (Some t) \<Longrightarrow> (prev \<noteq> None \<longrightarrow> prev = Some t) \<and> (\<forall>v\<in>set xs. go_type_name v = t)"
  by (induction slices prev xs rule: element_types.induct) (auto split: option.splits if_splits)

lemma slice_elements_returns: "returns (slice_elements_are_maps slices)"
  unfolding slice_elements_are_maps_def
  by (rule returns_and_then [OF element_types_returns]) (auto split: option.split)

lemma go_type_map: "go_type_name v = Some ''map[string]interface {}'' \<longleftrightarrow> is_object v"
  by (cases v) (simp_all add: is_object_def)

lemma slice_elements_maps:
  "slice_elements_are_maps slices = ok True \<Longrightarrow> \<forall>v\<in>set (concat slices). is_object v"
  using element_types_same [of slices None "concat slices"]
  by (auto simp: slice_elements_are_maps_def and_then_ok_iff go_type_map split: option.splits)

lemma find_map_returns: "returns (find_map_in_slice xs key x)"
proof -
  have "returns (find_map_from i key x xs)" for i
    by (induction i key x xs rule: find_map_from.induct) (auto split: json.splits)
  then show ?thesis by (simp add: find_map_in_slice_def)
qed

lemma delete_matching_returns: "returns (delete_matching key x xs)"
proof (induction key x xs rule: delete_matching.induct)
  case (1 key x xs)
  show ?case
    by (subst delete_matching.simps, rule returns_and_then [OF find_map_returns]) (use 1 in \<open>auto split: option.split\<close>)
qed

lemma special_loop_returns: "\<forall>v\<in>set ps. is_object v \<Longrightarrow> returns (special_loop mk xs plain repl ps)"
proof (induction mk xs plain repl ps rule: special_loop.induct)
  case (2 mk original plain repl v vs)
  then obtain m where v: "v = JObject m" by (cases v) (auto simp: is_object_def)
  show ?case
  proof (cases "map_of m ''$patch''")
    case None
    then show ?thesis using 2 v by simp
  next
    case (Some d)
    have "returns (and_then (delete_matching mk x original) (\<lambda>original'. special_loop mk original' plain repl vs))"
      if "d = JString ''delete''" "map_of m mk = Some x" for x
      by (rule returns_and_then [OF delete_matching_returns]) (use 2 v Some that in auto)
    then show ?thesis using 2 v Some by (auto split: option.splits)
  qed
qed simp

lemma merge_elements_return:
  "\<forall>v\<in>set ps. is_object v \<and> (\<forall>w s. returns (smp w v s)) \<Longrightarrow> returns (merge_slice_without_special_elements smp mk schema xs ps)"
proof (induction ps arbitrary: xs)
  case (Cons v vs)
  then obtain m where v: "v = JObject m" by (cases v) (auto simp: is_object_def)
  have "returns (merge_slice_without_special_elements smp mk schema ys vs)" for ys using Cons by simp
  moreover have "returns (smp w v s)" for w s using Cons.prems by simp
  ultimately show ?case using v find_map_returns [of xs mk] by (auto intro!: returns_and_then split: option.split)
qed simp

lemma merge_slice_returns:
  assumes "\<forall>v\<in>set ps. \<forall>w s. returns (smp w v s)"
  shows "returns (merge_slice E smp xs ps schema mk)"
proof -
  have special: "returns (and_then (merge_slice_with_special_elements mk xs ps) (\<lambda>(original', patch').
      and_then (merge_slice_without_special_elements smp mk schema original' patch') (\<lambda>merged.
        Some (normalize_order (key_id E mk) (Some mk) merged patch' original'))))"
    if "slice_elements_are_maps [xs, ps] = ok True"
  proof (intro returns_and_then returns_split)
    have objects: "\<forall>v\<in>set ps. is_object v" using slice_elements_maps [OF that] by auto
    show "returns (merge_slice_with_special_elements mk xs ps)"
      unfolding merge_slice_with_special_elements_def by (rule special_loop_returns [OF objects])
    show "returns (merge_slice_without_special_elements smp mk schema os qs)"
      if "merge_slice_with_special_elements mk xs ps = ok osqs" "osqs = (os, qs)" for osqs os qs
      using that special_loop_plain [of mk xs "[]" False ps os qs] objects assms
      by (intro merge_elements_return) (auto simp: merge_slice_with_special_elements_def)
  qed simp
  show ?thesis
    unfolding merge_slice_def
    by (intro returns_split returns_and_then slice_elements_returns merge_scalar_lists_returns special returns_Some) simp_all
qed

lemma merge_with_schema_returns:
  assumes "\<And>w v s. v = pv \<or> (\<exists>ps. pv = JArray ps \<and> v \<in> set ps) \<Longrightarrow> returns (smp w v s)"
  shows "returns (merge_with_schema E smp schema current key pv)"
proof -
  have "returns (merge_slice E smp xs ps s mk)" if "pv = JArray ps" for xs ps s mk
    using that assms by (intro merge_slice_returns) auto
  then show ?thesis
    unfolding merge_with_schema_def using assms
    by (auto intro!: returns_and_then split: option.split json.split)
qed

lemma merge_entry_returns:
  assumes "\<And>w v s. v = pv \<or> (\<exists>ps. pv = JArray ps \<and> v \<in> set ps) \<Longrightarrow> returns (smp w v s)"
  shows "returns (merge_entry E smp schema patch_obj key pv r)"
  unfolding merge_entry_def using assms merge_scalar_lists_returns
  by (intro returns_and_then merge_with_schema_returns) (auto intro!: returns_and_then split: option.split json.split)

lemma merge_entries_return:
  "(\<And>w v s. patch_part entries v \<Longrightarrow> returns (smp w v s)) \<Longrightarrow> returns (merge_entries E smp schema patch_obj consumed entries r)"
proof (induction entries arbitrary: r)
  case (Cons e es)
  obtain key pv where e: "e = (key, pv)" by (cases e)
  have "returns (merge_entry E smp schema patch_obj key pv r)"
    by (rule merge_entry_returns) (use Cons.prems e in auto)
  moreover have "returns (merge_entries E smp schema patch_obj consumed es r)" for r
    by (rule Cons.IH) (use Cons.prems in auto)
  ultimately show ?case by (auto simp: e)
qed simp

lemma delete_list_field_returns:
  assumes "\<And>w s. returns (smp w pv s)"
  shows "returns (delete_list_field E smp schema field pv r)"
  unfolding delete_list_field_def using assms
  by (auto intro!: returns_and_then split: option.split json.split)

lemma delete_lists_return:
  "(\<And>w v s. patch_part entries v \<Longrightarrow> returns (smp w v s)) \<Longrightarrow> returns (delete_lists E smp schema entries r)"
proof (induction entries arbitrary: r)
  case (Cons e es)
  obtain key pv where e: "e = (key, pv)" by (cases e)
  have "returns (delete_list_field E smp schema f pv r)" for f
    by (rule delete_list_field_returns) (use Cons.prems e in auto)
  moreover have "returns (delete_lists E smp schema es r)" for r
    by (rule Cons.IH) (use Cons.prems in auto)
  ultimately show ?case by (auto simp: e split: option.split)
qed simp

lemma validate_returns: "returns (validate_patch_with_set_order_list iid mk ps qs)"
proof -
  have "returns (validate_loop iid mk ps qs)" for ps qs
  proof (induction iid mk ps qs rule: validate_loop.induct)
    case (1 iid mk p ps q qs)
    show ?case by (subst validate_loop.simps, intro returns_split returns_Some) (use 1 in blast)+
  qed simp_all
  then show ?thesis unfolding validate_patch_with_set_order_list_def by auto
qed

lemma set_order_field_returns:
  assumes "\<And>w v s. patch_part patch_obj v \<Longrightarrow> returns (smp w v s)"
  shows "returns (set_order_field E smp schema patch_obj field order_v acc)"
proof -
  have array: "returns (order_array v)" for v by (auto simp: order_array_def split: option.split json.split)
  have "returns (merged_field E smp sub key strategy original pl)" if "order_array (map_of patch_obj field) = ok pl" for sub key strategy original pl
  proof (cases pl)
    case (Some p)
    then have p: "(field, JArray p) \<in> set patch_obj" using that by (auto simp: order_array_Some dest: map_of_SomeD)
    have "returns (merge_slice E smp xs p s mk)" for xs s mk
    proof (intro merge_slice_returns ballI allI)
      show "returns (smp w v s)" if "v \<in> set p" for w v s by (rule assms, rule bexI [OF _ p]) (use that in simp)
    qed
    then show ?thesis using Some by (auto simp: merged_field_def split: option.split)
  qed (auto simp: merged_field_def split: option.split)
  then show ?thesis
    unfolding set_order_field_def Let_def using array validate_returns slice_elements_returns
    by (cases order_v) (auto intro!: returns_and_then returns_split)
qed

lemma merge_set_element_order_lists_return:
  "(\<And>w v s. patch_part patch_obj v \<Longrightarrow> returns (smp w v s)) \<Longrightarrow> returns (merge_set_element_order_lists E smp schema patch_obj entries acc)"
proof (induction entries arbitrary: acc)
  case (Cons e es)
  obtain key ov where e: "e = (key, ov)" by (cases e)
  have "returns (set_order_field E smp schema patch_obj f ov acc)" for f
    by (rule set_order_field_returns) (rule Cons.prems)
  moreover have "returns (merge_set_element_order_lists E smp schema patch_obj es acc)" for acc
    by (rule Cons.IH) (rule Cons.prems)
  ultimately show ?case by (auto simp: e split: option.split)
qed simp

lemma smp_returns: "returns (smp_merge_map E original patch schema)"
proof (induction patch arbitrary: original schema rule: measure_induct_rule [of size])
  case (less patch)
  show ?case
  proof (cases patch)
    case (JObject po)
    have smp: "returns (smp_merge_map E w v s)" if "patch_part po v" for w v s
      using less patch_part_smaller [OF that] JObject by blast
    have "returns (case map_of po ''$retainKeys'' of None \<Rightarrow> ok (members original)
        | Some retain \<Rightarrow> apply_retain_keys_directive (members original) po retain)"
      by (auto simp: apply_retain_keys_directive_def split: option.split)
    moreover have "returns (merge_set_element_order_lists E (smp_merge_map E) schema po po acc)" for acc
      by (rule merge_set_element_order_lists_return) (rule smp)
    moreover have "returns (merge_entries E (smp_merge_map E) schema po consumed po r)" for consumed r
      by (rule merge_entries_return) (rule smp)
    moreover have "returns (delete_lists E (smp_merge_map E) schema po r)" for r
      by (rule delete_lists_return) (rule smp)
    ultimately show ?thesis
      by (subst smp_merge_map.simps, unfold JObject json.case Let_def, intro returns_split returns_and_then returns_Some) simp_all
  qed (simp_all add: smp_merge_map.simps)
qed

section \<open>Patches without directives\<close>

fun no_directives :: "json \<Rightarrow> bool" where
  "no_directives (JObject m) \<longleftrightarrow> list_all (\<lambda>(k, v). \<not> is_directive k \<and> no_directives v) m"
| "no_directives (JArray xs) \<longleftrightarrow> list_all no_directives xs"
| "no_directives _ \<longleftrightarrow> True"

definition plain_keys :: "(string \<times> json) list \<Rightarrow> bool" where
  "plain_keys m \<longleftrightarrow> (\<forall>k\<in>fst ` set m. \<not> is_directive k)"

lemma plain_keysD: "plain_keys m \<Longrightarrow> is_directive k \<Longrightarrow> map_of m k = None"
  by (auto simp: plain_keys_def map_of_eq_None_iff)

lemma directive_names [simp]:
  "is_directive ''$patch''" "is_directive ''$retainKeys''" "is_directive (delete_from_primitive_list @ s)" "is_directive (set_element_order @ s)"
  by (simp_all add: is_directive_def delete_from_primitive_list_def set_element_order_def)

lemma strip_directive: "\<not> is_directive k \<Longrightarrow> is_directive p \<Longrightarrow> strip_prefix p k = None"
proof -
  assume a: "\<not> is_directive k" "is_directive p"
  then obtain p' where "p = CHR ''$'' # p'" by (cases p) (auto simp: is_directive_def)
  then show ?thesis using a(1) by (cases k) (auto simp: strip_prefix_def is_directive_def)
qed

lemma no_order_lists: "plain_keys entries \<Longrightarrow> merge_set_element_order_lists E smp schema po entries acc = ok acc"
  by (induction entries arbitrary: acc) (auto simp: plain_keys_def strip_directive)

lemma no_delete_lists: "plain_keys entries \<Longrightarrow> delete_lists E smp schema entries r = ok r"
  by (induction entries arbitrary: r) (auto simp: plain_keys_def strip_directive)

lemma smp_plain:
  assumes "plain_keys po"
  shows "smp_merge_map E original (JObject po) schema =
    and_then (merge_entries E (smp_merge_map E) schema po {} po (members original)) (\<lambda>r. ok (JObject r))"
proof -
  have "and_then (and_then m ok) f = and_then m f" for m :: "'a patch_result" and f :: "'a \<Rightarrow> 'b patch_result"
    by (cases m; cases "the m") auto
  then show ?thesis
    using assms by (subst smp_merge_map.simps) (simp add: plain_keysD no_order_lists no_delete_lists)
qed

lemma clean_no_directives:
  "no_directives v \<Longrightarrow> remove_directives_deep v = Some v"
  "no_directives (JObject m) \<Longrightarrow> clean_members m = m"
  "no_directives (JArray xs) \<Longrightarrow> clean_items xs = xs"
proof (induction v and m and xs rule: remove_directives_deep_clean_members_clean_items.induct)
  case (1 m)
  then have "plain_keys m" by (auto simp: plain_keys_def list_all_iff)
  then show ?case using 1 by (simp add: plain_keysD)
qed auto

lemma merge_entry_no_schema:
  assumes "no_directives pv" and "plain_keys po" and "\<And>w. smp w pv None = ok (apply_merge_patch w pv)"
  shows "merge_entry E smp None po key pv r = ok (merge_members r [(key, pv)])"
  using assms clean_no_directives(1) [OF assms(1)]
  by (cases pv; cases "map_of r key"; cases "the (map_of r key)")
    (auto simp: merge_entry_def merge_with_schema_def is_object_def plain_keysD)

text \<open>Without patch metadata, a strategic merge patch that holds no directive is a JSON merge patch.\<close>

lemma plain_strategic_merge_is_merge_patch:
  assumes "no_directives patch"
  shows "smp_merge_map E original patch None = ok (apply_merge_patch original patch)"
  using assms
proof (induction patch arbitrary: original rule: measure_induct_rule [of size])
  case (less patch)
  show ?case
  proof (cases patch)
    case (JObject po)
    have plain: "plain_keys po" using less.prems JObject by (auto simp: plain_keys_def list_all_iff)
    have IH: "smp_merge_map E w v None = ok (apply_merge_patch w v)" if "(k, v) \<in> set po" for k v w
    proof (rule less.IH)
      show "size v < size patch" unfolding JObject by (rule patch_part_smaller) (use that in blast)
      show "no_directives v" using less.prems that JObject by (auto simp: list_all_iff)
    qed
    have "merge_entries E (smp_merge_map E) None po {} es r = ok (merge_members r es)" if "set es \<subseteq> set po" for es r
      using that
    proof (induction es arbitrary: r)
      case (Cons e es)
      obtain k v where e: "e = (k, v)" by (cases e)
      have in_po: "(k, v) \<in> set po" using Cons.prems e by simp
      then have "\<not> is_directive k" "no_directives v" using less.prems JObject by (auto simp: list_all_iff)
      moreover have "merge_entry E (smp_merge_map E) None po k v r = ok (merge_members r [(k, v)])"
        by (rule merge_entry_no_schema [OF \<open>no_directives v\<close> plain]) (rule IH [OF in_po])
      ultimately show ?case using Cons by (simp add: e)
    qed simp
    then show ?thesis using smp_plain [OF plain] by (simp add: JObject)
  qed (simp_all add: smp_merge_map.simps)
qed

definition text_env :: smp_env where
  "text_env = \<lparr>en_defs = \<lparr>df_defs = Map.empty, df_gvk = Map.empty\<rparr>, en_lower = \<lambda>s. s, en_show = \<lambda>v. case v of JString s \<Rightarrow> s | _ \<Rightarrow> []\<rparr>"

section \<open>Members the patch does not name\<close>

lemma merge_entry_frame: "merge_entry E smp schema po key pv r = ok r' \<Longrightarrow> k \<noteq> key \<Longrightarrow> map_of r' k = map_of r k"
  by (auto simp: merge_entry_def and_then_ok_iff split: option.splits json.splits if_splits)

lemma merge_entries_frame:
  "merge_entries E smp schema po consumed es r = ok r' \<Longrightarrow> k \<notin> fst ` set es \<Longrightarrow> map_of r' k = map_of r k"
proof (induction es arbitrary: r)
  case (Cons e es)
  obtain key pv where e: "e = (key, pv)" by (cases e)
  show ?case
  proof (cases "is_directive key \<or> key \<in> consumed")
    case False
    then obtain r1 where "merge_entry E smp schema po key pv r = ok r1" "merge_entries E smp schema po consumed es r1 = ok r'"
      using Cons.prems(1) by (auto simp: e and_then_ok_iff)
    then show ?thesis using Cons.IH [of r1] merge_entry_frame [of E smp schema po key pv r r1 k] Cons.prems(2) by (simp add: e)
  qed (use Cons e in auto)
qed simp

lemma merge_entries_value:
  assumes "merge_entries E smp schema po consumed es r = ok r'" and "distinct (map fst es)" and "(k, pv) \<in> set es"
    and "\<not> is_directive k" and "k \<notin> consumed"
  shows "\<exists>r1 r2. merge_entry E smp schema po k pv r1 = ok r2 \<and> map_of r1 k = map_of r k \<and> map_of r' k = map_of r2 k"
  using assms
proof (induction es arbitrary: r)
  case (Cons e es)
  obtain key x where e: "e = (key, x)" by (cases e)
  show ?case
  proof (cases "key = k")
    case True
    then have "x = pv" using Cons.prems(2,3) by (auto simp: e image_iff)
    then obtain r1 where "merge_entry E smp schema po k pv r = ok r1" "merge_entries E smp schema po consumed es r1 = ok r'"
      using Cons.prems(1,4,5) True by (auto simp: e and_then_ok_iff)
    moreover have "k \<notin> fst ` set es" using Cons.prems(2) True by (simp add: e)
    ultimately show ?thesis using merge_entries_frame by metis
  next
    case False
    have rest: "distinct (map fst es)" "(k, pv) \<in> set es" using Cons.prems(2,3) False by (auto simp: e)
    show ?thesis
    proof (cases "is_directive key \<or> key \<in> consumed")
      case True
      then show ?thesis using Cons.IH [OF _ rest Cons.prems(4,5)] Cons.prems(1) by (simp add: e)
    next
      case go: False
      then obtain r1 where r1: "merge_entry E smp schema po key x r = ok r1" "merge_entries E smp schema po consumed es r1 = ok r'"
        using Cons.prems(1) by (auto simp: e and_then_ok_iff)
      have "map_of r1 k = map_of r k" by (rule merge_entry_frame [OF r1(1)]) (use False in simp)
      then show ?thesis using Cons.IH [OF r1(2) rest Cons.prems(4,5)] by simp
    qed
  qed
qed simp

definition is_scalar :: "json \<Rightarrow> bool" where
  "is_scalar v \<longleftrightarrow> \<not> is_object v \<and> \<not> is_array v \<and> v \<noteq> JNull"

lemma merge_with_schema_other:
  assumes "\<not> is_object pv" and "\<not> is_array pv"
  shows "merge_with_schema E smp schema current key pv = ok None"
  using assms by (cases pv) (auto simp: merge_with_schema_def is_object_def is_array_def split: option.split json.split)

lemma merge_entry_null: "merge_entry E smp schema po k JNull r = ok (obj_remove k r)"
  by (simp add: merge_entry_def merge_with_schema_other is_object_def is_array_def)

lemma merge_entry_scalar:
  assumes "is_scalar v"
  shows "merge_entry E smp schema po k v r = ok (obj_insert k v r)"
  using assms
  by (cases v) (simp_all add: merge_entry_def merge_with_schema_other is_scalar_def is_object_def is_array_def)

lemma smp_plain_members:
  assumes "smp_merge_map E original (JObject po) schema = ok w" and "plain_keys po" and "distinct (map fst po)"
  shows "\<exists>r. w = JObject r \<and> (\<forall>k. map_of po k = None \<longrightarrow> map_of r k = map_of (members original) k)
    \<and> (\<forall>k. map_of po k = Some JNull \<longrightarrow> map_of r k = None)
    \<and> (\<forall>k v. map_of po k = Some v \<longrightarrow> is_scalar v \<longrightarrow> map_of r k = Some v)"
proof -
  obtain r where r: "w = JObject r" "merge_entries E (smp_merge_map E) schema po {} po (members original) = ok r"
    using assms(1) smp_plain [OF assms(2)] by (auto simp: and_then_ok_iff)
  have entry: "\<exists>r1 r2. merge_entry E (smp_merge_map E) schema po k v r1 = ok r2 \<and> map_of r k = map_of r2 k" if "map_of po k = Some v" for k v
  proof -
    have "(k, v) \<in> set po" using that by (rule map_of_SomeD)
    moreover from this have "\<not> is_directive k" using assms(2) by (force simp: plain_keys_def)
    ultimately show ?thesis using merge_entries_value [OF r(2) assms(3)] by blast
  qed
  have "map_of r k = map_of (members original) k" if "map_of po k = None" for k
    using merge_entries_frame [OF r(2)] that by (simp add: map_of_eq_None_iff)
  moreover have "map_of r k = None" if "map_of po k = Some JNull" for k
    using entry [OF that] by (auto simp: merge_entry_null)
  moreover have "map_of r k = Some v" if "map_of po k = Some v" "is_scalar v" for k v
    using entry [OF that(1)] by (auto simp: merge_entry_scalar [OF that(2)])
  ultimately show ?thesis using r(1) by blast
qed

text \<open>C17. A strategic merge returns for every object and every patch, whatever directives the patch holds: it never
  panics. If the patch has no directive of its own, the members it does not name are as before, the members it
  sets to null are gone and the ones it sets to a scalar have that value; what it does to nested objects
  and lists depends on the metadata.\<close>

theorem strategic_merge_touches_named_members:
  assumes "plain_keys po" and "distinct (map fst po)"
  shows "smp_merge_map E original patch schema \<noteq> None
    \<and> (\<forall>w. smp_merge_map E original (JObject po) schema = ok w \<longrightarrow>
        (\<exists>r. w = JObject r \<and> (\<forall>k. map_of po k = None \<longrightarrow> map_of r k = map_of (members original) k)
          \<and> (\<forall>k. map_of po k = Some JNull \<longrightarrow> map_of r k = None)
          \<and> (\<forall>k v. map_of po k = Some v \<longrightarrow> is_scalar v \<longrightarrow> map_of r k = Some v)))"
  using smp_returns [of E original patch schema] smp_plain_members [OF _ assms] by (auto simp: returns_def)

theorem strategic_merge_touches_named_members_witness:
  "\<exists>r. smp_merge_map text_env (JObject [(''a'', JInt 1), (''c'', JInt 3)]) (JObject [(''a'', JNull), (''b'', JInt 2)]) None = ok (JObject r)
     \<and> map_of r ''a'' = None \<and> map_of r ''b'' = Some (JInt 2) \<and> map_of r ''c'' = Some (JInt 3)"
proof -
  let ?po = "[(''a'', JNull), (''b'', JInt 2)]" and ?o = "JObject [(''a'', JInt 1), (''c'', JInt 3)]"
  have plain: "plain_keys ?po" "distinct (map fst ?po)" by (simp_all add: plain_keys_def is_directive_def)
  have "smp_merge_map text_env ?o (JObject ?po) None = ok (JObject [(''b'', JInt 2), (''c'', JInt 3)])" by code_simp
  then obtain r where r: "smp_merge_map text_env ?o (JObject ?po) None = ok (JObject r)" "\<forall>k. map_of ?po k = None \<longrightarrow> map_of r k = map_of (members ?o) k"
      "\<forall>k. map_of ?po k = Some JNull \<longrightarrow> map_of r k = None" "\<forall>k v. map_of ?po k = Some v \<longrightarrow> is_scalar v \<longrightarrow> map_of r k = Some v"
    using strategic_merge_touches_named_members [OF plain, of text_env ?o "JObject ?po" None] by blast
  moreover have "map_of ?po ''c'' = None" "map_of ?po ''a'' = Some JNull" "map_of ?po ''b'' = Some (JInt 2)" "is_scalar (JInt 2)"
      "map_of (members ?o) ''c'' = Some (JInt 3)" by code_simp+
  ultimately show ?thesis by (intro exI [of _ r]) (simp del: map_of.simps)
qed

section \<open>Lists merged by key\<close>

definition item_key :: "string \<Rightarrow> json \<Rightarrow> json option" where
  "item_key mk v = map_of (members v) mk"

definition keyed :: "string \<Rightarrow> json list \<Rightarrow> bool" where
  "keyed mk xs \<longleftrightarrow> (\<forall>v\<in>set xs. is_object v \<and> (\<exists>s. item_key mk v = Some (JString s))) \<and> distinct (map (item_key mk) xs)"

definition plain_items :: "json list \<Rightarrow> bool" where
  "plain_items ps \<longleftrightarrow> (\<forall>v\<in>set ps. plain_keys (members v) \<and> distinct (map fst (members v)))"

lemma is_objectE: "is_object v \<Longrightarrow> v = JObject (members v)"
  by (cases v) (simp_all add: is_object_def members_def)

lemma find_map_keyed:
  assumes "\<forall>v\<in>set xs. is_object v"
  shows "find_map_in_slice xs mk x = ok (find_index (\<lambda>v. item_key mk v = Some x) xs)"
proof -
  have "find_map_from i mk x xs = ok (map_option (\<lambda>j. i + j) (find_index (\<lambda>v. item_key mk v = Some x) xs))" for i
    using assms
  proof (induction xs arbitrary: i)
    case (Cons v xs)
    then obtain m where v: "v = JObject m" by (auto dest: is_objectE)
    have "(+) (Suc i) = (\<lambda>x. Suc (i + x))" by auto
    then show ?case using Cons v by (auto simp: item_key_def members_def option.map_comp comp_def)
  qed simp
  from this [of 0] show ?thesis by (simp add: find_map_in_slice_def option.map_ident)
qed

lemma merged_item_key:
  assumes "smp_merge_map E w v schema = ok u" and "is_object v" and "plain_keys (members v)" and "distinct (map fst (members v))"
    and "item_key mk v = Some (JString s)"
  shows "is_object u \<and> item_key mk u = Some (JString s)"
proof -
  have "is_scalar (JString s)" by (simp add: is_scalar_def is_object_def is_array_def)
  then show ?thesis
    using smp_plain_members [of E w "members v" schema u] is_objectE [OF assms(2)] assms by (force simp: item_key_def members_def is_object_def)
qed

lemma special_plain: "\<forall>v\<in>set ps. is_object v \<and> map_of (members v) ''$patch'' = None \<Longrightarrow> special_loop mk xs plain False ps = ok (xs, plain @ ps)"
proof (induction ps arbitrary: plain)
  case (Cons v ps)
  then obtain m where "v = JObject m" by (auto dest: is_objectE)
  then show ?case using Cons by (simp add: members_def)
qed simp

lemma filter_update_same: "\<not> P (xs ! i) \<Longrightarrow> \<not> P w \<Longrightarrow> i < length xs \<Longrightarrow> filter P (xs[i := w]) = filter P xs"
  by (simp add: upd_conv_take_nth_drop) (metis append.right_neutral filter.simps filter_append id_take_nth_drop)

lemma merge_elements_keyed:
  assumes "merge_slice_without_special_elements (smp_merge_map E) mk schema xs ps = ok ms"
    and "keyed mk xs" and "keyed mk ps" and "plain_items ps"
  shows "keyed mk ms \<and> set (map (item_key mk) ms) = set (map (item_key mk) xs) \<union> set (map (item_key mk) ps)
    \<and> (\<forall>K. set (map (item_key mk) ps) \<subseteq> K \<longrightarrow> filter (\<lambda>v. item_key mk v \<notin> K) ms = filter (\<lambda>v. item_key mk v \<notin> K) xs)
    \<and> (\<forall>v\<in>set ps. item_key mk v \<notin> set (map (item_key mk) xs) \<longrightarrow> v \<in> set ms)
    \<and> (\<forall>v\<in>set ps. \<forall>x\<in>set xs. item_key mk v = item_key mk x \<longrightarrow> (\<exists>w\<in>set ms. smp_merge_map E x v schema = ok w))"
  using assms
proof (induction ps arbitrary: xs)
  case (Cons v ps)
  obtain m s where v: "v = JObject m" "item_key mk v = Some (JString s)" "map_of m mk = Some (JString s)"
    using Cons.prems(3) by (cases v) (auto simp: keyed_def is_object_def item_key_def members_def)
  have ps: "keyed mk ps" "plain_items ps" "item_key mk v \<notin> set (map (item_key mk) ps)"
    using Cons.prems(3,4) by (auto simp: keyed_def plain_items_def)
  have find: "find_map_in_slice xs mk (JString s) = ok (find_index (\<lambda>u. item_key mk u = Some (JString s)) xs)"
    using Cons.prems(2) by (intro find_map_keyed) (simp add: keyed_def)
  show ?case
  proof (cases "find_index (\<lambda>u. item_key mk u = Some (JString s)) xs")
    case None
    let ?xs = "xs @ [v]"
    have new: "item_key mk v \<notin> set (map (item_key mk) xs)" using None v(2) by (force simp: find_index_None)
    have keyed: "keyed mk ?xs" using Cons.prems(2,3) new by (auto simp: keyed_def)
    have "merge_slice_without_special_elements (smp_merge_map E) mk schema ?xs ps = ok ms"
      using Cons.prems(1) v find None by simp
    note IH = Cons.IH [OF this keyed ps(1,2)]
    have keep: "filter (\<lambda>u. item_key mk u \<notin> set (map (item_key mk) ps)) ms = filter (\<lambda>u. item_key mk u \<notin> set (map (item_key mk) ps)) ?xs"
      using IH by blast
    have "v \<in> set (filter (\<lambda>u. item_key mk u \<notin> set (map (item_key mk) ps)) ?xs)" using ps(3) by simp
    then have "v \<in> set ms" unfolding keep [symmetric] by simp
    moreover have "item_key mk u \<noteq> Some (JString s)" if "u \<in> set ps" for u using ps(3) v(2) that by (force simp: image_iff)
    ultimately show ?thesis using IH new v(2) by auto
  next
    case (Some i)
    then have i: "i < length xs" "item_key mk (xs ! i) = Some (JString s)" using find_index_Some [OF Some] by auto
    obtain w where w: "smp_merge_map E (xs ! i) v schema = ok w"
        "merge_slice_without_special_elements (smp_merge_map E) mk schema (xs[i := w]) ps = ok ms"
      using Cons.prems(1) v find Some by (auto simp: and_then_ok_iff)
    have wkey: "is_object w" "item_key mk w = Some (JString s)"
      using merged_item_key [OF w(1) _ _ _ v(2)] Cons.prems(3,4) by (auto simp: keyed_def plain_items_def)
    have same: "map (item_key mk) (xs[i := w]) = map (item_key mk) xs"
      using i wkey by (simp add: map_update) (metis length_map list_update_id nth_map)
    have keyed: "keyed mk (xs[i := w])"
      using Cons.prems(2) wkey same set_update_subset_insert [of xs i w] by (fastforce simp: keyed_def)
    note IH = Cons.IH [OF w(2) keyed ps(1,2), unfolded same]
    have keep: "filter (\<lambda>u. item_key mk u \<notin> K) (xs[i := w]) = filter (\<lambda>u. item_key mk u \<notin> K) xs" if "item_key mk v \<in> K" for K
      by (rule filter_update_same) (use that v i wkey in auto)
    have w_in: "w \<in> set ms"
    proof -
      have "w \<in> set (filter (\<lambda>u. item_key mk u \<notin> set (map (item_key mk) ps)) (xs[i := w]))"
        using ps(3) v wkey i set_update_memI [OF i(1)] by simp
      moreover have "filter (\<lambda>u. item_key mk u \<notin> set (map (item_key mk) ps)) ms = filter (\<lambda>u. item_key mk u \<notin> set (map (item_key mk) ps)) (xs[i := w])"
        using IH by blast
      ultimately have "w \<in> set (filter (\<lambda>u. item_key mk u \<notin> set (map (item_key mk) ps)) ms)" by simp
      then show ?thesis by simp
    qed
    have only: "x = xs ! i" if "x \<in> set xs" "item_key mk x = item_key mk v" for x
      using Cons.prems(2) that i v(2) by (auto simp: keyed_def distinct_map inj_on_def)
    have other: "x \<in> set (xs[i := w])" if "x \<in> set xs" "item_key mk x \<noteq> item_key mk v" for x
      using that i v(2) by (metis in_set_conv_nth length_list_update nth_list_update_neq)
    have live: "item_key mk v \<in> set (map (item_key mk) xs)" using i v(2) by (metis length_map nth_map nth_mem)
    have "\<exists>u\<in>set ms. smp_merge_map E x p schema = ok u"
      if "p \<in> set (v # ps)" "x \<in> set xs" "item_key mk p = item_key mk x" for p x
    proof (cases "p = v")
      case True
      then show ?thesis using that w_in only w(1) by metis
    next
      case False
      then have "p \<in> set ps" "item_key mk p \<noteq> item_key mk v" using that(1) ps(3) by (auto simp: image_iff)
      then show ?thesis using IH other that(2,3) by metis
    qed
    moreover have "p \<in> set ms" if "p \<in> set (v # ps)" "item_key mk p \<notin> set (map (item_key mk) xs)" for p
      using that IH live by auto
    moreover have "filter (\<lambda>u. item_key mk u \<notin> K) ms = filter (\<lambda>u. item_key mk u \<notin> K) xs" if "set (map (item_key mk) (v # ps)) \<subseteq> K" for K
      using that IH keep [of K] by simp
    moreover have "keyed mk ms" "set (map (item_key mk) ms) = set (map (item_key mk) xs) \<union> set (map (item_key mk) (v # ps))"
      using IH live by auto
    ultimately show ?thesis by blast
  qed
qed (simp add: keyed_def)

subsection \<open>The order of the merged list\<close>

lemma filter_merge_sorted:
  assumes "\<forall>x\<in>set ls. P x" and "\<forall>x\<in>set rs. \<not> P x"
  shows "filter P (merge_sorted lt ls rs) = ls \<and> filter (\<lambda>x. \<not> P x) (merge_sorted lt ls rs) = rs"
  using assms by (induction lt ls rs rule: merge_sorted.induct) (auto simp: filter_id_conv)

lemma find_index_distinct: "distinct (map f xs) \<Longrightarrow> i < length xs \<Longrightarrow> find_index (\<lambda>x. f x = f (xs ! i)) xs = Some i"
proof (induction xs arbitrary: i)
  case (Cons x xs)
  then show ?case by (cases i) (auto simp: image_iff)
qed simp

definition shows_strings :: "smp_env \<Rightarrow> bool" where
  "shows_strings E \<longleftrightarrow> inj (\<lambda>s. en_show E (JString s))"

lemma find_index_cong: "(\<And>u. u \<in> set xs \<Longrightarrow> P u = Q u) \<Longrightarrow> find_index P xs = find_index Q xs"
  by (induction xs) auto

lemma keyedD: "keyed mk xs \<Longrightarrow> v \<in> set xs \<Longrightarrow> \<exists>t. item_key mk v = Some (JString t)"
  by (auto simp: keyed_def)

lemma index_of_keyed:
  assumes "shows_strings E" and "keyed mk xs" and "item_key mk v = Some (JString t)"
  shows "index_of (key_id E mk) xs v = find_index (\<lambda>x. item_key mk x = item_key mk v) xs"
proof -
  have same: "key_id E mk u = Some (en_show E (JString t)) \<longleftrightarrow> item_key mk u = item_key mk v" if "u \<in> set xs" for u
    using assms(1,3) keyedD [OF assms(2) that] by (auto simp: key_id_def item_key_def shows_strings_def inj_def)
  have "find_index (\<lambda>u. key_id E mk u = Some (en_show E (JString t))) xs = find_index (\<lambda>u. item_key mk u = item_key mk v) xs"
    by (rule find_index_cong) (rule same)
  moreover have "key_id E mk v = Some (en_show E (JString t))" using assms(3) by (simp add: key_id_def item_key_def)
  ultimately show ?thesis by (simp add: index_of_def)
qed

lemma server_order_sorted:
  assumes "shows_strings E" and "keyed mk xs"
  shows "sorted (map (\<lambda>v. option_rank (index_of (key_id E mk) xs v)) xs)"
proof -
  have "option_rank (index_of (key_id E mk) xs (xs ! i)) = Suc i" if i: "i < length xs" for i
  proof -
    obtain t where "item_key mk (xs ! i) = Some (JString t)" using keyedD [OF assms(2) nth_mem [OF i]] by blast
    then show ?thesis
      using index_of_keyed [OF assms, of "xs ! i" t] find_index_distinct [of "item_key mk" xs i] assms(2) i
      by (simp add: keyed_def option_rank_def)
  qed
  then show ?thesis by (simp add: sorted_iff_nth_mono)
qed

text \<open>Items with the keys of the patch, sorted by their place in the patch, have its order.\<close>

lemma patch_order_keys:
  assumes inj: "shows_strings E" and ps: "keyed mk ps" and ms: "keyed mk ms" "set (map (item_key mk) ms) = set (map (item_key mk) ps)"
  shows "map (item_key mk) (sort_key (\<lambda>v. option_rank (index_of (key_id E mk) ps v)) ms) = map (item_key mk) ps"
proof -
  define rank where "rank k = option_rank (find_index (\<lambda>x. item_key mk x = k) ps)" for k
  have rank: "option_rank (index_of (key_id E mk) ps v) = rank (item_key mk v)" if v: "v \<in> set ms \<union> set ps" for v
  proof -
    obtain t where "item_key mk v = Some (JString t)" using v keyedD [OF ps] keyedD [OF ms(1)] by blast
    then show ?thesis using index_of_keyed [OF inj ps] by (simp add: rank_def)
  qed
  let ?s = "sort_key (\<lambda>v. option_rank (index_of (key_id E mk) ps v)) ms"
  have at: "rank (item_key mk (ps ! i)) = Suc i" if "i < length ps" for i
    using find_index_distinct [of "item_key mk" ps i] ps that by (simp add: rank_def keyed_def option_rank_def)
  have inj_rank: "inj_on rank (set (map (item_key mk) ps))"
  proof (rule inj_onI)
    fix a b assume a: "a \<in> set (map (item_key mk) ps)" and b: "b \<in> set (map (item_key mk) ps)" and same: "rank a = rank b"
    obtain i j where "i < length ps" "a = item_key mk (ps ! i)" "j < length ps" "b = item_key mk (ps ! j)"
      using a b by (auto simp: in_set_conv_nth)
    then show "a = b" using same at [of i] at [of j] by simp
  qed
  show ?thesis
  proof (rule map_sorted_distinct_set_unique [of rank])
    show "set (map (item_key mk) ?s) = set (map (item_key mk) ps)" using ms(2) by simp
    then show "inj_on rank (set (map (item_key mk) ?s) \<union> set (map (item_key mk) ps))" using inj_rank by simp
    have "map rank (map (item_key mk) ?s) = map (\<lambda>v. option_rank (index_of (key_id E mk) ps v)) ?s"
      using rank by simp
    then show "sorted (map rank (map (item_key mk) ?s))" by (metis sorted_sort_key)
    have "distinct (map (item_key mk) ms)" using ms(1) by (simp add: keyed_def)
    then have "distinct (map (item_key mk) ?s)" by (simp add: distinct_map)
    then show "distinct (map rank (map (item_key mk) ?s))" unfolding distinct_map [of rank] using inj_rank ms(2) by simp
    show "sorted (map rank (map (item_key mk) ps))" using at by (simp add: sorted_iff_nth_mono)
    show "distinct (map rank (map (item_key mk) ps))" unfolding distinct_map [of rank] using inj_rank ps by (simp add: keyed_def)
  qed
qed

lemma keyed_filter: "keyed mk xs \<Longrightarrow> keyed mk (filter P xs)"
  by (auto simp: keyed_def distinct_map_filter)

text \<open>C16. When a list is merged by key, with live items and patch items that have distinct names: the live items the patch
  does not name are in the result unchanged and in their order; the items it names are in the result once
  each, in the order of the patch, merged into the live item of that name or, if there is none, as given.\<close>

theorem keyed_list_merge:
  assumes inj: "shows_strings E" and mk: "mk \<noteq> []" and xs: "keyed mk xs" and ps: "keyed mk ps" "plain_items ps"
    and out: "merge_slice E (smp_merge_map E) xs ps schema mk = ok out"
  shows "filter (\<lambda>v. item_key mk v \<notin> item_key mk ` set ps) out = filter (\<lambda>v. item_key mk v \<notin> item_key mk ` set ps) xs
    \<and> map (item_key mk) (filter (\<lambda>v. item_key mk v \<in> item_key mk ` set ps) out) = map (item_key mk) ps
    \<and> (\<forall>v\<in>set ps. (\<forall>x\<in>set xs. item_key mk x \<noteq> item_key mk v) \<longrightarrow> v \<in> set out)
    \<and> (\<forall>v\<in>set ps. \<forall>x\<in>set xs. item_key mk v = item_key mk x \<longrightarrow> (\<exists>w\<in>set out. smp_merge_map E x v schema = ok w))"
proof (cases "xs = [] \<and> ps = []")
  case True
  then show ?thesis using out by (simp add: merge_slice_def)
next
  case False
  have "slice_elements_are_maps [xs, ps] = ok True"
  proof -
    obtain is_map where is_map: "slice_elements_are_maps [xs, ps] = ok is_map" using out False by (auto simp: merge_slice_def and_then_ok_iff)
    then obtain t where t: "element_types [xs, ps] None (xs @ ps) = ok (Some t)" "is_map = (t = Some ''map[string]interface {}'')"
      by (auto simp: slice_elements_are_maps_def and_then_ok_iff split: option.splits)
    obtain v where "v \<in> set xs \<union> set ps" using False by (cases xs; cases ps) auto
    moreover from this have "is_object v" using xs ps by (auto simp: keyed_def)
    ultimately show ?thesis using element_types_same [OF t(1)] t(2) is_map go_type_map [of v] by auto
  qed
  moreover have "merge_slice_with_special_elements mk xs ps = ok (xs, ps)"
    unfolding merge_slice_with_special_elements_def
    using special_plain [of ps mk xs "[]"] ps by (auto simp: keyed_def plain_items_def plain_keysD)
  ultimately obtain ms where ms: "merge_slice_without_special_elements (smp_merge_map E) mk schema xs ps = ok ms"
      "normalize_order (key_id E mk) (Some mk) ms ps xs = Inr out"
    using out False mk by (auto simp: merge_slice_def and_then_ok_iff)
  note M = merge_elements_keyed [OF ms(1) xs ps]
  let ?named = "\<lambda>v. item_key mk v \<in> item_key mk ` set ps"
  have keyed: "keyed mk ms" using M by blast
  have index: "index_of (key_id E mk) ps v \<noteq> None \<longleftrightarrow> ?named v" if v: "v \<in> set ms" for v
  proof -
    obtain t where "item_key mk v = Some (JString t)" using keyedD [OF keyed v] by blast
    then show ?thesis using index_of_keyed [OF inj ps(1), of v t] find_index_None [of "\<lambda>x. item_key mk x = item_key mk v" ps] by (metis image_iff)
  qed
  have bad: "find (\<lambda>v. is_object v \<and> key_id E mk v = None) ms = None"
    using keyed by (auto simp: find_None_iff keyed_def key_id_def item_key_def)
  have unnamed: "filter (\<lambda>v. \<not> ?named v) ms = filter (\<lambda>v. \<not> ?named v) xs" using M by (metis list.set_map order_refl)
  let ?l = "sort_key (\<lambda>v. option_rank (index_of (key_id E mk) xs v)) (filter (\<lambda>v. \<not> ?named v) ms)"
  let ?r = "sort_key (\<lambda>v. option_rank (index_of (key_id E mk) ps v)) (filter ?named ms)"
  have split: "filter (\<lambda>v. index_of (key_id E mk) ps v \<noteq> None) ms = filter ?named ms"
      "filter (\<lambda>v. index_of (key_id E mk) ps v = None) ms = filter (\<lambda>v. \<not> ?named v) ms"
    using index by (intro filter_cong refl; blast)+
  have out_eq: "out = merge_sorted (server_less (key_id E mk) xs) ?l ?r"
    using ms(2) bad by (simp only: normalize_order_def Let_def split option.case option.map sum.inject)
  have l: "?l = filter (\<lambda>v. \<not> ?named v) xs"
    unfolding unnamed by (rule sort_key_id_if_sorted, rule sorted_filter, rule server_order_sorted [OF inj xs])
  have parts: "filter (\<lambda>v. \<not> ?named v) out = ?l \<and> filter ?named out = ?r"
    unfolding out_eq using filter_merge_sorted [of ?l "\<lambda>v. \<not> ?named v" ?r] by simp
  have "item_key mk ` set ps \<subseteq> item_key mk ` set ms" using M by simp
  then have "set (map (item_key mk) (filter ?named ms)) = set (map (item_key mk) ps)" by (fastforce simp: image_iff subset_iff)
  then have r: "map (item_key mk) ?r = map (item_key mk) ps" by (rule patch_order_keys [OF inj ps(1) keyed_filter [OF keyed]])
  have set_out: "set out = set ms"
  proof -
    have "set out = set (filter (\<lambda>v. \<not> ?named v) out) \<union> set (filter ?named out)" by auto
    also have "\<dots> = set ms" using parts by auto
    finally show ?thesis .
  qed
  have "\<forall>v\<in>set ps. (\<forall>x\<in>set xs. item_key mk x \<noteq> item_key mk v) \<longrightarrow> v \<in> set out" using M set_out by (metis (no_types, lifting) image_iff list.set_map)
  moreover have "\<forall>v\<in>set ps. \<forall>x\<in>set xs. item_key mk v = item_key mk x \<longrightarrow> (\<exists>w\<in>set out. smp_merge_map E x v schema = ok w)"
    using M set_out by blast
  ultimately show ?thesis using parts l r by simp
qed

theorem keyed_list_merge_witness:
  "\<exists>out. merge_slice text_env (smp_merge_map text_env)
       [JObject [(''name'', JString ''a''), (''x'', JInt 1)], JObject [(''name'', JString ''b'')]] [JObject [(''name'', JString ''c'')]] None ''name'' = ok out
     \<and> filter (\<lambda>v. item_key ''name'' v \<noteq> Some (JString ''c'')) out
       = [JObject [(''name'', JString ''a''), (''x'', JInt 1)], JObject [(''name'', JString ''b'')]]"
proof -
  let ?xs = "[JObject [(''name'', JString ''a''), (''x'', JInt 1)], JObject [(''name'', JString ''b'')]]" and ?ps = "[JObject [(''name'', JString ''c'')]]"
  have "shows_strings text_env" by (simp add: shows_strings_def text_env_def inj_def)
  moreover have "keyed ''name'' ?xs" "keyed ''name'' ?ps" by (simp_all add: keyed_def item_key_def members_def is_object_def)
  moreover have "plain_items ?ps" by (simp add: plain_items_def plain_keys_def members_def is_directive_def)
  moreover obtain out where "merge_slice text_env (smp_merge_map text_env) ?xs ?ps None ''name'' = ok out"
  proof -
    have "\<not> isl (the (merge_slice text_env (smp_merge_map text_env) ?xs ?ps None ''name''))
        \<and> merge_slice text_env (smp_merge_map text_env) ?xs ?ps None ''name'' \<noteq> None" by code_simp
    then show thesis using that by (cases "the (merge_slice text_env (smp_merge_map text_env) ?xs ?ps None ''name'')") auto
  qed
  ultimately have "merge_slice text_env (smp_merge_map text_env) ?xs ?ps None ''name'' = ok out"
      "filter (\<lambda>v. item_key ''name'' v \<notin> item_key ''name'' ` set ?ps) out = filter (\<lambda>v. item_key ''name'' v \<notin> item_key ''name'' ` set ?ps) ?xs"
    using keyed_list_merge [of text_env "''name''" ?xs ?ps None out] by simp_all
  then show ?thesis by (intro exI [of _ out]) (simp add: item_key_def members_def)
qed

end
