(* ===== verification/NodeGraph.thy ===== *)
theory NodeGraph
  imports StorageTypes "HOL-Library.AList"
begin

text \<open>
  The graph behind the authorization of nodes (\<^verbatim>\<open>crates/common/src/authz/node_graph.rs\<close>): which secrets,
  config maps, claims and other objects a node may read because a pod bound to it, or a volume claimed by such
  a pod, refers to them.

  The state is the one behind the lock of \<open>NodeGraph\<close>: vertices with reused identifiers, one edge per pair of
  vertices stored under both, the index of names, and for vertices of high degree a reference count of the
  nodes their edges lead to. Hash maps that are only read by key are maps; those the code iterates over or
  tests for being empty are association lists, whose order is one of the orders the iteration may have.
  A failed assertion or index is \<^const>\<open>None\<close>. Identifiers and reference counts are bounded by memory and unbounded
  here. A volume and a volume specification carry what \<open>serde_json::to_value\<close> makes of them, \<^const>\<open>None\<close> if it fails.
\<close>

section \<open>Reference counts\<close>

type_synonym int_set = "nat \<rightharpoonup> nat"

definition refcount :: "int_set \<Rightarrow> nat \<Rightarrow> nat" where
  "refcount s i = (case s i of None \<Rightarrow> 0 | Some n \<Rightarrow> n)"

definition has :: "int_set \<Rightarrow> nat \<Rightarrow> bool" where
  "has s i \<longleftrightarrow> 0 < refcount s i"

definition increment :: "nat \<Rightarrow> int_set \<Rightarrow> int_set" where
  "increment i s = s(i \<mapsto> refcount s i + 1)"

definition decrement :: "nat \<Rightarrow> int_set \<Rightarrow> int_set" where
  "decrement i s = (if refcount s i = 0 \<or> refcount s i = 1 then s(i := None) else s(i \<mapsto> refcount s i - 1))"

section \<open>Vertices and edges\<close>

datatype vertex_type =
  ConfigMap | Slice | Node | Pod | Pvc | Pv | ResourceClaim | Secret | Va | ServiceAccount | Pcr

fun type_name :: "vertex_type \<Rightarrow> string" where
  "type_name ConfigMap = ''configmap''"
| "type_name Slice = ''resourceslice''"
| "type_name Node = ''node''"
| "type_name Pod = ''pod''"
| "type_name Pvc = ''pvc''"
| "type_name Pv = ''pv''"
| "type_name ResourceClaim = ''resourceclaim''"
| "type_name Secret = ''secret''"
| "type_name Va = ''volumeattachment''"
| "type_name ServiceAccount = ''serviceAccount''"
| "type_name Pcr = ''podcertificaterequest''"

definition has_authoritative_index :: "vertex_type \<Rightarrow> bool" where
  "has_authoritative_index t \<longleftrightarrow>
     t \<in> {ConfigMap, Slice, Pod, Pvc, ResourceClaim, Va, ServiceAccount, Pcr}"

record named_vertex =
  v_type :: vertex_type
  v_namespace :: string
  v_name :: string
  v_id :: nat

definition describe :: "named_vertex \<Rightarrow> string" where
  "describe v =
     (if v_namespace v = [] then type_name (v_type v) @ '':'' @ v_name v
      else type_name (v_type v) @ '':'' @ v_namespace v @ ''/'' @ v_name v)"

record edge =
  from_id :: nat
  to_id :: nat
  destination :: "nat option"

record graph_inner =
  nodes :: "(nat \<times> named_vertex) list"
  edges :: "(nat \<times> (nat \<times> edge) list) list"
  free_ids :: "nat set"
  used_ids :: "nat set"
  vertices :: "vertex_type \<rightharpoonup> string \<rightharpoonup> (string \<times> nat) list"
  destination_edge_index :: "nat \<rightharpoonup> int_set"
  destination_edge_threshold :: nat

definition new_graph :: graph_inner where
  "new_graph =
     \<lparr>nodes = [], edges = [], free_ids = {}, used_ids = {}, vertices = Map.empty,
      destination_edge_index = Map.empty, destination_edge_threshold = 200\<rparr>"

text \<open>\<open>HashMap::entry(..).or_default()\<close> and \<open>HashMap::get\<close> on the neighbours of a vertex.\<close>

definition adjacent :: "graph_inner \<Rightarrow> nat \<Rightarrow> (nat \<times> edge) list" where
  "adjacent g n = (case map_of (edges g) n of None \<Rightarrow> [] | Some m \<Rightarrow> m)"

definition new_node_id :: "graph_inner \<Rightarrow> nat \<times> graph_inner" where
  "new_node_id g =
     (if nodes g = [] then (0, g)
      else if free_ids g \<noteq> {} then (Min (free_ids g), g\<lparr>free_ids := free_ids g - {Min (free_ids g)}\<rparr>)
      else (if used_ids g = {} then 0 else Max (used_ids g) + 1, g))"

definition add_node :: "named_vertex \<Rightarrow> graph_inner \<Rightarrow> graph_inner or_panic" where
  "add_node v g =
     (if map_of (nodes g) (v_id v) \<noteq> None then None
      else Some (g\<lparr>nodes := AList.update (v_id v) v (nodes g), edges := AList.update (v_id v) [] (edges g),
                   free_ids := free_ids g - {v_id v}, used_ids := insert (v_id v) (used_ids g)\<rparr>))"

definition drop_held :: "nat \<Rightarrow> nat \<Rightarrow> graph_inner \<Rightarrow> graph_inner" where
  "drop_held i n g =
     (case map_of (edges g) n of
        None \<Rightarrow> g
      | Some held \<Rightarrow> g\<lparr>edges := AList.update n (AList.delete i held) (edges g)\<rparr>)"

definition remove_node :: "nat \<Rightarrow> graph_inner \<Rightarrow> graph_inner" where
  "remove_node i g =
     (if map_of (nodes g) i = None then g
      else
        (let g1 = g\<lparr>nodes := AList.delete i (nodes g)\<rparr>;
             g2 = (case map_of (edges g1) i of
                     None \<Rightarrow> g1
                   | Some neighbors \<Rightarrow>
                       fold (drop_held i) (map fst neighbors) (g1\<lparr>edges := AList.delete i (edges g1)\<rparr>))
         in g2\<lparr>free_ids := insert i (free_ids g2), used_ids := used_ids g2 - {i}\<rparr>))"

definition set_edge :: "edge \<Rightarrow> graph_inner \<Rightarrow> graph_inner or_panic" where
  "set_edge e g =
     (if from_id e = to_id e then None
      else if map_of (nodes g) (from_id e) = None \<or> map_of (nodes g) (to_id e) = None then None
      else
        (let g1 = g\<lparr>edges := AList.update (from_id e) (AList.update (to_id e) e (adjacent g (from_id e))) (edges g)\<rparr>
         in Some (g1\<lparr>edges := AList.update (to_id e) (AList.update (from_id e) e (adjacent g1 (to_id e))) (edges g1)\<rparr>)))"

definition remove_edge :: "edge \<Rightarrow> graph_inner \<Rightarrow> graph_inner" where
  "remove_edge e g =
     (if map_of (nodes g) (from_id e) = None \<or> map_of (nodes g) (to_id e) = None then g
      else drop_held (from_id e) (to_id e) (drop_held (to_id e) (from_id e) g))"

definition degree :: "graph_inner \<Rightarrow> nat \<Rightarrow> nat" where
  "degree g n = length (adjacent g n)"

definition edge_between :: "graph_inner \<Rightarrow> nat \<Rightarrow> nat \<Rightarrow> edge option" where
  "edge_between g a b = map_of (adjacent g a) b"

definition neighbors_from :: "graph_inner \<Rightarrow> nat \<Rightarrow> nat list" where
  "neighbors_from g n = map to_id (filter (\<lambda>e. from_id e = n) (map snd (adjacent g n)))"

definition neighbors_to :: "graph_inner \<Rightarrow> nat \<Rightarrow> nat list" where
  "neighbors_to g n = map from_id (filter (\<lambda>e. to_id e = n) (map snd (adjacent g n)))"

section \<open>Names\<close>

definition lookup_vertex :: "vertex_type \<Rightarrow> string \<Rightarrow> string \<Rightarrow> graph_inner \<Rightarrow> nat option" where
  "lookup_vertex t namespace nm g =
     do { by_namespace \<leftarrow> vertices g t; by_name \<leftarrow> by_namespace namespace; map_of by_name nm }"

definition get_vertex :: "vertex_type \<Rightarrow> string \<Rightarrow> string \<Rightarrow> graph_inner \<Rightarrow> named_vertex option" where
  "get_vertex t namespace nm g =
     do { i \<leftarrow> lookup_vertex t namespace nm g; map_of (nodes g) i }"

definition get_vertex_id :: "vertex_type \<Rightarrow> string \<Rightarrow> string \<Rightarrow> graph_inner \<Rightarrow> nat option" where
  "get_vertex_id t namespace nm g = map_option v_id (get_vertex t namespace nm g)"

definition create_vertex ::
  "vertex_type \<Rightarrow> string \<Rightarrow> string \<Rightarrow> graph_inner \<Rightarrow> (nat \<times> graph_inner) or_panic" where
  "create_vertex t namespace nm g =
     (let (i, g1) = new_node_id g;
          by_namespace = (case vertices g1 t of None \<Rightarrow> Map.empty | Some m \<Rightarrow> m);
          by_name = (case by_namespace namespace of None \<Rightarrow> [] | Some m \<Rightarrow> m);
          g2 = g1\<lparr>vertices := (vertices g1)(t \<mapsto> by_namespace(namespace \<mapsto> AList.update nm i by_name))\<rparr>
      in do { g3 \<leftarrow> add_node \<lparr>v_type = t, v_namespace = namespace, v_name = nm, v_id = i\<rparr> g2;
              Some (i, g3) })"

definition get_or_create_vertex ::
  "vertex_type \<Rightarrow> string \<Rightarrow> string \<Rightarrow> graph_inner \<Rightarrow> (nat \<times> graph_inner) or_panic" where
  "get_or_create_vertex t namespace nm g =
     (case get_vertex_id t namespace nm g of
        Some i \<Rightarrow> Some (i, g)
      | None \<Rightarrow> create_vertex t namespace nm g)"

definition remove_vertex :: "nat \<Rightarrow> graph_inner \<Rightarrow> graph_inner" where
  "remove_vertex i g =
     (case map_of (nodes g) i of
        None \<Rightarrow> g
      | Some v \<Rightarrow>
          (let g1 = remove_node i g;
               g2 = g1\<lparr>destination_edge_index := (destination_edge_index g1)(i := None)\<rparr>
           in case vertices g2 (v_type v) of
                None \<Rightarrow> g2
              | Some by_namespace \<Rightarrow>
                  (case by_namespace (v_namespace v) of
                     None \<Rightarrow> g2
                   | Some by_name \<Rightarrow>
                       (let by_name' = AList.delete (v_name v) by_name
                        in g2\<lparr>vertices := (vertices g2)(v_type v \<mapsto>
                                by_namespace(v_namespace v := if by_name' = [] then None else Some by_name'))\<rparr>))))"

section \<open>The index of destinations\<close>

definition remove_edge_from_destination_index :: "edge \<Rightarrow> graph_inner \<Rightarrow> graph_inner" where
  "remove_edge_from_destination_index e g =
     (if degree g (from_id e) < destination_edge_threshold g
      then g\<lparr>destination_edge_index := (destination_edge_index g)(from_id e := None)\<rparr>
      else
        (case destination_edge_index g (from_id e) of
           None \<Rightarrow> g
         | Some index \<Rightarrow>
             (case destination e of
                None \<Rightarrow> g
              | Some d \<Rightarrow>
                  g\<lparr>destination_edge_index := (destination_edge_index g)(from_id e \<mapsto> decrement d index)\<rparr>)))"

definition count_destination :: "graph_inner \<Rightarrow> nat \<Rightarrow> nat \<Rightarrow> int_set \<Rightarrow> int_set" where
  "count_destination g n dest index =
     (case edge_between g n dest of
        None \<Rightarrow> index
      | Some e \<Rightarrow> (case destination e of None \<Rightarrow> index | Some d \<Rightarrow> increment d index))"

definition recompute_destination_index :: "nat \<Rightarrow> graph_inner \<Rightarrow> graph_inner" where
  "recompute_destination_index n g =
     (if degree g n < destination_edge_threshold g
      then g\<lparr>destination_edge_index := (destination_edge_index g)(n := None)\<rparr>
      else g\<lparr>destination_edge_index :=
               (destination_edge_index g)(n \<mapsto> fold (count_destination g n) (neighbors_from g n) Map.empty)\<rparr>)"

definition add_edge_to_destination_index :: "edge \<Rightarrow> graph_inner \<Rightarrow> graph_inner" where
  "add_edge_to_destination_index e g =
     (case destination_edge_index g (from_id e) of
        None \<Rightarrow> recompute_destination_index (from_id e) g
      | Some index \<Rightarrow>
          (case destination e of
             None \<Rightarrow> g
           | Some d \<Rightarrow>
               g\<lparr>destination_edge_index := (destination_edge_index g)(from_id e \<mapsto> increment d index)\<rparr>))"

definition add_edge :: "nat \<Rightarrow> nat \<Rightarrow> nat option \<Rightarrow> graph_inner \<Rightarrow> graph_inner or_panic" where
  "add_edge from to dest g =
     (let e = \<lparr>from_id = from, to_id = to, destination = dest\<rparr> in
      if dest \<noteq> None then
        do { g1 \<leftarrow> set_edge e g; Some (add_edge_to_destination_index e g1) }
      else
        do { v \<leftarrow> map_of (nodes g) from;
             if has_authoritative_index (v_type v) then None else set_edge e g })"

section \<open>Deletion\<close>

definition delete_vertex :: "vertex_type \<Rightarrow> string \<Rightarrow> string \<Rightarrow> graph_inner \<Rightarrow> graph_inner" where
  "delete_vertex t namespace nm g =
     (case get_vertex_id t namespace nm g of
        None \<Rightarrow> g
      | Some vertex \<Rightarrow>
          (let downstream = filter (\<lambda>n. degree g n = 1) (neighbors_from g vertex);
               upstream = filter (\<lambda>n. degree g n = 1) (neighbors_to g vertex);
               edges_to_remove_from_indexes =
                 List.map_filter (edge_between g vertex)
                   (filter (\<lambda>n. degree g n \<noteq> 1) (neighbors_to g vertex));
               g1 = remove_vertex vertex g;
               g2 = fold remove_vertex (downstream @ upstream) g1
           in fold remove_edge_from_destination_index edges_to_remove_from_indexes g2))"

definition delete_edges ::
  "vertex_type \<Rightarrow> vertex_type \<Rightarrow> string \<Rightarrow> string \<Rightarrow> graph_inner \<Rightarrow> graph_inner or_panic" where
  "delete_edges from_type to_type to_namespace to_name g =
     (case get_vertex_id to_type to_namespace to_name g of
        None \<Rightarrow> Some g
      | Some to_vert \<Rightarrow>
          (if \<exists>n\<in>set (neighbors_to g to_vert). map_of (nodes g) n = None then None
           else
             (let froms = filter (\<lambda>n. v_type (the (map_of (nodes g) n)) = from_type) (neighbors_to g to_vert);
                  neighbors_to_remove = filter (\<lambda>n. degree g n = 1) froms;
                  edges_to_remove =
                    List.map_filter (\<lambda>n. edge_between g n to_vert) (filter (\<lambda>n. degree g n \<noteq> 1) froms);
                  g1 = fold remove_vertex neighbors_to_remove g
              in Some (fold (\<lambda>e g. remove_edge_from_destination_index e (remove_edge e g)) edges_to_remove g1))))"

section \<open>The search for a path\<close>

datatype path_error =
    UnknownNode string vertex_type string string
  | UnknownObject string vertex_type string string
  | NoRelationship string vertex_type string string

text \<open>The neighbours of one vertex: the answer says whether the node was found; the stack grows at its head.\<close>

fun visit_neighbors ::
  "graph_inner \<Rightarrow> nat \<Rightarrow> nat \<Rightarrow> nat list \<Rightarrow> nat set \<Rightarrow> nat list \<Rightarrow> bool \<times> nat set \<times> nat list" where
  "visit_neighbors g node_vertex t [] visited stack = (False, visited, stack)"
| "visit_neighbors g node_vertex t (n # ns) visited stack =
     (let dest = (case edge_between g t n of None \<Rightarrow> None | Some e \<Rightarrow> destination e) in
      if dest \<noteq> None \<and> dest \<noteq> Some node_vertex then visit_neighbors g node_vertex t ns visited stack
      else
        (let found = (dest \<noteq> None) in
         if n \<in> visited then
           (if found then (True, visited, stack) else visit_neighbors g node_vertex t ns visited stack)
         else if found \<or> n = node_vertex then (True, insert n visited, n # stack)
         else visit_neighbors g node_vertex t ns (insert n visited) (n # stack)))"

text \<open>A vertex enters the stack once, so the walk ends.\<close>

definition edge_targets :: "graph_inner \<Rightarrow> nat set" where
  "edge_targets g = (\<Union>n. set (neighbors_from g n))"

lemma finite_edge_targets: "finite (edge_targets g)"
proof (rule finite_subset)
  show "edge_targets g \<subseteq> to_id ` snd ` (\<Union>p\<in>set (edges g). set (snd p))"
  proof
    fix m
    assume "m \<in> edge_targets g"
    then obtain n i e where "(i, e) \<in> set (adjacent g n)" and m: "m = to_id e"
      by (auto simp: edge_targets_def neighbors_from_def)
    then obtain held where "(n, held) \<in> set (edges g)" and "(i, e) \<in> set held"
      by (cases "map_of (edges g) n") (auto simp: adjacent_def dest: map_of_SomeD)
    then have "(i, e) \<in> (\<Union>p\<in>set (edges g). set (snd p))" by force
    then show "m \<in> to_id ` snd ` (\<Union>p\<in>set (edges g). set (snd p))" unfolding m by (metis imageI snd_conv)
  qed
qed simp

lemma visit_neighbors_measure:
  assumes "visit_neighbors g v t ns visited stack = (found, visited', stack')"
    and "set ns \<subseteq> edge_targets g"
  shows "2 * card (edge_targets g - visited') + length stack' \<le> 2 * card (edge_targets g - visited) + length stack"
  using assms
proof (induction ns arbitrary: visited stack)
  case (Cons n ns)
  have *: "n \<notin> visited \<Longrightarrow> card (edge_targets g - visited) = Suc (card (edge_targets g - insert n visited))"
    using Cons.prems(2) finite_edge_targets [of g]
    by (metis Diff_iff Diff_insert card_Suc_Diff1 finite_Diff list.set_intros(1) subsetD)
  have ns: "set ns \<subseteq> edge_targets g" using Cons.prems(2) by simp
  show ?case
    using Cons.prems(1) Cons.IH [OF _ ns, of visited stack] Cons.IH [OF _ ns, of "insert n visited" "n # stack"] *
    by (auto simp: Let_def split: if_split_asm)
qed simp

function walk :: "graph_inner \<Rightarrow> nat \<Rightarrow> nat list \<Rightarrow> nat set \<Rightarrow> bool" where
  "walk g node_vertex [] visited = False"
| "walk g node_vertex (t # stack) visited =
     (case visit_neighbors g node_vertex t (neighbors_from g t) visited stack of
        (found, visited', stack') \<Rightarrow> if found then True else walk g node_vertex stack' visited')"
  by pat_completeness auto

termination
proof (relation "measure (\<lambda>(g, v, stack, visited). 2 * card (edge_targets g - visited) + length stack)", goal_cases)
  case (2 g node_vertex t stack visited found y visited' stack')
  then have "visit_neighbors g node_vertex t (neighbors_from g t) visited stack = (found, visited', stack')"
    by simp
  then have "2 * card (edge_targets g - visited') + length stack'
      \<le> 2 * card (edge_targets g - visited) + length stack"
    by (rule visit_neighbors_measure) (auto simp: edge_targets_def)
  then show ?case by simp
qed simp

definition has_path_from ::
  "string \<Rightarrow> vertex_type \<Rightarrow> string \<Rightarrow> string \<Rightarrow> graph_inner \<Rightarrow> (path_error, bool) result" where
  "has_path_from node_name starting_type starting_namespace starting_name g =
     (case get_vertex_id Node [] node_name g of
        None \<Rightarrow> Inl (UnknownNode node_name starting_type starting_namespace starting_name)
      | Some node_vertex \<Rightarrow>
          (case get_vertex_id starting_type starting_namespace starting_name g of
             None \<Rightarrow> Inl (UnknownObject node_name starting_type starting_namespace starting_name)
           | Some starting_vertex \<Rightarrow>
               (let no_relationship =
                      Inl (NoRelationship node_name starting_type starting_namespace starting_name);
                    search =
                      (if starting_vertex = node_vertex \<or> walk g node_vertex [starting_vertex] {starting_vertex}
                       then Inr True else no_relationship)
                in case destination_edge_index g starting_vertex of
                     None \<Rightarrow> search
                   | Some index \<Rightarrow>
                       if has index node_vertex then Inr True
                       else if has_authoritative_index starting_type then no_relationship
                       else search)))"

end
