(* ===== verification/GraphPopulator.thy ===== *)
theory GraphPopulator
  imports NodeGraph
begin

text \<open>
  The objects that relate a node to other objects, and the operations of \<open>NodeGraph\<close> and \<open>GraphPopulator\<close> on
  them (\<^verbatim>\<open>crates/common/src/authz/node_graph.rs\<close>). The metrics are left out. Every operation of the graph is one
  critical section of its lock; the populator's operations are called by one task per kind of object.
\<close>

section \<open>Objects\<close>

text \<open>The fields that are read. Of a source that is only tested for presence the test is kept; the driver of a CSI
  source, and the audience of a projected token, are optional strings.\<close>

record owner_reference =
  owner_api_version :: string
  owner_kind :: string
  owner_name :: string
  owner_uid :: string
  block_owner_deletion :: "bool option"
  controller :: "bool option"

record object_meta =
  meta_name :: string
  meta_namespace :: "string option"
  meta_uid :: string
  meta_annotations :: "(string \<rightharpoonup> string) option"
  owner_references :: "owner_reference list option"

record env_source =
  secret_key_ref :: "string option"
  config_map_key_ref :: "string option"

record env_from_source =
  secret_ref :: "string option"
  config_map_ref :: "string option"

record container =
  c_env :: "env_source option list option"
  c_env_from :: "env_from_source list option"

record config_map_source =
  cm_name :: "string option"

record volume_projection =
  pj_secret :: bool
  pj_config_map :: "config_map_source option"
  pj_service_account_token :: "string option option"
  pj_cluster_trust_bundle :: bool
  pj_pod_certificate :: bool

record projected_source =
  proj_sources :: "volume_projection list option"

record volume =
  vol_name :: string
  vol_claim_name :: "string option"
  vol_ephemeral :: bool
  vol_claim_template :: bool
  vol_secret :: bool
  vol_csi :: "string option"
  vol_projected :: "projected_source option"
  vol_config_map :: "config_map_source option"
  vol_value :: "json option"

record pod_resource_claim =
  prc_name :: string
  prc_claim_name :: "string option"
  prc_template_name :: "string option"

record pod_spec =
  node_name :: "string option"
  service_account_name :: "string option"
  image_pull_secrets :: "string list option"
  init_containers :: "container list option"
  containers :: "container list"
  ephemeral_containers :: "container list option"
  volumes :: "volume list option"
  resource_claims :: "pod_resource_claim list option"

record pod_status =
  claim_statuses :: "(string \<times> string option) list option"
  extended_claim_name :: "string option"

record pod =
  p_meta :: object_meta
  p_spec :: "pod_spec option"
  p_status :: "pod_status option"

record persistent_volume =
  pv_name :: string
  claim_ref :: "(string option \<times> string option) option"
  pv_spec_value :: "json option"
  pv_csi :: "string option"

record pcr =
  pcr_meta :: object_meta
  pcr_node_name :: string
  pcr_node_uid :: string
  pcr_pod_name :: string
  pcr_pod_uid :: string
  pcr_service_account_name :: string
  pcr_service_account_uid :: string

definition namespace_of :: "object_meta \<Rightarrow> string" where
  "namespace_of m = (case meta_namespace m of None \<Rightarrow> [] | Some n \<Rightarrow> n)"

text \<open>\<open>iter().flatten()\<close> on an optional vector.\<close>

definition flat :: "'a list option \<Rightarrow> 'a list" where
  "flat xs = (case xs of None \<Rightarrow> [] | Some l \<Rightarrow> l)"

abbreviation nonempty :: "string list \<Rightarrow> string list" where
  "nonempty \<equiv> filter (\<lambda>n. n \<noteq> [])"

section \<open>What a pod and a volume refer to\<close>

definition resource_claim_name :: "pod \<Rightarrow> pod_resource_claim \<Rightarrow> string option" where
  "resource_claim_name p c =
     (case prc_claim_name c of
        Some nm \<Rightarrow> Some nm
      | None \<Rightarrow>
          if prc_template_name c \<noteq> None then
            do { status \<leftarrow> p_status p;
                 (_, claim) \<leftarrow> find (\<lambda>(nm, _). nm = prc_name c) (flat (claim_statuses status));
                 claim }
          else None)"

definition visit_container_env :: "pod \<Rightarrow> container list" where
  "visit_container_env p =
     (case p_spec p of
        None \<Rightarrow> []
      | Some spec \<Rightarrow> flat (init_containers spec) @ containers spec @ flat (ephemeral_containers spec))"

fun json_at :: "json \<Rightarrow> string list \<Rightarrow> json option" where
  "json_at v [] = Some v"
| "json_at v (p # ps) = (case jget v p of None \<Rightarrow> None | Some w \<Rightarrow> json_at w ps)"

definition json_str :: "json \<Rightarrow> string list \<Rightarrow> string option" where
  "json_str v path = do { w \<leftarrow> json_at v path; as_str w }"

definition json_present :: "json \<Rightarrow> string \<Rightarrow> json option" where
  "json_present v k = (case jget v k of None \<Rightarrow> None | Some JNull \<Rightarrow> None | Some w \<Rightarrow> Some w)"

abbreviation str_or_empty :: "string option \<Rightarrow> string" where
  "str_or_empty s \<equiv> (case s of None \<Rightarrow> [] | Some x \<Rightarrow> x)"

definition value_array :: "json option \<Rightarrow> json list" where
  "value_array v = (case v of Some (JArray xs) \<Rightarrow> xs | _ \<Rightarrow> [])"

text \<open>The sources of a volume in the order of the \<open>if\<close> chain, each with what is read from it.\<close>

definition projected_secrets :: "json \<Rightarrow> string list" where
  "projected_secrets s =
     List.map_filter (\<lambda>src. map_option (\<lambda>secret. str_or_empty (json_str secret [''name''])) (json_present src ''secret''))
       (value_array (jget s ''sources''))"

definition volume_sources :: "(string \<times> (json \<Rightarrow> string list)) list" where
  "volume_sources =
     (let secret_ref = (\<lambda>s. [str_or_empty (json_str s [''secretRef'', ''name''])]);
          secret_name = (\<lambda>s. [str_or_empty (json_str s [''secretName''])])
      in [(''azureFile'', secret_name), (''cephfs'', secret_ref), (''cinder'', secret_ref),
          (''flexVolume'', secret_ref), (''projected'', projected_secrets), (''rbd'', secret_ref),
          (''secret'', secret_name), (''scaleIO'', secret_ref), (''iscsi'', secret_ref),
          (''storageos'', secret_ref),
          (''csi'', \<lambda>s. [str_or_empty (json_str s [''nodePublishSecretRef'', ''name''])])])"

fun first_source :: "(string \<times> (json \<Rightarrow> 'a list)) list \<Rightarrow> json \<Rightarrow> 'a list" where
  "first_source [] v = []"
| "first_source ((k, f) # sources) v =
     (case json_present v k of Some s \<Rightarrow> f s | None \<Rightarrow> first_source sources v)"

definition volume_secrets :: "volume \<Rightarrow> string list" where
  "volume_secrets vol = (case vol_value vol of None \<Rightarrow> [] | Some v \<Rightarrow> first_source volume_sources v)"

definition container_secrets :: "container \<Rightarrow> string list" where
  "container_secrets c =
     List.map_filter secret_ref (flat (c_env_from c)) @
     List.map_filter (\<lambda>src. Option.bind src secret_key_ref) (flat (c_env c))"

definition visit_pod_secret_names :: "pod \<Rightarrow> string list" where
  "visit_pod_secret_names p =
     (case p_spec p of
        None \<Rightarrow> []
      | Some spec \<Rightarrow>
          nonempty (flat (image_pull_secrets spec) @
            concat (map container_secrets (visit_container_env p)) @
            concat (map volume_secrets (flat (volumes spec)))))"

definition container_configmaps :: "container \<Rightarrow> string list" where
  "container_configmaps c =
     List.map_filter config_map_ref (flat (c_env_from c)) @
     List.map_filter (\<lambda>src. Option.bind src config_map_key_ref) (flat (c_env c))"

definition volume_configmaps :: "volume \<Rightarrow> string list" where
  "volume_configmaps vol =
     (case vol_projected vol of
        Some projected \<Rightarrow>
          List.map_filter (\<lambda>src. map_option (\<lambda>c. str_or_empty (cm_name c)) (pj_config_map src)) (flat (proj_sources projected))
      | None \<Rightarrow>
          (case vol_config_map vol of None \<Rightarrow> [] | Some c \<Rightarrow> [str_or_empty (cm_name c)]))"

definition visit_pod_configmap_names :: "pod \<Rightarrow> string list" where
  "visit_pod_configmap_names p =
     (case p_spec p of
        None \<Rightarrow> []
      | Some spec \<Rightarrow>
          nonempty (concat (map container_configmaps (visit_container_env p)) @
            concat (map volume_configmaps (flat (volumes spec)))))"

definition ns_defaulting_to_claim :: "string \<Rightarrow> json \<Rightarrow> string \<times> string" where
  "ns_defaulting_to_claim claim_ns s =
     ((case json_str s [''secretRef'', ''namespace''] of
         Some n \<Rightarrow> if n \<noteq> [] then n else claim_ns
       | None \<Rightarrow> claim_ns),
      str_or_empty (json_str s [''secretRef'', ''name'']))"

definition pv_sources :: "string \<Rightarrow> (string \<times> (json \<Rightarrow> (string \<times> string \<times> bool) list)) list" where
  "pv_sources claim_ns =
     (let defaulted = (\<lambda>s. if json_present s ''secretRef'' \<noteq> None
                           then (case ns_defaulting_to_claim claim_ns s of (ns, nm) \<Rightarrow> [(ns, nm, True)]) else []);
          explicit = (\<lambda>s. if json_present s ''secretRef'' \<noteq> None
                          then [(str_or_empty (json_str s [''secretRef'', ''namespace'']),
                                 str_or_empty (json_str s [''secretRef'', ''name'']), True)] else [])
      in [(''azureFile'', \<lambda>s.
             let secret_name = str_or_empty (json_str s [''secretName'']) in
             (case json_str s [''secretNamespace''] of
                Some ns \<Rightarrow> if ns \<noteq> [] then [(ns, secret_name, True)] else [(claim_ns, secret_name, True)]
              | None \<Rightarrow> [(claim_ns, secret_name, True)])),
          (''cephfs'', defaulted), (''cinder'', explicit), (''flexVolume'', defaulted), (''rbd'', defaulted),
          (''scaleIO'', defaulted), (''iscsi'', defaulted), (''storageos'', explicit),
          (''csi'', \<lambda>s.
             List.map_filter
               (\<lambda>(field, kubelet_visible).
                  map_option (\<lambda>r. (str_or_empty (json_str r [''namespace'']), str_or_empty (json_str r [''name'']),
                                   kubelet_visible)) (json_present s field))
               [(''controllerPublishSecretRef'', False), (''controllerExpandSecretRef'', False),
                (''nodePublishSecretRef'', True), (''nodeStageSecretRef'', True), (''nodeExpandSecretRef'', True)])])"

definition visit_pv_secret_names :: "persistent_volume \<Rightarrow> (string \<times> string \<times> bool) list" where
  "visit_pv_secret_names pv =
     (case pv_spec_value pv of
        None \<Rightarrow> []
      | Some spec \<Rightarrow>
          (let claim_ns = str_or_empty (do { (ns, _) \<leftarrow> claim_ref pv; ns })
           in filter (\<lambda>(_, nm, _). nm \<noteq> []) (first_source (pv_sources claim_ns) spec)))"

section \<open>Operations of the graph\<close>

text \<open>The loops of \<open>add_pod\<close>: link the named objects of one type to the pod.\<close>

fun link_all ::
  "vertex_type \<Rightarrow> string \<Rightarrow> nat \<Rightarrow> nat \<Rightarrow> string list \<Rightarrow> graph_inner \<Rightarrow> graph_inner or_panic" where
  "link_all t namespace pod_vertex node_vertex [] g = Some g"
| "link_all t namespace pod_vertex node_vertex (n # ns) g =
     do { (v, g) \<leftarrow> get_or_create_vertex t namespace n g;
          g \<leftarrow> add_edge v pod_vertex (Some node_vertex) g;
          link_all t namespace pod_vertex node_vertex ns g }"

definition volume_claim :: "pod \<Rightarrow> volume \<Rightarrow> string" where
  "volume_claim p vol =
     (case vol_claim_name vol of
        Some claim \<Rightarrow> claim
      | None \<Rightarrow> if vol_ephemeral vol then meta_name (p_meta p) @ ''-'' @ vol_name vol else [])"

definition mirror_pod_annotation_key :: string where
  "mirror_pod_annotation_key = ''kubernetes.io/config.mirror''"

definition is_mirror_pod :: "pod \<Rightarrow> bool" where
  "is_mirror_pod p \<longleftrightarrow>
     (case meta_annotations (p_meta p) of None \<Rightarrow> False | Some a \<Rightarrow> a mirror_pod_annotation_key \<noteq> None)"

definition pod_node_name :: "pod \<Rightarrow> string" where
  "pod_node_name p = str_or_empty (do { spec \<leftarrow> p_spec p; node_name spec })"

definition graph_add_pod :: "pod \<Rightarrow> graph_inner \<Rightarrow> graph_inner or_panic" where
  "graph_add_pod p g =
     (let namespace = namespace_of (p_meta p);
          nm = meta_name (p_meta p);
          g = delete_vertex Pod namespace nm g
      in do {
        (pod_vertex, g) \<leftarrow> get_or_create_vertex Pod namespace nm g;
        (node_vertex, g) \<leftarrow> get_or_create_vertex Node [] (pod_node_name p) g;
        g \<leftarrow> add_edge pod_vertex node_vertex (Some node_vertex) g;
        if is_mirror_pod p then Some g
        else
          (case p_spec p of
             None \<Rightarrow> Some g
           | Some spec \<Rightarrow> do {
               g \<leftarrow> link_all ServiceAccount namespace pod_vertex node_vertex
                      (nonempty (case service_account_name spec of None \<Rightarrow> [] | Some sa \<Rightarrow> [sa])) g;
               g \<leftarrow> link_all Secret namespace pod_vertex node_vertex (visit_pod_secret_names p) g;
               g \<leftarrow> link_all ConfigMap namespace pod_vertex node_vertex (visit_pod_configmap_names p) g;
               g \<leftarrow> link_all Pvc namespace pod_vertex node_vertex
                      (nonempty (map (volume_claim p) (flat (volumes spec)))) g;
               g \<leftarrow> link_all ResourceClaim namespace pod_vertex node_vertex
                      (List.map_filter (resource_claim_name p) (flat (resource_claims spec))) g;
               link_all ResourceClaim namespace pod_vertex node_vertex
                 (nonempty (case Option.bind (p_status p) extended_claim_name of None \<Rightarrow> [] | Some c \<Rightarrow> [c])) g }) })"

definition graph_delete_pod :: "string \<Rightarrow> string \<Rightarrow> graph_inner \<Rightarrow> graph_inner" where
  "graph_delete_pod nm namespace g = delete_vertex Pod namespace nm g"

text \<open>An object bound to a node and to nothing else.\<close>

definition link_to_node :: "vertex_type \<Rightarrow> string \<Rightarrow> string \<Rightarrow> string \<Rightarrow> graph_inner \<Rightarrow> graph_inner or_panic" where
  "link_to_node t namespace nm node g =
     do { (v, g) \<leftarrow> get_or_create_vertex t namespace nm g;
          (node_vertex, g) \<leftarrow> get_or_create_vertex Node [] node g;
          add_edge v node_vertex (Some node_vertex) g }"

definition add_pod_certificate_request :: "pcr \<Rightarrow> graph_inner \<Rightarrow> graph_inner or_panic" where
  "add_pod_certificate_request r g =
     (let namespace = namespace_of (pcr_meta r); nm = meta_name (pcr_meta r)
      in link_to_node Pcr namespace nm (pcr_node_name r) (delete_vertex Pcr namespace nm g))"

definition graph_delete_pcr_by_key :: "string \<Rightarrow> string \<Rightarrow> graph_inner \<Rightarrow> graph_inner" where
  "graph_delete_pcr_by_key namespace nm g = delete_vertex Pcr namespace nm g"

definition delete_pod_certificate_request :: "pcr \<Rightarrow> graph_inner \<Rightarrow> graph_inner" where
  "delete_pod_certificate_request r g =
     graph_delete_pcr_by_key (namespace_of (pcr_meta r)) (meta_name (pcr_meta r)) g"

fun link_secrets :: "nat \<Rightarrow> (string \<times> string \<times> bool) list \<Rightarrow> graph_inner \<Rightarrow> graph_inner or_panic" where
  "link_secrets pv_vertex [] g = Some g"
| "link_secrets pv_vertex ((namespace, secret, kubelet_visible) # secrets) g =
     (if kubelet_visible then
        do { (secret_vertex, g) \<leftarrow> get_or_create_vertex Secret namespace secret g;
             g \<leftarrow> add_edge secret_vertex pv_vertex None g;
             link_secrets pv_vertex secrets g }
      else link_secrets pv_vertex secrets g)"

definition graph_add_pv :: "persistent_volume \<Rightarrow> graph_inner \<Rightarrow> graph_inner or_panic" where
  "graph_add_pv pv g =
     (let g = delete_vertex Pv [] (pv_name pv) g in
      case claim_ref pv of
        None \<Rightarrow> Some g
      | Some (claim_namespace, claim_name) \<Rightarrow> do {
          (pv_vertex, g) \<leftarrow> get_or_create_vertex Pv [] (pv_name pv) g;
          (pvc_vertex, g) \<leftarrow> get_or_create_vertex Pvc (str_or_empty claim_namespace) (str_or_empty claim_name) g;
          g \<leftarrow> add_edge pv_vertex pvc_vertex None g;
          link_secrets pv_vertex (visit_pv_secret_names pv) g })"

definition graph_delete_pv :: "string \<Rightarrow> graph_inner \<Rightarrow> graph_inner" where
  "graph_delete_pv nm g = delete_vertex Pv [] nm g"

definition add_volume_attachment :: "string \<Rightarrow> string \<Rightarrow> graph_inner \<Rightarrow> graph_inner or_panic" where
  "add_volume_attachment attachment_name node g =
     (let g = delete_vertex Va [] attachment_name g in
      if node \<noteq> [] then link_to_node Va [] attachment_name node g else Some g)"

definition graph_delete_volume_attachment :: "string \<Rightarrow> graph_inner \<Rightarrow> graph_inner" where
  "graph_delete_volume_attachment nm g = delete_vertex Va [] nm g"

definition add_resource_slice :: "string \<Rightarrow> string \<Rightarrow> graph_inner \<Rightarrow> graph_inner or_panic" where
  "add_resource_slice slice_name node g =
     (let g = delete_vertex Slice [] slice_name g in
      if node \<noteq> [] then link_to_node Slice [] slice_name node g else Some g)"

definition delete_resource_slice :: "string \<Rightarrow> graph_inner \<Rightarrow> graph_inner" where
  "delete_resource_slice slice_name g = delete_vertex Slice [] slice_name g"

section \<open>The populator\<close>

record pod_fingerprint =
  fp_node_name :: string
  fp_uid :: string
  fp_ephemeral_containers :: nat
  fp_claim_statuses :: "(string \<times> string option) list"

definition fingerprint_of :: "pod \<Rightarrow> pod_fingerprint" where
  "fingerprint_of p =
     \<lparr>fp_node_name = pod_node_name p,
      fp_uid = meta_uid (p_meta p),
      fp_ephemeral_containers =
        (case Option.bind (p_spec p) ephemeral_containers of None \<Rightarrow> 0 | Some cs \<Rightarrow> length cs),
      fp_claim_statuses = flat (Option.bind (p_status p) claim_statuses)\<rparr>"

definition unchanged_from :: "pod_fingerprint \<Rightarrow> pod_fingerprint \<Rightarrow> bool" where
  "unchanged_from new old \<longleftrightarrow>
     fp_node_name new = fp_node_name old \<and> fp_uid new = fp_uid old \<and>
     \<not> fp_ephemeral_containers new > fp_ephemeral_containers old \<and>
     fp_claim_statuses new = fp_claim_statuses old"

record graph_populator =
  pop_graph :: graph_inner
  pop_pods :: "string \<times> string \<rightharpoonup> pod_fingerprint"
  pop_attachments :: "string \<rightharpoonup> string"

definition new_populator :: "graph_inner \<Rightarrow> graph_populator" where
  "new_populator g = \<lparr>pop_graph = g, pop_pods = Map.empty, pop_attachments = Map.empty\<rparr>"

definition on_graph ::
  "(graph_inner \<Rightarrow> graph_inner or_panic) \<Rightarrow> graph_populator \<Rightarrow> graph_populator or_panic" where
  "on_graph f s = do { g \<leftarrow> f (pop_graph s); Some (s\<lparr>pop_graph := g\<rparr>) }"

definition update_pod :: "pod option \<Rightarrow> pod \<Rightarrow> graph_populator \<Rightarrow> graph_populator or_panic" where
  "update_pod old p s =
     (if pod_node_name p = [] then Some s
      else if (case old of None \<Rightarrow> False | Some q \<Rightarrow> unchanged_from (fingerprint_of p) (fingerprint_of q)) then Some s
      else on_graph (graph_add_pod p) s)"

definition pop_add_pod :: "pod \<Rightarrow> graph_populator \<Rightarrow> graph_populator or_panic" where
  "pop_add_pod p s = update_pod None p s"

definition apply_pod :: "pod \<Rightarrow> graph_populator \<Rightarrow> graph_populator or_panic" where
  "apply_pod p s =
     (if pod_node_name p = [] then Some s
      else
        (let key = (namespace_of (p_meta p), meta_name (p_meta p)); fingerprint = fingerprint_of p in
         if (case pop_pods s key of None \<Rightarrow> False | Some old \<Rightarrow> unchanged_from fingerprint old) then Some s
         else on_graph (graph_add_pod p) (s\<lparr>pop_pods := (pop_pods s)(key \<mapsto> fingerprint)\<rparr>)))"

definition delete_pod_by_key :: "string \<Rightarrow> string \<Rightarrow> graph_populator \<Rightarrow> graph_populator" where
  "delete_pod_by_key namespace nm s =
     s\<lparr>pop_pods := (pop_pods s)((namespace, nm) := None), pop_graph := graph_delete_pod nm namespace (pop_graph s)\<rparr>"

definition pop_delete_pod :: "pod \<Rightarrow> graph_populator \<Rightarrow> graph_populator" where
  "pop_delete_pod p s =
     (if pod_node_name p = [] then s
      else
        s\<lparr>pop_pods := (pop_pods s)((namespace_of (p_meta p), meta_name (p_meta p)) := None),
          pop_graph := graph_delete_pod (meta_name (p_meta p)) (namespace_of (p_meta p)) (pop_graph s)\<rparr>)"

definition pop_delete_pcr_by_key :: "string \<Rightarrow> string \<Rightarrow> graph_populator \<Rightarrow> graph_populator" where
  "pop_delete_pcr_by_key namespace nm s = s\<lparr>pop_graph := graph_delete_pcr_by_key namespace nm (pop_graph s)\<rparr>"

definition pop_add_pv :: "persistent_volume \<Rightarrow> graph_populator \<Rightarrow> graph_populator or_panic" where
  "pop_add_pv pv s = on_graph (graph_add_pv pv) s"

definition pop_delete_pv :: "persistent_volume \<Rightarrow> graph_populator \<Rightarrow> graph_populator" where
  "pop_delete_pv pv s = s\<lparr>pop_graph := graph_delete_pv (pv_name pv) (pop_graph s)\<rparr>"

definition update_volume_attachment ::
  "string option \<Rightarrow> string \<Rightarrow> string \<Rightarrow> graph_populator \<Rightarrow> graph_populator or_panic" where
  "update_volume_attachment old_node_name nm node s =
     (if old_node_name = Some node then Some s else on_graph (add_volume_attachment nm node) s)"

definition apply_volume_attachment :: "string \<Rightarrow> string \<Rightarrow> graph_populator \<Rightarrow> graph_populator or_panic" where
  "apply_volume_attachment nm node s =
     (if pop_attachments s nm = Some node then Some s
      else on_graph (add_volume_attachment nm node) (s\<lparr>pop_attachments := (pop_attachments s)(nm \<mapsto> node)\<rparr>))"

definition delete_volume_attachment :: "string \<Rightarrow> graph_populator \<Rightarrow> graph_populator" where
  "delete_volume_attachment nm s =
     s\<lparr>pop_attachments := (pop_attachments s)(nm := None),
       pop_graph := graph_delete_volume_attachment nm (pop_graph s)\<rparr>"

text \<open>A resource slice is its name and the node it names.\<close>

definition pop_add_resource_slice :: "string \<Rightarrow> string option \<Rightarrow> graph_populator \<Rightarrow> graph_populator or_panic" where
  "pop_add_resource_slice nm node s = on_graph (add_resource_slice nm (str_or_empty node)) s"

definition pop_delete_resource_slice :: "string \<Rightarrow> graph_populator \<Rightarrow> graph_populator" where
  "pop_delete_resource_slice nm s = s\<lparr>pop_graph := delete_resource_slice nm (pop_graph s)\<rparr>"

definition add_pcr :: "pcr \<Rightarrow> graph_populator \<Rightarrow> graph_populator or_panic" where
  "add_pcr r s = on_graph (add_pod_certificate_request r) s"

definition delete_pcr :: "pcr \<Rightarrow> graph_populator \<Rightarrow> graph_populator" where
  "delete_pcr r s = s\<lparr>pop_graph := delete_pod_certificate_request r (pop_graph s)\<rparr>"

text \<open>What decides whether an update is skipped does not contain the claim for extended resources: a pod whose
  claim is recorded in its status after the pod was bound is skipped, and its claim never enters the graph.\<close>

lemma extended_claim_not_seen:
  assumes "apply_pod p s = Some s'" and "p_status p = None \<or> flat (Option.bind (p_status p) claim_statuses) = []"
  shows "apply_pod (p\<lparr>p_status := Some \<lparr>claim_statuses = None, extended_claim_name = Some claim\<rparr>\<rparr>) s' = Some s'"
proof -
  let ?p = "p\<lparr>p_status := Some \<lparr>claim_statuses = None, extended_claim_name = Some claim\<rparr>\<rparr>"
  have fp: "fingerprint_of ?p = fingerprint_of p" using assms(2) by (auto simp: fingerprint_of_def pod_node_name_def flat_def)
  have nn: "pod_node_name ?p = pod_node_name p" by (simp add: pod_node_name_def)
  have "pop_pods s' (namespace_of (p_meta p), meta_name (p_meta p)) = Some fp' \<longrightarrow> unchanged_from (fingerprint_of p) fp'"
    if "pod_node_name p \<noteq> []" for fp'
    using assms(1) that
    by (auto simp: apply_pod_def Let_def on_graph_def unchanged_from_def split: if_splits option.splits bind_splits)
  moreover have "pop_pods s' (namespace_of (p_meta p), meta_name (p_meta p)) \<noteq> None" if "pod_node_name p \<noteq> []"
    using assms(1) that
    by (auto simp: apply_pod_def Let_def on_graph_def split: if_splits option.splits bind_splits)
  ultimately show ?thesis using nn fp by (auto simp: apply_pod_def Let_def)
qed

end
