(* ===== verification/NodeGraphInvariants.thy ===== *)
theory NodeGraphInvariants
  imports GraphPopulator
begin

text \<open>
  What the operations of the node graph do to its vertices, edges and destination index, and the shape every
  state of the graph has: identifiers are unique and free ones unused, an edge is stored under both its ends,
  the index of names and the vertices are inverse to each other, and every reference count covers the edges it
  counts.
\<close>

section \<open>Views\<close>

abbreviation vert :: "graph_inner \<Rightarrow> nat \<rightharpoonup> named_vertex" where
  "vert g \<equiv> map_of (nodes g)"

type_synonym vkey = "vertex_type \<times> string \<times> string"

definition vkey :: "named_vertex \<Rightarrow> vkey" where
  "vkey v = (v_type v, v_namespace v, v_name v)"

definition graph_shape :: "graph_inner \<Rightarrow> bool" where
  "graph_shape g \<longleftrightarrow>
     used_ids g = dom (vert g) \<and> free_ids g \<inter> dom (vert g) = {} \<and> finite (free_ids g) \<and>
     dom (map_of (edges g)) = dom (vert g) \<and>
     (\<forall>n. distinct (map fst (adjacent g n))) \<and>
     (\<forall>a b e. edge_between g a b = Some e \<longrightarrow>
        edge_between g b a = Some e \<and> a \<noteq> b \<and> (from_id e = a \<and> to_id e = b \<or> from_id e = b \<and> to_id e = a)) \<and>
     (\<forall>i v. vert g i = Some v \<longrightarrow> v_id v = i) \<and>
     (\<forall>t ns nm i. lookup_vertex t ns nm g = Some i \<longleftrightarrow> (\<exists>v. vert g i = Some v \<and> vkey v = (t, ns, nm))) \<and>
     (\<forall>n. destination_edge_index g n \<noteq> None \<longrightarrow> n \<in> dom (vert g))"

lemma shape_new_graph: "graph_shape (new_graph\<lparr>destination_edge_threshold := h\<rparr>)"
  by (simp add: graph_shape_def new_graph_def adjacent_def edge_between_def lookup_vertex_def)

lemma edge_between_edges: "edge_between (g\<lparr>edges := es\<rparr>) a b = map_of (case map_of es a of None \<Rightarrow> [] | Some m \<Rightarrow> m) b"
  by (simp add: edge_between_def adjacent_def)

lemma adjacent_cong: "edges g = edges g' \<Longrightarrow> adjacent g = adjacent g'"
  by (rule ext) (simp add: adjacent_def)

lemma edge_between_cong: "edges g = edges g' \<Longrightarrow> edge_between g = edge_between g'"
  by (drule adjacent_cong) (intro ext, simp add: edge_between_def)

lemma lookup_vertex_cong: "vertices g = vertices g' \<Longrightarrow> lookup_vertex t ns nm g = lookup_vertex t ns nm g'"
  by (simp add: lookup_vertex_def)

lemma adjacent_simps [simp]:
  "adjacent (g\<lparr>nodes := a\<rparr>) = adjacent g" "adjacent (g\<lparr>free_ids := b\<rparr>) = adjacent g"
  "adjacent (g\<lparr>used_ids := c\<rparr>) = adjacent g" "adjacent (g\<lparr>vertices := d\<rparr>) = adjacent g"
  "adjacent (g\<lparr>destination_edge_index := i\<rparr>) = adjacent g"
  by (auto intro!: adjacent_cong)

lemma edge_between_simps [simp]:
  "edge_between (g\<lparr>nodes := a\<rparr>) = edge_between g" "edge_between (g\<lparr>free_ids := b\<rparr>) = edge_between g"
  "edge_between (g\<lparr>used_ids := c\<rparr>) = edge_between g" "edge_between (g\<lparr>vertices := d\<rparr>) = edge_between g"
  "edge_between (g\<lparr>destination_edge_index := i\<rparr>) = edge_between g"
  by (auto intro!: edge_between_cong)

lemma lookup_vertex_simps [simp]:
  "lookup_vertex t ns nm (g\<lparr>nodes := a\<rparr>) = lookup_vertex t ns nm g"
  "lookup_vertex t ns nm (g\<lparr>free_ids := b\<rparr>) = lookup_vertex t ns nm g"
  "lookup_vertex t ns nm (g\<lparr>used_ids := c\<rparr>) = lookup_vertex t ns nm g"
  "lookup_vertex t ns nm (g\<lparr>edges := d\<rparr>) = lookup_vertex t ns nm g"
  "lookup_vertex t ns nm (g\<lparr>destination_edge_index := i\<rparr>) = lookup_vertex t ns nm g"
  by (simp_all add: lookup_vertex_def)

lemma shape_symmetric:
  assumes "graph_shape g" and "edge_between g a b = Some e"
  shows "edge_between g b a = Some e" and "a \<noteq> b"
    and "from_id e = a \<and> to_id e = b \<or> from_id e = b \<and> to_id e = a"
  using assms unfolding graph_shape_def by blast+

lemma edge_between_sym:
  assumes g: "graph_shape g"
  shows "edge_between g b a = edge_between g a b"
proof (cases "edge_between g a b")
  case None then show ?thesis using shape_symmetric(1) [OF g, of b a] by (cases "edge_between g b a") simp_all
next
  case (Some e) then show ?thesis using shape_symmetric(1) [OF g, of a b] by simp
qed

lemma shape_basics:
  assumes "graph_shape g"
  shows "used_ids g = dom (vert g)" and "free_ids g \<inter> dom (vert g) = {}" and "finite (free_ids g)"
    and "dom (map_of (edges g)) = dom (vert g)" and "vert g i = Some v \<Longrightarrow> v_id v = i"
    and "destination_edge_index g n = Some s \<Longrightarrow> \<exists>v. vert g n = Some v"
  using assms unfolding graph_shape_def by (blast, blast, blast, blast, blast, blast)

lemma shape_distinct: "graph_shape g \<Longrightarrow> distinct (map fst (adjacent g n))"
  unfolding graph_shape_def by blast

lemma shape_ends_live:
  assumes "graph_shape g" and "edge_between g a b = Some e"
  shows "a \<in> dom (vert g)" and "b \<in> dom (vert g)"
proof -
  have live: "x \<in> dom (vert g)" if "edge_between g x y = Some e" for x y
  proof -
    have "map_of (edges g) x \<noteq> None"
      using that by (auto simp: edge_between_def adjacent_def split: option.splits)
    then show ?thesis using assms(1) unfolding graph_shape_def by blast
  qed
  show "a \<in> dom (vert g)" using live assms(2) .
  show "b \<in> dom (vert g)" using live shape_symmetric(1) [OF assms] .
qed

lemma shape_vertex_id: "graph_shape g \<Longrightarrow> get_vertex_id t ns nm g = lookup_vertex t ns nm g"
proof -
  assume g: "graph_shape g"
  show ?thesis
  proof (cases "lookup_vertex t ns nm g")
    case (Some i)
    then obtain v where "vert g i = Some v" using g unfolding graph_shape_def by blast
    moreover then have "v_id v = i" using g unfolding graph_shape_def by blast
    ultimately show ?thesis using Some by (simp add: get_vertex_id_def get_vertex_def)
  qed (simp add: get_vertex_id_def get_vertex_def)
qed

lemma shape_lookup:
  "graph_shape g \<Longrightarrow> get_vertex_id t ns nm g = Some i \<longleftrightarrow> (\<exists>v. vert g i = Some v \<and> vkey v = (t, ns, nm))"
  unfolding shape_vertex_id by (simp add: graph_shape_def)

lemma vkey_inj:
  assumes "graph_shape g" and "vert g i = Some v" and "vert g j = Some w" and "vkey v = vkey w"
  shows "i = j"
proof -
  obtain t ns nm where k: "vkey v = (t, ns, nm)" by (cases "vkey v")
  then have "lookup_vertex t ns nm g = Some i" "lookup_vertex t ns nm g = Some j"
    using assms unfolding graph_shape_def by metis+
  then show ?thesis by simp
qed

section \<open>Degrees and counts\<close>

definition neighbours :: "graph_inner \<Rightarrow> nat \<Rightarrow> nat set" where
  "neighbours g n = {m. edge_between g n m \<noteq> None}"

definition out_edges :: "graph_inner \<Rightarrow> nat \<Rightarrow> nat option \<Rightarrow> nat set" where
  "out_edges g n d = {m. \<exists>e. edge_between g n m = Some e \<and> from_id e = n \<and> destination e = d}"

lemma finite_neighbours [simp]: "finite (neighbours g n)"
  using finite_dom_map_of [of "adjacent g n"] by (simp add: neighbours_def edge_between_def dom_def)

lemma finite_out_edges [simp]: "finite (out_edges g n d)"
  by (rule finite_subset [OF _ finite_neighbours [of g n]]) (auto simp: out_edges_def neighbours_def)

lemma degree_card: "graph_shape g \<Longrightarrow> degree g n = card (neighbours g n)"
proof -
  assume "graph_shape g"
  then have "distinct (map fst (adjacent g n))" unfolding graph_shape_def by blast
  moreover have "neighbours g n = set (map fst (adjacent g n))"
    by (auto simp: neighbours_def edge_between_def map_of_eq_None_iff image_iff)
  ultimately show ?thesis by (metis degree_def distinct_card length_map)
qed

lemma in_adjacent: "graph_shape g \<Longrightarrow> (m, e) \<in> set (adjacent g n) \<longleftrightarrow> edge_between g n m = Some e"
  unfolding edge_between_def graph_shape_def by (metis map_of_eq_Some_iff)

lemma edge_ends:
  assumes "graph_shape g" and "edge_between g n m = Some e"
  shows "from_id e = n \<longleftrightarrow> to_id e = m" and "to_id e = n \<longleftrightarrow> from_id e = m"
  using shape_symmetric(2,3) [OF assms] by auto

lemma neighbors_keys:
  assumes g: "graph_shape g"
  shows "neighbors_from g n = map fst (filter (\<lambda>p. from_id (snd p) = n) (adjacent g n))"
    and "neighbors_to g n = map fst (filter (\<lambda>p. to_id (snd p) = n) (adjacent g n))"
proof -
  have *: "from_id (snd p) = n \<longleftrightarrow> to_id (snd p) = fst p" "to_id (snd p) = n \<longleftrightarrow> from_id (snd p) = fst p"
    if "p \<in> set (adjacent g n)" for p
    using edge_ends [OF g, of n "fst p" "snd p"] in_adjacent [OF g, of "fst p" "snd p" n] that by simp_all
  show "neighbors_from g n = map fst (filter (\<lambda>p. from_id (snd p) = n) (adjacent g n))"
    unfolding neighbors_from_def filter_map map_map by (rule map_cong) (use * in \<open>auto simp: o_def\<close>)
  show "neighbors_to g n = map fst (filter (\<lambda>p. to_id (snd p) = n) (adjacent g n))"
    unfolding neighbors_to_def filter_map map_map by (rule map_cong) (use * in \<open>auto simp: o_def\<close>)
qed

lemma set_neighbors_from:
  "graph_shape g \<Longrightarrow> set (neighbors_from g n) = {m. \<exists>e. edge_between g n m = Some e \<and> from_id e = n}"
  by (force simp: neighbors_keys(1) simp flip: in_adjacent)

lemma set_neighbors_to:
  "graph_shape g \<Longrightarrow> set (neighbors_to g n) = {m. \<exists>e. edge_between g n m = Some e \<and> to_id e = n}"
  by (force simp: neighbors_keys(2) simp flip: in_adjacent)

lemma distinct_neighbors:
  assumes "graph_shape g"
  shows "distinct (neighbors_from g n)" and "distinct (neighbors_to g n)"
proof -
  have "distinct (map fst (adjacent g n))" using assms unfolding graph_shape_def by blast
  then show "distinct (neighbors_from g n)" "distinct (neighbors_to g n)"
    by (simp_all add: neighbors_keys [OF assms] distinct_map_filter)
qed

section \<open>Removing a vertex\<close>

lemma drop_held_fields [simp]:
  "nodes (drop_held i n g) = nodes g" "free_ids (drop_held i n g) = free_ids g"
  "used_ids (drop_held i n g) = used_ids g" "vertices (drop_held i n g) = vertices g"
  "destination_edge_index (drop_held i n g) = destination_edge_index g"
  "destination_edge_threshold (drop_held i n g) = destination_edge_threshold g"
  by (simp_all add: drop_held_def split: option.splits)

lemma edge_between_drop_held [simp]:
  "edge_between (drop_held i n g) a b = (if a = n \<and> b = i then None else edge_between g a b)"
  by (cases "map_of (edges g) n")
    (auto simp: drop_held_def edge_between_def adjacent_def AList.update_conv' AList.delete_conv')

lemma dom_edges_drop_held [simp]: "dom (map_of (edges (drop_held i n g))) = dom (map_of (edges g))"
  by (auto simp: drop_held_def AList.update_conv' split: option.splits)

lemma distinct_drop_held:
  assumes d: "\<And>m. distinct (map fst (adjacent g m))"
  shows "distinct (map fst (adjacent (drop_held i n g) m))"
proof -
  have "adjacent (drop_held i n g) m = (if m = n then AList.delete i (adjacent g n) else adjacent g m)"
    by (cases "map_of (edges g) n") (simp_all add: drop_held_def adjacent_def AList.update_conv')
  then show ?thesis using d AList.distinct_delete [OF d [of n]] by simp
qed

lemma fold_drop_held_fields [simp]:
  "nodes (fold (drop_held i) ks g) = nodes g" "free_ids (fold (drop_held i) ks g) = free_ids g"
  "used_ids (fold (drop_held i) ks g) = used_ids g" "vertices (fold (drop_held i) ks g) = vertices g"
  "destination_edge_index (fold (drop_held i) ks g) = destination_edge_index g"
  "destination_edge_threshold (fold (drop_held i) ks g) = destination_edge_threshold g"
  by (induction ks arbitrary: g) auto

lemma fold_drop_held_edges [simp]:
  "edge_between (fold (drop_held i) ks g) a b = (if a \<in> set ks \<and> b = i then None else edge_between g a b)"
  "dom (map_of (edges (fold (drop_held i) ks g))) = dom (map_of (edges g))"
  by (induction ks arbitrary: g) auto

lemma distinct_fold_drop_held:
  "(\<And>m. distinct (map fst (adjacent g m))) \<Longrightarrow> distinct (map fst (adjacent (fold (drop_held i) ks g) m))"
  by (induction ks arbitrary: g) (auto intro: distinct_drop_held)

lemma remove_node_fields [simp]:
  "nodes (remove_node i g) = AList.delete i (nodes g) \<or> nodes (remove_node i g) = nodes g"
  "vertices (remove_node i g) = vertices g"
  "destination_edge_index (remove_node i g) = destination_edge_index g"
  "destination_edge_threshold (remove_node i g) = destination_edge_threshold g"
  by (auto simp: remove_node_def Let_def split: option.splits)

lemma remove_node_live:
  assumes "vert g i = Some v"
  shows "vert (remove_node i g) = (vert g)(i := None)"
    and "free_ids (remove_node i g) = insert i (free_ids g)"
    and "used_ids (remove_node i g) = used_ids g - {i}"
  using assms by (auto simp: remove_node_def Let_def AList.delete_conv' split: option.splits)

lemma remove_node_edges:
  assumes g: "graph_shape g" and i: "vert g i = Some v"
  shows "edge_between (remove_node i g) a b = (if a = i \<or> b = i then None else edge_between g a b)"
    and "dom (map_of (edges (remove_node i g))) = dom (map_of (edges g)) - {i}"
    and "distinct (map fst (adjacent (remove_node i g) n))"
proof -
  obtain held where held: "map_of (edges g) i = Some held"
    using g i unfolding graph_shape_def by (metis domIff option.exhaust option.distinct(1))
  let ?es = "g\<lparr>nodes := AList.delete i (nodes g), edges := AList.delete i (edges g)\<rparr>"
  have r: "remove_node i g =
      (fold (drop_held i) (map fst held) ?es)
        \<lparr>free_ids := insert i (free_ids g), used_ids := used_ids g - {i}\<rparr>"
    using i held by (simp add: remove_node_def)
  have es: "edge_between ?es x y = (if x = i then None else edge_between g x y)" for x y
    by (simp add: edge_between_edges edge_between_def adjacent_def AList.delete_conv')
  have "edge_between g x i = None" if "x \<notin> fst ` set held" for x
  proof (rule ccontr)
    assume "edge_between g x i \<noteq> None"
    then obtain e where "edge_between g x i = Some e" by blast
    then have "edge_between g i x = Some e" using shape_symmetric(1) g by blast
    then have "map_of held x = Some e" using held by (simp add: edge_between_def adjacent_def)
    then show False using that by (metis domI dom_map_of_conv_image_fst)
  qed
  then show "edge_between (remove_node i g) a b = (if a = i \<or> b = i then None else edge_between g a b)"
    unfolding r by (auto simp: es image_iff)
  show "dom (map_of (edges (remove_node i g))) = dom (map_of (edges g)) - {i}"
    unfolding r by (auto simp: AList.delete_conv' split: if_splits)
  have d: "distinct (map fst (adjacent g m))" for m using g unfolding graph_shape_def by blast
  have "distinct (map fst (adjacent ?es m))" for m
    using d [of m] by (simp add: adjacent_def AList.delete_conv')
  then show "distinct (map fst (adjacent (remove_node i g) n))"
    unfolding r by (auto intro: distinct_fold_drop_held)
qed

text \<open>What \<open>remove_vertex\<close> does, in the views.\<close>

lemma remove_vertex_dead: "vert g i = None \<Longrightarrow> remove_vertex i g = g"
  by (simp add: remove_vertex_def)

lemma remove_vertex_live:
  assumes g: "graph_shape g" and i: "vert g i = Some v"
  shows "vert (remove_vertex i g) = (vert g)(i := None)"
    and "edge_between (remove_vertex i g) a b = (if a = i \<or> b = i then None else edge_between g a b)"
    and "destination_edge_index (remove_vertex i g) = (destination_edge_index g)(i := None)"
    and "destination_edge_threshold (remove_vertex i g) = destination_edge_threshold g"
    and "lookup_vertex t ns nm (remove_vertex i g) =
           (if vkey v = (t, ns, nm) then None else lookup_vertex t ns nm g)"
proof -
  let ?g1 = "(remove_node i g)\<lparr>destination_edge_index := (destination_edge_index g)(i := None)\<rparr>"
  have "lookup_vertex (v_type v) (v_namespace v) (v_name v) g = Some i"
    using g i unfolding graph_shape_def by (auto simp: vkey_def)
  then obtain bns bn where bns: "vertices g (v_type v) = Some bns" and bn: "bns (v_namespace v) = Some bn"
    by (auto simp: lookup_vertex_def bind_eq_Some_conv)
  have r: "remove_vertex i g = ?g1\<lparr>vertices := (vertices g)(v_type v \<mapsto>
      bns(v_namespace v := if AList.delete (v_name v) bn = [] then None else Some (AList.delete (v_name v) bn)))\<rparr>"
    using i bns bn by (simp add: remove_vertex_def)
  show "vert (remove_vertex i g) = (vert g)(i := None)" unfolding r by (simp add: remove_node_live [OF i])
  show "edge_between (remove_vertex i g) a b = (if a = i \<or> b = i then None else edge_between g a b)"
    unfolding r by (simp add: remove_node_edges [OF g i])
  show "destination_edge_index (remove_vertex i g) = (destination_edge_index g)(i := None)" unfolding r by simp
  show "destination_edge_threshold (remove_vertex i g) = destination_edge_threshold g" unfolding r by simp
  have "map_of (AList.delete (v_name v) bn) x = (if x = v_name v then None else map_of bn x)" for x
    by (simp add: AList.delete_conv')
  moreover have "x \<noteq> v_name v \<Longrightarrow> AList.delete (v_name v) bn = [] \<Longrightarrow> map_of bn x = None" for x
    using calculation [of x] by simp
  ultimately show "lookup_vertex t ns nm (remove_vertex i g) =
      (if vkey v = (t, ns, nm) then None else lookup_vertex t ns nm g)"
    unfolding r by (auto simp: lookup_vertex_def vkey_def bns bn)
qed

lemma remove_vertex_shape:
  assumes g: "graph_shape g"
  shows "graph_shape (remove_vertex i g)"
proof (cases "vert g i")
  case None then show ?thesis using g by (simp add: remove_vertex_dead)
next
  case (Some v)
  let ?g = "remove_vertex i g"
  note eff = remove_vertex_live [OF g Some]
  have sets: "free_ids ?g = insert i (free_ids g)" "used_ids ?g = used_ids g - {i}"
    "dom (map_of (edges ?g)) = dom (map_of (edges g)) - {i}" "adjacent ?g = adjacent (remove_node i g)"
    using Some remove_node_edges(2) [OF g Some]
    by (auto simp: remove_vertex_def Let_def remove_node_live [OF Some] split: option.splits)
  have "lookup_vertex t ns nm ?g = Some j \<longleftrightarrow> (\<exists>w. vert ?g j = Some w \<and> vkey w = (t, ns, nm))" for t ns nm j
  proof -
    have "lookup_vertex t ns nm g = Some j \<longleftrightarrow> (\<exists>w. vert g j = Some w \<and> vkey w = (t, ns, nm))"
      using g unfolding graph_shape_def by blast
    moreover have "(\<exists>w. vert ?g j = Some w \<and> vkey w = (t, ns, nm)) \<longleftrightarrow>
        vkey v \<noteq> (t, ns, nm) \<and> (\<exists>w. vert g j = Some w \<and> vkey w = (t, ns, nm))"
      unfolding eff(1) using Some vkey_inj [OF g Some, of j] by (cases "j = i") auto
    ultimately show ?thesis unfolding eff(5) by simp
  qed
  moreover have "edge_between ?g b a = Some e \<and> a \<noteq> b \<and>
      (from_id e = a \<and> to_id e = b \<or> from_id e = b \<and> to_id e = a)"
    if "edge_between ?g a b = Some e" for a b e
    using that shape_symmetric [OF g, of a b e] by (auto simp: eff split: if_splits)
  moreover have "distinct (map fst (adjacent ?g n))" for n
    unfolding sets by (rule remove_node_edges [OF g Some])
  moreover have "used_ids ?g = dom (vert ?g)" "free_ids ?g \<inter> dom (vert ?g) = {}" "finite (free_ids ?g)"
    "dom (map_of (edges ?g)) = dom (vert ?g)"
    using shape_basics(1-4) [OF g] unfolding sets eff by auto
  moreover have "vert ?g j = Some w \<Longrightarrow> v_id w = j" for j w
    using shape_basics(5) [OF g] unfolding eff by (auto split: if_splits)
  moreover have "destination_edge_index ?g n \<noteq> None \<Longrightarrow> n \<in> dom (vert ?g)" for n
    using shape_basics(6) [OF g, of n] unfolding eff by (auto split: if_splits)
  ultimately show ?thesis unfolding graph_shape_def by blast
qed

lemma remove_vertex_views:
  assumes g: "graph_shape g"
  shows "vert (remove_vertex i g) = (vert g)(i := None)"
    and "edge_between (remove_vertex i g) a b = (if a = i \<or> b = i then None else edge_between g a b)"
    and "destination_edge_index (remove_vertex i g) = (destination_edge_index g)(i := None)"
    and "destination_edge_threshold (remove_vertex i g) = destination_edge_threshold g"
proof -
  have dead: "edge_between g a b = None" "(vert g)(i := None) = vert g"
      "(destination_edge_index g)(i := None) = destination_edge_index g"
    if "vert g i = None" "a = i \<or> b = i"
  proof -
    show "edge_between g a b = None" using that shape_ends_live [OF g, of a b] by (cases "edge_between g a b") auto
    show "(vert g)(i := None) = vert g" using that(1) by (simp add: fun_upd_idem)
    show "(destination_edge_index g)(i := None) = destination_edge_index g"
      using that(1) shape_basics(6) [OF g, of i] by (cases "destination_edge_index g i") (auto simp: fun_upd_idem)
  qed
  show "vert (remove_vertex i g) = (vert g)(i := None)"
    "edge_between (remove_vertex i g) a b = (if a = i \<or> b = i then None else edge_between g a b)"
    "destination_edge_threshold (remove_vertex i g) = destination_edge_threshold g"
    using dead remove_vertex_live [OF g] by (cases "vert g i"; simp add: remove_vertex_dead fun_upd_idem)+
  show "destination_edge_index (remove_vertex i g) = (destination_edge_index g)(i := None)"
    using remove_vertex_live(3) [OF g] shape_basics(6) [OF g, of i]
    by (cases "vert g i"; cases "destination_edge_index g i") (auto simp: remove_vertex_dead fun_upd_idem)
qed

lemma fold_remove_vertex_shape: "graph_shape g \<Longrightarrow> graph_shape (fold remove_vertex xs g)"
  by (induction xs arbitrary: g) (auto intro: remove_vertex_shape)

lemma fold_remove_vertex:
  "graph_shape g \<Longrightarrow> vert (fold remove_vertex xs g) = vert g |` (- set xs)"
  "graph_shape g \<Longrightarrow> edge_between (fold remove_vertex xs g) a b =
     (if a \<in> set xs \<or> b \<in> set xs then None else edge_between g a b)"
  "graph_shape g \<Longrightarrow> destination_edge_index (fold remove_vertex xs g) = destination_edge_index g |` (- set xs)"
  by (induction xs arbitrary: g)
    (auto simp: remove_vertex_views remove_vertex_shape fun_eq_iff restrict_map_def)

section \<open>Reference counts of edges\<close>

lemma refcount_simps [simp]:
  "refcount Map.empty d = 0"
  "refcount (increment d s) d' = (if d' = d then refcount s d + 1 else refcount s d')"
  "refcount (decrement d s) d' = (if d' = d then refcount s d - 1 else refcount s d')"
  by (auto simp: refcount_def increment_def decrement_def)

text \<open>The counts cover the edges of the graph and a list of edges that left it; they are exact if \<open>strict\<close>.\<close>

definition pending :: "edge list \<Rightarrow> nat \<Rightarrow> nat \<Rightarrow> nat" where
  "pending es n d = length (filter (\<lambda>e. from_id e = n \<and> destination e = Some d) es)"

definition counts :: "bool \<Rightarrow> edge list \<Rightarrow> graph_inner \<Rightarrow> bool" where
  "counts strict es g \<longleftrightarrow>
     (\<forall>n s d. destination_edge_index g n = Some s \<longrightarrow>
        card (out_edges g n (Some d)) + pending es n d \<le> refcount s d \<and>
        (strict \<longrightarrow> refcount s d = card (out_edges g n (Some d)) + pending es n d))"

lemma countsD:
  assumes "counts strict es g" and "destination_edge_index g n = Some s"
  shows "card (out_edges g n (Some d)) + pending es n d \<le> refcount s d"
    and "strict \<Longrightarrow> refcount s d = card (out_edges g n (Some d)) + pending es n d"
  using assms unfolding counts_def by blast+

lemma out_edges_simps [simp]: "out_edges (g\<lparr>destination_edge_index := i\<rparr>) = out_edges g"
  by (intro ext) (simp add: out_edges_def)

lemma remove_edge_from_index_fields [simp]:
  "nodes (remove_edge_from_destination_index e g) = nodes g"
  "edges (remove_edge_from_destination_index e g) = edges g"
  "edge_between (remove_edge_from_destination_index e g) = edge_between g"
  "out_edges (remove_edge_from_destination_index e g) = out_edges g"
  "destination_edge_threshold (remove_edge_from_destination_index e g) = destination_edge_threshold g"
  by (simp_all add: remove_edge_from_destination_index_def split: option.splits)

lemma graph_shape_index:
  assumes "graph_shape g" and "\<And>n. i n \<noteq> None \<Longrightarrow> n \<in> dom (vert g)"
  shows "graph_shape (g\<lparr>destination_edge_index := i\<rparr>)"
proof -
  let ?g = "g\<lparr>destination_edge_index := i\<rparr>"
  have *: "used_ids ?g = used_ids g" "free_ids ?g = free_ids g" "nodes ?g = nodes g" "edges ?g = edges g"
    "destination_edge_index ?g = i"
    by simp_all
  show ?thesis
    unfolding graph_shape_def * edge_between_simps adjacent_simps lookup_vertex_simps
    using assms(2) assms(1) [unfolded graph_shape_def] by blast
qed

lemma remove_edge_from_index_shape:
  assumes g: "graph_shape g"
  shows "graph_shape (remove_edge_from_destination_index e g)"
proof -
  have "\<exists>v. vert g n = Some v"
    if "((destination_edge_index g)(from_id e := x)) n \<noteq> None" "x = None \<or> destination_edge_index g (from_id e) \<noteq> None" for n x
    using that shape_basics(6) [OF g, of n] by (cases "n = from_id e") auto
  then show ?thesis
    using g by (auto simp: remove_edge_from_destination_index_def domIff simp del: fun_upd_apply split: option.splits
        intro!: graph_shape_index)
qed

lemma remove_edge_from_index_counts:
  assumes c: "counts strict (e # es) g"
  shows "counts strict es (remove_edge_from_destination_index e g)"
proof -
  have "card (out_edges g n (Some d)) + pending es n d \<le> refcount s' d \<and>
      (strict \<longrightarrow> refcount s' d = card (out_edges g n (Some d)) + pending es n d)"
    if s': "destination_edge_index (remove_edge_from_destination_index e g) n = Some s'" for n s' d
  proof -
    obtain s where s: "destination_edge_index g n = Some s"
      and s'_eq: "s' = (case destination e of Some d \<Rightarrow> if n = from_id e then decrement d s else s | None \<Rightarrow> s)"
      using s' by (cases "n = from_id e"; cases "destination e")
        (auto simp: remove_edge_from_destination_index_def split: if_splits option.splits)
    show ?thesis
      using countsD [OF c s, of d] s'_eq by (auto simp: pending_def split: if_splits option.splits)
  qed
  then show ?thesis by (simp add: counts_def)
qed

lemma fold_remove_edge_from_index:
  "graph_shape g \<Longrightarrow> graph_shape (fold remove_edge_from_destination_index es g)"
  "counts strict es g \<Longrightarrow> counts strict [] (fold remove_edge_from_destination_index es g)"
  "nodes (fold remove_edge_from_destination_index es g) = nodes g"
  "edge_between (fold remove_edge_from_destination_index es g) = edge_between g"
  by (induction es arbitrary: g) (auto simp: remove_edge_from_index_shape remove_edge_from_index_counts)

section \<open>Deleting a vertex with its orphans\<close>

definition orphans :: "graph_inner \<Rightarrow> nat \<Rightarrow> nat set" where
  "orphans g i = {n \<in> neighbours g i. degree g n = 1}"

lemma neighbours_sym:
  assumes g: "graph_shape g"
  shows "n \<in> neighbours g i \<longleftrightarrow> i \<in> neighbours g n"
proof -
  have "b \<in> neighbours g a" if "a \<in> neighbours g b" for a b
    using that shape_symmetric(1) [OF g, of b a] by (cases "edge_between g b a") (simp_all add: neighbours_def)
  then show ?thesis by blast
qed

lemma orphan_neighbours:
  assumes "graph_shape g" and "n \<in> orphans g i"
  shows "neighbours g n = {i}"
proof -
  have "card (neighbours g n) = 1" using assms degree_card by (auto simp: orphans_def)
  moreover have "i \<in> neighbours g n" using assms neighbours_sym by (auto simp: orphans_def)
  ultimately show ?thesis by (metis card_1_singletonE singletonD)
qed

text \<open>The edges whose counts are to be dropped: one for every remaining source of an edge into the vertex.\<close>

lemma pending_map_filter:
  assumes "distinct xs" and "\<And>m e. m \<in> set xs \<Longrightarrow> f m = Some e \<Longrightarrow> from_id e = m"
  shows "pending (List.map_filter f xs) n d =
    (if n \<in> set xs \<and> (\<exists>e. f n = Some e \<and> destination e = Some d) then 1 else 0)"
  using assms
proof (induction xs)
  case (Cons x xs)
  have IH: "pending (List.map_filter f xs) n d =
      (if n \<in> set xs \<and> (\<exists>e. f n = Some e \<and> destination e = Some d) then 1 else 0)"
    using Cons.prems by (intro Cons.IH) auto
  show ?case
  proof (cases "f x")
    case None then show ?thesis using IH Cons.prems(1) by (auto simp: List.map_filter_simps)
  next
    case (Some e)
    then have "from_id e = x" using Cons.prems(2) by simp
    moreover have "pending (List.map_filter f (x # xs)) n d =
        (if from_id e = n \<and> destination e = Some d then 1 else 0) + pending (List.map_filter f xs) n d"
      using Some by (simp add: List.map_filter_simps pending_def)
    ultimately show ?thesis using IH Cons.prems(1) Some by auto
  qed
qed (simp add: List.map_filter_simps pending_def)

lemma pending_deleted:
  assumes g: "graph_shape g" and n: "n \<notin> orphans g i"
  shows "pending (List.map_filter (edge_between g i) (filter (\<lambda>n. degree g n \<noteq> 1) (neighbors_to g i))) n d
    = card (out_edges g n (Some d) \<inter> {i})"
proof -
  have src: "from_id e = m" if "m \<in> set (filter (\<lambda>n. degree g n \<noteq> 1) (neighbors_to g i))"
    and "edge_between g i m = Some e" for m e
    using that edge_ends(2) [OF g, of i m e] by (auto simp: set_neighbors_to [OF g])
  have "n \<in> set (filter (\<lambda>n. degree g n \<noteq> 1) (neighbors_to g i)) \<and> (\<exists>e. edge_between g i n = Some e \<and> destination e = Some d)
      \<longleftrightarrow> i \<in> out_edges g n (Some d)" (is "?L \<longleftrightarrow> _")
  proof
    assume ?L
    then obtain e where e: "edge_between g i n = Some e" "destination e = Some d" "to_id e = i"
      by (auto simp: set_neighbors_to [OF g])
    then show "i \<in> out_edges g n (Some d)"
      using shape_symmetric(1) [OF g e(1)] edge_ends(2) [OF g e(1)] by (auto simp: out_edges_def)
  next
    assume "i \<in> out_edges g n (Some d)"
    then obtain e where e: "edge_between g n i = Some e" "from_id e = n" "destination e = Some d"
      by (auto simp: out_edges_def)
    note e' = shape_symmetric(1) [OF g e(1)]
    have "n \<in> neighbours g i" using e' by (simp add: neighbours_def)
    then have "degree g n \<noteq> 1" using n by (simp add: orphans_def)
    then show ?L using e e' edge_ends(1) [OF g e(1)] by (auto simp: set_neighbors_to [OF g])
  qed
  moreover have "pending (List.map_filter (edge_between g i) (filter (\<lambda>n. degree g n \<noteq> 1) (neighbors_to g i))) n d =
      (if n \<in> set (filter (\<lambda>n. degree g n \<noteq> 1) (neighbors_to g i)) \<and>
          (\<exists>e. edge_between g i n = Some e \<and> destination e = Some d) then 1 else 0)"
    by (rule pending_map_filter) (use distinct_neighbors(2) [OF g] src in auto)
  ultimately show ?thesis by (cases "i \<in> out_edges g n (Some d)") simp_all
qed

lemma delete_vertex_unfold:
  assumes g: "graph_shape g" and i: "get_vertex_id t ns nm g = Some i"
  shows "\<exists>xs. delete_vertex t ns nm g = fold remove_edge_from_destination_index
      (List.map_filter (edge_between g i) (filter (\<lambda>n. degree g n \<noteq> 1) (neighbors_to g i)))
      (fold remove_vertex xs g) \<and> set xs = insert i (orphans g i)"
proof -
  have "set (neighbors_from g i) \<union> set (neighbors_to g i) = neighbours g i"
    using edge_ends [OF g] shape_symmetric(3) [OF g]
    by (fastforce simp: set_neighbors_from [OF g] set_neighbors_to [OF g] neighbours_def)
  then have "set (i # filter (\<lambda>n. degree g n = 1) (neighbors_from g i) @ filter (\<lambda>n. degree g n = 1) (neighbors_to g i))
      = insert i (orphans g i)"
    by (auto simp: orphans_def)
  moreover have "delete_vertex t ns nm g = fold remove_edge_from_destination_index
      (List.map_filter (edge_between g i) (filter (\<lambda>n. degree g n \<noteq> 1) (neighbors_to g i)))
      (fold remove_vertex
        (i # filter (\<lambda>n. degree g n = 1) (neighbors_from g i) @ filter (\<lambda>n. degree g n = 1) (neighbors_to g i)) g)"
    using i by (simp add: delete_vertex_def)
  ultimately show ?thesis by blast
qed

lemma delete_vertex_views:
  assumes g: "graph_shape g" and c: "counts strict [] g" and i: "get_vertex_id t ns nm g = Some i"
  shows "graph_shape (delete_vertex t ns nm g)" and "counts strict [] (delete_vertex t ns nm g)"
    and "vert (delete_vertex t ns nm g) = vert g |` (- insert i (orphans g i))"
    and "edge_between (delete_vertex t ns nm g) a b = (if a = i \<or> b = i then None else edge_between g a b)"
proof -
  let ?es = "List.map_filter (edge_between g i) (filter (\<lambda>n. degree g n \<noteq> 1) (neighbors_to g i))"
  obtain xs where dv: "delete_vertex t ns nm g = fold remove_edge_from_destination_index ?es (fold remove_vertex xs g)"
    and xs: "set xs = insert i (orphans g i)"
    using delete_vertex_unfold [OF g i] by blast
  let ?g = "fold remove_vertex xs g"
  have sh: "graph_shape ?g" using g by (rule fold_remove_vertex_shape)
  have orphan_edge: "edge_between g x y = None" if "x \<in> orphans g i \<or> y \<in> orphans g i" "x \<noteq> i" "y \<noteq> i" for x y
    using that orphan_neighbours [OF g, of x i] orphan_neighbours [OF g, of y i] neighbours_sym [OF g, of x y]
    unfolding neighbours_def by blast
  have eb: "edge_between ?g x y = (if x = i \<or> y = i then None else edge_between g x y)" for x y
    using orphan_edge by (simp add: fold_remove_vertex(2) [OF g] xs)
  have "counts strict ?es ?g"
    unfolding counts_def
  proof (intro allI impI)
    fix n s d
    assume s: "destination_edge_index ?g n = Some s"
    then have n: "n \<noteq> i" "n \<notin> orphans g i" and s': "destination_edge_index g n = Some s"
      by (auto simp: fold_remove_vertex(3) [OF g] xs restrict_map_def split: if_splits)
    have "out_edges ?g n (Some d) = out_edges g n (Some d) - {i}" using n(1) by (auto simp: out_edges_def eb)
    then have "card (out_edges ?g n (Some d)) + pending ?es n d = card (out_edges g n (Some d))"
      using pending_deleted [OF g n(2), of d] card_Diff_subset_Int [of "out_edges g n (Some d)" "{i}"]
        card_mono [of "out_edges g n (Some d)" "out_edges g n (Some d) \<inter> {i}"]
      by simp
    then show "card (out_edges ?g n (Some d)) + pending ?es n d \<le> refcount s d \<and>
        (strict \<longrightarrow> refcount s d = card (out_edges ?g n (Some d)) + pending ?es n d)"
      using countsD [OF c s', of d] by (simp add: pending_def)
  qed
  then show "counts strict [] (delete_vertex t ns nm g)" unfolding dv by (rule fold_remove_edge_from_index)
  show "graph_shape (delete_vertex t ns nm g)" unfolding dv using sh by (rule fold_remove_edge_from_index)
  show "vert (delete_vertex t ns nm g) = vert g |` (- insert i (orphans g i))"
    unfolding dv fold_remove_edge_from_index(3) by (simp add: fold_remove_vertex(1) [OF g] xs)
  show "edge_between (delete_vertex t ns nm g) a b = (if a = i \<or> b = i then None else edge_between g a b)"
    unfolding dv fold_remove_edge_from_index(4) by (rule eb)
qed

section \<open>Creating a vertex\<close>

lemma new_node_id_fresh:
  assumes g: "graph_shape g" and "new_node_id g = (i, g1)"
  shows "vert g i = None"
    and "g1 = g \<or> g1 = g\<lparr>free_ids := free_ids g - {i}\<rparr>"
proof -
  note b = shape_basics(1-3) [OF g]
  have "vert g (Min (free_ids g)) = None" if "free_ids g \<noteq> {}"
    using Min_in [OF b(3) that] b(2) by (metis IntI domIff empty_iff)
  moreover have "finite (used_ids g)" using b(1) finite_dom_map_of by metis
  then have "Max (used_ids g) + 1 \<notin> used_ids g" using Max_ge by (metis Suc_eq_plus1 not_less_eq_eq order_refl)
  ultimately show "vert g i = None"
    using assms(2) b by (auto simp: new_node_id_def domIff split: if_splits)
  show "g1 = g \<or> g1 = g\<lparr>free_ids := free_ids g - {i}\<rparr>"
    using assms(2) b(3) by (auto simp: new_node_id_def split: if_splits)
qed

lemma adjacent_dead:
  "graph_shape g \<Longrightarrow> vert g i = None \<Longrightarrow> map_of (edges g) i = None"
  using shape_basics(4) [of g] by blast

text \<open>\<open>vertex_ready\<close> says that the graph differs from an earlier one at most by the vertex of the given key.\<close>

definition vertex_ready :: "vkey \<Rightarrow> graph_inner \<Rightarrow> nat \<Rightarrow> graph_inner \<Rightarrow> bool" where
  "vertex_ready k g i g' \<longleftrightarrow>
     graph_shape g' \<and>
     (\<exists>v. vkey v = k \<and> vert g' = (vert g)(i \<mapsto> v) \<and> (vert g i = None \<or> vert g i = Some v)) \<and>
     edge_between g' = edge_between g \<and> destination_edge_index g' = destination_edge_index g"

lemma create_vertex_ready:
  assumes g: "graph_shape g" and new: "get_vertex_id t ns nm g = None"
  shows "\<exists>i g'. create_vertex t ns nm g = Some (i, g') \<and> vertex_ready (t, ns, nm) g i g'"
proof -
  obtain i g1 where ni: "new_node_id g = (i, g1)" by (cases "new_node_id g")
  note fresh = new_node_id_fresh [OF g ni]
  let ?v = "\<lparr>v_type = t, v_namespace = ns, v_name = nm, v_id = i\<rparr>"
  let ?bns = "case vertices g t of None \<Rightarrow> Map.empty | Some m \<Rightarrow> m"
  let ?bn = "case ?bns ns of None \<Rightarrow> [] | Some m \<Rightarrow> m"
  let ?g' = "g\<lparr>vertices := (vertices g)(t \<mapsto> ?bns(ns \<mapsto> AList.update nm i ?bn)), nodes := AList.update i ?v (nodes g),
      edges := AList.update i [] (edges g), free_ids := free_ids g - {i}, used_ids := insert i (used_ids g)\<rparr>"
  have same: "vertices g1 = vertices g" "nodes g1 = nodes g" using fresh(2) by auto
  have c: "create_vertex t ns nm g = Some (i, ?g')"
    using fresh by (auto simp: create_vertex_def ni same add_node_def Let_def)
  have vt: "vert ?g' = (vert g)(i \<mapsto> ?v)" by (simp add: AList.update_conv')
  have adj: "adjacent ?g' n = adjacent g n" for n
    using adjacent_dead [OF g fresh(1)] by (simp add: adjacent_def AList.update_conv')
  then have eb: "edge_between ?g' = edge_between g" by (intro ext) (simp add: edge_between_def)
  have lk0: "lookup_vertex t ns nm g = None" using new shape_vertex_id [OF g] by simp
  have lk: "lookup_vertex t' ns' nm' ?g' = (if (t', ns', nm') = (t, ns, nm) then Some i else lookup_vertex t' ns' nm' g)"
    for t' ns' nm'
    by (auto simp: lookup_vertex_def AList.update_conv' split: option.splits)
  have lk_iff: "lookup_vertex t' ns' nm' g = Some j \<longleftrightarrow> (\<exists>v. vert g j = Some v \<and> vkey v = (t', ns', nm'))"
    for t' ns' nm' j using g unfolding graph_shape_def by blast
  have "lookup_vertex t' ns' nm' ?g' = Some j \<longleftrightarrow> (\<exists>v. vert ?g' j = Some v \<and> vkey v = (t', ns', nm'))"
    for t' ns' nm' j
    unfolding lk vt using lk_iff [of t' ns' nm' j] lk0 lk_iff [of t ns nm j] fresh(1)
    by (cases "j = i"; cases "(t', ns', nm') = (t, ns, nm)") (auto simp: vkey_def)
  moreover have "edge_between ?g' b a = Some e \<and> a \<noteq> b \<and>
      (from_id e = a \<and> to_id e = b \<or> from_id e = b \<and> to_id e = a)" if "edge_between ?g' a b = Some e" for a b e
    using that shape_symmetric [OF g, of a b e] unfolding eb by blast
  moreover have "distinct (map fst (adjacent ?g' n))" for n
    using g unfolding graph_shape_def adj by blast
  moreover have "used_ids ?g' = dom (vert ?g')" "free_ids ?g' \<inter> dom (vert ?g') = {}" "finite (free_ids ?g')"
    "dom (map_of (edges ?g')) = dom (vert ?g')"
    using shape_basics(1-4) [OF g] unfolding vt by (auto simp: AList.update_conv')
  moreover have "vert ?g' j = Some w \<Longrightarrow> v_id w = j" for j w
    using shape_basics(5) [OF g, of j w] unfolding vt by (auto split: if_splits)
  moreover have "destination_edge_index ?g' n \<noteq> None \<Longrightarrow> n \<in> dom (vert ?g')" for n
    using shape_basics(6) [OF g, of n] unfolding vt by auto
  ultimately have "graph_shape ?g'" unfolding graph_shape_def by blast
  then have "vertex_ready (t, ns, nm) g i ?g'"
    using vt eb fresh(1) unfolding vertex_ready_def
    by (intro conjI exI [of _ ?v]) (simp_all add: vkey_def)
  then show ?thesis using c by blast
qed

lemma get_or_create_ready:
  assumes g: "graph_shape g"
  shows "\<exists>i g'. get_or_create_vertex t ns nm g = Some (i, g') \<and> vertex_ready (t, ns, nm) g i g'"
proof (cases "get_vertex_id t ns nm g")
  case None then show ?thesis using create_vertex_ready [OF g] by (simp add: get_or_create_vertex_def)
next
  case (Some i)
  then obtain v where "vert g i = Some v" "vkey v = (t, ns, nm)" using shape_lookup [OF g] by blast
  then have "vertex_ready (t, ns, nm) g i g" using g by (auto simp: vertex_ready_def fun_upd_idem)
  then show ?thesis using Some by (simp add: get_or_create_vertex_def)
qed

section \<open>Adding an edge\<close>

lemma set_edge_views:
  assumes g: "graph_shape g" and ends: "from_id e \<noteq> to_id e" "vert g (from_id e) \<noteq> None" "vert g (to_id e) \<noteq> None"
  obtains g' where "set_edge e g = Some g'" and "graph_shape g'" and "vert g' = vert g"
    and "\<And>a b. edge_between g' a b =
           (if a = from_id e \<and> b = to_id e \<or> a = to_id e \<and> b = from_id e then Some e else edge_between g a b)"
    and "destination_edge_index g' = destination_edge_index g"
proof -
  let ?g1 = "g\<lparr>edges := AList.update (from_id e) (AList.update (to_id e) e (adjacent g (from_id e))) (edges g)\<rparr>"
  let ?g' = "?g1\<lparr>edges := AList.update (to_id e) (AList.update (from_id e) e (adjacent ?g1 (to_id e))) (edges ?g1)\<rparr>"
  have s: "set_edge e g = Some ?g'" using ends by (simp add: set_edge_def Let_def)
  have adj: "adjacent ?g' n =
      (if n = to_id e then AList.update (from_id e) e (adjacent g n)
       else if n = from_id e then AList.update (to_id e) e (adjacent g n) else adjacent g n)" for n
    using ends(1) by (simp add: adjacent_def AList.update_conv')
  have eb: "edge_between ?g' a b =
      (if a = from_id e \<and> b = to_id e \<or> a = to_id e \<and> b = from_id e then Some e else edge_between g a b)" for a b
    unfolding edge_between_def adj using ends(1) by (simp add: AList.update_conv')
  have vt: "vert ?g' = vert g" by simp
  have lk: "lookup_vertex t ns nm ?g' = lookup_vertex t ns nm g" for t ns nm by simp
  have "edge_between ?g' b a = Some e' \<and> a \<noteq> b \<and>
      (from_id e' = a \<and> to_id e' = b \<or> from_id e' = b \<and> to_id e' = a)" if "edge_between ?g' a b = Some e'" for a b e'
    using that shape_symmetric [OF g, of a b e'] ends(1) unfolding eb by (auto split: if_splits)
  moreover have "distinct (map fst (adjacent ?g' n))" for n
    unfolding adj by (simp only: AList.distinct_update shape_distinct [OF g] split: if_split) simp
  moreover have "dom (map_of (edges ?g')) = dom (vert ?g')"
    using shape_basics(4) [OF g] ends(2,3) by (auto simp: AList.update_conv')
  moreover have same: "used_ids ?g' = used_ids g" "free_ids ?g' = free_ids g"
    "destination_edge_index ?g' = destination_edge_index g" by simp_all
  ultimately have "graph_shape ?g'"
    using g [unfolded graph_shape_def] unfolding graph_shape_def vt lk same by blast
  then show ?thesis by (rule that [OF s _ vt eb same(3)])
qed

lemma out_edges_set_edge:
  fixes e :: edge
  assumes g: "graph_shape g" and ne: "from_id e \<noteq> to_id e"
    and eb: "\<And>a b. edge_between g' a b =
      (if a = from_id e \<and> b = to_id e \<or> a = to_id e \<and> b = from_id e then Some e else edge_between g a b)"
  shows "card (out_edges g' n (Some d)) \<le>
      card (out_edges g n (Some d)) + (if n = from_id e \<and> destination e = Some d then 1 else 0)"
    and "edge_between g (from_id e) (to_id e) \<in> {None, if destination e = None then Some e else None} \<Longrightarrow>
      card (out_edges g' n (Some d)) =
      card (out_edges g n (Some d)) + (if n = from_id e \<and> destination e = Some d then 1 else 0)"
proof -
  let ?out = "out_edges g n (Some d)"
  have out: "out_edges g' n (Some d) =
      (if n = from_id e then ?out - {to_id e} \<union> (if destination e = Some d then {to_id e} else {})
       else if n = to_id e then ?out - {from_id e} else ?out)"
    using ne by (auto simp: out_edges_def eb split: if_splits)
  have le: "card (?out - X) \<le> card ?out" for X by (rule card_mono) auto
  show "card (out_edges g' n (Some d)) \<le> card ?out + (if n = from_id e \<and> destination e = Some d then 1 else 0)"
    using le [of "{to_id e}"] le [of "{from_id e}"] by (auto simp: out card_insert_if)
  assume old: "edge_between g (from_id e) (to_id e) \<in> {None, if destination e = None then Some e else None}"
  have "edge_between g (to_id e) (from_id e) = edge_between g (from_id e) (to_id e)" by (rule edge_between_sym [OF g])
  then have "to_id e \<notin> out_edges g (from_id e) (Some d)" "from_id e \<notin> out_edges g (to_id e) (Some d)"
    using old ne unfolding out_edges_def by (simp_all split: if_split_asm) (elim disjE; simp)+
  then show "card (out_edges g' n (Some d)) = card ?out + (if n = from_id e \<and> destination e = Some d then 1 else 0)"
    by (auto simp: out)
qed

lemma refcount_count_destinations:
  "refcount (fold (count_destination g n) ms s) d =
     refcount s d + length (filter (\<lambda>m. \<exists>e. edge_between g n m = Some e \<and> destination e = Some d) ms)"
proof (induction ms arbitrary: s)
  case (Cons m ms)
  have "refcount (count_destination g n m s) d =
      refcount s d + (if \<exists>e. edge_between g n m = Some e \<and> destination e = Some d then 1 else 0)"
    by (auto simp: count_destination_def split: option.splits)
  then show ?case using Cons.IH [of "count_destination g n m s"] by simp
qed simp

lemma recomputed_refcount:
  assumes g: "graph_shape g"
  shows "refcount (fold (count_destination g n) (neighbors_from g n) Map.empty) d = card (out_edges g n (Some d))"
proof -
  let ?ms = "filter (\<lambda>m. \<exists>e. edge_between g n m = Some e \<and> destination e = Some d) (neighbors_from g n)"
  have "set ?ms = out_edges g n (Some d)" by (auto simp: set_neighbors_from [OF g] out_edges_def)
  moreover have "distinct ?ms" using distinct_neighbors(1) [OF g] by simp
  ultimately have "length ?ms = card (out_edges g n (Some d))" using distinct_card [of ?ms] by simp
  then show ?thesis by (simp add: refcount_count_destinations)
qed

lemma add_edge_to_index_fields [simp]:
  "nodes (add_edge_to_destination_index e g) = nodes g"
  "edge_between (add_edge_to_destination_index e g) = edge_between g"
  "out_edges (add_edge_to_destination_index e g) = out_edges g"
  by (simp_all add: add_edge_to_destination_index_def recompute_destination_index_def split: option.splits)

lemma add_edge_to_index_at:
  assumes g: "graph_shape g" and "destination_edge_index (add_edge_to_destination_index e g) n = Some s"
  shows "(\<exists>s0. destination_edge_index g n = Some s0 \<and>
            (\<forall>d. refcount s d = refcount s0 d + (if n = from_id e \<and> destination e = Some d then 1 else 0))) \<or>
         (\<forall>d. refcount s d = card (out_edges g n (Some d)))"
  using assms(2) recomputed_refcount [OF g, of n]
  by (auto simp: add_edge_to_destination_index_def recompute_destination_index_def split: option.splits if_splits)

lemma add_edge_to_index_shape:
  assumes g: "graph_shape g" and "vert g (from_id e) \<noteq> None"
  shows "graph_shape (add_edge_to_destination_index e g)"
proof -
  have "\<exists>v. vert g n = Some v" if "((destination_edge_index g)(from_id e := x)) n \<noteq> None" for n x
    using that assms(2) shape_basics(6) [OF g, of n] by (cases "n = from_id e") auto
  then show ?thesis
    using g by (auto simp: add_edge_to_destination_index_def recompute_destination_index_def domIff
        simp del: fun_upd_apply split: option.splits intro!: graph_shape_index)
qed

lemma add_edge_views:
  assumes g: "graph_shape g" and c: "counts strict [] g" and ne: "from \<noteq> to"
    and live: "vert g from = Some v" "vert g to \<noteq> None"
    and fresh: "strict \<Longrightarrow> edge_between g from to \<in>
      {None, if dest = None then Some \<lparr>from_id = from, to_id = to, destination = None\<rparr> else None}"
    and typed: "dest = None \<Longrightarrow> \<not> has_authoritative_index (v_type v)"
  obtains g' where "add_edge from to dest g = Some g'" and "graph_shape g'" and "counts strict [] g'"
    and "vert g' = vert g"
    and "\<And>a b. edge_between g' a b =
      (if a = from \<and> b = to \<or> a = to \<and> b = from then Some \<lparr>from_id = from, to_id = to, destination = dest\<rparr>
       else edge_between g a b)"
proof -
  let ?e = "\<lparr>from_id = from, to_id = to, destination = dest\<rparr>"
  have ends: "from_id ?e \<noteq> to_id ?e" "vert g (from_id ?e) \<noteq> None" "vert g (to_id ?e) \<noteq> None"
    using ne live by simp_all
  obtain g1 where g1: "set_edge ?e g = Some g1" "graph_shape g1" "vert g1 = vert g"
    and eb0: "\<And>a b. edge_between g1 a b =
      (if a = from_id ?e \<and> b = to_id ?e \<or> a = to_id ?e \<and> b = from_id ?e then Some ?e else edge_between g a b)"
    and ix: "destination_edge_index g1 = destination_edge_index g"
    by (rule set_edge_views [OF g ends]) (rule that)
  note eb = eb0 [simplified]
  note out = out_edges_set_edge [OF g ends(1) eb0, simplified]
  let ?g' = "if dest = None then g1 else add_edge_to_destination_index ?e g1"
  have add: "add_edge from to dest g = Some ?g'"
    using g1(1) live typed by (auto simp: add_edge_def Let_def)
  have sh: "graph_shape ?g'" using g1 live(1) by (auto intro!: add_edge_to_index_shape)
  have "counts strict [] ?g'"
    unfolding counts_def
  proof (intro allI impI)
    fix n s d
    assume s: "destination_edge_index ?g' n = Some s"
    have o: "out_edges ?g' = out_edges g1" by simp
    have "(\<exists>s0. destination_edge_index g n = Some s0 \<and>
            (\<forall>d. refcount s d = refcount s0 d + (if n = from \<and> dest = Some d then 1 else 0))) \<or>
         (\<forall>d. refcount s d = card (out_edges g1 n (Some d)))"
      using s add_edge_to_index_at [OF g1(2), of ?e n s] ix by (auto split: if_splits)
    then show "card (out_edges ?g' n (Some d)) + pending [] n d \<le> refcount s d \<and>
        (strict \<longrightarrow> refcount s d = card (out_edges ?g' n (Some d)) + pending [] n d)"
    proof
      assume "\<forall>d. refcount s d = card (out_edges g1 n (Some d))"
      then show ?thesis unfolding o by (simp add: pending_def)
    next
      assume "\<exists>s0. destination_edge_index g n = Some s0 \<and>
            (\<forall>d. refcount s d = refcount s0 d + (if n = from \<and> dest = Some d then 1 else 0))"
      then obtain s0 where s0: "destination_edge_index g n = Some s0"
        and r: "refcount s d = refcount s0 d + (if n = from \<and> dest = Some d then 1 else 0)" by blast
      show ?thesis unfolding o using countsD [OF c s0, of d] r out(1) [of n d] out(2) [of n d] fresh
        by (auto simp: pending_def)
    qed
  qed
  then show ?thesis using that [OF add sh] g1(3) eb by simp
qed

section \<open>Removing the edges into a vertex\<close>

lemma remove_edge_views:
  assumes g: "graph_shape g" and c: "counts strict [] g" and e: "edge_between g (from_id e) (to_id e) = Some e"
  shows "graph_shape (remove_edge e g)" and "counts strict [e] (remove_edge e g)"
    and "nodes (remove_edge e g) = nodes g"
    and "edge_between (remove_edge e g) a b =
      (if a = from_id e \<and> b = to_id e \<or> a = to_id e \<and> b = from_id e then None else edge_between g a b)"
proof -
  have live: "vert g (from_id e) \<noteq> None" "vert g (to_id e) \<noteq> None"
    using shape_ends_live [OF g e] by auto
  let ?g = "drop_held (from_id e) (to_id e) (drop_held (to_id e) (from_id e) g)"
  have r: "remove_edge e g = ?g" using live by (auto simp: remove_edge_def)
  show "nodes (remove_edge e g) = nodes g" unfolding r by simp
  show eb: "edge_between (remove_edge e g) a b =
      (if a = from_id e \<and> b = to_id e \<or> a = to_id e \<and> b = from_id e then None else edge_between g a b)" for a b
    unfolding r edge_between_drop_held by argo
  have lk: "lookup_vertex t ns nm ?g = lookup_vertex t ns nm g" for t ns nm by (simp add: lookup_vertex_def)
  have same: "used_ids ?g = used_ids g" "free_ids ?g = free_ids g" "nodes ?g = nodes g"
    "destination_edge_index ?g = destination_edge_index g" "dom (map_of (edges ?g)) = dom (map_of (edges g))"
    by simp_all
  have "edge_between ?g b a = Some e' \<and> a \<noteq> b \<and>
      (from_id e' = a \<and> to_id e' = b \<or> from_id e' = b \<and> to_id e' = a)" if "edge_between ?g a b = Some e'" for a b e'
    using that shape_symmetric [OF g, of a b e'] by (auto split: if_splits)
  moreover have "distinct (map fst (adjacent ?g n))" for n
    by (intro distinct_drop_held shape_distinct [OF g])
  ultimately show sh: "graph_shape (remove_edge e g)"
    using g [unfolded graph_shape_def] unfolding r graph_shape_def lk same by blast
  have ne: "from_id e \<noteq> to_id e" by (rule shape_symmetric(2) [OF g e])
  have "card (out_edges ?g n (Some d)) + pending [e] n d = card (out_edges g n (Some d))" for n d
  proof (cases "n = from_id e \<and> destination e = Some d")
    case True
    then have "to_id e \<in> out_edges g n (Some d)" "out_edges ?g n (Some d) = out_edges g n (Some d) - {to_id e}"
      using e ne by (simp_all add: out_edges_def set_eq_iff)
    then show ?thesis using True card_Suc_Diff1 [of "out_edges g n (Some d)" "to_id e"] by (simp add: pending_def)
  next
    case False
    then have "out_edges ?g n (Some d) = out_edges g n (Some d)"
      using e ne shape_symmetric(1) [OF g e] by (simp add: out_edges_def set_eq_iff)
    then show ?thesis using False by (auto simp: pending_def)
  qed
  then show "counts strict [e] (remove_edge e g)"
    using c unfolding r counts_def by (simp add: pending_def)
qed

end
