(* ===== verification/NodeRelations.thy ===== *)
theory NodeRelations
  imports NodeGraphInvariants
begin

text \<open>
  What the node graph means. The specification is the set of relations between named objects that the objects
  seen so far declare; the graph implements it after every sequence of operations, no operation panics, and
  the search for a path, with its index and its pruning, answers exactly whether an object is related to the
  node: read by a pod bound to it, or through the claim of such a pod.

  The reference counts of the index are exact as long as no pod refers twice to the same object. Without that
  they may stay positive after the last edge is gone: then the search still answers yes for every related object,
  and a lemma shows a node that keeps access to a secret no pod of it uses.
\<close>

section \<open>Named edges\<close>

type_synonym named_edge = "vkey \<times> vkey \<times> vkey option"

fun edge_named :: "graph_inner \<Rightarrow> edge \<Rightarrow> named_edge \<Rightarrow> bool" where
  "edge_named g e (x, y, d) \<longleftrightarrow>
     (\<exists>v. vert g (from_id e) = Some v \<and> vkey v = x) \<and> (\<exists>w. vert g (to_id e) = Some w \<and> vkey w = y) \<and>
     (case destination e of None \<Rightarrow> d = None | Some i \<Rightarrow> (\<exists>u. vert g i = Some u \<and> d = Some (vkey u)))"

definition implements :: "graph_inner \<Rightarrow> named_edge set \<Rightarrow> bool" where
  "implements g E \<longleftrightarrow>
     (\<forall>a b e. edge_between g a b = Some e \<longrightarrow> (\<exists>k\<in>E. edge_named g e k)) \<and>
     (\<forall>k\<in>E. \<exists>e. edge_between g (from_id e) (to_id e) = Some e \<and> edge_named g e k)"

text \<open>Destinations are nodes: an edge with a destination leads to it, or to an object that leads to it.\<close>

definition dest_ok :: "named_edge set \<Rightarrow> bool" where
  "dest_ok E \<longleftrightarrow> (\<forall>x y z. (x, y, Some z) \<in> E \<longrightarrow> fst z = Node \<and> (y = z \<or> (y, z, Some z) \<in> E))"

lemma edge_named_mono:
  assumes "edge_named g e k" and "\<And>j w. vert g j = Some w \<Longrightarrow> vert g' j = Some w"
  shows "edge_named g' e k"
  using assms by (cases k; cases "destination e") auto

lemma edge_named_unique: "edge_named g e k \<Longrightarrow> edge_named g e k' \<Longrightarrow> k = k'"
  by (cases k; cases k'; cases "destination e") auto

lemma implements_edge:
  assumes "implements g E" and "edge_between g a b = Some e"
  obtains x y d where "(x, y, d) \<in> E" and "edge_named g e (x, y, d)"
  using assms unfolding implements_def by (metis prod_cases3)

lemma implements_named:
  assumes "implements g E" and "(x, y, d) \<in> E"
  obtains e where "edge_between g (from_id e) (to_id e) = Some e" and "edge_named g e (x, y, d)"
  using assms unfolding implements_def by metis

lemma implements_between:
  assumes g: "graph_shape g" and i: "implements g E" and k: "(x, y, d) \<in> E"
    and a: "vert g a = Some v" "vkey v = x" and b: "vert g b = Some w" "vkey w = y"
  obtains e where "edge_between g a b = Some e" and "from_id e = a" and "to_id e = b" and "edge_named g e (x, y, d)"
proof -
  obtain e where e: "edge_between g (from_id e) (to_id e) = Some e" "edge_named g e (x, y, d)"
    using implements_named [OF i k] .
  then have "from_id e = a" "to_id e = b" using vkey_inj [OF g] a b by auto
  then show thesis using that e by simp
qed

lemma ready_implements:
  assumes r: "vertex_ready k g i g'" and im: "implements g E"
  shows "implements g' E"
proof -
  have eb: "edge_between g' = edge_between g"
    and mono: "\<And>j w. vert g j = Some w \<Longrightarrow> vert g' j = Some w"
    using r by (auto simp: vertex_ready_def)
  show ?thesis
    using im unfolding implements_def eb by (meson edge_named_mono [OF _ mono])
qed

definition without :: "vkey \<Rightarrow> named_edge set \<Rightarrow> named_edge set" where
  "without k E = {(x, y, d) \<in> E. x \<noteq> k \<and> y \<noteq> k}"

lemma in_without: "(x, y, d) \<in> without k E \<longleftrightarrow> (x, y, d) \<in> E \<and> x \<noteq> k \<and> y \<noteq> k"
  by (simp add: without_def)

lemma deleted_edge_survives:
  assumes g: "graph_shape g" and im: "implements g E" and dok: "dest_ok E" and t: "t \<noteq> Node"
    and i: "vert g i = Some v" "vkey v = (t, ns, nm)"
    and e: "edge_between g (from_id e) (to_id e) = Some e" "edge_named g e (x, y, d)" "(x, y, d) \<in> E"
    and ends: "from_id e \<noteq> i" "to_id e \<noteq> i"
    and vt: "vert g' = vert g |` (- insert i (orphans g i))"
  shows "edge_named g' e (x, y, d)"
proof -
  have stay: "n \<notin> orphans g i" if "edge_between g n m \<noteq> None" "m \<noteq> i" for n m
    using that orphan_neighbours [OF g, of n i] by (auto simp: neighbours_def)
  have "from_id e \<notin> orphans g i" "to_id e \<notin> orphans g i"
    using stay [of "from_id e" "to_id e"] stay [of "to_id e" "from_id e"] e(1) ends
      edge_between_sym [OF g, of "to_id e" "from_id e"] by auto
  moreover have "j \<noteq> i \<and> j \<notin> orphans g i" if dj: "destination e = Some j" for j
  proof -
    obtain u where u: "vert g j = Some u" "d = Some (vkey u)" using e(2) unfolding edge_named.simps dj by auto
    then have dk: "fst (vkey u) = Node" "y = vkey u \<or> (y, vkey u, Some (vkey u)) \<in> E"
      using dok e(3) unfolding dest_ok_def by blast+
    have ji: "j \<noteq> i" using u(1) i dk(1) t by auto
    obtain w where w: "vert g (to_id e) = Some w" "vkey w = y" using e(2) by auto
    have "j \<notin> orphans g i"
    proof (cases "y = vkey u")
      case True
      then have "j = to_id e" using vkey_inj [OF g u(1) w(1)] w(2) by simp
      then show ?thesis using \<open>to_id e \<notin> orphans g i\<close> by simp
    next
      case False
      then have "(y, vkey u, Some (vkey u)) \<in> E" using dk(2) by simp
      then obtain e2 where "edge_between g (to_id e) j = Some e2"
        using implements_between [OF g im _ w u(1) refl] by metis
      then show ?thesis using stay [of j "to_id e"] ends edge_between_sym [OF g, of j "to_id e"] by simp
    qed
    with ji show ?thesis by simp
  qed
  ultimately show ?thesis
    using e(2) ends by (auto simp: vt split: option.splits)
qed

lemma delete_implements:
  assumes g: "graph_shape g" and c: "counts strict [] g" and im: "implements g E" and dok: "dest_ok E" and t: "t \<noteq> Node"
  shows "graph_shape (delete_vertex t ns nm g)" and "counts strict [] (delete_vertex t ns nm g)"
    and "implements (delete_vertex t ns nm g) (without (t, ns, nm) E)"
proof -
  let ?g = "delete_vertex t ns nm g"
  have "graph_shape ?g \<and> counts strict [] ?g \<and> implements ?g (without (t, ns, nm) E)"
  proof (cases "get_vertex_id t ns nm g")
    case None
    have "x \<noteq> (t, ns, nm) \<and> y \<noteq> (t, ns, nm)" if "(x, y, d) \<in> E" for x y d
      using implements_named [OF im that] None shape_lookup [OF g, of t ns nm] by (metis edge_named.simps option.distinct(1))
    then have "k \<in> without (t, ns, nm) E \<longleftrightarrow> k \<in> E" for k using in_without by (cases k) blast
    then have "without (t, ns, nm) E = E" by blast
    then show ?thesis using None g c im by (simp add: delete_vertex_def)
  next
    case (Some i)
    note dv = delete_vertex_views [OF g c Some]
    obtain v where v: "vert g i = Some v" "vkey v = (t, ns, nm)" using Some shape_lookup [OF g] by blast
    have key: "w = v" if "vert g i = Some w" for w using that v by simp
    have not_i: "vkey w \<noteq> (t, ns, nm) \<longleftrightarrow> j \<noteq> i" if "vert g j = Some w" for j w
      using that v vkey_inj [OF g that v(1)] by auto
    note survives = deleted_edge_survives [OF g im dok t v _ _ _ _ _ dv(3)]
    have "\<exists>k\<in>without (t, ns, nm) E. edge_named ?g e k" if ab: "edge_between ?g a b = Some e" for a b e
    proof -
      have e: "edge_between g a b = Some e" "a \<noteq> i" "b \<noteq> i" using ab by (auto simp: dv(4) split: if_splits)
      obtain x y d where k: "(x, y, d) \<in> E" "edge_named g e (x, y, d)" using implements_edge [OF im e(1)] .
      have ft: "edge_between g (from_id e) (to_id e) = Some e" "from_id e \<noteq> i" "to_id e \<noteq> i"
        using shape_symmetric [OF g e(1)] e by auto
      have "x \<noteq> (t, ns, nm)" "y \<noteq> (t, ns, nm)" using k(2) ft not_i by auto
      then show ?thesis using survives [OF ft(1) k(2,1) ft(2,3)] k(1) in_without by blast
    qed
    moreover have "\<exists>e. edge_between ?g (from_id e) (to_id e) = Some e \<and> edge_named ?g e k"
      if k: "k \<in> without (t, ns, nm) E" for k
    proof -
      obtain x y d where k': "k = (x, y, d)" "(x, y, d) \<in> E" "x \<noteq> (t, ns, nm)" "y \<noteq> (t, ns, nm)"
        using k in_without by (metis prod_cases3)
      obtain e where e: "edge_between g (from_id e) (to_id e) = Some e" "edge_named g e (x, y, d)"
        using implements_named [OF im k'(2)] .
      have "from_id e \<noteq> i" "to_id e \<noteq> i" using e(2) k'(3,4) not_i by auto
      then show ?thesis using survives [OF e k'(2)] e(1) k'(1) by (auto simp: dv(4))
    qed
    ultimately show ?thesis using dv(1,2) by (simp add: implements_def)
  qed
  then show "graph_shape ?g" "counts strict [] ?g" "implements ?g (without (t, ns, nm) E)" by simp_all
qed

section \<open>The graph and its specification\<close>

definition graph_rel :: "bool \<Rightarrow> graph_inner \<Rightarrow> named_edge set \<Rightarrow> bool" where
  "graph_rel strict g E \<longleftrightarrow> graph_shape g \<and> counts strict [] g \<and> implements g E"

text \<open>\<open>names g i k\<close>: the identifier stands for the named object.\<close>

definition names :: "graph_inner \<Rightarrow> nat \<Rightarrow> vkey \<Rightarrow> bool" where
  "names g i k \<longleftrightarrow> (\<exists>v. vert g i = Some v \<and> vkey v = k)"

definition extends :: "graph_inner \<Rightarrow> graph_inner \<Rightarrow> bool" where
  "extends g g' \<longleftrightarrow> (\<forall>i k. names g i k \<longrightarrow> names g' i k)"

lemma extends_refl [simp]: "extends g g" by (simp add: extends_def)

lemma extends_trans: "extends g g' \<Longrightarrow> extends g' g'' \<Longrightarrow> extends g g''" by (simp add: extends_def)

lemma extends_names: "extends g g' \<Longrightarrow> names g i k \<Longrightarrow> names g' i k" unfolding extends_def by blast

lemma rel_new: "graph_rel strict (new_graph\<lparr>destination_edge_threshold := h\<rparr>) {}"
  by (simp add: graph_rel_def shape_new_graph counts_def implements_def)
    (simp add: new_graph_def edge_between_def adjacent_def)

lemma rel_get_or_create:
  assumes r: "graph_rel strict g E"
  obtains i g' where "get_or_create_vertex t ns nm g = Some (i, g')" and "graph_rel strict g' E"
    and "names g' i (t, ns, nm)" and "extends g g'"
proof -
  have g: "graph_shape g" and c: "counts strict [] g" and im: "implements g E" using r by (auto simp: graph_rel_def)
  obtain i g' where gc: "get_or_create_vertex t ns nm g = Some (i, g')" and rd: "vertex_ready (t, ns, nm) g i g'"
    using get_or_create_ready [OF g] by blast
  have "out_edges g' = out_edges g" using rd by (intro ext) (simp add: vertex_ready_def out_edges_def)
  then have "counts strict [] g'" using c rd by (simp add: counts_def vertex_ready_def)
  then have "graph_rel strict g' E" using rd ready_implements [OF rd im] by (simp add: graph_rel_def vertex_ready_def)
  moreover have "names g' i (t, ns, nm)" "extends g g'"
    using rd by (auto simp: vertex_ready_def names_def extends_def)
  ultimately show thesis using that gc by blast
qed

lemma rel_delete:
  assumes "graph_rel strict g E" and "dest_ok E" and "t \<noteq> Node"
  shows "graph_rel strict (delete_vertex t ns nm g) (without (t, ns, nm) E)"
  using assms delete_implements unfolding graph_rel_def by blast

lemma add_implements:
  assumes g: "graph_shape g" and im: "implements g E"
    and nf: "names g from kf" and nt: "names g to kt"
    and dest: "case dest of None \<Rightarrow> dk = None | Some d \<Rightarrow> \<exists>u. names g d u \<and> dk = Some u"
    and fwd: "\<And>x. (kf, kt, x) \<in> E \<Longrightarrow> x = dk" and bwd: "\<And>x. (kt, kf, x) \<notin> E"
    and vt: "vert g' = vert g"
    and eb: "\<And>a b. edge_between g' a b =
      (if a = from \<and> b = to \<or> a = to \<and> b = from then Some \<lparr>from_id = from, to_id = to, destination = dest\<rparr>
       else edge_between g a b)"
  shows "implements g' (insert (kf, kt, dk) E)"
proof -
  let ?e = "\<lparr>from_id = from, to_id = to, destination = dest\<rparr>"
  have nm: "edge_named g' e k = edge_named g e k" for e k by (cases k; cases "destination e") (simp_all add: vt)
  have new: "edge_named g ?e (kf, kt, dk)"
    using nf nt dest by (auto simp: names_def split: option.splits)
  have old: "edge_between g' (from_id e) (to_id e) = Some e"
    if e: "edge_between g (from_id e) (to_id e) = Some e" "edge_named g e k" "k \<in> E" "k \<noteq> (kf, kt, dk)" for e k
  proof -
    obtain x y d where k: "k = (x, y, d)" by (cases k)
    have False if "from_id e = from" "to_id e = to"
    proof -
      have "x = kf" "y = kt" using that e(2) nf nt by (auto simp: k names_def)
      then show False using fwd [of d] e(3,4) k by simp
    qed
    moreover have False if "from_id e = to" "to_id e = from"
    proof -
      have "x = kt" "y = kf" using that e(2) nf nt by (auto simp: k names_def)
      then show False using bwd [of d] e(3) k by simp
    qed
    ultimately show ?thesis using e(1) by (auto simp: eb)
  qed
  have ne: "edge_between g' from to = Some ?e" by (simp add: eb)
  have "\<exists>k\<in>insert (kf, kt, dk) E. edge_named g' e k" if "edge_between g' a b = Some e" for a b e
  proof (cases "e = ?e")
    case True then show ?thesis using new by (simp add: nm)
  next
    case False
    then have "edge_between g a b = Some e" using that by (simp add: eb split: if_splits)
    then show ?thesis using im by (auto simp: implements_def nm)
  qed
  moreover have "\<exists>e. edge_between g' (from_id e) (to_id e) = Some e \<and> edge_named g' e k"
    if k: "k \<in> insert (kf, kt, dk) E" for k
  proof (cases "k = (kf, kt, dk)")
    case True then show ?thesis unfolding nm using new ne by (intro exI [of _ ?e]) (simp del: edge_named.simps)
  next
    case False
    then obtain e where e: "edge_between g (from_id e) (to_id e) = Some e" "edge_named g e k"
      using k im unfolding implements_def by blast
    then have "edge_between g' (from_id e) (to_id e) = Some e" using old False k by blast
    then show ?thesis using e(2) nm by blast
  qed
  ultimately show ?thesis unfolding implements_def by blast
qed

lemma rel_add_edge:
  assumes r: "graph_rel strict g E" and nf: "names g from kf" and nt: "names g to kt" and ne: "kf \<noteq> kt"
    and dest: "case dest of None \<Rightarrow> dk = None \<and> \<not> has_authoritative_index (fst kf)
                          | Some d \<Rightarrow> \<exists>u. names g d u \<and> dk = Some u"
    and fwd: "\<And>x. (kf, kt, x) \<in> E \<Longrightarrow> x = dk" and bwd: "\<And>x. (kt, kf, x) \<notin> E"
    and fresh: "strict \<Longrightarrow> dk \<noteq> None \<Longrightarrow> (kf, kt, dk) \<notin> E"
  obtains g' where "add_edge from to dest g = Some g'" and "graph_rel strict g' (insert (kf, kt, dk) E)"
    and "extends g g'"
proof -
  have g: "graph_shape g" and c: "counts strict [] g" and im: "implements g E" using r by (auto simp: graph_rel_def)
  obtain v where v: "vert g from = Some v" "vkey v = kf" using nf by (auto simp: names_def)
  obtain w where w: "vert g to = Some w" "vkey w = kt" using nt by (auto simp: names_def)
  have ft: "from \<noteq> to" using v w ne by auto
  have typed: "dest = None \<Longrightarrow> \<not> has_authoritative_index (v_type v)"
    using dest v(2) by (auto simp: vkey_def)
  have old: "edge_between g from to = Some e \<Longrightarrow> dest = None \<and> e = \<lparr>from_id = from, to_id = to, destination = None\<rparr>"
    if strict for e
  proof -
    assume e: "edge_between g from to = Some e"
    obtain x y d where k: "(x, y, d) \<in> E" "edge_named g e (x, y, d)" using implements_edge [OF im e] .
    have ends: "from_id e = from \<and> to_id e = to \<or> from_id e = to \<and> to_id e = from"
      using shape_symmetric(3) [OF g e] .
    have not_bwd: "\<not> (from_id e = to \<and> to_id e = from)"
    proof
      assume "from_id e = to \<and> to_id e = from"
      then have "x = kt" "y = kf" using k(2) v w by auto
      then show False using bwd k(1) by blast
    qed
    then have fe: "from_id e = from" "to_id e = to" using ends by auto
    then have xy: "x = kf" "y = kt" using k(2) v w by auto
    then have d: "d = dk" using fwd k(1) by blast
    then have dn: "dk = None" using fresh that k(1) xy by blast
    then have "destination e = None" using k(2) d by (auto split: option.splits)
    moreover have "dest = None" using dn dest by (auto split: option.splits)
    ultimately show "dest = None \<and> e = \<lparr>from_id = from, to_id = to, destination = None\<rparr>"
      using fe by (cases e) simp
  qed
  have fresh': "strict \<Longrightarrow> edge_between g from to \<in>
      {None, if dest = None then Some \<lparr>from_id = from, to_id = to, destination = None\<rparr> else None}"
    using old by (cases "edge_between g from to") auto
  have wl: "vert g to \<noteq> None" using w by simp
  obtain g' where a: "add_edge from to dest g = Some g'" "graph_shape g'" "counts strict [] g'" and vt: "vert g' = vert g"
    and eb: "\<And>a b. edge_between g' a b =
      (if a = from \<and> b = to \<or> a = to \<and> b = from then Some \<lparr>from_id = from, to_id = to, destination = dest\<rparr>
       else edge_between g a b)"
    by (rule add_edge_views [OF g c ft v(1) wl fresh' typed]) (assumption | rule that)+
  have dest': "case dest of None \<Rightarrow> dk = None | Some d \<Rightarrow> \<exists>u. names g d u \<and> dk = Some u"
    using dest by (auto split: option.splits)
  have "implements g' (insert (kf, kt, dk) E)"
    by (rule add_implements [OF g im nf nt dest' fwd bwd vt eb])
  then have "graph_rel strict g' (insert (kf, kt, dk) E)" using a by (simp add: graph_rel_def)
  moreover have "extends g g'" using vt by (simp add: extends_def names_def)
  ultimately show thesis using that a(1) by blast
qed

lemma rel_add_dest_edge:
  assumes r: "graph_rel strict g E" and nf: "names g from kf" and nt: "names g to kt" and ne: "kf \<noteq> kt"
    and d: "names g d nk"
    and old: "\<forall>x. ((kf, kt, x) \<in> E \<longrightarrow> x = Some nk) \<and> (kt, kf, x) \<notin> E" and fresh: "strict \<longrightarrow> (kf, kt, Some nk) \<notin> E"
  shows "\<exists>g'. add_edge from to (Some d) g = Some g' \<and> graph_rel strict g' (insert (kf, kt, Some nk) E) \<and> extends g g'"
proof -
  have dest: "case Some d of None \<Rightarrow> Some nk = None \<and> \<not> has_authoritative_index (fst kf)
      | Some d \<Rightarrow> \<exists>u. names g d u \<and> Some nk = Some u"
    unfolding option.case by (intro exI [of _ nk] conjI d refl)
  show ?thesis by (rule rel_add_edge [OF r nf nt ne dest]) (use old fresh in blast)+
qed

lemma rel_add_plain_edge:
  assumes r: "graph_rel strict g E" and nf: "names g from kf" and nt: "names g to kt" and ne: "kf \<noteq> kt"
    and auth: "\<not> has_authoritative_index (fst kf)"
    and old: "\<forall>x. ((kf, kt, x) \<in> E \<longrightarrow> x = None) \<and> (kt, kf, x) \<notin> E"
  shows "\<exists>g'. add_edge from to None g = Some g' \<and> graph_rel strict g' (insert (kf, kt, None) E) \<and> extends g g'"
proof -
  have dest: "case None of None \<Rightarrow> None = (None :: vkey option) \<and> \<not> has_authoritative_index (fst kf)
      | Some d \<Rightarrow> \<exists>u. names g d u \<and> None = Some u" using auth by simp
  show ?thesis by (rule rel_add_edge [OF r nf nt ne dest]) (use old in blast)+
qed

section \<open>What the objects declare\<close>

record cluster =
  cl_pods :: "string \<times> string \<rightharpoonup> string \<times> (vertex_type \<times> string) set"
  cl_pvs :: "string \<rightharpoonup> (string \<times> string) \<times> (string \<times> string) set"
  cl_vas :: "string \<rightharpoonup> string"
  cl_slices :: "string \<rightharpoonup> string"
  cl_pcrs :: "string \<times> string \<rightharpoonup> string"

definition no_objects :: cluster where
  "no_objects = \<lparr>cl_pods = Map.empty, cl_pvs = Map.empty, cl_vas = Map.empty, cl_slices = Map.empty, cl_pcrs = Map.empty\<rparr>"

abbreviation node_key :: "string \<Rightarrow> vkey" where
  "node_key nd \<equiv> (Node, [], nd)"

inductive spec_edge :: "cluster \<Rightarrow> vkey \<Rightarrow> vkey \<Rightarrow> vkey option \<Rightarrow> bool" for c where
  bound: "cl_pods c (ns, n) = Some (nd, refs) \<Longrightarrow> spec_edge c (Pod, ns, n) (node_key nd) (Some (node_key nd))"
| refers: "cl_pods c (ns, n) = Some (nd, refs) \<Longrightarrow> (t, x) \<in> refs \<Longrightarrow>
    spec_edge c (t, ns, x) (Pod, ns, n) (Some (node_key nd))"
| claims: "cl_pvs c pv = Some ((cns, cn), secrets) \<Longrightarrow> spec_edge c (Pv, [], pv) (Pvc, cns, cn) None"
| mounts: "cl_pvs c pv = Some (claim, secrets) \<Longrightarrow> (sns, s) \<in> secrets \<Longrightarrow>
    spec_edge c (Secret, sns, s) (Pv, [], pv) None"
| attached: "cl_vas c a = Some nd \<Longrightarrow> spec_edge c (Va, [], a) (node_key nd) (Some (node_key nd))"
| published: "cl_slices c s = Some nd \<Longrightarrow> spec_edge c (Slice, [], s) (node_key nd) (Some (node_key nd))"
| requested: "cl_pcrs c (ns, r) = Some nd \<Longrightarrow> spec_edge c (Pcr, ns, r) (node_key nd) (Some (node_key nd))"

definition spec_edges :: "cluster \<Rightarrow> named_edge set" where
  "spec_edges c = {(x, y, d). spec_edge c x y d}"

lemma spec_edges_simps: "(x, y, d) \<in> spec_edges c \<longleftrightarrow> spec_edge c x y d"
  by (simp add: spec_edges_def)

definition ref_types :: "vertex_type set" where
  "ref_types = {ServiceAccount, Secret, ConfigMap, Pvc, ResourceClaim}"

definition cl_ok :: "cluster \<Rightarrow> bool" where
  "cl_ok c \<longleftrightarrow> (\<forall>k nd refs t x. cl_pods c k = Some (nd, refs) \<longrightarrow> (t, x) \<in> refs \<longrightarrow> t \<in> ref_types)"

lemma dest_ok_spec: "cl_ok c \<Longrightarrow> dest_ok (spec_edges c)"
  unfolding dest_ok_def by (auto simp: spec_edges_simps elim!: spec_edge.cases intro: spec_edge.intros)

lemma without_eqI:
  assumes "\<And>x y d. spec_edge c x y d \<Longrightarrow> x \<noteq> k \<Longrightarrow> y \<noteq> k \<Longrightarrow> spec_edge c' x y d"
    and "\<And>x y d. spec_edge c' x y d \<Longrightarrow> spec_edge c x y d \<and> x \<noteq> k \<and> y \<noteq> k"
  shows "without k (spec_edges c) = spec_edges c'"
  using assms unfolding without_def spec_edges_def by blast

lemma without_objects:
  assumes "cl_ok c"
  shows "without (Pod, ns, n) (spec_edges c) = spec_edges (c\<lparr>cl_pods := (cl_pods c)((ns, n) := None)\<rparr>)"
    and "without (Pv, [], pv) (spec_edges c) = spec_edges (c\<lparr>cl_pvs := (cl_pvs c)(pv := None)\<rparr>)"
    and "without (Va, [], a) (spec_edges c) = spec_edges (c\<lparr>cl_vas := (cl_vas c)(a := None)\<rparr>)"
    and "without (Slice, [], s) (spec_edges c) = spec_edges (c\<lparr>cl_slices := (cl_slices c)(s := None)\<rparr>)"
    and "without (Pcr, ns, r) (spec_edges c) = spec_edges (c\<lparr>cl_pcrs := (cl_pcrs c)((ns, r) := None)\<rparr>)"
  using assms unfolding cl_ok_def ref_types_def
  by - (rule without_eqI; erule spec_edge.cases; force intro: spec_edge.intros split: if_splits)+

section \<open>The operations implement it\<close>

fun link_refs :: "string \<Rightarrow> nat \<Rightarrow> nat \<Rightarrow> (vertex_type \<times> string) list \<Rightarrow> graph_inner \<Rightarrow> graph_inner or_panic" where
  "link_refs namespace p n [] g = Some g"
| "link_refs namespace p n ((t, x) # refs) g =
     do { (v, g) \<leftarrow> get_or_create_vertex t namespace x g;
          g \<leftarrow> add_edge v p (Some n) g;
          link_refs namespace p n refs g }"

lemma link_all_refs: "link_all t namespace p n xs = link_refs namespace p n (map (Pair t) xs)"
  by (induction xs) (rule ext, simp)+

lemma link_refs_append:
  "link_refs namespace p n (xs @ ys) g = Option.bind (link_refs namespace p n xs g) (link_refs namespace p n ys)"
  by (induction xs arbitrary: g) (auto simp: split_beta intro!: bind_option_cong)

definition pod_refs :: "pod \<Rightarrow> (vertex_type \<times> string) list" where
  "pod_refs p =
     (if is_mirror_pod p then []
      else
        (case p_spec p of
           None \<Rightarrow> []
         | Some spec \<Rightarrow>
             map (Pair ServiceAccount) (nonempty (case service_account_name spec of None \<Rightarrow> [] | Some sa \<Rightarrow> [sa])) @
             map (Pair Secret) (visit_pod_secret_names p) @
             map (Pair ConfigMap) (visit_pod_configmap_names p) @
             map (Pair Pvc) (nonempty (map (volume_claim p) (flat (volumes spec)))) @
             map (Pair ResourceClaim) (List.map_filter (resource_claim_name p) (flat (resource_claims spec))) @
             map (Pair ResourceClaim)
               (nonempty (case Option.bind (p_status p) extended_claim_name of None \<Rightarrow> [] | Some c \<Rightarrow> [c]))))"

lemma pod_refs_types: "(t, x) \<in> set (pod_refs p) \<Longrightarrow> t \<in> ref_types"
  by (auto simp: pod_refs_def ref_types_def split: if_splits option.splits)

lemma graph_add_pod_refs:
  "graph_add_pod p g =
     do { (pv, g) \<leftarrow> get_or_create_vertex Pod (namespace_of (p_meta p)) (meta_name (p_meta p))
            (delete_vertex Pod (namespace_of (p_meta p)) (meta_name (p_meta p)) g);
          (nv, g) \<leftarrow> get_or_create_vertex Node [] (pod_node_name p) g;
          g \<leftarrow> add_edge pv nv (Some nv) g;
          link_refs (namespace_of (p_meta p)) pv nv (pod_refs p) g }"
  by (cases "is_mirror_pod p"; cases "p_spec p")
    (auto simp: graph_add_pod_def Let_def pod_refs_def link_all_refs link_refs_append split_beta
      intro!: bind_option_cong)

lemma in_ref_types: "t \<in> ref_types \<longleftrightarrow> t = ServiceAccount \<or> t = Secret \<or> t = ConfigMap \<or> t = Pvc \<or> t = ResourceClaim"
  by (auto simp: ref_types_def)

lemma rel_link_refs:
  assumes "graph_rel strict g E" and "names g p (Pod, ns, n)" and "names g nv nk"
    and "\<And>t x. (t, x) \<in> set refs \<Longrightarrow> t \<in> ref_types"
    and "\<And>t x d. t \<in> ref_types \<Longrightarrow> ((Pod, ns, n), (t, ns, x), d) \<notin> E"
    and "\<And>t x d. t \<in> ref_types \<Longrightarrow> ((t, ns, x), (Pod, ns, n), d) \<in> E \<Longrightarrow> d = Some nk"
    and "strict \<Longrightarrow> distinct refs \<and> (\<forall>(t, x)\<in>set refs. ((t, ns, x), (Pod, ns, n), Some nk) \<notin> E)"
  shows "\<exists>g'. link_refs ns p nv refs g = Some g' \<and>
    graph_rel strict g' (E \<union> {((t, ns, x), (Pod, ns, n), Some nk) |t x. (t, x) \<in> set refs}) \<and> extends g g'"
  using assms
proof (induction refs arbitrary: g E)
  case Nil then show ?case by simp
next
  case (Cons r refs)
  obtain t x where r: "r = (t, x)" by (cases r)
  have t: "t \<in> ref_types" using Cons.prems(4) [of t x] r by simp
  obtain i g1 where g1: "get_or_create_vertex t ns x g = Some (i, g1)" "graph_rel strict g1 E"
      "names g1 i (t, ns, x)" "extends g g1"
    using rel_get_or_create [OF Cons.prems(1)] .
  note n1 = extends_names [OF g1(4)]
  have ne: "(t, ns, x) \<noteq> (Pod, ns, n)" using t by (auto simp: in_ref_types)
  have fresh: "strict \<longrightarrow> ((t, ns, x), (Pod, ns, n), Some nk) \<notin> E" using Cons.prems(7) r by simp
  have old: "\<forall>z. (((t, ns, x), (Pod, ns, n), z) \<in> E \<longrightarrow> z = Some nk) \<and> ((Pod, ns, n), (t, ns, x), z) \<notin> E"
    using Cons.prems(5,6) t by blast
  obtain g2 where g2: "add_edge i p (Some nv) g1 = Some g2"
      "graph_rel strict g2 (insert ((t, ns, x), (Pod, ns, n), Some nk) E)" "extends g1 g2"
    using rel_add_dest_edge [OF g1(2,3) n1 [OF Cons.prems(2)] ne n1 [OF Cons.prems(3)] old fresh] by blast
  let ?E = "insert ((t, ns, x), (Pod, ns, n), Some nk) E"
  have ext: "extends g g2" using extends_trans [OF g1(4) g2(3)] .
  have "\<exists>g'. link_refs ns p nv refs g2 = Some g' \<and>
      graph_rel strict g' (?E \<union> {((t, ns, x), (Pod, ns, n), Some nk) |t x. (t, x) \<in> set refs}) \<and> extends g2 g'"
  proof (rule Cons.IH [OF g2(2) extends_names [OF ext Cons.prems(2)] extends_names [OF ext Cons.prems(3)]])
    show "(t', x') \<in> set refs \<Longrightarrow> t' \<in> ref_types" for t' x' using Cons.prems(4) [of t' x'] by simp
    show "t' \<in> ref_types \<Longrightarrow> ((Pod, ns, n), (t', ns, x'), d) \<notin> ?E" for t' x' d
      using Cons.prems(5) t by (auto simp: in_ref_types)
    show "t' \<in> ref_types \<Longrightarrow> ((t', ns, x'), (Pod, ns, n), d) \<in> ?E \<Longrightarrow> d = Some nk" for t' x' d
      using Cons.prems(6) by blast
    show "strict \<Longrightarrow> distinct refs \<and> (\<forall>(t', x')\<in>set refs. ((t', ns, x'), (Pod, ns, n), Some nk) \<notin> ?E)"
      using Cons.prems(7) r by auto
  qed
  then obtain g3 where "link_refs ns p nv refs g2 = Some g3"
    "graph_rel strict g3 (?E \<union> {((t, ns, x), (Pod, ns, n), Some nk) |t x. (t, x) \<in> set refs})" "extends g2 g3"
    by blast
  moreover have "?E \<union> {((t, ns, x), (Pod, ns, n), Some nk) |t x. (t, x) \<in> set refs} =
      E \<union> {((t, ns, x), (Pod, ns, n), Some nk) |t x. (t, x) \<in> set (r # refs)}"
    using r by auto
  ultimately show ?case using g1(1) g2(1) r extends_trans [OF ext] by auto
qed

lemma rel_link_to_node:
  assumes r: "graph_rel strict g E" and t: "t \<noteq> Node" and out: "\<And>y d. ((t, ns, n), y, d) \<notin> E"
    and into: "\<And>y d. (y, (t, ns, n), d) \<notin> E"
  shows "\<exists>g'. link_to_node t ns n nd g = Some g' \<and>
    graph_rel strict g' (insert ((t, ns, n), node_key nd, Some (node_key nd)) E)"
proof -
  obtain i g1 where g1: "get_or_create_vertex t ns n g = Some (i, g1)" "graph_rel strict g1 E"
      "names g1 i (t, ns, n)" "extends g g1"
    using rel_get_or_create [OF r] .
  obtain j g2 where g2: "get_or_create_vertex Node [] nd g1 = Some (j, g2)" "graph_rel strict g2 E"
      "names g2 j (node_key nd)" "extends g1 g2"
    using rel_get_or_create [OF g1(2)] .
  have ne: "(t, ns, n) \<noteq> node_key nd" using t by simp
  obtain g3 where "add_edge i j (Some j) g2 = Some g3"
      "graph_rel strict g3 (insert ((t, ns, n), node_key nd, Some (node_key nd)) E)"
    using rel_add_dest_edge [OF g2(2) extends_names [OF g2(4) g1(3)] g2(3) ne g2(3)] out into by blast
  then show ?thesis using g1(1) g2(1) by (simp add: link_to_node_def)
qed

lemma rel_link_secrets:
  assumes "graph_rel strict g E" and "names g p (Pv, [], pv)"
    and "\<And>s sn d. ((Pv, [], pv), (Secret, sn, s), d) \<notin> E" and "\<And>s sn d. ((Secret, sn, s), (Pv, [], pv), d) \<in> E \<Longrightarrow> d = None"
  shows "\<exists>g'. link_secrets p secrets g = Some g' \<and>
    graph_rel strict g' (E \<union> {((Secret, sn, s), (Pv, [], pv), None) |sn s. (sn, s, True) \<in> set secrets})"
  using assms
proof (induction p secrets g arbitrary: E rule: link_secrets.induct)
  case (1 p g) then show ?case by simp
next
  case (2 p sn s vis secrets g)
  show ?case
  proof (cases vis)
    case False then show ?thesis using 2 by auto
  next
    case True
    obtain i g1 where g1: "get_or_create_vertex Secret sn s g = Some (i, g1)" "graph_rel strict g1 E"
        "names g1 i (Secret, sn, s)" "extends g g1"
      using rel_get_or_create [OF "2.prems"(1)] .
    note np = extends_names [OF g1(4) "2.prems"(2)]
    have auth: "\<not> has_authoritative_index (fst (Secret, sn, s))" by (simp add: has_authoritative_index_def)
    have ne: "(Secret, sn, s) \<noteq> (Pv, [], pv)" by simp
    obtain g2 where g2: "add_edge i p None g1 = Some g2"
        "graph_rel strict g2 (insert ((Secret, sn, s), (Pv, [], pv), None) E)" "extends g1 g2"
      using rel_add_plain_edge [OF g1(2,3) np ne auth] "2.prems"(3,4) by blast
    let ?E = "insert ((Secret, sn, s), (Pv, [], pv), None) E"
    have "\<exists>g'. link_secrets p secrets g2 = Some g' \<and>
        graph_rel strict g' (?E \<union> {((Secret, sn, s), (Pv, [], pv), None) |sn s. (sn, s, True) \<in> set secrets})"
      using "2.IH"(1) [OF True g1(1) refl g2(1) g2(2) extends_names [OF g2(3) np]] "2.prems"(3,4) by blast
    moreover have "?E \<union> {((Secret, sn, s), (Pv, [], pv), None) |sn s. (sn, s, True) \<in> set secrets} =
        E \<union> {((Secret, sn', s'), (Pv, [], pv), None) |sn' s'. (sn', s', True) \<in> set ((sn, s, vis) # secrets)}"
      using True by auto
    ultimately show ?thesis using g1(1) g2(1) True by auto
  qed
qed

text \<open>What an added object declares.\<close>

lemma spec_edges_add_pod:
  assumes "cl_ok c" and "\<And>t x. (t, x) \<in> refs \<Longrightarrow> t \<in> ref_types"
  shows "spec_edges (c\<lparr>cl_pods := (cl_pods c)((ns, n) \<mapsto> (nd, refs))\<rparr>) =
    insert ((Pod, ns, n), node_key nd, Some (node_key nd)) (without (Pod, ns, n) (spec_edges c))
    \<union> {((t, ns, x), (Pod, ns, n), Some (node_key nd)) |t x. (t, x) \<in> refs}" (is "?L = ?R")
proof -
  have "spec_edge (c\<lparr>cl_pods := (cl_pods c)((ns, n) \<mapsto> (nd, refs))\<rparr>) x y d \<longleftrightarrow>
      spec_edge (c\<lparr>cl_pods := (cl_pods c)((ns, n) := None)\<rparr>) x y d \<or>
      x = (Pod, ns, n) \<and> y = node_key nd \<and> d = Some (node_key nd) \<or>
      (\<exists>t z. x = (t, ns, z) \<and> y = (Pod, ns, n) \<and> d = Some (node_key nd) \<and> (t, z) \<in> refs)" for x y d
    by (auto elim!: spec_edge.cases intro: spec_edge.intros split: if_splits)
  then show ?thesis unfolding without_objects(1) [OF assms(1)] by (auto simp: spec_edges_def)
qed

lemma spec_edges_add_pv:
  assumes "cl_ok c"
  shows "spec_edges (c\<lparr>cl_pvs := (cl_pvs c)(pv \<mapsto> ((cns, cn), secrets))\<rparr>) =
    insert ((Pv, [], pv), (Pvc, cns, cn), None) (without (Pv, [], pv) (spec_edges c))
    \<union> {((Secret, sn, s), (Pv, [], pv), None) |sn s. (sn, s) \<in> secrets}"
proof -
  have "spec_edge (c\<lparr>cl_pvs := (cl_pvs c)(pv \<mapsto> ((cns, cn), secrets))\<rparr>) x y d \<longleftrightarrow>
      spec_edge (c\<lparr>cl_pvs := (cl_pvs c)(pv := None)\<rparr>) x y d \<or>
      x = (Pv, [], pv) \<and> y = (Pvc, cns, cn) \<and> d = None \<or>
      (\<exists>sn s. x = (Secret, sn, s) \<and> y = (Pv, [], pv) \<and> d = None \<and> (sn, s) \<in> secrets)" for x y d
    by (auto elim!: spec_edge.cases intro: spec_edge.intros split: if_splits)
  then show ?thesis unfolding without_objects(2) [OF assms(1)] by (auto simp: spec_edges_def)
qed

lemma spec_edges_add_to_node:
  assumes "cl_ok c"
  shows "spec_edges (c\<lparr>cl_vas := (cl_vas c)(a \<mapsto> nd)\<rparr>) =
      insert ((Va, [], a), node_key nd, Some (node_key nd)) (without (Va, [], a) (spec_edges c))"
    and "spec_edges (c\<lparr>cl_slices := (cl_slices c)(s \<mapsto> nd)\<rparr>) =
      insert ((Slice, [], s), node_key nd, Some (node_key nd)) (without (Slice, [], s) (spec_edges c))"
    and "spec_edges (c\<lparr>cl_pcrs := (cl_pcrs c)((ns, r) \<mapsto> nd)\<rparr>) =
      insert ((Pcr, ns, r), node_key nd, Some (node_key nd)) (without (Pcr, ns, r) (spec_edges c))"
proof -
  have "spec_edge (c\<lparr>cl_vas := (cl_vas c)(a \<mapsto> nd)\<rparr>) x y d \<longleftrightarrow>
      spec_edge (c\<lparr>cl_vas := (cl_vas c)(a := None)\<rparr>) x y d \<or>
      x = (Va, [], a) \<and> y = node_key nd \<and> d = Some (node_key nd)" for x y d
    by (auto elim!: spec_edge.cases intro: spec_edge.intros split: if_splits)
  then show "spec_edges (c\<lparr>cl_vas := (cl_vas c)(a \<mapsto> nd)\<rparr>) =
      insert ((Va, [], a), node_key nd, Some (node_key nd)) (without (Va, [], a) (spec_edges c))"
    unfolding without_objects(3) [OF assms] by (auto simp: spec_edges_def)
  have "spec_edge (c\<lparr>cl_slices := (cl_slices c)(s \<mapsto> nd)\<rparr>) x y d \<longleftrightarrow>
      spec_edge (c\<lparr>cl_slices := (cl_slices c)(s := None)\<rparr>) x y d \<or>
      x = (Slice, [], s) \<and> y = node_key nd \<and> d = Some (node_key nd)" for x y d
    by (auto elim!: spec_edge.cases intro: spec_edge.intros split: if_splits)
  then show "spec_edges (c\<lparr>cl_slices := (cl_slices c)(s \<mapsto> nd)\<rparr>) =
      insert ((Slice, [], s), node_key nd, Some (node_key nd)) (without (Slice, [], s) (spec_edges c))"
    unfolding without_objects(4) [OF assms] by (auto simp: spec_edges_def)
  have "spec_edge (c\<lparr>cl_pcrs := (cl_pcrs c)((ns, r) \<mapsto> nd)\<rparr>) x y d \<longleftrightarrow>
      spec_edge (c\<lparr>cl_pcrs := (cl_pcrs c)((ns, r) := None)\<rparr>) x y d \<or>
      x = (Pcr, ns, r) \<and> y = node_key nd \<and> d = Some (node_key nd)" for x y d
    by (auto elim!: spec_edge.cases intro: spec_edge.intros split: if_splits)
  then show "spec_edges (c\<lparr>cl_pcrs := (cl_pcrs c)((ns, r) \<mapsto> nd)\<rparr>) =
      insert ((Pcr, ns, r), node_key nd, Some (node_key nd)) (without (Pcr, ns, r) (spec_edges c))"
    unfolding without_objects(5) [OF assms] by (auto simp: spec_edges_def)
qed

section \<open>Sequences of operations\<close>

datatype graph_event =
    AddPod pod
  | DeletePod string string
  | AddPv persistent_volume
  | DeletePv string
  | AddVa string string
  | DeleteVa string
  | AddSlice string string
  | DeleteSlice string
  | AddPcr pcr
  | DeletePcr string string

fun apply_event :: "graph_event \<Rightarrow> graph_inner \<Rightarrow> graph_inner or_panic" where
  "apply_event (AddPod p) g = graph_add_pod p g"
| "apply_event (DeletePod nm ns) g = Some (graph_delete_pod nm ns g)"
| "apply_event (AddPv pv) g = graph_add_pv pv g"
| "apply_event (DeletePv nm) g = Some (graph_delete_pv nm g)"
| "apply_event (AddVa nm nd) g = add_volume_attachment nm nd g"
| "apply_event (DeleteVa nm) g = Some (graph_delete_volume_attachment nm g)"
| "apply_event (AddSlice nm nd) g = add_resource_slice nm nd g"
| "apply_event (DeleteSlice nm) g = Some (delete_resource_slice nm g)"
| "apply_event (AddPcr r) g = add_pod_certificate_request r g"
| "apply_event (DeletePcr ns nm) g = Some (graph_delete_pcr_by_key ns nm g)"

fun run_events :: "graph_event list \<Rightarrow> graph_inner \<Rightarrow> graph_inner or_panic" where
  "run_events [] g = Some g"
| "run_events (ev # evs) g = Option.bind (apply_event ev g) (run_events evs)"

text \<open>What is declared after an event: the last declaration of every object that was not deleted since.\<close>

fun declare_event :: "graph_event \<Rightarrow> cluster \<Rightarrow> cluster" where
  "declare_event (AddPod p) c =
     c\<lparr>cl_pods := (cl_pods c)((namespace_of (p_meta p), meta_name (p_meta p)) \<mapsto> (pod_node_name p, set (pod_refs p)))\<rparr>"
| "declare_event (DeletePod nm ns) c = c\<lparr>cl_pods := (cl_pods c)((ns, nm) := None)\<rparr>"
| "declare_event (AddPv pv) c =
     c\<lparr>cl_pvs := (cl_pvs c)(pv_name pv :=
       (case claim_ref pv of
          None \<Rightarrow> None
        | Some (cns, cn) \<Rightarrow> Some ((str_or_empty cns, str_or_empty cn),
                               {(sn, s). (sn, s, True) \<in> set (visit_pv_secret_names pv)})))\<rparr>"
| "declare_event (DeletePv nm) c = c\<lparr>cl_pvs := (cl_pvs c)(nm := None)\<rparr>"
| "declare_event (AddVa nm nd) c = c\<lparr>cl_vas := (cl_vas c)(nm := if nd = [] then None else Some nd)\<rparr>"
| "declare_event (DeleteVa nm) c = c\<lparr>cl_vas := (cl_vas c)(nm := None)\<rparr>"
| "declare_event (AddSlice nm nd) c = c\<lparr>cl_slices := (cl_slices c)(nm := if nd = [] then None else Some nd)\<rparr>"
| "declare_event (DeleteSlice nm) c = c\<lparr>cl_slices := (cl_slices c)(nm := None)\<rparr>"
| "declare_event (AddPcr r) c =
     c\<lparr>cl_pcrs := (cl_pcrs c)((namespace_of (pcr_meta r), meta_name (pcr_meta r)) \<mapsto> pcr_node_name r)\<rparr>"
| "declare_event (DeletePcr ns nm) c = c\<lparr>cl_pcrs := (cl_pcrs c)((ns, nm) := None)\<rparr>"

abbreviation declared :: "graph_event list \<Rightarrow> cluster" where
  "declared evs \<equiv> fold declare_event evs no_objects"

text \<open>A pod that refers to an object in two places, such as a secret of two containers.\<close>

definition repeats :: "graph_event \<Rightarrow> bool" where
  "repeats ev \<longleftrightarrow> (case ev of AddPod p \<Rightarrow> \<not> distinct (pod_refs p) | _ \<Rightarrow> False)"

lemma cl_ok_event: "cl_ok c \<Longrightarrow> cl_ok (declare_event ev c)"
  using pod_refs_types by (cases ev) (auto simp: cl_ok_def)

lemma add_pod_rel:
  assumes r: "graph_rel strict g (spec_edges c)" and c: "cl_ok c" and d: "strict \<Longrightarrow> distinct (pod_refs p)"
  shows "\<exists>g'. graph_add_pod p g = Some g' \<and> graph_rel strict g' (spec_edges (declare_event (AddPod p) c))"
proof -
  let ?ns = "namespace_of (p_meta p)" and ?nm = "meta_name (p_meta p)" and ?nk = "node_key (pod_node_name p)"
  let ?E = "without (Pod, ?ns, ?nm) (spec_edges c)"
  let ?F = "insert ((Pod, ?ns, ?nm), ?nk, Some ?nk) ?E"
  have "graph_rel strict (delete_vertex Pod ?ns ?nm g) ?E"
    using rel_delete [OF r dest_ok_spec [OF c]] by simp
  then obtain i g1 where g1: "get_or_create_vertex Pod ?ns ?nm (delete_vertex Pod ?ns ?nm g) = Some (i, g1)"
      "graph_rel strict g1 ?E" "names g1 i (Pod, ?ns, ?nm)"
    by (rule rel_get_or_create) blast
  obtain j g2 where g2: "get_or_create_vertex Node [] (pod_node_name p) g1 = Some (j, g2)" "graph_rel strict g2 ?E"
      "names g2 j ?nk" "extends g1 g2"
    using rel_get_or_create [OF g1(2)] .
  note np = extends_names [OF g2(4) g1(3)]
  have ne: "(Pod, ?ns, ?nm) \<noteq> ?nk" by simp
  have old: "\<forall>x. (((Pod, ?ns, ?nm), ?nk, x) \<in> ?E \<longrightarrow> x = Some ?nk) \<and> (?nk, (Pod, ?ns, ?nm), x) \<notin> ?E"
    "strict \<longrightarrow> ((Pod, ?ns, ?nm), ?nk, Some ?nk) \<notin> ?E"
    by (auto simp: in_without)
  obtain g3 where g3: "add_edge i j (Some j) g2 = Some g3" "graph_rel strict g3 ?F" "extends g2 g3"
    using rel_add_dest_edge [OF g2(2) np g2(3) ne g2(3) old] by blast
  have "\<exists>g'. link_refs ?ns i j (pod_refs p) g3 = Some g' \<and>
      graph_rel strict g' (?F \<union> {((t, ?ns, x), (Pod, ?ns, ?nm), Some ?nk) |t x. (t, x) \<in> set (pod_refs p)}) \<and> extends g3 g'"
  proof (rule rel_link_refs [OF g3(2) extends_names [OF g3(3) np] extends_names [OF g3(3) g2(3)] pod_refs_types])
    show "t \<in> ref_types \<Longrightarrow> ((Pod, ?ns, ?nm), (t, ?ns, x), d) \<notin> ?F" for t x d
      by (auto simp: in_without in_ref_types)
    show "t \<in> ref_types \<Longrightarrow> ((t, ?ns, x), (Pod, ?ns, ?nm), d) \<in> ?F \<Longrightarrow> d = Some ?nk" for t x d
      by (auto simp: in_without in_ref_types)
    show "strict \<Longrightarrow> distinct (pod_refs p) \<and> (\<forall>(t, x)\<in>set (pod_refs p). ((t, ?ns, x), (Pod, ?ns, ?nm), Some ?nk) \<notin> ?F)"
      using d by (auto simp: in_without)
  qed
  moreover have "spec_edges (declare_event (AddPod p) c) =
      ?F \<union> {((t, ?ns, x), (Pod, ?ns, ?nm), Some ?nk) |t x. (t, x) \<in> set (pod_refs p)}"
    unfolding declare_event.simps by (rule spec_edges_add_pod [OF c pod_refs_types])
  ultimately show ?thesis using g1(1) g2(1) g3(1) by (auto simp: graph_add_pod_refs)
qed

lemma add_pv_rel:
  assumes r: "graph_rel strict g (spec_edges c)" and c: "cl_ok c"
  shows "\<exists>g'. graph_add_pv pv g = Some g' \<and> graph_rel strict g' (spec_edges (declare_event (AddPv pv) c))"
proof -
  let ?k = "(Pv, [], pv_name pv) :: vkey"
  let ?E = "without ?k (spec_edges c)"
  have del: "graph_rel strict (delete_vertex Pv [] (pv_name pv) g) ?E"
    using rel_delete [OF r dest_ok_spec [OF c]] by simp
  show ?thesis
  proof (cases "claim_ref pv")
    case None
    then show ?thesis using del without_objects(2) [OF c] by (simp add: graph_add_pv_def)
  next
    case (Some cl)
    obtain cns cn where cl: "cl = (cns, cn)" by (cases cl)
    let ?ck = "(Pvc, str_or_empty cns, str_or_empty cn) :: vkey"
    let ?F = "insert (?k, ?ck, None) ?E"
    obtain i g1 where g1: "get_or_create_vertex Pv [] (pv_name pv) (delete_vertex Pv [] (pv_name pv) g) = Some (i, g1)"
        "graph_rel strict g1 ?E" "names g1 i ?k"
      using rel_get_or_create [OF del] by metis
    obtain j g2 where g2: "get_or_create_vertex Pvc (str_or_empty cns) (str_or_empty cn) g1 = Some (j, g2)"
        "graph_rel strict g2 ?E" "names g2 j ?ck" "extends g1 g2"
      using rel_get_or_create [OF g1(2)] .
    note np = extends_names [OF g2(4) g1(3)]
    have ne: "?k \<noteq> ?ck" and auth: "\<not> has_authoritative_index (fst ?k)" by (simp_all add: has_authoritative_index_def)
    have old: "\<forall>x. ((?k, ?ck, x) \<in> ?E \<longrightarrow> x = None) \<and> (?ck, ?k, x) \<notin> ?E" by (simp add: in_without)
    obtain g3 where g3: "add_edge i j None g2 = Some g3" "graph_rel strict g3 ?F" "extends g2 g3"
      using rel_add_plain_edge [OF g2(2) np g2(3) ne auth old] by blast
    have "\<exists>g'. link_secrets i (visit_pv_secret_names pv) g3 = Some g' \<and>
        graph_rel strict g' (?F \<union> {((Secret, sn, s), ?k, None) |sn s. (sn, s, True) \<in> set (visit_pv_secret_names pv)})"
      by (rule rel_link_secrets [OF g3(2) extends_names [OF g3(3) np]]) (auto simp: in_without)
    moreover have "spec_edges (declare_event (AddPv pv) c) =
        ?F \<union> {((Secret, sn, s), ?k, None) |sn s. (sn, s, True) \<in> set (visit_pv_secret_names pv)}"
      using Some cl by (simp add: spec_edges_add_pv [OF c])
    ultimately show ?thesis using Some cl g1(1) g2(1) g3(1) by (auto simp: graph_add_pv_def)
  qed
qed

lemma to_node_rel:
  assumes r: "graph_rel strict g (spec_edges c)" and c: "cl_ok c" and t: "t \<noteq> Node"
  shows "\<exists>g'. link_to_node t ns n nd (delete_vertex t ns n g) = Some g' \<and>
    graph_rel strict g' (insert ((t, ns, n), node_key nd, Some (node_key nd)) (without (t, ns, n) (spec_edges c)))"
  by (rule rel_link_to_node [OF rel_delete [OF r dest_ok_spec [OF c] t] t]) (simp_all add: in_without)

lemma event_rel:
  assumes r: "graph_rel strict g (spec_edges c)" and c: "cl_ok c" and d: "strict \<Longrightarrow> \<not> repeats ev"
  shows "\<exists>g'. apply_event ev g = Some g' \<and> graph_rel strict g' (spec_edges (declare_event ev c))"
proof (cases ev)
  case (AddPod p) then show ?thesis using add_pod_rel [OF r c] d by (simp add: repeats_def)
next
  case (AddPv pv) then show ?thesis using add_pv_rel [OF r c] by simp
next
  case (AddVa nm nd)
  then show ?thesis
    using to_node_rel [OF r c, of Va "[]" nm nd] rel_delete [OF r dest_ok_spec [OF c], of Va "[]" nm]
    by (cases "nd = []") (simp_all add: add_volume_attachment_def without_objects [OF c] spec_edges_add_to_node [OF c])
next
  case (AddSlice nm nd)
  then show ?thesis
    using to_node_rel [OF r c, of Slice "[]" nm nd] rel_delete [OF r dest_ok_spec [OF c], of Slice "[]" nm]
    by (cases "nd = []") (simp_all add: add_resource_slice_def without_objects [OF c] spec_edges_add_to_node [OF c])
next
  case (AddPcr q)
  then show ?thesis
    using to_node_rel [OF r c, of Pcr "namespace_of (pcr_meta q)" "meta_name (pcr_meta q)" "pcr_node_name q"]
    by (simp add: add_pod_certificate_request_def Let_def spec_edges_add_to_node [OF c])
qed (use rel_delete [OF r dest_ok_spec [OF c]] in \<open>simp_all add: graph_delete_pod_def graph_delete_pv_def
    graph_delete_volume_attachment_def delete_resource_slice_def graph_delete_pcr_by_key_def without_objects [OF c, symmetric]\<close>)

lemma run_events_rel:
  assumes "graph_rel strict g (spec_edges c)" and "cl_ok c" and "strict \<Longrightarrow> \<forall>ev\<in>set evs. \<not> repeats ev"
  shows "\<exists>g'. run_events evs g = Some g' \<and> graph_rel strict g' (spec_edges (fold declare_event evs c)) \<and>
    cl_ok (fold declare_event evs c)"
  using assms
proof (induction evs arbitrary: g c)
  case (Cons ev evs)
  obtain g1 where g1: "apply_event ev g = Some g1" "graph_rel strict g1 (spec_edges (declare_event ev c))"
    using event_rel [OF Cons.prems(1,2)] Cons.prems(3) by force
  have "\<exists>g'. run_events evs g1 = Some g' \<and> graph_rel strict g' (spec_edges (fold declare_event evs (declare_event ev c))) \<and>
      cl_ok (fold declare_event evs (declare_event ev c))"
    using Cons.prems(3) by (intro Cons.IH g1(2) cl_ok_event Cons.prems(2)) simp_all
  then show ?case using g1(1) by simp
qed simp

end
