(* ===== verification/NodeSearch.thy ===== *)
theory NodeSearch
  imports NodeRelations
begin

text \<open>
  The search of the node graph: with its pruning it finds a path to the node exactly when there is one, and with
  the index and the names it answers whether an object is related to a node, in every state the graph can reach.
\<close>

section \<open>The walk\<close>

definition links :: "graph_inner \<Rightarrow> (nat \<times> nat) set" where
  "links g = {(a, b). \<exists>e. edge_between g a b = Some e \<and> from_id e = a}"

text \<open>The pruning is right when a destination tells whether the node can be reached.\<close>

definition prunes_well :: "graph_inner \<Rightarrow> nat \<Rightarrow> bool" where
  "prunes_well g v \<longleftrightarrow>
     (\<forall>a b e d. edge_between g a b = Some e \<longrightarrow> from_id e = a \<longrightarrow> destination e = Some d \<longrightarrow>
        ((b, v) \<in> (links g)\<^sup>* \<longleftrightarrow> d = v))"

lemma visit_neighbors_result:
  assumes p: "prunes_well g v" and ns: "\<And>n. n \<in> set ns \<Longrightarrow> (t, n) \<in> links g"
    and r: "visit_neighbors g v t ns visited stack = (found, visited', stack')"
  shows "(found \<longrightarrow> (t, v) \<in> (links g)\<^sup>*) \<and>
    (\<not> found \<longrightarrow> visited \<subseteq> visited' \<and> visited' - visited \<subseteq> set ns \<and> v \<notin> visited' - visited \<and>
       set stack' = set stack \<union> (visited' - visited) \<and>
       (\<forall>n\<in>set ns. (n, v) \<in> (links g)\<^sup>* \<longrightarrow> n \<in> visited'))"
  using ns r
proof (induction ns arbitrary: visited stack)
  case (Cons n ns)
  have tn: "(t, n) \<in> links g" using Cons.prems(1) by simp
  then obtain e where e: "edge_between g t n = Some e" "from_id e = t" by (auto simp: links_def)
  have rest: "\<And>m. m \<in> set ns \<Longrightarrow> (t, m) \<in> links g" using Cons.prems(1) by simp
  have dest: "(n, v) \<in> (links g)\<^sup>* \<longleftrightarrow> d = v" if "destination e = Some d" for d
    using p e that unfolding prunes_well_def by blast
  have step: "(n, v) \<in> (links g)\<^sup>* \<Longrightarrow> (t, v) \<in> (links g)\<^sup>*" using tn by (rule converse_rtrancl_into_rtrancl)
  show ?case
  proof (cases "destination e")
    case (Some d)
    show ?thesis
    proof (cases "d = v")
      case True
      then have "found" using Cons.prems(2) e Some by (auto split: if_splits)
      then show ?thesis using step dest [OF Some] True by simp
    next
      case False
      then have "visit_neighbors g v t ns visited stack = (found, visited', stack')"
        using Cons.prems(2) e Some by simp
      from Cons.IH [OF rest this] show ?thesis using dest [OF Some] False by (cases found) auto
    qed
  next
    case None
    consider (seen) "n \<in> visited" | (hit) "n \<notin> visited" "n = v" | (new) "n \<notin> visited" "n \<noteq> v" by blast
    then show ?thesis
    proof cases
      case seen
      then have "visit_neighbors g v t ns visited stack = (found, visited', stack')"
        using Cons.prems(2) e None by simp
      from Cons.IH [OF rest this] show ?thesis using seen by (cases found) auto
    next
      case hit
      then have "found" using Cons.prems(2) e None by simp
      then show ?thesis using step hit by simp
    next
      case new
      then have "visit_neighbors g v t ns (insert n visited) (n # stack) = (found, visited', stack')"
        using Cons.prems(2) e None by simp
      from Cons.IH [OF rest this] new show ?thesis by (cases found) auto
    qed
  qed
qed simp

lemma walk_finds:
  assumes g: "graph_shape g" and p: "prunes_well g v"
    and "set stack \<subseteq> visited" and "v \<notin> visited"
    and "\<And>t n. t \<in> visited - set stack \<Longrightarrow> (t, n) \<in> links g \<Longrightarrow> (n, v) \<in> (links g)\<^sup>* \<Longrightarrow> n \<in> visited"
  shows "walk g v stack visited \<longleftrightarrow> (\<exists>t\<in>visited. (t, v) \<in> (links g)\<^sup>*)"
  using g p assms(3-)
proof (induction g v stack visited rule: walk.induct)
  case (1 g v visited)
  have "v \<in> visited" if "t \<in> visited" "(t, v) \<in> (links g)\<^sup>*" for t
    using that(2,1)
  proof (induction rule: converse_rtrancl_induct)
    case (step y z) then show ?case using "1.prems"(5) [of y z] by simp
  qed
  then show ?case using "1.prems"(4) by auto
next
  case (2 g v t stack visited)
  have succ: "n \<in> set (neighbors_from g t) \<longleftrightarrow> (t, n) \<in> links g" for n
    by (simp add: set_neighbors_from [OF "2.prems"(1)] links_def)
  obtain found visited' stack' where
    r: "visit_neighbors g v t (neighbors_from g t) visited stack = (found, visited', stack')"
    by (metis prod_cases3)
  note res = visit_neighbors_result [OF "2.prems"(2) _ r, unfolded succ]
  have t: "t \<in> visited" using "2.prems"(3) by simp
  show ?case
  proof (cases found)
    case True then show ?thesis using res t r by auto
  next
    case False
    have f: "visited \<subseteq> visited'" "visited' - visited \<subseteq> set (neighbors_from g t)" "v \<notin> visited' - visited"
        "set stack' = set stack \<union> (visited' - visited)"
        "\<And>n. (t, n) \<in> links g \<Longrightarrow> (n, v) \<in> (links g)\<^sup>* \<Longrightarrow> n \<in> visited'"
      using res False succ by auto
    have "walk g v stack' visited' \<longleftrightarrow> (\<exists>t\<in>visited'. (t, v) \<in> (links g)\<^sup>*)"
    proof (rule "2.IH" [OF r [symmetric] refl False "2.prems"(1,2)])
      show "set stack' \<subseteq> visited'" using f(1,4) "2.prems"(3) by auto
      show "v \<notin> visited'" using f(3) "2.prems"(4) by blast
      show "n \<in> visited'" if "a \<in> visited' - set stack'" "(a, n) \<in> links g" "(n, v) \<in> (links g)\<^sup>*" for a n
      proof (cases "a = t")
        case True then show ?thesis using f(5) that by simp
      next
        case False
        then have "a \<in> visited - set (t # stack)" using that(1) f(4) by auto
        then show ?thesis using "2.prems"(5) that(2,3) f(1) by blast
      qed
    qed
    moreover have "(\<exists>t\<in>visited'. (t, v) \<in> (links g)\<^sup>*) \<longleftrightarrow> (\<exists>t\<in>visited. (t, v) \<in> (links g)\<^sup>*)"
      using f(1,2) succ t by (meson Diff_iff converse_rtrancl_into_rtrancl subsetD)
    ultimately show ?thesis using r False by simp
  qed
qed

section \<open>Related objects\<close>

definition used_by_pod :: "cluster \<Rightarrow> string \<Rightarrow> vertex_type \<Rightarrow> string \<Rightarrow> string \<Rightarrow> bool" where
  "used_by_pod c nd t ns x \<longleftrightarrow> (\<exists>n refs. cl_pods c (ns, n) = Some (nd, refs) \<and> (t, x) \<in> refs)"

text \<open>An object is related to a node if it is a pod of the node, used by one, a volume claimed by one, a secret
  of such a volume, or bound to the node itself.\<close>

definition related :: "cluster \<Rightarrow> string \<Rightarrow> vertex_type \<Rightarrow> string \<Rightarrow> string \<Rightarrow> bool" where
  "related c nd t ns x \<longleftrightarrow>
     (case t of
        Node \<Rightarrow> False
      | Pod \<Rightarrow> (\<exists>refs. cl_pods c (ns, x) = Some (nd, refs))
      | Va \<Rightarrow> ns = [] \<and> cl_vas c x = Some nd
      | Slice \<Rightarrow> ns = [] \<and> cl_slices c x = Some nd
      | Pcr \<Rightarrow> cl_pcrs c (ns, x) = Some nd
      | Pv \<Rightarrow> ns = [] \<and> (\<exists>cns cn secrets. cl_pvs c x = Some ((cns, cn), secrets) \<and> used_by_pod c nd Pvc cns cn)
      | Secret \<Rightarrow>
          used_by_pod c nd Secret ns x \<or>
          (\<exists>pv cns cn secrets. cl_pvs c pv = Some ((cns, cn), secrets) \<and> (ns, x) \<in> secrets \<and> used_by_pod c nd Pvc cns cn)
      | _ \<Rightarrow> used_by_pod c nd t ns x)"

definition reach :: "cluster \<Rightarrow> string \<Rightarrow> vkey \<Rightarrow> bool" where
  "reach c nd x \<longleftrightarrow> (x, node_key nd) \<in> {(x, y). \<exists>d. spec_edge c x y d}\<^sup>*"

lemma reach_unfold: "reach c nd x \<longleftrightarrow> x = node_key nd \<or> (\<exists>y d. spec_edge c x y d \<and> reach c nd y)"
proof
  assume "reach c nd x"
  then show "x = node_key nd \<or> (\<exists>y d. spec_edge c x y d \<and> reach c nd y)"
    unfolding reach_def by (cases rule: converse_rtranclE) auto
next
  assume "x = node_key nd \<or> (\<exists>y d. spec_edge c x y d \<and> reach c nd y)"
  then show "reach c nd x" unfolding reach_def by (auto intro: converse_rtrancl_into_rtrancl)
qed

lemma cl_ok_ref: "cl_ok c \<Longrightarrow> cl_pods c k = Some (nd, refs) \<Longrightarrow> (t, x) \<in> refs \<Longrightarrow> t \<in> ref_types"
  unfolding cl_ok_def by blast

lemma spec_edge_from:
  assumes "cl_ok c"
  shows "spec_edge c (Node, ns, n) y d \<longleftrightarrow> False"
    and "spec_edge c (Pod, ns, n) y d \<longleftrightarrow>
      (\<exists>nd refs. cl_pods c (ns, n) = Some (nd, refs) \<and> y = node_key nd \<and> d = Some (node_key nd))"
  by (auto simp: spec_edge.simps in_ref_types dest: cl_ok_ref [OF assms])

lemma reach_node:
  assumes "cl_ok c"
  shows "reach c nd (Node, ns, n) \<longleftrightarrow> ns = [] \<and> n = nd"
    and "reach c nd (Pod, ns, n) \<longleftrightarrow> (\<exists>refs. cl_pods c (ns, n) = Some (nd, refs))"
proof -
  show node: "reach c nd (Node, ns, n) \<longleftrightarrow> ns = [] \<and> n = nd" for ns n
    by (subst reach_unfold) (auto simp: spec_edge_from [OF assms])
  show "reach c nd (Pod, ns, n) \<longleftrightarrow> (\<exists>refs. cl_pods c (ns, n) = Some (nd, refs))"
    by (subst reach_unfold) (auto simp: spec_edge_from [OF assms] node)
qed

lemma reach_via:
  assumes "x \<noteq> node_key nd" and "\<And>y. (\<exists>d. spec_edge c x y d) \<longleftrightarrow> Q y"
  shows "reach c nd x \<longleftrightarrow> (\<exists>y. Q y \<and> reach c nd y)"
  using reach_unfold [of c nd x] assms by metis

lemma pods_reach:
  assumes "cl_ok c"
  shows "(\<exists>n nd' refs. cl_pods c (ns, n) = Some (nd', refs) \<and> (t, x) \<in> refs \<and> reach c nd (Pod, ns, n)) \<longleftrightarrow>
    used_by_pod c nd t ns x"
  unfolding reach_node(2) [OF assms] used_by_pod_def by fastforce

lemma reach_used:
  assumes "cl_ok c" and t: "t \<in> {ServiceAccount, ConfigMap, ResourceClaim, Pvc}"
  shows "reach c nd (t, ns, x) \<longleftrightarrow> used_by_pod c nd t ns x"
proof -
  have "(\<exists>d. spec_edge c (t, ns, x) y d) \<longleftrightarrow>
      (\<exists>n nd refs. cl_pods c (ns, n) = Some (nd, refs) \<and> (t, x) \<in> refs \<and> y = (Pod, ns, n))" for y
    using t by (auto simp: spec_edge.simps)
  then have "reach c nd (t, ns, x) \<longleftrightarrow> (\<exists>y. (\<exists>n nd refs. cl_pods c (ns, n) = Some (nd, refs) \<and> (t, x) \<in> refs \<and> y = (Pod, ns, n))
      \<and> reach c nd y)"
    using t by (intro reach_via) auto
  then show ?thesis using pods_reach [OF assms(1), of ns t x nd] by blast
qed

lemma reach_bound:
  assumes "cl_ok c"
  shows "reach c nd (Va, ns, x) \<longleftrightarrow> ns = [] \<and> cl_vas c x = Some nd"
    and "reach c nd (Slice, ns, x) \<longleftrightarrow> ns = [] \<and> cl_slices c x = Some nd"
    and "reach c nd (Pcr, ns, x) \<longleftrightarrow> cl_pcrs c (ns, x) = Some nd"
  by (subst reach_unfold; auto simp: spec_edge.simps reach_node [OF assms] in_ref_types dest: cl_ok_ref [OF assms])+

lemma reach_volume:
  assumes "cl_ok c"
  shows "reach c nd (Pv, ns, x) \<longleftrightarrow>
      ns = [] \<and> (\<exists>cns cn secrets. cl_pvs c x = Some ((cns, cn), secrets) \<and> used_by_pod c nd Pvc cns cn)"
proof -
  have "spec_edge c (Pv, ns, x) y d \<longleftrightarrow>
      ns = [] \<and> (\<exists>cns cn secrets. cl_pvs c x = Some ((cns, cn), secrets) \<and> y = (Pvc, cns, cn) \<and> d = None)" for y d
    by (auto simp: spec_edge.simps in_ref_types dest: cl_ok_ref [OF assms])
  then show ?thesis by (subst reach_unfold) (auto simp: reach_used [OF assms])
qed

lemma reach_secret:
  assumes "cl_ok c"
  shows "reach c nd (Secret, ns, x) \<longleftrightarrow> used_by_pod c nd Secret ns x \<or>
      (\<exists>pv cns cn secrets. cl_pvs c pv = Some ((cns, cn), secrets) \<and> (ns, x) \<in> secrets \<and> used_by_pod c nd Pvc cns cn)"
proof -
  have "(\<exists>d. spec_edge c (Secret, ns, x) y d) \<longleftrightarrow>
      (\<exists>n nd refs. cl_pods c (ns, n) = Some (nd, refs) \<and> (Secret, x) \<in> refs \<and> y = (Pod, ns, n)) \<or>
      (\<exists>pv claim secrets. cl_pvs c pv = Some (claim, secrets) \<and> (ns, x) \<in> secrets \<and> y = (Pv, [], pv))" for y
    by (auto simp: spec_edge.simps)
  then have "reach c nd (Secret, ns, x) \<longleftrightarrow>
      (\<exists>y. ((\<exists>n nd refs. cl_pods c (ns, n) = Some (nd, refs) \<and> (Secret, x) \<in> refs \<and> y = (Pod, ns, n)) \<or>
        (\<exists>pv claim secrets. cl_pvs c pv = Some (claim, secrets) \<and> (ns, x) \<in> secrets \<and> y = (Pv, [], pv))) \<and> reach c nd y)"
    by (intro reach_via) simp_all
  then have "reach c nd (Secret, ns, x) \<longleftrightarrow>
      used_by_pod c nd Secret ns x \<or>
      (\<exists>pv claim secrets. cl_pvs c pv = Some (claim, secrets) \<and> (ns, x) \<in> secrets \<and> reach c nd (Pv, [], pv))"
    using pods_reach [OF assms, of ns Secret x nd] by blast
  also have "(\<exists>pv claim secrets. cl_pvs c pv = Some (claim, secrets) \<and> (ns, x) \<in> secrets \<and> reach c nd (Pv, [], pv)) \<longleftrightarrow>
      (\<exists>pv cns cn secrets. cl_pvs c pv = Some ((cns, cn), secrets) \<and> (ns, x) \<in> secrets \<and> used_by_pod c nd Pvc cns cn)"
    unfolding reach_volume [OF assms] by fastforce
  finally show ?thesis .
qed

lemma reach_related:
  assumes "cl_ok c" and "t \<noteq> Node"
  shows "reach c nd (t, ns, x) \<longleftrightarrow> related c nd t ns x"
  using assms(2) by (cases t)
    (simp_all add: related_def reach_node [OF assms(1)] reach_used [OF assms(1)] reach_bound [OF assms(1)]
      reach_volume [OF assms(1)] reach_secret [OF assms(1)])

section \<open>The answer of the graph\<close>

lemma names_unique:
  assumes "graph_shape g"
  shows "names g i x \<Longrightarrow> names g i y \<Longrightarrow> x = y" and "names g i x \<Longrightarrow> names g j x \<Longrightarrow> i = j"
  using vkey_inj [OF assms] by (auto simp: names_def)

lemma edge_named_names:
  "edge_named g e (x, y, d) \<longleftrightarrow> names g (from_id e) x \<and> names g (to_id e) y \<and>
     (case destination e of None \<Rightarrow> d = None | Some i \<Rightarrow> (\<exists>u. names g i u \<and> d = Some u))"
  unfolding edge_named.simps names_def by (cases "destination e") (simp_all only: option.case, metis)

lemma edge_spec:
  assumes r: "graph_rel strict g (spec_edges c)" and e: "edge_between g a b = Some e" "from_id e = a"
  obtains x y d where "names g a x" and "names g b y" and "spec_edge c x y d"
    and "case destination e of None \<Rightarrow> d = None | Some i \<Rightarrow> (\<exists>u. names g i u \<and> d = Some u)"
proof -
  have g: "graph_shape g" and im: "implements g (spec_edges c)" using r by (auto simp: graph_rel_def)
  obtain x y d where k: "(x, y, d) \<in> spec_edges c" "edge_named g e (x, y, d)" using implements_edge [OF im e(1)] .
  have "to_id e = b" using edge_ends(1) [OF g e(1)] e(2) by simp
  then show thesis using that [of x y d] k e(2) unfolding edge_named_names spec_edges_simps by simp
qed

lemma spec_edge_link:
  assumes r: "graph_rel strict g (spec_edges c)" and s: "spec_edge c x y d" and x: "names g a x"
  obtains b e where "names g b y" and "edge_between g a b = Some e" and "from_id e = a"
    and "case destination e of None \<Rightarrow> d = None | Some i \<Rightarrow> (\<exists>u. names g i u \<and> d = Some u)"
proof -
  have g: "graph_shape g" and im: "implements g (spec_edges c)" using r by (auto simp: graph_rel_def)
  obtain e where e: "edge_between g (from_id e) (to_id e) = Some e" "edge_named g e (x, y, d)"
    using implements_named [OF im] s unfolding spec_edges_simps [symmetric] by metis
  note nm = e(2) [unfolded edge_named_names]
  then have "from_id e = a" using names_unique(2) [OF g] x by blast
  then show thesis using that [of "to_id e" e] e(1) nm by simp
qed

lemma spec_edge_named:
  assumes r: "graph_rel strict g (spec_edges c)" and s: "spec_edge c x y d"
  shows "\<exists>a. names g a x" and "\<exists>b. names g b y"
proof -
  have im: "implements g (spec_edges c)" using r by (simp add: graph_rel_def)
  obtain e where "edge_named g e (x, y, d)"
    using implements_named [OF im] s unfolding spec_edges_simps [symmetric] by metis
  then show "\<exists>a. names g a x" "\<exists>b. names g b y" unfolding edge_named_names by blast+
qed

lemma links_reach:
  assumes r: "graph_rel strict g (spec_edges c)" and v: "names g v (node_key nd)" and a: "names g a x"
  shows "(a, v) \<in> (links g)\<^sup>* \<longleftrightarrow> reach c nd x"
proof
  have g: "graph_shape g" using r by (simp add: graph_rel_def)
  assume "(a, v) \<in> (links g)\<^sup>*"
  then show "reach c nd x" using a
  proof (induction arbitrary: x rule: converse_rtrancl_induct)
    case base
    then have "x = node_key nd" using names_unique(1) [OF g] v by blast
    then show ?case by (simp add: reach_def)
  next
    case (step a b)
    then obtain e where e: "edge_between g a b = Some e" "from_id e = a" by (auto simp: links_def)
    obtain x' y d where s: "names g a x'" "names g b y" "spec_edge c x' y d" by (rule edge_spec [OF r e])
    then have "x' = x" using names_unique(1) [OF g] step.prems by blast
    then show ?case using s(3) step.IH [OF s(2)] reach_unfold by blast
  qed
next
  have g: "graph_shape g" using r by (simp add: graph_rel_def)
  assume "reach c nd x"
  then show "(a, v) \<in> (links g)\<^sup>*" using a unfolding reach_def
  proof (induction arbitrary: a rule: converse_rtrancl_induct)
    case base then show ?case using names_unique(2) [OF g] v by blast
  next
    case (step x y)
    then obtain d where s: "spec_edge c x y d" by blast
    obtain b e where "names g b y" "edge_between g a b = Some e" "from_id e = a"
      by (rule spec_edge_link [OF r s step.prems])
    then show ?case using step.IH by (auto simp: links_def intro: converse_rtrancl_into_rtrancl)
  qed
qed

lemma rel_prunes_well:
  assumes r: "graph_rel strict g (spec_edges c)" and c: "cl_ok c" and v: "names g v (node_key nd)"
  shows "prunes_well g v"
  unfolding prunes_well_def
proof (intro allI impI)
  have g: "graph_shape g" using r by (simp add: graph_rel_def)
  fix a b e d
  assume e: "edge_between g a b = Some e" "from_id e = a" and d: "destination e = Some d"
  obtain x y z' where s': "names g b y" "spec_edge c x y z'"
      "case destination e of None \<Rightarrow> z' = None | Some i \<Rightarrow> (\<exists>u. names g i u \<and> z' = Some u)"
    by (rule edge_spec [OF r e])
  then obtain z where s: "names g b y" "spec_edge c x y (Some z)" "names g d z"
    unfolding d option.case by blast
  have "reach c nd y \<longleftrightarrow> z = node_key nd"
    using s(2) c by (cases rule: spec_edge.cases) (auto simp: reach_node)
  moreover have "z = node_key nd \<longleftrightarrow> d = v" using names_unique [OF g] s(3) v by blast
  ultimately show "(b, v) \<in> (links g)\<^sup>* \<longleftrightarrow> d = v" using links_reach [OF r v s(1)] by simp
qed

lemma related_vertices:
  assumes r: "graph_rel strict g (spec_edges c)" and c: "cl_ok c" and t: "t \<noteq> Node" and rel: "related c nd t ns x"
  shows "\<exists>v. names g v (node_key nd)" and "\<exists>a. names g a (t, ns, x)"
proof -
  have reach: "reach c nd (t, ns, x)" using rel reach_related [OF c t] by simp
  moreover have ne: "(t, ns, x) \<noteq> node_key nd" using t by simp
  ultimately obtain y d where "spec_edge c (t, ns, x) y d" using reach_unfold by blast
  then show "\<exists>a. names g a (t, ns, x)" by (rule spec_edge_named [OF r])
  from reach ne obtain z d where "spec_edge c z (node_key nd) d"
    unfolding reach_def by (cases rule: rtranclE) auto
  then show "\<exists>v. names g v (node_key nd)" by (rule spec_edge_named [OF r])
qed

lemma vertex_id_names: "graph_shape g \<Longrightarrow> get_vertex_id t ns nm g = Some i \<longleftrightarrow> names g i (t, ns, nm)"
  by (simp add: shape_lookup names_def)

text \<open>An index that counts exactly, or none, decides as the walk does.\<close>

lemma index_decides:
  assumes r: "graph_rel strict g (spec_edges c)" and c: "cl_ok c"
    and v: "names g v (node_key nd)" and a: "names g a (t, ns, x)" and t: "t \<noteq> Node"
    and s: "destination_edge_index g a = Some s"
  shows "strict \<Longrightarrow> has s v \<Longrightarrow> reach c nd (t, ns, x)"
    and "has_authoritative_index t \<Longrightarrow> reach c nd (t, ns, x) \<Longrightarrow> has s v"
proof -
  have cn: "counts strict [] g" using r by (simp add: graph_rel_def)
  have pw: "prunes_well g v" by (rule rel_prunes_well [OF r c v])
  note count = countsD [OF cn s, of v]
  show "reach c nd (t, ns, x)" if strict "has s v"
  proof -
    have "0 < card (out_edges g a (Some v))" using count(2) that by (simp add: has_def pending_def)
    then have "out_edges g a (Some v) \<noteq> {}" by (metis card.empty less_irrefl)
    then obtain b where "b \<in> out_edges g a (Some v)" by blast
    then obtain e where e: "edge_between g a b = Some e" "from_id e = a" "destination e = Some v"
      by (auto simp: out_edges_def)
    then have "(b, v) \<in> (links g)\<^sup>*" "(a, b) \<in> links g"
      using pw unfolding prunes_well_def links_def by blast+
    then show ?thesis using links_reach [OF r v a] by (meson converse_rtrancl_into_rtrancl)
  qed
  show "has s v" if auth: "has_authoritative_index t" and reach: "reach c nd (t, ns, x)"
  proof -
    obtain y d where y: "spec_edge c (t, ns, x) y d" "reach c nd y" using reach reach_unfold t by blast
    obtain b e where e: "names g b y" "edge_between g a b = Some e" "from_id e = a"
        "case destination e of None \<Rightarrow> d = None | Some i \<Rightarrow> (\<exists>u. names g i u \<and> d = Some u)"
      by (rule spec_edge_link [OF r y(1) a])
    have "d \<noteq> None" using y(1) auth by (cases rule: spec_edge.cases) (auto simp: has_authoritative_index_def)
    then obtain i where i: "destination e = Some i" using e(4) by (cases "destination e") auto
    have "(b, v) \<in> (links g)\<^sup>*" using links_reach [OF r v e(1)] y(2) by simp
    then have "i = v" using pw e(2,3) i unfolding prunes_well_def by blast
    then have "b \<in> out_edges g a (Some v)" using e(2,3) i by (auto simp: out_edges_def)
    then have "0 < card (out_edges g a (Some v))" by (auto simp: card_gt_0_iff)
    then show ?thesis using count(1) by (simp add: has_def)
  qed
qed

lemma search_finds:
  assumes r: "graph_rel strict g (spec_edges c)" and c: "cl_ok c"
    and v: "names g v (node_key nd)" and a: "names g a (t, ns, x)" and t: "t \<noteq> Node"
  shows "a = v \<or> walk g v [a] {a} \<longleftrightarrow> reach c nd (t, ns, x)"
proof -
  have g: "graph_shape g" using r by (simp add: graph_rel_def)
  have av: "a \<noteq> v" using names_unique(1) [OF g a] v t by auto
  have "walk g v [a] {a} \<longleftrightarrow> (\<exists>t\<in>{a}. (t, v) \<in> (links g)\<^sup>*)"
    by (rule walk_finds [OF g rel_prunes_well [OF r c v]]) (use av in simp_all)
  then show ?thesis using av links_reach [OF r v a] by simp
qed

lemma has_path_related:
  assumes r: "graph_rel strict g (spec_edges c)" and c: "cl_ok c" and t: "t \<noteq> Node"
  shows "related c nd t ns x \<Longrightarrow> has_path_from nd t ns x g = Inr True"
    and "strict \<Longrightarrow> has_path_from nd t ns x g = Inr True \<Longrightarrow> related c nd t ns x"
proof -
  have g: "graph_shape g" using r by (simp add: graph_rel_def)
  have main: "(related c nd t ns x \<longrightarrow> has_path_from nd t ns x g = Inr True) \<and>
      (strict \<longrightarrow> has_path_from nd t ns x g = Inr True \<longrightarrow> related c nd t ns x)"
  proof (cases "(\<exists>v. names g v (node_key nd)) \<and> (\<exists>a. names g a (t, ns, x))")
    case False
    then have none: "get_vertex_id Node [] nd g = None \<or> get_vertex_id t ns x g = None"
      using vertex_id_names [OF g] by (metis not_Some_eq)
    have "has_path_from nd t ns x g \<noteq> Inr True"
      using none by (auto simp: has_path_from_def split: option.splits)
    then show ?thesis using related_vertices [OF r c t] False by blast
  next
    case True
    then obtain v a where v: "names g v (node_key nd)" and a: "names g a (t, ns, x)" by blast
    have ids: "get_vertex_id Node [] nd g = Some v" "get_vertex_id t ns x g = Some a"
      using v a vertex_id_names [OF g] by simp_all
    note search = search_finds [OF r c v a t] and rel = reach_related [OF c t, of nd ns x]
    show ?thesis
    proof (cases "destination_edge_index g a")
      case None then show ?thesis using ids search rel by (simp add: has_path_from_def)
    next
      case (Some s)
      note dec = index_decides [OF r c v a t Some]
      show ?thesis
        using ids search rel dec Some by (auto simp: has_path_from_def Let_def)
    qed
  qed
  then show "related c nd t ns x \<Longrightarrow> has_path_from nd t ns x g = Inr True"
    "strict \<Longrightarrow> has_path_from nd t ns x g = Inr True \<Longrightarrow> related c nd t ns x" by simp_all
qed

section \<open>Properties\<close>

abbreviation empty_graph :: "nat \<Rightarrow> graph_inner" where
  "empty_graph h \<equiv> new_graph\<lparr>destination_edge_threshold := h\<rparr>"

lemma empty_rel: "graph_rel strict (empty_graph h) (spec_edges no_objects)" and empty_ok: "cl_ok no_objects"
proof -
  have "spec_edges no_objects = {}" by (auto simp: spec_edges_def no_objects_def elim: spec_edge.cases)
  then show "graph_rel strict (empty_graph h) (spec_edges no_objects)" using rel_new by simp
  show "cl_ok no_objects" by (simp add: cl_ok_def no_objects_def)
qed

lemma graph_answers:
  assumes "run_events evs (empty_graph h) = Some g" and "\<forall>ev\<in>set evs. \<not> repeats ev" and "t \<noteq> Node"
  shows "has_path_from nd t ns x g = Inr True \<longleftrightarrow> related (declared evs) nd t ns x"
  using run_events_rel [OF empty_rel empty_ok, of True evs h] has_path_related [of True g "declared evs" t] assms by force

text \<open>The types an edge may join: what a pod uses leads to the pod, and a pod or an object of a node to the node.\<close>

definition edge_schema :: "(vertex_type \<times> vertex_type) set" where
  "edge_schema =
     {(Pod, Node), (Va, Node), (Slice, Node), (Pcr, Node), (Pv, Pvc), (Secret, Pv), (ServiceAccount, Pod), (Secret, Pod),
      (ConfigMap, Pod), (Pvc, Pod), (ResourceClaim, Pod)}"

definition well_typed :: "graph_inner \<Rightarrow> bool" where
  "well_typed g \<longleftrightarrow>
     (\<forall>a b e. edge_between g a b = Some e \<longrightarrow>
        (\<exists>v w. vert g (from_id e) = Some v \<and> vert g (to_id e) = Some w \<and> (v_type v, v_type w) \<in> edge_schema \<and>
           (\<forall>d. destination e = Some d \<longrightarrow> (\<exists>u. vert g d = Some u \<and> v_type u = Node))))"

lemma spec_edge_typed:
  assumes "spec_edge c (t, ns, x) (t', ns', x') d" and "cl_ok c"
  shows "(t, t') \<in> edge_schema" and "d = Some k \<Longrightarrow> fst k = Node"
proof -
  show "(t, t') \<in> edge_schema"
    using assms by cases (simp_all add: edge_schema_def, use assms(2) in \<open>unfold cl_ok_def ref_types_def, blast\<close>)
  show "d = Some k \<Longrightarrow> fst k = Node" using assms(1) by cases auto
qed

lemma related_well_typed:
  assumes r: "graph_rel strict g (spec_edges c)" and c: "cl_ok c"
  shows "well_typed g"
  unfolding well_typed_def
proof (intro allI impI)
  fix a b e
  assume e: "edge_between g a b = Some e"
  have im: "implements g (spec_edges c)" using r by (simp add: graph_rel_def)
  obtain x y d where k: "(x, y, d) \<in> spec_edges c" "edge_named g e (x, y, d)" by (rule implements_edge [OF im e])
  obtain v w where vw: "vert g (from_id e) = Some v" "vkey v = x" "vert g (to_id e) = Some w" "vkey w = y"
    using k(2) by auto
  have sp: "spec_edge c (vkey v) (vkey w) d" using k(1) vw by (simp add: spec_edges_simps)
  have "\<exists>u. vert g i = Some u \<and> v_type u = Node" if dest: "destination e = Some i" for i
  proof -
    obtain u where u: "vert g i = Some u" "d = Some (vkey u)" using k(2) dest by auto
    then show ?thesis using spec_edge_typed(2) [OF sp [unfolded vkey_def] c] by (simp add: vkey_def)
  qed
  then show "\<exists>v w. vert g (from_id e) = Some v \<and> vert g (to_id e) = Some w \<and> (v_type v, v_type w) \<in> edge_schema \<and>
      (\<forall>d. destination e = Some d \<longrightarrow> (\<exists>u. vert g d = Some u \<and> v_type u = Node))"
    using vw spec_edge_typed(1) [OF sp [unfolded vkey_def] c] by blast
qed


text \<open>C6. For every sequence of additions and deletions of pods, volumes, attachments, slices and certificate
  requests, and every threshold of the index: no operation panics, and the graph finds a path from every object
  to every node it is related to. If no pod refers twice to the same object, it finds no others: the search
  succeeds exactly for the related objects.\<close>

theorem node_graph_answers_relations:
  "\<exists>g. run_events evs (empty_graph h) = Some g \<and>
     (\<forall>nd t ns x. t \<noteq> Node \<longrightarrow> related (declared evs) nd t ns x \<longrightarrow> has_path_from nd t ns x g = Inr True) \<and>
     ((\<forall>ev\<in>set evs. \<not> repeats ev) \<longrightarrow>
       (\<forall>nd t ns x. t \<noteq> Node \<longrightarrow>
          (has_path_from nd t ns x g = Inr True \<longleftrightarrow> related (declared evs) nd t ns x)))"
proof -
  define strict where "strict \<longleftrightarrow> (\<forall>ev\<in>set evs. \<not> repeats ev)"
  obtain g where "run_events evs (empty_graph h) = Some g" "graph_rel strict g (spec_edges (declared evs))" "cl_ok (declared evs)"
    using run_events_rel [OF empty_rel empty_ok, of strict evs h] by (auto simp: strict_def)
  then show ?thesis using has_path_related [of strict g "declared evs"] by (intro exI [of _ g]) (auto simp: strict_def)
qed

text \<open>A pod bound to a node that uses the given secrets to pull its images.\<close>

definition pod_with :: "string \<Rightarrow> string \<Rightarrow> string list \<Rightarrow> pod" where
  "pod_with nm nd secrets =
     \<lparr>p_meta = \<lparr>meta_name = nm, meta_namespace = Some ''ns'', meta_uid = nm, meta_annotations = None,
        owner_references = None\<rparr>,
      p_spec = Some \<lparr>node_name = Some nd, service_account_name = None, image_pull_secrets = Some secrets,
        init_containers = None, containers = [], ephemeral_containers = None, volumes = None, resource_claims = None\<rparr>,
      p_status = None\<rparr>"

lemma pod_with_refs: "pod_refs (pod_with nm nd secrets) = map (Pair Secret) (nonempty secrets)"
  by (simp add: pod_with_def pod_refs_def is_mirror_pod_def visit_pod_secret_names_def flat_def
      visit_container_env_def visit_pod_configmap_names_def map_filter_simps)

lemma pod_with_simps:
  "pod_node_name (pod_with nm nd secrets) = nd" "namespace_of (p_meta (pod_with nm nd secrets)) = ''ns''"
  "meta_name (p_meta (pod_with nm nd secrets)) = nm"
  by (simp_all add: pod_with_def pod_node_name_def namespace_of_def)

theorem node_graph_answers_relations_witness:
  "\<exists>g. run_events [AddPod (pod_with ''a'' ''n1'' [''s''])] (empty_graph 200) = Some g \<and>
     has_path_from ''n1'' Secret ''ns'' ''s'' g = Inr True \<and> has_path_from ''n2'' Secret ''ns'' ''s'' g \<noteq> Inr True"
proof -
  let ?evs = "[AddPod (pod_with ''a'' ''n1'' [''s''])]"
  have rel: "related (declared ?evs) nd Secret ''ns'' ''s'' \<longleftrightarrow> nd = ''n1''" for nd
    by (auto simp: related_def used_by_pod_def no_objects_def pod_with_refs pod_with_simps)
  have "\<forall>ev\<in>set ?evs. \<not> repeats ev" by (simp add: repeats_def pod_with_refs)
  then show ?thesis
    using node_graph_answers_relations [of ?evs 200] rel [of "''n1''"] rel [of "''n2''"] by force
qed

text \<open>The counts are not exact when a pod names a secret twice: the index keeps one of the two references after
  the pod is gone, and a node that has no pod with the secret any more may still read it.\<close>

lemma repeated_reference_keeps_access:
  "let evs = [AddPod (pod_with ''c'' ''n1'' []), AddPod (pod_with ''b'' ''n2'' [''s'']),
              AddPod (pod_with ''a'' ''n1'' [''s'', ''s'']), DeletePod ''a'' ''ns''] in
   \<not> related (declared evs) ''n1'' Secret ''ns'' ''s'' \<and>
   (case run_events evs (empty_graph 1) of
      Some g \<Rightarrow> has_path_from ''n1'' Secret ''ns'' ''s'' g = Inr True | None \<Rightarrow> False)"
proof -
  have "\<not> related (declared [AddPod (pod_with ''c'' ''n1'' []), AddPod (pod_with ''b'' ''n2'' [''s'']),
              AddPod (pod_with ''a'' ''n1'' [''s'', ''s'']), DeletePod ''a'' ''ns'']) ''n1'' Secret ''ns'' ''s''"
    by (auto simp: related_def used_by_pod_def no_objects_def pod_with_refs pod_with_simps split: if_splits)
  moreover have "case run_events [AddPod (pod_with ''c'' ''n1'' []), AddPod (pod_with ''b'' ''n2'' [''s'']),
              AddPod (pod_with ''a'' ''n1'' [''s'', ''s'']), DeletePod ''a'' ''ns''] (empty_graph 1) of
      Some g \<Rightarrow> has_path_from ''n1'' Secret ''ns'' ''s'' g = Inr True | None \<Rightarrow> False"
    by code_simp
  ultimately show ?thesis by (simp add: Let_def)
qed

end
