(* ===== verification/FieldSelector.thy ===== *)
theory FieldSelector
  imports QuantityText LabelSelector JsonPatch
begin

text \<open>
  Field selectors (\<^verbatim>\<open>crates/common/src/field_selector.rs\<close>): parsing, the extraction of a field from an object
  and matching. A requirement that is matched determines the field it names; a missing field is read as empty
  and as false at the same time.
\<close>

datatype field_operator = FieldEquals | FieldNotEquals

record field_requirement =
  fr_field :: string
  fr_operator :: field_operator
  fr_value :: string

datatype field_selector_error =
    InvalidRequirement string
  | InvalidOperator string
  | FieldNotFound string

record field_selector =
  fs_requirements :: "field_requirement list"

text \<open>\<open>str::find\<close> of a pattern, with the text before and after it.\<close>

fun split_at_pattern :: "string \<Rightarrow> string \<Rightarrow> (string \<times> string) option" where
  "split_at_pattern pat [] = None"
| "split_at_pattern pat (c # cs) =
     (if take (length pat) (c # cs) = pat then Some ([], drop (length pat) (c # cs))
      else map_option (\<lambda>(a, b). (c # a, b)) (split_at_pattern pat cs))"

definition requirement_of :: "field_operator \<Rightarrow> string \<times> string \<Rightarrow> field_requirement" where
  "requirement_of oper parts = \<lparr>fr_field = trim (fst parts), fr_operator = oper, fr_value = trim (snd parts)\<rparr>"

definition parse_field_requirement :: "string \<Rightarrow> (field_selector_error, field_requirement) result" where
  "parse_field_requirement s =
     (case split_at_pattern ''!='' s of
        Some parts \<Rightarrow> Inr (requirement_of FieldNotEquals parts)
      | None \<Rightarrow>
          (case split_at_pattern ''=='' s of
             Some parts \<Rightarrow> Inr (requirement_of FieldEquals parts)
           | None \<Rightarrow>
               (case split_at_pattern ''='' s of
                  Some parts \<Rightarrow> Inr (requirement_of FieldEquals parts)
                | None \<Rightarrow> Inl (InvalidRequirement s))))"

fun parse_field_requirements :: "string list \<Rightarrow> (field_selector_error, field_requirement list) result" where
  "parse_field_requirements [] = Inr []"
| "parse_field_requirements (s # ss) =
     (case parse_field_requirement (trim s) of
        Inl e \<Rightarrow> Inl e
      | Inr r \<Rightarrow> (case parse_field_requirements ss of Inl e \<Rightarrow> Inl e | Inr rs \<Rightarrow> Inr (r # rs)))"

definition parse_field_selector :: "string \<Rightarrow> (field_selector_error, field_selector) result" where
  "parse_field_selector s =
     (if s = [] then Inr \<lparr>fs_requirements = []\<rparr>
      else
        (case parse_field_requirements (split_on CHR '','' s) of
           Inl e \<Rightarrow> Inl e
         | Inr rs \<Rightarrow> Inr \<lparr>fs_requirements = rs\<rparr>))"

definition str_at :: "json option \<Rightarrow> string" where
  "str_at v = (case Option.bind v as_str of None \<Rightarrow> [] | Some s \<Rightarrow> s)"

definition reporting_controller :: "json \<Rightarrow> string" where
  "reporting_controller resource =
     str_at (case jget resource ''reportingController'' of
               None \<Rightarrow> jget resource ''reportingComponent'' | Some v \<Rightarrow> Some v)"

fun walk_path :: "json \<Rightarrow> string list \<Rightarrow> json option" where
  "walk_path v [] = Some v"
| "walk_path v (p # ps) = (case jget v p of None \<Rightarrow> None | Some w \<Rightarrow> walk_path w ps)"

definition extract_field_value :: "json \<Rightarrow> string \<Rightarrow> string option" where
  "extract_field_value resource field_path =
     (if field_path = ''source'' then
        (let component = str_at (Option.bind (jget resource ''source'') (\<lambda>s. jget s ''component''))
         in if component = [] then Some (reporting_controller resource) else Some component)
      else if field_path = ''reportingComponent'' then Some (reporting_controller resource)
      else
        (case walk_path resource (split_on CHR ''.'' field_path) of
           None \<Rightarrow> None
         | Some (JString s) \<Rightarrow> Some s
         | Some (JInt i) \<Rightarrow> Some (show_int i)
         | Some (JNumber n) \<Rightarrow> Some n
         | Some (JBool b) \<Rightarrow> Some (if b then ''true'' else ''false'')
         | Some JNull \<Rightarrow> Some ''null''
         | Some _ \<Rightarrow> None))"

definition field_requirement_matches :: "field_requirement \<Rightarrow> json \<Rightarrow> bool" where
  "field_requirement_matches r resource =
     (let field_value = extract_field_value resource (fr_field r) in
      case fr_operator r of
        FieldEquals \<Rightarrow>
          (case field_value of
             Some fv \<Rightarrow> fv = fr_value r
           | None \<Rightarrow> fr_value r = ''false'' \<or> fr_value r = [])
      | FieldNotEquals \<Rightarrow>
          (case field_value of
             Some fv \<Rightarrow> fv \<noteq> fr_value r
           | None \<Rightarrow> fr_value r \<noteq> ''false'' \<and> fr_value r \<noteq> []))"

definition field_selector_matches :: "field_selector \<Rightarrow> json \<Rightarrow> bool" where
  "field_selector_matches sel resource =
     (if fs_requirements sel = [] then True
      else list_all (\<lambda>r. field_requirement_matches r resource) (fs_requirements sel))"

definition field_selector_is_empty :: "field_selector \<Rightarrow> bool" where
  "field_selector_is_empty sel = (fs_requirements sel = [])"

definition single_field :: "string \<Rightarrow> string \<Rightarrow> field_selector" where
  "single_field f v = \<lparr>fs_requirements = [\<lparr>fr_field = f, fr_operator = FieldEquals, fr_value = v\<rparr>]\<rparr>"

definition pod_phase :: "string \<Rightarrow> field_selector" where
  "pod_phase phase = single_field ''status.phase'' phase"

definition pod_node :: "string \<Rightarrow> field_selector" where
  "pod_node node_name = single_field ''spec.nodeName'' node_name"

definition selector_of_namespace :: "string \<Rightarrow> field_selector" where
  "selector_of_namespace namespace = single_field ''metadata.namespace'' namespace"

definition selector_of_name :: "string \<Rightarrow> field_selector" where
  "selector_of_name nm = single_field ''metadata.name'' nm"

definition show_field_selector :: "field_selector \<Rightarrow> string" where
  "show_field_selector sel =
     join '',''
       (map (\<lambda>r. fr_field r @ (case fr_operator r of FieldEquals \<Rightarrow> ''='' | FieldNotEquals \<Rightarrow> ''!='') @ fr_value r)
         (fs_requirements sel))"

section \<open>What matching tells\<close>

text \<open>An equality of a matched selector holds of the object, unless the field is missing and the value is empty or
  the word false.\<close>

lemma matched_equality:
  assumes "field_selector_matches sel resource" and "r \<in> set (fs_requirements sel)" and "fr_operator r = FieldEquals"
  shows "extract_field_value resource (fr_field r) = Some (fr_value r) \<or>
    extract_field_value resource (fr_field r) = None \<and> (fr_value r = [] \<or> fr_value r = ''false'')"
proof -
  have "field_requirement_matches r resource"
    using assms(1,2) by (auto simp: field_selector_matches_def list_all_iff split: if_splits)
  then show ?thesis
    using assms(3) by (cases "extract_field_value resource (fr_field r)") (auto simp: field_requirement_matches_def)
qed

text \<open>Equality and inequality are complementary.\<close>

lemma not_equals_complements:
  "field_requirement_matches (r\<lparr>fr_operator := FieldNotEquals\<rparr>) resource =
     (\<not> field_requirement_matches (r\<lparr>fr_operator := FieldEquals\<rparr>) resource)"
  by (auto simp: field_requirement_matches_def Let_def split: option.splits)

text \<open>A pod without a node is selected by the node name \<open>false\<close>.\<close>

lemma unscheduled_pod_matches_false:
  "field_selector_matches (pod_node ''false'') (JObject [(''spec'', JObject [])])"
  by (simp add: field_selector_matches_def pod_node_def single_field_def field_requirement_matches_def
      extract_field_value_def jget_def)

lemma parse_pod_node: "parse_field_selector ''spec.nodeName=n1'' = Inr (pod_node ''n1'')"
  by (simp add: parse_field_selector_def parse_field_requirement_def requirement_of_def trim_visible visible_def
      pod_node_def single_field_def)

end
