(* ===== verification/Authorization.thy ===== *)
theory Authorization
  imports FieldSelector
begin

text \<open>
  Authorization (\<^verbatim>\<open>crates/common/src/authz.rs\<close>, \<^verbatim>\<open>authz/reasons.rs\<close>): requests and decisions, the authorizer for
  roles and bindings, and the union of authorizers with the one for privileged groups in front.

  The storage is a record of the answers it gives, errors included; an error is its message. The quoting of
  names in the reasons (\<open>quoted\<close>, which classifies characters with the \<open>regex\<close> crate) is the argument \<open>q\<close>.
  An authorizer is the record of the trait's methods.
\<close>

section \<open>Requests\<close>

record user_info =
  username :: string
  user_uid :: string
  groups :: "string list"

record request_attributes =
  req_user :: user_info
  verb :: string
  req_namespace :: "string option"
  api_group :: string
  api_version :: string
  resource :: string
  req_name :: "string option"
  subresource :: "string option"
  path :: "string option"
  is_non_resource_request :: bool
  field_selector_requirements :: "field_requirement list"
  field_selector_parsing_err :: "field_selector_error option"
  label_selector_requirements :: "label_requirement list"
  label_selector_parsing_err :: "selector_error option"

definition new_request :: "user_info \<Rightarrow> string \<Rightarrow> string \<Rightarrow> request_attributes" where
  "new_request user v res =
     \<lparr>req_user = user, verb = v, req_namespace = None, api_group = [], api_version = [], resource = res,
      req_name = None, subresource = None, path = None, is_non_resource_request = False,
      field_selector_requirements = [], field_selector_parsing_err = None,
      label_selector_requirements = [], label_selector_parsing_err = None\<rparr>"

definition new_non_resource :: "user_info \<Rightarrow> string \<Rightarrow> string \<Rightarrow> request_attributes" where
  "new_non_resource user v p =
     \<lparr>req_user = user, verb = v, req_namespace = None, api_group = [], api_version = [], resource = [],
      req_name = None, subresource = None, path = Some p, is_non_resource_request = True,
      field_selector_requirements = [], field_selector_parsing_err = None,
      label_selector_requirements = [], label_selector_parsing_err = None\<rparr>"

definition set_selectors :: "string \<Rightarrow> string \<Rightarrow> request_attributes \<Rightarrow> request_attributes" where
  "set_selectors field_sel label_sel attrs =
     (let attrs =
            (if field_sel = [] then attrs
             else
               (case parse_field_selector field_sel of
                  Inl e \<Rightarrow> attrs\<lparr>field_selector_requirements := [], field_selector_parsing_err := Some e\<rparr>
                | Inr sel \<Rightarrow>
                    if fs_requirements sel \<noteq> []
                    then attrs\<lparr>field_selector_requirements := fs_requirements sel, field_selector_parsing_err := None\<rparr>
                    else attrs))
      in if label_sel = [] then attrs
         else
           (case parse_selector label_sel of
              Inl e \<Rightarrow> attrs\<lparr>label_selector_requirements := [], label_selector_parsing_err := Some e\<rparr>
            | Inr sel \<Rightarrow>
                if ls_requirements sel \<noteq> []
                then attrs\<lparr>label_selector_requirements := ls_requirements sel, label_selector_parsing_err := None\<rparr>
                else attrs))"

section \<open>Decisions\<close>

datatype decision = Allow | Deny string

datatype opinion =
    OpAllow string
  | OpDeny string
  | NoOpinion string "string option"

record authorization_outcome =
  out_opinion :: opinion
  out_error :: "string option"

definition from_opinion :: "opinion \<Rightarrow> authorization_outcome" where
  "from_opinion op =
     (case op of
        NoOpinion reason error \<Rightarrow> \<lparr>out_opinion = NoOpinion reason None, out_error = error\<rparr>
      | _ \<Rightarrow> \<lparr>out_opinion = op, out_error = None\<rparr>)"

definition or_else :: "'a option \<Rightarrow> 'a option \<Rightarrow> 'a option" where
  "or_else x y = (case x of None \<Rightarrow> y | Some v \<Rightarrow> Some v)"

definition into_opinion :: "authorization_outcome \<Rightarrow> opinion" where
  "into_opinion oc =
     (case out_opinion oc of
        NoOpinion reason error \<Rightarrow> NoOpinion reason (or_else (out_error oc) error)
      | op \<Rightarrow> op)"

text \<open>The display of \<open>Error::Authorization\<close>.\<close>

definition authorization_error :: "string \<Rightarrow> string" where
  "authorization_error e = ''Authorization error: '' @ e"

definition into_decision :: "authorization_outcome \<Rightarrow> (string, decision) result" where
  "into_decision oc =
     (case out_opinion oc of
        OpAllow _ \<Rightarrow> Inr Allow
      | OpDeny reason \<Rightarrow>
          (case out_error oc of Some e \<Rightarrow> Inl (authorization_error e) | None \<Rightarrow> Inr (Deny reason))
      | NoOpinion reason error \<Rightarrow>
          (case or_else (out_error oc) error of Some e \<Rightarrow> Inl (authorization_error e) | None \<Rightarrow> Inr (Deny reason)))"

record resource_rule =
  rr_verbs :: "string list"
  rr_api_groups :: "string list option"
  rr_resources :: "string list option"
  rr_resource_names :: "string list option"

record non_resource_rule =
  nr_verbs :: "string list"
  nr_urls :: "string list option"

type_synonym user_rules = "resource_rule list \<times> non_resource_rule list"

record user_rules_outcome =
  uo_resource_rules :: "resource_rule list"
  uo_non_resource_rules :: "non_resource_rule list"
  uo_incomplete :: bool
  uo_error :: "string option"

definition no_rules :: user_rules_outcome where
  "no_rules = \<lparr>uo_resource_rules = [], uo_non_resource_rules = [], uo_incomplete = False, uo_error = None\<rparr>"

record authorizer =
  au_authorize :: "request_attributes \<Rightarrow> (string, decision) result"
  au_opinion :: "request_attributes \<Rightarrow> (string, opinion) result"
  au_outcome :: "request_attributes \<Rightarrow> (string, authorization_outcome) result"
  au_user_rules :: "user_info \<Rightarrow> string \<Rightarrow> (string, user_rules) result"
  au_rules_outcome :: "user_info \<Rightarrow> string \<Rightarrow> (string, user_rules_outcome) result"

text \<open>The default methods of the trait.\<close>

definition default_opinion :: "(string, decision) result \<Rightarrow> (string, opinion) result" where
  "default_opinion r =
     (case r of
        Inl e \<Rightarrow> Inl e
      | Inr Allow \<Rightarrow> Inr (OpAllow [])
      | Inr (Deny reason) \<Rightarrow> Inr (NoOpinion reason None))"

definition default_outcome :: "(string, opinion) result \<Rightarrow> (string, authorization_outcome) result" where
  "default_outcome r = (case r of Inl e \<Rightarrow> Inl e | Inr op \<Rightarrow> Inr (from_opinion op))"

definition default_rules_outcome :: "(string, user_rules) result \<Rightarrow> (string, user_rules_outcome) result" where
  "default_rules_outcome r =
     Inr (case r of
            Inr (rr, nrr) \<Rightarrow> no_rules\<lparr>uo_resource_rules := rr, uo_non_resource_rules := nrr\<rparr>
          | Inl e \<Rightarrow> no_rules\<lparr>uo_error := Some e\<rparr>)"

section \<open>Roles and bindings\<close>

record subject =
  sub_kind :: string
  sub_name :: string
  sub_namespace :: "string option"

record role_ref =
  ref_kind :: string
  ref_name :: string

record policy_rule =
  pr_verbs :: "string list"
  pr_api_groups :: "string list option"
  pr_resources :: "string list option"
  pr_resource_names :: "string list option"
  pr_non_resource_urls :: "string list option"

record role_binding =
  rb_name :: string
  rb_namespace :: "string option"
  rb_subjects :: "subject list"
  rb_role_ref :: role_ref

record authz_storage =
  list_cluster_role_bindings :: "(string, role_binding list) result"
  list_role_bindings :: "string \<Rightarrow> (string, role_binding list) result"
  get_role :: "string \<Rightarrow> string \<Rightarrow> (string, policy_rule list) result"
  get_cluster_role :: "string \<Rightarrow> (string, policy_rule list) result"

definition service_account_user :: "string \<Rightarrow> string \<Rightarrow> string" where
  "service_account_user ns nm = ''system:serviceaccount:'' @ ns @ '':'' @ nm"

definition subject_matches :: "subject \<Rightarrow> user_info \<Rightarrow> bool" where
  "subject_matches s user =
     (if sub_kind s = ''User'' then sub_name s = username user
      else if sub_kind s = ''Group'' then sub_name s \<in> set (groups user)
      else if sub_kind s = ''ServiceAccount'' then
        (let ns = (case sub_namespace s of None \<Rightarrow> [] | Some n \<Rightarrow> n)
         in if ns = [] then False else username user = service_account_user ns (sub_name s))
      else sub_name s = username user \<or> sub_name s \<in> set (groups user))"

definition namespace_or :: "subject \<Rightarrow> string \<Rightarrow> string" where
  "namespace_or s ns = (case sub_namespace s of Some n \<Rightarrow> if n \<noteq> [] then n else ns | None \<Rightarrow> ns)"

definition applies_to_user :: "user_info \<Rightarrow> string \<Rightarrow> subject \<Rightarrow> bool" where
  "applies_to_user user ns s =
     (if sub_kind s = ''User'' then sub_name s = username user
      else if sub_kind s = ''Group'' then sub_name s \<in> set (groups user)
      else if sub_kind s = ''ServiceAccount'' then
        namespace_or s ns \<noteq> [] \<and> username user = service_account_user (namespace_or s ns) (sub_name s)
      else False)"

definition applicable_subject :: "subject list \<Rightarrow> user_info \<Rightarrow> string \<Rightarrow> subject option" where
  "applicable_subject subjects user ns = find (applies_to_user user ns) subjects"

definition describe_subject :: "(string \<Rightarrow> string) \<Rightarrow> subject \<Rightarrow> string \<Rightarrow> string" where
  "describe_subject q s binding_namespace =
     (let nm = (if sub_kind s = ''ServiceAccount'' then sub_name s @ ''/'' @ namespace_or s binding_namespace
                else sub_name s)
      in sub_kind s @ '' '' @ q nm)"

fun unique_errors :: "string list \<Rightarrow> string list \<Rightarrow> string list" where
  "unique_errors acc [] = acc"
| "unique_errors acc (e # es) = unique_errors (if e \<in> set acc then acc else acc @ [e]) es"

definition aggregate_errors :: "string list \<Rightarrow> string option" where
  "aggregate_errors errors =
     (case unique_errors [] errors of
        [] \<Rightarrow> None
      | [e] \<Rightarrow> Some e
      | es \<Rightarrow> Some (''['' @ join '', '' es @ '']''))"

definition starts_with_url :: "string \<Rightarrow> string \<Rightarrow> bool" where
  "starts_with_url p url \<longleftrightarrow> take (length url) p = url"

definition rule_allows :: "policy_rule \<Rightarrow> request_attributes \<Rightarrow> bool" where
  "rule_allows rule attrs =
     (if verb attrs \<notin> set (pr_verbs rule) \<and> ''*'' \<notin> set (pr_verbs rule) then False
      else if is_non_resource_request attrs then
        (case pr_non_resource_urls rule of
           Some urls \<Rightarrow>
             (case path attrs of
                Some p \<Rightarrow> list_ex (\<lambda>url. url = ''*'' \<or> url = p \<or> starts_with_url p url) urls
              | None \<Rightarrow> False)
         | None \<Rightarrow> False)
      else if (case pr_api_groups rule of
                 Some gs \<Rightarrow> api_group attrs \<notin> set gs \<and> ''*'' \<notin> set gs
               | None \<Rightarrow> False) then False
      else if (case pr_resources rule of
                 Some rs \<Rightarrow>
                   (let sub = (case subresource attrs of Some s \<Rightarrow> if s = [] then None else Some s | None \<Rightarrow> None);
                        combined = (case sub of Some s \<Rightarrow> resource attrs @ ''/'' @ s | None \<Rightarrow> resource attrs)
                    in \<not> list_ex (\<lambda>r. r = ''*'' \<or> r = combined \<or> (case sub of Some s \<Rightarrow> r = ''*/'' @ s | None \<Rightarrow> False)) rs)
               | None \<Rightarrow> False) then False
      else if (case req_name attrs of
                 Some nm \<Rightarrow>
                   (case pr_resource_names rule of
                      Some names \<Rightarrow> nm \<notin> set names \<and> ''*'' \<notin> set names
                    | None \<Rightarrow> False)
               | None \<Rightarrow> False) then False
      else True)"

definition check_policy_rules :: "policy_rule list \<Rightarrow> request_attributes \<Rightarrow> bool" where
  "check_policy_rules rules attrs = list_ex (\<lambda>rule. rule_allows rule attrs) rules"

definition reference_rules ::
  "(string \<Rightarrow> string) \<Rightarrow> authz_storage \<Rightarrow> role_ref \<Rightarrow> string \<Rightarrow> (string, policy_rule list) result" where
  "reference_rules q st ref namespace =
     (if ref_kind ref = ''Role'' then get_role st (ref_name ref) namespace
      else if ref_kind ref = ''ClusterRole'' then get_cluster_role st (ref_name ref)
      else Inl (''unsupported role reference kind: '' @ q (ref_kind ref)))"

text \<open>The two loops of \<open>check_rbac\<close>: the reason of the first binding that allows, or the errors collected.\<close>

fun visit_bindings ::
  "(string \<Rightarrow> string) \<Rightarrow> authz_storage \<Rightarrow> request_attributes \<Rightarrow> string \<Rightarrow> (role_binding \<Rightarrow> subject \<Rightarrow> string) \<Rightarrow>
   role_binding list \<Rightarrow> string list \<Rightarrow> (string list, string) result" where
  "visit_bindings q st attrs namespace describe [] errors = Inl errors"
| "visit_bindings q st attrs namespace describe (b # bs) errors =
     (case applicable_subject (rb_subjects b) (req_user attrs) namespace of
        None \<Rightarrow> visit_bindings q st attrs namespace describe bs errors
      | Some s \<Rightarrow>
          (case reference_rules q st (rb_role_ref b) namespace of
             Inl e \<Rightarrow> visit_bindings q st attrs namespace describe bs (errors @ [e])
           | Inr rules \<Rightarrow>
               if check_policy_rules rules attrs then Inr (describe b s)
               else visit_bindings q st attrs namespace describe bs errors))"

definition describe_cluster_binding :: "(string \<Rightarrow> string) \<Rightarrow> role_binding \<Rightarrow> subject \<Rightarrow> string" where
  "describe_cluster_binding q b s =
     ''RBAC: allowed by ClusterRoleBinding '' @ q (rb_name b) @ '' of '' @ ref_kind (rb_role_ref b) @ '' '' @
     q (ref_name (rb_role_ref b)) @ '' to '' @ describe_subject q s []"

definition describe_binding :: "(string \<Rightarrow> string) \<Rightarrow> role_binding \<Rightarrow> subject \<Rightarrow> string" where
  "describe_binding q b s =
     (let ns = (case rb_namespace b of None \<Rightarrow> [] | Some n \<Rightarrow> n) in
      ''RBAC: allowed by RoleBinding '' @ q (rb_name b @ ''/'' @ ns) @ '' of '' @ ref_kind (rb_role_ref b) @ '' '' @
      q (ref_name (rb_role_ref b)) @ '' to '' @ describe_subject q s ns)"

definition check_rbac :: "(string \<Rightarrow> string) \<Rightarrow> authz_storage \<Rightarrow> request_attributes \<Rightarrow> opinion" where
  "check_rbac q st attrs =
     (case (case list_cluster_role_bindings st of
              Inl e \<Rightarrow> Inl [e]
            | Inr bindings \<Rightarrow> visit_bindings q st attrs [] (describe_cluster_binding q) bindings []) of
        Inr reason \<Rightarrow> OpAllow reason
      | Inl errors \<Rightarrow>
          (case (case req_namespace attrs of
                   None \<Rightarrow> Inl errors
                 | Some ns \<Rightarrow>
                     if ns = [] then Inl errors
                     else
                       (case list_role_bindings st ns of
                          Inl e \<Rightarrow> Inl (errors @ [e])
                        | Inr bindings \<Rightarrow> visit_bindings q st attrs ns (describe_binding q) bindings errors)) of
             Inr reason \<Rightarrow> OpAllow reason
           | Inl errors \<Rightarrow>
               NoOpinion (case aggregate_errors errors of None \<Rightarrow> [] | Some e \<Rightarrow> ''RBAC: '' @ e) None))"

definition resource_rule_of :: "policy_rule \<Rightarrow> resource_rule" where
  "resource_rule_of r =
     \<lparr>rr_verbs = pr_verbs r, rr_api_groups = pr_api_groups r, rr_resources = pr_resources r,
      rr_resource_names = pr_resource_names r\<rparr>"

definition non_resource_rules_of :: "policy_rule list \<Rightarrow> non_resource_rule list" where
  "non_resource_rules_of rules =
     List.map_filter
       (\<lambda>r. map_option (\<lambda>urls. \<lparr>nr_verbs = pr_verbs r, nr_urls = Some urls\<rparr>) (pr_non_resource_urls r)) rules"

definition rules_of_binding :: "authz_storage \<Rightarrow> string \<Rightarrow> role_binding \<Rightarrow> user_rules" where
  "rules_of_binding st namespace b =
     (if ref_kind (rb_role_ref b) = ''Role'' then
        (case get_role st (ref_name (rb_role_ref b)) namespace of
           Inr rules \<Rightarrow> (map resource_rule_of rules, []) | Inl _ \<Rightarrow> ([], []))
      else if ref_kind (rb_role_ref b) = ''ClusterRole'' then
        (case get_cluster_role st (ref_name (rb_role_ref b)) of
           Inr rules \<Rightarrow> (map resource_rule_of rules, non_resource_rules_of rules) | Inl _ \<Rightarrow> ([], []))
      else ([], []))"

definition rules_of_cluster_binding :: "authz_storage \<Rightarrow> role_binding \<Rightarrow> user_rules" where
  "rules_of_cluster_binding st b =
     (case get_cluster_role st (ref_name (rb_role_ref b)) of
        Inr rules \<Rightarrow> (map resource_rule_of rules, non_resource_rules_of rules) | Inl _ \<Rightarrow> ([], []))"

definition applies_to :: "user_info \<Rightarrow> role_binding \<Rightarrow> bool" where
  "applies_to user b = list_ex (\<lambda>s. subject_matches s user) (rb_subjects b)"

definition rbac_user_rules :: "authz_storage \<Rightarrow> user_info \<Rightarrow> string \<Rightarrow> (string, user_rules) result" where
  "rbac_user_rules st user namespace =
     (case list_role_bindings st namespace of
        Inl e \<Rightarrow> Inl e
      | Inr role_bindings \<Rightarrow>
          (case list_cluster_role_bindings st of
             Inl e \<Rightarrow> Inl e
           | Inr cluster_role_bindings \<Rightarrow>
               (let found = map (rules_of_binding st namespace) (filter (applies_to user) role_bindings) @
                            map (rules_of_cluster_binding st) (filter (applies_to user) cluster_role_bindings)
                in Inr (concat (map fst found), concat (map snd found)))))"

definition rbac_authorizer :: "(string \<Rightarrow> string) \<Rightarrow> authz_storage \<Rightarrow> authorizer" where
  "rbac_authorizer q st =
     \<lparr>au_authorize = (\<lambda>attrs. into_decision (from_opinion (check_rbac q st attrs))),
      au_opinion = (\<lambda>attrs. Inr (check_rbac q st attrs)),
      au_outcome = (\<lambda>attrs. default_outcome (Inr (check_rbac q st attrs))),
      au_user_rules = rbac_user_rules st,
      au_rules_outcome = (\<lambda>user ns. default_rules_outcome (rbac_user_rules st user ns))\<rparr>"

section \<open>The other authorizers\<close>

definition always_allow :: authorizer where
  "always_allow =
     (let rules = ([\<lparr>rr_verbs = [''*''], rr_api_groups = Some [''*''], rr_resources = Some [''*''],
                     rr_resource_names = None\<rparr>],
                   [\<lparr>nr_verbs = [''*''], nr_urls = Some [''*'']\<rparr>])
      in \<lparr>au_authorize = (\<lambda>_. Inr Allow), au_opinion = (\<lambda>_. Inr (OpAllow [])),
          au_outcome = (\<lambda>_. default_outcome (Inr (OpAllow []))),
          au_user_rules = (\<lambda>_ _. Inr rules), au_rules_outcome = (\<lambda>_ _. default_rules_outcome (Inr rules))\<rparr>)"

definition always_deny :: authorizer where
  "always_deny =
     (let reason = ''Everything is forbidden.''
      in \<lparr>au_authorize = (\<lambda>_. Inr (Deny reason)), au_opinion = (\<lambda>_. Inr (NoOpinion reason None)),
          au_outcome = (\<lambda>_. default_outcome (Inr (NoOpinion reason None))),
          au_user_rules = (\<lambda>_ _. Inr ([], [])), au_rules_outcome = (\<lambda>_ _. default_rules_outcome (Inr ([], [])))\<rparr>)"

definition node_rules :: "(string \<times> string \<times> string list) list" where
  "node_rules =
     [(''authentication.k8s.io'', ''tokenreviews'', [''create'']),
      (''authorization.k8s.io'', ''subjectaccessreviews'', [''create'']),
      (''authorization.k8s.io'', ''localsubjectaccessreviews'', [''create'']),
      ('''', ''services'', [''get'', ''list'', ''watch'']),
      ('''', ''nodes'', [''create'', ''get'', ''list'', ''watch'', ''update'', ''patch'']),
      ('''', ''nodes/status'', [''update'', ''patch'']),
      ('''', ''events'', [''create'', ''update'', ''patch'']),
      (''events.k8s.io'', ''events'', [''create'', ''update'', ''patch'']),
      ('''', ''pods'', [''get'', ''list'', ''watch'', ''create'', ''delete'']),
      ('''', ''pods/status'', [''update'', ''patch'']),
      ('''', ''secrets'', [''get'', ''list'', ''watch'']),
      ('''', ''configmaps'', [''get'', ''list'', ''watch'']),
      ('''', ''persistentvolumeclaims'', [''get'']),
      ('''', ''persistentvolumeclaims/status'', [''get'', ''update'', ''patch'']),
      ('''', ''persistentvolumes'', [''get'']),
      ('''', ''endpoints'', [''get'']),
      ('''', ''serviceaccounts/token'', [''create'']),
      (''certificates.k8s.io'', ''certificatesigningrequests'', [''create'', ''get'', ''list'', ''watch'']),
      (''coordination.k8s.io'', ''leases'', [''get'', ''create'', ''update'', ''patch'', ''delete'']),
      (''storage.k8s.io'', ''volumeattachments'', [''get'']),
      (''storage.k8s.io'', ''csidrivers'', [''get'', ''list'', ''watch'']),
      (''storage.k8s.io'', ''csinodes'', [''get'', ''create'', ''update'', ''patch'', ''delete'']),
      (''node.k8s.io'', ''runtimeclasses'', [''get'', ''list'', ''watch''])]"

definition node_rules_allow :: "request_attributes \<Rightarrow> bool" where
  "node_rules_allow attrs =
     (let target = (case subresource attrs of
                      Some s \<Rightarrow> if s \<noteq> [] then resource attrs @ ''/'' @ s else resource attrs
                    | None \<Rightarrow> resource attrs)
      in list_ex (\<lambda>(grp, res, verbs). grp = api_group attrs \<and> res = target \<and> verb attrs \<in> set verbs) node_rules)"

text \<open>The loop of the union over its authorizers, with the reasons and errors of those that abstained.\<close>

fun union_loop ::
  "(string, authorization_outcome) result list \<Rightarrow> string list \<Rightarrow> string list \<Rightarrow> authorization_outcome" where
  "union_loop [] reasons errors =
     \<lparr>out_opinion = NoOpinion (join [CHR 0x0A] reasons) None, out_error = aggregate_errors errors\<rparr>"
| "union_loop (r # rs) reasons errors =
     (let oc = (case r of Inr oc \<Rightarrow> oc | Inl e \<Rightarrow> \<lparr>out_opinion = NoOpinion [] None, out_error = Some e\<rparr>) in
      case out_opinion oc of
        NoOpinion reason error \<Rightarrow>
          union_loop rs (if reason \<noteq> [] then reasons @ [reason] else reasons)
            (errors @ (case or_else (out_error oc) error of None \<Rightarrow> [] | Some e \<Rightarrow> [e]))
      | _ \<Rightarrow> oc)"

definition union_outcome :: "authorizer list \<Rightarrow> request_attributes \<Rightarrow> authorization_outcome" where
  "union_outcome authorizers attrs = union_loop (map (\<lambda>a. au_outcome a attrs) authorizers) [] []"

definition union_user_rules :: "authorizer list \<Rightarrow> user_info \<Rightarrow> string \<Rightarrow> user_rules" where
  "union_user_rules authorizers user namespace =
     (let found = List.map_filter
                    (\<lambda>a. case au_user_rules a user namespace of Inr r \<Rightarrow> Some r | Inl _ \<Rightarrow> None) authorizers
      in (concat (map fst found), concat (map snd found)))"

fun union_rules_loop ::
  "(string, user_rules_outcome) result list \<Rightarrow> user_rules_outcome \<Rightarrow> string list \<Rightarrow> (string, user_rules_outcome) result" where
  "union_rules_loop [] u errors = Inr (u\<lparr>uo_error := aggregate_errors errors\<rparr>)"
| "union_rules_loop (r # rs) u errors =
     (case r of
        Inl e \<Rightarrow> Inl e
      | Inr d \<Rightarrow>
          union_rules_loop rs
            (u\<lparr>uo_incomplete := uo_incomplete u \<or> uo_incomplete d,
               uo_resource_rules := uo_resource_rules u @ uo_resource_rules d,
               uo_non_resource_rules := uo_non_resource_rules u @ uo_non_resource_rules d\<rparr>)
            (errors @ (case uo_error d of None \<Rightarrow> [] | Some e \<Rightarrow> [e])))"

definition union_authorizer :: "authorizer list \<Rightarrow> authorizer" where
  "union_authorizer authorizers =
     \<lparr>au_authorize = (\<lambda>attrs. into_decision (union_outcome authorizers attrs)),
      au_opinion = (\<lambda>attrs. Inr (into_opinion (union_outcome authorizers attrs))),
      au_outcome = (\<lambda>attrs. Inr (union_outcome authorizers attrs)),
      au_user_rules = (\<lambda>user ns. Inr (union_user_rules authorizers user ns)),
      au_rules_outcome =
        (\<lambda>user ns. union_rules_loop (map (\<lambda>a. au_rules_outcome a user ns) authorizers) no_rules [])\<rparr>"

definition system_privileged_group :: string where
  "system_privileged_group = ''system:masters''"

definition privileged_authorize :: "string list \<Rightarrow> request_attributes \<Rightarrow> decision" where
  "privileged_authorize privileged attrs =
     (if list_ex (\<lambda>g. list_ex (\<lambda>p. p = g) privileged) (groups (req_user attrs)) then Allow else Deny [])"

definition privileged_opinion :: "string list \<Rightarrow> request_attributes \<Rightarrow> opinion" where
  "privileged_opinion privileged attrs =
     (case privileged_authorize privileged attrs of Allow \<Rightarrow> OpAllow [] | Deny _ \<Rightarrow> NoOpinion [] None)"

definition privileged_group_authorizer :: "string list \<Rightarrow> authorizer" where
  "privileged_group_authorizer privileged =
     \<lparr>au_authorize = (\<lambda>attrs. Inr (privileged_authorize privileged attrs)),
      au_opinion = (\<lambda>attrs. Inr (privileged_opinion privileged attrs)),
      au_outcome = (\<lambda>attrs. default_outcome (Inr (privileged_opinion privileged attrs))),
      au_user_rules = (\<lambda>_ _. Inr ([], [])),
      au_rules_outcome = (\<lambda>_ _. default_rules_outcome (Inr ([], [])))\<rparr>"

definition superuser_then :: "authorizer list \<Rightarrow> authorizer" where
  "superuser_then rest = union_authorizer (privileged_group_authorizer [system_privileged_group] # rest)"

section \<open>What roles and bindings grant\<close>

definition grants :: "(string \<Rightarrow> string) \<Rightarrow> authz_storage \<Rightarrow> request_attributes \<Rightarrow> string \<Rightarrow> role_binding \<Rightarrow> bool" where
  "grants q st attrs ns b \<longleftrightarrow>
     (\<exists>s\<in>set (rb_subjects b). applies_to_user (req_user attrs) ns s) \<and>
     (\<exists>rules. reference_rules q st (rb_role_ref b) ns = Inr rules \<and> (\<exists>rule\<in>set rules. rule_allows rule attrs))"

definition rbac_permits :: "(string \<Rightarrow> string) \<Rightarrow> authz_storage \<Rightarrow> request_attributes \<Rightarrow> bool" where
  "rbac_permits q st attrs \<longleftrightarrow>
     (\<exists>bs b. list_cluster_role_bindings st = Inr bs \<and> b \<in> set bs \<and> grants q st attrs [] b) \<or>
     (\<exists>ns bs b. req_namespace attrs = Some ns \<and> ns \<noteq> [] \<and> list_role_bindings st ns = Inr bs \<and> b \<in> set bs \<and>
        grants q st attrs ns b)"

lemma applicable_subject_None:
  "applicable_subject ss user ns = None \<longleftrightarrow> (\<forall>s\<in>set ss. \<not> applies_to_user user ns s)"
  by (auto simp: applicable_subject_def find_None_iff)

lemma visit_bindings_grants:
  "(\<exists>reason. visit_bindings q st attrs ns d bs errors = Inr reason) \<longleftrightarrow> (\<exists>b\<in>set bs. grants q st attrs ns b)"
proof (induction bs arbitrary: errors)
  case (Cons b bs)
  show ?case
  proof (cases "applicable_subject (rb_subjects b) (req_user attrs) ns")
    case None
    then have "\<not> grants q st attrs ns b" by (auto simp: grants_def applicable_subject_None)
    then show ?thesis using None Cons.IH by simp
  next
    case (Some s)
    then have ap: "\<exists>s\<in>set (rb_subjects b). applies_to_user (req_user attrs) ns s"
      using applicable_subject_None [of "rb_subjects b" "req_user attrs" ns] by auto
    show ?thesis
    proof (cases "reference_rules q st (rb_role_ref b) ns")
      case (Inl e) then show ?thesis using Some Cons.IH by (simp add: grants_def)
    next
      case (Inr rules)
      have "grants q st attrs ns b \<longleftrightarrow> check_policy_rules rules attrs"
        using Inr ap by (simp add: grants_def check_policy_rules_def list_ex_iff)
      then show ?thesis using Some Inr Cons.IH by simp
    qed
  qed
qed simp


lemma check_rbac_decides:
  "((\<exists>reason. check_rbac q st attrs = OpAllow reason) \<longleftrightarrow> rbac_permits q st attrs) \<and>
   ((\<exists>reason. check_rbac q st attrs = NoOpinion reason None) \<longleftrightarrow> \<not> rbac_permits q st attrs)"
proof -
  let ?cluster = "case list_cluster_role_bindings st of Inl e \<Rightarrow> Inl [e]
    | Inr bs \<Rightarrow> visit_bindings q st attrs [] (describe_cluster_binding q) bs []"
  let ?local = "\<lambda>errors. case req_namespace attrs of None \<Rightarrow> Inl errors
    | Some ns \<Rightarrow> if ns = [] then Inl errors
        else (case list_role_bindings st ns of Inl e \<Rightarrow> Inl (errors @ [e])
              | Inr bs \<Rightarrow> visit_bindings q st attrs ns (describe_binding q) bs errors)"
  have c: "(\<exists>reason. ?cluster = Inr reason) \<longleftrightarrow>
      (\<exists>bs b. list_cluster_role_bindings st = Inr bs \<and> b \<in> set bs \<and> grants q st attrs [] b)"
    using visit_bindings_grants [of q st attrs "[]" "describe_cluster_binding q"]
    by (cases "list_cluster_role_bindings st") auto
  have l: "(\<exists>reason. ?local errors = Inr reason) \<longleftrightarrow>
      (\<exists>ns bs b. req_namespace attrs = Some ns \<and> ns \<noteq> [] \<and> list_role_bindings st ns = Inr bs \<and> b \<in> set bs \<and>
        grants q st attrs ns b)" for errors
    using visit_bindings_grants [of q st attrs _ "describe_binding q"]
    by (cases "req_namespace attrs"; cases "list_role_bindings st (the (req_namespace attrs))") auto
  show ?thesis
  proof (cases ?cluster)
    case (Inr reason) then show ?thesis using c by (auto simp: check_rbac_def rbac_permits_def)
  next
    case (Inl errors)
    then have nc: "\<not> (\<exists>bs b. list_cluster_role_bindings st = Inr bs \<and> b \<in> set bs \<and> grants q st attrs [] b)"
      using c by auto
    have cr: "check_rbac q st attrs = (case ?local errors of Inr reason \<Rightarrow> OpAllow reason
        | Inl errors \<Rightarrow> NoOpinion (case aggregate_errors errors of None \<Rightarrow> [] | Some e \<Rightarrow> ''RBAC: '' @ e) None)"
      using Inl by (simp add: check_rbac_def)
    have permits: "rbac_permits q st attrs \<longleftrightarrow> (\<exists>reason. ?local errors = Inr reason)"
      unfolding l rbac_permits_def using nc by blast
    show ?thesis unfolding permits cr by (cases "?local errors") simp_all
  qed
qed

lemma check_rbac_allows: "(\<exists>reason. check_rbac q st attrs = OpAllow reason) \<longleftrightarrow> rbac_permits q st attrs"
  using check_rbac_decides by blast

text \<open>C9. The role authorizer allows a request exactly when some binding of the cluster, or of the namespace of the
  request, names the user and refers to a role with a rule that allows it; failures to list bindings or to read
  other roles never hide such a rule, and it never denies but abstains without an error.\<close>

theorem rbac_allows_iff_granted:
  "((\<exists>reason. check_rbac q st attrs = OpAllow reason) \<longleftrightarrow> rbac_permits q st attrs) \<and>
   ((\<exists>reason. check_rbac q st attrs = NoOpinion reason None) \<longleftrightarrow> \<not> rbac_permits q st attrs)"
  by (rule check_rbac_decides)

subsection \<open>What a rule without resources grants\<close>

lemma unrestricted_rule_allows:
  assumes "pr_api_groups rule = None" and "pr_resources rule = None" and "pr_resource_names rule = None"
    and "verb attrs \<in> set (pr_verbs rule)" and "\<not> is_non_resource_request attrs"
  shows "rule_allows rule attrs"
  using assms by (simp add: rule_allows_def split: option.split)

text \<open>The binding and the role that the API server seeds for everyone, authenticated or not
  (\<^verbatim>\<open>crates/api-server/src/bootstrap_policy\<close>).\<close>

definition public_info_binding :: role_binding where
  "public_info_binding =
     \<lparr>rb_name = ''system:public-info-viewer'', rb_namespace = None,
      rb_subjects = [\<lparr>sub_kind = ''Group'', sub_name = ''system:authenticated'', sub_namespace = None\<rparr>,
                     \<lparr>sub_kind = ''Group'', sub_name = ''system:unauthenticated'', sub_namespace = None\<rparr>],
      rb_role_ref = \<lparr>ref_kind = ''ClusterRole'', ref_name = ''system:public-info-viewer''\<rparr>\<rparr>"

definition public_info_rule :: policy_rule where
  "public_info_rule =
     \<lparr>pr_verbs = [''get''], pr_api_groups = None, pr_resources = None, pr_resource_names = None,
      pr_non_resource_urls = Some [''/healthz'', ''/livez'', ''/readyz'', ''/version'', ''/version/'']\<rparr>"

text \<open>C23. A rule that lists only URLs is not restricted to URLs: with the binding the API server seeds for
  unauthenticated users, such a user may get every object of every resource, secrets included.\<close>

theorem unauthenticated_user_may_get_everything:
  assumes "list_cluster_role_bindings st = Inr bs" and "public_info_binding \<in> set bs"
    and "get_cluster_role st ''system:public-info-viewer'' = Inr [public_info_rule]"
    and "''system:unauthenticated'' \<in> set (groups (req_user attrs))"
    and "verb attrs = ''get''" and "\<not> is_non_resource_request attrs"
  shows "au_authorize (rbac_authorizer q st) attrs = Inr Allow"
proof -
  have "rule_allows public_info_rule attrs"
    using assms(5,6) by (intro unrestricted_rule_allows) (simp_all add: public_info_rule_def)
  then have "grants q st attrs [] public_info_binding"
    using assms(3,4) by (auto simp: grants_def public_info_binding_def applies_to_user_def reference_rules_def)
  then have "rbac_permits q st attrs" using assms(1,2) by (auto simp: rbac_permits_def)
  moreover have "(\<exists>reason. check_rbac q st attrs = OpAllow reason) \<longleftrightarrow> rbac_permits q st attrs"
    by (rule check_rbac_allows)
  ultimately show ?thesis by (auto simp: rbac_authorizer_def from_opinion_def into_decision_def)
qed

theorem unauthenticated_user_may_get_everything_witness:
  "au_authorize
     (rbac_authorizer (\<lambda>s. s)
        \<lparr>list_cluster_role_bindings = Inr [public_info_binding], list_role_bindings = (\<lambda>_. Inr []),
         get_role = (\<lambda>_ _. Inl ''not found''),
         get_cluster_role = (\<lambda>nm. if nm = ''system:public-info-viewer'' then Inr [public_info_rule] else Inl ''not found'')\<rparr>)
     ((new_request \<lparr>username = ''system:anonymous'', user_uid = [], groups = [''system:unauthenticated'']\<rparr> ''get'' ''secrets'')
        \<lparr>req_namespace := Some ''kube-system'', req_name := Some ''token''\<rparr>) = Inr Allow"
  by (rule unauthenticated_user_may_get_everything [of _ "[public_info_binding]"]) (simp_all add: new_request_def)

text \<open>A rule for named objects allows every request without a name, such as a list or a deletion of the collection.\<close>

lemma unnamed_request_ignores_resource_names:
  assumes "req_name attrs = None"
  shows "rule_allows rule attrs = rule_allows (rule\<lparr>pr_resource_names := None\<rparr>) attrs"
  using assms by (simp add: rule_allows_def Let_def)

text \<open>A URL of a rule grants every path that begins with it, whether or not it ends in a star, and a final star is
  not a wildcard.\<close>

lemma url_grants_prefix:
  "rule_allows \<lparr>pr_verbs = [''get''], pr_api_groups = None, pr_resources = None, pr_resource_names = None,
       pr_non_resource_urls = Some [''/healthz'']\<rparr> (new_non_resource user ''get'' ''/healthz-internal'')"
  by (simp add: rule_allows_def new_non_resource_def starts_with_url_def)

lemma final_star_is_no_wildcard:
  "\<not> rule_allows \<lparr>pr_verbs = [''get''], pr_api_groups = None, pr_resources = None, pr_resource_names = None,
       pr_non_resource_urls = Some [''/apis/*'']\<rparr> (new_non_resource user ''get'' ''/apis/apps'')"
  by (simp add: rule_allows_def new_non_resource_def starts_with_url_def)

text \<open>The rules reported for a user and the rules that are enforced differ: a service account named without its
  namespace is granted the role and not told so, and a subject of an unknown kind is told of a role it is not granted.\<close>

lemma reported_rules_miss_grant:
  fixes q :: "string \<Rightarrow> string"
  defines "b \<equiv> \<lparr>rb_name = ''b'', rb_namespace = Some ''ns'',
      rb_subjects = [\<lparr>sub_kind = ''ServiceAccount'', sub_name = ''sa'', sub_namespace = None\<rparr>],
      rb_role_ref = \<lparr>ref_kind = ''Role'', ref_name = ''r''\<rparr>\<rparr>"
  defines "st \<equiv> \<lparr>list_cluster_role_bindings = Inr [], list_role_bindings = (\<lambda>_. Inr [b]),
      get_role = (\<lambda>_ _. Inr [\<lparr>pr_verbs = [''get''], pr_api_groups = Some [''''], pr_resources = Some [''pods''],
        pr_resource_names = None, pr_non_resource_urls = None\<rparr>]), get_cluster_role = (\<lambda>_. Inl ''not found'')\<rparr>"
  defines "user \<equiv> \<lparr>username = ''system:serviceaccount:ns:sa'', user_uid = [], groups = []\<rparr>"
  shows "rbac_permits q st ((new_request user ''get'' ''pods'')\<lparr>req_namespace := Some ''ns''\<rparr>)"
    and "rbac_user_rules st user ''ns'' = Inr ([], [])"
proof -
  show "rbac_permits q st ((new_request user ''get'' ''pods'')\<lparr>req_namespace := Some ''ns''\<rparr>)"
    by (simp add: rbac_permits_def grants_def b_def st_def user_def new_request_def applies_to_user_def namespace_or_def
        service_account_user_def reference_rules_def rule_allows_def)
  show "rbac_user_rules st user ''ns'' = Inr ([], [])"
    by (simp add: rbac_user_rules_def b_def st_def user_def applies_to_def subject_matches_def)
qed

section \<open>The union\<close>

definition decides :: "(string, authorization_outcome) result \<Rightarrow> bool" where
  "decides r = (case r of Inr oc \<Rightarrow> (case out_opinion oc of NoOpinion _ _ \<Rightarrow> False | _ \<Rightarrow> True) | Inl _ \<Rightarrow> False)"

definition abstain_reasons :: "(string, authorization_outcome) result \<Rightarrow> string list" where
  "abstain_reasons r =
     (case r of Inr oc \<Rightarrow> (case out_opinion oc of NoOpinion reason _ \<Rightarrow> if reason = [] then [] else [reason] | _ \<Rightarrow> [])
      | Inl _ \<Rightarrow> [])"

definition abstain_errors :: "(string, authorization_outcome) result \<Rightarrow> string list" where
  "abstain_errors r =
     (case r of
        Inr oc \<Rightarrow>
          (case out_opinion oc of
             NoOpinion _ error \<Rightarrow> (case or_else (out_error oc) error of None \<Rightarrow> [] | Some e \<Rightarrow> [e]) | _ \<Rightarrow> [])
      | Inl e \<Rightarrow> [e])"

lemma union_loop_reference:
  "union_loop rs reasons errors =
     (case find decides rs of
        Some (Inr oc) \<Rightarrow> oc
      | _ \<Rightarrow> \<lparr>out_opinion = NoOpinion (join [CHR 0x0A] (reasons @ concat (map abstain_reasons rs))) None,
            out_error = aggregate_errors (errors @ concat (map abstain_errors rs))\<rparr>)"
proof (induction rs arbitrary: reasons errors)
  case (Cons r rs)
  show ?case
  proof (cases "decides r")
    case True
    then show ?thesis by (auto simp: decides_def split: sum.splits opinion.splits)
  next
    case False
    then have "union_loop (r # rs) reasons errors = union_loop rs (reasons @ abstain_reasons r) (errors @ abstain_errors r)"
      by (cases r) (auto simp: decides_def abstain_reasons_def abstain_errors_def or_else_def Let_def split: opinion.splits)
    then show ?thesis using False Cons.IH by (simp split: option.split sum.split)
  qed
qed simp

text \<open>C25. The union answers as its first authorizer that allows or denies, whatever the ones before it reported; if all
  of them abstain or fail, it abstains with all their reasons and its error lists the distinct errors.\<close>

theorem union_takes_first_decision:
  "union_outcome authorizers attrs =
     (let answers = map (\<lambda>a. au_outcome a attrs) authorizers in
      case find decides answers of
        Some (Inr oc) \<Rightarrow> oc
      | _ \<Rightarrow> \<lparr>out_opinion = NoOpinion (join [CHR 0x0A] (concat (map abstain_reasons answers))) None,
            out_error = aggregate_errors (concat (map abstain_errors answers))\<rparr>)"
  unfolding union_outcome_def union_loop_reference Let_def append_Nil by (rule refl)

lemma unique_errors_correct:
  "distinct acc \<Longrightarrow> distinct (unique_errors acc es) \<and> set (unique_errors acc es) = set acc \<union> set es"
  by (induction acc es rule: unique_errors.induct) auto

text \<open>Members of the privileged group are allowed whatever the authorizers behind say.\<close>

lemma superuser_is_allowed:
  assumes "''system:masters'' \<in> set (groups (req_user attrs))"
  shows "au_authorize (superuser_then rest) attrs = Inr Allow"
  using assms
  by (simp add: superuser_then_def union_authorizer_def union_outcome_def privileged_group_authorizer_def
      privileged_opinion_def privileged_authorize_def list_ex_iff system_privileged_group_def default_outcome_def
      from_opinion_def into_decision_def)

end
