(* ===== verification/NodeAuthorizer.thy ===== *)
theory NodeAuthorizer
  imports NodeSearch Authorization
begin

text \<open>
  The authorizer for nodes (\<^verbatim>\<open>crates/common/src/authz/node_authorizer.rs\<close>) on the graph of relations. The feature
  gates are an argument. With the theorem on the graph: a node reads exactly the secrets and config maps its pods
  are related to, and lists the pods of no other node.
\<close>

record node_features =
  authorize_node_with_selectors :: bool
  kubelet_service_account_token_for_credential_providers :: bool
  pod_certificate_request :: bool

datatype verdict = VAllow | VNoOpinion string

definition node_identity :: "user_info \<Rightarrow> string \<times> bool" where
  "node_identity user =
     (case strip_prefix ''system:node:'' (username user) of
        None \<Rightarrow> ([], False)
      | Some nm \<Rightarrow> if ''system:nodes'' \<notin> set (groups user) then ([], False) else (nm, True))"

definition req_sub :: "request_attributes \<Rightarrow> string" where
  "req_sub attrs = str_or_empty (subresource attrs)"

definition req_ns :: "request_attributes \<Rightarrow> string" where
  "req_ns attrs = str_or_empty (req_namespace attrs)"

definition req_nm :: "request_attributes \<Rightarrow> string" where
  "req_nm attrs = str_or_empty (req_name attrs)"

definition has_node_name_selector :: "request_attributes \<Rightarrow> string \<Rightarrow> string \<Rightarrow> bool" where
  "has_node_name_selector attrs field nd =
     list_ex (\<lambda>r. fr_field r = field \<and> fr_operator r = FieldEquals \<and> fr_value r = nd)
       (field_selector_requirements attrs)"

definition in_quotes :: "string \<Rightarrow> string" where
  "in_quotes s = CHR 0x27 # s @ [CHR 0x27]"

definition no_relationship :: "string \<Rightarrow> verdict" where
  "no_relationship nd = VNoOpinion (''no relationship found between node '' @ in_quotes nd @ '' and this object'')"

definition authorize_object :: "graph_inner \<Rightarrow> string \<Rightarrow> vertex_type \<Rightarrow> request_attributes \<Rightarrow> verdict" where
  "authorize_object g nd starting_type attrs =
     (if req_nm attrs = [] then VNoOpinion ''No Object name found''
      else
        (case has_path_from nd starting_type (req_ns attrs) (req_nm attrs) g of
           Inr True \<Rightarrow> VAllow
         | _ \<Rightarrow> no_relationship nd))"

definition authorize_status_update :: "graph_inner \<Rightarrow> string \<Rightarrow> vertex_type \<Rightarrow> request_attributes \<Rightarrow> verdict" where
  "authorize_status_update g nd starting_type attrs =
     (if verb attrs \<notin> {''update'', ''patch''} then VNoOpinion ''can only get/update/patch this type''
      else if req_sub attrs \<noteq> ''status'' then VNoOpinion ''can only update status subresource''
      else authorize_object g nd starting_type attrs)"

definition authorize_get :: "graph_inner \<Rightarrow> string \<Rightarrow> vertex_type \<Rightarrow> request_attributes \<Rightarrow> verdict" where
  "authorize_get g nd starting_type attrs =
     (if verb attrs \<noteq> ''get'' then VNoOpinion ''can only get individual resources of this type''
      else if req_sub attrs \<noteq> [] then VNoOpinion ''cannot get subresource''
      else authorize_object g nd starting_type attrs)"

definition authorize_read_namespaced_object ::
  "graph_inner \<Rightarrow> string \<Rightarrow> vertex_type \<Rightarrow> request_attributes \<Rightarrow> verdict" where
  "authorize_read_namespaced_object g nd starting_type attrs =
     (if verb attrs \<notin> {''get'', ''list'', ''watch''} then VNoOpinion ''can only read resources of this type''
      else if req_sub attrs \<noteq> [] then VNoOpinion ''cannot read subresource''
      else if req_ns attrs = [] then VNoOpinion ''can only read namespaced object of this type''
      else authorize_object g nd starting_type attrs)"

definition authorize_create_token :: "graph_inner \<Rightarrow> string \<Rightarrow> vertex_type \<Rightarrow> request_attributes \<Rightarrow> verdict" where
  "authorize_create_token g nd starting_type attrs =
     (if verb attrs \<noteq> ''create'' \<or> req_nm attrs = []
      then VNoOpinion ''can only create tokens for individual service accounts''
      else if req_sub attrs \<noteq> ''token'' then VNoOpinion ''can only create token subresource of serviceaccount''
      else
        (case has_path_from nd starting_type (req_ns attrs) (req_nm attrs) g of
           Inr True \<Rightarrow> VAllow
         | _ \<Rightarrow> no_relationship nd))"

definition authorize_service_account ::
  "node_features \<Rightarrow> graph_inner \<Rightarrow> string \<Rightarrow> request_attributes \<Rightarrow> verdict" where
  "authorize_service_account feat g nd attrs =
     (if verb attrs = ''get'' \<and> req_sub attrs = [] then
        (if \<not> (kubelet_service_account_token_for_credential_providers feat \<or> pod_certificate_request feat)
         then VNoOpinion ''not allowed to get service accounts''
         else authorize_read_namespaced_object g nd ServiceAccount attrs)
      else authorize_create_token g nd ServiceAccount attrs)"

definition namespace_node_lease :: string where
  "namespace_node_lease = ''kube-node-lease''"

definition authorize_lease :: "(string \<Rightarrow> string) \<Rightarrow> string \<Rightarrow> request_attributes \<Rightarrow> verdict" where
  "authorize_lease q nd attrs =
     (if verb attrs \<notin> {''get'', ''create'', ''update'', ''patch'', ''delete''}
      then VNoOpinion ''can only get, create, update, patch, or delete a node lease''
      else if req_ns attrs \<noteq> namespace_node_lease
      then VNoOpinion (''can only access leases in the '' @ q namespace_node_lease @ '' system namespace'')
      else if verb attrs \<noteq> ''create'' \<and> req_nm attrs \<noteq> nd
      then VNoOpinion ''can only access node lease with the same name as the requesting node''
      else VAllow)"

definition authorize_csi_node :: "string \<Rightarrow> request_attributes \<Rightarrow> verdict" where
  "authorize_csi_node nd attrs =
     (if verb attrs \<notin> {''get'', ''create'', ''update'', ''patch'', ''delete''}
      then VNoOpinion ''can only get, create, update, patch, or delete a CSINode''
      else if req_sub attrs \<noteq> [] then VNoOpinion ''cannot authorize CSINode subresources''
      else if verb attrs \<noteq> ''create'' \<and> req_nm attrs \<noteq> nd
      then VNoOpinion ''can only access CSINode with the same name as the requesting node''
      else VAllow)"

definition authorize_resource_slice ::
  "node_features \<Rightarrow> graph_inner \<Rightarrow> string \<Rightarrow> request_attributes \<Rightarrow> verdict" where
  "authorize_resource_slice feat g nd attrs =
     (if req_sub attrs \<noteq> [] then VNoOpinion ''cannot authorize ResourceSlice subresources''
      else if verb attrs = ''create'' then VAllow
      else if verb attrs \<in> {''get'', ''update'', ''patch'', ''delete''} then authorize_object g nd Slice attrs
      else if verb attrs \<in> {''watch'', ''list'', ''deletecollection''} then
        (if authorize_node_with_selectors feat then
           (if has_node_name_selector attrs ''spec.nodeName'' nd then VAllow
            else VNoOpinion ''can only list/watch/deletecollection resourceslices with nodeName field selector'')
         else VAllow)
      else VNoOpinion ''only the following verbs are allowed for a ResourceSlice: get, watch, list, create, update, patch, delete, deletecollection'')"

definition authorize_pod_certificate_request :: "graph_inner \<Rightarrow> string \<Rightarrow> request_attributes \<Rightarrow> verdict" where
  "authorize_pod_certificate_request g nd attrs =
     (if req_sub attrs \<noteq> [] then VNoOpinion ''nodes may not access the status subresource of PodCertificateRequests''
      else if verb attrs = ''create'' then VAllow
      else if verb attrs = ''get'' then authorize_object g nd Pcr attrs
      else if verb attrs \<in> {''list'', ''watch''} then
        (if has_node_name_selector attrs ''spec.nodeName'' nd then VAllow
         else VNoOpinion ''can only list/watch podcertificaterequests with nodeName field selector'')
      else VNoOpinion (''nodes may not '' @ verb attrs @ '' podcertificaterequests''))"

definition authorize_node :: "string \<Rightarrow> request_attributes \<Rightarrow> verdict" where
  "authorize_node nd attrs =
     (if req_sub attrs = [] then
        (if verb attrs \<in> {''create'', ''update'', ''patch''} then VAllow
         else if verb attrs \<in> {''get'', ''list'', ''watch''} then
           (if req_nm attrs = nd then VAllow
            else if req_nm attrs = []
            then VNoOpinion (''node '' @ in_quotes nd @ '' cannot read all nodes, only its own Node object'')
            else VNoOpinion (''node '' @ in_quotes nd @ '' cannot read '' @ in_quotes (req_nm attrs) @
                             '', only its own Node object''))
         else VNoOpinion [])
      else if req_sub attrs = ''status'' then
        (if verb attrs \<in> {''update'', ''patch''} then VAllow else VNoOpinion [])
      else VNoOpinion [])"

definition authorize_pod :: "graph_inner \<Rightarrow> string \<Rightarrow> request_attributes \<Rightarrow> verdict" where
  "authorize_pod g nd attrs =
     (if req_sub attrs = [] then
        (if verb attrs = ''get'' then authorize_get g nd Pod attrs
         else if verb attrs \<in> {''list'', ''watch''} then
           (if has_node_name_selector attrs ''spec.nodeName'' nd then VAllow
            else if req_nm attrs \<noteq> [] then authorize_object g nd Pod attrs
            else VNoOpinion ''can only list/watch pods with spec.nodeName field selector'')
         else if verb attrs \<in> {''create'', ''delete''} then VAllow
         else VNoOpinion [])
      else if req_sub attrs = ''status'' then
        (if verb attrs \<in> {''update'', ''patch''} then VAllow else VNoOpinion [])
      else if req_sub attrs = ''eviction'' \<and> verb attrs = ''create'' then VAllow
      else VNoOpinion [])"

definition static_rules :: "request_attributes \<Rightarrow> verdict" where
  "static_rules attrs = (if node_rules_allow attrs then VAllow else VNoOpinion [])"

definition subdivide ::
  "(string \<Rightarrow> string) \<Rightarrow> node_features \<Rightarrow> graph_inner \<Rightarrow> string \<Rightarrow> request_attributes \<Rightarrow> verdict" where
  "subdivide q feat g nd attrs =
     (let kind = (api_group attrs, resource attrs) in
      if kind = ('''', ''secrets'') then authorize_read_namespaced_object g nd Secret attrs
      else if kind = ('''', ''configmaps'') then authorize_read_namespaced_object g nd ConfigMap attrs
      else if kind = ('''', ''persistentvolumeclaims'') then
        (if req_sub attrs = ''status'' then authorize_status_update g nd Pvc attrs else authorize_get g nd Pvc attrs)
      else if kind = ('''', ''persistentvolumes'') then authorize_get g nd Pv attrs
      else if kind = (''resource.k8s.io'', ''resourceclaims'') then authorize_get g nd ResourceClaim attrs
      else if kind = (''storage.k8s.io'', ''volumeattachments'') then authorize_get g nd Va attrs
      else if kind = ('''', ''serviceaccounts'') then authorize_service_account feat g nd attrs
      else if kind = (''coordination.k8s.io'', ''leases'') then authorize_lease q nd attrs
      else if kind = (''storage.k8s.io'', ''csinodes'') then authorize_csi_node nd attrs
      else if kind = (''resource.k8s.io'', ''resourceslices'') then authorize_resource_slice feat g nd attrs
      else if kind = ('''', ''nodes'') \<and> authorize_node_with_selectors feat then authorize_node nd attrs
      else if kind = ('''', ''pods'') \<and> authorize_node_with_selectors feat then authorize_pod g nd attrs
      else if kind = (''certificates.k8s.io'', ''podcertificaterequests'') then
        (if pod_certificate_request feat \<and> authorize_node_with_selectors feat
         then authorize_pod_certificate_request g nd attrs else VNoOpinion [])
      else static_rules attrs)"

definition node_evaluate ::
  "(string \<Rightarrow> string) \<Rightarrow> node_features \<Rightarrow> graph_inner \<Rightarrow> request_attributes \<Rightarrow> verdict option" where
  "node_evaluate q feat g attrs =
     (case node_identity (req_user attrs) of
        (nd, is_node) \<Rightarrow>
          if \<not> is_node then None
          else if nd = [] then Some (VNoOpinion (''unknown node for user '' @ q (username (req_user attrs))))
          else if \<not> is_non_resource_request attrs then Some (subdivide q feat g nd attrs)
          else Some (static_rules attrs))"

definition node_authorize ::
  "(string \<Rightarrow> string) \<Rightarrow> node_features \<Rightarrow> graph_inner \<Rightarrow> request_attributes \<Rightarrow> decision" where
  "node_authorize q feat g attrs =
     (case node_evaluate q feat g attrs of
        Some VAllow \<Rightarrow> Allow
      | Some (VNoOpinion reason) \<Rightarrow>
          if reason \<noteq> [] then Deny reason
          else Deny (''Node '' @ fst (node_identity (req_user attrs)) @ '' is not authorized to '' @ verb attrs @ '' '' @
                     resource attrs @ '' in namespace '' @ req_ns attrs)
      | None \<Rightarrow> Deny ''Not a node user'')"

definition node_opinion ::
  "(string \<Rightarrow> string) \<Rightarrow> node_features \<Rightarrow> graph_inner \<Rightarrow> request_attributes \<Rightarrow> opinion" where
  "node_opinion q feat g attrs =
     (case node_evaluate q feat g attrs of
        Some VAllow \<Rightarrow> OpAllow []
      | Some (VNoOpinion reason) \<Rightarrow> NoOpinion reason None
      | None \<Rightarrow> NoOpinion [] None)"

definition node_rules_outcome :: "user_info \<Rightarrow> user_rules_outcome" where
  "node_rules_outcome user =
     (if snd (node_identity user)
      then no_rules\<lparr>uo_incomplete := True, uo_error := Some ''node authorizer does not support user rule resolution''\<rparr>
      else no_rules)"

definition node_authorizer :: "(string \<Rightarrow> string) \<Rightarrow> node_features \<Rightarrow> graph_inner \<Rightarrow> authorizer" where
  "node_authorizer q feat g =
     \<lparr>au_authorize = (\<lambda>attrs. Inr (node_authorize q feat g attrs)),
      au_opinion = (\<lambda>attrs. Inr (node_opinion q feat g attrs)),
      au_outcome = (\<lambda>attrs. default_outcome (Inr (node_opinion q feat g attrs))),
      au_user_rules = (\<lambda>_ _. Inr ([], [])),
      au_rules_outcome = (\<lambda>user _. Inr (node_rules_outcome user))\<rparr>"

section \<open>Properties\<close>

lemma node_evaluate_node:
  assumes "node_identity (req_user attrs) = (nd, True)" and "nd \<noteq> []" and "\<not> is_non_resource_request attrs"
  shows "node_authorize q feat g attrs = Allow \<longleftrightarrow> subdivide q feat g nd attrs = VAllow"
  using assms by (auto simp: node_authorize_def node_evaluate_def split: verdict.splits)

lemma authorize_object_allows:
  "authorize_object g nd t attrs = VAllow \<longleftrightarrow>
     req_nm attrs \<noteq> [] \<and> has_path_from nd t (req_ns attrs) (req_nm attrs) g = Inr True"
  by (auto simp: authorize_object_def no_relationship_def split: sum.splits bool.splits)



text \<open>C26. A node that is allowed to list or watch pods of all names sent a field selector that parses, and an object the
  selector matches is bound to that node; the one exception are objects without a node name, for a node that is
  called false.\<close>

theorem node_lists_own_pods:
  assumes "authorize_node_with_selectors feat"
    and "node_identity user = (nd, True)" and "nd \<noteq> []" and "v \<in> {''list'', ''watch''}"
    and "node_authorize q feat g (set_selectors field_sel label_sel (new_request user v ''pods'')) = Allow"
  shows "\<exists>sel. parse_field_selector field_sel = Inr sel \<and>
    (\<forall>obj. field_selector_matches sel obj \<longrightarrow>
       extract_field_value obj ''spec.nodeName'' = Some nd \<or>
       extract_field_value obj ''spec.nodeName'' = None \<and> nd = ''false'')"
proof -
  let ?r = "new_request user v ''pods''"
  let ?attrs = "set_selectors field_sel label_sel ?r"
  have same: "req_user ?attrs = user" "is_non_resource_request ?attrs = False" "api_group ?attrs = []"
    "resource ?attrs = ''pods''" "verb ?attrs = v" "req_nm ?attrs = []" "req_sub ?attrs = []"
    by (auto simp: set_selectors_def new_request_def req_nm_def req_sub_def Let_def split: sum.splits)
  have "subdivide q feat g nd ?attrs = authorize_pod g nd ?attrs"
    using assms(1) same by (simp add: subdivide_def)
  then have "authorize_pod g nd ?attrs = VAllow"
    using node_evaluate_node [of ?attrs nd q feat g] assms(2,3,5) same by simp
  then have "has_node_name_selector ?attrs ''spec.nodeName'' nd"
    using assms(4) same by (auto simp: authorize_pod_def split: if_splits)
  then obtain r where r: "r \<in> set (field_selector_requirements ?attrs)" "fr_field r = ''spec.nodeName''"
      "fr_operator r = FieldEquals" "fr_value r = nd"
    by (auto simp: has_node_name_selector_def list_ex_iff)
  have "field_selector_requirements ?attrs =
      (case parse_field_selector field_sel of Inr sel \<Rightarrow> fs_requirements sel | Inl _ \<Rightarrow> [])"
    by (auto simp: set_selectors_def new_request_def parse_field_selector_def Let_def split: sum.splits)
  then obtain sel where sel: "parse_field_selector field_sel = Inr sel" "r \<in> set (fs_requirements sel)"
    using r(1) by (cases "parse_field_selector field_sel") auto
  then show ?thesis using matched_equality [OF _ sel(2) r(3)] r(2,4) assms(3) by auto
qed

theorem node_lists_own_pods_witness:
  "\<exists>sel. parse_field_selector ''spec.nodeName=n1'' = Inr sel \<and>
    (\<forall>obj. field_selector_matches sel obj \<longrightarrow>
       extract_field_value obj ''spec.nodeName'' = Some ''n1'' \<or>
       extract_field_value obj ''spec.nodeName'' = None \<and> ''n1'' = ''false'')"
proof (rule node_lists_own_pods [where user = "\<lparr>username = ''system:node:n1'', user_uid = [], groups = [''system:nodes'']\<rparr>"
      and feat = "\<lparr>authorize_node_with_selectors = True, kubelet_service_account_token_for_credential_providers = True,
        pod_certificate_request = False\<rparr>"
      and q = "\<lambda>s. s" and g = new_graph and label_sel = "[]" and v = "''list''"])
  show "node_authorize (\<lambda>s. s)
     \<lparr>authorize_node_with_selectors = True, kubelet_service_account_token_for_credential_providers = True,
        pod_certificate_request = False\<rparr>
     new_graph
     (set_selectors ''spec.nodeName=n1'' []
       (new_request \<lparr>username = ''system:node:n1'', user_uid = [], groups = [''system:nodes'']\<rparr> ''list'' ''pods'')) = Allow"
    by (simp add: set_selectors_def parse_pod_node pod_node_def single_field_def new_request_def node_authorize_def
        node_evaluate_def node_identity_def strip_prefix_def subdivide_def authorize_pod_def req_sub_def
        has_node_name_selector_def)
qed (simp_all add: node_identity_def strip_prefix_def)

text \<open>The static rules leave the eviction of pods out, because nothing behind them limits it to the pods of the node;
  the rules for pods that are in force with selectors allow it for every pod.\<close>

lemma node_may_evict_any_pod:
  assumes "authorize_node_with_selectors feat" and "node_identity user = (nd, True)" and "nd \<noteq> []"
  shows "node_authorize q feat g
      ((new_request user ''create'' ''pods'')\<lparr>req_namespace := Some ns, req_name := Some pod, subresource := Some ''eviction''\<rparr>) = Allow"
    and "\<not> node_rules_allow
      ((new_request user ''create'' ''pods'')\<lparr>req_namespace := Some ns, req_name := Some pod, subresource := Some ''eviction''\<rparr>)"
  using assms
  by (simp_all add: node_authorize_def node_evaluate_def subdivide_def authorize_pod_def new_request_def req_sub_def
      node_rules_allow_def node_rules_def)

end
