(* ===== verification/NodeRestriction.thy ===== *)
theory NodeRestriction
  imports NodeAuthorizer
begin

text \<open>
  The admission of requests from nodes (\<^verbatim>\<open>crates/api-server/src/handlers/node_restriction.rs\<close>): the pods a node creates
  and deletes, the pod certificates and the service account tokens it requests. It narrows what the node authorizer
  grants.

  Messages are kept as the values they print. The store is the record of the answers it gives; the translation
  of old volume sources to CSI drivers (\<^verbatim>\<open>common/src/csi_translation.rs\<close>) is a record of the operations used.
\<close>

section \<open>Errors and the store\<close>

datatype lookup_error = LookupNotFound string | LookupFailed string

fun show_lookup :: "lookup_error \<Rightarrow> string" where
  "show_lookup (LookupNotFound m) = ''Resource not found: '' @ m"
| "show_lookup (LookupFailed m) = m"

datatype node_reason =
    NoMirrorAnnotation string
  | CreateForOtherNode string
  | SeveralOwners string
  | OwnerIsNotNode string
  | OwnerIsNotController string
  | OwnerBlocksDeletion string
  | NodeUidMismatch string string string
  | ReferencesObject string string
  | DeleteOfOtherNode string
  | UnexpectedOperation
  | UnexpectedSubresource string
  | RequestForOtherNode string string
  | NodeLookup string lookup_error
  | RequestNodeUid string string string
  | PodLookup string lookup_error
  | RequestPodUid string string string
  | PodOnOtherNode string string
  | IsMirrorPod string
  | RequestServiceAccount string string string
  | ServiceAccountLookup string lookup_error
  | RequestServiceAccountUid string string string
  | TokenWithoutPod
  | TokenWithoutUid
  | TokenLookup string
  | TokenUidMismatch string
  | TokenOnOtherNode
  | SeveralAudiences
  | AudienceLookup string string
  | AudienceNotAuthorized string string
  | AudienceAuthorizerError string string string

datatype admit_error =
    Forbidden node_reason
  | Internal node_reason
  | FromStorage lookup_error

record node_storage =
  get_node_uid :: "string \<Rightarrow> (lookup_error, string) result"
  get_pod :: "string \<Rightarrow> string \<Rightarrow> (lookup_error, pod) result"
  get_service_account_uid :: "string \<Rightarrow> string \<Rightarrow> (lookup_error, string) result"
  get_claim_volume :: "string \<Rightarrow> string \<Rightarrow> (lookup_error, string option) result"
  get_volume :: "string \<Rightarrow> (lookup_error, persistent_volume) result"
  get_csi_driver :: "string \<Rightarrow> (lookup_error, string list option) result"

record csi_translator =
  is_inline_migratable :: "volume \<Rightarrow> bool"
  translate_inline_driver :: "volume \<Rightarrow> string \<Rightarrow> (string, string option) result"
  is_pv_migratable :: "persistent_volume \<Rightarrow> bool"
  translate_pv_driver :: "persistent_volume \<Rightarrow> (string, string option) result"

section \<open>Pods\<close>

definition identify_node :: "user_info \<Rightarrow> string option" where
  "identify_node user =
     (case strip_prefix ''system:node:'' (username user) of
        None \<Rightarrow> None
      | Some nm \<Rightarrow> if ''system:nodes'' \<notin> set (groups user) then None else if nm = [] then None else Some nm)"

definition check_owner_references :: "node_storage \<Rightarrow> string \<Rightarrow> object_meta \<Rightarrow> (admit_error, unit) result" where
  "check_owner_references st nd m =
     (let owners = flat (owner_references m) in
      if length owners > 1 then Inl (Forbidden (SeveralOwners nd))
      else
        (case owners of
           [] \<Rightarrow> Inl (Forbidden (OwnerIsNotNode nd))
         | owner # _ \<Rightarrow>
             if owner_api_version owner \<noteq> ''v1'' \<or> owner_kind owner \<noteq> ''Node'' \<or> owner_name owner \<noteq> nd
             then Inl (Forbidden (OwnerIsNotNode nd))
             else if controller owner \<noteq> Some True then Inl (Forbidden (OwnerIsNotController nd))
             else if block_owner_deletion owner = Some True then Inl (Forbidden (OwnerBlocksDeletion nd))
             else
               (case get_node_uid st nd of
                  Inl e \<Rightarrow> Inl (FromStorage e)
                | Inr uid \<Rightarrow>
                    if owner_uid owner \<noteq> uid then Inl (Forbidden (NodeUidMismatch nd (owner_uid owner) uid))
                    else Inr ())))"

text \<open>The first reference of a loop that returns at the first one it finds.\<close>

fun first_reference :: "('a \<Rightarrow> string option) \<Rightarrow> 'a list \<Rightarrow> string option" where
  "first_reference f [] = None"
| "first_reference f (x # xs) = or_else (f x) (first_reference f xs)"

definition env_var_reference :: "env_source option \<Rightarrow> string option" where
  "env_var_reference value_from =
     (case value_from of
        None \<Rightarrow> None
      | Some src \<Rightarrow>
          if secret_key_ref src \<noteq> None then Some ''secrets''
          else if config_map_key_ref src \<noteq> None then Some ''configmaps'' else None)"

definition env_from_reference :: "env_from_source \<Rightarrow> string option" where
  "env_from_reference e =
     (if secret_ref e \<noteq> None then Some ''secrets'' else if config_map_ref e \<noteq> None then Some ''configmaps'' else None)"

definition container_reference :: "container \<Rightarrow> string option" where
  "container_reference c =
     or_else (first_reference env_var_reference (flat (c_env c))) (first_reference env_from_reference (flat (c_env_from c)))"

definition projection_reference :: "volume_projection \<Rightarrow> string option" where
  "projection_reference s =
     (if pj_config_map s \<noteq> None then Some ''configmaps (via projected volumes)''
      else if pj_secret s then Some ''secrets (via projected volumes)''
      else if pj_service_account_token s \<noteq> None then Some ''serviceaccounts (via projected volumes)''
      else if pj_cluster_trust_bundle s then Some ''clustertrustbundles''
      else if pj_pod_certificate s then Some ''podcertificates''
      else None)"

definition volume_reference :: "volume \<Rightarrow> string option" where
  "volume_reference v =
     (if vol_config_map v \<noteq> None then Some ''configmaps (via configmap volumes)''
      else if vol_secret v then Some ''secrets (via secret volumes)''
      else if vol_csi v \<noteq> None then Some ''csidrivers (via CSI volumes)''
      else if vol_claim_name v \<noteq> None then Some ''persistentvolumeclaims''
      else if vol_ephemeral v then Some ''persistentvolumeclaims (via ephemeral volumes)''
      else
        (case vol_projected v of
           None \<Rightarrow> None
         | Some projected \<Rightarrow> first_reference projection_reference (flat (proj_sources projected))))"

definition api_object_reference :: "pod \<Rightarrow> string option" where
  "api_object_reference p =
     (case p_spec p of
        None \<Rightarrow> None
      | Some spec \<Rightarrow>
          if (case service_account_name spec of None \<Rightarrow> False | Some s \<Rightarrow> s \<noteq> []) then Some ''serviceaccounts''
          else if (case image_pull_secrets spec of None \<Rightarrow> False | Some s \<Rightarrow> s \<noteq> []) then Some ''secrets''
          else
            or_else (first_reference container_reference (containers spec @ flat (init_containers spec)))
              (if (case resource_claims spec of None \<Rightarrow> False | Some c \<Rightarrow> c \<noteq> []) then Some ''resourceclaims''
               else first_reference volume_reference (flat (volumes spec))))"

definition admit_pod_create :: "node_storage \<Rightarrow> user_info \<Rightarrow> pod \<Rightarrow> (admit_error, unit) result" where
  "admit_pod_create st user p =
     (case identify_node user of
        None \<Rightarrow> Inr ()
      | Some nd \<Rightarrow>
          if \<not> is_mirror_pod p then Inl (Forbidden (NoMirrorAnnotation nd))
          else if pod_node_name p \<noteq> nd then Inl (Forbidden (CreateForOtherNode nd))
          else
            (case check_owner_references st nd (p_meta p) of
               Inl e \<Rightarrow> Inl e
             | Inr _ \<Rightarrow>
                 (case api_object_reference p of
                    Some res \<Rightarrow> Inl (Forbidden (ReferencesObject nd res))
                  | None \<Rightarrow> Inr ())))"

definition admit_pod_delete :: "user_info \<Rightarrow> pod \<Rightarrow> (admit_error, unit) result" where
  "admit_pod_delete user existing =
     (case identify_node user of
        None \<Rightarrow> Inr ()
      | Some nd \<Rightarrow> if pod_node_name existing \<noteq> nd then Inl (Forbidden (DeleteOfOtherNode nd)) else Inr ())"

section \<open>Certificates and tokens\<close>

definition lookup_failed :: "(lookup_error \<Rightarrow> node_reason) \<Rightarrow> lookup_error \<Rightarrow> admit_error" where
  "lookup_failed reason e = (case e of LookupNotFound _ \<Rightarrow> Internal (reason e) | LookupFailed _ \<Rightarrow> Forbidden (reason e))"

definition service_account_of :: "pod \<Rightarrow> string" where
  "service_account_of p = str_or_empty (do { spec \<leftarrow> p_spec p; service_account_name spec })"

definition admit_pod_certificate_request ::
  "node_storage \<Rightarrow> user_info \<Rightarrow> bool \<Rightarrow> string option \<Rightarrow> string \<Rightarrow> pcr \<Rightarrow> (admit_error, unit) result" where
  "admit_pod_certificate_request st user create sub namespace req =
     (case identify_node user of
        None \<Rightarrow> Inr ()
      | Some nd \<Rightarrow>
          if \<not> create then Inl (Forbidden UnexpectedOperation)
          else if (case sub of None \<Rightarrow> False | Some s \<Rightarrow> s \<noteq> []) then Inl (Forbidden (UnexpectedSubresource (str_or_empty sub)))
          else
            (let pod_ref = namespace @ ''/'' @ pcr_pod_name req in
             if pcr_node_name req \<noteq> nd then Inl (Forbidden (RequestForOtherNode (pcr_node_name req) nd))
             else
               (case get_node_uid st (pcr_node_name req) of
                  Inl e \<Rightarrow> Inl (lookup_failed (NodeLookup (pcr_node_name req)) e)
                | Inr node_uid \<Rightarrow>
                    if node_uid \<noteq> pcr_node_uid req then Inl (Internal (RequestNodeUid pod_ref (pcr_node_uid req) node_uid))
                    else
                      (case get_pod st namespace (pcr_pod_name req) of
                         Inl e \<Rightarrow> Inl (lookup_failed (PodLookup pod_ref) e)
                       | Inr p \<Rightarrow>
                           if pcr_pod_uid req \<noteq> meta_uid (p_meta p)
                           then Inl (Internal (RequestPodUid pod_ref (pcr_pod_uid req) (meta_uid (p_meta p))))
                           else if pod_node_name p \<noteq> pcr_node_name req
                           then Inl (Forbidden (PodOnOtherNode pod_ref (pcr_node_name req)))
                           else if is_mirror_pod p then Inl (Forbidden (IsMirrorPod pod_ref))
                           else if pcr_service_account_name req \<noteq> service_account_of p
                           then Inl (Forbidden (RequestServiceAccount pod_ref (pcr_service_account_name req) (service_account_of p)))
                           else
                             (let sa_ref = namespace @ ''/'' @ pcr_service_account_name req in
                              case get_service_account_uid st namespace (pcr_service_account_name req) of
                                Inl e \<Rightarrow> Inl (lookup_failed (ServiceAccountLookup sa_ref) e)
                              | Inr sa_uid \<Rightarrow>
                                  if pcr_service_account_uid req \<noteq> sa_uid
                                  then Inl (Internal (RequestServiceAccountUid pod_ref (pcr_service_account_uid req) sa_uid))
                                  else Inr ())))))"

record bound_object =
  bound_api_version :: "string option"
  bound_kind :: "string option"
  bound_name :: "string option"
  bound_uid :: "string option"

record token_request =
  audiences :: "string list"
  bound_object_ref :: "bound_object option"

definition csi_driver_has_audience :: "node_storage \<Rightarrow> string \<Rightarrow> string \<Rightarrow> (string, bool) result" where
  "csi_driver_has_audience st driver audience =
     (case get_csi_driver st driver of
        Inl e \<Rightarrow> Inl (show_lookup e)
      | Inr token_requests \<Rightarrow> Inr (list_ex (\<lambda>t. t = audience) (flat token_requests)))"

definition get_csi_from_pvc :: "node_storage \<Rightarrow> csi_translator \<Rightarrow> string \<Rightarrow> string \<Rightarrow> (string, string) result" where
  "get_csi_from_pvc st tr namespace claim =
     (case get_claim_volume st namespace claim of
        Inl e \<Rightarrow> Inl (show_lookup e)
      | Inr volume_name \<Rightarrow>
          (case get_volume st (str_or_empty volume_name) of
             Inl e \<Rightarrow> Inl (show_lookup e)
           | Inr pv \<Rightarrow>
               (case pv_csi pv of
                  Some driver \<Rightarrow> Inr driver
                | None \<Rightarrow>
                    if is_pv_migratable tr pv then
                      (case translate_pv_driver tr pv of
                         Inl e \<Rightarrow> Inl e
                       | Inr driver \<Rightarrow> Inr (str_or_empty driver))
                    else Inr [])))"

definition volume_driver :: "node_storage \<Rightarrow> csi_translator \<Rightarrow> pod \<Rightarrow> volume \<Rightarrow> (string, string) result" where
  "volume_driver st tr p v =
     (let namespace = namespace_of (p_meta p) in
      if vol_claim_template v then get_csi_from_pvc st tr namespace (meta_name (p_meta p) @ ''-'' @ vol_name v)
      else
        (case vol_claim_name v of
           Some claim \<Rightarrow> get_csi_from_pvc st tr namespace claim
         | None \<Rightarrow>
             (case vol_csi v of
                Some driver \<Rightarrow> Inr driver
              | None \<Rightarrow>
                  if is_inline_migratable tr v then
                    (case translate_inline_driver tr v namespace of
                       Inl e \<Rightarrow> Inl e
                     | Inr driver \<Rightarrow> Inr (str_or_empty driver))
                  else Inr [])))"

definition projects_audience :: "string \<Rightarrow> volume \<Rightarrow> bool" where
  "projects_audience audience v =
     (case vol_projected v of
        None \<Rightarrow> False
      | Some projected \<Rightarrow>
          list_ex (\<lambda>src. case pj_service_account_token src of None \<Rightarrow> False | Some t \<Rightarrow> str_or_empty t = audience)
            (flat (proj_sources projected)))"

text \<open>The loop over the volumes, with the errors collected; the answer of a volume that has the audience ends it.\<close>

fun audience_loop ::
  "node_storage \<Rightarrow> csi_translator \<Rightarrow> pod \<Rightarrow> string \<Rightarrow> volume list \<Rightarrow> string list \<Rightarrow> (string, bool) result" where
  "audience_loop st tr p audience [] errs =
     (case errs of [] \<Rightarrow> Inr False | [e] \<Rightarrow> Inl e | _ \<Rightarrow> Inl (''['' @ join '', '' errs @ '']''))"
| "audience_loop st tr p audience (v # vs) errs =
     (if projects_audience audience v then Inr True
      else
        (case volume_driver st tr p v of
           Inl e \<Rightarrow> audience_loop st tr p audience vs (errs @ [e])
         | Inr driver \<Rightarrow>
             if driver = [] then audience_loop st tr p audience vs errs
             else
               (case csi_driver_has_audience st driver audience of
                  Inr True \<Rightarrow> Inr True
                | Inr False \<Rightarrow> audience_loop st tr p audience vs errs
                | Inl e \<Rightarrow> audience_loop st tr p audience vs (errs @ [e]))))"

definition pod_volumes :: "pod \<Rightarrow> volume list" where
  "pod_volumes p = flat (do { spec \<leftarrow> p_spec p; volumes spec })"

definition pod_references_audience :: "node_storage \<Rightarrow> csi_translator \<Rightarrow> pod \<Rightarrow> string \<Rightarrow> (string, bool) result" where
  "pod_references_audience st tr p audience = audience_loop st tr p audience (pod_volumes p) []"

definition audience_attributes :: "user_info \<Rightarrow> string \<Rightarrow> string \<Rightarrow> string \<Rightarrow> request_attributes" where
  "audience_attributes user audience namespace sa =
     (new_request user ''request-serviceaccounts-token-audience'' audience)
       \<lparr>req_namespace := Some namespace, api_group := [], api_version := ''v1'', req_name := Some sa\<rparr>"

definition validate_node_service_account_audience ::
  "node_storage \<Rightarrow> csi_translator \<Rightarrow> authorizer \<Rightarrow> user_info \<Rightarrow> string \<Rightarrow> string \<Rightarrow> token_request \<Rightarrow> pod \<Rightarrow>
   (node_reason, unit) result" where
  "validate_node_service_account_audience st tr authz user namespace sa req p =
     (if length (audiences req) > 1 then Inl SeveralAudiences
      else
        (let audience = (case audiences req of [] \<Rightarrow> [] | a # _ \<Rightarrow> a) in
         case pod_references_audience st tr p audience of
           Inl e \<Rightarrow> Inl (AudienceLookup audience e)
         | Inr True \<Rightarrow> Inr ()
         | Inr False \<Rightarrow>
             (case au_authorize authz (audience_attributes user audience namespace sa) of
                Inr Allow \<Rightarrow> Inr ()
              | Inr (Deny _) \<Rightarrow> Inl (AudienceNotAuthorized audience (username user))
              | Inl e \<Rightarrow> Inl (AudienceAuthorizerError audience (username user) e))))"

definition admit_service_account_token ::
  "node_storage \<Rightarrow> csi_translator \<Rightarrow> authorizer \<Rightarrow> user_info \<Rightarrow> string \<Rightarrow> string \<Rightarrow> token_request \<Rightarrow> bool \<Rightarrow>
   (admit_error, unit) result" where
  "admit_service_account_token st tr authz user namespace sa req audience_restriction =
     (case identify_node user of
        None \<Rightarrow> Inr ()
      | Some nd \<Rightarrow>
          (let bound = bound_object_ref req;
               api_version = str_or_empty (Option.bind bound bound_api_version);
               kind = str_or_empty (Option.bind bound bound_kind);
               ref_name = str_or_empty (Option.bind bound bound_name);
               ref_uid = str_or_empty (Option.bind bound bound_uid)
           in if bound = None \<or> api_version \<noteq> ''v1'' \<or> kind \<noteq> ''Pod'' \<or> ref_name = [] then Inl (Forbidden TokenWithoutPod)
              else if ref_uid = [] then Inl (Forbidden TokenWithoutUid)
              else
                (case get_pod st namespace ref_name of
                   Inl (LookupNotFound m) \<Rightarrow> Inl (FromStorage (LookupNotFound m))
                 | Inl e \<Rightarrow> Inl (Forbidden (TokenLookup (show_lookup e)))
                 | Inr p \<Rightarrow>
                     if ref_uid \<noteq> meta_uid (p_meta p) then Inl (Forbidden (TokenUidMismatch ref_uid))
                     else if pod_node_name p \<noteq> nd then Inl (Forbidden TokenOnOtherNode)
                     else if audience_restriction then
                       (case validate_node_service_account_audience st tr authz user namespace sa req p of
                          Inl reason \<Rightarrow> Inl (Forbidden reason)
                        | Inr _ \<Rightarrow> Inr ())
                     else Inr ())))"



section \<open>What is admitted\<close>

lemma identify_node_identity: "identify_node user = Some nd \<longleftrightarrow> node_identity user = (nd, True) \<and> nd \<noteq> []"
  by (auto simp: identify_node_def node_identity_def split: option.splits)

lemma admitted_pod:
  assumes "identify_node user = Some nd" and "admit_pod_create st user p = Inr ()"
  shows "is_mirror_pod p" and "pod_node_name p = nd"
  using assms by (auto simp: admit_pod_create_def split: if_splits)

lemma mirror_pod_refs: "is_mirror_pod p \<Longrightarrow> pod_refs p = []"
  by (simp add: pod_refs_def)

lemma mirror_pod_used:
  "is_mirror_pod p \<Longrightarrow> used_by_pod (declare_event (AddPod p) c) nd t ns x \<Longrightarrow> used_by_pod c nd t ns x"
  by (auto simp: used_by_pod_def mirror_pod_refs split: if_splits)

lemma mirror_pod_related:
  assumes "is_mirror_pod p" and "related (declare_event (AddPod p) c) nd t ns x"
  shows "related c nd t ns x \<or>
    t = Pod \<and> nd = pod_node_name p \<and> ns = namespace_of (p_meta p) \<and> x = meta_name (p_meta p)"
proof (cases t)
  case Pv
  then show ?thesis using assms mirror_pod_used [OF assms(1)] by (auto simp: related_def)
next
  case Secret
  then show ?thesis
    using assms mirror_pod_used [OF assms(1)] unfolding related_def by (simp del: declare_event.simps) (auto; blast)
qed (use assms mirror_pod_used [OF assms(1)] in \<open>auto simp: related_def split: if_splits\<close>)

lemma run_events_snoc: "run_events (evs @ [ev]) g = Option.bind (run_events evs g) (apply_event ev)"
proof (induction evs arbitrary: g)
  case Nil then show ?case by (cases "apply_event ev g") simp_all
next
  case (Cons e evs) then show ?case by (cases "apply_event e g") simp_all
qed


definition demo_user :: user_info where
  "demo_user = \<lparr>username = ''system:node:n1'', user_uid = [], groups = [''system:nodes'']\<rparr>"

definition demo_storage :: "pod \<Rightarrow> node_storage" where
  "demo_storage p =
     \<lparr>get_node_uid = (\<lambda>_. Inr ''u1''), get_pod = (\<lambda>_ _. Inr p), get_service_account_uid = (\<lambda>_ n. Inl (LookupNotFound n)),
      get_claim_volume = (\<lambda>_ n. Inl (LookupNotFound n)), get_volume = (\<lambda>n. Inl (LookupNotFound n)),
      get_csi_driver = (\<lambda>n. Inl (LookupNotFound n))\<rparr>"

definition demo_mirror :: pod where
  "demo_mirror =
     \<lparr>p_meta = \<lparr>meta_name = ''m'', meta_namespace = Some ''ns'', meta_uid = ''m'',
        meta_annotations = Some [mirror_pod_annotation_key \<mapsto> ''h''],
        owner_references = Some [\<lparr>owner_api_version = ''v1'', owner_kind = ''Node'', owner_name = ''n1'', owner_uid = ''u1'',
          block_owner_deletion = None, controller = Some True\<rparr>]\<rparr>,
      p_spec = Some \<lparr>node_name = Some ''n1'', service_account_name = None, image_pull_secrets = None,
        init_containers = None, containers = [\<lparr>c_env = None, c_env_from = None\<rparr>], ephemeral_containers = None, volumes = None,
        resource_claims = None\<rparr>,
      p_status = None\<rparr>"


text \<open>A pod has an audience if one of its volumes projects a token for it, or comes from a driver that requests one.\<close>

definition volume_has_audience :: "node_storage \<Rightarrow> csi_translator \<Rightarrow> pod \<Rightarrow> string \<Rightarrow> volume \<Rightarrow> bool" where
  "volume_has_audience st tr p audience v \<longleftrightarrow>
     projects_audience audience v \<or>
     (\<exists>driver requests. volume_driver st tr p v = Inr driver \<and> driver \<noteq> [] \<and> get_csi_driver st driver = Inr requests \<and>
        audience \<in> set (flat requests))"

lemma audience_loop_true:
  "audience_loop st tr p audience vs errs = Inr True \<longleftrightarrow> (\<exists>v\<in>set vs. volume_has_audience st tr p audience v)"
proof (induction vs arbitrary: errs)
  case Nil then show ?case by (auto split: list.splits)
next
  case (Cons v vs)
  have driver: "csi_driver_has_audience st d audience = Inr True \<longleftrightarrow>
      (\<exists>requests. get_csi_driver st d = Inr requests \<and> audience \<in> set (flat requests))" for d
    by (auto simp: csi_driver_has_audience_def list_ex_iff split: sum.splits)
  have one: "volume_has_audience st tr p audience v \<longleftrightarrow>
      projects_audience audience v \<or>
      (\<exists>d. volume_driver st tr p v = Inr d \<and> d \<noteq> [] \<and> csi_driver_has_audience st d audience = Inr True)"
    unfolding volume_has_audience_def driver by blast
  show ?case using Cons.IH by (auto simp: one split: sum.splits bool.splits)
qed

lemma validated_audience:
  assumes "validate_node_service_account_audience st tr authz user namespace sa req p = Inr ()"
  shows "\<exists>audience. audiences req \<in> {[], [audience]} \<and> (audiences req = [] \<longrightarrow> audience = []) \<and>
    ((\<exists>v\<in>set (pod_volumes p). volume_has_audience st tr p audience v) \<or>
     au_authorize authz (audience_attributes user audience namespace sa) = Inr Allow)"
  using assms audience_loop_true [of st tr p _ "pod_volumes p" "[]"]
  by (auto simp: validate_node_service_account_audience_def pod_references_audience_def Let_def not_less le_Suc_eq length_Suc_conv
      split: if_splits sum.splits bool.splits decision.splits list.splits)

lemma admitted_token:
  assumes "identify_node user = Some nd" and "admit_service_account_token st tr authz user namespace sa req True = Inr ()"
  obtains bound n p where "bound_object_ref req = Some bound" and "bound_kind bound = Some ''Pod''" and "bound_name bound = Some n"
    and "get_pod st namespace n = Inr p" and "bound_uid bound = Some (meta_uid (p_meta p))" and "pod_node_name p = nd"
    and "validate_node_service_account_audience st tr authz user namespace sa req p = Inr ()"
proof -
  note adm = assms(2) [unfolded admit_service_account_token_def assms(1), simplified]
  obtain bound where b: "bound_object_ref req = Some bound" using adm by (auto simp: Let_def split: if_splits)
  obtain n uid where n: "bound_kind bound = Some ''Pod''" "bound_name bound = Some n" "bound_uid bound = Some uid"
    using adm by (auto simp: Let_def b split: if_splits option.splits)
  obtain p where p: "get_pod st namespace n = Inr p"
    using adm by (auto simp: Let_def b n split: if_splits option.splits sum.splits lookup_error.splits)
  have "uid = meta_uid (p_meta p)" "pod_node_name p = nd"
    "validate_node_service_account_audience st tr authz user namespace sa req p = Inr ()"
    using adm by (auto simp: Let_def b n p split: if_splits option.splits sum.splits)
  then show thesis using that b n p by blast
qed

lemma create_token_allowed:
  assumes "identify_node user = Some nd"
    and "node_authorize q feat g
      ((new_request user ''create'' ''serviceaccounts'')\<lparr>req_namespace := Some ns, req_name := Some sa, subresource := Some ''token''\<rparr>) = Allow"
  shows "has_path_from nd ServiceAccount ns sa g = Inr True"
proof -
  let ?attrs = "(new_request user ''create'' ''serviceaccounts'')\<lparr>req_namespace := Some ns, req_name := Some sa, subresource := Some ''token''\<rparr>"
  have nd: "node_identity (req_user ?attrs) = (nd, True)" "nd \<noteq> []" "\<not> is_non_resource_request ?attrs"
    using assms(1) by (simp_all add: identify_node_identity new_request_def)
  have "subdivide q feat g nd ?attrs = authorize_create_token g nd ServiceAccount ?attrs"
    by (simp add: subdivide_def authorize_service_account_def new_request_def)
  then show ?thesis
    using assms(2) node_evaluate_node [OF nd]
    by (auto simp: authorize_create_token_def new_request_def req_sub_def req_ns_def req_nm_def no_relationship_def
        split: if_splits sum.splits bool.splits)
qed

text \<open>C22. A node that is allowed to create a token of a service account and whose request is admitted has a pod that uses the
  service account; the token is bound to a stored pod of the node, by name and identity, and has at most one
  audience, which a volume of that pod asks for or which the authorizer grants to the node.\<close>

theorem node_token_for_own_pod:
  assumes "run_events evs (empty_graph h) = Some g" and "\<forall>ev\<in>set evs. \<not> repeats ev"
    and "identify_node user = Some nd"
    and "node_authorize q feat g
      ((new_request user ''create'' ''serviceaccounts'')\<lparr>req_namespace := Some ns, req_name := Some sa, subresource := Some ''token''\<rparr>) = Allow"
    and "admit_service_account_token st tr authz user ns sa req True = Inr ()"
  shows "used_by_pod (declared evs) nd ServiceAccount ns sa \<and>
    (\<exists>bound n p audience.
       bound_object_ref req = Some bound \<and> bound_name bound = Some n \<and> get_pod st ns n = Inr p \<and>
       bound_uid bound = Some (meta_uid (p_meta p)) \<and> pod_node_name p = nd \<and> audiences req \<in> {[], [audience]} \<and>
       (audience \<noteq> [] \<longrightarrow> audiences req = [audience]) \<and>
       ((\<exists>v\<in>set (pod_volumes p). volume_has_audience st tr p audience v) \<or>
        au_authorize authz (audience_attributes user audience ns sa) = Inr Allow))"
proof
  have "related (declared evs) nd ServiceAccount ns sa"
    using create_token_allowed [OF assms(3,4)] graph_answers [OF assms(1,2)] by blast
  then show "used_by_pod (declared evs) nd ServiceAccount ns sa" by (simp add: related_def)
next
  obtain bound n p where t: "bound_object_ref req = Some bound" "bound_name bound = Some n" "get_pod st ns n = Inr p"
      "bound_uid bound = Some (meta_uid (p_meta p))" "pod_node_name p = nd"
      and v: "validate_node_service_account_audience st tr authz user ns sa req p = Inr ()"
    using admitted_token [OF assms(3,5)] by metis
  obtain audience where "audiences req \<in> {[], [audience]}" "audiences req = [] \<longrightarrow> audience = []"
      "(\<exists>v\<in>set (pod_volumes p). volume_has_audience st tr p audience v) \<or>
       au_authorize authz (audience_attributes user audience ns sa) = Inr Allow"
    using validated_audience [OF v] by blast
  then show "\<exists>bound n p audience.
       bound_object_ref req = Some bound \<and> bound_name bound = Some n \<and> get_pod st ns n = Inr p \<and>
       bound_uid bound = Some (meta_uid (p_meta p)) \<and> pod_node_name p = nd \<and> audiences req \<in> {[], [audience]} \<and>
       (audience \<noteq> [] \<longrightarrow> audiences req = [audience]) \<and>
       ((\<exists>v\<in>set (pod_volumes p). volume_has_audience st tr p audience v) \<or>
        au_authorize authz (audience_attributes user audience ns sa) = Inr Allow)"
    using t by (intro exI [of _ bound] exI [of _ n] exI [of _ p] exI [of _ audience]) auto
qed

definition demo_volume :: volume where
  "demo_volume =
     \<lparr>vol_name = ''token'', vol_claim_name = None, vol_ephemeral = False, vol_claim_template = False, vol_secret = False,
      vol_csi = None,
      vol_projected = Some \<lparr>proj_sources = Some [\<lparr>pj_secret = False, pj_config_map = None,
        pj_service_account_token = Some (Some ''api''), pj_cluster_trust_bundle = False, pj_pod_certificate = False\<rparr>]\<rparr>,
      vol_config_map = None, vol_value = None\<rparr>"

definition demo_pod_with_token :: pod where
  "demo_pod_with_token =
     \<lparr>p_meta = \<lparr>meta_name = ''a'', meta_namespace = Some ''ns'', meta_uid = ''ua'', meta_annotations = None, owner_references = None\<rparr>,
      p_spec = Some \<lparr>node_name = Some ''n1'', service_account_name = Some ''sa'', image_pull_secrets = None,
        init_containers = None, containers = [], ephemeral_containers = None, volumes = Some [demo_volume],
        resource_claims = None\<rparr>,
      p_status = None\<rparr>"

definition demo_token_request :: token_request where
  "demo_token_request =
     \<lparr>audiences = [''api''],
      bound_object_ref = Some \<lparr>bound_api_version = Some ''v1'', bound_kind = Some ''Pod'', bound_name = Some ''a'',
        bound_uid = Some ''ua''\<rparr>\<rparr>"

definition demo_translator :: csi_translator where
  "demo_translator =
     \<lparr>is_inline_migratable = (\<lambda>_. False), translate_inline_driver = (\<lambda>_ _. Inr None), is_pv_migratable = (\<lambda>_. False),
      translate_pv_driver = (\<lambda>_. Inr None)\<rparr>"

definition demo_features :: node_features where
  "demo_features =
     \<lparr>authorize_node_with_selectors = True, kubelet_service_account_token_for_credential_providers = True,
      pod_certificate_request = False\<rparr>"

theorem node_token_for_own_pod_witness:
  "used_by_pod (declared [AddPod demo_pod_with_token]) ''n1'' ServiceAccount ''ns'' ''sa'' \<and>
   (\<exists>p. get_pod (demo_storage demo_pod_with_token) ''ns'' ''a'' = Inr p \<and> pod_node_name p = ''n1'')"
proof -
  let ?evs = "[AddPod demo_pod_with_token]" and ?st = "demo_storage demo_pod_with_token"
  have refs: "pod_refs demo_pod_with_token = [(ServiceAccount, ''sa'')]" by code_simp
  have once: "\<forall>ev\<in>set ?evs. \<not> repeats ev" by (simp add: repeats_def refs)
  obtain g where g: "run_events ?evs (empty_graph 200) = Some g"
    using run_events_rel [OF empty_rel empty_ok, of False ?evs 200] by auto
  have node: "identify_node demo_user = Some ''n1''" by code_simp
  have key: "namespace_of (p_meta demo_pod_with_token) = ''ns''" "meta_name (p_meta demo_pod_with_token) = ''a''"
    "pod_node_name demo_pod_with_token = ''n1''"
    by code_simp+
  have "related (declared ?evs) ''n1'' ServiceAccount ''ns'' ''sa''"
    by (auto simp: related_def used_by_pod_def refs key)
  then have path: "has_path_from ''n1'' ServiceAccount ''ns'' ''sa'' g = Inr True" using graph_answers [OF g once] by blast
  have allowed: "node_authorize (\<lambda>s. s) demo_features g
      ((new_request demo_user ''create'' ''serviceaccounts'')
        \<lparr>req_namespace := Some ''ns'', req_name := Some ''sa'', subresource := Some ''token''\<rparr>) = Allow"
    by (simp add: node_authorize_def node_evaluate_def demo_user_def node_identity_def strip_prefix_def subdivide_def
        authorize_service_account_def authorize_create_token_def new_request_def req_sub_def req_ns_def req_nm_def path)
  have admitted: "admit_service_account_token ?st demo_translator always_deny demo_user ''ns'' ''sa'' demo_token_request True = Inr ()"
    by code_simp
  from node_token_for_own_pod [OF g once node allowed admitted] show ?thesis by (auto simp: demo_token_request_def)
qed

text \<open>The check for references looks at regular and init containers and at some volumes only: a pod whose ephemeral container
  takes a variable from a secret refers to nothing according to the check, and to the secret according to the graph.\<close>

lemma reference_check_misses_ephemeral_containers:
  "let p = demo_mirror\<lparr>p_spec := Some \<lparr>node_name = Some ''n1'', service_account_name = None, image_pull_secrets = None,
        init_containers = None, containers = [],
        ephemeral_containers = Some [\<lparr>c_env = None, c_env_from = Some [\<lparr>secret_ref = Some ''s'', config_map_ref = None\<rparr>]\<rparr>],
        volumes = None, resource_claims = None\<rparr>\<rparr>
   in api_object_reference p = None \<and> visit_pod_secret_names p = [''s'']"
  by (simp add: Let_def api_object_reference_def or_else_def flat_def visit_pod_secret_names_def visit_container_env_def
      container_secrets_def map_filter_simps demo_mirror_def)

end
