(* ===== verification/Spec2Isabelle.thy ===== *)
theory Spec2Isabelle
  imports SchedulerCache WorkQueue QueueProperties FairQueueProperties QuantityText LeaseLock Pagination StatusWrites LabelSelector StrategicPatch
    NodeRestriction
begin

text \<open>
  A verification development for Rusternetes, a Kubernetes control plane and node agent in Rust
  (\<^verbatim>\<open>src/crates\<close>). The program is a set of processes around one API server: the API server stores
  objects through the \<open>Storage\<close> trait and streams their changes to watchers; controllers take keys from
  rate-limited work queues and write objects and statuses back; the scheduler keeps the pods without a node
  in a scheduling queue and the pods it has placed in a cache; replicas of a component elect a leader
  through a Lease object; the kubelet and the proxies act on the objects of their node. The development
  models the parts on which the correctness of the others rests and that keep state of their own.

  \<^bold>\<open>Theories and sources.\<close>

  \<^item> \<open>Prelude\<close>: panics and results as values, bounds-checked vectors, labelled runs of a step relation, and
    the locales \<open>inv_system\<close> and \<open>owing_system\<close> through which every state machine below obtains its invariant.
    \<open>Decimal\<close>: machine integers of fixed width and their decimal text.
  \<^item> \<open>KeyedHeap\<close> (\<^verbatim>\<open>scheduler/src/queue/heap.rs\<close>): the heap with an index by key, array and index kept as in
    the source; \<open>SchedulingOrder\<close>: queue entries, their orders and the backoff arithmetic;
    \<open>SchedulingEvents\<close> (\<^verbatim>\<open>queue/events.rs\<close>): pods and cluster events; \<open>Nominator\<close> (\<^verbatim>\<open>queue/nominator.rs\<close>);
    \<open>SchedulingQueue\<close> (\<^verbatim>\<open>queue/scheduling_queue.rs\<close>): every operation of the queue on the state behind its
    mutex; \<open>QueueInvariants\<close> and \<open>QueueProperties\<close>: what they do, and the queue as a state machine.
    \<open>SchedulerCache\<close> (\<^verbatim>\<open>scheduler/src/cache.rs\<close>): assumed and added pods.
  \<^item> \<open>StorageTypes\<close> (\<^verbatim>\<open>storage/src/concurrency.rs\<close>, \<^verbatim>\<open>preconditions.rs\<close>), \<open>MemoryStorage\<close>
    (\<^verbatim>\<open>storage/src/memory.rs\<close>) and \<open>StorageHistory\<close>: the in-memory backend with its revisions, watch history
    and expiry, and the histories it can have; \<open>Pagination\<close> and \<open>StatusWrites\<close> (\<^verbatim>\<open>storage/src/lib.rs\<close>): the
    default operations of the trait built on it, among other writers; \<open>WorkQueue\<close> (\<^verbatim>\<open>storage/src/workqueue.rs\<close>).
  \<^item> \<open>Dealer\<close>, \<open>FairQueue\<close> (\<^verbatim>\<open>api-server/src/flow_control_queueset.rs\<close>): shuffle sharding, and every operation of
    the fair queues that admit the requests of a priority level to its seats; \<open>FairQueueInvariants\<close> and
    \<open>FairQueueProperties\<close>: their accounting, and the queues together with the clients that own the requests.
  \<^item> \<open>LeaderElection\<close> (\<^verbatim>\<open>common/src/leaderelection.rs\<close>) over the contract of a lock, and \<open>LeaseLock\<close>
    (\<^verbatim>\<open>storage/src/lease_lock.rs\<close>) which implements the contract on the store.
  \<^item> \<open>Quantity\<close> and \<open>QuantityText\<close> (\<^verbatim>\<open>common/src/quantity.rs\<close>), \<open>LabelSelector\<close>
    (\<^verbatim>\<open>common/src/label_selector.rs\<close>), \<open>FieldSelector\<close> (\<^verbatim>\<open>common/src/field_selector.rs\<close>): parsers, printers and the
    meaning of what they read.
  \<^item> \<open>JsonPatch\<close> and \<open>StrategicPatch\<close> (\<^verbatim>\<open>common/src/patch.rs\<close>, \<^verbatim>\<open>patch/meta.rs\<close>): the three kinds of patch a client may send.
  \<^item> \<open>Authorization\<close> (\<^verbatim>\<open>common/src/authz.rs\<close>, \<^verbatim>\<open>authz/reasons.rs\<close>): requests, the authorizer for roles and bindings, the union of
    authorizers. \<open>NodeGraph\<close> and \<open>GraphPopulator\<close> (\<^verbatim>\<open>authz/node_graph.rs\<close>): the graph of the objects a node may need, its index,
    its search, and what feeds it; \<open>NodeGraphInvariants\<close> has the effect of each operation on the tables, \<open>NodeRelations\<close> the
    objects declared by a sequence of events and the edges they imply, \<open>NodeSearch\<close> that the search decides the relation.
    \<open>NodeAuthorizer\<close> (\<^verbatim>\<open>authz/node_authorizer.rs\<close>) asks the graph. \<open>NodeRestriction\<close> (\<^verbatim>\<open>api-server/src/handlers/node_restriction.rs\<close>) admits what
    the node authorizer allowed; the two together bound what a node can obtain. The translation of volumes to CSI drivers
    it consults is a parameter.

  \<^bold>\<open>Correspondence.\<close> A struct is a record with the fields the code reads, an enum a datatype, a method a
  function from the state to its answer and the new state; the critical section of a lock is one such
  function, and concurrent callers are sequences of them. \<open>Result\<close> is a sum type, a panic is \<^const>\<open>None\<close>; integer
  arithmetic keeps its width where it can leave it. Clock readings, fresh identifiers and the iteration
  orders of hash maps are arguments. Third-party code is a parameter: \<open>serde_json\<close> as a pair of functions with
  a round trip law (for which instances are given), the plugins of the scheduler as the functions
  registered in its maps. The floating point numbers of the fair queues are a parameter with the operations the
  code uses; nothing is assumed of them but that the logarithm of the entropy check is sound. The
  quoting of names in the reasons of a decision is an argument of which nothing is assumed.

  \<^bold>\<open>What is shown.\<close> State machines: an invariant of all reachable states, that every operation returns, and what
  the machine promises its clients (no lost work, no lost wake-up, no two workers on a key, no two leaders
  before a lease expires). Refinement: the cache implements the pod life cycle, the nominator its
  specification, the heap a priority queue, a paged list the snapshot it was started on, a read at a revision
  the past, the graph of the node authorizer the relation its objects declare, the role authorizer what the bindings grant. Text: parsers accept exactly the documented grammar with the documented meaning, and what is
  printed reads back. Error paths: failed operations change nothing, except where a theorem shows that they
  do; those theorems are the findings of the manifest.

  \<^bold>\<open>Loops and bounds.\<close> Loops are structural recursions, recursions with a termination proof, or
  \<open>partial_function (option)\<close> with a theorem that they return; no fuel is used. The revision counter of the
  store is assumed to stay below \<open>2^63\<close> where it matters, and sequence counters of the scheduling queue are
  unbounded.

  \<^bold>\<open>Not modelled.\<close> Clients of external stores and services (the web hook authorizer among them), HTTP handlers, generated and declarative types,
  wire encodings, node agents that drive processes and packet filters, and the asynchronous loops around the
  modelled state (who is woken up, when a timer fires): the manifest lists them with the reason.
\<close>

end
